(* ===== verification/Prelude.thy ===== *)
theory Prelude
  imports Main "HOL-Library.Word" "HOL-Library.List_Lexorder"
begin

text \<open>
  Shared vocabulary of the development: the machine integers of the Rust sources as words, Rust
  characters and strings as lists of Unicode scalar values, little-endian byte encodings
  (\<^verbatim>\<open>to_le_bytes\<close> / \<^verbatim>\<open>from_le_bytes\<close>), UTF-8 (\<^verbatim>\<open>as_bytes\<close> / \<^verbatim>\<open>std::str::from_utf8\<close>)
  and the generic facts on lists, options and words that the component theories share.
\<close>

unbundle bit_operations_syntax

named_theorems wire_simps \<open>lengths and slices of encoded byte strings\<close>

type_synonym u8 = "8 word"
type_synonym u16 = "16 word"
type_synonym u32 = "32 word"
type_synonym u64 = "64 word"
type_synonym i64 = "64 word" \<comment> \<open>read with \<^const>\<open>sint\<close>\<close>
type_synonym bytes = "8 word list"
type_synonym rchar = nat \<comment> \<open>a Rust \<open>char\<close>: a Unicode scalar value\<close>
type_synonym rstring = "nat list" \<comment> \<open>a Rust \<open>String\<close>: its characters\<close>

text \<open>A literal of the sources (all of them ASCII) as characters and as bytes.\<close>

abbreviation ch :: "char \<Rightarrow> rchar" where
  "ch c \<equiv> of_char c"

abbreviation lit :: "string \<Rightarrow> rstring" where
  "lit s \<equiv> map of_char s"

abbreviation lit_bytes :: "string \<Rightarrow> bytes" where
  "lit_bytes s \<equiv> map of_char s"

subsection \<open>Results\<close>

text \<open>\<open>Result\<close> is a sum with the error on the left; the bind is the \<open>?\<close> operator.\<close>

definition try_bind :: "'e + 'a \<Rightarrow> ('a \<Rightarrow> 'e + 'b) \<Rightarrow> 'e + 'b" where
  "try_bind r f = (case r of Inl e \<Rightarrow> Inl e | Inr a \<Rightarrow> f a)"

lemma try_bind_simps [simp]:
  "try_bind (Inl e) f = Inl e" "try_bind (Inr a) f = f a"
  by (simp_all add: try_bind_def)

lemma try_bind_Inr_iff:
  "try_bind r f = Inr b \<longleftrightarrow> (\<exists>a. r = Inr a \<and> f a = Inr b)"
  by (cases r) simp_all

subsection \<open>Lists\<close>

lemma drop_step: "i < length xs \<Longrightarrow> drop i xs = xs ! i # drop (Suc i) xs"
  by (simp add: Cons_nth_drop_Suc)

text \<open>Facts about the first \<open>n\<close> numbers, evaluated.\<close>

lemma upt_all: "list_all P [0..<n] \<Longrightarrow> k < n \<Longrightarrow> P k"
  by (simp add: list_all_iff)

subsection \<open>Little-endian integers\<close>

fun le_bytes :: "nat \<Rightarrow> 'a::len word \<Rightarrow> bytes" where
  "le_bytes 0 w = []"
| "le_bytes (Suc n) w = ucast w # le_bytes n (drop_bit 8 w)"

fun le_word :: "bytes \<Rightarrow> 'a::len word" where
  "le_word [] = 0"
| "le_word (b # bs) = ucast b OR push_bit 8 (le_word bs)"

lemma length_le_bytes [simp, wire_simps]: "length (le_bytes n w) = n"
  by (induction n arbitrary: w) simp_all

lemma bit_le_word:
  fixes bs :: bytes
  shows "bit (le_word bs :: 'a::len word) i \<longleftrightarrow>
    i < LENGTH('a) \<and> i div 8 < length bs \<and> bit (bs ! (i div 8)) (i mod 8)"
proof (induction bs arbitrary: i)
  case Nil
  then show ?case by simp
next
  case (Cons b bs)
  show ?case
  proof (cases "i < 8")
    case True
    then show ?thesis
      by (auto simp: bit_simps Cons.IH)
  next
    case False
    then obtain j where j: "i = j + 8"
      by (metis add.commute le_add_diff_inverse not_le)
    have "\<not> bit b (j + 8)"
      using bit_imp_le_length [of b "j + 8"] by auto
    moreover have "(j + 8) div 8 = Suc (j div 8)" "(j + 8) mod 8 = j mod 8"
      by simp_all
    ultimately show ?thesis
      by (simp only: j) (auto simp: bit_simps Cons.IH)
  qed
qed

lemma le_bytes_nth:
  "i < n \<Longrightarrow> le_bytes n w ! i = ucast (drop_bit (8 * i) w)"
proof (induction n arbitrary: w i)
  case (Suc n)
  then show ?case
    by (cases i) (simp_all add: add.commute)
qed simp

lemma le_word_le_bytes:
  fixes w :: "'a::len word"
  assumes "LENGTH('a) \<le> 8 * n"
  shows "le_word (le_bytes n w) = w"
proof (rule bit_word_eqI)
  fix i
  assume i: "i < LENGTH('a)"
  then have "i div 8 < n" using assms by auto
  with i show "bit (le_word (le_bytes n w) :: 'a word) i = bit w i"
    by (simp add: bit_le_word le_bytes_nth bit_simps)
qed

lemma le_roundtrips [simp]:
  "le_word (le_bytes 2 (a :: u16)) = a"
  "le_word (le_bytes 4 (b :: u32)) = b"
  "le_word (le_bytes 8 (c :: u64)) = c"
  by (simp_all add: le_word_le_bytes)

lemma le_bytes_le_word:
  assumes "length bs = n" and "LENGTH('a) = 8 * n"
  shows "le_bytes n (le_word bs :: 'a::len word) = bs"
proof (rule nth_equalityI)
  show "length (le_bytes n (le_word bs :: 'a word)) = length bs"
    using assms by simp
next
  fix i
  assume "i < length (le_bytes n (le_word bs :: 'a word))"
  then have i: "i < n" by simp
  show "le_bytes n (le_word bs :: 'a word) ! i = bs ! i"
  proof (rule bit_word_eqI)
    fix j
    assume j: "j < LENGTH(8)"
    then have "j < 8" by simp
    then have "(8 * i + j) div 8 = i" "(8 * i + j) mod 8 = j"
      by simp_all
    moreover have "8 * i + j < LENGTH('a)"
      using i \<open>j < 8\<close> assms(2) by linarith
    ultimately show "bit (le_bytes n (le_word bs :: 'a word) ! i) j = bit (bs ! i) j"
      using i assms j by (simp add: le_bytes_nth bit_simps bit_le_word)
  qed
qed

subsection \<open>UTF-8\<close>

definition valid_char :: "rchar \<Rightarrow> bool" where
  "valid_char c \<longleftrightarrow> c < 0xD800 \<or> (0xE000 \<le> c \<and> c < 0x110000)"

definition valid_str :: "rstring \<Rightarrow> bool" where
  "valid_str s \<longleftrightarrow> list_all valid_char s"

definition byte :: "nat \<Rightarrow> u8" where
  "byte n = word_of_nat n"

lemma unat_byte [simp]: "n < 256 \<Longrightarrow> unat (byte n) = n"
  by (simp add: byte_def unat_of_nat)

lemma byte_unat [simp]: "byte (unat b) = b"
  by (simp add: byte_def)

text \<open>\<^verbatim>\<open>char::encode_utf8\<close> and \<^verbatim>\<open>char::len_utf8\<close>.\<close>

definition utf8_char :: "rchar \<Rightarrow> bytes" where
  "utf8_char c =
     (if c < 0x80 then [byte c]
      else if c < 0x800 then [byte (0xC0 + c div 64), byte (0x80 + c mod 64)]
      else if c < 0x10000 then
        [byte (0xE0 + c div 4096), byte (0x80 + c div 64 mod 64), byte (0x80 + c mod 64)]
      else
        [byte (0xF0 + c div 262144), byte (0x80 + c div 4096 mod 64),
         byte (0x80 + c div 64 mod 64), byte (0x80 + c mod 64)])"

definition len_utf8 :: "rchar \<Rightarrow> nat" where
  "len_utf8 c = (if c < 0x80 then 1 else if c < 0x800 then 2 else if c < 0x10000 then 3 else 4)"

text \<open>\<^verbatim>\<open>str::as_bytes\<close>, and \<^verbatim>\<open>str::len\<close>, which counts bytes.\<close>

definition as_bytes :: "rstring \<Rightarrow> bytes" where
  "as_bytes s = concat (map utf8_char s)"

definition str_len :: "rstring \<Rightarrow> nat" where
  "str_len s = sum_list (map len_utf8 s)"

lemma length_utf8_char [wire_simps]: "length (utf8_char c) = len_utf8 c"
  by (simp add: utf8_char_def len_utf8_def)

lemma length_as_bytes [wire_simps]: "length (as_bytes s) = str_len s"
  by (induction s) (simp_all add: as_bytes_def str_len_def length_utf8_char)

lemma as_bytes_simps [simp]:
  "as_bytes [] = []" "as_bytes (c # s) = utf8_char c @ as_bytes s"
  "as_bytes (s @ t) = as_bytes s @ as_bytes t"
  by (simp_all add: as_bytes_def)

lemma str_len_simps [simp]:
  "str_len [] = 0" "str_len (c # s) = len_utf8 c + str_len s"
  "str_len (s @ t) = str_len s + str_len t"
  by (simp_all add: str_len_def)

lemma len_utf8_pos [simp]: "0 < len_utf8 c"
  by (simp add: len_utf8_def)

lemma valid_str_simps [simp]:
  "valid_str []" "valid_str (c # s) \<longleftrightarrow> valid_char c \<and> valid_str s"
  "valid_str (s @ t) \<longleftrightarrow> valid_str s \<and> valid_str t"
  by (simp_all add: valid_str_def)

text \<open>
  \<^verbatim>\<open>std::str::from_utf8\<close>: the well-formed sequences of the Unicode standard only, so no overlong
  form, no surrogate and nothing beyond U+10FFFF.
\<close>

definition is_cont :: "u8 \<Rightarrow> bool" where
  "is_cont b \<longleftrightarrow> 0x80 \<le> unat b \<and> unat b < 0xC0"

definition utf8_next :: "bytes \<Rightarrow> (rchar \<times> bytes) option" where
  "utf8_next bs = (case bs of
     [] \<Rightarrow> None
   | b0 # r0 \<Rightarrow>
       if unat b0 < 0x80 then Some (unat b0, r0)
       else (case r0 of
         [] \<Rightarrow> None
       | b1 # r1 \<Rightarrow>
           if \<not> is_cont b1 then None
           else if 0xC2 \<le> unat b0 \<and> unat b0 < 0xE0 then
             Some ((unat b0 - 0xC0) * 64 + (unat b1 - 0x80), r1)
           else (case r1 of
             [] \<Rightarrow> None
           | b2 # r2 \<Rightarrow>
               if \<not> is_cont b2 then None
               else if 0xE0 \<le> unat b0 \<and> unat b0 < 0xF0 then
                 (let c = (unat b0 - 0xE0) * 4096 + (unat b1 - 0x80) * 64 + (unat b2 - 0x80)
                  in if 0x800 \<le> c \<and> valid_char c then Some (c, r2) else None)
               else (case r2 of
                 [] \<Rightarrow> None
               | b3 # r3 \<Rightarrow>
                   if \<not> is_cont b3 \<or> \<not> (0xF0 \<le> unat b0 \<and> unat b0 < 0xF5) then None
                   else (let c = (unat b0 - 0xF0) * 262144 + (unat b1 - 0x80) * 4096
                               + (unat b2 - 0x80) * 64 + (unat b3 - 0x80)
                         in if 0x10000 \<le> c \<and> c < 0x110000 then Some (c, r3) else None)))))"

lemma utf8_next_shorter:
  "utf8_next bs = Some (c, r) \<Longrightarrow> length r < length bs"
  by (auto simp: utf8_next_def Let_def split: list.splits if_splits)

function from_utf8 :: "bytes \<Rightarrow> rstring option" where
  "from_utf8 bs =
     (if bs = [] then Some []
      else (case utf8_next bs of
        None \<Rightarrow> None
      | Some (c, r) \<Rightarrow> map_option ((#) c) (from_utf8 r)))"
  by pat_completeness auto
termination
  by (relation "measure length") (auto dest: utf8_next_shorter)

declare from_utf8.simps [simp del]

lemma base64_digits:
  fixes c :: nat
  shows "c div 4096 * 4096 + c div 64 mod 64 * 64 + c mod 64 = c"
    and "c div 262144 * 262144 + c div 4096 mod 64 * 4096 + c div 64 mod 64 * 64 + c mod 64 = c"
proof -
  have q: "c div 64 div 64 = c div 4096" "c div 4096 div 64 = c div 262144"
    by (simp_all add: div_mult2_eq [symmetric])
  have "c div 64 * 64 + c mod 64 = c" "c div 4096 * 64 + c div 64 mod 64 = c div 64"
    "c div 262144 * 64 + c div 4096 mod 64 = c div 4096"
    using div_mult_mod_eq [of c 64] div_mult_mod_eq [of "c div 64" 64]
      div_mult_mod_eq [of "c div 4096" 64] by (simp_all only: q)
  then show "c div 4096 * 4096 + c div 64 mod 64 * 64 + c mod 64 = c"
    and "c div 262144 * 262144 + c div 4096 mod 64 * 4096 + c div 64 mod 64 * 64 + c mod 64 = c"
    by linarith+
qed

lemma utf8_next_char:
  assumes "valid_char c"
  shows "utf8_next (utf8_char c @ r) = Some (c, r)"
proof -
  consider "c < 0x80" | "0x80 \<le> c" "c < 0x800" | "0x800 \<le> c" "c < 0x10000" | "0x10000 \<le> c"
    by linarith
  then show ?thesis
  proof cases
    case 1
    then show ?thesis by (simp add: utf8_char_def utf8_next_def)
  next
    case 2
    have "c div 64 < 0x20" "2 \<le> c div 64" "c div 64 * 64 + c mod 64 = c" "c mod 64 < 64"
      using 2 by auto
    moreover have "utf8_char c = [byte (0xC0 + c div 64), byte (0x80 + c mod 64)]"
      using 2 by (simp add: utf8_char_def)
    ultimately show ?thesis
      by (simp add: utf8_next_def is_cont_def)
  next
    case 3
    then have "c div 4096 < 0x10" "c mod 64 < 64" "c div 64 mod 64 < 64"
      by auto
    with 3 assms show ?thesis
      by (simp add: utf8_char_def utf8_next_def is_cont_def Let_def base64_digits)
  next
    case 4
    have "c < 0x110000" using 4 assms by (auto simp: valid_char_def)
    then have "c div 262144 < 5" "c mod 64 < 64" "c div 64 mod 64 < 64" "c div 4096 mod 64 < 64"
      by auto
    with 4 \<open>c < 0x110000\<close> show ?thesis
      by (simp add: utf8_char_def utf8_next_def is_cont_def Let_def base64_digits)
  qed
qed

lemma utf8_char_nonempty [simp]: "utf8_char c \<noteq> []"
  by (simp add: utf8_char_def)

lemma from_utf8_Nil [simp]: "from_utf8 [] = Some []"
  by (simp add: from_utf8.simps)

lemma from_utf8_char:
  "valid_char c \<Longrightarrow> from_utf8 (utf8_char c @ r) = map_option ((#) c) (from_utf8 r)"
  by (subst from_utf8.simps) (simp add: utf8_next_char)

lemma from_utf8_as_bytes [simp]:
  "valid_str s \<Longrightarrow> from_utf8 (as_bytes s) = Some s"
  by (induction s) (simp_all add: from_utf8_char)

lemma as_bytes_inject:
  assumes "valid_str s" and "valid_str t" and "as_bytes s = as_bytes t"
  shows "s = t"
  using assms by (metis from_utf8_as_bytes option.inject)

lemma valid_lit: "\<forall>c \<in> set s. c < 0x80 \<Longrightarrow> valid_str s"
  by (induction s) (auto simp: valid_char_def)

end
