(* ===== verification/Compress.thy ===== *)
theory Compress
  imports Prelude
begin

text \<open>
  \<^verbatim>\<open>src/error.rs\<close> (the error type) and \<^verbatim>\<open>src/compress.rs\<close> (per-record value compression). The two
  compression libraries are parameters: a \<open>codec\<close> record, with what the code relies on in
  \<open>codec_ok\<close>.
\<close>

text \<open>Errors carry the fixed part of their message.\<close>

datatype kiva_error =
    Io string
  | Corrupted string
  | Locked string
  | Format string
  | Invalid string
  | NotFound string
  | Exists string
  | TypeErr string
  | Conflict string
  | Denied string
  | ReadOnly string
  | Unique string
  | Schema string
  | Script string
  | Other string

datatype compression = CNone | Lz4 | Zlib

fun compression_flag :: "compression \<Rightarrow> u8" where
  "compression_flag CNone = 0"
| "compression_flag Lz4 = 1"
| "compression_flag Zlib = 2"

definition from_flag :: "u8 \<Rightarrow> compression" where
  "from_flag f = (let g = f AND 3 in if g = 1 then Lz4 else if g = 2 then Zlib else CNone)"

text \<open>
  The libraries: \<^verbatim>\<open>lz4_flex::compress\<close>, \<^verbatim>\<open>lz4_flex::decompress\<close> (given the expected length), the
  zlib encoder (which may fail) and the zlib decoder read through \<^verbatim>\<open>take(n)\<close>, which gives the
  first \<open>n\<close> bytes of the decoded stream.
\<close>

record codec =
  lz4_compress :: "bytes \<Rightarrow> bytes"
  lz4_decompress :: "bytes \<Rightarrow> nat \<Rightarrow> bytes option"
  zlib_compress :: "bytes \<Rightarrow> bytes option"
  zlib_decompress :: "bytes \<Rightarrow> nat \<Rightarrow> bytes option"

definition codec_ok :: "codec \<Rightarrow> bool" where
  "codec_ok C \<longleftrightarrow>
     (\<forall>r. lz4_decompress C (lz4_compress C r) (length r) = Some r) \<and>
     (\<forall>r z n. zlib_compress C r = Some z \<longrightarrow> zlib_decompress C z n = Some (take n r))"

definition COMPRESS_MIN :: nat where "COMPRESS_MIN = 64"
definition MAX_VALUE_LEN :: nat where "MAX_VALUE_LEN = 256 * 1024 * 1024"

definition pack :: "codec \<Rightarrow> bytes \<Rightarrow> compression \<Rightarrow> bytes \<times> u8" where
  "pack C raw algo =
     (if algo = CNone \<or> length raw < COMPRESS_MIN then (raw, 0)
      else case (case algo of Lz4 \<Rightarrow> Some (lz4_compress C raw) | _ \<Rightarrow> zlib_compress C raw) of
        None \<Rightarrow> (raw, 0)
      | Some body \<Rightarrow>
          if length body + 4 \<ge> length raw then (raw, 0)
          else (le_bytes 4 (word_of_nat (length raw) :: u32) @ body, compression_flag algo))"

definition unpack :: "codec \<Rightarrow> bytes \<Rightarrow> compression \<Rightarrow> kiva_error + bytes" where
  "unpack C stored algo =
     (if algo = CNone then Inr stored
      else if length stored < 4 then Inl (Corrupted ''compressed value is truncated'')
      else
        (let raw_len = unat (le_word (take 4 stored) :: u32); body = drop 4 stored in
         if raw_len > MAX_VALUE_LEN then Inl (Corrupted ''compressed value declares an absurd size'')
         else case (case algo of
             Lz4 \<Rightarrow> (case lz4_decompress C body raw_len of
               None \<Rightarrow> Inl (Corrupted ''lz4'') | Some r \<Rightarrow> Inr r)
           | _ \<Rightarrow> (case zlib_decompress C body (raw_len + 1) of
               None \<Rightarrow> Inl (Corrupted ''zlib'') | Some r \<Rightarrow> Inr r)) of
             Inl e \<Rightarrow> Inl e
           | Inr raw \<Rightarrow>
               if length raw \<noteq> raw_len then Inl (Corrupted ''decompressed size mismatch'')
               else Inr raw))"

subsection \<open>Round trip\<close>

lemma from_flag_simps [simp]:
  "from_flag 0 = CNone" "from_flag 1 = Lz4" "from_flag 2 = Zlib" "from_flag (compression_flag a) = a"
  by (cases a; simp add: from_flag_def)+

text \<open>Only the two low bits of the flags name the algorithm.\<close>

lemma from_flag_mask: "from_flag (f AND 3) = from_flag f"
  by (simp add: from_flag_def and.assoc)

lemma pack_flag_cases: "snd (pack C raw a) = 0 \<or> snd (pack C raw a) = compression_flag a"
  by (auto simp: pack_def split: option.splits compression.splits)

lemma pack_flag_mask: "snd (pack C raw a) AND 3 = snd (pack C raw a)"
  using pack_flag_cases [of C raw a] by (cases a) auto

lemma pack_plain: "snd (pack C raw a) = 0 \<Longrightarrow> fst (pack C raw a) = raw"
  by (cases a) (auto simp: pack_def split: option.splits)

lemma pack_shrinks: "length (fst (pack C raw a)) \<le> length raw"
  by (auto simp: pack_def split: option.splits)

lemma unpack_pack_eq:
  assumes "codec_ok C" and "length raw \<le> MAX_VALUE_LEN"
  shows "unpack C (fst (pack C raw algo)) (from_flag (snd (pack C raw algo))) = Inr raw"
proof (cases "snd (pack C raw algo) = 0")
  case True
  then show ?thesis by (simp add: pack_plain unpack_def)
next
  case False
  have len: "unat (word_of_nat (length raw) :: u32) = length raw"
    using assms(2) by (simp add: MAX_VALUE_LEN_def unat_of_nat)
  from False obtain body where body: "length body + 4 < length raw"
      "(case algo of Lz4 \<Rightarrow> Some (lz4_compress C raw) | _ \<Rightarrow> zlib_compress C raw) = Some body"
      "pack C raw algo = (le_bytes 4 (word_of_nat (length raw) :: u32) @ body, compression_flag algo)"
    by (fastforce simp: pack_def split: option.splits if_splits)
  from False body(3) have "algo \<noteq> CNone" by auto
  with assms body len show ?thesis
    by (cases algo) (auto simp: unpack_def Let_def codec_ok_def)
qed

text \<open>
  (C13) Compression loses nothing: for every value the engine accepts (at most 256 MB) and every
  algorithm, unpacking what \<^verbatim>\<open>pack\<close> stored under the flag it returned gives the value back, for
  every pair of libraries that decompress what they compressed.
\<close>

theorem unpack_pack:
  assumes "codec_ok C" and "length raw \<le> MAX_VALUE_LEN"
  shows "unpack C (fst (pack C raw algo)) (from_flag (snd (pack C raw algo))) = Inr raw"
  by (rule unpack_pack_eq [OF assms])

text \<open>A codec that satisfies the hypothesis and does compress: runs of one byte.\<close>

definition run_codec :: codec where
  "run_codec =
     \<lparr>lz4_compress = (\<lambda>r. if r \<noteq> [] \<and> r = replicate (length r) (hd r) then [1, hd r] else 0 # r),
      lz4_decompress = (\<lambda>b n. case b of t # r \<Rightarrow>
          if t = 1 then Some (replicate n (hd r)) else Some r | [] \<Rightarrow> None),
      zlib_compress = (\<lambda>r. Some r), zlib_decompress = (\<lambda>b n. Some (take n b))\<rparr>"

lemma run_codec_ok: "codec_ok run_codec"
  by (auto simp: codec_ok_def run_codec_def)

theorem unpack_pack_witness:
  "unpack run_codec (fst (pack run_codec (replicate 100 7) Lz4))
     (from_flag (snd (pack run_codec (replicate 100 7) Lz4))) = Inr (replicate 100 7)
   \<and> fst (pack run_codec (replicate 100 7) Lz4) = [100, 0, 0, 0, 1, 7]"
proof -
  have "length (replicate 100 (7 :: u8)) \<le> MAX_VALUE_LEN" by (simp add: MAX_VALUE_LEN_def)
  from unpack_pack [OF run_codec_ok this, of Lz4]
  have "unpack run_codec (fst (pack run_codec (replicate 100 7) Lz4))
     (from_flag (snd (pack run_codec (replicate 100 7) Lz4))) = Inr (replicate 100 7)" .
  moreover have "fst (pack run_codec (replicate 100 7) Lz4) = [100, 0, 0, 0, 1, 7]"
    by code_simp
  ultimately show ?thesis ..
qed

end
