(* ===== verification/Wildcard.thy ===== *)
theory Wildcard
  imports Prelude
begin

text \<open>
  Wildcard matching, shared by \<^verbatim>\<open>util::glob_match\<close> and \<^verbatim>\<open>engine::like_match\<close>. Both sources run
  the same greedy loop with one backtracking point, the last wildcard met. \<open>wild_spec\<close> is the
  reference meaning of a pattern; \<open>greedy\<close> is the loop, over the positions the sources keep; the
  theorem \<open>greedy_correct\<close> says that one backtracking point is enough.
\<close>

subsection \<open>What a pattern means\<close>

text \<open>\<open>any p\<close>: the element stands for any run of characters; \<open>one p c\<close>: it accepts \<open>c\<close>.\<close>

fun wild_spec :: "('p \<Rightarrow> bool) \<Rightarrow> ('p \<Rightarrow> 'c \<Rightarrow> bool) \<Rightarrow> 'p list \<Rightarrow> 'c list \<Rightarrow> bool" where
  "wild_spec any one [] ts \<longleftrightarrow> ts = []"
| "wild_spec any one (p # ps) [] \<longleftrightarrow> any p \<and> wild_spec any one ps []"
| "wild_spec any one (p # ps) (t # ts) \<longleftrightarrow>
     (if any p then wild_spec any one ps (t # ts) \<or> wild_spec any one (p # ps) ts
      else one p t \<and> wild_spec any one ps ts)"

lemma wild_spec_Nil: "wild_spec any one ps [] \<longleftrightarrow> (\<forall>p \<in> set ps. any p)"
  by (induction ps) auto

lemma ex_le_Suc: "(\<exists>k \<le> Suc n. P k) \<longleftrightarrow> P 0 \<or> (\<exists>k \<le> n. P (Suc k))"
  by (metis Suc_le_mono le0 not0_implies_Suc)

lemma wild_spec_any:
  "any p \<Longrightarrow> wild_spec any one (p # ps) ts \<longleftrightarrow> (\<exists>k \<le> length ts. wild_spec any one ps (drop k ts))"
  by (induction ts) (simp_all add: ex_le_Suc)

lemma wild_spec_any_drop:
  assumes "any p" and "wild_spec any one (p # ps) (drop k ts)"
  shows "wild_spec any one (p # ps) ts"
proof -
  obtain j where "j \<le> length ts - k" and "wild_spec any one ps (drop (j + k) ts)"
    using assms by (auto simp: wild_spec_any)
  then have "min (j + k) (length ts) \<le> length ts"
    and "wild_spec any one ps (drop (min (j + k) (length ts)) ts)"
    by (auto simp: min_def)
  then show ?thesis unfolding wild_spec_any [of any, OF assms(1)] by blast
qed

lemma wild_spec_step:
  assumes "any p \<or> one p t" and "wild_spec any one ps ts"
  shows "wild_spec any one (p # ps) (t # ts)"
proof (cases "any p")
  case True
  with assms(2) have "wild_spec any one (p # ps) ts"
    unfolding wild_spec_any [of any, OF True] by (auto intro: exI [of _ 0])
  with True show ?thesis by simp
qed (use assms in simp)

text \<open>A part of the pattern without \<open>any\<close> consumes exactly its length.\<close>

lemma wild_spec_fixed:
  "\<forall>i < n. i < length ps \<longrightarrow> \<not> any (ps ! i) \<Longrightarrow> n \<le> length ps \<Longrightarrow> wild_spec any one ps ts \<Longrightarrow>
    n \<le> length ts \<and> wild_spec any one (drop n ps) (drop n ts)"
proof (induction n arbitrary: ps ts)
  case 0
  then show ?case by simp
next
  case (Suc n)
  then obtain p ps' where ps: "ps = p # ps'" by (cases ps) auto
  with Suc.prems have "\<not> any p" by force
  with Suc.prems ps obtain t ts' where ts: "ts = t # ts'" by (cases ts) auto
  have "\<forall>i < n. i < length ps' \<longrightarrow> \<not> any (ps' ! i)"
    using Suc.prems(1) ps by force
  from Suc.IH [OF this] Suc.prems \<open>\<not> any p\<close> show ?case
    by (simp add: ps ts)
qed

subsection \<open>The greedy loop\<close>

text \<open>
  \<open>pi\<close> and \<open>ti\<close> are the positions in the pattern and the text, \<open>bk\<close> the position of the last
  \<open>any\<close> met and the text position it is tried at.
\<close>

function greedy :: "('p \<Rightarrow> bool) \<Rightarrow> ('p \<Rightarrow> 'c \<Rightarrow> bool) \<Rightarrow> 'p list \<Rightarrow> 'c list \<Rightarrow>
    nat \<Rightarrow> nat \<Rightarrow> (nat \<times> nat) option \<Rightarrow> bool" where
  "greedy any one p t pi ti bk =
     (if ti < length t then
        (if pi < length p \<and> any (p ! pi) then greedy any one p t (pi + 1) ti (Some (pi, ti))
         else if pi < length p \<and> one (p ! pi) (t ! ti) then greedy any one p t (pi + 1) (ti + 1) bk
         else (case bk of
           Some (ap, at) \<Rightarrow> greedy any one p t (ap + 1) (at + 1) (Some (ap, at + 1))
         | None \<Rightarrow> False))
      else list_all any (drop pi p))"
  by pat_completeness auto
termination
  by (relation "measures
      [\<lambda>(any, one, p, t, pi, ti, bk). case bk of None \<Rightarrow> 0 | Some (ap, at) \<Rightarrow> (if at \<le> ti then 0 else 1),
       \<lambda>(any, one, p, t, pi, ti, bk). case bk of None \<Rightarrow> length t + 1 | Some (ap, at) \<Rightarrow> length t - at,
       \<lambda>(any, one, p, t, pi, ti, bk). length p - pi]")
    (auto split: option.splits prod.splits)

declare greedy.simps [simp del]

text \<open>
  The invariant of the loop: since the last \<open>any\<close>, pattern and text advanced together over
  elements that are not \<open>any\<close>.
\<close>

definition greedy_inv :: "('p \<Rightarrow> bool) \<Rightarrow> 'p list \<Rightarrow> 'c list \<Rightarrow> nat \<Rightarrow> nat \<Rightarrow> (nat \<times> nat) option \<Rightarrow> bool" where
  "greedy_inv any p t pi ti bk \<longleftrightarrow> pi \<le> length p \<and> ti \<le> length t \<and>
     (case bk of None \<Rightarrow> True
      | Some (ap, at) \<Rightarrow> ap < length p \<and> any (p ! ap) \<and> at \<le> ti \<and> pi = ap + 1 + (ti - at) \<and>
          (\<forall>i. ap < i \<and> i < pi \<longrightarrow> \<not> any (p ! i)))"

definition retry :: "('p \<Rightarrow> bool) \<Rightarrow> ('p \<Rightarrow> 'c \<Rightarrow> bool) \<Rightarrow> 'p list \<Rightarrow> 'c list \<Rightarrow> (nat \<times> nat) option \<Rightarrow> bool" where
  "retry any one p t bk = (case bk of None \<Rightarrow> False
     | Some (ap, at) \<Rightarrow> wild_spec any one (drop ap p) (drop (at + 1) t))"

text \<open>A later start of the last \<open>any\<close> leaves room for the pattern already passed.\<close>

lemma retry_room:
  assumes "greedy_inv any p t pi ti (Some (ap, at))" and "retry any one p t (Some (ap, at))"
  obtains k where "at < k \<or> k = at \<and> at = length t" and "k + (ti - at) \<le> length t"
    and "wild_spec any one (drop pi p) (drop (k + (ti - at)) t)"
proof -
  have ap: "ap < length p" "any (p ! ap)" "at \<le> ti" "ti \<le> length t" and pi: "pi = ap + 1 + (ti - at)"
    and no: "\<forall>i. ap < i \<and> i < pi \<longrightarrow> \<not> any (p ! i)" and "pi \<le> length p"
    using assms(1) by (auto simp: greedy_inv_def)
  have "wild_spec any one (p ! ap # drop (ap + 1) p) (drop (at + 1) t)"
    using assms(2) ap by (simp add: retry_def Cons_nth_drop_Suc)
  then obtain j where j: "j \<le> length (drop (at + 1) t)"
    and w: "wild_spec any one (drop (ap + 1) p) (drop (at + 1 + j) t)"
    by (auto simp: wild_spec_any ap(2) add.commute)
  have "\<forall>i < ti - at. i < length (drop (ap + 1) p) \<longrightarrow> \<not> any (drop (ap + 1) p ! i)"
    using no pi ap by (auto simp: nth_drop)
  from wild_spec_fixed [OF this _ w]
  have "ti - at \<le> length (drop (at + 1 + j) t)"
    and "wild_spec any one (drop (ti - at) (drop (ap + 1) p)) (drop (ti - at) (drop (at + 1 + j) t))"
    using pi \<open>pi \<le> length p\<close> by auto
  then have room: "ti - at \<le> length t - (at + 1 + j)"
    and w': "wild_spec any one (drop pi p) (drop (at + 1 + j + (ti - at)) t)"
    by (simp_all add: pi add_ac)
  show thesis
  proof (cases "at + 1 + j \<le> length t")
    case True
    with room w' show thesis by (intro that [of "at + 1 + j"]) auto
  next
    case False
    with j room ap have "at = length t" "ti = at" by auto
    with w' show thesis by (intro that [of at]) auto
  qed
qed

text \<open>The retry adds nothing at the end of the text, nor at a new \<open>any\<close>.\<close>

lemma retry_at_end:
  assumes "greedy_inv any p t pi ti bk" and "ti = length t" and "retry any one p t bk"
  shows "wild_spec any one (drop pi p) (drop ti t)"
proof -
  obtain ap at where bk: "bk = Some (ap, at)"
    using assms(3) by (auto simp: retry_def split: option.splits)
  obtain k where "at < k \<or> k = at \<and> at = length t" "k + (ti - at) \<le> length t"
    "wild_spec any one (drop pi p) (drop (k + (ti - at)) t)"
    using assms(1,3) unfolding bk by (rule retry_room [where any = any and one = one])
  moreover have "at \<le> ti" using assms(1) bk by (auto simp: greedy_inv_def)
  ultimately show ?thesis using assms(2) by auto
qed

lemma retry_at_any:
  assumes "greedy_inv any p t pi ti bk" and "pi < length p" and "any (p ! pi)"
    and "retry any one p t bk"
  shows "wild_spec any one (drop pi p) (drop ti t)"
proof -
  obtain ap at where bk: "bk = Some (ap, at)"
    using assms(4) by (auto simp: retry_def split: option.splits)
  obtain k where k: "at < k \<or> k = at \<and> at = length t" "k + (ti - at) \<le> length t"
    "wild_spec any one (drop pi p) (drop (k + (ti - at)) t)"
    using assms(1,4) unfolding bk by (rule retry_room [where any = any and one = one])
  moreover have "at \<le> ti" using assms(1) bk by (auto simp: greedy_inv_def)
  ultimately have "ti \<le> k + (ti - at)" by auto
  then have "drop (k + (ti - at)) t = drop (k + (ti - at) - ti) (drop ti t)" by simp
  then show ?thesis
    using k(3) wild_spec_any_drop [of any, OF assms(3)] Cons_nth_drop_Suc [OF assms(2)] by metis
qed

text \<open>One more character for the last \<open>any\<close>: its first alternative, or a later one.\<close>

lemma retry_unfold:
  assumes "ap < length p" and "any (p ! ap)"
  shows "retry any one p t (Some (ap, at)) \<longleftrightarrow>
    wild_spec any one (drop (ap + 1) p) (drop (at + 1) t) \<or> retry any one p t (Some (ap, at + 1))"
proof -
  have "drop ap p = p ! ap # drop (ap + 1) p"
    using assms(1) by (simp add: Cons_nth_drop_Suc)
  moreover have "drop (Suc (at + 1)) t = tl (drop (at + 1) t)"
    by (simp only: drop_Suc tl_drop)
  ultimately show ?thesis
    using assms(2) by (cases "drop (at + 1) t") (simp_all add: retry_def)
qed

lemma no_match_here:
  assumes "ti < length t" and "\<not> (pi < length p \<and> any (p ! pi))"
    and "\<not> (pi < length p \<and> one (p ! pi) (t ! ti))"
  shows "\<not> wild_spec any one (drop pi p) (drop ti t)"
proof (cases "pi < length p")
  case True
  then have "drop pi p = p ! pi # drop (pi + 1) p" "drop ti t = t ! ti # drop (ti + 1) t"
    using assms(1) by (simp_all add: Cons_nth_drop_Suc)
  with assms True show ?thesis by simp
next
  case False
  with assms show ?thesis by simp
qed

lemma greedy_correct:
  "greedy_inv any p t pi ti bk \<Longrightarrow>
    greedy any one p t pi ti bk \<longleftrightarrow>
      wild_spec any one (drop pi p) (drop ti t) \<or> retry any one p t bk"
proof (induction any one p t pi ti bk rule: greedy.induct)
  case (1 any one p t pi ti bk)
  note inv = "1.prems"
  let ?is_any = "pi < length p \<and> any (p ! pi)" and ?is_one = "pi < length p \<and> one (p ! pi) (t ! ti)"
  show ?case
  proof (cases "ti < length t")
    case False
    then have "ti = length t" using inv by (auto simp: greedy_inv_def)
    with False retry_at_end [OF inv] show ?thesis
      by (subst greedy.simps) (auto simp: wild_spec_Nil list_all_iff)
  next
    case more: True
    then have dt: "drop ti t = t ! ti # drop (ti + 1) t" by (simp add: Cons_nth_drop_Suc)
    consider (star) ?is_any | (step) "\<not> ?is_any" ?is_one | (again) "\<not> ?is_any" "\<not> ?is_one"
      by blast
    then show ?thesis
    proof cases
      case star
      have inv': "greedy_inv any p t (pi + 1) ti (Some (pi, ti))"
        using star more by (auto simp: greedy_inv_def)
      have "drop pi p = p ! pi # drop (pi + 1) p"
        using star by (simp add: Cons_nth_drop_Suc)
      then have "greedy any one p t pi ti bk \<longleftrightarrow> wild_spec any one (drop pi p) (drop ti t)"
        using "1.IH"(1) [OF more star inv'] star more
        by (subst greedy.simps) (simp add: dt retry_def)
      with retry_at_any [OF inv] star show ?thesis by blast
    next
      case step
      have "greedy_inv any p t (pi + 1) (ti + 1) bk"
        using inv step more by (auto simp: greedy_inv_def less_Suc_eq split: option.splits)
      moreover have "drop pi p = p ! pi # drop (pi + 1) p"
        using step by (simp add: Cons_nth_drop_Suc)
      ultimately show ?thesis
        using "1.IH"(2) [OF more step] step more by (subst greedy.simps) (simp add: dt)
    next
      case again
      note here = no_match_here [of ti t pi p any one, OF more again]
      show ?thesis
      proof (cases bk)
        case None
        with here again more show ?thesis by (subst greedy.simps) (auto simp: retry_def)
      next
        case (Some b)
        then obtain ap at where bk: "bk = Some (ap, at)" by (cases b) auto
        have a: "ap < length p" "any (p ! ap)" using inv bk by (auto simp: greedy_inv_def)
        have "greedy_inv any p t (ap + 1) (at + 1) (Some (ap, at + 1))"
          using inv more bk by (auto simp: greedy_inv_def)
        with "1.IH"(3) [OF more again bk] here again more show ?thesis
          by (subst greedy.simps) (auto simp: bk retry_unfold [of ap p any one t at, OF a])
      qed
    qed
  qed
qed

corollary greedy_wild_spec: "greedy any one p t 0 0 None \<longleftrightarrow> wild_spec any one p t"
  using greedy_correct [of any p t 0 0 None one] by (simp add: greedy_inv_def retry_def)

end
