(* ===== verification/OrdMap.thy ===== *)
theory OrdMap
  imports Prelude "HOL-Library.Product_Lexorder"
begin

text \<open>
  The ordered containers of the Rust standard library that the engine iterates over:
  \<^verbatim>\<open>BTreeMap<K, V>\<close> as the list of its bindings in key order, and \<^verbatim>\<open>BTreeSet<T>\<close> as
  \<^verbatim>\<open>BTreeMap<T, ()>\<close>, which it is in the standard library too. A \<^verbatim>\<open>HashMap\<close> that the
  sources iterate over or measure is kept the same way: no result depends on its order.
  The locale \<open>finite_map\<close> is the contract the clients rely on.
\<close>

type_synonym ('k, 'v) omap = "('k \<times> 'v) list"
type_synonym 'a oset = "('a \<times> unit) list"

definition om_ok :: "('k::linorder, 'v) omap \<Rightarrow> bool" where
  "om_ok m \<longleftrightarrow> sorted_wrt (<) (map fst m)"

definition om_get :: "('k, 'v) omap \<Rightarrow> 'k \<Rightarrow> 'v option" where
  "om_get m k = map_of m k"

fun om_insert :: "'k::linorder \<Rightarrow> 'v \<Rightarrow> ('k, 'v) omap \<Rightarrow> ('k, 'v) omap" where
  "om_insert k v [] = [(k, v)]"
| "om_insert k v (kv # m) =
     (if k < fst kv then (k, v) # kv # m
      else if k = fst kv then (k, v) # m
      else kv # om_insert k v m)"

fun om_remove :: "'k \<Rightarrow> ('k, 'v) omap \<Rightarrow> ('k, 'v) omap" where
  "om_remove k [] = []"
| "om_remove k (kv # m) = (if fst kv = k then m else kv # om_remove k m)"

text \<open>\<^verbatim>\<open>range((Bound::Included(from), Bound::Unbounded))\<close>.\<close>

definition om_from :: "'k::linorder \<Rightarrow> ('k, 'v) omap \<Rightarrow> ('k, 'v) omap" where
  "om_from a m = dropWhile (\<lambda>kv. fst kv < a) m"

definition om_sum :: "('k \<Rightarrow> 'v \<Rightarrow> nat) \<Rightarrow> ('k, 'v) omap \<Rightarrow> nat" where
  "om_sum f m = sum_list (map (\<lambda>kv. f (fst kv) (snd kv)) m)"

lemma om_ok_simps [simp]:
  "om_ok []"
  "om_ok (kv # m) \<longleftrightarrow> (\<forall>k \<in> fst ` set m. fst kv < k) \<and> om_ok m"
  by (auto simp: om_ok_def)

lemma om_get_simps [simp]:
  "om_get [] k = None"
  "om_get (kv # m) k = (if k = fst kv then Some (snd kv) else om_get m k)"
  by (cases kv; simp add: om_get_def)+

lemma om_ok_distinct: "om_ok m \<Longrightarrow> distinct (map fst m)"
  by (induction m) auto

lemma om_ok_sorted: "om_ok m \<Longrightarrow> sorted (map fst m)"
  by (simp add: om_ok_def strict_sorted_iff)

lemma om_get_None_iff: "om_get m k = None \<longleftrightarrow> k \<notin> fst ` set m"
  by (induction m) auto

lemma om_get_SomeD: "om_get m k = Some v \<Longrightarrow> (k, v) \<in> set m"
  by (simp add: om_get_def map_of_SomeD)

lemma om_get_Some_iff: "om_ok m \<Longrightarrow> om_get m k = Some v \<longleftrightarrow> (k, v) \<in> set m"
  by (simp add: om_get_def om_ok_distinct)

lemma keys_om_insert [simp]: "fst ` set (om_insert k v m) = insert k (fst ` set m)"
  by (induction m) auto

lemma keys_om_remove: "om_ok m \<Longrightarrow> fst ` set (om_remove k m) = fst ` set m - {k}"
  by (induction m) auto

lemma set_om_remove: "set (om_remove k m) \<subseteq> set m"
  by (induction m) auto

lemma om_get_insert [simp]: "om_get (om_insert k v m) = (om_get m)(k \<mapsto> v)"
  by (induction m) (auto simp: fun_eq_iff)

lemma om_get_absent: "\<forall>k' \<in> fst ` set m. k < k' \<Longrightarrow> om_get m (k :: 'a::linorder) = None"
  by (auto simp: om_get_None_iff)

lemma om_get_remove [simp]: "om_ok m \<Longrightarrow> om_get (om_remove k m) = (om_get m)(k := None)"
  by (induction m) (auto simp: fun_eq_iff om_get_absent)

lemma om_ok_insert [simp]: "om_ok m \<Longrightarrow> om_ok (om_insert k v m)"
  by (induction m) auto

lemma om_ok_remove [simp]: "om_ok m \<Longrightarrow> om_ok (om_remove k m)"
  by (induction m) (auto dest: set_om_remove [THEN subsetD])

text \<open>What the counters of the engine rely on: a sum over the bindings moves by one binding.\<close>

lemma om_sum_simps [simp]:
  "om_sum f [] = 0" "om_sum f (kv # m) = f (fst kv) (snd kv) + om_sum f m"
  by (simp_all add: om_sum_def)

lemma om_sum_insert:
  "om_ok m \<Longrightarrow> om_sum f (om_insert k v m) + (case om_get m k of None \<Rightarrow> 0 | Some w \<Rightarrow> f k w)
    = om_sum f m + f k v"
proof (induction m)
  case (Cons kv m)
  have "k < fst kv \<Longrightarrow> om_get m k = None"
    using Cons.prems by (force simp: om_get_None_iff)
  with Cons show ?case by auto
qed simp

lemma om_sum_remove:
  "om_ok m \<Longrightarrow> om_sum f (om_remove k m) + (case om_get m k of None \<Rightarrow> 0 | Some w \<Rightarrow> f k w)
    = om_sum f m"
  by (induction m) (auto simp: om_get_absent)

lemma om_sum_cong:
  "(\<And>k v. (k, v) \<in> set m \<Longrightarrow> f k v = g k v) \<Longrightarrow> om_sum f m = om_sum g m"
  by (simp add: om_sum_def cong: map_cong)

lemma om_eqI:
  assumes "om_ok m" and "om_ok n" and "om_get m = om_get n"
  shows "m = n"
proof -
  have "set m = set n"
    using assms by (auto simp: om_get_Some_iff [symmetric])
  then show ?thesis
    using assms om_ok_distinct [of m] om_ok_distinct [of n] om_ok_sorted [of m] om_ok_sorted [of n]
    by (intro map_sorted_distinct_set_unique [of fst]) (simp_all add: distinct_map)
qed

text \<open>The bindings from a key on, as a filter.\<close>

lemma om_from_filter: "om_ok m \<Longrightarrow> om_from a m = filter (\<lambda>kv. a \<le> fst kv) m"
proof (induction m)
  case (Cons kv m)
  show ?case
  proof (cases "fst kv < a")
    case True
    with Cons show ?thesis by (simp add: om_from_def)
  next
    case False
    with Cons.prems have "\<forall>x \<in> set m. a \<le> fst x" by force
    with False show ?thesis by (simp add: om_from_def)
  qed
qed (simp add: om_from_def)

lemma om_ok_filter [simp]: "om_ok m \<Longrightarrow> om_ok (filter P m)"
  by (induction m) auto

text \<open>The contract of a finite map, as the engine's components use it.\<close>

locale finite_map =
  fixes emp :: 'm
    and get :: "'m \<Rightarrow> 'k \<Rightarrow> 'v option"
    and ins :: "'k \<Rightarrow> 'v \<Rightarrow> 'm \<Rightarrow> 'm"
    and rem :: "'k \<Rightarrow> 'm \<Rightarrow> 'm"
    and ok :: "'m \<Rightarrow> bool"
  assumes ok_emp: "ok emp"
    and ok_ins: "ok m \<Longrightarrow> ok (ins k v m)"
    and ok_rem: "ok m \<Longrightarrow> ok (rem k m)"
    and get_emp: "get emp k = None"
    and get_ins: "ok m \<Longrightarrow> get (ins k v m) j = (if j = k then Some v else get m j)"
    and get_rem: "ok m \<Longrightarrow> get (rem k m) j = (if j = k then None else get m j)"
begin

text \<open>Replaying a list of updates (\<open>None\<close> removes the key).\<close>

lemma ok_replay:
  "ok m \<Longrightarrow> ok (fold (\<lambda>kv m. case snd kv of Some v \<Rightarrow> ins (fst kv) v m | None \<Rightarrow> rem (fst kv) m) us m)"
  by (induction us arbitrary: m) (auto simp: ok_ins ok_rem split: option.splits)

lemma get_replay:
  "ok m \<Longrightarrow>
    get (fold (\<lambda>kv m. case snd kv of Some v \<Rightarrow> ins (fst kv) v m | None \<Rightarrow> rem (fst kv) m) us m) j =
      (case map_of (rev us) j of None \<Rightarrow> get m j | Some r \<Rightarrow> r)"
proof (induction us arbitrary: m)
  case Nil
  then show ?case by simp
next
  case (Cons u us)
  obtain k r where u: "u = (k, r)" by (cases u)
  have "ok (case r of Some v \<Rightarrow> ins k v m | None \<Rightarrow> rem k m)"
    using Cons.prems by (auto simp: ok_ins ok_rem split: option.splits)
  from Cons.IH [OF this] Cons.prems show ?case
    by (auto simp: u map_add_def get_ins get_rem split: option.splits)
qed

end

interpretation om: finite_map "[]" om_get om_insert om_remove
  "om_ok :: ('k::linorder, 'v) omap \<Rightarrow> bool"
  by unfold_locales auto

end
