(* ===== verification/Util.thy ===== *)
theory Util
  imports Wildcard OrdMap
begin

text \<open>
  \<^verbatim>\<open>src/util.rs\<close>: glob patterns, hexadecimal and base64 texts, percent-decoding and expiry units.
  A pattern and a text are lists of characters, as after \<^verbatim>\<open>chars().collect()\<close> in the source.
\<close>

subsection \<open>Glob patterns\<close>

text \<open>
  The loop of \<^verbatim>\<open>glob_match\<close> with its variables \<open>pi\<close>, \<open>ti\<close>, \<open>star\<close> and \<open>mark\<close>. The test for a
  literal match comes before the test for a \<open>*\<close>, as in the source.
\<close>

function glob_loop :: "rstring \<Rightarrow> rstring \<Rightarrow> nat \<Rightarrow> nat \<Rightarrow> nat option \<Rightarrow> nat \<Rightarrow> bool" where
  "glob_loop p t pi ti star mark =
     (if ti < length t then
        (if pi < length p \<and> (p ! pi = ch CHR ''?'' \<or> p ! pi = t ! ti) then
           glob_loop p t (pi + 1) (ti + 1) star mark
         else if pi < length p \<and> p ! pi = ch CHR ''*'' then
           glob_loop p t (pi + 1) ti (Some pi) ti
         else (case star of
           Some s \<Rightarrow> glob_loop p t (s + 1) (mark + 1) star (mark + 1)
         | None \<Rightarrow> False))
      else pi + length (takeWhile (\<lambda>c. c = ch CHR ''*'') (drop pi p)) = length p)"
  by pat_completeness auto
termination
  by (relation "measures
      [\<lambda>(p, t, pi, ti, star, mark). if star = None \<or> mark \<le> ti then 0 else 1,
       \<lambda>(p, t, pi, ti, star, mark). if star = None then length t + 1 else length t - mark,
       \<lambda>(p, t, pi, ti, star, mark). length p - pi]")
    auto

declare glob_loop.simps [simp del]

definition glob_match :: "rstring \<Rightarrow> rstring \<Rightarrow> bool" where
  "glob_match pattern text = glob_loop pattern text 0 0 None 0"

text \<open>What the documentation says of a glob: \<open>*\<close> stands for any run, \<open>?\<close> for any character.\<close>

definition glob_any :: "rchar \<Rightarrow> bool" where
  "glob_any c \<longleftrightarrow> c = ch CHR ''*''"

definition glob_one :: "rchar \<Rightarrow> rchar \<Rightarrow> bool" where
  "glob_one p c \<longleftrightarrow> p = ch CHR ''?'' \<or> p = c"

definition glob_prefix :: "rstring \<Rightarrow> rstring" where
  "glob_prefix pattern = takeWhile (\<lambda>c. c \<noteq> ch CHR ''*'' \<and> c \<noteq> ch CHR ''?'') pattern"

subsection \<open>Expiries\<close>

text \<open>\<^verbatim>\<open>expiry_to_ms\<close>: an \<open>i64\<close>; the product stays far below \<open>2 ^ 63\<close>.\<close>

definition expiry_to_ms :: "int \<Rightarrow> int" where
  "expiry_to_ms expires_at =
     (if expires_at > 0 \<and> expires_at < 100000000000 then expires_at * 1000 else expires_at)"

subsection \<open>Hexadecimal\<close>

definition hex_digit :: "u8 \<Rightarrow> rchar" where
  "hex_digit n = lit ''0123456789abcdef'' ! unat n"

definition hex_encode :: "bytes \<Rightarrow> rstring" where
  "hex_encode bs = concat (map (\<lambda>b. [hex_digit (drop_bit 4 b), hex_digit (b AND 15)]) bs)"

definition nib :: "rchar \<Rightarrow> u8 option" where
  "nib c =
     (if ch CHR ''0'' \<le> c \<and> c \<le> ch CHR ''9'' then Some (byte (c - ch CHR ''0''))
      else if ch CHR ''a'' \<le> c \<and> c \<le> ch CHR ''f'' then Some (byte (c - ch CHR ''a'' + 10))
      else if ch CHR ''A'' \<le> c \<and> c \<le> ch CHR ''F'' then Some (byte (c - ch CHR ''A'' + 10))
      else None)"

text \<open>
  \<^verbatim>\<open>hex_decode\<close> works on the bytes of the text; a byte of a multi-byte character is no digit, and
  the parity is that of the number of bytes.
\<close>

fun hex_pairs :: "rstring \<Rightarrow> bytes option" where
  "hex_pairs [] = Some []"
| "hex_pairs [_] = None"
| "hex_pairs (a # b # s) = (case nib a of None \<Rightarrow> None | Some x \<Rightarrow>
     (case nib b of None \<Rightarrow> None | Some y \<Rightarrow> map_option ((#) (push_bit 4 x OR y)) (hex_pairs s)))"

definition hex_decode :: "rstring \<Rightarrow> bytes option" where
  "hex_decode s = (let b = map unat (as_bytes s) in
     if odd (length b) then None else hex_pairs b)"

subsection \<open>Base64\<close>

definition B64 :: rstring where
  "B64 = lit ''ABCDEFGHIJKLMNOPQRSTUVWXYZabcdefghijklmnopqrstuvwxyz0123456789+/''"

text \<open>The group of one to three bytes as 24 bits, missing bytes as 0.\<close>

definition b64_group :: "u8 \<Rightarrow> u8 \<Rightarrow> u8 \<Rightarrow> u32" where
  "b64_group a b c = push_bit 16 (ucast a) OR push_bit 8 (ucast b) OR ucast c"

definition b64_sextet :: "nat \<Rightarrow> u32 \<Rightarrow> u32" where
  "b64_sextet i n = drop_bit i n AND 63"

fun b64_encode :: "bytes \<Rightarrow> rstring" where
  "b64_encode [] = []"
| "b64_encode [a] = (let n = b64_group a 0 0 in
     [B64 ! unat (b64_sextet 18 n), B64 ! unat (b64_sextet 12 n), ch CHR ''='', ch CHR ''=''])"
| "b64_encode [a, b] = (let n = b64_group a b 0 in
     [B64 ! unat (b64_sextet 18 n), B64 ! unat (b64_sextet 12 n), B64 ! unat (b64_sextet 6 n),
      ch CHR ''=''])"
| "b64_encode (a # b # c # bs) = (let n = b64_group a b c in
     B64 ! unat (b64_sextet 18 n) # B64 ! unat (b64_sextet 12 n) # B64 ! unat (b64_sextet 6 n) #
     B64 ! unat (b64_sextet 0 n) # b64_encode bs)"

text \<open>The value of one byte of the text: \<open>None\<close> is refused, \<open>Some None\<close> skipped.\<close>

definition b64_value :: "nat \<Rightarrow> u8 option option" where
  "b64_value c =
     (if ch CHR ''A'' \<le> c \<and> c \<le> ch CHR ''Z'' then Some (Some (byte (c - ch CHR ''A'')))
      else if ch CHR ''a'' \<le> c \<and> c \<le> ch CHR ''z'' then Some (Some (byte (c - ch CHR ''a'' + 26)))
      else if ch CHR ''0'' \<le> c \<and> c \<le> ch CHR ''9'' then Some (Some (byte (c - ch CHR ''0'' + 52)))
      else if c = ch CHR ''+'' \<or> c = ch CHR ''-'' then Some (Some 62)
      else if c = ch CHR ''/'' \<or> c = ch CHR ''_'' then Some (Some 63)
      else if c = ch CHR ''='' \<or> c = 13 \<or> c = 10 \<or> c = ch CHR '' '' then Some None
      else None)"

fun b64_loop :: "u32 \<Rightarrow> nat \<Rightarrow> nat list \<Rightarrow> bytes option" where
  "b64_loop acc bits [] = Some []"
| "b64_loop acc bits (c # cs) = (case b64_value c of
     None \<Rightarrow> None
   | Some None \<Rightarrow> b64_loop acc bits cs
   | Some (Some v) \<Rightarrow>
       (let acc = push_bit 6 acc OR ucast v; bits = bits + 6 in
        if bits \<ge> 8 then
          (let bits = bits - 8 in
           map_option ((#) (ucast (drop_bit bits acc))) (b64_loop (acc AND mask bits) bits cs))
        else b64_loop acc bits cs))"

definition b64_decode :: "rstring \<Rightarrow> bytes option" where
  "b64_decode s = b64_loop 0 0 (map unat (as_bytes s))"

subsection \<open>Percent-decoding\<close>

text \<open>
  The bytes \<^verbatim>\<open>url_decode\<close> collects before its final \<^verbatim>\<open>from_utf8_lossy\<close>. A \<open>%\<close> needs two bytes
  after it; where they are no hexadecimal pair (or no ASCII), it stands for itself.
\<close>

fun url_decode_bytes :: "bytes \<Rightarrow> bytes" where
  "url_decode_bytes [] = []"
| "url_decode_bytes (b # bs) =
     (if b = 37 then (case bs of
        x # y # r \<Rightarrow>
          (case (if unat x < 128 \<and> unat y < 128 then hex_pairs [unat x, unat y] else None) of
             Some v \<Rightarrow> hd v # url_decode_bytes r
           | None \<Rightarrow> 37 # url_decode_bytes bs)
      | _ \<Rightarrow> 37 # url_decode_bytes bs)
      else if b = 43 then 32 # url_decode_bytes bs
      else b # url_decode_bytes bs)"

subsection \<open>Correctness of the glob loop\<close>

lemma all_stars_iff:
  "pi + length (takeWhile P (drop pi p)) = length p \<longleftrightarrow> pi \<le> length p \<and> list_all P (drop pi p)"
proof -
  have "length (takeWhile P (drop pi p)) = length (drop pi p) \<longleftrightarrow> list_all P (drop pi p)"
    by (metis list_all_iff set_takeWhileD takeWhile_eq_all_conv takeWhile_eq_take take_all_iff
        order_refl length_takeWhile_le)
  moreover have "length (takeWhile P (drop pi p)) \<le> length p - pi"
    by (metis length_drop length_takeWhile_le)
  ultimately show ?thesis by (auto simp: le_add_diff_inverse2)
qed

text \<open>The positions of \<open>glob_loop\<close> are those of the reference loop.\<close>

definition glob_bk :: "nat option \<Rightarrow> nat \<Rightarrow> (nat \<times> nat) option" where
  "glob_bk star mark = map_option (\<lambda>s. (s, mark)) star"

lemma glob_bk_simps [simp]:
  "glob_bk None m = None" "glob_bk (Some s) m = Some (s, m)"
  by (simp_all add: glob_bk_def)

lemma glob_any_iff: "glob_any (xs ! i) \<longleftrightarrow> xs ! i = ch CHR ''*''"
  by (simp add: glob_any_def)

lemma glob_one_iff: "glob_one (xs ! i) c \<longleftrightarrow> xs ! i = ch CHR ''?'' \<or> xs ! i = c"
  by (simp add: glob_one_def)

lemma all_glob_any: "list_all glob_any xs \<longleftrightarrow> list_all (\<lambda>c. c = ch CHR ''*'') xs"
  by (simp add: list_all_iff glob_any_def)

lemma glob_any_star [simp]: "glob_any 42"
  by (simp add: glob_any_def)

lemmas glob_iffs = glob_any_iff glob_one_iff all_glob_any

lemma glob_loop_greedy:
  "ch CHR ''*'' \<notin> set t \<Longrightarrow> pi \<le> length p \<Longrightarrow> star = None \<or> the star < length p \<Longrightarrow>
    glob_loop p t pi ti star mark = greedy glob_any glob_one p t pi ti (glob_bk star mark)"
proof (induction p t pi ti star mark rule: glob_loop.induct)
  case (1 p t pi ti star mark)
  have "ti < length t \<Longrightarrow> t ! ti \<noteq> ch CHR ''*''"
    using "1.prems"(1) nth_mem by metis
  with 1 show ?case
    by (subst glob_loop.simps, subst greedy.simps)
      (auto simp: glob_iffs all_stars_iff split: option.splits)
qed

lemma glob_match_wild_spec:
  "ch CHR ''*'' \<notin> set t \<Longrightarrow> glob_match p t \<longleftrightarrow> wild_spec glob_any glob_one p t"
  by (simp add: glob_match_def glob_loop_greedy greedy_wild_spec)

text \<open>Whatever the text holds, a match is a match of the reference meaning.\<close>

lemma glob_loop_sound:
  "glob_loop p t pi ti star mark \<Longrightarrow> ti \<le> length t \<Longrightarrow>
    (\<forall>s. star = Some s \<longrightarrow> s < length p \<and> p ! s = ch CHR ''*'' \<and> mark \<le> ti) \<Longrightarrow>
    wild_spec glob_any glob_one (drop pi p) (drop ti t) \<or>
    (\<exists>s. star = Some s \<and> wild_spec glob_any glob_one (drop s p) (drop mark t))"
proof (induction p t pi ti star mark rule: glob_loop.induct)
  case (1 p t pi ti star mark)
  show ?case
  proof (cases "ti < length t")
    case False
    then show ?thesis
      using "1.prems"(1) by (subst (asm) glob_loop.simps)
        (auto simp: all_stars_iff wild_spec_Nil list_all_iff glob_any_def)
  next
    case more: True
    then have dt: "drop ti t = t ! ti # drop (Suc ti) t" by (simp add: Cons_nth_drop_Suc)
    have dp: "pi < length p \<Longrightarrow> drop pi p = p ! pi # drop (Suc pi) p" by (simp add: Cons_nth_drop_Suc)
    let ?lit = "pi < length p \<and> (p ! pi = ch CHR ''?'' \<or> p ! pi = t ! ti)"
    let ?star = "pi < length p \<and> p ! pi = ch CHR ''*''"
    consider (l) ?lit | (s) "\<not> ?lit" ?star | (b) "\<not> ?lit" "\<not> ?star" by blast
    then show ?thesis
    proof cases
      case l
      then have "glob_loop p t (pi + 1) (ti + 1) star mark"
        using "1.prems"(1) more by (subst (asm) glob_loop.simps) simp
      then have "wild_spec glob_any glob_one (drop (Suc pi) p) (drop (Suc ti) t) \<or>
          (\<exists>s. star = Some s \<and> wild_spec glob_any glob_one (drop s p) (drop mark t))"
        using "1.IH"(1) [OF more l] "1.prems"(3) more by (auto simp: le_Suc_eq)
      moreover have "glob_any (p ! pi) \<or> glob_one (p ! pi) (t ! ti)"
        using l by (auto simp: glob_iffs)
      ultimately show ?thesis
        unfolding dt dp [OF conjunct1 [OF l]] by (blast intro: wild_spec_step)
    next
      case s
      with "1.IH"(2) [OF more s] "1.prems" more show ?thesis
        by (subst (asm) glob_loop.simps) (auto simp: dt dp glob_iffs)
    next
      case b
      then obtain s where s: "star = Some s" and g: "glob_loop p t (s + 1) (mark + 1) star (mark + 1)"
        using "1.prems"(1) more by (subst (asm) glob_loop.simps) (auto split: option.splits)
      have ps: "s < length p" "p ! s = ch CHR ''*''" "mark < length t"
        using "1.prems"(3) s more by auto
      have "drop s p = p ! s # drop (Suc s) p" by (rule drop_step [OF ps(1)])
      moreover have "glob_any (p ! s)" using ps(2) by simp
      moreover have "wild_spec glob_any glob_one (drop (s + 1) p) (drop (mark + 1) t) \<or>
          wild_spec glob_any glob_one (drop s p) (drop (mark + 1) t)"
        using "1.IH"(3) [OF more b s] g ps s by auto
      ultimately have "wild_spec glob_any glob_one (drop s p) (drop mark t)"
        using wild_spec_any_drop [of glob_any "p ! s" glob_one "drop (Suc s) p" 1 "drop mark t"]
          wild_spec_any [of glob_any "p ! s" glob_one "drop (Suc s) p" "drop mark t"] ps
        by (auto intro: exI [of _ 1])
      with s show ?thesis by blast
    qed
  qed
qed

lemma glob_match_sound: "glob_match p t \<Longrightarrow> wild_spec glob_any glob_one p t"
  using glob_loop_sound [of p t 0 0 None 0] by (simp add: glob_match_def)

text \<open>Every match starts with the literal part of the pattern.\<close>

lemma wild_spec_glob_prefix:
  "wild_spec glob_any glob_one p t \<Longrightarrow> take (length (glob_prefix p)) t = glob_prefix p"
proof (induction p arbitrary: t)
  case (Cons c p)
  show ?case
  proof (cases "c \<noteq> ch CHR ''*'' \<and> c \<noteq> ch CHR ''?''")
    case True
    then have "\<not> glob_any c" by (simp add: glob_any_def)
    with Cons.prems obtain t' where "t = c # t'" "wild_spec glob_any glob_one p t'"
      using True glob_one_iff [of "[c]" 0] by (cases t) auto
    with Cons.IH True show ?thesis by (simp add: glob_prefix_def)
  next
    case False
    then show ?thesis by (auto simp: glob_prefix_def)
  qed
qed (simp add: glob_prefix_def)

lemma glob_match_prefix: "glob_match p t \<Longrightarrow> take (length (glob_prefix p)) t = glob_prefix p"
  by (rule wild_spec_glob_prefix [OF glob_match_sound])

subsection \<open>Hexadecimal round trip\<close>

lemma nib_hex_digit:
  assumes "unat n < 16"
  shows "nib (hex_digit n) = Some n"
proof -
  have "list_all (\<lambda>k. nib (hex_digit (byte k)) = Some (byte k)) [0..<16]"
    by code_simp
  from upt_all [OF this assms] show ?thesis by simp
qed

lemma hex_digit_ascii:
  assumes "unat n < 16"
  shows "hex_digit n < 0x80"
proof -
  have "list_all (\<lambda>k. hex_digit (byte k) < 0x80) [0..<16]"
    by code_simp
  from upt_all [OF this assms] show ?thesis by simp
qed

lemma nibbles_small: "unat (drop_bit 4 (b :: u8)) < 16" "unat ((b :: u8) AND 15) < 16"
proof -
  have "unat (drop_bit 4 b) = unat b div 16" by (simp add: drop_bit_eq_div unat_div)
  moreover have "unat b < 2 ^ LENGTH(8)" by (rule unsigned_less)
  ultimately show "unat (drop_bit 4 b) < 16" by simp
  have "b AND 15 \<le> 15" by (rule word_and_le1)
  then show "unat (b AND 15) < 16" by (simp add: word_le_nat_alt)
qed

lemma nibbles_join: "push_bit 4 (drop_bit 4 b) OR (b AND 15) = (b :: u8)"
proof -
  have "push_bit 4 (drop_bit 4 b) OR take_bit 4 b = b"
    by (rule bit_eqI) (auto simp: bit_simps)
  moreover have "take_bit 4 b = b AND 15"
    by (simp add: take_bit_eq_mask mask_eq_decr_exp)
  ultimately show ?thesis by simp
qed

lemma ascii_bytes: "\<forall>c \<in> set s. c < 0x80 \<Longrightarrow> map unat (as_bytes s) = s"
  by (induction s) (simp_all add: utf8_char_def)

lemma hex_encode_ascii: "\<forall>c \<in> set (hex_encode bs). c < 0x80"
  by (auto simp: hex_encode_def hex_digit_ascii nibbles_small)

lemma length_hex_encode [simp]: "length (hex_encode bs) = 2 * length bs"
  by (induction bs) (simp_all add: hex_encode_def)

lemma hex_pairs_encode: "hex_pairs (hex_encode bs) = Some bs"
  by (induction bs) (simp_all add: hex_encode_def nib_hex_digit nibbles_small nibbles_join)

subsection \<open>Base64 round trip\<close>

lemma sextet_small: "unat (b64_sextet i n) < 64"
proof -
  have "b64_sextet i n \<le> 63" unfolding b64_sextet_def by (rule word_and_le1)
  then show ?thesis by (simp add: word_le_nat_alt)
qed

lemma B64_value: "k < 64 \<Longrightarrow> b64_value (B64 ! k) = Some (Some (byte k))"
proof -
  have "list_all (\<lambda>k. b64_value (B64 ! k) = Some (Some (byte k))) [0..<64]"
    by code_simp
  then show "k < 64 \<Longrightarrow> ?thesis" by (rule upt_all)
qed

lemma B64_ascii: "k < 64 \<Longrightarrow> B64 ! k < 0x80"
proof -
  have "list_all (\<lambda>k. B64 ! k < 0x80) [0..<64]"
    by code_simp
  then show "k < 64 \<Longrightarrow> ?thesis" by (rule upt_all)
qed

lemma b64_value_sextet:
  "b64_value (B64 ! unat (b64_sextet i n)) = Some (Some (ucast (b64_sextet i n)))"
  by (simp add: B64_value sextet_small byte_def)

lemma bit_sextet: "bit (b64_sextet i n) j \<longleftrightarrow> j < 6 \<and> bit n (i + j)"
proof -
  have "b64_sextet i n = take_bit 6 (drop_bit i n)"
    by (simp add: b64_sextet_def take_bit_eq_mask mask_eq_decr_exp)
  then show ?thesis
    using bit_imp_le_length [of n "i + j"] by (auto simp: bit_simps)
qed

lemma bit_group:
  "bit (b64_group a b c) j \<longleftrightarrow>
    (j < 8 \<and> bit c j) \<or> (8 \<le> j \<and> j < 16 \<and> bit b (j - 8)) \<or> (16 \<le> j \<and> j < 24 \<and> bit a (j - 16))"
  using bit_imp_le_length [of a "j - 16"] bit_imp_le_length [of b "j - 8"] bit_imp_le_length [of c j]
  by (auto simp: b64_group_def bit_simps)

text \<open>The three bytes a group of four characters gives back.\<close>

lemma b64_first:
  "ucast (drop_bit 4 (push_bit 6 (b64_sextet 18 (b64_group a b c)) OR b64_sextet 12 (b64_group a b c))) = a"
    (is "?x = a")
proof (rule bit_word_eqI)
  fix j
  assume "j < LENGTH(8)"
  then have j: "j < 8" by simp
  show "bit ?x j = bit a j"
  proof (cases "j < 2")
    case True
    with j show ?thesis by (simp add: bit_sextet bit_group bit_simps)
  next
    case False
    then obtain k where "j = 2 + k" by (metis le_add_diff_inverse not_le)
    with j show ?thesis by (simp add: bit_sextet bit_group bit_simps)
  qed
qed

lemma b64_second:
  "ucast (drop_bit 2 (push_bit 6
     ((push_bit 6 (b64_sextet 18 (b64_group a b c)) OR b64_sextet 12 (b64_group a b c)) AND mask 4)
     OR b64_sextet 6 (b64_group a b c))) = b" (is "?x = b")
proof (rule bit_word_eqI)
  fix j
  assume "j < LENGTH(8)"
  then have j: "j < 8" by simp
  show "bit ?x j = bit b j"
  proof (cases "j < 4")
    case True
    with j show ?thesis by (simp add: bit_sextet bit_group bit_simps)
  next
    case False
    then obtain k where "j = 4 + k" by (metis le_add_diff_inverse not_le)
    with j show ?thesis by (simp add: bit_sextet bit_group bit_simps)
  qed
qed

lemma b64_third:
  "ucast (push_bit 6 ((push_bit 6 x OR b64_sextet 6 (b64_group a b c)) AND mask 2)
     OR b64_sextet 0 (b64_group a b c)) = c" (is "?x = c")
proof (rule bit_word_eqI)
  fix j
  assume "j < LENGTH(8)"
  then have j: "j < 8" by simp
  show "bit ?x j = bit c j"
  proof (cases "j < 6")
    case True
    with j show ?thesis by (simp add: bit_sextet bit_group bit_simps)
  next
    case False
    then obtain k where "j = 6 + k" by (metis le_add_diff_inverse not_le)
    with j show ?thesis by (simp add: bit_sextet bit_group bit_simps)
  qed
qed

lemma ucast_sextet: "ucast (ucast (b64_sextet i n) :: u8) = b64_sextet i n"
  by (rule bit_word_eqI) (auto simp: bit_sextet bit_simps)

lemma b64_loop_char:
  "b64_loop acc bits (B64 ! unat (b64_sextet i n) # cs) =
     (let acc = push_bit 6 acc OR b64_sextet i n; bits = bits + 6 in
      if bits \<ge> 8 then
        (let bits = bits - 8 in
         map_option ((#) (ucast (drop_bit bits acc))) (b64_loop (acc AND mask bits) bits cs))
      else b64_loop acc bits cs)"
  by (simp add: b64_value_sextet ucast_sextet)

lemma b64_loop_pad: "b64_loop acc bits (61 # cs) = b64_loop acc bits cs"
  by (simp add: b64_value_def)

lemma b64_encode_ascii: "\<forall>c \<in> set (b64_encode bs). c < 0x80"
  by (induction bs rule: b64_encode.induct) (simp_all add: Let_def B64_ascii sextet_small)

lemma b64_loop_encode: "b64_loop 0 0 (b64_encode bs) = Some bs"
proof (induction bs rule: b64_encode.induct)
  case (2 a)
  show ?case
    by (simp add: Let_def b64_loop_char b64_loop_pad b64_first del: b64_loop.simps(2) drop_bit_or push_bit_and push_bit_or)
next
  case (3 a b)
  show ?case
    by (simp add: Let_def b64_loop_char b64_loop_pad b64_first b64_second del: b64_loop.simps(2) drop_bit_or push_bit_and push_bit_or)
next
  case (4 a b c bs)
  then show ?case
    by (simp add: Let_def b64_loop_char b64_first b64_second b64_third del: b64_loop.simps(2) drop_bit_or push_bit_and push_bit_or)
qed simp

text \<open>
  (C16) Glob matching is exact on texts without a \<open>*\<close>: the loop of \<^verbatim>\<open>glob_match\<close> accepts exactly
  the texts the pattern describes, a \<open>*\<close> standing for any run of characters (the empty run too), a
  \<open>?\<close> for one character and every other character for itself; every text it accepts also starts with
  \<^verbatim>\<open>glob_prefix\<close> of the pattern, so that the prefix scan of \<^verbatim>\<open>KEYS\<close> misses none.
\<close>

theorem glob_match_exact:
  assumes "ch CHR ''*'' \<notin> set text"
  shows "(glob_match pattern text \<longleftrightarrow> wild_spec glob_any glob_one pattern text) \<and>
    (glob_match pattern text \<longrightarrow> take (length (glob_prefix pattern)) text = glob_prefix pattern)"
  using glob_match_wild_spec [OF assms] glob_match_prefix by blast

theorem glob_match_exact_witness:
  "glob_match (lit ''us?r:*7'') (lit ''user:4747'') \<and>
    take 2 (lit ''user:4747'') = glob_prefix (lit ''us?r:*7'')"
proof -
  have "ch CHR ''*'' \<notin> set (lit ''user:4747'')" by simp
  moreover have "glob_match (lit ''us?r:*7'') (lit ''user:4747'')" by code_simp
  ultimately show ?thesis
    using glob_match_exact [of "lit ''user:4747''" "lit ''us?r:*7''"]
    by (simp add: glob_prefix_def)
qed

text \<open>
  On a text that holds a \<open>*\<close> the loop can miss a match, because it tries the literal comparison
  before it looks whether the pattern's character is a \<open>*\<close>: the pattern \<open>*\<close>, which describes every
  text, does not match the text \<open>*a\<close>. It never accepts a text that the pattern does not describe.
\<close>

theorem glob_match_star_text:
  "\<not> glob_match (lit ''*'') (lit ''*a'') \<and> wild_spec glob_any glob_one (lit ''*'') (lit ''*a'') \<and>
    {t. glob_match p t} \<subseteq> {t. wild_spec glob_any glob_one p t}"
proof -
  have "\<not> glob_match (lit ''*'') (lit ''*a'')" by code_simp
  then show ?thesis using glob_match_sound by auto
qed

text \<open>
  What \<^verbatim>\<open>hex_encode\<close> writes, \<^verbatim>\<open>hex_decode\<close> reads back, whatever the bytes.
\<close>

theorem hex_roundtrip: "hex_decode (hex_encode bs) = Some bs"
  by (simp add: hex_decode_def Let_def ascii_bytes hex_encode_ascii hex_pairs_encode)

text \<open>
  Base64: \<^verbatim>\<open>b64_decode\<close> reads back exactly the bytes \<^verbatim>\<open>b64_encode\<close> wrote, whatever their
  number (with or without padding).
\<close>

theorem b64_roundtrip: "b64_decode (b64_encode bs) = Some bs"
  by (simp add: b64_decode_def ascii_bytes b64_encode_ascii b64_loop_encode)

end
