(* ===== verification/Format.thy ===== *)
theory Format
  imports Compress Util
begin

text \<open>
  \<^verbatim>\<open>src/format.rs\<close>: the binary layout of the \<^verbatim>\<open>.kiva\<close> data file. The checksum \<^verbatim>\<open>crc32fast::hash\<close>
  is a parameter (\<open>crc\<close>). An \<open>i64\<close> field is an \<open>int\<close> in memory and eight bytes of two's
  complement on disk.
\<close>

subsection \<open>Constants and integers\<close>

definition MAGIC :: bytes where "MAGIC = lit_bytes ''KIVA''"
definition FORMAT_VERSION :: u32 where "FORMAT_VERSION = 3"
definition FORMAT_V1 :: u32 where "FORMAT_V1 = 1"
definition FILE_HEADER_LEN :: nat where "FILE_HEADER_LEN = 16"
definition REC_HEADER_LEN :: nat where "REC_HEADER_LEN = 28"
definition MAX_KEY_LEN :: nat where "MAX_KEY_LEN = 1024"

definition FLAG_COMP_MASK :: u8 where "FLAG_COMP_MASK = 0x03"
definition FLAG_MSGPACK :: u8 where "FLAG_MSGPACK = 0x04"
definition FLAG_ENCRYPTED :: u8 where "FLAG_ENCRYPTED = 0x08"
definition FLAG_KDOC :: u8 where "FLAG_KDOC = 0x10"
definition FLAG_TXN :: u8 where "FLAG_TXN = 0x20"
definition FLAG_TXN_COMMIT :: u8 where "FLAG_TXN_COMMIT = 0x40"
definition FLAG_TOMBSTONE :: u8 where "FLAG_TOMBSTONE = 0x80"

lemmas flag_defs = FLAG_COMP_MASK_def FLAG_MSGPACK_def FLAG_ENCRYPTED_def FLAG_KDOC_def
  FLAG_TXN_def FLAG_TXN_COMMIT_def FLAG_TOMBSTONE_def

lemmas len_defs = REC_HEADER_LEN_def FILE_HEADER_LEN_def

definition is_i64 :: "int \<Rightarrow> bool" where
  "is_i64 i \<longleftrightarrow> - (2 ^ 63) \<le> i \<and> i < 2 ^ 63"

definition i64_bytes :: "int \<Rightarrow> bytes" where
  "i64_bytes i = le_bytes 8 (word_of_int i :: u64)"

definition i64_of :: "bytes \<Rightarrow> int" where
  "i64_of bs = sint (le_word bs :: u64)"

lemma length_i64_bytes [simp, wire_simps]: "length (i64_bytes i) = 8"
  by (simp add: i64_bytes_def)

lemma i64_roundtrip [simp]: "is_i64 i \<Longrightarrow> i64_of (i64_bytes i) = i"
  by (simp add: i64_of_def i64_bytes_def is_i64_def signed_of_int signed_take_bit_int_eq_self)

subsection \<open>File header\<close>

definition file_header :: "u64 \<Rightarrow> u32 \<Rightarrow> bytes" where
  "file_header file_id format = MAGIC @ le_bytes 4 format @ le_bytes 8 file_id"

definition parse_file_header :: "bytes \<Rightarrow> string + (u64 \<times> u32)" where
  "parse_file_header h =
     (if length h < FILE_HEADER_LEN \<or> take 4 h \<noteq> MAGIC then Inl ''missing KIVA signature''
      else
        (let version = le_word (take 4 (drop 4 h)) :: u32 in
         if \<not> (FORMAT_V1 \<le> version \<and> version \<le> FORMAT_VERSION) then Inl ''unsupported storage format''
         else Inr (le_word (take 8 (drop 8 h)), version)))"

subsection \<open>Records\<close>

record rec_header =
  h_crc :: u32
  h_k_size :: u16
  h_v_size :: u32
  h_ty :: u8
  h_flags :: u8
  h_timestamp :: int
  h_expires_at :: int

definition total_len :: "rec_header \<Rightarrow> nat" where
  "total_len h = REC_HEADER_LEN + unat (h_k_size h) + unat (h_v_size h)"

definition h_compression :: "rec_header \<Rightarrow> compression" where
  "h_compression h = from_flag (h_flags h AND FLAG_COMP_MASK)"

definition format_for_record :: "u8 \<Rightarrow> u8 \<Rightarrow> u32" where
  "format_for_record ty flags =
     (if flags AND FLAG_KDOC \<noteq> 0 then 3 else if ty \<ge> 8 then 2 else FORMAT_V1)"

text \<open>The record without its checksum: what the checksum covers.\<close>

definition record_body :: "rstring \<Rightarrow> bytes \<Rightarrow> u8 \<Rightarrow> u8 \<Rightarrow> int \<Rightarrow> int \<Rightarrow> bytes" where
  "record_body key value ty flags timestamp expires_at =
     (let k = as_bytes key in
      le_bytes 2 (word_of_nat (length k) :: u16) @ le_bytes 4 (word_of_nat (length value) :: u32) @
      [ty, flags] @ i64_bytes timestamp @ i64_bytes expires_at @ k @ value)"

definition encode_record :: "(bytes \<Rightarrow> u32) \<Rightarrow> rstring \<Rightarrow> bytes \<Rightarrow> u8 \<Rightarrow> u8 \<Rightarrow> int \<Rightarrow> int \<Rightarrow> bytes" where
  "encode_record crc key value ty flags timestamp expires_at =
     (let buf = record_body key value ty flags timestamp expires_at
      in le_bytes 4 (crc buf) @ buf)"

text \<open>
  \<^verbatim>\<open>parse_header\<close> indexes its argument up to byte 27; every caller hands it at least 28 bytes.
\<close>

definition parse_header :: "bytes \<Rightarrow> rec_header" where
  "parse_header b =
     \<lparr>h_crc = le_word (take 4 b),
      h_k_size = le_word (take 2 (drop 4 b)),
      h_v_size = le_word (take 4 (drop 6 b)),
      h_ty = b ! 10,
      h_flags = b ! 11,
      h_timestamp = i64_of (take 8 (drop 12 b)),
      h_expires_at = expiry_to_ms (i64_of (take 8 (drop 20 b)))\<rparr>"

text \<open>
  \<^verbatim>\<open>format_needed\<close>: \<open>None\<close> is the panic of the source when the last header announces more bytes
  than \<open>buf\<close> holds (\<^verbatim>\<open>buf.len() - pos\<close> underflows).
\<close>

function format_needed_from :: "u32 \<Rightarrow> bytes \<Rightarrow> u32 option" where
  "format_needed_from need buf =
     (if length buf < REC_HEADER_LEN then Some need
      else
        (let h = parse_header buf; need = max need (format_for_record (h_ty h) (h_flags h)) in
         if total_len h > length buf then None
         else format_needed_from need (drop (total_len h) buf)))"
  by pat_completeness auto
termination
  by (relation "measure (\<lambda>(n, b). length b)") (auto simp: total_len_def len_defs)

declare format_needed_from.simps [simp del]

definition format_needed :: "bytes \<Rightarrow> u32 option" where
  "format_needed buf = format_needed_from FORMAT_V1 buf"

definition verify_record :: "(bytes \<Rightarrow> u32) \<Rightarrow> bytes \<Rightarrow> bool" where
  "verify_record crc rec =
     (if length rec < REC_HEADER_LEN then False
      else (let h = parse_header rec in total_len h = length rec \<and> crc (drop 4 rec) = h_crc h))"

subsection \<open>Round trips\<close>

lemma length_file_header [simp, wire_simps]: "length (file_header i f) = 16"
  by (simp add: file_header_def MAGIC_def)

text \<open>
  The header of a data file reads back as written for each format this build knows, and a
  file of a newer format is refused, never misread.
\<close>

theorem parse_file_header_written:
  "parse_file_header (file_header file_id format @ rest) =
     (if 1 \<le> format \<and> format \<le> 3 then Inr (file_id, format) else Inl ''unsupported storage format'')"
  by (simp add: parse_file_header_def file_header_def MAGIC_def len_defs FORMAT_V1_def
      FORMAT_VERSION_def Let_def)

text \<open>What the engine guarantees of a record it encodes: sizes and times fit their fields.\<close>

definition fits :: "rstring \<Rightarrow> bytes \<Rightarrow> int \<Rightarrow> int \<Rightarrow> bool" where
  "fits key value timestamp expires_at \<longleftrightarrow>
     str_len key < 2 ^ 16 \<and> length value < 2 ^ 32 \<and> is_i64 timestamp \<and> is_i64 expires_at"

definition header_of :: "(bytes \<Rightarrow> u32) \<Rightarrow> rstring \<Rightarrow> bytes \<Rightarrow> u8 \<Rightarrow> u8 \<Rightarrow> int \<Rightarrow> int \<Rightarrow> rec_header" where
  "header_of crc key value ty flags timestamp expires_at =
     \<lparr>h_crc = crc (record_body key value ty flags timestamp expires_at),
      h_k_size = word_of_nat (str_len key), h_v_size = word_of_nat (length value),
      h_ty = ty, h_flags = flags, h_timestamp = timestamp,
      h_expires_at = expiry_to_ms expires_at\<rparr>"

lemma header_of_simps [simp]:
  "h_crc (header_of crc key value ty flags ts ex) = crc (record_body key value ty flags ts ex)"
  "h_k_size (header_of crc key value ty flags ts ex) = word_of_nat (str_len key)"
  "h_v_size (header_of crc key value ty flags ts ex) = word_of_nat (length value)"
  "h_ty (header_of crc key value ty flags ts ex) = ty"
  "h_flags (header_of crc key value ty flags ts ex) = flags"
  "h_timestamp (header_of crc key value ty flags ts ex) = ts"
  "h_expires_at (header_of crc key value ty flags ts ex) = expiry_to_ms ex"
  by (simp_all add: header_of_def)

lemma length_record_body [wire_simps]:
  "length (record_body key value ty flags ts ex) = 24 + str_len key + length value"
  by (simp add: record_body_def Let_def wire_simps)

lemma length_encode_record [simp, wire_simps]:
  "length (encode_record crc key value ty flags ts ex) = 28 + str_len key + length value"
  by (simp add: encode_record_def Let_def wire_simps)

lemma parse_header_encode:
  assumes "is_i64 ts" and "is_i64 ex"
  shows "parse_header (encode_record crc key value ty flags ts ex @ rest) =
    header_of crc key value ty flags ts ex"
  using assms
  by (simp add: parse_header_def header_of_def encode_record_def record_body_def Let_def wire_simps
      nth_append drop_append take_append)

lemma total_len_header_of:
  "str_len key < 2 ^ 16 \<Longrightarrow> length value < 2 ^ 32 \<Longrightarrow>
    total_len (header_of crc key value ty flags ts ex) = 28 + str_len key + length value"
  by (simp add: total_len_def len_defs unat_of_nat)

text \<open>
  (C12) A record the engine encodes passes its own check and its header says what was written: the
  sizes, the type, the flags, the time stamp and the expiry (in milliseconds).
\<close>

theorem encode_record_verifies:
  assumes "fits key value ts ex"
  shows "verify_record crc (encode_record crc key value ty flags ts ex) \<and>
    parse_header (encode_record crc key value ty flags ts ex) =
      header_of crc key value ty flags ts ex"
proof (intro conjI)
  have i: "is_i64 ts" "is_i64 ex" using assms by (simp_all add: fits_def)
  show p: "parse_header (encode_record crc key value ty flags ts ex) = header_of crc key value ty flags ts ex"
    using parse_header_encode [OF i, where rest = "[]"] by simp
  have "drop 4 (encode_record crc key value ty flags ts ex) = record_body key value ty flags ts ex"
    by (simp add: encode_record_def Let_def)
  then show "verify_record crc (encode_record crc key value ty flags ts ex)"
    using assms by (simp add: verify_record_def p total_len_header_of fits_def len_defs Let_def)
qed

theorem encode_record_verifies_witness:
  "fits (lit ''user:1'') [7, 8] 1793000000 1793000000123 \<and>
   verify_record (\<lambda>b. word_of_nat (length b))
     (encode_record (\<lambda>b. word_of_nat (length b)) (lit ''user:1'') [7, 8] 1 0 1793000000 1793000000123)"
proof -
  have f: "fits (lit ''user:1'') [7, 8] 1793000000 1793000000123"
    by (simp add: fits_def is_i64_def str_len_def len_utf8_def)
  show ?thesis using f encode_record_verifies [OF f] by blast
qed

subsection \<open>A run of records\<close>

text \<open>The arguments of \<^verbatim>\<open>encode_record\<close>, to speak of what a log holds.\<close>

record wrec =
  w_key :: rstring
  w_value :: bytes
  w_ty :: u8
  w_flags :: u8
  w_timestamp :: int
  w_expires_at :: int

definition enc :: "(bytes \<Rightarrow> u32) \<Rightarrow> wrec \<Rightarrow> bytes" where
  "enc crc r = encode_record crc (w_key r) (w_value r) (w_ty r) (w_flags r) (w_timestamp r) (w_expires_at r)"

definition hdr :: "(bytes \<Rightarrow> u32) \<Rightarrow> wrec \<Rightarrow> rec_header" where
  "hdr crc r = header_of crc (w_key r) (w_value r) (w_ty r) (w_flags r) (w_timestamp r) (w_expires_at r)"

definition wrec_fits :: "wrec \<Rightarrow> bool" where
  "wrec_fits r \<longleftrightarrow> fits (w_key r) (w_value r) (w_timestamp r) (w_expires_at r)"

definition wlen :: "wrec \<Rightarrow> nat" where
  "wlen r = 28 + str_len (w_key r) + length (w_value r)"

lemma length_enc [simp, wire_simps]: "length (enc crc r) = wlen r"
  by (simp add: enc_def wlen_def)

lemma wlen_pos [simp]: "28 \<le> wlen r" "0 < wlen r"
  by (simp_all add: wlen_def)

lemma parse_header_enc:
  "wrec_fits r \<Longrightarrow> parse_header (enc crc r @ rest) = hdr crc r"
  by (simp add: enc_def hdr_def wrec_fits_def fits_def parse_header_encode)

lemma total_len_hdr: "wrec_fits r \<Longrightarrow> total_len (hdr crc r) = wlen r"
  by (simp add: hdr_def wrec_fits_def fits_def total_len_header_of wlen_def)

lemma hdr_simps [simp]:
  "h_ty (hdr crc r) = w_ty r" "h_flags (hdr crc r) = w_flags r"
  "h_timestamp (hdr crc r) = w_timestamp r"
  "h_expires_at (hdr crc r) = expiry_to_ms (w_expires_at r)"
  by (simp_all add: hdr_def)

lemma format_needed_from_enc:
  "list_all wrec_fits rs \<Longrightarrow>
    format_needed_from need (concat (map (enc crc) rs)) =
      Some (fold (\<lambda>r n. max n (format_for_record (w_ty r) (w_flags r))) rs need)"
proof (induction rs arbitrary: need)
  case Nil
  show ?case by (simp add: format_needed_from.simps len_defs)
next
  case (Cons r rs)
  have "\<not> wlen r + n < 28" for n using wlen_pos(1) [of r] by linarith
  with Cons show ?case
    by (subst format_needed_from.simps)
      (simp add: parse_header_enc total_len_hdr len_defs Let_def)
qed

text \<open>
  Appending a run of whole records raises the file to the highest format one of them needs,
  and to nothing higher: \<^verbatim>\<open>format_needed\<close> never panics on what the engine encodes.
\<close>

theorem format_needed_records:
  assumes "list_all wrec_fits rs"
  shows "format_needed (concat (map (enc crc) rs)) =
    Some (fold max (map (\<lambda>r. format_for_record (w_ty r) (w_flags r)) rs) FORMAT_V1)"
proof -
  have "fold (\<lambda>r n. max n (format_for_record (w_ty r) (w_flags r))) rs n =
      fold max (map (\<lambda>r. format_for_record (w_ty r) (w_flags r)) rs) n" for n
    by (induction rs arbitrary: n) (simp_all add: max.commute)
  then show ?thesis
    using assms by (simp add: format_needed_def format_needed_from_enc)
qed

theorem format_needed_records_witness:
  "format_needed (concat (map (enc (\<lambda>b. 0))
     [\<lparr>w_key = lit ''a'', w_value = [1], w_ty = 1, w_flags = 0, w_timestamp = 5, w_expires_at = 0\<rparr>,
      \<lparr>w_key = lit ''b'', w_value = [], w_ty = 8, w_flags = 0, w_timestamp = 5, w_expires_at = 0\<rparr>])) = Some 2"
  by (subst format_needed_records)
    (simp_all add: wrec_fits_def fits_def is_i64_def len_utf8_def format_for_record_def FORMAT_V1_def flag_defs max_def word_le_nat_alt)

end
