(* ===== verification/Crypt.thy ===== *)
theory Crypt
  imports Format
begin

text \<open>
  \<^verbatim>\<open>src/crypt.rs\<close>: encryption at rest. AES-256-GCM (the \<^verbatim>\<open>ring\<close> crate) is a parameter, an
  \<open>aead\<close> record: sealing gives the ciphertext and a tag, opening gives the plaintext back or
  fails. The nonce drawn by \<^verbatim>\<open>fill_random\<close> is an argument, \<open>Inl\<close> when the generator fails.
\<close>

definition TAG_LEN :: nat where "TAG_LEN = 16"
definition NONCE_LEN :: nat where "NONCE_LEN = 12"
definition TRAILER :: nat where "TRAILER = TAG_LEN + NONCE_LEN + 4"

lemmas crypt_lens = TAG_LEN_def NONCE_LEN_def TRAILER_def

datatype domain = DRecord | DHint | DGraphs | DChanges

fun label :: "domain \<Rightarrow> bytes" where
  "label DRecord = lit_bytes ''kivadb record v1''"
| "label DHint = lit_bytes ''kivadb hint v1''"
| "label DGraphs = lit_bytes ''kivadb graphs v1''"
| "label DChanges = lit_bytes ''kivadb changes v1''"

record crypt_key =
  key_id :: bytes
  key_data :: bytes

record keys =
  current :: crypt_key
  old :: "crypt_key list"

record aead =
  aead_seal :: "bytes \<Rightarrow> bytes \<Rightarrow> bytes \<Rightarrow> bytes \<Rightarrow> bytes \<times> bytes"
    \<comment> \<open>key, nonce, associated data, plaintext: ciphertext and tag\<close>
  aead_open :: "bytes \<Rightarrow> bytes \<Rightarrow> bytes \<Rightarrow> bytes \<Rightarrow> bytes \<Rightarrow> bytes option"
    \<comment> \<open>key, nonce, associated data, tag, ciphertext: plaintext\<close>

text \<open>What the code relies on: the documented behaviour of AES-GCM with a 16-byte tag.\<close>

definition aead_ok :: "aead \<Rightarrow> bool" where
  "aead_ok A \<longleftrightarrow> (\<forall>k n a d.
     length (fst (aead_seal A k n a d)) = length d \<and> length (snd (aead_seal A k n a d)) = TAG_LEN \<and>
     aead_open A k n a (snd (aead_seal A k n a d)) (fst (aead_seal A k n a d)) = Some d)"

datatype open_error = NoKey | UnknownKey bytes | Tampered

fun into_error :: "open_error \<Rightarrow> kiva_error" where
  "into_error NoKey = Denied ''is encrypted''"
| "into_error (UnknownKey kid) = Denied ''is encrypted with a key this server does not have''"
| "into_error Tampered = Corrupted ''fails authentication''"

definition find_key :: "keys \<Rightarrow> bytes \<Rightarrow> crypt_key option" where
  "find_key ks kid = find (\<lambda>k. key_id k = kid) (current ks # old ks)"

definition aad :: "domain \<Rightarrow> bytes \<Rightarrow> bytes \<Rightarrow> bytes" where
  "aad d extra kid = label d @ extra @ kid"

definition seal :: "aead \<Rightarrow> keys \<Rightarrow> kiva_error + bytes \<Rightarrow> domain \<Rightarrow> bytes \<Rightarrow> bytes \<Rightarrow> kiva_error + bytes" where
  "seal A ks rng d extra data =
     try_bind rng (\<lambda>nonce.
       let key = current ks;
           (ct, tag) = aead_seal A (key_data key) nonce (aad d extra (key_id key)) data
       in Inr (ct @ tag @ nonce @ key_id key))"

definition sealed_key_id :: "bytes \<Rightarrow> bytes option" where
  "sealed_key_id sealed = (if length sealed < 4 then None else Some (drop (length sealed - 4) sealed))"

definition open_with :: "aead \<Rightarrow> keys option \<Rightarrow> domain \<Rightarrow> bytes \<Rightarrow> bytes \<Rightarrow> open_error + bytes" where
  "open_with A ks d extra sealed =
     (if length sealed < TRAILER then Inl Tampered
      else case ks of
        None \<Rightarrow> Inl NoKey
      | Some ks \<Rightarrow>
          (let n = length sealed - TRAILER; kid = drop (n + TAG_LEN + NONCE_LEN) sealed in
           case find_key ks kid of
             None \<Rightarrow> Inl (UnknownKey kid)
           | Some key \<Rightarrow>
               (let nonce = take NONCE_LEN (drop (n + TAG_LEN) sealed);
                    tag = take TAG_LEN (drop n sealed);
                    data = take n sealed
                in case aead_open A (key_data key) nonce (aad d extra kid) tag data of
                     None \<Rightarrow> Inl Tampered
                   | Some plain \<Rightarrow> Inr plain)))"

text \<open>\<^verbatim>\<open>crypt::encode_record\<close>: the record as \<^verbatim>\<open>format::encode_record\<close> writes it without a key, else
  with its key and value sealed.\<close>

definition crypt_encode_record ::
  "aead \<Rightarrow> (bytes \<Rightarrow> u32) \<Rightarrow> keys option \<Rightarrow> kiva_error + bytes \<Rightarrow>
    rstring \<Rightarrow> bytes \<Rightarrow> u8 \<Rightarrow> u8 \<Rightarrow> int \<Rightarrow> int \<Rightarrow> kiva_error + bytes" where
  "crypt_encode_record A crc ks rng key value ty flags timestamp expires_at =
     (case ks of
        None \<Rightarrow> Inr (encode_record crc key value ty flags timestamp expires_at)
      | Some keys \<Rightarrow>
          (let k = as_bytes key;
               flags = flags OR FLAG_ENCRYPTED;
               head = le_bytes 2 (word_of_nat (length k) :: u16) @
                 le_bytes 4 (word_of_nat (length value + TRAILER) :: u32) @
                 [ty, flags] @ i64_bytes timestamp @ i64_bytes expires_at
           in try_bind (seal A keys rng DRecord head (k @ value)) (\<lambda>body.
                let buf = head @ body in Inr (le_bytes 4 (crc buf) @ buf))))"

definition open_record :: "aead \<Rightarrow> keys option \<Rightarrow> bytes \<Rightarrow> open_error + (bytes \<times> bytes)" where
  "open_record A ks rec =
     (let h = parse_header rec; k = unat (h_k_size h) in
      if h_flags h AND FLAG_ENCRYPTED = 0 then
        Inr (take k (drop REC_HEADER_LEN rec), drop (REC_HEADER_LEN + k) rec)
      else try_bind (open_with A ks DRecord (take (REC_HEADER_LEN - 4) (drop 4 rec)) (drop REC_HEADER_LEN rec))
        (\<lambda>plain. if length plain < k then Inl Tampered else Inr (take k plain, drop k plain)))"

definition record_key_id :: "bytes \<Rightarrow> bytes option" where
  "record_key_id rec =
     (if h_flags (parse_header rec) AND FLAG_ENCRYPTED \<noteq> 0 then sealed_key_id rec else None)"

subsection \<open>Sealing and opening\<close>

lemma find_key_current [simp]: "find_key ks (key_id (current ks)) = Some (current ks)"
  by (simp add: find_key_def)

lemma open_with_seal:
  assumes "aead_ok A" and "seal A ks (Inr nonce) d extra data = Inr sealed"
    and "length nonce = NONCE_LEN" and "length (key_id (current ks)) = 4"
    and "find_key ks' (key_id (current ks)) = Some (current ks)"
  shows "open_with A (Some ks') d extra sealed = Inr data"
    and "length sealed = length data + TRAILER"
proof -
  obtain ct tag where e: "aead_seal A (key_data (current ks)) nonce
      (aad d extra (key_id (current ks))) data = (ct, tag)"
    by (metis surj_pair)
  have l: "length ct = length data" "length tag = 16"
    and o: "aead_open A (key_data (current ks)) nonce (aad d extra (key_id (current ks))) tag ct = Some data"
    using assms(1) [unfolded aead_ok_def, rule_format, of "key_data (current ks)" nonce
        "aad d extra (key_id (current ks))" data] e by (simp_all add: crypt_lens)
  have s: "sealed = ct @ tag @ nonce @ key_id (current ks)"
    using assms(2) e by (simp add: seal_def Let_def)
  show "length sealed = length data + TRAILER"
    using l assms(3,4) by (simp add: s crypt_lens)
  show "open_with A (Some ks') d extra sealed = Inr data"
    using assms(3-5) l o by (simp add: open_with_def s crypt_lens Let_def)
qed

text \<open>The key sets that read what \<open>ks\<close> writes: the same key, current or kept as an old one.\<close>

definition can_open :: "keys option \<Rightarrow> keys option \<Rightarrow> bool" where
  "can_open ks ks' = (case ks of None \<Rightarrow> True
     | Some k \<Rightarrow> (case ks' of None \<Rightarrow> False
        | Some k' \<Rightarrow> length (key_id (current k)) = 4 \<and>
            find_key k' (key_id (current k)) = Some (current k)))"

definition overhead :: "keys option \<Rightarrow> nat" where
  "overhead ks = (case ks of None \<Rightarrow> 0 | Some _ \<Rightarrow> TRAILER)"

definition stored_flags :: "keys option \<Rightarrow> u8 \<Rightarrow> u8" where
  "stored_flags ks flags = (case ks of None \<Rightarrow> flags | Some _ \<Rightarrow> flags OR FLAG_ENCRYPTED)"

definition crypt_fits :: "keys option \<Rightarrow> rstring \<Rightarrow> bytes \<Rightarrow> int \<Rightarrow> int \<Rightarrow> bool" where
  "crypt_fits ks key value timestamp expires_at \<longleftrightarrow>
     str_len key < 2 ^ 16 \<and> length value + overhead ks < 2 ^ 32 \<and> is_i64 timestamp \<and> is_i64 expires_at"

text \<open>The fields of the header, whether or not the record is sealed.\<close>

definition crypt_header :: "keys option \<Rightarrow> u32 \<Rightarrow> rstring \<Rightarrow> bytes \<Rightarrow> u8 \<Rightarrow> u8 \<Rightarrow> int \<Rightarrow> int \<Rightarrow> rec_header" where
  "crypt_header ks c key value ty flags timestamp expires_at =
     \<lparr>h_crc = c, h_k_size = word_of_nat (str_len key),
      h_v_size = word_of_nat (length value + overhead ks), h_ty = ty,
      h_flags = stored_flags ks flags, h_timestamp = timestamp,
      h_expires_at = expiry_to_ms expires_at\<rparr>"

definition crypt_head :: "keys option \<Rightarrow> rstring \<Rightarrow> bytes \<Rightarrow> u8 \<Rightarrow> u8 \<Rightarrow> int \<Rightarrow> int \<Rightarrow> bytes" where
  "crypt_head ks key value ty flags ts ex = le_bytes 2 (word_of_nat (str_len key) :: u16) @
     le_bytes 4 (word_of_nat (length value + overhead ks) :: u32) @
     [ty, stored_flags ks flags] @ i64_bytes ts @ i64_bytes ex"

definition crypt_sealed :: "aead \<Rightarrow> keys option \<Rightarrow> kiva_error + bytes \<Rightarrow> bytes \<Rightarrow> bytes \<Rightarrow> bytes \<Rightarrow> bool" where
  "crypt_sealed A ks rng head plain body \<longleftrightarrow>
     (case ks of None \<Rightarrow> body = plain | Some k \<Rightarrow> seal A k rng DRecord head plain = Inr body)"

lemma length_crypt_head [simp]: "length (crypt_head ks key v ty flags ts ex) = 24"
  by (simp add: crypt_head_def)

text \<open>The shape of an encoded record, in clear or sealed.\<close>

lemma crypt_encode_shape:
  assumes "crypt_encode_record A crc ks rng key v ty flags ts ex = Inr rec"
  obtains body where
    "rec = le_bytes 4 (crc (crypt_head ks key v ty flags ts ex @ body)) @ crypt_head ks key v ty flags ts ex @ body"
    and "crypt_sealed A ks rng (crypt_head ks key v ty flags ts ex) (as_bytes key @ v) body"
proof (cases ks)
  case None
  with assms show thesis
    by (intro that [of "as_bytes key @ v"])
      (auto simp: crypt_encode_record_def encode_record_def record_body_def crypt_head_def overhead_def
        crypt_sealed_def stored_flags_def Let_def wire_simps)
next
  case (Some k)
  with assms that show thesis
    by (auto simp: crypt_encode_record_def crypt_head_def overhead_def stored_flags_def Let_def
        wire_simps try_bind_Inr_iff crypt_sealed_def)
qed

lemma crypt_sealed_opens:
  assumes "aead_ok A" and "crypt_sealed A ks (Inr nonce) head plain body" and "length nonce = NONCE_LEN"
    and "can_open ks ks'" and "ks = Some k"
  shows "open_with A ks' DRecord head body = Inr plain"
  using assms open_with_seal(1) [of A k nonce DRecord head plain body "the ks'"]
  by (auto simp: can_open_def crypt_sealed_def split: option.splits)

lemma crypt_sealed_length:
  assumes "aead_ok A" and "crypt_sealed A ks (Inr nonce) head plain body" and "length nonce = NONCE_LEN"
    and "can_open ks ks'"
  shows "length body = length plain + overhead ks"
  using assms open_with_seal(2) [of A "the ks" nonce DRecord head plain body "the ks'"]
  by (auto simp: can_open_def crypt_sealed_def overhead_def split: option.splits)

lemma parse_header_crypt:
  "is_i64 ts \<Longrightarrow> is_i64 ex \<Longrightarrow>
    parse_header (le_bytes 4 c @ crypt_head ks key v ty flags ts ex @ body) =
      crypt_header ks c key v ty flags ts ex"
  by (simp add: crypt_head_def crypt_header_def parse_header_def nth_append)

lemma stored_flags_encrypted:
  "stored_flags (Some k) flags AND FLAG_ENCRYPTED \<noteq> 0"
  "stored_flags None flags = flags"
  by (simp_all add: stored_flags_def flag_defs bit.conj_disj_distrib2)

lemma crypt_header_simps [simp]:
  "h_crc (crypt_header ks c key v ty flags ts ex) = c"
  "h_k_size (crypt_header ks c key v ty flags ts ex) = word_of_nat (str_len key)"
  "h_v_size (crypt_header ks c key v ty flags ts ex) = word_of_nat (length v + overhead ks)"
  "h_ty (crypt_header ks c key v ty flags ts ex) = ty"
  "h_flags (crypt_header ks c key v ty flags ts ex) = stored_flags ks flags"
  "h_timestamp (crypt_header ks c key v ty flags ts ex) = ts"
  "h_expires_at (crypt_header ks c key v ty flags ts ex) = expiry_to_ms ex"
  by (simp_all add: crypt_header_def)

lemma total_len_crypt_header:
  "crypt_fits ks key v ts ex \<Longrightarrow>
    total_len (crypt_header ks c key v ty flags ts ex) = 28 + str_len key + length v + overhead ks"
  by (simp add: total_len_def crypt_fits_def len_defs unat_of_nat del: of_nat_add)

text \<open>Everything the readers of a record look at.\<close>

lemma crypt_record_facts:
  assumes "crypt_encode_record A crc ks (Inr nonce) key v ty flags ts ex = Inr rec"
    and "aead_ok A" and "length nonce = NONCE_LEN" and "can_open ks ks'"
    and "crypt_fits ks key v ts ex" and "flags AND FLAG_ENCRYPTED = 0"
  shows "parse_header rec = crypt_header ks (crc (drop 4 rec)) key v ty flags ts ex"
    and "length rec = 28 + str_len key + length v + overhead ks"
    and "open_record A ks' rec = Inr (as_bytes key, v)"
proof -
  let ?h = "crypt_head ks key v ty flags ts ex"
  obtain body where rec: "rec = le_bytes 4 (crc (?h @ body)) @ ?h @ body"
    and sealed: "crypt_sealed A ks (Inr nonce) ?h (as_bytes key @ v) body"
    by (rule crypt_encode_shape [OF assms(1)])
  show ph: "parse_header rec = crypt_header ks (crc (drop 4 rec)) key v ty flags ts ex"
    using assms(5) by (simp add: rec parse_header_crypt crypt_fits_def)
  show "length rec = 28 + str_len key + length v + overhead ks"
    using crypt_sealed_length [OF assms(2) sealed assms(3,4)] by (simp add: rec wire_simps)
  have k: "unat (word_of_nat (str_len key) :: u16) = length (as_bytes key)"
    using assms(5) by (simp add: wire_simps unat_of_nat crypt_fits_def)
  show "open_record A ks' rec = Inr (as_bytes key, v)"
  proof (cases ks)
    case None
    then have "body = as_bytes key @ v" using sealed by (simp add: crypt_sealed_def)
    with None k assms(6) show ?thesis
      by (simp add: open_record_def ph stored_flags_encrypted len_defs Let_def) (simp add: rec)
  next
    case (Some kk)
    have "take 24 (drop 4 rec) = ?h" "drop 28 rec = body" by (simp_all add: rec)
    with crypt_sealed_opens [OF assms(2) sealed assms(3,4) Some] k show ?thesis
      by (simp add: open_record_def ph Some stored_flags_encrypted len_defs Let_def)
  qed
qed

lemma stored_flags_and: "m AND FLAG_ENCRYPTED = 0 \<Longrightarrow> stored_flags ks flags AND m = flags AND m"
  by (simp add: stored_flags_def bit.conj_disj_distrib2 and.commute [of FLAG_ENCRYPTED m] split: option.splits)

text \<open>
  (C11) Encryption at rest loses nothing and survives a key rotation: a record the engine encodes,
  in clear or sealed, passes its checksum and opens, with the same key or after that key became an
  old one, to exactly the key and the value written. It holds for every AEAD that opens what it
  sealed.
\<close>

theorem open_record_encode:
  assumes "crypt_encode_record A crc ks (Inr nonce) key v ty flags ts ex = Inr rec"
    and "aead_ok A" and "length nonce = NONCE_LEN" and "can_open ks ks'"
    and "crypt_fits ks key v ts ex" and "flags AND FLAG_ENCRYPTED = 0"
  shows "verify_record crc rec \<and> open_record A ks' rec = Inr (as_bytes key, v)"
  using crypt_record_facts [OF assms] assms(5)
  by (simp add: verify_record_def total_len_crypt_header len_defs Let_def)

text \<open>An AEAD that satisfies the hypothesis: it binds the plaintext to key, nonce and context.\<close>

definition plain_aead :: aead where
  "plain_aead =
     \<lparr>aead_seal = (\<lambda>k n a d. (d, replicate 16 (of_nat (length (k @ n @ a))))),
      aead_open = (\<lambda>k n a t c. if t = replicate 16 (of_nat (length (k @ n @ a))) then Some c else None)\<rparr>"

lemma plain_aead_ok: "aead_ok plain_aead"
  by (simp add: aead_ok_def plain_aead_def crypt_lens)

text \<open>A record written under key 1, read after a rotation to key 2.\<close>

definition key_one :: crypt_key where "key_one = \<lparr>key_id = [1, 1, 1, 1], key_data = [10]\<rparr>"
definition key_two :: crypt_key where "key_two = \<lparr>key_id = [2, 2, 2, 2], key_data = [20]\<rparr>"

theorem open_record_encode_witness:
  "\<exists>rec. crypt_encode_record plain_aead (\<lambda>b. of_nat (length b)) (Some \<lparr>current = key_one, old = []\<rparr>)
       (Inr (replicate 12 0)) (lit ''a'') [9] 1 0 0 0 = Inr rec \<and>
     open_record plain_aead (Some \<lparr>current = key_two, old = [key_one]\<rparr>) rec = Inr (as_bytes (lit ''a''), [9])"
proof -
  let ?ks = "Some \<lparr>current = key_one, old = []\<rparr>" and ?ks' = "Some \<lparr>current = key_two, old = [key_one]\<rparr>"
  obtain rec where r: "crypt_encode_record plain_aead (\<lambda>b. of_nat (length b)) ?ks
       (Inr (replicate 12 0)) (lit ''a'') [9] 1 0 0 0 = Inr rec"
    by (simp add: crypt_encode_record_def seal_def plain_aead_def Let_def)
  have c: "can_open ?ks ?ks'" by (simp add: can_open_def find_key_def key_one_def key_two_def)
  have f: "crypt_fits ?ks (lit ''a'') [9] 0 0"
    by (simp add: crypt_fits_def overhead_def crypt_lens is_i64_def len_utf8_def)
  have n: "length (replicate 12 (0 :: u8)) = NONCE_LEN" by (simp add: crypt_lens)
  have z: "(0 :: u8) AND FLAG_ENCRYPTED = 0" by simp
  have "open_record plain_aead ?ks' rec = Inr (as_bytes (lit ''a''), [9])"
    by (rule open_record_encode [OF r plain_aead_ok n c f z, THEN conjunct2])
  with r show ?thesis by blast
qed

end
