(* ===== verification/Types.thy ===== *)
theory Types
  imports Crypt
begin

text \<open>
  The type tags of \<^verbatim>\<open>src/value.rs\<close> (\<^verbatim>\<open>Type\<close>, \<^verbatim>\<open>DocEnc\<close>) and the index entry of
  \<^verbatim>\<open>src/engine.rs\<close> (\<^verbatim>\<open>Entry\<close>). Offsets, lengths and sequence numbers are natural numbers: they
  count bytes and writes of one file and stay far below \<open>2 ^ 64\<close>.
\<close>

datatype vtype =
    TString | TNumber | TBoolean | TNull | TArray | TObject | TBytes | TDate | TDateTime | TTime

fun type_u8 :: "vtype \<Rightarrow> u8" where
  "type_u8 TString = 1" | "type_u8 TNumber = 2" | "type_u8 TBoolean = 3" | "type_u8 TNull = 4"
| "type_u8 TArray = 5" | "type_u8 TObject = 6" | "type_u8 TBytes = 7" | "type_u8 TDate = 8"
| "type_u8 TDateTime = 9" | "type_u8 TTime = 10"

fun type_name :: "vtype \<Rightarrow> string" where
  "type_name TString = ''string''" | "type_name TNumber = ''number''"
| "type_name TBoolean = ''boolean''" | "type_name TNull = ''null''"
| "type_name TArray = ''array''" | "type_name TObject = ''object''"
| "type_name TBytes = ''bytes''" | "type_name TDate = ''date''"
| "type_name TDateTime = ''datetime''" | "type_name TTime = ''time''"

definition type_from_name :: "string \<Rightarrow> vtype option" where
  "type_from_name s =
     (if s = ''string'' then Some TString else if s = ''number'' then Some TNumber
      else if s = ''boolean'' then Some TBoolean else if s = ''null'' then Some TNull
      else if s = ''array'' then Some TArray else if s = ''object'' then Some TObject
      else if s = ''bytes'' then Some TBytes else if s = ''date'' then Some TDate
      else if s = ''datetime'' then Some TDateTime else if s = ''time'' then Some TTime
      else None)"

definition type_from_u8 :: "u8 \<Rightarrow> vtype option" where
  "type_from_u8 b =
     (if b = 1 then Some TString else if b = 2 then Some TNumber else if b = 3 then Some TBoolean
      else if b = 4 then Some TNull else if b = 5 then Some TArray else if b = 6 then Some TObject
      else if b = 7 then Some TBytes else if b = 8 then Some TDate else if b = 9 then Some TDateTime
      else if b = 10 then Some TTime else None)"

fun is_doc :: "vtype \<Rightarrow> bool" where
  "is_doc TArray = True" | "is_doc TObject = True" | "is_doc _ = False"

fun is_temporal :: "vtype \<Rightarrow> bool" where
  "is_temporal TDate = True" | "is_temporal TDateTime = True" | "is_temporal TTime = True"
| "is_temporal _ = False"

lemma type_from_u8_type_u8 [simp]: "type_from_u8 (type_u8 t) = Some t"
  by (cases t) (simp_all add: type_from_u8_def)

lemma type_from_name_type_name [simp]: "type_from_name (type_name t) = Some t"
  by (cases t) (simp_all add: type_from_name_def)

lemma type_from_u8_SomeD: "type_from_u8 b = Some t \<Longrightarrow> type_u8 t = b"
  by (auto simp: type_from_u8_def split: if_splits)

text \<open>Only the types added by format 2 raise a file to it.\<close>

lemma temporal_needs_format_2:
  "is_temporal t \<longleftrightarrow> format_for_record (type_u8 t) 0 = 2"
  by (cases t) (simp_all add: format_for_record_def FORMAT_V1_def word_le_nat_alt)

datatype doc_enc = EJson | EMsgPack | EKdoc

definition doc_enc_from_flags :: "u8 \<Rightarrow> doc_enc" where
  "doc_enc_from_flags flags =
     (if flags AND FLAG_KDOC \<noteq> 0 then EKdoc else if flags AND FLAG_MSGPACK \<noteq> 0 then EMsgPack else EJson)"

fun doc_enc_flags :: "doc_enc \<Rightarrow> u8" where
  "doc_enc_flags EJson = 0" | "doc_enc_flags EMsgPack = FLAG_MSGPACK" | "doc_enc_flags EKdoc = FLAG_KDOC"

subsection \<open>Index entries\<close>

record entry =
  e_offset :: nat
  e_k_size :: u16
  e_v_size :: u32
  e_raw_size :: u32
  e_ty :: vtype
  e_flags :: u8
  e_timestamp :: int
  e_expires_at :: int
  e_version :: nat

definition rec_len :: "entry \<Rightarrow> nat" where
  "rec_len e = REC_HEADER_LEN + unat (e_k_size e) + unat (e_v_size e)"

definition is_expired :: "entry \<Rightarrow> int \<Rightarrow> bool" where
  "is_expired e now \<longleftrightarrow> e_expires_at e > 0 \<and> e_expires_at e \<le> now"

definition is_msgpack :: "entry \<Rightarrow> bool" where
  "is_msgpack e \<longleftrightarrow> e_flags e AND FLAG_MSGPACK \<noteq> 0"

definition e_doc_enc :: "entry \<Rightarrow> doc_enc" where
  "e_doc_enc e = doc_enc_from_flags (e_flags e)"

definition e_compression :: "entry \<Rightarrow> compression" where
  "e_compression e = from_flag (e_flags e AND FLAG_COMP_MASK)"

type_synonym index = "(rstring, entry) omap"

end
