(* ===== verification/ScanLog.thy ===== *)
theory ScanLog
  imports Types
begin

text \<open>
  \<^verbatim>\<open>scan_log\<close> of \<^verbatim>\<open>src/engine.rs\<close>: how a data file is replayed when the engine opens it. The file
  is the list of its bytes and its length is the length of that list, as at the call; the I/O
  errors of the reader are left out. The records of a batch wait in \<open>sc_pending\<close> until the record
  that commits them shows up.
\<close>

record scan_state =
  sc_index :: index
  sc_seq :: nat
  sc_pending :: "(rstring \<times> entry option) list"
  sc_pending_start :: nat
  sc_corrupted :: nat

record scan_outcome =
  so_index :: index
  so_seq :: nat
  so_end :: nat
  so_corrupted :: nat

text \<open>The closure \<^verbatim>\<open>apply\<close>.\<close>

definition scan_apply :: "rstring \<times> entry option \<Rightarrow> scan_state \<Rightarrow> scan_state" where
  "scan_apply kv st =
     (let seq = sc_seq st + 1 in
      case snd kv of
        Some e \<Rightarrow> st\<lparr>sc_index := om_insert (fst kv) (e\<lparr>e_version := seq\<rparr>) (sc_index st), sc_seq := seq\<rparr>
      | None \<Rightarrow> st\<lparr>sc_index := om_remove (fst kv) (sc_index st), sc_seq := seq\<rparr>)"

text \<open>
  The checks of one framed record \<open>rec\<close> at \<open>pos\<close>: an error stops the scan, \<open>None\<close> is a record
  that is not valid, \<open>Some\<close> gives its key and its entry (\<open>None\<close> for a tombstone).
\<close>

definition scan_opened :: "aead \<Rightarrow> (bytes \<Rightarrow> u32) \<Rightarrow> keys option \<Rightarrow> bool \<Rightarrow> bytes \<Rightarrow>
    kiva_error + (bytes \<times> bytes) option" where
  "scan_opened A crc ks require_encryption rec =
     (let h = parse_header rec; body = drop REC_HEADER_LEN rec in
      if crc (drop 4 rec) \<noteq> h_crc h then Inr None
      else if h_flags h AND FLAG_ENCRYPTED \<noteq> 0 then
        (case open_record A ks rec of
           Inr kv \<Rightarrow> Inr (Some kv)
         | Inl e \<Rightarrow> if e = Tampered then Inr None else Inl (into_error e))
      else if require_encryption then Inl (Denied ''encryption.required is on'')
      else (let k = unat (h_k_size h) in Inr (Some (take k body, drop k body))))"

definition scan_raw_size :: "u8 \<Rightarrow> bytes \<Rightarrow> u32" where
  "scan_raw_size flags stored =
     (if flags AND FLAG_COMP_MASK \<noteq> 0 \<and> length stored \<ge> 4 then le_word (take 4 stored)
      else word_of_nat (length stored))"

definition scan_entry :: "nat \<Rightarrow> rec_header \<Rightarrow> vtype \<Rightarrow> bytes \<Rightarrow> entry" where
  "scan_entry pos h ty stored =
     \<lparr>e_offset = pos, e_k_size = h_k_size h, e_v_size = h_v_size h,
      e_raw_size = scan_raw_size (h_flags h) stored, e_ty = ty, e_flags = h_flags h,
      e_timestamp = h_timestamp h, e_expires_at = h_expires_at h, e_version = 0\<rparr>"

definition scan_record :: "aead \<Rightarrow> (bytes \<Rightarrow> u32) \<Rightarrow> keys option \<Rightarrow> bool \<Rightarrow> nat \<Rightarrow> bytes \<Rightarrow>
    kiva_error + (rstring \<times> entry option) option" where
  "scan_record A crc ks require_encryption pos rec =
     (let h = parse_header rec; tombstone = (h_flags h AND FLAG_TOMBSTONE \<noteq> 0) in
      case scan_opened A crc ks require_encryption rec of
        Inl e \<Rightarrow> Inl e
      | Inr None \<Rightarrow> Inr None
      | Inr (Some (k, stored)) \<Rightarrow>
          (case from_utf8 k of
             None \<Rightarrow> Inr None
           | Some key \<Rightarrow>
               if tombstone then Inr (Some (key, None))
               else (case type_from_u8 (h_ty h) of
                   None \<Rightarrow> Inr None
                 | Some ty \<Rightarrow> Inr (Some (key, Some (scan_entry pos h ty stored))))))"

text \<open>What a valid record does: it waits in its batch, commits it, or is applied.\<close>

definition scan_take :: "nat \<Rightarrow> u8 \<Rightarrow> rstring \<times> entry option \<Rightarrow> scan_state \<Rightarrow> scan_state" where
  "scan_take pos flags kv st =
     (if flags AND FLAG_TXN \<noteq> 0 then
        (let st = (if sc_pending st = [] then st\<lparr>sc_pending_start := pos\<rparr> else st);
             st = st\<lparr>sc_pending := sc_pending st @ [kv]\<rparr>
         in if flags AND FLAG_TXN_COMMIT \<noteq> 0 then
              (fold scan_apply (sc_pending st) st)\<lparr>sc_pending := []\<rparr>
            else st)
      else scan_apply kv (st\<lparr>sc_pending := []\<rparr>))"

function scan_loop :: "aead \<Rightarrow> (bytes \<Rightarrow> u32) \<Rightarrow> keys option \<Rightarrow> bool \<Rightarrow> bytes \<Rightarrow> nat \<Rightarrow> scan_state \<Rightarrow>
    kiva_error + (nat \<times> scan_state)" where
  "scan_loop A crc ks req file pos st =
     (if \<not> pos < length file then Inr (pos, st)
      else if length file - pos < REC_HEADER_LEN then Inr (pos, st)
      else
        (let hdr = take REC_HEADER_LEN (drop pos file); h = parse_header hdr; total = total_len h in
         if h_k_size h = 0 \<or> pos + total > length file then Inr (pos, st)
         else
           (let body = take (unat (h_k_size h) + unat (h_v_size h)) (drop (pos + REC_HEADER_LEN) file) in
            case scan_record A crc ks req pos (hdr @ body) of
              Inl e \<Rightarrow> Inl e
            | Inr None \<Rightarrow>
                if pos + total = length file then Inr (pos, st)
                else scan_loop A crc ks req file (pos + total)
                  (st\<lparr>sc_corrupted := sc_corrupted st + 1, sc_pending := []\<rparr>)
            | Inr (Some kv) \<Rightarrow>
                scan_loop A crc ks req file (pos + total) (scan_take pos (h_flags h) kv st))))"
  by pat_completeness auto
termination
  by (relation "measure (\<lambda>(A, crc, ks, req, file, pos, st). length file - pos)")
    (auto simp: total_len_def len_defs)

declare scan_loop.simps [simp del]

definition scan_log :: "aead \<Rightarrow> (bytes \<Rightarrow> u32) \<Rightarrow> keys option \<Rightarrow> bool \<Rightarrow> bytes \<Rightarrow> nat \<Rightarrow> index \<Rightarrow> nat \<Rightarrow>
    kiva_error + scan_outcome" where
  "scan_log A crc ks require_encryption file start index seq =
     (case scan_loop A crc ks require_encryption file start
        \<lparr>sc_index = index, sc_seq = seq, sc_pending = [], sc_pending_start = 0, sc_corrupted = 0\<rparr> of
        Inl e \<Rightarrow> Inl e
      | Inr (pos, st) \<Rightarrow>
          Inr \<lparr>so_index = sc_index st, so_seq = sc_seq st,
               so_end = (if sc_pending st = [] then pos else sc_pending_start st),
               so_corrupted = sc_corrupted st\<rparr>)"

subsection \<open>Frames\<close>

text \<open>A byte string that announces exactly its own length.\<close>

definition is_frame :: "bytes \<Rightarrow> bool" where
  "is_frame rec \<longleftrightarrow> REC_HEADER_LEN \<le> length rec \<and> total_len (parse_header rec) = length rec \<and>
     h_k_size (parse_header rec) \<noteq> 0"

lemma is_frameD:
  assumes "is_frame rec"
  shows "REC_HEADER_LEN \<le> length rec" "total_len (parse_header rec) = length rec"
    "h_k_size (parse_header rec) \<noteq> 0" "0 < length rec"
  using assms by (auto simp: is_frame_def len_defs)

lemma parse_header_take [simp]:
  "REC_HEADER_LEN \<le> length b \<Longrightarrow> parse_header (take REC_HEADER_LEN b) = parse_header b"
  by (simp add: parse_header_def len_defs take_drop min_def)

lemma parse_header_prefix:
  "REC_HEADER_LEN \<le> length b \<Longrightarrow> parse_header (b @ c) = parse_header b"
  by (simp add: parse_header_def len_defs nth_append)

lemma scan_loop_frame:
  assumes "is_frame rec" and "file = pre @ rec @ rest" and "pos = length pre"
  shows "scan_loop A crc ks req file pos st =
    (case scan_record A crc ks req pos rec of
       Inl e \<Rightarrow> Inl e
     | Inr None \<Rightarrow> if rest = [] then Inr (pos, st)
         else scan_loop A crc ks req file (pos + length rec)
           (st\<lparr>sc_corrupted := sc_corrupted st + 1, sc_pending := []\<rparr>)
     | Inr (Some kv) \<Rightarrow>
         scan_loop A crc ks req file (pos + length rec) (scan_take pos (h_flags (parse_header rec)) kv st))"
proof -
  note f = is_frameD [OF assms(1)]
  have h: "parse_header (take REC_HEADER_LEN (drop pos file)) = parse_header rec"
    using f(1) by (simp add: assms(2,3) parse_header_prefix)
  have b: "take REC_HEADER_LEN (drop pos file) @
      take (unat (h_k_size (parse_header rec)) + unat (h_v_size (parse_header rec)))
        (drop (pos + REC_HEADER_LEN) file) = rec"
    using f(1,2) by (simp add: assms(2,3) total_len_def append_eq_conv_conj)
  have "length file = pos + length rec + length rest" by (simp add: assms(2,3))
  with f show ?thesis
    by (subst scan_loop.simps) (auto simp: h b Let_def split: sum.splits option.splits)
qed

lemma scan_loop_torn:
  assumes "is_frame rec" and "n < length rec" and "file = pre @ take n rec" and "pos = length pre"
  shows "scan_loop A crc ks req file pos st = Inr (pos, st)"
proof (cases "n < REC_HEADER_LEN")
  case True
  with assms show ?thesis by (subst scan_loop.simps) simp
next
  case False
  with assms is_frameD [OF assms(1)]
  have "parse_header (take REC_HEADER_LEN (drop pos file)) = parse_header rec"
    by (simp add: min_def)
  with False assms is_frameD [OF assms(1)] show ?thesis
    by (subst scan_loop.simps) (simp add: Let_def)
qed

lemma scan_loop_end: "pos = length file \<Longrightarrow> scan_loop A crc ks req file pos st = Inr (pos, st)"
  by (subst scan_loop.simps) simp

subsection \<open>What a log holds\<close>

text \<open>
  A record of a log: its bytes and what they say, the entry with its offset left at 0. A log is a
  list of units: a record on its own, or the records of one batch, the last of which commits it.
\<close>

record log_rec =
  l_bytes :: bytes
  l_key :: rstring
  l_entry :: "entry option"

definition l_txn :: "log_rec \<Rightarrow> bool" where
  "l_txn r \<longleftrightarrow> h_flags (parse_header (l_bytes r)) AND FLAG_TXN \<noteq> 0"

definition l_commit :: "log_rec \<Rightarrow> bool" where
  "l_commit r \<longleftrightarrow> h_flags (parse_header (l_bytes r)) AND FLAG_TXN_COMMIT \<noteq> 0"

definition at_offset :: "nat \<Rightarrow> entry option \<Rightarrow> entry option" where
  "at_offset pos eo = map_option (\<lambda>e. e\<lparr>e_offset := pos\<rparr>) eo"

definition reads :: "aead \<Rightarrow> (bytes \<Rightarrow> u32) \<Rightarrow> keys option \<Rightarrow> bool \<Rightarrow> log_rec \<Rightarrow> bool" where
  "reads A crc ks req r \<longleftrightarrow> is_frame (l_bytes r) \<and>
     (\<forall>pos. scan_record A crc ks req pos (l_bytes r) = Inr (Some (l_key r, at_offset pos (l_entry r))))"

definition unit_ok :: "log_rec list \<Rightarrow> bool" where
  "unit_ok u \<longleftrightarrow> u \<noteq> [] \<and>
     ((\<exists>r. u = [r] \<and> \<not> l_txn r) \<or>
      (list_all l_txn u \<and> list_all (\<lambda>r. \<not> l_commit r) (butlast u) \<and> l_commit (last u)))"

definition log_bytes :: "log_rec list \<Rightarrow> bytes" where
  "log_bytes rs = concat (map l_bytes rs)"

text \<open>The records with the offsets they get in a file.\<close>

fun placed :: "nat \<Rightarrow> log_rec list \<Rightarrow> (rstring \<times> entry option) list" where
  "placed pos [] = []"
| "placed pos (r # rs) = (l_key r, at_offset pos (l_entry r)) # placed (pos + length (l_bytes r)) rs"

text \<open>The units that lie wholly within the first \<open>n\<close> bytes.\<close>

fun whole_units :: "nat \<Rightarrow> log_rec list list \<Rightarrow> log_rec list list" where
  "whole_units n [] = []"
| "whole_units n (u # us) =
     (if length (log_bytes u) \<le> n then u # whole_units (n - length (log_bytes u)) us else [])"

lemma log_bytes_simps [simp]:
  "log_bytes [] = []" "log_bytes (r # rs) = l_bytes r @ log_bytes rs"
  "log_bytes (rs @ qs) = log_bytes rs @ log_bytes qs"
  by (simp_all add: log_bytes_def)

lemma placed_append:
  "placed pos (rs @ qs) = placed pos rs @ placed (pos + length (log_bytes rs)) qs"
  by (induction rs arbitrary: pos) (simp_all add: add.assoc)

lemma scan_apply_frame [simp]:
  "sc_pending (scan_apply kv st) = sc_pending st"
  "sc_pending_start (scan_apply kv st) = sc_pending_start st"
  "sc_corrupted (scan_apply kv st) = sc_corrupted st"
  by (simp_all add: scan_apply_def Let_def split: option.splits)

lemma fold_scan_apply_frame [simp]:
  "sc_pending (fold scan_apply kvs st) = sc_pending st"
  "sc_pending_start (fold scan_apply kvs st) = sc_pending_start st"
  "sc_corrupted (fold scan_apply kvs st) = sc_corrupted st"
  by (induction kvs arbitrary: st) simp_all

text \<open>Applying records does not look at the pending ones.\<close>

lemma scan_apply_pending:
  "scan_apply kv (st\<lparr>sc_pending := p\<rparr>) = (scan_apply kv st)\<lparr>sc_pending := p\<rparr>"
  "scan_apply kv (st\<lparr>sc_pending_start := q\<rparr>) = (scan_apply kv st)\<lparr>sc_pending_start := q\<rparr>"
  by (simp_all add: scan_apply_def Let_def split: option.splits)

lemma fold_scan_apply_pending:
  "fold scan_apply kvs (st\<lparr>sc_pending := p\<rparr>) = (fold scan_apply kvs st)\<lparr>sc_pending := p\<rparr>"
  "fold scan_apply kvs (st\<lparr>sc_pending_start := q\<rparr>) = (fold scan_apply kvs st)\<lparr>sc_pending_start := q\<rparr>"
  by (induction kvs arbitrary: st) (simp_all add: scan_apply_pending)

lemma scan_state_idle:
  "sc_pending st = [] \<Longrightarrow> st\<lparr>sc_pending := []\<rparr> = st"
  "sc_pending_start st = q \<Longrightarrow> st\<lparr>sc_pending_start := q\<rparr> = st"
  by (cases st; simp)+

lemma scan_loop_reads:
  assumes "reads A crc ks req r" and "file = pre @ l_bytes r @ rest" and "pos = length pre"
  shows "scan_loop A crc ks req file pos st =
    scan_loop A crc ks req file (pos + length (l_bytes r))
      (scan_take pos (h_flags (parse_header (l_bytes r))) (l_key r, at_offset pos (l_entry r)) st)"
  using assms by (subst scan_loop_frame [OF _ assms(2,3)]) (auto simp: reads_def)

text \<open>Records of a batch before its commit only wait.\<close>

lemma scan_loop_pending:
  assumes "list_all (reads A crc ks req) rs" and "list_all l_txn rs" and "list_all (\<lambda>r. \<not> l_commit r) rs"
    and "file = pre @ log_bytes rs @ rest" and "pos = length pre"
  shows "scan_loop A crc ks req file pos st =
    scan_loop A crc ks req file (pos + length (log_bytes rs))
      (st\<lparr>sc_pending := sc_pending st @ placed pos rs,
          sc_pending_start := (if sc_pending st = [] \<and> rs \<noteq> [] then pos else sc_pending_start st)\<rparr>)"
  using assms
proof (induction rs arbitrary: pre pos st)
  case Nil
  then show ?case by simp
next
  case (Cons r rs)
  let ?st = "scan_take pos (h_flags (parse_header (l_bytes r))) (l_key r, at_offset pos (l_entry r)) st"
  have "scan_loop A crc ks req file pos st = scan_loop A crc ks req file (pos + length (l_bytes r)) ?st"
    using Cons.prems by (intro scan_loop_reads [of _ _ _ _ _ _ pre "log_bytes rs @ rest"]) auto
  also have "\<dots> = scan_loop A crc ks req file (pos + length (l_bytes r) + length (log_bytes rs))
      (?st\<lparr>sc_pending := sc_pending ?st @ placed (pos + length (l_bytes r)) rs,
          sc_pending_start := (if sc_pending ?st = [] \<and> rs \<noteq> [] then pos + length (l_bytes r)
            else sc_pending_start ?st)\<rparr>)"
    using Cons.prems by (intro Cons.IH [of "pre @ l_bytes r"]) auto
  finally show ?case
    using Cons.prems by (simp add: scan_take_def l_txn_def l_commit_def add.assoc)
qed

text \<open>A whole unit is applied, record by record.\<close>

lemma scan_loop_unit:
  assumes "list_all (reads A crc ks req) u" and "unit_ok u" and "sc_pending st = []"
    and "file = pre @ log_bytes u @ rest" and "pos = length pre"
  obtains q where "scan_loop A crc ks req file pos st =
    scan_loop A crc ks req file (pos + length (log_bytes u))
      ((fold scan_apply (placed pos u) st)\<lparr>sc_pending_start := q\<rparr>)"
proof (cases "\<exists>r. u = [r] \<and> \<not> l_txn r")
  case True
  then obtain r where r: "u = [r]" "\<not> l_txn r" by auto
  then have "scan_loop A crc ks req file pos st =
      scan_loop A crc ks req file (pos + length (log_bytes u))
        ((fold scan_apply (placed pos u) st)\<lparr>sc_pending_start := sc_pending_start st\<rparr>)"
    using assms scan_loop_reads [where r = r and pre = pre and rest = rest and st = st]
    by (simp add: scan_take_def l_txn_def scan_state_idle)
  then show thesis by (rule that)
next
  case False
  then have t: "list_all l_txn u" "list_all (\<lambda>r. \<not> l_commit r) (butlast u)" "l_commit (last u)" "u \<noteq> []"
    using assms(2) by (auto simp: unit_ok_def)
  then obtain rs r where u: "u = rs @ [r]" by (metis append_butlast_last_id)
  let ?st = "st\<lparr>sc_pending := placed pos rs, sc_pending_start := (if rs \<noteq> [] then pos else sc_pending_start st)\<rparr>"
  let ?pos = "pos + length (log_bytes rs)"
  have "scan_loop A crc ks req file pos st = scan_loop A crc ks req file ?pos ?st"
    using assms t u scan_loop_pending [where A = A and rs = rs and pre = pre and rest = "l_bytes r @ rest" and st = st] by simp
  also have "\<dots> = scan_loop A crc ks req file (?pos + length (l_bytes r))
      (scan_take ?pos (h_flags (parse_header (l_bytes r))) (l_key r, at_offset ?pos (l_entry r)) ?st)"
    using assms u by (intro scan_loop_reads [of _ _ _ _ _ _ "pre @ log_bytes rs" rest]) auto
  also have "scan_take ?pos (h_flags (parse_header (l_bytes r))) (l_key r, at_offset ?pos (l_entry r)) ?st =
      (fold scan_apply (placed pos u) st)\<lparr>sc_pending_start := pos\<rparr>"
    using t u assms(3) by (cases rs)
      (simp_all add: scan_take_def l_txn_def l_commit_def placed_append fold_scan_apply_pending scan_apply_pending
        scan_state_idle add.assoc)
  finally show thesis
    by (intro that) (simp add: u add.assoc)
qed

text \<open>A unit cut short leaves the index alone, and the log ends where it started.\<close>

lemma take_log_bytes:
  "n < length (log_bytes rs) \<Longrightarrow> \<exists>qs r ps m. rs = qs @ r # ps \<and> m < length (l_bytes r) \<and>
    take n (log_bytes rs) = log_bytes qs @ take m (l_bytes r)"
proof (induction rs arbitrary: n)
  case (Cons r rs)
  show ?case
  proof (cases "n < length (l_bytes r)")
    case True
    then show ?thesis by (intro exI [of _ "[]"] exI [of _ r] exI [of _ rs] exI [of _ n]) simp
  next
    case False
    with Cons.prems have "n - length (l_bytes r) < length (log_bytes rs)" by simp
    from Cons.IH [OF this] obtain qs r' ps m where "rs = qs @ r' # ps" "m < length (l_bytes r')"
      "take (n - length (l_bytes r)) (log_bytes rs) = log_bytes qs @ take m (l_bytes r')"
      by blast
    with False show ?thesis
      by (intro exI [of _ "r # qs"] exI [of _ r'] exI [of _ ps] exI [of _ m]) simp
  qed
qed simp

lemma scan_loop_torn_unit:
  assumes "list_all (reads A crc ks req) u" and "unit_ok u" and "sc_pending st = []"
    and "n < length (log_bytes u)" and "file = pre @ take n (log_bytes u)" and "pos = length pre"
  shows "\<exists>p q rs. scan_loop A crc ks req file pos st =
      Inr (p, st\<lparr>sc_pending := rs, sc_pending_start := q\<rparr>) \<and> (if rs = [] then p else q) = pos"
proof -
  obtain qs r ps m where u: "u = qs @ r # ps" and m: "m < length (l_bytes r)"
    and t: "take n (log_bytes u) = log_bytes qs @ take m (l_bytes r)"
    using take_log_bytes [OF assms(4)] by blast
  have frame: "is_frame (l_bytes r)" and reads: "list_all (reads A crc ks req) qs"
    using assms(1) u by (simp_all add: reads_def)
  have txn: "list_all l_txn qs" "list_all (\<lambda>r. \<not> l_commit r) qs" if "qs \<noteq> []"
    using assms(2) u that by (auto simp: unit_ok_def butlast_append append_eq_Cons_conv)
  let ?st = "st\<lparr>sc_pending := placed pos qs,
      sc_pending_start := (if qs \<noteq> [] then pos else sc_pending_start st)\<rparr>"
  have "scan_loop A crc ks req file pos st = scan_loop A crc ks req file (pos + length (log_bytes qs)) ?st"
  proof (cases "qs = []")
    case True
    then show ?thesis using assms(3) by (simp add: scan_state_idle)
  next
    case False
    from scan_loop_pending [OF reads txn [OF False], where pre = pre and rest = "take m (l_bytes r)" and st = st]
    show ?thesis using assms(3,5,6) t False by simp
  qed
  also have "\<dots> = Inr (pos + length (log_bytes qs), ?st)"
    using frame m assms(5,6) t by (intro scan_loop_torn [of "l_bytes r" m _ "pre @ log_bytes qs"]) simp_all
  finally show ?thesis
    by (intro exI [of _ "pos + length (log_bytes qs)"] exI [of _ "placed pos qs"] exI
        [of _ "if qs \<noteq> [] then pos else sc_pending_start st"]) (cases qs; simp)
qed

subsection \<open>Recovery\<close>

text \<open>Replaying records onto an index: the specification of what a log means.\<close>

definition replay :: "(rstring \<times> entry option) list \<Rightarrow> index \<times> nat \<Rightarrow> index \<times> nat" where
  "replay kvs s = fold (\<lambda>kv (m, n). case snd kv of
       Some e \<Rightarrow> (om_insert (fst kv) (e\<lparr>e_version := n + 1\<rparr>) m, n + 1)
     | None \<Rightarrow> (om_remove (fst kv) m, n + 1)) kvs s"

lemma replay_simps [simp]:
  "replay [] s = s"
  "replay (kv # kvs) (m, n) = replay kvs (case snd kv of
       Some e \<Rightarrow> (om_insert (fst kv) (e\<lparr>e_version := n + 1\<rparr>) m, n + 1)
     | None \<Rightarrow> (om_remove (fst kv) m, n + 1))"
  "replay (xs @ ys) s = replay ys (replay xs s)"
  by (simp_all add: replay_def)

lemma fold_scan_apply_replay:
  "(sc_index (fold scan_apply kvs st), sc_seq (fold scan_apply kvs st)) =
     replay kvs (sc_index st, sc_seq st)"
  by (induction kvs arbitrary: st) (auto simp: scan_apply_def Let_def split: option.splits)

lemma scan_loop_prefix:
  assumes "list_all (list_all (reads A crc ks req)) us" and "list_all unit_ok us" and "sc_pending st = []"
    and "n \<le> length (log_bytes (concat us))"
    and "file = pre @ take n (log_bytes (concat us))" and "pos = length pre"
  shows "\<exists>p q rs. scan_loop A crc ks req file pos st =
      Inr (p, (fold scan_apply (placed pos (concat (whole_units n us))) st)
        \<lparr>sc_pending := rs, sc_pending_start := q\<rparr>) \<and>
    (if rs = [] then p else q) = pos + length (log_bytes (concat (whole_units n us)))"
  using assms
proof (induction us arbitrary: n pre pos st)
  case Nil
  then have "scan_loop A crc ks req file pos st = Inr (pos, st\<lparr>sc_pending := [], sc_pending_start := sc_pending_start st\<rparr>)"
    by (simp add: scan_loop_end scan_state_idle)
  then show ?case
    by (intro exI [of _ pos] exI [of _ "sc_pending_start st"] exI [of _ "[]"]) simp
next
  case (Cons u us)
  show ?case
  proof (cases "length (log_bytes u) \<le> n")
    case True
    let ?n = "n - length (log_bytes u)"
    have fl: "file = pre @ log_bytes u @ take ?n (log_bytes (concat us))"
      using True Cons.prems(5) by simp
    obtain q where q: "scan_loop A crc ks req file pos st =
        scan_loop A crc ks req file (pos + length (log_bytes u))
          ((fold scan_apply (placed pos u) st)\<lparr>sc_pending_start := q\<rparr>)"
      using Cons.prems(1,2)
      by (auto intro: scan_loop_unit [OF _ _ Cons.prems(3) fl Cons.prems(6), of A crc ks req])
    let ?st = "(fold scan_apply (placed pos u) st)\<lparr>sc_pending_start := q\<rparr>"
      and ?pos = "pos + length (log_bytes u)" and ?us = "concat (whole_units ?n us)"
    have "\<exists>p q' rs. scan_loop A crc ks req file ?pos ?st =
        Inr (p, (fold scan_apply (placed ?pos ?us) ?st)\<lparr>sc_pending := rs, sc_pending_start := q'\<rparr>) \<and>
        (if rs = [] then p else q') = ?pos + length (log_bytes ?us)"
      using Cons.prems True fl by (intro Cons.IH [of ?st ?n "pre @ log_bytes u" ?pos]) auto
    then show ?thesis
      using True by (simp add: q placed_append fold_scan_apply_pending add.assoc cong: if_cong)
  next
    case False
    then have "file = pre @ take n (log_bytes u)" using Cons.prems(5) by simp
    from scan_loop_torn_unit [OF _ _ Cons.prems(3) _ this Cons.prems(6)] Cons.prems(1,2) False
    show ?thesis by fastforce
  qed
qed

lemma scan_log_prefix:
  assumes "list_all (list_all (reads A crc ks req)) us" and "list_all unit_ok us"
    and "n \<le> length (log_bytes (concat us))" and "length header = start"
  shows "scan_log A crc ks req (header @ take n (log_bytes (concat us))) start index seq =
    Inr \<lparr>so_index = fst (replay (placed start (concat (whole_units n us))) (index, seq)),
         so_seq = snd (replay (placed start (concat (whole_units n us))) (index, seq)),
         so_end = start + length (log_bytes (concat (whole_units n us))),
         so_corrupted = 0\<rparr>"
proof -
  let ?st = "\<lparr>sc_index = index, sc_seq = seq, sc_pending = [], sc_pending_start = 0, sc_corrupted = 0\<rparr>"
  let ?kvs = "placed start (concat (whole_units n us))"
  obtain p q rs where "scan_loop A crc ks req (header @ take n (log_bytes (concat us))) start ?st =
      Inr (p, (fold scan_apply ?kvs ?st)\<lparr>sc_pending := rs, sc_pending_start := q\<rparr>)"
    and "(if rs = [] then p else q) = start + length (log_bytes (concat (whole_units n us)))"
    using scan_loop_prefix [OF assms(1,2) _ assms(3), of ?st _ header start] assms(4) by auto
  moreover from fold_scan_apply_replay [of ?kvs ?st]
  have "sc_index (fold scan_apply ?kvs ?st) = fst (replay ?kvs (index, seq))"
    "sc_seq (fold scan_apply ?kvs ?st) = snd (replay ?kvs (index, seq))"
    by (simp_all add: prod_eq_iff)
  ultimately show ?thesis
    by (auto simp: scan_log_def split: if_splits)
qed

text \<open>
  (C10) Crash recovery is atomic. Take a data file to which the engine appended single records and
  batches, and cut it at any byte after the header, as a crash or a full disk may. Replaying what is
  left gives exactly the writes of the units that lie wholly before the cut: no write of a batch
  without all the others, none lost, none invented; the scan reports the end of the last whole unit,
  where the engine then truncates the file.
\<close>

theorem crash_recovery:
  assumes "list_all (list_all (reads A crc ks req)) us" and "list_all unit_ok us"
    and "n \<le> length (log_bytes (concat us))" and "length header = start"
  shows "scan_log A crc ks req (header @ take n (log_bytes (concat us))) start index seq =
    Inr \<lparr>so_index = fst (replay (placed start (concat (whole_units n us))) (index, seq)),
         so_seq = snd (replay (placed start (concat (whole_units n us))) (index, seq)),
         so_end = start + length (log_bytes (concat (whole_units n us))),
         so_corrupted = 0\<rparr>"
  by (rule scan_log_prefix [OF assms])

subsection \<open>The records the engine writes\<close>

lemma word_of_nat_nonzero:
  assumes "0 < n" and "n < 2 ^ 16"
  shows "(word_of_nat n :: u16) \<noteq> 0"
proof
  assume "(word_of_nat n :: u16) = 0"
  then have "unat (word_of_nat n :: u16) = 0" by simp
  with assms show False by (simp add: unat_of_nat)
qed

lemma str_len_pos: "s \<noteq> [] \<Longrightarrow> 0 < str_len s"
  by (cases s) simp_all

definition written :: "bytes \<Rightarrow> rstring \<Rightarrow> bytes \<Rightarrow> log_rec" where
  "written rec key v = \<lparr>l_bytes = rec, l_key = key,
     l_entry = (let h = parse_header rec in
       if h_flags h AND FLAG_TOMBSTONE \<noteq> 0 then None
       else map_option (\<lambda>t. scan_entry 0 h t v) (type_from_u8 (h_ty h)))\<rparr>"

text \<open>Every record \<^verbatim>\<open>Inner::encode\<close> makes is one that a scan reads back.\<close>

lemma reads_written:
  assumes "crypt_encode_record A crc ks (Inr nonce) key v ty flags ts ex = Inr rec"
    and "aead_ok A" and "length nonce = NONCE_LEN" and "can_open ks ks'"
    and "crypt_fits ks key v ts ex" and "flags AND FLAG_ENCRYPTED = 0"
    and "valid_str key" and "key \<noteq> []" and "flags AND FLAG_TOMBSTONE \<noteq> 0 \<or> type_from_u8 ty \<noteq> None"
    and "ks \<noteq> None \<or> \<not> req"
  shows "reads A crc ks' req (written rec key v)"
proof -
  note facts = crypt_record_facts [OF assms(1-6)]
  have "(word_of_nat (str_len key) :: u16) \<noteq> 0"
    using assms(5,8) by (intro word_of_nat_nonzero) (simp_all add: str_len_pos crypt_fits_def)
  then have "is_frame rec"
    using facts(1,2) assms(5) by (simp add: is_frame_def total_len_crypt_header len_defs)
  moreover have "scan_opened A crc ks' req rec = Inr (Some (as_bytes key, v))"
  proof (cases ks)
    case None
    with assms(6,10) facts show ?thesis
      by (simp add: scan_opened_def stored_flags_encrypted open_record_def len_defs Let_def add.commute)
  next
    case (Some k)
    with facts show ?thesis by (simp add: scan_opened_def stored_flags_encrypted Let_def)
  qed
  moreover have "stored_flags ks flags AND FLAG_TOMBSTONE = flags AND FLAG_TOMBSTONE"
    by (rule stored_flags_and) (simp add: flag_defs)
  ultimately show ?thesis
    using assms(7,9) facts(1)
    by (auto simp: reads_def written_def scan_record_def at_offset_def Let_def scan_entry_def)
qed

subsection \<open>Zeros after the log, and a damaged batch\<close>

lemma scan_loop_units:
  assumes "list_all (list_all (reads A crc ks req)) us" and "list_all unit_ok us" and "sc_pending st = []"
    and "file = pre @ log_bytes (concat us) @ rest" and "pos = length pre"
  shows "\<exists>q. scan_loop A crc ks req file pos st =
    scan_loop A crc ks req file (pos + length (log_bytes (concat us)))
      ((fold scan_apply (placed pos (concat us)) st)\<lparr>sc_pending_start := q\<rparr>)"
  using assms
proof (induction us arbitrary: pre pos st)
  case Nil
  then show ?case by (auto simp: scan_state_idle intro: exI [of _ "sc_pending_start st"])
next
  case (Cons u us)
  have fl: "file = pre @ log_bytes u @ (log_bytes (concat us) @ rest)" using Cons.prems(4) by simp
  obtain q where q: "scan_loop A crc ks req file pos st =
      scan_loop A crc ks req file (pos + length (log_bytes u))
        ((fold scan_apply (placed pos u) st)\<lparr>sc_pending_start := q\<rparr>)"
    using Cons.prems(1,2)
    by (auto intro: scan_loop_unit [OF _ _ Cons.prems(3) fl Cons.prems(5), of A crc ks req])
  have "\<exists>q'. scan_loop A crc ks req file (pos + length (log_bytes u))
        ((fold scan_apply (placed pos u) st)\<lparr>sc_pending_start := q\<rparr>) =
      scan_loop A crc ks req file (pos + length (log_bytes u) + length (log_bytes (concat us)))
        ((fold scan_apply (placed (pos + length (log_bytes u)) (concat us))
          ((fold scan_apply (placed pos u) st)\<lparr>sc_pending_start := q\<rparr>))\<lparr>sc_pending_start := q'\<rparr>)"
    using Cons.prems fl by (intro Cons.IH [of _ "pre @ log_bytes u"]) auto
  then show ?case
    by (simp add: q placed_append fold_scan_apply_pending add.assoc)
qed

lemma scan_loop_zeros:
  assumes "file = pre @ replicate m 0" and "pos = length pre"
  shows "scan_loop A crc ks req file pos st = Inr (pos, st)"
proof (cases "m < REC_HEADER_LEN")
  case True
  then show ?thesis by (subst scan_loop.simps) (simp add: assms)
next
  case False
  have "le_word (replicate n 0) = (0 :: u16)" for n by (induction n) simp_all
  then have "h_k_size (parse_header (take REC_HEADER_LEN (drop pos file))) = 0"
    using False by (simp add: assms parse_header_def min_def len_defs)
  moreover have "length file = pos + m" by (simp add: assms)
  ultimately show ?thesis using False by (subst scan_loop.simps) (simp add: Let_def)
qed

text \<open>
  A tail of zeros, which some file systems leave after a power cut, is not taken for records:
  every unit before it is replayed and the scan ends where they end.
\<close>

theorem zero_tail_ignored:
  assumes "list_all (list_all (reads A crc ks req)) us" and "list_all unit_ok us"
    and "length header = start"
  shows "scan_log A crc ks req (header @ log_bytes (concat us) @ replicate m 0) start index seq =
    Inr \<lparr>so_index = fst (replay (placed start (concat us)) (index, seq)),
         so_seq = snd (replay (placed start (concat us)) (index, seq)),
         so_end = start + length (log_bytes (concat us)), so_corrupted = 0\<rparr>"
proof -
  let ?file = "header @ log_bytes (concat us) @ replicate m 0"
  let ?st = "\<lparr>sc_index = index, sc_seq = seq, sc_pending = [], sc_pending_start = 0, sc_corrupted = 0\<rparr>"
  let ?kvs = "placed start (concat us)" and ?fin = "start + length (log_bytes (concat us))"
  obtain q where "scan_loop A crc ks req ?file start ?st =
      scan_loop A crc ks req ?file ?fin ((fold scan_apply ?kvs ?st)\<lparr>sc_pending_start := q\<rparr>)"
    using scan_loop_units [OF assms(1,2), of ?st ?file header "replicate m 0" start] assms(3) by auto
  also have "\<dots> = Inr (?fin, (fold scan_apply ?kvs ?st)\<lparr>sc_pending_start := q\<rparr>)"
    using assms(3) by (intro scan_loop_zeros [of _ "header @ log_bytes (concat us)" m]) simp_all
  finally show ?thesis
    using fold_scan_apply_replay [of ?kvs ?st] by (simp add: scan_log_def prod_eq_iff)
qed

text \<open>
  (C17) A batch with a damaged record in the middle is replayed in part. Its first record \<open>r\<close> waits,
  the damaged record \<open>b\<close> (whole, but failing its checks) empties the waiting list, and the committing
  record \<open>c\<close> then commits itself alone: of three records written together, the last one is applied
  and the first is not. The comment on \<^verbatim>\<open>apply_batch\<close> promises all or none.
\<close>

theorem damaged_batch_applied_in_part:
  assumes "reads A crc ks req r" "l_txn r" "\<not> l_commit r"
    and "is_frame b" "\<And>pos. scan_record A crc ks req pos b = Inr None"
    and "reads A crc ks req c" "l_txn c" "l_commit c"
    and "length header = start"
  shows "scan_log A crc ks req (header @ l_bytes r @ b @ l_bytes c) start index seq =
    Inr \<lparr>so_index = fst (replay (placed (start + length (l_bytes r @ b)) [c]) (index, seq)),
         so_seq = seq + 1, so_end = start + length (l_bytes r @ b @ l_bytes c), so_corrupted = 1\<rparr>"
proof -
  let ?file = "header @ l_bytes r @ b @ l_bytes c"
  let ?st = "\<lparr>sc_index = index, sc_seq = seq, sc_pending = [], sc_pending_start = 0, sc_corrupted = 0\<rparr>"
  let ?kr = "(l_key r, at_offset start (l_entry r))"
  let ?pc = "start + length (l_bytes r @ b)"
  let ?kc = "(l_key c, at_offset ?pc (l_entry c))"
  have "l_bytes c \<noteq> []" using assms(6) is_frameD(4) [of "l_bytes c"] by (auto simp: reads_def)
  have "scan_loop A crc ks req ?file start ?st = scan_loop A crc ks req ?file (start + length (l_bytes r))
      (?st\<lparr>sc_pending := [?kr], sc_pending_start := start\<rparr>)"
    using assms(1-3,9) by (subst scan_loop_reads [of _ _ _ _ r _ header "b @ l_bytes c"])
      (simp_all add: scan_take_def l_txn_def l_commit_def)
  also have "\<dots> = scan_loop A crc ks req ?file ?pc (?st\<lparr>sc_pending_start := start, sc_corrupted := 1\<rparr>)"
    using assms(4,5,9) \<open>l_bytes c \<noteq> []\<close>
    by (subst scan_loop_frame [of b _ "header @ l_bytes r" "l_bytes c"]) (simp_all add: add.assoc)
  also have "\<dots> = Inr (?pc + length (l_bytes c),
      (scan_apply ?kc (?st\<lparr>sc_pending_start := ?pc, sc_corrupted := 1\<rparr>))\<lparr>sc_pending := []\<rparr>)"
    using assms(6-9) by (subst scan_loop_reads [of _ _ _ _ c _ "header @ l_bytes r @ b" "[]"])
      (simp_all add: scan_take_def l_txn_def l_commit_def scan_loop_end scan_apply_def Let_def split: option.splits)
  finally show ?thesis
    by (simp add: scan_log_def scan_apply_def Let_def add.assoc split: option.splits)
qed

subsection \<open>Concrete logs\<close>

text \<open>A small log in clear, with a checksum that is always 0: the hypotheses above can hold.\<close>

definition demo_rec :: "string \<Rightarrow> u8 \<Rightarrow> log_rec" where
  "demo_rec k flags = written (encode_record (\<lambda>_. 0) (lit k) [7] 1 flags 5 0) (lit k) [7]"

lemma demo_header: "parse_header (l_bytes (demo_rec k flags)) = header_of (\<lambda>_. 0) (lit k) [7] 1 flags 5 0"
  using parse_header_encode [of 5 0 "\<lambda>_. 0" "lit k" "[7]" 1 flags "[]"]
  by (simp add: demo_rec_def written_def is_i64_def)

lemma demo_reads:
  assumes "flags \<in> {0, FLAG_TXN, FLAG_TXN OR FLAG_TXN_COMMIT}" and "k \<in> {''a'', ''b'', ''c''}"
  shows "reads plain_aead (\<lambda>_. 0) None False (demo_rec k flags)"
proof -
  have "valid_str (lit k)" "str_len (lit k) = 1" "lit k \<noteq> []"
    using assms(2) by (auto simp: valid_char_def len_utf8_def)
  moreover have "flags AND FLAG_ENCRYPTED = 0" using assms(1) by (auto simp: flag_defs)
  ultimately show ?thesis
    unfolding demo_rec_def
    by (intro reads_written [where ks = None and nonce = "replicate 12 0" and ty = 1 and ts = 5 and ex = 0 and flags = flags])
      (simp_all add: crypt_encode_record_def plain_aead_ok crypt_lens can_open_def crypt_fits_def
        overhead_def is_i64_def type_from_u8_def)
qed

lemma demo_flags:
  "l_txn (demo_rec k flags) \<longleftrightarrow> flags AND FLAG_TXN \<noteq> 0"
  "l_commit (demo_rec k flags) \<longleftrightarrow> flags AND FLAG_TXN_COMMIT \<noteq> 0"
  by (simp_all add: l_txn_def l_commit_def demo_header)

lemma demo_length: "length (l_bytes (demo_rec k flags)) = 29 + str_len (lit k)"
  by (simp add: demo_rec_def written_def)

definition demo_units :: "log_rec list list" where
  "demo_units = [[demo_rec ''a'' 0],
     [demo_rec ''b'' FLAG_TXN, demo_rec ''c'' (FLAG_TXN OR FLAG_TXN_COMMIT)]]"

lemma demo_units_ok:
  "list_all (list_all (reads plain_aead (\<lambda>_. 0) None False)) demo_units" "list_all unit_ok demo_units"
  by (simp_all add: demo_units_def demo_reads unit_ok_def demo_flags) (simp_all add: flag_defs)

text \<open>Cut inside the last record of the batch: only the record before the batch is replayed.\<close>

theorem crash_recovery_witness:
  "map_sum id (\<lambda>out. (map fst (so_index out), so_end out)) (scan_log plain_aead (\<lambda>_. 0) None False
     (replicate 16 0 @ take 85 (log_bytes (concat demo_units))) 16 [] 0) = Inr ([lit ''a''], 46)"
proof -
  have "(85 :: nat) \<le> length (log_bytes (concat demo_units))"
    by (simp add: demo_units_def demo_length len_utf8_def)
  moreover have "whole_units 85 demo_units = [[demo_rec ''a'' 0]]"
    by (simp add: demo_units_def demo_length len_utf8_def)
  moreover have "l_entry (demo_rec ''a'' 0) \<noteq> None" "l_key (demo_rec ''a'' 0) = lit ''a''"
    using demo_header [of "''a''" 0] by (simp_all add: demo_rec_def written_def Let_def type_from_u8_def)
  ultimately show ?thesis
    using crash_recovery [OF demo_units_ok, of 85 "replicate 16 0" 16 "[]" 0]
    by (auto simp: at_offset_def demo_length len_utf8_def)
qed

theorem zero_tail_ignored_witness:
  "map_sum id so_end (scan_log plain_aead (\<lambda>_. 0) None False
     (replicate 16 0 @ log_bytes (concat demo_units) @ replicate 100 0) 16 [] 0) = Inr 106"
  using zero_tail_ignored [OF demo_units_ok, of "replicate 16 0" 16 100 "[]" 0]
  by (simp add: demo_units_def demo_length len_utf8_def)

text \<open>The record in the middle carries a wrong checksum.\<close>

definition demo_damaged :: bytes where
  "demo_damaged = encode_record (\<lambda>_. 1) (lit ''b'') [7] 1 FLAG_TXN 5 0"

theorem damaged_batch_applied_in_part_witness:
  "map_sum id (\<lambda>out. (map fst (so_index out), so_corrupted out)) (scan_log plain_aead (\<lambda>_. 0) None False
     (replicate 16 0 @ l_bytes (demo_rec ''a'' FLAG_TXN) @ demo_damaged @
      l_bytes (demo_rec ''c'' (FLAG_TXN OR FLAG_TXN_COMMIT))) 16 [] 0) = Inr ([lit ''c''], 1)"
proof -
  let ?c = "demo_rec ''c'' (FLAG_TXN OR FLAG_TXN_COMMIT)"
  have h: "parse_header demo_damaged = header_of (\<lambda>_. 1) (lit ''b'') [7] 1 FLAG_TXN 5 0"
    using parse_header_encode [of 5 0 "\<lambda>_. 1" "lit ''b''" "[7]" 1 FLAG_TXN "[]"]
    by (simp add: demo_damaged_def is_i64_def)
  have f: "is_frame demo_damaged"
    unfolding is_frame_def h by (simp add: demo_damaged_def total_len_header_of len_utf8_def len_defs)
  have b: "scan_record plain_aead (\<lambda>_. 0) None False pos demo_damaged = Inr None" for pos
    by (simp add: scan_record_def scan_opened_def h Let_def)
  have t: "l_txn (demo_rec ''a'' FLAG_TXN)" "\<not> l_commit (demo_rec ''a'' FLAG_TXN)" "l_txn ?c" "l_commit ?c"
    by (simp_all add: demo_flags flag_defs)
  have "l_entry ?c \<noteq> None" "l_key ?c = lit ''c''"
    using demo_header [of "''c''" "FLAG_TXN OR FLAG_TXN_COMMIT"]
    by (simp_all add: demo_rec_def written_def Let_def type_from_u8_def flag_defs)
  then show ?thesis
    using damaged_batch_applied_in_part [OF demo_reads t(1,2) f b demo_reads t(3,4), of "replicate 16 0" 16 "[]" 0]
    by (auto simp: at_offset_def)
qed

end
