(* ===== verification/Cache.thy ===== *)
theory Cache
  imports Util
begin

text \<open>
  \<^verbatim>\<open>src/cache.rs\<close>: the in-memory cache of decoded values. A cached value is a copy of what a record
  of the data file held, kept with the version of that record; \<open>'v\<close> is \<^verbatim>\<open>Value\<close>, which the cache
  only clones. The \<^verbatim>\<open>usize\<close> counters are naturals: the invariant \<open>cache_ok\<close> shows that no
  subtraction of the source goes below 0. The methods that return a value and change the cache
  return the pair of both.
\<close>

record 'v slot =
  s_value :: 'v
  s_version :: nat
  s_size :: nat
  s_used :: nat
  s_pinned :: bool

record 'v value_cache =
  c_map :: "(rstring, 'v slot) omap"
  c_bytes :: nat
  c_pinned_bytes :: nat
  c_pinned_count :: nat
  c_patterns :: "rstring list"
  c_limit :: nat
  c_clock :: nat
  c_hits :: nat
  c_misses :: nat

definition cost :: "rstring \<Rightarrow> nat \<Rightarrow> nat" where
  "cost key raw_size = raw_size + str_len key + 96"

definition cache_new :: "nat \<Rightarrow> 'v value_cache" where
  "cache_new limit = \<lparr>c_map = [], c_bytes = 0, c_pinned_bytes = 0, c_pinned_count = 0, c_patterns = [],
     c_limit = limit, c_clock = 0, c_hits = 0, c_misses = 0\<rparr>"

definition enabled :: "'v value_cache \<Rightarrow> bool" where
  "enabled c \<longleftrightarrow> c_limit c > 0"

definition cache_len :: "'v value_cache \<Rightarrow> nat" where
  "cache_len c = length (c_map c) - c_pinned_count c"

definition is_pinned :: "'v value_cache \<Rightarrow> rstring \<Rightarrow> bool" where
  "is_pinned c key \<longleftrightarrow> list_ex (\<lambda>p. glob_match p key) (c_patterns c)"

definition pin :: "rstring \<Rightarrow> 'v value_cache \<Rightarrow> bool \<times> 'v value_cache" where
  "pin pattern c =
     (if list_ex (\<lambda>p. p = pattern) (c_patterns c) then (False, c)
      else (True, c\<lparr>c_patterns := c_patterns c @ [pattern]\<rparr>))"

definition cache_remove :: "rstring \<Rightarrow> 'v value_cache \<Rightarrow> 'v value_cache" where
  "cache_remove key c =
     (case om_get (c_map c) key of
        None \<Rightarrow> c
      | Some s \<Rightarrow>
          (let c = c\<lparr>c_map := om_remove key (c_map c)\<rparr> in
           if s_pinned s then c\<lparr>c_pinned_bytes := c_pinned_bytes c - s_size s,
             c_pinned_count := c_pinned_count c - 1\<rparr>
           else c\<lparr>c_bytes := c_bytes c - s_size s\<rparr>))"

definition unpin :: "rstring \<Rightarrow> 'v value_cache \<Rightarrow> bool \<times> 'v value_cache" where
  "unpin pattern c =
     (let before = length (c_patterns c);
          c = c\<lparr>c_patterns := filter (\<lambda>p. p \<noteq> pattern) (c_patterns c)\<rparr>
      in if length (c_patterns c) = before then (False, c)
         else (let released = map fst (filter (\<lambda>(k, s). s_pinned s \<and> \<not> is_pinned c k) (c_map c))
               in (True, fold cache_remove released c)))"

definition drop_evictable :: "'v value_cache \<Rightarrow> 'v value_cache" where
  "drop_evictable c = c\<lparr>c_map := filter (\<lambda>(_, s). s_pinned s) (c_map c), c_bytes := 0\<rparr>"

text \<open>The loop of \<^verbatim>\<open>evict\<close> over the ages, and \<^verbatim>\<open>evict\<close>: pairs sort by age first, then by key.\<close>

fun evict_loop :: "nat \<Rightarrow> (nat \<times> rstring) list \<Rightarrow> 'v value_cache \<Rightarrow> 'v value_cache" where
  "evict_loop target [] c = c"
| "evict_loop target (a # by_age) c =
     (if c_bytes c \<le> target then c else evict_loop target by_age (cache_remove (snd a) c))"

definition by_age :: "'v value_cache \<Rightarrow> (nat \<times> rstring) list" where
  "by_age c = sort (map (\<lambda>(k, s). (s_used s, k)) (filter (\<lambda>(_, s). \<not> s_pinned s) (c_map c)))"

definition evict :: "'v value_cache \<Rightarrow> 'v value_cache" where
  "evict c = (if c_bytes c \<le> c_limit c then c else evict_loop (c_limit c div 4 * 3) (by_age c) c)"

definition set_limit :: "nat \<Rightarrow> 'v value_cache \<Rightarrow> 'v value_cache" where
  "set_limit limit c =
     (let c = c\<lparr>c_limit := limit\<rparr> in if limit = 0 then drop_evictable c else evict c)"

definition cache_get :: "rstring \<Rightarrow> nat \<Rightarrow> 'v value_cache \<Rightarrow> 'v option \<times> 'v value_cache" where
  "cache_get key version c =
     (if \<not> enabled c \<and> c_pinned_count c = 0 then (None, c)
      else
        (let c = c\<lparr>c_clock := c_clock c + 1\<rparr> in
         case om_get (c_map c) key of
           Some s \<Rightarrow>
             if s_version s = version then
               (Some (s_value s),
                c\<lparr>c_map := om_insert key (s\<lparr>s_used := c_clock c\<rparr>) (c_map c), c_hits := c_hits c + 1\<rparr>)
             else (let c = cache_remove key c in (None, c\<lparr>c_misses := c_misses c + 1\<rparr>))
         | None \<Rightarrow> (None, c\<lparr>c_misses := c_misses c + 1\<rparr>)))"

definition cache_put :: "rstring \<Rightarrow> nat \<Rightarrow> 'v \<Rightarrow> nat \<Rightarrow> 'v value_cache \<Rightarrow> 'v value_cache" where
  "cache_put key version v raw_size c =
     (let size = cost key raw_size; pinned = is_pinned c key in
      if \<not> pinned \<and> (\<not> enabled c \<or> size > c_limit c div 8) then c
      else
        (let c = c\<lparr>c_clock := c_clock c + 1\<rparr>;
             c = cache_remove key c;
             c = c\<lparr>c_map := om_insert key
               \<lparr>s_value = v, s_version = version, s_size = size, s_used = c_clock c, s_pinned = pinned\<rparr>
               (c_map c)\<rparr>
         in if pinned then c\<lparr>c_pinned_bytes := c_pinned_bytes c + size,
              c_pinned_count := c_pinned_count c + 1\<rparr>
            else evict (c\<lparr>c_bytes := c_bytes c + size\<rparr>)))"

definition cache_clear :: "'v value_cache \<Rightarrow> 'v value_cache" where
  "cache_clear c = c\<lparr>c_map := [], c_bytes := 0, c_pinned_bytes := 0, c_pinned_count := 0\<rparr>"

subsection \<open>Histories\<close>

datatype 'v cache_op =
    Pin rstring | Unpin rstring | SetLimit nat | Get rstring nat | Put rstring nat 'v nat
  | Remove rstring | Clear | DropEvictable

fun cache_step :: "'v cache_op \<Rightarrow> 'v value_cache \<Rightarrow> 'v value_cache" where
  "cache_step (Pin p) c = snd (pin p c)"
| "cache_step (Unpin p) c = snd (unpin p c)"
| "cache_step (SetLimit n) c = set_limit n c"
| "cache_step (Get k v) c = snd (cache_get k v c)"
| "cache_step (Put k v x n) c = cache_put k v x n c"
| "cache_step (Remove k) c = cache_remove k c"
| "cache_step Clear c = cache_clear c"
| "cache_step DropEvictable c = drop_evictable c"

definition cache_run :: "'v cache_op list \<Rightarrow> 'v value_cache \<Rightarrow> 'v value_cache" where
  "cache_run ops c = fold cache_step ops c"

text \<open>What was put under each key since the key was last removed: what the cache may hold at most.\<close>

fun put_step :: "'v cache_op \<Rightarrow> (rstring \<Rightarrow> (nat \<times> 'v) list) \<Rightarrow> rstring \<Rightarrow> (nat \<times> 'v) list" where
  "put_step (Put k v x n) h = h(k := (v, x) # h k)"
| "put_step (Remove k) h = h(k := [])"
| "put_step Clear h = (\<lambda>_. [])"
| "put_step _ h = h"

definition puts :: "'v cache_op list \<Rightarrow> rstring \<Rightarrow> (nat \<times> 'v) list" where
  "puts ops = fold put_step ops (\<lambda>_. [])"

subsection \<open>The invariant\<close>

definition counts_ok :: "'v value_cache \<Rightarrow> bool" where
  "counts_ok c \<longleftrightarrow> om_ok (c_map c) \<and>
     c_bytes c = om_sum (\<lambda>_ s. if s_pinned s then 0 else s_size s) (c_map c) \<and>
     c_pinned_bytes c = om_sum (\<lambda>_ s. if s_pinned s then s_size s else 0) (c_map c) \<and>
     c_pinned_count c = om_sum (\<lambda>_ s. if s_pinned s then 1 else 0) (c_map c)"

definition slots_ok :: "'v value_cache \<Rightarrow> bool" where
  "slots_ok c \<longleftrightarrow> (\<forall>(k, s) \<in> set (c_map c). s_used s \<le> c_clock c \<and> (s_pinned s \<longrightarrow> is_pinned c k))"

definition cache_ok :: "'v value_cache \<Rightarrow> bool" where
  "cache_ok c \<longleftrightarrow> counts_ok c \<and> slots_ok c \<and> c_bytes c \<le> c_limit c"

lemma counts_okI [intro?]:
  assumes "om_ok (c_map c)"
    and "c_bytes c = om_sum (\<lambda>_ s. if s_pinned s then 0 else s_size s) (c_map c)"
    and "c_pinned_bytes c = om_sum (\<lambda>_ s. if s_pinned s then s_size s else 0) (c_map c)"
    and "c_pinned_count c = om_sum (\<lambda>_ s. if s_pinned s then 1 else 0) (c_map c)"
  shows "counts_ok c"
  using assms by (simp add: counts_ok_def)

lemma cache_remove_frame [simp]:
  "c_limit (cache_remove k c) = c_limit c" "c_clock (cache_remove k c) = c_clock c"
  "c_patterns (cache_remove k c) = c_patterns c" "c_hits (cache_remove k c) = c_hits c"
  "c_misses (cache_remove k c) = c_misses c"
  "c_map (cache_remove k c) = (case om_get (c_map c) k of None \<Rightarrow> c_map c | Some _ \<Rightarrow> om_remove k (c_map c))"
  by (auto simp: cache_remove_def Let_def split: option.splits)

lemma om_remove_absent: "om_get m k = None \<Longrightarrow> om_remove k m = m"
  by (induction m) (auto split: if_splits)

lemma c_map_remove: "c_map (cache_remove k c) = om_remove k (c_map c)"
  by (simp add: om_remove_absent split: option.splits)

lemma om_sum_remove_Some:
  "om_ok m \<Longrightarrow> om_get m k = Some v \<Longrightarrow> om_sum f m = f k v + om_sum f (om_remove k m)"
  using om_sum_remove [of m f k] by simp

text \<open>Removing a key keeps the counters exact: what is subtracted was counted before.\<close>

lemma counts_ok_remove [simp]: "counts_ok c \<Longrightarrow> counts_ok (cache_remove k c)"
proof (cases "om_get (c_map c) k")
  case (Some s)
  assume "counts_ok c"
  then show ?thesis
    using Some om_sum_remove_Some [of "c_map c" k s]
    by (auto simp: counts_ok_def cache_remove_def Let_def)
qed (simp add: cache_remove_def)

lemma counts_ok_fold_remove: "counts_ok c \<Longrightarrow> counts_ok (fold cache_remove ks c)"
  by (induction ks arbitrary: c) simp_all

lemma fold_remove_frame [simp]:
  "c_limit (fold cache_remove ks c) = c_limit c" "c_clock (fold cache_remove ks c) = c_clock c"
  "c_patterns (fold cache_remove ks c) = c_patterns c"
  by (induction ks arbitrary: c) simp_all

lemma get_fold_remove:
  "om_ok (c_map c) \<Longrightarrow>
    om_get (c_map (fold cache_remove ks c)) k = (if k \<in> set ks then None else om_get (c_map c) k)"
proof (induction ks arbitrary: c)
  case (Cons a ks)
  then have "om_ok (c_map (cache_remove a c))" by (simp add: c_map_remove del: cache_remove_frame(6))
  with Cons show ?case by (simp add: c_map_remove del: cache_remove_frame(6))
qed simp

lemma om_ok_counts: "counts_ok c \<Longrightarrow> om_ok (c_map c)"
  by (simp add: counts_ok_def)

lemma set_fold_remove:
  "counts_ok c \<Longrightarrow> set (c_map (fold cache_remove ks c)) = {b \<in> set (c_map c). fst b \<notin> set ks}"
proof -
  assume c: "counts_ok c"
  have "(k, v) \<in> set (c_map (fold cache_remove ks c)) \<longleftrightarrow> (k, v) \<in> set (c_map c) \<and> k \<notin> set ks" for k v
    using c counts_ok_fold_remove [OF c, of ks]
    by (simp add: om_get_Some_iff [symmetric] om_ok_counts get_fold_remove)
  then show ?thesis by auto
qed

lemma slots_ok_fold_remove: "cache_ok c \<Longrightarrow> slots_ok (fold cache_remove ks c)"
  by (auto simp: cache_ok_def slots_ok_def set_fold_remove is_pinned_def)

subsection \<open>Eviction\<close>

text \<open>\<^verbatim>\<open>evict\<close> removes a run of the oldest keys, no longer than it takes to reach its target.\<close>

lemma evict_loop_removes:
  "\<exists>n \<le> length ages. evict_loop target ages c = fold cache_remove (map snd (take n ages)) c \<and>
     (n = length ages \<or> c_bytes (evict_loop target ages c) \<le> target) \<and>
     (\<forall>m < n. target < c_bytes (fold cache_remove (map snd (take m ages)) c))"
proof (induction target ages c rule: evict_loop.induct)
  case (2 target a ages c)
  show ?case
  proof (cases "c_bytes c \<le> target")
    case True
    then show ?thesis by (intro exI [of _ 0]) simp
  next
    case False
    from 2 [OF False] obtain n where n: "n \<le> length ages"
      "evict_loop target ages (cache_remove (snd a) c) =
        fold cache_remove (map snd (take n ages)) (cache_remove (snd a) c)"
      "n = length ages \<or> c_bytes (evict_loop target ages (cache_remove (snd a) c)) \<le> target"
      "\<forall>m < n. target < c_bytes (fold cache_remove (map snd (take m ages)) (cache_remove (snd a) c))"
      by blast
    have "target < c_bytes (fold cache_remove (map snd (take m (a # ages))) c)" if "m < Suc n" for m
      using that n(4) False by (cases m) auto
    with n False show ?thesis by (intro exI [of _ "Suc n"]) simp
  qed
qed simp

lemma set_by_age: "set (by_age c) = {(s_used s, k) | k s. (k, s) \<in> set (c_map c) \<and> \<not> s_pinned s}"
  by (force simp: by_age_def)

lemma om_sum_zero: "(\<And>k v. (k, v) \<in> set m \<Longrightarrow> f k v = 0) \<Longrightarrow> om_sum f m = 0"
  by (auto simp: om_sum_def)

lemma evict_all_bytes:
  assumes "counts_ok c"
  shows "c_bytes (fold cache_remove (map snd (by_age c)) c) = 0"
proof -
  have "om_sum (\<lambda>_ s. if s_pinned s then 0 else s_size s)
      (c_map (fold cache_remove (map snd (by_age c)) c)) = 0"
    by (intro om_sum_zero) (force simp: set_fold_remove [OF assms] set_by_age)
  with counts_ok_fold_remove [OF assms] show ?thesis by (simp add: counts_ok_def)
qed

lemma evict_frame [simp]:
  "c_limit (evict c) = c_limit c" "c_clock (evict c) = c_clock c" "c_patterns (evict c) = c_patterns c"
  using evict_loop_removes [of "by_age c" "c_limit c div 4 * 3" c] by (auto simp: evict_def)

lemma evict_removes: "\<exists>ks. evict c = fold cache_remove ks c \<and> (c_bytes c \<le> c_limit c \<longrightarrow> ks = []) \<and>
    (\<forall>k \<in> set ks. \<exists>s. (k, s) \<in> set (c_map c) \<and> \<not> s_pinned s)"
proof (cases "c_bytes c \<le> c_limit c")
  case True
  then show ?thesis by (intro exI [of _ "[]"]) (simp add: evict_def)
next
  case False
  obtain n where "evict c = fold cache_remove (map snd (take n (by_age c))) c"
    using evict_loop_removes [of "by_age c" "c_limit c div 4 * 3" c] False by (auto simp: evict_def)
  moreover have "\<forall>k \<in> set (map snd (take n (by_age c))). \<exists>s. (k, s) \<in> set (c_map c) \<and> \<not> s_pinned s"
    using set_take_subset [of n "by_age c"] set_by_age [of c] by fastforce
  ultimately show ?thesis using False by blast
qed

lemma evict_bytes: "counts_ok c \<Longrightarrow> c_bytes (evict c) \<le> c_limit c"
proof (cases "c_bytes c \<le> c_limit c")
  case False
  assume "counts_ok c"
  with False evict_loop_removes [of "by_age c" "c_limit c div 4 * 3" c] show ?thesis
    by (auto simp: evict_def evict_all_bytes)
qed (simp add: evict_def)

lemma counts_ok_evict: "counts_ok c \<Longrightarrow> counts_ok (evict c)"
  using evict_removes [of c] counts_ok_fold_remove [of c] by auto

lemma slots_ok_fold: "counts_ok c \<Longrightarrow> slots_ok c \<Longrightarrow> slots_ok (fold cache_remove ks c)"
  by (auto simp: slots_ok_def set_fold_remove is_pinned_def)

lemma slots_ok_evict: "counts_ok c \<Longrightarrow> slots_ok c \<Longrightarrow> slots_ok (evict c)"
  using evict_removes [of c] slots_ok_fold [of c] by auto

subsection \<open>Every operation keeps the invariant\<close>

lemma set_om_insert: "om_ok m \<Longrightarrow> set (om_insert k v m) = insert (k, v) {b \<in> set m. fst b \<noteq> k}"
  using om_get_Some_iff [of "om_insert k v m"] om_get_Some_iff [of m]
  by (auto simp: om_get_Some_iff [symmetric] split: if_splits)

lemma set_om_insert_sub: "set (om_insert k v m) \<subseteq> insert (k, v) (set m)"
  by (induction m) auto

lemma om_sum_insert_new:
  "om_ok m \<Longrightarrow> om_get m k = None \<Longrightarrow> om_sum f (om_insert k v m) = f k v + om_sum f m"
  using om_sum_insert [of m f k v] by simp

lemma om_sum_insert_same:
  "om_ok m \<Longrightarrow> om_get m k = Some w \<Longrightarrow> f k v = f k w \<Longrightarrow> om_sum f (om_insert k v m) = om_sum f m"
  using om_sum_insert [of m f k v] by simp

lemma cache_ok_new: "cache_ok (cache_new n)"
  by (simp add: cache_ok_def cache_new_def counts_ok_def slots_ok_def)

lemma cache_ok_pin: "cache_ok c \<Longrightarrow> cache_ok (snd (pin p c))"
  by (auto simp: cache_ok_def pin_def counts_ok_def slots_ok_def is_pinned_def)

lemma c_bytes_fold_remove: "c_bytes (fold cache_remove ks c) \<le> c_bytes c"
proof (induction ks arbitrary: c)
  case (Cons k ks)
  have "c_bytes (cache_remove k c) \<le> c_bytes c"
    by (simp add: cache_remove_def Let_def split: option.splits)
  with Cons [of "cache_remove k c"] show ?case by simp
qed simp

lemma cache_ok_fold_remove: "cache_ok c \<Longrightarrow> cache_ok (fold cache_remove ks c)"
  using c_bytes_fold_remove [of ks c]
  by (auto simp: cache_ok_def counts_ok_fold_remove slots_ok_fold)

lemma cache_ok_unpin: "cache_ok c \<Longrightarrow> cache_ok (snd (unpin p c))"
proof (cases "p \<in> set (c_patterns c)")
  case False
  then have "filter (\<lambda>q. q \<noteq> p) (c_patterns c) = c_patterns c" by (auto intro: filter_True)
  then have "snd (unpin p c) = c" by (simp add: unpin_def Let_def)
  then show "cache_ok c \<Longrightarrow> ?thesis" by simp
next
  case True
  let ?c = "c\<lparr>c_patterns := filter (\<lambda>q. q \<noteq> p) (c_patterns c)\<rparr>"
  let ?ks = "map fst (filter (\<lambda>(k, s). s_pinned s \<and> \<not> is_pinned ?c k) (c_map ?c))"
  assume c: "cache_ok c"
  have u: "snd (unpin p c) = fold cache_remove ?ks ?c"
    using length_filter_less [OF True, of "\<lambda>q. q \<noteq> p"] by (simp add: unpin_def Let_def)
  have k: "counts_ok ?c" using c by (simp add: cache_ok_def counts_ok_def)
  have "slots_ok (fold cache_remove ?ks ?c)"
    using c by (force simp: slots_ok_def set_fold_remove [OF k] cache_ok_def is_pinned_def)
  with k c c_bytes_fold_remove [of ?ks ?c] show ?thesis
    by (auto simp: u cache_ok_def counts_ok_fold_remove)
qed

lemma cache_ok_drop: "counts_ok c \<Longrightarrow> slots_ok c \<Longrightarrow> cache_ok (drop_evictable c)"
proof -
  assume c: "counts_ok c" "slots_ok c"
  have s: "om_sum f (filter (\<lambda>(_, s). s_pinned s) m) = om_sum (\<lambda>k s. if s_pinned s then f k s else 0) m"
    for f and m :: "(rstring, 'a slot) omap"
    by (induction m) auto
  have "om_sum (\<lambda>_ s. if s_pinned s then 0 else s_size s) (filter (\<lambda>(_, s). s_pinned s) (c_map c)) = 0"
    by (intro om_sum_zero) auto
  with c show ?thesis
    by (auto simp: cache_ok_def drop_evictable_def counts_ok_def slots_ok_def is_pinned_def s if_distrib cong: if_cong)
qed

lemma cache_ok_set_limit: "cache_ok c \<Longrightarrow> cache_ok (set_limit n c)"
proof -
  assume "cache_ok c"
  then have c: "counts_ok (c\<lparr>c_limit := n\<rparr>)" "slots_ok (c\<lparr>c_limit := n\<rparr>)"
    by (auto simp: cache_ok_def counts_ok_def slots_ok_def is_pinned_def)
  with cache_ok_drop [OF c] evict_bytes [OF c(1)] show ?thesis
    by (auto simp: set_limit_def Let_def cache_ok_def counts_ok_evict slots_ok_evict)
qed

lemma cache_ok_get: "cache_ok c \<Longrightarrow> cache_ok (snd (cache_get k v c))"
proof -
  assume c: "cache_ok c"
  have tick: "cache_ok (c\<lparr>c_clock := c_clock c + 1\<rparr>)"
    using c by (fastforce simp: cache_ok_def counts_ok_def slots_ok_def is_pinned_def)
  have miss: "cache_ok (d\<lparr>c_misses := n\<rparr>)" if "cache_ok d" for d :: "'a value_cache" and n
    using that by (simp add: cache_ok_def counts_ok_def slots_ok_def is_pinned_def)
  have hit: "cache_ok (c\<lparr>c_clock := c_clock c + 1,
      c_map := om_insert k (s\<lparr>s_used := c_clock c + 1\<rparr>) (c_map c), c_hits := n\<rparr>)"
    if "om_get (c_map c) k = Some s" for s n
  proof -
    have m: "om_ok (c_map c)" using c by (simp add: cache_ok_def counts_ok_def)
    moreover have "(k, s) \<in> set (c_map c)" using that by (rule om_get_SomeD)
    ultimately show ?thesis
      using c that
      by (fastforce simp: cache_ok_def counts_ok_def slots_ok_def is_pinned_def set_om_insert
          om_sum_insert_same)
  qed
  show ?thesis
    using c miss tick hit cache_ok_fold_remove [OF tick, of "[k]"]
    by (simp add: cache_get_def Let_def split: option.splits)
qed

lemma cache_ok_put: "cache_ok c \<Longrightarrow> cache_ok (cache_put k v x n c)"
proof -
  assume c: "cache_ok c"
  let ?c = "cache_remove k (c\<lparr>c_clock := c_clock c + 1\<rparr>)"
  let ?s = "\<lparr>s_value = x, s_version = v, s_size = cost k n, s_used = c_clock c + 1, s_pinned = is_pinned c k\<rparr>"
  have "cache_ok (c\<lparr>c_clock := c_clock c + 1\<rparr>)"
    using c by (fastforce simp: cache_ok_def counts_ok_def slots_ok_def is_pinned_def)
  from cache_ok_fold_remove [OF this, of "[k]"] have r: "cache_ok ?c" by simp
  then have m: "om_ok (c_map ?c)" by (simp add: cache_ok_def counts_ok_def)
  have g: "om_get (c_map ?c) k = None"
    using c by (simp add: c_map_remove cache_ok_def counts_ok_def del: cache_remove_frame(6))
  note i = set_om_insert [OF m] om_sum_insert_new [OF m g] om_ok_insert [OF m]
  have k: "is_pinned ?c = is_pinned c" by (simp add: fun_eq_iff is_pinned_def)
  have p: "cache_ok (?c\<lparr>c_map := om_insert k ?s (c_map ?c), c_pinned_bytes := c_pinned_bytes ?c + cost k n,
      c_pinned_count := c_pinned_count ?c + 1\<rparr>)" if "is_pinned c k"
    using r that i k
    by (auto simp: cache_ok_def counts_ok_def slots_ok_def is_pinned_def simp del: cache_remove_frame(6))
  let ?e = "?c\<lparr>c_map := om_insert k ?s (c_map ?c), c_bytes := c_bytes ?c + cost k n\<rparr>"
  have e: "counts_ok ?e" "slots_ok ?e" if "\<not> is_pinned c k"
    using r that i k
    by (auto simp: cache_ok_def counts_ok_def slots_ok_def is_pinned_def simp del: cache_remove_frame(6))
  have "cache_ok (evict ?e)" if "\<not> is_pinned c k"
    using counts_ok_evict [OF e(1)] slots_ok_evict [OF e] evict_bytes [OF e(1)] that
    by (simp add: cache_ok_def)
  with c p show ?thesis by (auto simp: cache_put_def Let_def simp del: cache_remove_frame(6))
qed

lemma cache_ok_step: "cache_ok c \<Longrightarrow> cache_ok (cache_step x c)"
proof (cases x)
  case (Remove k)
  then show "cache_ok c \<Longrightarrow> ?thesis" using cache_ok_fold_remove [of c "[k]"] by simp
next
  case Clear
  then show "cache_ok c \<Longrightarrow> ?thesis" by (simp add: cache_clear_def cache_ok_def counts_ok_def slots_ok_def)
qed (auto simp: cache_ok_pin cache_ok_unpin cache_ok_set_limit cache_ok_get cache_ok_put
    intro: cache_ok_drop dest: cache_ok_def [THEN iffD1])

lemma cache_ok_run: "cache_ok c \<Longrightarrow> cache_ok (cache_run ops c)"
  unfolding cache_run_def by (induction ops arbitrary: c) (simp_all add: cache_ok_step)

subsection \<open>What a hit says\<close>

text \<open>Every slot of the cache comes from a \<open>put\<close> in \<open>h\<close>.\<close>

definition from_puts :: "(rstring \<Rightarrow> (nat \<times> 'v) list) \<Rightarrow> 'v value_cache \<Rightarrow> bool" where
  "from_puts h c \<longleftrightarrow> (\<forall>(k, s) \<in> set (c_map c). (s_version s, s_value s) \<in> set (h k))"

lemma from_puts_fold:
  assumes "counts_ok c" and "from_puts h c"
  shows "from_puts h (fold cache_remove ks c)"
  using assms(2) by (auto simp: from_puts_def set_fold_remove [OF assms(1)])

lemma from_puts_evict: "counts_ok c \<Longrightarrow> from_puts h c \<Longrightarrow> from_puts h (evict c)"
  using evict_removes [of c] from_puts_fold by metis

lemma from_puts_unpin: "cache_ok c \<Longrightarrow> from_puts h c \<Longrightarrow> from_puts h (snd (unpin p c))"
proof -
  assume c: "cache_ok c" "from_puts h c"
  let ?c = "c\<lparr>c_patterns := filter (\<lambda>q. q \<noteq> p) (c_patterns c)\<rparr>"
  have "counts_ok ?c" "from_puts h ?c" using c by (auto simp: cache_ok_def counts_ok_def from_puts_def)
  then show ?thesis by (auto simp: unpin_def Let_def from_puts_fold)
qed

lemma from_puts_get: "cache_ok c \<Longrightarrow> from_puts h c \<Longrightarrow> from_puts h (snd (cache_get k v c))"
proof -
  assume c: "cache_ok c" "from_puts h c"
  then have m: "om_ok (c_map c)" by (simp add: cache_ok_def counts_ok_def)
  have "from_puts h (c\<lparr>c_clock := t, c_map := om_insert k (s\<lparr>s_used := t\<rparr>) (c_map c), c_hits := n\<rparr>)"
    if "om_get (c_map c) k = Some s" for s t n
    using c(2) om_get_SomeD [OF that] by (auto simp: from_puts_def set_om_insert [OF m])
  with c show ?thesis
    by (auto simp: cache_get_def Let_def from_puts_def dest: set_om_remove [THEN subsetD]
        split: option.splits)
qed

lemma from_puts_put:
  assumes "cache_ok c" and "from_puts h c"
  shows "from_puts (h(k := (v, x) # h k)) (cache_put k v x n c)"
proof -
  let ?h = "h(k := (v, x) # h k)"
  let ?c = "cache_remove k (c\<lparr>c_clock := c_clock c + 1\<rparr>)"
  let ?s = "\<lparr>s_value = x, s_version = v, s_size = cost k n, s_used = c_clock c + 1, s_pinned = False\<rparr>"
  let ?e = "?c\<lparr>c_map := om_insert k ?s (c_map ?c), c_bytes := c_bytes ?c + cost k n\<rparr>"
  have keep: "from_puts ?h c" using assms(2) by (auto simp: from_puts_def)
  have "counts_ok (c\<lparr>c_clock := c_clock c + 1\<rparr>)" using assms(1) by (simp add: cache_ok_def counts_ok_def)
  then have r: "counts_ok ?c" by (rule counts_ok_remove)
  then have m: "om_ok (c_map ?c)" by (rule om_ok_counts)
  have g: "om_get (c_map ?c) k = None"
    using assms(1) by (simp add: c_map_remove cache_ok_def counts_ok_def del: cache_remove_frame(6))
  have e: "counts_ok ?e"
    using r om_sum_insert_new [OF m g] by (simp add: counts_ok_def del: cache_remove_frame(6))
  have sub: "set (c_map ?c) \<subseteq> set (c_map c)"
    using set_om_remove [of k "c_map c"] by (auto split: option.splits)
  have ins: "from_puts ?h d" if "set (c_map d) \<subseteq> insert (k, s) (set (c_map c))"
    "s_version s = v" "s_value s = x" for d and s :: "'a slot"
    using that keep by (fastforce simp: from_puts_def)
  have "from_puts ?h ?e"
    using sub set_om_insert_sub [of k ?s "c_map ?c"]
    by (intro ins [of _ ?s]) (auto simp del: cache_remove_frame(6))
  moreover have "from_puts ?h (?c\<lparr>c_map := om_insert k s (c_map ?c), c_pinned_bytes := i, c_pinned_count := j\<rparr>)"
    if "s_version s = v" "s_value s = x" for s i j
    using sub set_om_insert_sub [of k s "c_map ?c"] that
    by (intro ins [of _ s]) (auto simp del: cache_remove_frame(6))
  ultimately show ?thesis
    using from_puts_evict [OF e, of ?h] keep
    by (simp add: cache_put_def Let_def del: cache_remove_frame(6))
qed

lemma from_puts_step: "cache_ok c \<Longrightarrow> from_puts h c \<Longrightarrow> from_puts (put_step z h) (cache_step z c)"
proof (cases z)
  case (SetLimit n)
  assume c: "cache_ok c" "from_puts h c"
  then have "counts_ok (c\<lparr>c_limit := n\<rparr>)" "from_puts h (c\<lparr>c_limit := n\<rparr>)"
    by (auto simp: cache_ok_def counts_ok_def from_puts_def)
  from from_puts_evict [OF this] c SetLimit show ?thesis
    by (auto simp: set_limit_def Let_def drop_evictable_def from_puts_def)
next
  case (Remove k)
  assume c: "cache_ok c" "from_puts h c"
  then have "counts_ok c" by (simp add: cache_ok_def)
  from set_fold_remove [OF this, of "[k]"] c Remove show ?thesis
    by (auto simp: from_puts_def simp del: cache_remove_frame(6))
qed (auto simp: from_puts_unpin from_puts_get from_puts_put pin_def cache_clear_def
    drop_evictable_def from_puts_def [of _ "_\<lparr>c_patterns := _\<rparr>"] from_puts_def [of _ "_\<lparr>c_map := _, c_bytes := _\<rparr>"]
    from_puts_def [of h c] from_puts_def [of "\<lambda>_. []"])

lemma from_puts_run:
  "cache_ok c \<Longrightarrow> from_puts h c \<Longrightarrow> from_puts (fold put_step ops h) (cache_run ops c)"
  unfolding cache_run_def
  by (induction ops arbitrary: h c) (simp_all add: from_puts_step cache_ok_step)

lemma cache_get_Some:
  "fst (cache_get k v c) = Some x \<Longrightarrow> \<exists>s. om_get (c_map c) k = Some s \<and> s_version s = v \<and> s_value s = x"
  by (auto simp: cache_get_def Let_def split: option.splits if_splits)

subsection \<open>What stays\<close>

lemma cache_get_hit:
  "om_get (c_map c) k = Some s \<Longrightarrow> s_version s = v \<Longrightarrow> enabled c \<or> c_pinned_count c > 0 \<Longrightarrow>
    fst (cache_get k v c) = Some (s_value s)"
  by (auto simp: cache_get_def Let_def)

lemma last_sorted_max:
  "sorted xs \<Longrightarrow> x \<in> set xs \<Longrightarrow> \<forall>y \<in> set xs. y \<le> x \<Longrightarrow> last xs = (x :: 'a :: linorder)"
  by (induction xs) (auto split: if_splits simp: order_antisym)

lemma distinct_by_age: "om_ok (c_map c) \<Longrightarrow> distinct (map snd (by_age c))"
proof -
  assume m: "om_ok (c_map c)"
  have "distinct (c_map c)" using om_ok_distinct [OF m] by (simp add: distinct_map)
  then have "distinct (by_age c)"
    by (auto simp: by_age_def distinct_map inj_on_def om_get_Some_iff [OF m, symmetric])
  moreover have "inj_on snd (set (by_age c))"
    by (auto simp: set_by_age inj_on_def om_get_Some_iff [OF m, symmetric])
  ultimately show ?thesis by (simp add: distinct_map)
qed

text \<open>The most recently used value is evicted last, and not at all when it fits the target.\<close>

lemma evict_keeps_newest:
  assumes "counts_ok c" and k: "om_get (c_map c) k = Some s" and "\<not> s_pinned s"
    and new: "\<forall>(k', s') \<in> set (c_map c). k' \<noteq> k \<longrightarrow> s_used s' < s_used s"
    and fit: "s_size s \<le> c_limit c div 4 * 3"
  shows "om_get (c_map (evict c)) k = Some s"
proof (cases "c_bytes c \<le> c_limit c")
  case False
  let ?t = "c_limit c div 4 * 3" and ?ages = "by_age c"
  have m: "om_ok (c_map c)" using assms(1) by (rule om_ok_counts)
  have in_ages: "(s_used s, k) \<in> set ?ages" using om_get_SomeD [OF k] assms(3) by (auto simp: set_by_age)
  have "a \<le> (s_used s, k)" if a: "a \<in> set ?ages" for a
  proof -
    obtain k' s' where "a = (s_used s', k')" "(k', s') \<in> set (c_map c)" using a by (auto simp: set_by_age)
    with new k show ?thesis
      by (cases "k' = k") (auto simp: less_eq_prod_def om_get_Some_iff [OF m, symmetric])
  qed
  then have last: "last ?ages = (s_used s, k)"
    using in_ages by (intro last_sorted_max) (auto simp: by_age_def)
  have split: "?ages = butlast ?ages @ [(s_used s, k)]"
    using in_ages last append_butlast_last_id by (metis empty_iff list.set(1))
  then have d: "distinct (map snd (butlast ?ages @ [(s_used s, k)]))" using distinct_by_age [OF m] by simp
  have rest: "c_bytes (fold cache_remove (map snd (butlast ?ages)) c) = s_size s"
  proof -
    let ?d = "fold cache_remove (map snd (butlast ?ages)) c"
    let ?f = "\<lambda>_ s. if s_pinned s then 0 else s_size s"
    have ok: "counts_ok ?d" using assms(1) by (rule counts_ok_fold_remove)
    have "om_get (c_map ?d) k = Some s" using d k by (simp add: get_fold_remove [OF m])
    then have "om_sum ?f (c_map ?d) = s_size s + om_sum ?f (om_remove k (c_map ?d))"
      using om_sum_remove_Some [OF om_ok_counts [OF ok], of k s ?f] assms(3) by simp
    moreover have "om_sum ?f (om_remove k (c_map ?d)) = 0"
    proof (intro om_sum_zero)
      fix k' s' assume "(k', s') \<in> set (om_remove k (c_map ?d))"
      then have "k' \<noteq> k" and in_d: "(k', s') \<in> set (c_map ?d)"
        using keys_om_remove [OF om_ok_counts [OF ok], of k] set_om_remove by force+
      have "(s_used s', k') \<in> set ?ages \<Longrightarrow> k' \<in> set (map snd (butlast ?ages))"
        using \<open>k' \<noteq> k\<close> by (subst (asm) split) force
      then show "?f k' s' = 0"
        using in_d by (auto simp: set_fold_remove [OF assms(1)] set_by_age simp del: set_map)
    qed
    ultimately show ?thesis using ok by (simp add: counts_ok_def)
  qed
  obtain n where n: "n \<le> length ?ages" "evict c = fold cache_remove (map snd (take n ?ages)) c"
    "\<forall>j < n. ?t < c_bytes (fold cache_remove (map snd (take j ?ages)) c)"
    using evict_loop_removes [of ?ages ?t c] False by (auto simp: evict_def)
  have "n < length ?ages"
  proof (rule ccontr)
    assume "\<not> n < length ?ages"
    with n(1) in_ages have "length ?ages - 1 < n" by (cases ?ages) auto
    with n(3) have "?t < c_bytes (fold cache_remove (map snd (butlast ?ages)) c)"
      by (simp add: butlast_conv_take)
    with rest fit show False by simp
  qed
  then have "take n ?ages = take n (butlast ?ages)" by (simp add: butlast_conv_take)
  then have "k \<notin> set (map snd (take n ?ages))"
    using d set_take_subset [of n "butlast ?ages"] by force
  with k n(2) show ?thesis by (simp add: get_fold_remove [OF m])
qed (simp add: evict_def k)

lemma put_holds:
  assumes c: "cache_ok c" and "is_pinned c k \<or> enabled c \<and> cost k n \<le> c_limit c div 8"
  shows "\<exists>s. om_get (c_map (cache_put k v x n c)) k = Some s \<and> s_version s = v \<and> s_value s = x \<and>
    s_pinned s = is_pinned c k"
proof (cases "is_pinned c k")
  case False
  let ?c = "cache_remove k (c\<lparr>c_clock := c_clock c + 1\<rparr>)"
  let ?s = "\<lparr>s_value = x, s_version = v, s_size = cost k n, s_used = c_clock c + 1, s_pinned = False\<rparr>"
  let ?e = "?c\<lparr>c_map := om_insert k ?s (c_map ?c), c_bytes := c_bytes ?c + cost k n\<rparr>"
  have "counts_ok (c\<lparr>c_clock := c_clock c + 1\<rparr>)" using c by (simp add: cache_ok_def counts_ok_def)
  then have r: "counts_ok ?c" by (rule counts_ok_remove)
  then have m: "om_ok (c_map ?c)" by (rule om_ok_counts)
  have g: "om_get (c_map ?c) k = None"
    using c by (simp add: c_map_remove cache_ok_def counts_ok_def del: cache_remove_frame(6))
  have e: "counts_ok ?e"
    using r om_sum_insert_new [OF m g] by (simp add: counts_ok_def del: cache_remove_frame(6))
  have "set (c_map ?e) \<subseteq> insert (k, ?s) (set (c_map c))"
    using set_om_insert_sub [of k ?s "c_map ?c"] set_om_remove [of k "c_map c"]
    by (auto simp: c_map_remove simp del: cache_remove_frame(6))
  then have "\<forall>(k', s') \<in> set (c_map ?e). k' \<noteq> k \<longrightarrow> s_used s' < s_used ?s"
    using c by (fastforce simp: cache_ok_def slots_ok_def simp del: cache_remove_frame(6))
  moreover have "cost k n \<le> c_limit c div 4 * 3" using assms(2) False by linarith
  ultimately have "om_get (c_map (evict ?e)) k = Some ?s"
    by (intro evict_keeps_newest [OF e]) simp_all
  with False assms(2) show ?thesis
    by (intro exI [of _ ?s]) (simp add: cache_put_def Let_def del: cache_remove_frame(6))
qed (simp add: cache_put_def Let_def)

text \<open>The operations that leave the pinned value of \<open>k\<close> at version \<open>v\<close> alone.\<close>

fun spares :: "rstring \<Rightarrow> nat \<Rightarrow> 'v cache_op \<Rightarrow> bool" where
  "spares k v (Unpin p) \<longleftrightarrow> \<not> glob_match p k"
| "spares k v (Get k' v') \<longleftrightarrow> (k' = k \<longrightarrow> v' = v)"
| "spares k v (Put k' _ _ _) \<longleftrightarrow> k' \<noteq> k"
| "spares k v (Remove k') \<longleftrightarrow> k' \<noteq> k"
| "spares k v Clear \<longleftrightarrow> False"
| "spares k v _ \<longleftrightarrow> True"

definition pinned_at :: "rstring \<Rightarrow> nat \<Rightarrow> 'v \<Rightarrow> 'v value_cache \<Rightarrow> bool" where
  "pinned_at k v x c \<longleftrightarrow>
     (\<exists>s. om_get (c_map c) k = Some s \<and> s_version s = v \<and> s_value s = x \<and> s_pinned s)"

lemma pinned_at_evict:
  assumes "counts_ok c"
  shows "pinned_at k v x c \<Longrightarrow> pinned_at k v x (evict c)"
proof -
  note m = om_ok_counts [OF assms]
  obtain ks where ks: "evict c = fold cache_remove ks c"
    "\<forall>k \<in> set ks. \<exists>s. (k, s) \<in> set (c_map c) \<and> \<not> s_pinned s"
    using evict_removes [of c] by blast
  show "pinned_at k v x c \<Longrightarrow> pinned_at k v x (evict c)"
    using ks(2) by (auto simp: ks(1) pinned_at_def get_fold_remove [OF m] om_get_Some_iff [OF m, symmetric])
qed

lemma pinned_at_put:
  assumes c: "cache_ok c" and p: "pinned_at k v x c" and "k' \<noteq> k"
  shows "pinned_at k v x (cache_put k' v' x' n c)"
proof -
  let ?c = "cache_remove k' (c\<lparr>c_clock := c_clock c + 1\<rparr>)"
  let ?s = "\<lparr>s_value = x', s_version = v', s_size = cost k' n, s_used = c_clock c + 1, s_pinned = False\<rparr>"
  let ?e = "?c\<lparr>c_map := om_insert k' ?s (c_map ?c), c_bytes := c_bytes ?c + cost k' n\<rparr>"
  have "counts_ok (c\<lparr>c_clock := c_clock c + 1\<rparr>)" using c by (simp add: cache_ok_def counts_ok_def)
  then have r: "counts_ok ?c" by (rule counts_ok_remove)
  then have m: "om_ok (c_map ?c)" by (rule om_ok_counts)
  have g: "om_get (c_map ?c) = (om_get (c_map c))(k' := None)"
    using c by (simp add: c_map_remove cache_ok_def counts_ok_def del: cache_remove_frame(6))
  have e: "counts_ok ?e"
    using r om_sum_insert_new [OF m, of k'] g by (simp add: counts_ok_def del: cache_remove_frame(6))
  have "pinned_at k v x (evict ?e)"
    using p \<open>k' \<noteq> k\<close> g
    by (intro pinned_at_evict [OF e]) (simp add: pinned_at_def del: cache_remove_frame(6))
  moreover have "pinned_at k v x (?c\<lparr>c_map := om_insert k' s (c_map ?c), c_pinned_bytes := i, c_pinned_count := j\<rparr>)"
    for s i j
    using p \<open>k' \<noteq> k\<close> g by (simp add: pinned_at_def del: cache_remove_frame(6))
  ultimately show ?thesis using p by (simp add: cache_put_def Let_def del: cache_remove_frame(6))
qed

lemma pinned_at_get:
  "cache_ok c \<Longrightarrow> pinned_at k v x c \<Longrightarrow> k' = k \<longrightarrow> v' = v \<Longrightarrow> pinned_at k v x (snd (cache_get k' v' c))"
  by (auto simp: cache_get_def Let_def pinned_at_def cache_ok_def counts_ok_def split: option.splits)

lemma pinned_at_step:
  assumes c: "cache_ok c" and p: "pinned_at k v x c" and s: "spares k v z"
    and pat: "is_pinned c k"
  shows "pinned_at k v x (cache_step z c) \<and> is_pinned (cache_step z c) k"
proof -
  have m: "om_ok (c_map c)" using c by (simp add: cache_ok_def counts_ok_def)
  have "pinned_at k v x (cache_step z c)"
  proof (cases z)
    case (Unpin q)
    let ?c = "c\<lparr>c_patterns := filter (\<lambda>r. r \<noteq> q) (c_patterns c)\<rparr>"
    have "is_pinned ?c k" using pat s Unpin by (auto simp: is_pinned_def list_ex_iff)
    then show ?thesis
      using p m Unpin by (auto simp: unpin_def Let_def pinned_at_def get_fold_remove)
  next
    case (SetLimit n)
    have "counts_ok (c\<lparr>c_limit := n\<rparr>)" using c by (simp add: cache_ok_def counts_ok_def)
    from pinned_at_evict [OF this, of k v x] p SetLimit m show ?thesis
      by (auto simp: set_limit_def Let_def drop_evictable_def pinned_at_def om_get_Some_iff)
  next
    case (Remove i)
    with p s m show ?thesis by (auto simp: pinned_at_def split: option.splits)
  next
    case DropEvictable
    with p m show ?thesis by (auto simp: drop_evictable_def pinned_at_def om_get_Some_iff)
  next
    case (Pin q)
    with p show ?thesis by (simp add: pin_def pinned_at_def)
  qed (use p s c in \<open>simp_all add: pinned_at_get pinned_at_put\<close>)
  moreover have "is_pinned (cache_step z c) k"
    using pat s
    by (cases z) (auto simp: is_pinned_def list_ex_iff pin_def unpin_def Let_def set_limit_def
        drop_evictable_def cache_get_def cache_put_def split: option.splits)
  ultimately show ?thesis by blast
qed

lemma pinned_at_run:
  "cache_ok c \<Longrightarrow> pinned_at k v x c \<Longrightarrow> is_pinned c k \<Longrightarrow> list_all (spares k v) ops \<Longrightarrow>
    pinned_at k v x (cache_run ops c)"
proof (induction ops arbitrary: c)
  case (Cons z ops)
  then have "pinned_at k v x (cache_step z c)" "is_pinned (cache_step z c) k"
    using pinned_at_step [of c k v x z] by simp_all
  with Cons.IH [of "cache_step z c"] Cons.prems cache_ok_step [of c z] show ?case
    by (simp add: cache_run_def)
qed (simp add: cache_run_def)

lemma pinned_at_hit:
  assumes "cache_ok c" and "pinned_at k v x c"
  shows "fst (cache_get k v c) = Some x"
proof -
  obtain s where s: "om_get (c_map c) k = Some s" "s_version s = v" "s_value s = x" "s_pinned s"
    using assms(2) by (auto simp: pinned_at_def)
  have "c_pinned_count c > 0"
    using assms(1) s om_sum_remove_Some [of "c_map c" k s "\<lambda>_ s. if s_pinned s then 1 else 0"]
    by (simp add: cache_ok_def counts_ok_def)
  with s cache_get_hit [of c k s v] show ?thesis by simp
qed

lemma is_pinned_put [simp]: "is_pinned (cache_put k v x n c) = is_pinned c"
  by (simp add: fun_eq_iff is_pinned_def cache_put_def Let_def)

subsection \<open>The contract of a cache\<close>

text \<open>
  What the engine relies on. \<open>has c k v x\<close>: the cache holds \<open>x\<close> for version \<open>v\<close> of \<open>k\<close>. A cache is
  coherent with a store when everything it holds is what the store has.
\<close>

locale version_cache =
  fixes ok :: "'c \<Rightarrow> bool"
    and has :: "'c \<Rightarrow> 'k \<Rightarrow> nat \<Rightarrow> 'v \<Rightarrow> bool"
    and lookup :: "'k \<Rightarrow> nat \<Rightarrow> 'c \<Rightarrow> 'v option \<times> 'c"
    and store :: "'k \<Rightarrow> nat \<Rightarrow> 'v \<Rightarrow> nat \<Rightarrow> 'c \<Rightarrow> 'c"
    and forget :: "'k \<Rightarrow> 'c \<Rightarrow> 'c"
  assumes ok_lookup: "ok c \<Longrightarrow> ok (snd (lookup k v c))"
    and ok_store: "ok c \<Longrightarrow> ok (store k v x n c)"
    and ok_forget: "ok c \<Longrightarrow> ok (forget k c)"
    and lookup_has: "fst (lookup k v c) = Some x \<Longrightarrow> has c k v x"
    and has_lookup: "ok c \<Longrightarrow> has (snd (lookup k v c)) j w y \<Longrightarrow> has c j w y"
    and has_store: "ok c \<Longrightarrow> has (store k v x n c) j w y \<Longrightarrow> has c j w y \<or> j = k \<and> w = v \<and> y = x"
    and has_forget: "ok c \<Longrightarrow> has (forget k c) j w y \<Longrightarrow> has c j w y \<and> j \<noteq> k"
begin

definition coherent :: "('k \<Rightarrow> nat \<Rightarrow> 'v option) \<Rightarrow> 'c \<Rightarrow> bool" where
  "coherent truth c \<longleftrightarrow> ok c \<and> (\<forall>k v x. has c k v x \<longrightarrow> truth k v = Some x)"

text \<open>A read through the cache gives the store's value and leaves the cache coherent.\<close>

lemma read_through:
  assumes "coherent truth c" and "truth k v = Some x"
  shows "fst (lookup k v c) \<in> {None, Some x} \<and> coherent truth (snd (lookup k v c)) \<and>
    coherent truth (store k v x n (snd (lookup k v c)))"
proof -
  have l: "coherent truth (snd (lookup k v c))"
    using assms(1) ok_lookup has_lookup unfolding coherent_def by blast
  then have "coherent truth (store k v x n (snd (lookup k v c)))"
    using assms(2) ok_store has_store unfolding coherent_def by blast
  moreover have "fst (lookup k v c) \<in> {None, Some x}"
    using assms lookup_has [of k v c] by (cases "fst (lookup k v c)") (auto simp: coherent_def)
  ultimately show ?thesis using l by blast
qed

text \<open>When the store changes at one key, forgetting the key is enough.\<close>

lemma coherent_forget:
  assumes "coherent truth c" and "\<And>j v. j \<noteq> k \<Longrightarrow> truth' j v = truth j v"
  shows "coherent truth' (forget k c)"
  using assms ok_forget has_forget unfolding coherent_def by metis

lemma coherent_store:
  "coherent truth c \<Longrightarrow> truth k v = Some x \<Longrightarrow> coherent truth (store k v x n c)"
  using ok_store has_store unfolding coherent_def by blast

end

definition cache_has :: "'v value_cache \<Rightarrow> rstring \<Rightarrow> nat \<Rightarrow> 'v \<Rightarrow> bool" where
  "cache_has c k v x \<longleftrightarrow> (\<exists>s. om_get (c_map c) k = Some s \<and> s_version s = v \<and> s_value s = x)"

text \<open>A history that describes the slots of a cache exactly, for one key at a time.\<close>

definition slot_log :: "'v value_cache \<Rightarrow> rstring \<Rightarrow> (nat \<times> 'v) list" where
  "slot_log c k = (case om_get (c_map c) k of None \<Rightarrow> [] | Some s \<Rightarrow> [(s_version s, s_value s)])"

lemma slot_log_iff: "(v, x) \<in> set (slot_log c k) \<longleftrightarrow> cache_has c k v x"
  by (cases "om_get (c_map c) k") (auto simp: slot_log_def cache_has_def)

lemma from_puts_slot_log: "cache_ok c \<Longrightarrow> from_puts (slot_log c) c"
  by (auto simp: from_puts_def slot_log_def cache_ok_def counts_ok_def om_get_Some_iff [symmetric])

lemma from_puts_has: "from_puts h c \<Longrightarrow> cache_has c k v x \<Longrightarrow> (v, x) \<in> set (h k)"
  by (auto simp: from_puts_def cache_has_def dest: om_get_SomeD)

interpretation vc: version_cache cache_ok cache_has cache_get cache_put cache_remove
proof unfold_locales
  fix c :: "'v value_cache" and k j :: rstring and v w :: nat and x y :: 'v and n :: nat
  show "cache_ok c \<Longrightarrow> cache_ok (snd (cache_get k v c))" by (rule cache_ok_get)
  show "cache_ok c \<Longrightarrow> cache_ok (cache_put k v x n c)" by (rule cache_ok_put)
  show "cache_ok c \<Longrightarrow> cache_ok (cache_remove k c)" using cache_ok_step [of c "Remove k"] by simp
  show "fst (cache_get k v c) = Some x \<Longrightarrow> cache_has c k v x"
    unfolding cache_has_def by (rule cache_get_Some)
  show "cache_ok c \<Longrightarrow> cache_has (snd (cache_get k v c)) j w y \<Longrightarrow> cache_has c j w y"
    using from_puts_has [OF from_puts_get [OF _ from_puts_slot_log]] by (simp add: slot_log_iff)
  show "cache_ok c \<Longrightarrow> cache_has (cache_put k v x n c) j w y \<Longrightarrow>
      cache_has c j w y \<or> j = k \<and> w = v \<and> y = x"
    using from_puts_has [OF from_puts_put [OF _ from_puts_slot_log], of c k v x n j w y]
    by (auto simp: slot_log_iff split: if_splits)
  show "cache_ok c \<Longrightarrow> cache_has (cache_remove k c) j w y \<Longrightarrow> cache_has c j w y \<and> j \<noteq> k"
    by (auto simp: cache_has_def cache_ok_def counts_ok_def split: option.splits if_splits)
qed

subsection \<open>Properties\<close>

text \<open>
  (C19) The cache's books are exact and its budget holds: whatever calls are made on a new cache, its
  byte counters are the sums over the values it holds, its count of pinned values is their number,
  the values that are not pinned take at most the limit, no value is newer than the clock, and every
  value marked as pinned matches a pinned pattern.
\<close>

theorem cache_accounting: "cache_ok (cache_run ops (cache_new n))"
  by (rule cache_ok_run [OF cache_ok_new])

text \<open>
  (C20) A hit is never stale: a value the cache returns for a version of a key is one that was put
  for exactly that key and version, since the key was last removed.
\<close>

theorem cache_hit_was_put:
  assumes "fst (cache_get k v (cache_run ops (cache_new n))) = Some x"
  shows "(v, x) \<in> set (puts ops k)"
proof -
  have "from_puts (\<lambda>_. []) (cache_new n)" by (simp add: from_puts_def cache_new_def)
  from from_puts_run [OF cache_ok_new this] cache_get_Some [OF assms] show ?thesis
    by (force simp: from_puts_def puts_def dest: om_get_SomeD)
qed

theorem cache_hit_was_put_witness:
  "(2, ''new'') \<in> set (puts [Put (lit ''k'') 1 ''old'' 3, Put (lit ''k'') 2 ''new'' 3] (lit ''k''))"
proof (rule cache_hit_was_put [where n = 2000])
  show "fst (cache_get (lit ''k'') 2 (cache_run
      [Put (lit ''k'') 1 ''old'' 3, Put (lit ''k'') 2 ''new'' 3] (cache_new 2000))) = Some ''new''"
    by code_simp
qed

text \<open>
  A value is there right after it was put: when the cache is on and the value takes at most an
  eighth of its budget, or when a pinned pattern matches its key, the next \<open>get\<close> of that version
  returns it, however full the cache was.
\<close>

theorem cache_put_get:
  assumes "c = cache_run ops (cache_new m)"
    and "is_pinned c k \<or> enabled c \<and> cost k n \<le> c_limit c div 8"
  shows "fst (cache_get k v (cache_put k v x n c)) = Some x"
proof -
  have c: "cache_ok c" using assms(1) cache_ok_run [OF cache_ok_new] by simp
  obtain s where s: "om_get (c_map (cache_put k v x n c)) k = Some s" "s_version s = v" "s_value s = x"
    "s_pinned s = is_pinned c k"
    using put_holds [OF c assms(2)] by blast
  show ?thesis
  proof (cases "is_pinned c k")
    case True
    with s have "pinned_at k v x (cache_put k v x n c)" by (simp add: pinned_at_def)
    with cache_ok_put [OF c] show ?thesis by (rule pinned_at_hit)
  next
    case False
    then have "enabled (cache_put k v x n c)"
      using assms(2) by (simp add: enabled_def cache_put_def Let_def)
    with s cache_get_hit [OF s(1)] show ?thesis by simp
  qed
qed

theorem cache_put_get_witness:
  "fst (cache_get (lit ''b'') 2 (cache_put (lit ''b'') 2 ''y'' 3
     (cache_run [Put (lit ''a'') 1 ''x'' 3] (cache_new 800)))) = Some ''y''"
proof (rule cache_put_get [OF refl])
  let ?c = "cache_run [Put (lit ''a'') 1 ''x'' 3] (cache_new 800) :: string value_cache"
  have "enabled ?c \<and> cost (lit ''b'') 3 \<le> c_limit ?c div 8" by code_simp
  then show "is_pinned ?c (lit ''b'') \<or> enabled ?c \<and> cost (lit ''b'') 3 \<le> c_limit ?c div 8" by blast
qed

text \<open>
  (C21) Pinned values stay. A value put while a pinned pattern matches its key is still returned after
  any calls that do not touch it: puts and gets of other keys, gets of its own version, changes of
  the budget (down to 0), giving memory back, pinning patterns and unpinning patterns that do not
  match it.
\<close>

theorem cache_pinned_stays:
  assumes "c = cache_run before (cache_new m)" and "is_pinned c k"
    and "list_all (spares k v) ops"
  shows "fst (cache_get k v (cache_run ops (cache_put k v x n c))) = Some x"
proof -
  have c: "cache_ok c" using assms(1) cache_ok_run [OF cache_ok_new] by simp
  have "pinned_at k v x (cache_put k v x n c)"
    using put_holds [OF c, of k n v x] assms(2) by (auto simp: pinned_at_def)
  then have "pinned_at k v x (cache_run ops (cache_put k v x n c))"
    using assms(2,3) by (intro pinned_at_run cache_ok_put c) simp_all
  then show ?thesis by (rule pinned_at_hit [OF cache_ok_run [OF cache_ok_put [OF c]]])
qed

theorem cache_pinned_stays_witness:
  "fst (cache_get (lit ''hot'') 1 (cache_run [Put (lit ''b'') 2 ''y'' 3, SetLimit 0, Unpin (lit ''b*'')]
     (cache_put (lit ''hot'') 1 ''x'' 5000 (cache_run [Pin (lit ''h*''), Pin (lit ''b*'')] (cache_new 0)))))
   = Some ''x''"
proof (rule cache_pinned_stays [OF refl])
  show "is_pinned (cache_run [Pin (lit ''h*''), Pin (lit ''b*'')] (cache_new 0) :: string value_cache) (lit ''hot'')"
    by code_simp
  show "list_all (spares (lit ''hot'') 1) [Put (lit ''b'') 2 ''y'' 3, SetLimit 0, Unpin (lit ''b*'')]"
    by code_simp
qed

end
