(* ===== verification/Numbers.thy ===== *)
theory Numbers
  imports Prelude Complex_Main
begin

unbundle bit_operations_syntax

text \<open>
  Numbers compared by their exact value: \<^verbatim>\<open>src/num.rs\<close> (\<^verbatim>\<open>exact\<close>, \<^verbatim>\<open>int_float\<close>, \<^verbatim>\<open>cmp\<close>,
  \<^verbatim>\<open>int_json\<close>, \<^verbatim>\<open>add\<close>, \<^verbatim>\<open>Sum\<close>) and the numeric part of \<^verbatim>\<open>src/doc.rs\<close> (the big integers
  \<^verbatim>\<open>Big\<close>, \<^verbatim>\<open>Ratio\<close>, \<^verbatim>\<open>cmp_num\<close>, \<^verbatim>\<open>num_class\<close>). An \<^verbatim>\<open>f64\<close> is its 64 bits; \<open>f_value\<close> is the
  rational number a finite one stands for, and comparisons, \<^verbatim>\<open>trunc\<close> and exact differences of finite
  floats are those of their values.
\<close>

subsection \<open>Orderings\<close>

text \<open>\<^verbatim>\<open>std::cmp::Ordering\<close> and its methods.\<close>

datatype ordering = Less | Equal | Greater

fun rev_ord :: "ordering \<Rightarrow> ordering" where
  "rev_ord Less = Greater" | "rev_ord Equal = Equal" | "rev_ord Greater = Less"

definition then_ord :: "ordering \<Rightarrow> ordering \<Rightarrow> ordering" where
  "then_ord a b = (if a = Equal then b else a)"

definition cmp_of :: "'a::linorder \<Rightarrow> 'a \<Rightarrow> ordering" where
  "cmp_of x y = (if x < y then Less else if x = y then Equal else Greater)"

lemma cmp_of_iff [simp]:
  "cmp_of x y = Less \<longleftrightarrow> x < y" "cmp_of x y = Equal \<longleftrightarrow> x = y" "cmp_of x y = Greater \<longleftrightarrow> y < x"
  by (auto simp: cmp_of_def)

lemma cmp_of_refl [simp]: "cmp_of x x = Equal"
  by simp

lemma cmp_of_eqI: "(x < y \<longleftrightarrow> x' < y') \<Longrightarrow> (y < x \<longleftrightarrow> y' < x') \<Longrightarrow> cmp_of x y = cmp_of x' y'"
  by (auto simp: cmp_of_def)

lemma rev_cmp_of [simp]: "rev_ord (cmp_of x y) = cmp_of y x"
  by (auto simp: cmp_of_def)

subsection \<open>Floats\<close>

type_synonym f64 = "64 word"

definition f_neg :: "f64 \<Rightarrow> bool" where
  "f_neg f \<longleftrightarrow> drop_bit 63 f = 1"

definition f_exp :: "f64 \<Rightarrow> nat" where
  "f_exp f = unat (drop_bit 52 f AND 0x7ff)"

definition f_frac :: "f64 \<Rightarrow> nat" where
  "f_frac f = unat (f AND (push_bit 52 1 - 1))"

definition f_mant :: "f64 \<Rightarrow> nat" where
  "f_mant f = (if f_exp f = 0 then f_frac f else 2 ^ 52 + f_frac f)"

definition f_pow :: "f64 \<Rightarrow> int" where
  "f_pow f = (if f_exp f = 0 then - 1074 else int (f_exp f) - 1075)"

definition f_finite :: "f64 \<Rightarrow> bool" where
  "f_finite f \<longleftrightarrow> f_exp f \<noteq> 0x7ff"

definition f_value :: "f64 \<Rightarrow> rat" where
  "f_value f = (if f_neg f then - 1 else 1) *
     (if f_pow f \<ge> 0 then of_nat (f_mant f) * 2 ^ nat (f_pow f)
      else of_nat (f_mant f) / 2 ^ nat (- f_pow f))"

text \<open>\<^verbatim>\<open>f.trunc()\<close>, towards zero.\<close>

definition rat_trunc :: "rat \<Rightarrow> int" where
  "rat_trunc r = (if r < 0 then \<lceil>r\<rceil> else \<lfloor>r\<rfloor>)"

text \<open>\<^verbatim>\<open>f.fract() == 0.0\<close>.\<close>

definition f_whole :: "f64 \<Rightarrow> bool" where
  "f_whole f \<longleftrightarrow> of_int (rat_trunc (f_value f)) = f_value f"

lemma f_whole_iff [simp]: "f_whole f \<longleftrightarrow> f_value f \<in> \<int>"
proof
  show "f_whole f \<Longrightarrow> f_value f \<in> \<int>" unfolding f_whole_def by (metis Ints_of_int)
qed (auto simp: f_whole_def rat_trunc_def elim: Ints_cases)

subsection \<open>JSON numbers\<close>

text \<open>\<^verbatim>\<open>serde_json::Number\<close>: a non-negative integer as \<^verbatim>\<open>u64\<close>, a negative one as \<^verbatim>\<open>i64\<close>, else a float.\<close>

datatype number = PosInt nat | NegInt int | NFloat f64

fun number_ok :: "number \<Rightarrow> bool" where
  "number_ok (PosInt n) \<longleftrightarrow> n < 2 ^ 64"
| "number_ok (NegInt i) \<longleftrightarrow> - (2 ^ 63) \<le> i \<and> i < 0"
| "number_ok (NFloat f) \<longleftrightarrow> f_finite f"

fun as_i64 :: "number \<Rightarrow> int option" where
  "as_i64 (PosInt n) = (if n < 2 ^ 63 then Some (int n) else None)"
| "as_i64 (NegInt i) = Some i"
| "as_i64 (NFloat f) = None"

fun as_u64 :: "number \<Rightarrow> nat option" where
  "as_u64 (PosInt n) = Some n" | "as_u64 (NegInt i) = None" | "as_u64 (NFloat f) = None"

datatype exact = ExInt int | ExFloat f64

definition exact_of :: "number \<Rightarrow> exact" where
  "exact_of n = (case as_i64 n of Some i \<Rightarrow> ExInt i | None \<Rightarrow>
     (case as_u64 n of Some u \<Rightarrow> ExInt (int u) | None \<Rightarrow>
       (case n of NFloat f \<Rightarrow> ExFloat f | _ \<Rightarrow> ExFloat 0)))"

definition int_float :: "int \<Rightarrow> f64 \<Rightarrow> ordering" where
  "int_float i f =
     (if f_value f \<ge> 2 ^ 64 then Less
      else if f_value f < - (2 ^ 63) then Greater
      else (let whole = rat_trunc (f_value f) in
        then_ord (cmp_of i whole) (cmp_of 0 (f_value f - of_int whole))))"

definition num_cmp :: "number \<Rightarrow> number \<Rightarrow> ordering" where
  "num_cmp a b = (case (exact_of a, exact_of b) of
     (ExInt x, ExInt y) \<Rightarrow> cmp_of x y
   | (ExInt x, ExFloat y) \<Rightarrow> int_float x y
   | (ExFloat x, ExInt y) \<Rightarrow> rev_ord (int_float y x)
   | (ExFloat x, ExFloat y) \<Rightarrow> cmp_of (f_value x) (f_value y))"

definition int_json :: "int \<Rightarrow> number option" where
  "int_json i =
     (if - (2 ^ 63) \<le> i \<and> i < 2 ^ 63 then Some (if i < 0 then NegInt i else PosInt (nat i))
      else if 0 \<le> i \<and> i < 2 ^ 64 then Some (PosInt (nat i)) else None)"

text \<open>\<open>fl\<close> is the floating-point addition: the sum of two numbers as floats, none when not finite.\<close>

definition num_add :: "(number \<Rightarrow> number \<Rightarrow> f64 option) \<Rightarrow> number \<Rightarrow> number \<Rightarrow> string + number" where
  "num_add fl a b = (case (exact_of a, exact_of b) of
     (ExInt x, ExInt y) \<Rightarrow> (case int_json (x + y) of
         Some n \<Rightarrow> Inr n | None \<Rightarrow> Inl ''the result would be beyond the 64-bit integers'')
   | _ \<Rightarrow> (case fl a b of
         Some f \<Rightarrow> Inr (NFloat f) | None \<Rightarrow> Inl ''the result would be NaN or infinite''))"

text \<open>
  \<^verbatim>\<open>Sum\<close>, a running sum; \<open>fadd\<close> is the addition of floats. The \<^verbatim>\<open>i128\<close> total is an \<open>int\<close>: fewer
  than \<open>2 ^ 63\<close> additions of 64-bit integers stay within it.
\<close>

record num_sum =
  su_int :: int
  su_float :: f64
  su_fractional :: bool

definition sum_default :: num_sum where
  "sum_default = \<lparr>su_int = 0, su_float = 0, su_fractional = False\<rparr>"

definition sum_push :: "(f64 \<Rightarrow> f64 \<Rightarrow> f64) \<Rightarrow> number \<Rightarrow> num_sum \<Rightarrow> num_sum" where
  "sum_push fadd n s = (case exact_of n of
     ExInt i \<Rightarrow> s\<lparr>su_int := su_int s + i\<rparr>
   | ExFloat f \<Rightarrow>
       if f_whole f \<and> - (2 ^ 63) \<le> f_value f \<and> f_value f < 2 ^ 64 then
         s\<lparr>su_int := su_int s + rat_trunc (f_value f)\<rparr>
       else s\<lparr>su_fractional := True, su_float := fadd (su_float s) f\<rparr>)"

definition exact_int :: "num_sum \<Rightarrow> int option" where
  "exact_int s = (if \<not> su_fractional s then Some (su_int s) else None)"

text \<open>\<open>tot\<close> renders the floating-point total as JSON (\<^verbatim>\<open>query::num\<close>).\<close>

definition sum_json :: "(num_sum \<Rightarrow> number) \<Rightarrow> num_sum \<Rightarrow> string + number" where
  "sum_json tot s =
     (if su_fractional s then Inr (tot s)
      else (case int_json (su_int s) of
        Some n \<Rightarrow> Inr n | None \<Rightarrow> Inl ''the sum is beyond the 64-bit integers''))"

text \<open>The value of a number.\<close>

fun num_value :: "number \<Rightarrow> rat" where
  "num_value (PosInt n) = of_nat n"
| "num_value (NegInt i) = of_int i"
| "num_value (NFloat f) = f_value f"

lemma exact_value:
  "exact_of n = ExInt i \<Longrightarrow> num_value n = of_int i"
  "exact_of n = ExFloat f \<Longrightarrow> num_value n = f_value f"
  by (cases n; auto simp: exact_of_def split: if_splits)+

lemma exact_range:
  "number_ok n \<Longrightarrow> exact_of n = ExInt i \<Longrightarrow> - (2 ^ 63) \<le> i \<and> i < 2 ^ 64"
  by (cases n) (auto simp: exact_of_def split: if_splits)

lemma trunc_cmp:
  "then_ord (cmp_of i (rat_trunc r)) (cmp_of 0 (r - of_int (rat_trunc r))) = cmp_of (of_int i) r"
proof (cases "r < 0")
  case True
  have "of_int \<lceil>r\<rceil> \<ge> r" "of_int \<lceil>r\<rceil> < r + 1" by linarith+
  with True show ?thesis
    by (auto simp: rat_trunc_def then_ord_def cmp_of_def) linarith+
next
  case False
  have "of_int \<lfloor>r\<rfloor> \<le> r" "r < of_int \<lfloor>r\<rfloor> + 1" by linarith+
  with False show ?thesis
    by (auto simp: rat_trunc_def then_ord_def cmp_of_def) linarith+
qed

lemma int_float_exact:
  assumes "- (2 ^ 63) \<le> i" and "i < 2 ^ 64"
  shows "int_float i f = cmp_of (of_int i) (f_value f)"
proof -
  have "of_int i < (of_int (2 ^ 64) :: rat)" "of_int (- (2 ^ 63)) \<le> (of_int i :: rat)"
    using assms by (simp_all only: of_int_less_iff of_int_le_iff)
  then have "f_value f \<ge> 2 ^ 64 \<Longrightarrow> of_int i < f_value f" "f_value f < - (2 ^ 63) \<Longrightarrow> f_value f < of_int i"
    by simp_all
  then show ?thesis
    using cmp_of_iff(1,3) [of "of_int i" "f_value f"]
    by (auto simp: int_float_def Let_def trunc_cmp simp del: cmp_of_iff)
qed

lemma num_cmp_value:
  assumes "number_ok a" and "number_ok b"
  shows "num_cmp a b = cmp_of (num_value a) (num_value b)"
  using exact_value [of a] exact_value [of b] exact_range [OF assms(1)] exact_range [OF assms(2)]
  by (auto simp: num_cmp_def int_float_exact cmp_of_def split: exact.splits)

subsection \<open>Big integers\<close>

text \<open>\<^verbatim>\<open>Big\<close>: a non-negative integer as little-endian 32-bit limbs.\<close>

type_synonym big = "u32 list"

fun big_value :: "big \<Rightarrow> nat" where
  "big_value [] = 0"
| "big_value (l # ls) = unat l + 2 ^ 32 * big_value ls"

fun from_u128 :: "nat \<Rightarrow> big" where
  "from_u128 n = (if n = 0 then [] else word_of_nat n # from_u128 (n div 2 ^ 32))"

declare from_u128.simps [simp del]

definition trim :: "big \<Rightarrow> big" where
  "trim b = rev (dropWhile (\<lambda>l. l = 0) (rev b))"

fun mul_limbs :: "u32 \<Rightarrow> u64 \<Rightarrow> big \<Rightarrow> big" where
  "mul_limbs m carry [] = (if carry > 0 then [ucast carry] else [])"
| "mul_limbs m carry (limb # ls) =
     (let p = ucast limb * ucast m + carry in ucast p # mul_limbs m (drop_bit 32 p) ls)"

definition mul_small :: "u32 \<Rightarrow> big \<Rightarrow> big" where
  "mul_small m b = trim (mul_limbs m 0 b)"

definition mul_pow10 :: "nat \<Rightarrow> big \<Rightarrow> big" where
  "mul_pow10 n b = (mul_small 10 ^^ n) b"

fun shl_limbs :: "nat \<Rightarrow> u32 \<Rightarrow> big \<Rightarrow> big" where
  "shl_limbs r carry [] = (if carry > 0 then [carry] else [])"
| "shl_limbs r carry (limb # ls) =
     (push_bit r limb OR carry) # shl_limbs r (if r = 0 then 0 else drop_bit (32 - r) limb) ls"

definition shl :: "nat \<Rightarrow> big \<Rightarrow> big" where
  "shl bits b = trim (replicate (bits div 32) 0 @ shl_limbs (bits mod 32) 0 b)"

text \<open>\<^verbatim>\<open>Iterator::cmp\<close>.\<close>

fun lex_cmp :: "'a::linorder list \<Rightarrow> 'a list \<Rightarrow> ordering" where
  "lex_cmp [] [] = Equal"
| "lex_cmp [] (_ # _) = Less"
| "lex_cmp (_ # _) [] = Greater"
| "lex_cmp (a # as) (b # bs) = then_ord (cmp_of a b) (lex_cmp as bs)"

definition big_cmp :: "big \<Rightarrow> big \<Rightarrow> ordering" where
  "big_cmp a b = (let a = trim a; b = trim b in
     then_ord (cmp_of (length a) (length b)) (lex_cmp (rev a) (rev b)))"

lemma big_value_append: "big_value (xs @ ys) = big_value xs + 2 ^ (32 * length xs) * big_value ys"
  by (induction xs) (simp_all add: algebra_simps power_add)

lemma big_value_zeros [simp]: "big_value (replicate n 0) = 0"
  by (induction n) simp_all

lemma big_value_trim [simp]: "big_value (trim b) = big_value b"
proof (induction b rule: rev_induct)
  case (snoc l b)
  then show ?case by (cases "l = 0") (simp_all add: trim_def big_value_append)
qed (simp add: trim_def)

lemma big_value_from_u128 [simp]: "big_value (from_u128 n) = n"
proof (induction n rule: from_u128.induct)
  case (1 n)
  show ?case
  proof (cases "n = 0")
    case False
    have "unat (word_of_nat n :: u32) = n mod 2 ^ 32" by (simp add: unat_of_nat)
    with 1 False show ?thesis
      by (subst from_u128.simps) (simp add: mod_mult_div_eq [of n "2 ^ 32"] del: power_numeral_even)
  qed (simp add: from_u128.simps)
qed

lemma unat_u32: "unat (l :: u32) < 2 ^ 32"
  using unsigned_less [of l] by simp

lemma unat_ucast_u32_u64: "unat (ucast (l :: u32) :: u64) = unat l"
  using unat_u32 [of l] by (simp add: unsigned_ucast_eq take_bit_nat_eq_self)

lemma unat_drop: "unat (drop_bit n w) = unat w div 2 ^ n"
  by (subst unat_drop_bit_eq) (rule drop_bit_eq_div)

lemma mul_limbs_value:
  "unat carry < 2 ^ 32 \<Longrightarrow> big_value (mul_limbs m carry b) = big_value b * unat m + unat carry"
proof (induction m carry b rule: mul_limbs.induct)
  case (1 m carry)
  then have "unat (ucast carry :: u32) = unat carry"
    by (simp add: unsigned_ucast_eq take_bit_nat_eq_self)
  then show ?case by (auto simp: word_gt_0)
next
  case (2 m carry limb ls)
  let ?p = "ucast limb * ucast m + carry :: u64"
  let ?n = "unat limb * unat m + unat carry"
  have "unat limb \<le> 2 ^ 32 - 1" "unat m \<le> 2 ^ 32 - 1"
    using unat_u32 [of limb] unat_u32 [of m] by simp_all
  then have "unat limb * unat m \<le> (2 ^ 32 - 1) * (2 ^ 32 - 1)" by (rule mult_le_mono)
  with "2.prems" have n: "?n < 2 ^ 64" by simp
  have p: "unat ?p = ?n"
    using n by (simp add: unat_word_ariths unat_ucast_u32_u64)
  have lo: "unat (ucast ?p :: u32) = ?n mod 2 ^ 32" by (simp add: unsigned_ucast_eq p take_bit_eq_mod)
  have hi: "unat (drop_bit 32 ?p) = ?n div 2 ^ 32" by (simp only: unat_drop p)
  then have "unat (drop_bit 32 ?p) < 2 ^ 32" using n by simp
  from "2.IH" [OF refl this] have
    "big_value (mul_limbs m carry (limb # ls)) = ?n mod 2 ^ 32 + 2 ^ 32 * (big_value ls * unat m + ?n div 2 ^ 32)"
    by (simp add: Let_def lo hi del: power_numeral_even)
  also have "\<dots> = ?n + 2 ^ 32 * (big_value ls * unat m)"
    using mod_mult_div_eq [of ?n "2 ^ 32"] by (simp add: algebra_simps)
  finally show ?case by (simp add: algebra_simps)
qed

lemma big_value_mul_small [simp]: "big_value (mul_small m b) = big_value b * unat m"
  by (simp add: mul_small_def mul_limbs_value)

lemma big_value_mul_pow10 [simp]: "big_value (mul_pow10 n b) = big_value b * 10 ^ n"
  by (induction n) (simp_all add: mul_pow10_def)

text \<open>A shift by less than a limb, the bits of the carry in the low places.\<close>

lemma shl_limb:
  assumes "r < 32" and "unat carry < 2 ^ r"
  shows "unat (push_bit r limb OR carry :: u32) = unat limb * 2 ^ r mod 2 ^ 32 + unat carry"
proof -
  have "unat (push_bit r limb OR carry) = take_bit 32 (push_bit r (unat limb)) OR unat carry"
    by (simp add: unsigned_or_eq unsigned_push_bit_eq)
  also have "\<dots> = take_bit 32 (push_bit r (unat limb)) + unat carry"
  proof (rule disjunctive_add_eq_or [symmetric])
    have "take_bit r (unat carry) = unat carry" using assms(2) by (simp add: take_bit_nat_eq_self)
    then have "bit (unat carry) n \<Longrightarrow> n < r" for n by (metis bit_take_bit_iff)
    then show "take_bit 32 (push_bit r (unat limb)) AND unat carry = 0"
      by (fastforce intro!: bit_eqI simp: bit_and_iff bit_take_bit_iff bit_push_bit_iff_nat)
  qed
  finally show ?thesis by (simp add: take_bit_eq_mod push_bit_eq_mult)
qed

lemma shl_limbs_value:
  "r < 32 \<Longrightarrow> unat carry < 2 ^ r \<Longrightarrow> big_value (shl_limbs r carry b) = big_value b * 2 ^ r + unat carry"
proof (induction r carry b rule: shl_limbs.induct)
  case (1 r carry)
  then show ?case by (auto simp: word_gt_0)
next
  case (2 r carry limb ls)
  let ?c = "if r = 0 then 0 else drop_bit (32 - r) limb"
  have u: "unat limb < 2 ^ (32 - r) * 2 ^ r"
    using unat_u32 [of limb] "2.prems" by (simp flip: power_add)
  have c: "unat ?c = unat limb * 2 ^ r div 2 ^ 32"
  proof (cases "r = 0")
    case False
    have "unat limb * 2 ^ r div 2 ^ 32 = unat limb * 2 ^ r div (2 ^ r * 2 ^ (32 - r))"
      using "2.prems"(1) by (simp flip: power_add)
    also have "\<dots> = unat limb div 2 ^ (32 - r)" by (simp add: div_mult2_eq)
    finally show ?thesis using False by (simp add: unat_drop)
  qed (use unat_u32 [of limb] in simp)
  also have "\<dots> < 2 ^ r"
    using u "2.prems"(1) by (simp add: less_mult_imp_div_less mult.commute flip: power_add)
  finally have "unat ?c < 2 ^ r" .
  from "2.IH" [OF "2.prems"(1) this] have
    "big_value (shl_limbs r carry (limb # ls)) =
      unat limb * 2 ^ r mod 2 ^ 32 + unat carry + 2 ^ 32 * (big_value ls * 2 ^ r + unat limb * 2 ^ r div 2 ^ 32)"
    by (simp only: shl_limbs.simps big_value.simps shl_limb [OF "2.prems"] c)
  also have "\<dots> = unat limb * 2 ^ r + unat carry + 2 ^ 32 * (big_value ls * 2 ^ r)"
    using mod_mult_div_eq [of "unat limb * 2 ^ r" "2 ^ 32"] by (simp add: distrib_left)
  finally show ?case by (simp add: algebra_simps)
qed

lemma big_value_shl [simp]: "big_value (shl n b) = big_value b * 2 ^ n"
proof -
  have "(2 :: nat) ^ n = 2 ^ (32 * (n div 32)) * 2 ^ (n mod 32)" by (simp flip: power_add)
  then show ?thesis
    by (simp add: shl_def big_value_append shl_limbs_value del: power_numeral_even)
qed

lemma trim_last: "trim b = [] \<or> last (trim b) \<noteq> 0"
  by (induction b rule: rev_induct) (auto simp: trim_def)

lemma big_value_bound: "big_value b < 2 ^ (32 * length b)"
proof (induction b)
  case (Cons l b)
  have "big_value b + 1 \<le> 2 ^ (32 * length b)" using Cons by simp
  then have "2 ^ 32 * (big_value b + 1) \<le> 2 ^ 32 * 2 ^ (32 * length b)" by (rule mult_left_mono) simp
  with unat_u32 [of l] show ?case by (simp add: power_add)
qed simp

lemma lex_cmp_value:
  "length as = length bs \<Longrightarrow> lex_cmp (rev as) (rev bs) = cmp_of (big_value as) (big_value bs)"
proof (induction as arbitrary: bs rule: rev_induct)
  case (snoc a as)
  then obtain b bs' where b: "bs = bs' @ [b]" by (cases bs rule: rev_exhaust) auto
  let ?w = "2 ^ (32 * length as) :: nat"
  have len: "length as = length bs'" using snoc b by simp
  have lt: "big_value as < ?w" "big_value bs' < ?w"
    using big_value_bound [of as] big_value_bound [of bs'] len by simp_all
  have less: "x + ?w * i < y + ?w * j" if "x < ?w" "i < j" for x y i j
  proof -
    have "?w * (i + 1) \<le> ?w * j" using that(2) by (intro mult_left_mono) simp_all
    with that(1) show ?thesis by simp
  qed
  have "cmp_of (big_value as + ?w * unat a) (big_value bs' + ?w * unat b) =
      then_ord (cmp_of a b) (cmp_of (big_value as) (big_value bs'))"
  proof (cases "unat a" "unat b" rule: linorder_cases)
    case lt: less
    with less [OF \<open>big_value as < ?w\<close> lt, of "big_value bs'"] show ?thesis
      by (simp add: cmp_of_def then_ord_def word_less_nat_alt)
  next
    case equal
    then have "a = b" by (simp add: word_unat_eq_iff)
    then show ?thesis by (simp add: cmp_of_def then_ord_def)
  next
    case gt: greater
    with less [OF \<open>big_value bs' < ?w\<close> gt, of "big_value as"] show ?thesis
      by (auto simp: cmp_of_def then_ord_def word_less_nat_alt)
  qed
  with snoc.IH [OF len] show ?case by (simp add: b big_value_append len)
qed simp

lemma big_value_longer:
  assumes "b \<noteq> []" and "last b \<noteq> 0" and "length a < length b"
  shows "big_value a < big_value b"
proof -
  have "b = butlast b @ [last b]" using assms(1) by simp
  then have "big_value b = big_value (butlast b) + 2 ^ (32 * (length b - 1)) * unat (last b)"
    by (metis big_value.simps big_value_append add.right_neutral length_butlast mult_0_right)
  moreover have "unat (last b) \<ge> 1" using assms(2) by (simp add: Suc_le_eq unat_gt_0)
  ultimately have "2 ^ (32 * (length b - 1)) \<le> big_value b" by (simp add: trans_le_add2)
  moreover have "(2 :: nat) ^ (32 * length a) \<le> 2 ^ (32 * (length b - 1))"
    using assms(3) by (intro power_increasing) auto
  ultimately show ?thesis using big_value_bound [of a] by linarith
qed

lemma big_cmp_value: "big_cmp a b = cmp_of (big_value a) (big_value b)"
proof -
  have "cmp_of (big_value (trim a)) (big_value (trim b)) = big_cmp a b"
  proof (cases "length (trim a)" "length (trim b)" rule: linorder_cases)
    case less
    then have "big_value (trim a) < big_value (trim b)"
      using trim_last [of b] by (intro big_value_longer) auto
    with less show ?thesis
      using cmp_of_iff(1) [THEN iffD2, OF \<open>big_value (trim a) < big_value (trim b)\<close>]
      by (simp add: big_cmp_def Let_def then_ord_def cmp_of_def)
  next
    case equal
    then show ?thesis by (simp add: big_cmp_def Let_def then_ord_def lex_cmp_value)
  next
    case greater
    then have "big_value (trim b) < big_value (trim a)"
      using trim_last [of a] by (intro big_value_longer) auto
    with greater show ?thesis by (simp add: big_cmp_def Let_def then_ord_def cmp_of_def)
  qed
  then show ?thesis by simp
qed

subsection \<open>Exact fractions\<close>

text \<open>
  \<^verbatim>\<open>rust_decimal::Decimal\<close> as its \<^verbatim>\<open>mantissa()\<close> (96 bits and a sign) and its \<^verbatim>\<open>scale()\<close> (at most
  28). \<^verbatim>\<open>normalize()\<close> is the library's; a parameter with its documented behaviour: the value
  without the trailing zeros of its fraction.
\<close>

record decimal =
  d_mantissa :: int
  d_scale :: nat

definition decimal_ok :: "decimal \<Rightarrow> bool" where
  "decimal_ok d \<longleftrightarrow> \<bar>d_mantissa d\<bar> < 2 ^ 96 \<and> d_scale d \<le> 28"

definition decimal_value :: "decimal \<Rightarrow> rat" where
  "decimal_value d = of_int (d_mantissa d) / 10 ^ d_scale d"

definition normalizes :: "(decimal \<Rightarrow> decimal) \<Rightarrow> bool" where
  "normalizes nrm \<longleftrightarrow> (\<forall>d. decimal_ok d \<longrightarrow> decimal_ok (nrm d) \<and>
     decimal_value (nrm d) = decimal_value d \<and>
     (d_scale (nrm d) = 0 \<or> \<not> 10 dvd d_mantissa (nrm d)))"

record ratio =
  r_negative :: bool
  r_num :: big
  r_pow10 :: nat
  r_pow2 :: nat

definition of_int_ratio :: "int \<Rightarrow> ratio" where
  "of_int_ratio i = \<lparr>r_negative = (i < 0), r_num = from_u128 (nat \<bar>i\<bar>), r_pow10 = 0, r_pow2 = 0\<rparr>"

definition of_decimal :: "decimal \<Rightarrow> ratio" where
  "of_decimal d = (let m = d_mantissa d in
     \<lparr>r_negative = (m < 0), r_num = from_u128 (nat \<bar>m\<bar>), r_pow10 = d_scale d, r_pow2 = 0\<rparr>)"

definition of_float :: "f64 \<Rightarrow> ratio" where
  "of_float f = (let negative = (drop_bit 63 f = 1 \<and> f_value f \<noteq> 0); m = f_mant f; e = f_pow f in
     if e \<ge> 0 then \<lparr>r_negative = negative, r_num = shl (nat e) (from_u128 m), r_pow10 = 0, r_pow2 = 0\<rparr>
     else \<lparr>r_negative = negative, r_num = from_u128 m, r_pow10 = 0, r_pow2 = nat (- e)\<rparr>)"

definition is_zero :: "ratio \<Rightarrow> bool" where
  "is_zero r \<longleftrightarrow> list_all (\<lambda>l. l = 0) (r_num r)"

definition cmp_magnitude :: "ratio \<Rightarrow> ratio \<Rightarrow> ordering" where
  "cmp_magnitude r s =
     (let left = shl (r_pow2 s) (mul_pow10 (r_pow10 s) (r_num r));
          right = shl (r_pow2 r) (mul_pow10 (r_pow10 r) (r_num s))
      in big_cmp left right)"

definition ratio_sign :: "ratio \<Rightarrow> int" where
  "ratio_sign r = (if is_zero r then 0 else if r_negative r then - 1 else 1)"

definition ratio_cmp :: "ratio \<Rightarrow> ratio \<Rightarrow> ordering" where
  "ratio_cmp r s =
     (if ratio_sign r = ratio_sign s then
        (if ratio_sign r = 0 then Equal
         else if ratio_sign r > 0 then cmp_magnitude r s
         else cmp_magnitude s r)
      else cmp_of (ratio_sign r) (ratio_sign s))"

definition ratio_value :: "ratio \<Rightarrow> rat" where
  "ratio_value r = (if r_negative r then - 1 else 1) *
     (of_nat (big_value (r_num r)) / (10 ^ r_pow10 r * 2 ^ r_pow2 r))"

lemma is_zero_iff: "is_zero r \<longleftrightarrow> big_value (r_num r) = 0"
proof -
  have "list_all (\<lambda>l. l = 0) b \<longleftrightarrow> big_value b = 0" for b
    by (induction b) (auto simp: unat_eq_zero)
  then show ?thesis by (simp add: is_zero_def)
qed

lemma cmp_magnitude_value:
  "cmp_magnitude r s = cmp_of (of_nat (big_value (r_num r)) / (10 ^ r_pow10 r * 2 ^ r_pow2 r) :: rat)
     (of_nat (big_value (r_num s)) / (10 ^ r_pow10 s * 2 ^ r_pow2 s))"
proof -
  let ?n = "big_value (r_num r)" and ?m = "big_value (r_num s)"
  let ?a = "10 ^ r_pow10 r * 2 ^ r_pow2 r :: nat" and ?b = "10 ^ r_pow10 s * 2 ^ r_pow2 s :: nat"
  have "cmp_magnitude r s = cmp_of (?n * ?b) (?m * ?a)"
    by (simp add: cmp_magnitude_def Let_def big_cmp_value mult.assoc)
  also have "\<dots> = cmp_of (of_nat ?n / of_nat ?a :: rat) (of_nat ?m / of_nat ?b)"
  proof (rule cmp_of_eqI)
    have frac: "(of_nat x / of_nat a :: rat) < of_nat y / of_nat b \<longleftrightarrow> x * b < y * a"
      if "0 < a" "0 < b" for x y a b :: nat
      using that by (simp add: divide_less_eq less_divide_eq mult.commute flip: of_nat_mult)
    show "?n * ?b < ?m * ?a \<longleftrightarrow> (of_nat ?n / of_nat ?a :: rat) < of_nat ?m / of_nat ?b"
      by (subst frac) simp_all
    show "?m * ?a < ?n * ?b \<longleftrightarrow> (of_nat ?m / of_nat ?b :: rat) < of_nat ?n / of_nat ?a"
      by (subst frac) simp_all
  qed
  finally show ?thesis by simp
qed

lemma sign_cmp:
  fixes m n :: rat
  assumes "0 \<le> m" and "0 \<le> n"
  defines "sg \<equiv> \<lambda>neg (x :: rat). if x = 0 then 0 else if neg then - 1 else (1 :: int)"
  shows "(if sg p m = sg q n then
       (if sg p m = 0 then Equal else if sg p m > 0 then cmp_of m n else cmp_of n m)
     else cmp_of (sg p m) (sg q n)) = cmp_of ((if p then - 1 else 1) * m) ((if q then - 1 else 1) * n)"
  using assms(1,2) by (cases p; cases q) (auto simp: sg_def cmp_of_def)

lemma ratio_cmp_value: "ratio_cmp r s = cmp_of (ratio_value r) (ratio_value s)"
proof -
  let ?m = "\<lambda>r. of_nat (big_value (r_num r)) / (10 ^ r_pow10 r * 2 ^ r_pow2 r) :: rat"
  have z: "is_zero r \<longleftrightarrow> ?m r = 0" for r by (simp add: is_zero_iff)
  have "0 \<le> ?m r" "0 \<le> ?m s" by simp_all
  from sign_cmp [OF this, of "r_negative r" "r_negative s"] show ?thesis
    unfolding ratio_cmp_def ratio_sign_def cmp_magnitude_value z ratio_value_def .
qed

lemma ratio_values:
  "ratio_value (of_int_ratio i) = of_int i"
  "ratio_value (of_decimal d) = decimal_value d"
  "ratio_value (of_float f) = f_value f"
proof -
  have a: "(if i < 0 then - 1 else 1) * of_nat (nat \<bar>i\<bar>) = (of_int i :: rat)" for i :: int
    by (simp flip: of_int_minus)
  show "ratio_value (of_int_ratio i) = of_int i"
    using a [of i] by (simp add: ratio_value_def of_int_ratio_def)
  show "ratio_value (of_decimal d) = decimal_value d"
    using a [of "d_mantissa d"] by (simp add: ratio_value_def of_decimal_def Let_def decimal_value_def)
  show "ratio_value (of_float f) = f_value f"
  proof (cases "f_value f = 0")
    case True
    then have "f_mant f = 0" by (simp add: f_value_def split: if_splits)
    with True show ?thesis by (simp add: ratio_value_def of_float_def Let_def)
  next
    case False
    then show ?thesis
      by (simp add: ratio_value_def of_float_def Let_def f_neg_def f_value_def [of f])
  qed
qed

text \<open>\<^verbatim>\<open>doc::Num\<close>, \<^verbatim>\<open>ratio\<close> and \<^verbatim>\<open>cmp_num\<close>.\<close>

datatype dnum = NumInt int | NumFloat f64 | NumDecimal decimal

fun ratio_of :: "dnum \<Rightarrow> ratio" where
  "ratio_of (NumInt i) = of_int_ratio i"
| "ratio_of (NumFloat f) = of_float f"
| "ratio_of (NumDecimal d) = of_decimal d"

fun cmp_int_float :: "int \<Rightarrow> f64 \<Rightarrow> ordering" where
  "cmp_int_float i f =
     (if \<bar>f_value f\<bar> < 2 ^ 63 then
        (let whole = rat_trunc (f_value f) in
         then_ord (cmp_of i whole) (cmp_of 0 (f_value f - of_int whole)))
      else ratio_cmp (ratio_of (NumInt i)) (ratio_of (NumFloat f)))"

fun cmp_num :: "dnum \<Rightarrow> dnum \<Rightarrow> ordering" where
  "cmp_num (NumInt x) (NumInt y) = cmp_of x y"
| "cmp_num (NumFloat x) (NumFloat y) = cmp_of (f_value x) (f_value y)"
| "cmp_num (NumInt i) (NumFloat f) = cmp_int_float i f"
| "cmp_num (NumFloat f) (NumInt i) = rev_ord (cmp_int_float i f)"
| "cmp_num a b = ratio_cmp (ratio_of a) (ratio_of b)"

fun dnum_value :: "dnum \<Rightarrow> rat" where
  "dnum_value (NumInt i) = of_int i"
| "dnum_value (NumFloat f) = f_value f"
| "dnum_value (NumDecimal d) = decimal_value d"

lemma ratio_value_of: "ratio_value (ratio_of n) = dnum_value n"
  by (cases n) (simp_all add: ratio_values)

lemma cmp_int_float_value: "cmp_int_float i f = cmp_of (of_int i) (f_value f)"
  by (simp add: Let_def trunc_cmp ratio_cmp_value ratio_values)

lemma cmp_num_value: "cmp_num a b = cmp_of (dnum_value a) (dnum_value b)"
proof (cases "(a, b)" rule: cmp_num.cases)
  case (1 x y)
  then show ?thesis by (simp add: cmp_of_def)
qed (simp_all add: cmp_int_float_value ratio_cmp_value ratio_values ratio_value_of del: cmp_int_float.simps)

subsection \<open>Hashing\<close>

text \<open>
  \<^verbatim>\<open>NumClass\<close> and \<^verbatim>\<open>num_class\<close>: what a number hashes as. \<open>strip_twos\<close> is the loop of
  \<^verbatim>\<open>float_as_decimal\<close> that makes the mantissa odd.
\<close>

datatype num_class = ClassInt int | ClassDecimal int nat | ClassFloat f64

function strip_twos :: "nat \<Rightarrow> int \<Rightarrow> nat \<times> int" where
  "strip_twos m e = (if m mod 2 = 0 \<and> m \<noteq> 0 then strip_twos (m div 2) (e + 1) else (m, e))"
  by pat_completeness auto
termination by (relation "measure fst") auto

declare strip_twos.simps [simp del]

definition float_as_decimal :: "f64 \<Rightarrow> num_class option" where
  "float_as_decimal f = (case strip_twos (f_mant f) (f_pow f) of (m, e) \<Rightarrow>
     if \<not> (1 \<le> - e \<and> - e \<le> 28) then None
     else (let k = nat (- e); mantissa = m * 5 ^ k in
       if mantissa \<ge> 2 ^ 128 then None
       else if mantissa \<ge> 2 ^ 96 then None
       else Some (ClassDecimal (if f_value f < 0 then - int mantissa else int mantissa) k)))"

fun num_class_of :: "(decimal \<Rightarrow> decimal) \<Rightarrow> dnum \<Rightarrow> num_class" where
  "num_class_of nrm (NumInt i) = ClassInt i"
| "num_class_of nrm (NumDecimal d) = (let d = nrm d in
     if d_scale d = 0 then ClassInt (d_mantissa d) else ClassDecimal (d_mantissa d) (d_scale d))"
| "num_class_of nrm (NumFloat f) =
     (if f_whole f \<and> \<bar>f_value f\<bar> < 10 ^ 38 then ClassInt (rat_trunc (f_value f))
      else case float_as_decimal f of Some c \<Rightarrow> c | None \<Rightarrow> ClassFloat f)"

text \<open>The value a class stands for, and the classes in lowest form.\<close>

fun class_value :: "num_class \<Rightarrow> rat" where
  "class_value (ClassInt i) = of_int i"
| "class_value (ClassDecimal m s) = of_int m / 10 ^ s"
| "class_value (ClassFloat f) = f_value f"

fun class_lowest :: "num_class \<Rightarrow> bool" where
  "class_lowest (ClassInt i) \<longleftrightarrow> \<bar>i\<bar> < 10 ^ 38"
| "class_lowest (ClassDecimal m s) \<longleftrightarrow> 0 < s \<and> s \<le> 28 \<and> \<bar>m\<bar> < 2 ^ 96 \<and> \<not> 10 dvd m"
| "class_lowest (ClassFloat f) \<longleftrightarrow> True"

fun is_float_class :: "num_class \<Rightarrow> bool" where
  "is_float_class (ClassFloat f) \<longleftrightarrow> True" | "is_float_class c \<longleftrightarrow> False"

lemma strip_twos_value:
  "strip_twos m e = (m', e') \<Longrightarrow> \<exists>j. m = m' * 2 ^ j \<and> e' = e + int j \<and> (m = 0 \<or> odd m')"
proof (induction m e arbitrary: m' e' rule: strip_twos.induct)
  case (1 m e)
  show ?case
  proof (cases "m mod 2 = 0 \<and> m \<noteq> 0")
    case True
    with "1.prems" have s: "strip_twos (m div 2) (e + 1) = (m', e')" by (subst (asm) strip_twos.simps) simp
    from "1.IH" [OF True s] obtain j where j: "m div 2 = m' * 2 ^ j" "e' = e + 1 + int j"
      "m div 2 = 0 \<or> odd m'" by blast
    moreover have "m = 2 * (m div 2)" using True by auto
    ultimately have "m = m' * 2 ^ Suc j" "m div 2 \<noteq> 0" using True by auto
    with j show ?thesis by (intro exI [of _ "Suc j"]) simp
  next
    case False
    with "1.prems" have "m' = m" "e' = e" by (subst (asm) strip_twos.simps; auto)+
    with False show ?thesis by (intro exI [of _ 0]) auto
  qed
qed

lemma f_mant_bound: "f_mant f < 2 ^ 53"
proof -
  have "f_frac f = take_bit 52 (unat f)"
    by (simp add: f_frac_def unsigned_and_eq take_bit_eq_mask mask_eq_exp_minus_1)
  then have "f_frac f < 2 ^ 52" using take_bit_nat_less_exp [of 52 "unat f"] by simp
  then show ?thesis by (simp add: f_mant_def)
qed

text \<open>The magnitude of a float, whichever sign its exponent has.\<close>

definition f_mag :: "f64 \<Rightarrow> rat" where
  "f_mag f = of_nat (f_mant f) * 2 powi (f_pow f)"

lemma powi_nonneg: "0 \<le> e \<Longrightarrow> x * 2 powi e = (x * 2 ^ nat e :: rat)"
  by (simp add: power_int_def)

lemma powi_neg: "e < 0 \<Longrightarrow> x * 2 powi e = (x / 2 ^ nat (- e) :: rat)"
  by (simp only: power_int_def not_le [symmetric] if_False power_inverse divide_inverse)

lemma f_value_mag: "f_value f = (if f_neg f then - 1 else 1) * f_mag f"
  by (cases "f_pow f < 0") (simp_all add: f_value_def f_mag_def powi_neg powi_nonneg)

lemma f_mag_strip:
  assumes "strip_twos (f_mant f) (f_pow f) = (m, e)"
  shows "f_mag f = of_nat m * 2 powi e" and "f_mant f = 0 \<or> odd m"
proof -
  obtain j where j: "f_mant f = m * 2 ^ j" "e = f_pow f + int j" "f_mant f = 0 \<or> odd m"
    using strip_twos_value [OF assms] by blast
  then show "f_mant f = 0 \<or> odd m" by blast
  show "f_mag f = of_nat m * 2 powi e"
    by (simp add: f_mag_def j(1,2) power_int_add)
qed

lemma f_value_zero_iff: "f_value f = 0 \<longleftrightarrow> f_mant f = 0"
  by (simp add: f_value_mag f_mag_def)

lemma f_mag_pos: "f_mant f \<noteq> 0 \<Longrightarrow> 0 < f_mag f"
  by (simp add: f_mag_def)

lemma f_neg_value: "f_mant f \<noteq> 0 \<Longrightarrow> f_value f < 0 \<longleftrightarrow> f_neg f"
  using f_mag_pos [of f] by (simp add: f_value_mag)

lemma f_mag_frac:
  assumes "strip_twos (f_mant f) (f_pow f) = (m, e)" and "f_value f \<notin> \<int>"
  shows "e < 0" and "odd m" and "f_mag f = of_nat m / 2 ^ nat (- e)"
proof -
  note s = f_mag_strip [OF assms(1)]
  have "f_mag f \<notin> \<int>" using assms(2) by (auto simp: f_value_mag)
  then show e: "e < 0"
    using s(1) powi_nonneg [of e "of_nat m"] by (cases "0 \<le> e") auto
  have "f_mant f \<noteq> 0" using assms(2) by (auto simp: f_value_zero_iff [symmetric])
  with s(2) show "odd m" by blast
  show "f_mag f = of_nat m / 2 ^ nat (- e)"
    using e by (simp add: s(1) powi_neg)
qed

text \<open>A fraction in lowest decimal form with the value of an odd number over a power of two.\<close>

lemma lowest_decimal_of_dyadic:
  fixes n :: int and m :: nat
  assumes eq: "of_int n / 10 ^ s = (of_nat m / 2 ^ k :: rat)" and "odd m" and "\<not> 10 dvd n"
    and "0 < s" and "0 < k"
  shows "s = k \<and> n = int m * 5 ^ k"
proof -
  have "of_int (n * 2 ^ k) = (of_int (int m * (2 ^ s * 5 ^ s)) :: rat)"
    using eq by (simp add: field_simps flip: power_mult_distrib)
  then have e: "n * 2 ^ k = int m * (2 ^ s * 5 ^ s)" by (simp only: of_int_eq_iff)
  have "\<not> s < k"
  proof
    assume "s < k"
    then have "(2 :: int) ^ k = 2 ^ s * 2 ^ (k - s)" by (simp flip: power_add)
    with e have "n * 2 ^ (k - s) = int m * 5 ^ s" by simp
    moreover have "even (n * 2 ^ (k - s))" using \<open>s < k\<close> by simp
    ultimately show False using \<open>odd m\<close> by (metis even_mult_iff even_of_nat even_power odd_numeral)
  qed
  moreover have "\<not> k < s"
  proof
    assume "k < s"
    then have "(2 :: int) ^ s = 2 ^ k * 2 ^ (s - k)" by (simp flip: power_add)
    with e have "n = int m * (2 ^ (s - k) * 5 ^ s)" by simp
    moreover have "(2 :: int) * 5 dvd 2 ^ (s - k) * 5 ^ s"
      using \<open>k < s\<close> \<open>0 < s\<close> by (intro mult_dvd_mono dvd_power) auto
    ultimately have "10 dvd n" by (simp add: dvd_mult)
    with assms(3) show False ..
  qed
  ultimately have "s = k" by simp
  with e show ?thesis by simp
qed

fun dnum_ok :: "dnum \<Rightarrow> bool" where
  "dnum_ok (NumInt i) \<longleftrightarrow> - (2 ^ 63) \<le> i \<and> i < 2 ^ 63"
| "dnum_ok (NumFloat f) \<longleftrightarrow> f_finite f"
| "dnum_ok (NumDecimal d) \<longleftrightarrow> decimal_ok d"

lemma rat_trunc_int: "r \<in> \<int> \<Longrightarrow> of_int (rat_trunc r) = r"
  by (auto simp: rat_trunc_def elim: Ints_cases)

lemma float_as_decimal_cases:
  assumes "f_value f \<notin> \<int>"
  obtains m k where "odd m" and "0 < k" and "\<bar>f_value f\<bar> = of_nat m / 2 ^ k"
    and "float_as_decimal f = (if k \<le> 28 \<and> m * 5 ^ k < 2 ^ 96
      then Some (ClassDecimal (if f_value f < 0 then - int (m * 5 ^ k) else int (m * 5 ^ k)) k) else None)"
proof -
  obtain m e where s: "strip_twos (f_mant f) (f_pow f) = (m, e)" by fastforce
  note f = f_mag_frac [OF s assms]
  have "\<bar>f_value f\<bar> = of_nat m / 2 ^ nat (- e)" by (simp add: f_value_mag f(3))
  moreover have "float_as_decimal f = (if nat (- e) \<le> 28 \<and> m * 5 ^ nat (- e) < 2 ^ 96
      then Some (ClassDecimal (if f_value f < 0 then - int (m * 5 ^ nat (- e)) else int (m * 5 ^ nat (- e))) (nat (- e)))
      else None)"
    using f(1) by (auto simp: float_as_decimal_def s Let_def)
  ultimately show ?thesis using f(1,2) that [of m "nat (- e)"] by simp
qed

lemma odd_not_10_dvd: "odd n \<Longrightarrow> \<not> 10 dvd (n :: int)"
  by (metis dvd_trans even_numeral)

text \<open>Every number gets a class of its own value in lowest form, a float class only when no other fits.\<close>

lemma num_class_value:
  assumes "normalizes nrm" and "dnum_ok a"
  shows "class_value (num_class_of nrm a) = dnum_value a \<and> class_lowest (num_class_of nrm a)"
proof (cases a)
  case (NumInt i)
  with assms(2) show ?thesis by (auto simp: abs_if)
next
  case (NumDecimal d)
  with assms have n: "decimal_ok (nrm d)" "decimal_value (nrm d) = decimal_value d"
    "d_scale (nrm d) = 0 \<or> \<not> 10 dvd d_mantissa (nrm d)"
    by (auto simp: normalizes_def)
  then show ?thesis by (auto simp: NumDecimal Let_def decimal_value_def decimal_ok_def)
next
  case (NumFloat f)
  show ?thesis
  proof (cases "f_value f \<in> \<int> \<and> \<bar>f_value f\<bar> < 10 ^ 38")
    case True
    then have "of_int \<bar>rat_trunc (f_value f)\<bar> < (of_int (10 ^ 38) :: rat)" by (simp add: rat_trunc_int)
    then have "\<bar>rat_trunc (f_value f)\<bar> < 10 ^ 38" by (simp only: of_int_less_iff)
    with True show ?thesis by (simp add: NumFloat rat_trunc_int)
  next
    case False
    show ?thesis
    proof (cases "f_value f \<in> \<int>")
      case True
      have "float_as_decimal f = None"
      proof (cases "strip_twos (f_mant f) (f_pow f)")
        case (Pair m e)
        have "0 \<le> e"
        proof (rule ccontr)
          assume e: "\<not> 0 \<le> e"
          have "f_mag f = of_nat m / 2 ^ nat (- e)" using f_mag_strip(1) [OF Pair] e by (simp add: powi_neg)
          also have "\<dots> \<le> of_nat m" by (simp add: divide_le_eq mult_le_cancel_left1)
          also have "m \<le> f_mant f" using strip_twos_value [OF Pair] by auto
          then have "(of_nat m :: rat) \<le> of_nat (2 ^ 53)" using f_mant_bound [of f] by (simp only: of_nat_le_iff)
          finally have "f_mag f \<le> of_nat (2 ^ 53)" .
          moreover have "0 \<le> f_mag f" by (simp add: f_mag_def)
          ultimately show False using False True by (simp add: f_value_mag split: if_splits)
        qed
        then show ?thesis by (simp add: float_as_decimal_def Pair)
      qed
      with False show ?thesis by (auto simp: NumFloat)
    next
      case frac: False
      obtain m k where mk: "odd m" "0 < k" "\<bar>f_value f\<bar> = of_nat m / 2 ^ k"
        "float_as_decimal f = (if k \<le> 28 \<and> m * 5 ^ k < 2 ^ 96
          then Some (ClassDecimal (if f_value f < 0 then - int (m * 5 ^ k) else int (m * 5 ^ k)) k) else None)"
        using float_as_decimal_cases [OF frac] by blast
      have v: "of_nat (m * 5 ^ k) / 10 ^ k = \<bar>f_value f\<bar>"
        by (simp add: mk(3) field_simps flip: power_mult_distrib)
      have "odd (int (m * 5 ^ k))" using mk(1) by simp
      then have l: "\<not> 10 dvd int (m * 5 ^ k)" by (rule odd_not_10_dvd)
      show ?thesis
      proof (cases "k \<le> 28 \<and> m * 5 ^ k < 2 ^ 96")
        case True
        then have b: "int (m * 5 ^ k) < 2 ^ 96" by (metis of_nat_less_iff of_nat_numeral of_nat_power)
        have "num_class_of nrm a = ClassDecimal (if f_value f < 0 then - int (m * 5 ^ k) else int (m * 5 ^ k)) k"
          using True frac by (simp add: NumFloat mk(4))
        with True b l v mk(2) show ?thesis by (auto simp: NumFloat)
      next
        case no: False
        then show ?thesis using frac by (auto simp: NumFloat mk(4))
      qed
    qed
  qed
qed

text \<open>Two finite floats of one value that is not 0 have the same bits.\<close>

lemma f_mant_normal: "f_exp f \<noteq> 0 \<Longrightarrow> 2 ^ 52 \<le> f_mant f"
  by (simp add: f_mant_def)

lemma f_mag_inject_le:
  assumes "f_mag f = f_mag g" and "f_mant f \<noteq> 0" and "f_pow f \<le> f_pow g"
  shows "f_pow f = f_pow g \<and> f_mant f = f_mant g"
proof -
  define d where "d = nat (f_pow g - f_pow f)"
  have p: "f_pow g = f_pow f + int d" using assms(3) by (simp add: d_def)
  have "of_nat (f_mant f) * 2 powi (f_pow f) = (of_nat (f_mant g) * 2 ^ d) * (2 powi (f_pow f) :: rat)"
    using assms(1) by (simp add: f_mag_def p power_int_add)
  then have "(of_nat (f_mant f) :: rat) = of_nat (f_mant g * 2 ^ d)" by simp
  then have m: "f_mant f = f_mant g * 2 ^ d" by (simp only: of_nat_eq_iff)
  have "d = 0"
  proof (rule ccontr)
    assume "d \<noteq> 0"
    then have "f_exp g \<noteq> 0" using p by (auto simp: f_pow_def split: if_splits)
    then have "2 ^ 52 * 2 ^ 1 \<le> f_mant g * 2 ^ d"
      using f_mant_normal [of g] \<open>d \<noteq> 0\<close> by (intro mult_mono power_increasing) auto
    with m f_mant_bound [of f] show False by simp
  qed
  with m p show ?thesis by simp
qed

lemma f_bits:
  assumes "f_neg f = f_neg g" and "f_exp f = f_exp g" and "f_frac f = f_frac g"
  shows "f = g"
proof (rule bit_word_eqI)
  fix n assume n: "n < LENGTH(64)"
  have ff: "f AND (push_bit 52 1 - 1) = g AND (push_bit 52 1 - 1)"
    using assms(3) by (simp add: f_frac_def word_unat_eq_iff)
  have fe: "drop_bit 52 f AND 0x7ff = drop_bit 52 g AND 0x7ff"
    using assms(2) by (simp add: f_exp_def word_unat_eq_iff)
  have m: "push_bit 52 1 - 1 = (mask 52 :: f64)" "0x7ff = (mask 11 :: f64)"
    by (simp_all add: mask_eq_exp_minus_1)
  consider "n < 52" | "52 \<le> n" "n < 63" | "n = 63" using n by force
  then show "bit f n \<longleftrightarrow> bit g n"
  proof cases
    case 1
    have "bit (f AND mask 52) n \<longleftrightarrow> bit (g AND mask 52) n" using ff by (simp only: m)
    with 1 show ?thesis by (simp add: bit_and_iff bit_mask_iff)
  next
    case 2
    have "bit (drop_bit 52 f AND mask 11) (n - 52) \<longleftrightarrow> bit (drop_bit 52 g AND mask 11) (n - 52)"
      using fe by (simp only: m)
    moreover have "n - 52 < 11" using 2 by simp
    ultimately show ?thesis using 2 by (simp add: bit_and_iff bit_mask_iff bit_drop_bit_eq)
  next
    case 3
    have "drop_bit 63 h = 1 \<longleftrightarrow> bit h 63" for h :: f64
    proof -
      have "unat h < 2 ^ 64" using unsigned_less [of h] by simp
      then have "unat (drop_bit 63 h) < 2" by (simp add: unat_drop)
      then have "unat (drop_bit 63 h) = unat (0 :: f64) \<or> unat (drop_bit 63 h) = unat (1 :: f64)"
        by auto
      then have "drop_bit 63 h = 0 \<or> drop_bit 63 h = 1" by (simp only: word_unat_eq_iff)
      then show ?thesis by (auto simp: bit_iff_odd_drop_bit)
    qed
    with assms(1) 3 show ?thesis by (simp add: f_neg_def)
  qed
qed

lemma f_value_inject:
  assumes "f_value f = f_value g" and "f_value f \<noteq> 0"
  shows "f = g"
proof -
  have m: "f_mant f \<noteq> 0" "f_mant g \<noteq> 0"
    using assms f_value_zero_iff [of f] f_value_zero_iff [of g] by auto
  have neg: "f_neg f = f_neg g" using f_neg_value [OF m(1)] f_neg_value [OF m(2)] assms(1) by simp
  then have "f_mag f = f_mag g" using assms(1) by (simp add: f_value_mag split: if_splits)
  then have pm: "f_pow f = f_pow g \<and> f_mant f = f_mant g"
  proof (cases "f_pow f \<le> f_pow g")
    case True
    then show ?thesis by (rule f_mag_inject_le [OF \<open>f_mag f = f_mag g\<close> m(1)])
  next
    case False
    then have "f_pow g \<le> f_pow f" by simp
    from f_mag_inject_le [OF \<open>f_mag f = f_mag g\<close> [symmetric] m(2) this] show ?thesis by simp
  qed
  have fr: "f_frac h < 2 ^ 52" for h
  proof -
    have "f_frac h = take_bit 52 (unat h)"
      by (simp add: f_frac_def unsigned_and_eq take_bit_eq_mask mask_eq_exp_minus_1)
    then show ?thesis using take_bit_nat_less_exp [of 52 "unat h"] by simp
  qed
  have "f_exp f = f_exp g \<and> f_frac f = f_frac g"
    using pm fr [of f] fr [of g] by (auto simp: f_pow_def f_mant_def split: if_splits)
  with neg show ?thesis by (intro f_bits) simp_all
qed

text \<open>Classes in lowest form are equal when their values are.\<close>

lemma decimal_not_int:
  fixes n i :: int
  assumes "of_int n / 10 ^ s = (of_int i :: rat)" and "0 < s"
  shows "10 dvd n"
proof -
  have "of_int n = (of_int (i * 10 ^ s) :: rat)" using assms(1) by (simp add: field_simps)
  then have "n = i * 10 ^ s" by (simp only: of_int_eq_iff)
  with assms(2) show ?thesis by (simp add: dvd_mult dvd_power)
qed

lemma decimal_lowest_unique:
  fixes n m :: int
  assumes "of_int n / 10 ^ s = (of_int m / 10 ^ t :: rat)" and "\<not> 10 dvd m" and "s \<le> t"
  shows "s = t \<and> n = m"
proof -
  have "of_int (n * 10 ^ (t - s)) = (of_int m :: rat)"
  proof -
    have "(10 :: rat) ^ t = 10 ^ (t - s) * 10 ^ s" using assms(3) by (simp flip: power_add)
    then show ?thesis using assms(1) by (simp add: field_simps)
  qed
  then have e: "n * 10 ^ (t - s) = m" by (simp only: of_int_eq_iff)
  have "t - s = 0"
    using assms(2) e by (metis dvd_mult dvd_power neq0_conv)
  with e assms(3) show ?thesis by simp
qed

lemma float_class_alone:
  assumes "num_class_of nrm (NumFloat f) = ClassFloat g" and "class_lowest c" and "class_value c = f_value f"
  shows "c = ClassFloat g"
proof -
  have no: "\<not> (f_value f \<in> \<int> \<and> \<bar>f_value f\<bar> < 10 ^ 38)" using assms(1) by auto
  then have dec: "float_as_decimal f \<notin> Some ` {ClassDecimal m k |m k. True}"
    using assms(1) by (auto split: option.splits)
  have fd: "float_as_decimal f = None \<or> (\<exists>m k. float_as_decimal f = Some (ClassDecimal m k))"
    by (auto simp: float_as_decimal_def Let_def split: prod.splits)
  then have g: "g = f" and none: "float_as_decimal f = None"
    using dec no assms(1) by auto
  show ?thesis
  proof (cases c)
    case (ClassInt i)
    then have v: "f_value f = of_int i" "\<bar>i\<bar> < 10 ^ 38" using assms(2,3) by simp_all
    from v(2) have "of_int \<bar>i\<bar> < (of_int (10 ^ 38) :: rat)" by (subst of_int_less_iff)
    then have "\<bar>f_value f\<bar> < 10 ^ 38" by (simp add: v(1))
    with no v(1) show ?thesis by simp
  next
    case (ClassDecimal n s)
    then have n: "of_int n / 10 ^ s = f_value f" "0 < s" "\<not> 10 dvd n" "s \<le> 28" "\<bar>n\<bar> < 2 ^ 96"
      using assms(2,3) by simp_all
    have "f_value f \<notin> \<int>" using n(1-3) decimal_not_int [of n s] by (auto elim!: Ints_cases)
    then obtain m k where mk: "odd m" "0 < k" "\<bar>f_value f\<bar> = of_nat m / 2 ^ k"
      "float_as_decimal f = (if k \<le> 28 \<and> m * 5 ^ k < 2 ^ 96
        then Some (ClassDecimal (if f_value f < 0 then - int (m * 5 ^ k) else int (m * 5 ^ k)) k) else None)"
      using float_as_decimal_cases by blast
    have "\<bar>of_int n / 10 ^ s\<bar> = (of_nat m / 2 ^ k :: rat)" using n(1) mk(3) by simp
    then have "of_int \<bar>n\<bar> / 10 ^ s = (of_nat m / 2 ^ k :: rat)" by (simp add: abs_divide)
    then have "s = k \<and> \<bar>n\<bar> = int m * 5 ^ k"
      using mk(1,2) n(2,3) by (intro lowest_decimal_of_dyadic) simp_all
    moreover from this n(5) have "int (m * 5 ^ k) < int (2 ^ 96)" by simp
    then have "m * 5 ^ k < 2 ^ 96" by (simp only: of_nat_less_iff)
    ultimately show ?thesis using mk(4) n(4) none by simp
  next
    case (ClassFloat h)
    have "f_value f \<noteq> 0" using no by auto
    with assms(3) ClassFloat g show ?thesis using f_value_inject [of h f] by simp
  qed
qed

lemma class_lowest_inject:
  assumes "class_lowest c" and "class_lowest c'" and "class_value c = class_value c'"
    and "\<not> is_float_class c" and "\<not> is_float_class c'"
  shows "c = c'"
proof (cases c)
  case (ClassInt i)
  with assms show ?thesis using decimal_not_int [of _ _ i] by (cases c') auto
next
  case (ClassDecimal n s)
  note cd = this
  then have n: "0 < s" "\<not> 10 dvd n" using assms(1) by simp_all
  show ?thesis
  proof (cases c')
    case (ClassInt i)
    with cd assms(3) have "of_int n / 10 ^ s = (of_int i :: rat)" by simp
    with decimal_not_int [of n s i] n show ?thesis by simp
  next
    case (ClassDecimal m t)
    then have m: "\<not> 10 dvd m" and eq: "of_int n / 10 ^ s = (of_int m / 10 ^ t :: rat)"
      using cd assms(2,3) by simp_all
    show ?thesis
    proof (cases "s \<le> t")
      case True
      from decimal_lowest_unique [OF eq m True] cd ClassDecimal show ?thesis by simp
    next
      case False
      then have "t \<le> s" by simp
      from decimal_lowest_unique [OF eq [symmetric] n(2) this] cd ClassDecimal show ?thesis by simp
    qed
  qed (use assms in auto)
qed (use assms in auto)

subsection \<open>Properties\<close>

text \<open>
  (C22) JSON numbers are ordered by their exact value: \<^verbatim>\<open>num::cmp\<close> on any two of the 64-bit integers
  and finite floats gives the order of the rational numbers they stand for, and no integer is
  rounded to a float on the way.
\<close>

theorem num_cmp_exact:
  assumes "number_ok a" and "number_ok b"
  shows "num_cmp a b = cmp_of (num_value a) (num_value b)"
  by (rule num_cmp_value [OF assms])

theorem num_cmp_exact_witness:
  "num_cmp (PosInt 9007199254740993) (NFloat 0x4340000000000000) = Greater"
proof -
  have ok: "number_ok (PosInt 9007199254740993)" "number_ok (NFloat 0x4340000000000000)"
    by (simp_all add: f_finite_def f_exp_def)
  have "f_value 0x4340000000000000 = 9007199254740992"
    by (simp add: f_value_def f_neg_def f_mant_def f_frac_def f_pow_def f_exp_def)
  then show ?thesis by (simp add: num_cmp_exact [OF ok])
qed

text \<open>
  Integers, floats and decimals of a typed document are compared exactly too: \<^verbatim>\<open>cmp_num\<close>, with
  its big-integer cross multiplication, is the order of their values, so it is total and
  transitive across the three kinds.
\<close>

theorem cmp_num_exact:
  "cmp_num a b = cmp_of (dnum_value a) (dnum_value b)"
  by (rule cmp_num_value)

text \<open>
  (C23) Equal numbers hash alike and different numbers hash apart: for any two numbers of the three
  kinds, \<^verbatim>\<open>num_class\<close> is the same exactly when \<^verbatim>\<open>cmp_num\<close> finds them equal. A hash index
  therefore finds \<open>1\<close>, \<open>1.0\<close> and the decimal \<open>1.00\<close> under one key.
\<close>

theorem num_class_iff_equal:
  assumes "normalizes nrm" and "dnum_ok a" and "dnum_ok b"
  shows "num_class_of nrm a = num_class_of nrm b \<longleftrightarrow> cmp_num a b = Equal"
proof
  note va = num_class_value [OF assms(1,2)] and vb = num_class_value [OF assms(1,3)]
  show "num_class_of nrm a = num_class_of nrm b \<Longrightarrow> cmp_num a b = Equal"
    using va vb by (simp add: cmp_num_value)
  assume "cmp_num a b = Equal"
  then have eq: "dnum_value a = dnum_value b" by (simp add: cmp_num_value)
  have fl: "\<exists>f. x = NumFloat f" if "is_float_class (num_class_of nrm x)" for x
    using that by (cases x) (auto simp: Let_def split: if_splits)
  have alone: "num_class_of nrm x = num_class_of nrm y"
    if x: "is_float_class (num_class_of nrm x)" and v: "dnum_value x = dnum_value y"
      and y: "dnum_ok y" for x y
  proof -
    obtain f where f: "x = NumFloat f" using fl [OF x] ..
    obtain g where g: "num_class_of nrm (NumFloat f) = ClassFloat g"
      using x f by (cases "num_class_of nrm (NumFloat f)") auto
    from float_class_alone [OF g, of "num_class_of nrm y"] num_class_value [OF assms(1) y] v f g
    show ?thesis by simp
  qed
  show "num_class_of nrm a = num_class_of nrm b"
    using alone [of a b] alone [of b a] class_lowest_inject [of "num_class_of nrm a" "num_class_of nrm b"]
      va vb eq assms(2,3) by metis
qed

function strip_zeros :: "decimal \<Rightarrow> decimal" where
  "strip_zeros d = (if d_scale d \<noteq> 0 \<and> 10 dvd d_mantissa d
     then strip_zeros \<lparr>d_mantissa = d_mantissa d div 10, d_scale = d_scale d - 1\<rparr> else d)"
  by pat_completeness auto
termination by (relation "measure d_scale") auto

declare strip_zeros.simps [simp del]

lemma strip_zeros_normalizes: "normalizes strip_zeros"
proof -
  have "decimal_ok d \<Longrightarrow> decimal_ok (strip_zeros d) \<and> decimal_value (strip_zeros d) = decimal_value d \<and>
    (d_scale (strip_zeros d) = 0 \<or> \<not> 10 dvd d_mantissa (strip_zeros d))" for d
  proof (induction d rule: strip_zeros.induct)
    case (1 d)
    show ?case
    proof (cases "d_scale d \<noteq> 0 \<and> 10 dvd d_mantissa d")
      case True
      let ?e = "\<lparr>d_mantissa = d_mantissa d div 10, d_scale = d_scale d - 1\<rparr>"
      obtain m k where m: "d_mantissa d = 10 * m" "d_scale d = Suc k"
        using True by (auto elim!: dvdE simp: gr0_conv_Suc)
      then have "decimal_ok ?e" "decimal_value ?e = decimal_value d"
        using "1.prems" by (auto simp: decimal_ok_def decimal_value_def)
      with "1.IH" [OF True] True show ?thesis by (subst (1 2 3 4) strip_zeros.simps) simp
    next
      case False
      with "1.prems" show ?thesis by (subst (1 2 3 4) strip_zeros.simps) auto
    qed
  qed
  then show ?thesis by (simp add: normalizes_def)
qed

theorem num_class_iff_equal_witness:
  "num_class_of strip_zeros (NumDecimal \<lparr>d_mantissa = 100, d_scale = 2\<rparr>) =
   num_class_of strip_zeros (NumFloat 0x3FF0000000000000)"
proof -
  let ?a = "NumDecimal \<lparr>d_mantissa = 100, d_scale = 2\<rparr>" and ?b = "NumFloat 0x3FF0000000000000"
  have ok: "dnum_ok ?a" "dnum_ok ?b" by (simp_all add: decimal_ok_def f_finite_def f_exp_def)
  have "dnum_value ?a = dnum_value ?b"
    by (simp add: decimal_value_def f_value_def f_neg_def f_mant_def f_frac_def f_pow_def f_exp_def)
  then show ?thesis
    by (simp add: num_class_iff_equal [OF strip_zeros_normalizes ok] cmp_num_value del: num_class_of.simps)
qed

text \<open>
  Sums over whole numbers are exact: after any run of whole numbers within the 64-bit range
  (integers, or floats such as \<open>1.0\<close>), the running sum is their exact total.
\<close>

theorem sum_exact:
  assumes "list_all number_ok ns" and "list_all (\<lambda>n. num_value n \<in> \<int> \<and> - (2 ^ 63) \<le> num_value n \<and> num_value n < 2 ^ 64) ns"
  shows "map_option of_int (exact_int (fold (sum_push fadd) ns sum_default)) = Some (sum_list (map num_value ns))"
proof -
  have step: "of_int (su_int (sum_push fadd n s)) = of_int (su_int s) + num_value n \<and>
      su_fractional (sum_push fadd n s) = su_fractional s"
    if "num_value n \<in> \<int> \<and> - (2 ^ 63) \<le> num_value n \<and> num_value n < 2 ^ 64" for n s
    using that exact_value [of n] by (auto simp: sum_push_def rat_trunc_int split: exact.splits)
  have "of_int (su_int (fold (sum_push fadd) ns s)) = of_int (su_int s) + sum_list (map num_value ns) \<and>
      su_fractional (fold (sum_push fadd) ns s) = su_fractional s" for s
    using assms(2) by (induction ns arbitrary: s) (simp_all add: step)
  then show ?thesis by (simp add: exact_int_def sum_default_def)
qed

theorem sum_exact_witness:
  "map_option of_int (exact_int (fold (sum_push (\<lambda>a b. a)) [PosInt 9007199254740993, NegInt (- 3)] sum_default))
     = Some (sum_list (map num_value [PosInt 9007199254740993, NegInt (- 3)]))"
  by (rule sum_exact) simp_all

end
