(* ===== verification/Doc.thy ===== *)
theory Doc
  imports Numbers
begin

text \<open>
  \<^verbatim>\<open>src/doc.rs\<close>: documents with typed values and their binary encoding \<^verbatim>\<open>KDOC\<close>. The library types
  are kept by what the source reads of them: a \<^verbatim>\<open>NaiveDate\<close> as its days since 1970-01-01, a
  \<^verbatim>\<open>DateTime<Utc>\<close> as its seconds since then and its nanoseconds (\<open>10 ^ 9\<close> and more within a leap
  second), a \<^verbatim>\<open>NaiveTime\<close> as its seconds since midnight and its nanoseconds, an \<^verbatim>\<open>IndexMap\<close> as the
  list of its members in order. Errors carry the reason, without the position the source adds.
\<close>

datatype doc =
    DNull | DBool bool | DInt i64 | DFloat f64 | DDecimal decimal | DStr rstring
  | DDate int | DDateTime int nat | DTime nat nat
  | DArray "doc list" | DObject "(rstring \<times> doc) list"

definition MAX_DEPTH :: nat where "MAX_DEPTH = 128"

fun doc_type_name :: "doc \<Rightarrow> string" where
  "doc_type_name DNull = ''null''"
| "doc_type_name (DBool _) = ''boolean''"
| "doc_type_name (DInt _) = ''int''"
| "doc_type_name (DFloat _) = ''float''"
| "doc_type_name (DDecimal _) = ''decimal''"
| "doc_type_name (DStr _) = ''string''"
| "doc_type_name (DDate _) = ''date''"
| "doc_type_name (DDateTime _ _) = ''datetime''"
| "doc_type_name (DTime _ _) = ''time''"
| "doc_type_name (DArray _) = ''array''"
| "doc_type_name (DObject _) = ''object''"

text \<open>
  What the encoding uses of the libraries \<^verbatim>\<open>chrono\<close> and \<^verbatim>\<open>rust_decimal\<close>: the ranges of dates (in
  days) and datetimes (in seconds), and the 16 bytes of a decimal. \<open>doc_lib_ok\<close>: a decimal reads
  back, its bytes start with flags that hold only the sign and a scale of at most 28.
\<close>

record doc_lib =
  date_range :: "int \<Rightarrow> bool"
  datetime_range :: "int \<Rightarrow> bool"
  dec_serialize :: "decimal \<Rightarrow> bytes"
  dec_deserialize :: "bytes \<Rightarrow> decimal"

definition decimal_flags_ok :: "u32 \<Rightarrow> bool" where
  "decimal_flags_ok flags \<longleftrightarrow> flags AND NOT 0x801F0000 = 0 \<and> unat (drop_bit 16 flags AND 0xFF) \<le> 28"

definition doc_lib_ok :: "doc_lib \<Rightarrow> bool" where
  "doc_lib_ok L \<longleftrightarrow> (\<forall>d. decimal_ok d \<longrightarrow>
     length (dec_serialize L d) = 16 \<and> dec_deserialize L (dec_serialize L d) = d \<and>
     decimal_flags_ok (le_word (take 4 (dec_serialize L d))))"

subsection \<open>Encoding\<close>

definition KDOC_VERSION :: u8 where "KDOC_VERSION = 1"
definition T_NULL :: u8 where "T_NULL = 0x00"
definition T_FALSE :: u8 where "T_FALSE = 0x01"
definition T_TRUE :: u8 where "T_TRUE = 0x02"
definition T_INT :: u8 where "T_INT = 0x03"
definition T_FLOAT :: u8 where "T_FLOAT = 0x04"
definition T_DECIMAL :: u8 where "T_DECIMAL = 0x05"
definition T_STRING :: u8 where "T_STRING = 0x06"
definition T_DATE :: u8 where "T_DATE = 0x07"
definition T_DATETIME :: u8 where "T_DATETIME = 0x08"
definition T_TIME :: u8 where "T_TIME = 0x09"
definition T_ARRAY :: u8 where "T_ARRAY = 0x0A"
definition T_OBJECT :: u8 where "T_OBJECT = 0x0B"

lemmas tag_defs = T_NULL_def T_FALSE_def T_TRUE_def T_INT_def T_FLOAT_def T_DECIMAL_def T_STRING_def
  T_DATE_def T_DATETIME_def T_TIME_def T_ARRAY_def T_OBJECT_def

function put_varint :: "u64 \<Rightarrow> bytes" where
  "put_varint n = (if n \<ge> 0x80 then (ucast n OR 0x80) # put_varint (drop_bit 7 n) else [ucast n])"
  by pat_completeness auto

termination
proof (relation "measure unat")
  fix n :: u64
  assume "0x80 \<le> n"
  then have "0x80 \<le> unat n" by (simp add: word_le_nat_alt)
  then show "(drop_bit 7 n, n) \<in> measure unat" by (simp add: unat_drop)
qed simp

declare put_varint.simps [simp del]

definition zigzag :: "i64 \<Rightarrow> u64" where
  "zigzag i = push_bit 1 i XOR signed_drop_bit 63 i"

definition unzigzag :: "u64 \<Rightarrow> i64" where
  "unzigzag z = drop_bit 1 z XOR - (z AND 1)"

definition whole_ms :: "nat \<Rightarrow> bool" where
  "whole_ms nanos \<longleftrightarrow> nanos mod 1000000 = 0 \<and> nanos < 1000000000"

fun check_at :: "nat \<Rightarrow> doc \<Rightarrow> string + unit" where
  "check_at depth d =
     (if depth > MAX_DEPTH then Inl ''a document nested too deep''
      else case d of
        DFloat f \<Rightarrow> if \<not> f_finite f then Inl ''not a finite number'' else Inr ()
      | DTime _ nanos \<Rightarrow>
          if \<not> whole_ms nanos then Inl ''a time finer than the millisecond, or a leap second'' else Inr ()
      | DDateTime _ nanos \<Rightarrow>
          if \<not> whole_ms nanos then Inl ''a datetime finer than the millisecond, or a leap second'' else Inr ()
      | DArray items \<Rightarrow> fold (\<lambda>v r. try_bind r (\<lambda>_. check_at (depth + 1) v)) items (Inr ())
      | DObject m \<Rightarrow> fold (\<lambda>kv r. try_bind r (\<lambda>_. check_at (depth + 1) (snd kv))) m (Inr ())
      | _ \<Rightarrow> Inr ())"

declare check_at.simps [simp del]

definition doc_check :: "doc \<Rightarrow> string + unit" where
  "doc_check d = check_at 1 d"

fun encode_value :: "doc_lib \<Rightarrow> doc \<Rightarrow> bytes" where
  "encode_value L DNull = [T_NULL]"
| "encode_value L (DBool b) = [if b then T_TRUE else T_FALSE]"
| "encode_value L (DInt i) = T_INT # put_varint (zigzag i)"
| "encode_value L (DFloat f) = T_FLOAT # le_bytes 8 f"
| "encode_value L (DDecimal d) = T_DECIMAL # dec_serialize L d"
| "encode_value L (DStr s) = T_STRING # put_varint (word_of_nat (str_len s)) @ as_bytes s"
| "encode_value L (DDate d) = T_DATE # le_bytes 4 (word_of_int d :: u32)"
| "encode_value L (DDateTime secs nanos) =
     T_DATETIME # le_bytes 8 (word_of_int (secs * 1000 + int (nanos div 1000000)) :: u64)"
| "encode_value L (DTime secs nanos) =
     T_TIME # le_bytes 4 (word_of_nat (secs * 1000 + nanos div 1000000) :: u32)"
| "encode_value L (DArray items) =
     T_ARRAY # put_varint (word_of_nat (length items)) @ concat (map (encode_value L) items)"
| "encode_value L (DObject m) =
     T_OBJECT # put_varint (word_of_nat (length m)) @
       concat (map (\<lambda>(k, v). put_varint (word_of_nat (str_len k)) @ as_bytes k @ encode_value L v) m)"

definition doc_encode :: "doc_lib \<Rightarrow> doc \<Rightarrow> bytes" where
  "doc_encode L d = KDOC_VERSION # encode_value L d"

subsection \<open>Reading\<close>

text \<open>\<^verbatim>\<open>Reader\<close>: a reader is a function of the bytes left; it gives a value and what is left after it.\<close>

type_synonym 'a reader = "bytes \<Rightarrow> string + 'a \<times> bytes"

definition take_bytes :: "nat \<Rightarrow> bytes reader" where
  "take_bytes n b = (if n \<le> length b then Inr (take n b, drop n b) else Inl ''cut short'')"

definition read_byte :: "u8 reader" where
  "read_byte b = try_bind (take_bytes 1 b) (\<lambda>(s, b). Inr (s ! 0, b))"

fun varint_loop :: "nat \<Rightarrow> u64 \<Rightarrow> u64 reader" where
  "varint_loop i n [] = (if i < 10 then Inl ''cut short'' else Inl ''a number too large'')"
| "varint_loop i n (c # b) =
     (if i \<ge> 10 then Inl ''a number too large''
      else if i = 9 \<and> c > 1 then Inl ''a number too large''
      else (let n = n OR push_bit (7 * i) (ucast (c AND 0x7f)) in
        if c AND 0x80 = 0 then Inr (n, b) else varint_loop (i + 1) n b))"

definition varint :: "u64 reader" where
  "varint b = varint_loop 0 0 b"

definition read_count :: "nat reader" where
  "read_count b = try_bind (varint b) (\<lambda>(n, b).
     if unat n \<le> length b then Inr (unat n, b) else Inl ''a length past the end'')"

definition read_text :: "rstring reader" where
  "read_text b = try_bind (read_count b) (\<lambda>(n, b). try_bind (take_bytes n b) (\<lambda>(s, b).
     case from_utf8 s of Some t \<Rightarrow> Inr (t, b) | None \<Rightarrow> Inl ''a text that is not UTF-8''))"

text \<open>The loops of \<^verbatim>\<open>value\<close> over the items of an array and the members of an object.\<close>

fun read_items :: "'a reader \<Rightarrow> nat \<Rightarrow> 'a list reader" where
  "read_items r 0 b = Inr ([], b)"
| "read_items r (Suc n) b =
     try_bind (r b) (\<lambda>(v, b). try_bind (read_items r n b) (\<lambda>(vs, b). Inr (v # vs, b)))"

fun read_members :: "'a reader \<Rightarrow> nat \<Rightarrow> (rstring \<times> 'a) list \<Rightarrow> (rstring \<times> 'a) list reader" where
  "read_members r 0 m b = Inr (m, b)"
| "read_members r (Suc n) m b =
     try_bind (read_text b) (\<lambda>(k, b). try_bind (r b) (\<lambda>(v, b).
       if k \<in> fst ` set m then Inl ''a member given twice''
       else read_members r n (m @ [(k, v)]) b))"

text \<open>
  \<^verbatim>\<open>Reader::value\<close>. Its \<^verbatim>\<open>depth\<close> counts up from 1 and is refused beyond \<open>MAX_DEPTH\<close>; \<open>left\<close> is
  \<open>MAX_DEPTH + 1 - depth\<close>, the levels that are left.
\<close>

primrec read_value :: "doc_lib \<Rightarrow> nat \<Rightarrow> doc reader" where
  "read_value L 0 = (\<lambda>b. Inl ''nesting deeper than 128'')"
| "read_value L (Suc left) = (\<lambda>b. try_bind (read_byte b) (\<lambda>(t, b).
     if t = T_NULL then Inr (DNull, b)
     else if t = T_FALSE then Inr (DBool False, b)
     else if t = T_TRUE then Inr (DBool True, b)
     else if t = T_INT then try_bind (varint b) (\<lambda>(z, b). Inr (DInt (unzigzag z), b))
     else if t = T_FLOAT then try_bind (take_bytes 8 b) (\<lambda>(s, b).
       let f = le_word s in if \<not> f_finite f then Inl ''a float that is not finite'' else Inr (DFloat f, b))
     else if t = T_DECIMAL then try_bind (take_bytes 16 b) (\<lambda>(raw, b).
       if \<not> decimal_flags_ok (le_word (take 4 raw)) then Inl ''a decimal with a wrong scale''
       else Inr (DDecimal (dec_deserialize L raw), b))
     else if t = T_STRING then try_bind (read_text b) (\<lambda>(s, b). Inr (DStr s, b))
     else if t = T_DATE then try_bind (take_bytes 4 b) (\<lambda>(s, b).
       let days = sint (le_word s :: u32) in
       if date_range L days then Inr (DDate days, b) else Inl ''a date out of range'')
     else if t = T_DATETIME then try_bind (take_bytes 8 b) (\<lambda>(s, b).
       let ms = sint (le_word s :: u64) in
       if datetime_range L (ms div 1000) then Inr (DDateTime (ms div 1000) (nat (ms mod 1000) * 1000000), b)
       else Inl ''a datetime out of range'')
     else if t = T_TIME then try_bind (take_bytes 4 b) (\<lambda>(s, b).
       let ms = unat (le_word s :: u32) in
       if ms < 86400000 then Inr (DTime (ms div 1000) (ms mod 1000 * 1000000), b)
       else Inl ''a time out of range'')
     else if t = T_ARRAY then try_bind (read_count b) (\<lambda>(n, b).
       try_bind (read_items (read_value L left) n b) (\<lambda>(vs, b). Inr (DArray vs, b)))
     else if t = T_OBJECT then try_bind (read_count b) (\<lambda>(n, b).
       try_bind (read_members (read_value L left) n [] b) (\<lambda>(m, b). Inr (DObject m, b)))
     else Inl ''an unknown type''))"

definition doc_decode :: "doc_lib \<Rightarrow> bytes \<Rightarrow> string + doc" where
  "doc_decode L bs =
     (case read_byte bs of
        Inl _ \<Rightarrow> Inl ''an empty document''
      | Inr (version, b) \<Rightarrow>
          if version \<noteq> KDOC_VERSION then Inl ''a document of an encoding version this KivaDB does not read''
          else try_bind (read_value L MAX_DEPTH b) (\<lambda>(d, b).
            if b \<noteq> [] then Inl ''bytes after the document'' else Inr d))"

subsection \<open>Round trip\<close>

lemma read_byte_Cons [simp]: "read_byte (x # b) = Inr (x, b)"
  by (simp add: read_byte_def take_bytes_def)

lemma take_bytes_append: "length s = n \<Longrightarrow> take_bytes n (s @ b) = Inr (s, b)"
  by (simp add: take_bytes_def)

lemma bit_0x80: "bit (0x80 :: u8) k \<longleftrightarrow> k = 7"
  using bit_exp_iff [of 7 k, where 'a = u8] by auto

lemma bit_0x80_int: "bit (0x80 :: int) k \<longleftrightarrow> k = 7"
  using bit_exp_iff [of 7 k, where 'a = int] by auto

lemma varint_byte_more:
  assumes "0x80 \<le> (n :: u64)"
  shows "ucast ((ucast n OR 0x80 :: u8) AND 0x7f) = n AND 0x7f" "(ucast n OR 0x80 :: u8) AND 0x80 \<noteq> 0"
proof -
  have m: "(0x7f :: u8) = mask 7" "(0x7f :: u64) = mask 7"
    by (simp_all add: mask_eq_exp_minus_1)
  show "ucast ((ucast n OR 0x80 :: u8) AND 0x7f) = n AND 0x7f"
    unfolding m by (rule bit_word_eqI) (auto simp: bit_simps bit_0x80 bit_0x80_int)
  have "bit ((ucast n OR 0x80 :: u8) AND 0x80) 7" by (simp add: bit_simps bit_0x80 bit_0x80_int)
  then show "(ucast n OR 0x80 :: u8) AND 0x80 \<noteq> 0" by auto
qed

lemma varint_byte_last:
  assumes "\<not> 0x80 \<le> (n :: u64)"
  shows "ucast ((ucast n :: u8) AND 0x7f) = n" "(ucast n :: u8) AND 0x80 = 0"
    "unat (ucast n :: u8) = unat n"
proof -
  have n: "unat n < 0x80" using assms by (simp add: word_le_nat_alt)
  then have b: "bit n k \<Longrightarrow> k < 7" for k
  proof -
    assume "bit n k"
    then have "bit (unat n) k" by (simp add: bit_unsigned_iff)
    moreover have "take_bit 7 (unat n) = unat n" using n by (simp add: take_bit_nat_eq_self)
    ultimately show "k < 7" by (metis bit_take_bit_iff)
  qed
  have m: "(0x7f :: u8) = mask 7" by (simp add: mask_eq_exp_minus_1)
  show "ucast ((ucast n :: u8) AND 0x7f) = n"
    unfolding m using b by (fastforce intro!: bit_word_eqI simp: bit_simps)
  show "(ucast n :: u8) AND 0x80 = 0"
  proof (rule bit_word_eqI)
    fix k
    show "bit ((ucast n :: u8) AND 0x80) k \<longleftrightarrow> bit (0 :: u8) k"
      using b [of 7] by (auto simp: bit_and_iff bit_ucast_iff bit_0x80 bit_0x80_int)
  qed
  show "unat (ucast n :: u8) = unat n"
    using n by (simp add: unsigned_ucast_eq take_bit_nat_eq_self)
qed

lemma varint_loop_put:
  "i < 10 \<Longrightarrow> unat n * 2 ^ (7 * i) < 2 ^ 64 \<Longrightarrow>
    varint_loop i acc (put_varint n @ b) = Inr (acc OR push_bit (7 * i) n, b)"
proof (induction n arbitrary: i acc rule: put_varint.induct)
  case (1 n)
  show ?case
  proof (cases "0x80 \<le> n")
    case True
    then have n: "0x80 \<le> unat n" by (simp add: word_le_nat_alt)
    have "i < 9"
    proof (rule ccontr)
      assume "\<not> i < 9"
      then have "i = 9" using "1.prems"(1) by simp
      with "1.prems"(2) n show False by simp
    qed
    have "unat (drop_bit 7 n) * 2 ^ 7 \<le> unat n" by (simp add: unat_drop)
    then have "unat (drop_bit 7 n) * 2 ^ (7 * (i + 1)) \<le> unat n * 2 ^ (7 * i)"
      by (simp add: power_add flip: mult.assoc)
    also note "1.prems"(2)
    finally have d: "unat (drop_bit 7 n) * 2 ^ (7 * (i + 1)) < 2 ^ 64" .
    let ?acc = "acc OR push_bit (7 * i) (n AND 0x7f)"
    have "varint_loop i acc (put_varint n @ b) = varint_loop (i + 1) ?acc (put_varint (drop_bit 7 n) @ b)"
      using \<open>i < 9\<close> True varint_byte_more [OF True] by (subst put_varint.simps) (simp add: Let_def)
    also have "\<dots> = Inr (?acc OR push_bit (7 * (i + 1)) (drop_bit 7 n), b)"
      using \<open>i < 9\<close> by (intro "1.IH" [OF True _ d]) simp
    also have "?acc OR push_bit (7 * (i + 1)) (drop_bit 7 n) = acc OR push_bit (7 * i) n"
    proof (rule bit_word_eqI)
      have m: "(0x7f :: u64) = mask 7" by (simp add: mask_eq_exp_minus_1)
      fix k assume "k < LENGTH(64)"
      show "bit (?acc OR push_bit (7 * (i + 1)) (drop_bit 7 n)) k \<longleftrightarrow> bit (acc OR push_bit (7 * i) n) k"
        unfolding m by (cases "k < 7 * i + 7") (auto simp: bit_simps)
    qed
    finally show ?thesis .
  next
    case False
    note l = varint_byte_last [OF False]
    have "\<not> (i = 9 \<and> (ucast n :: u8) > 1)"
      using "1.prems"(2) by (auto simp: word_less_nat_alt l(3))
    with False l(1,2) "1.prems"(1) show ?thesis
      by (subst put_varint.simps) (simp add: Let_def)
  qed
qed

lemma varint_put [simp]: "varint (put_varint n @ b) = Inr (n, b)"
  using varint_loop_put [of 0 n 0 b] unsigned_less [of n] by (simp add: varint_def)

lemma bit_zigzag: "bit (zigzag i) k \<longleftrightarrow> k < 64 \<and> ((0 < k \<and> bit i (k - 1)) \<noteq> bit i 63)"
proof -
  have "bit (push_bit 1 i) k \<longleftrightarrow> k < 64 \<and> 0 < k \<and> bit i (k - 1)"
    by (subst bit_push_bit_iff) (auto dest: bit_imp_le_length)
  moreover have "bit (signed_drop_bit 63 i) k \<longleftrightarrow> k < 64 \<and> bit i 63"
    by (cases "k = 0") (auto simp: bit_signed_drop_bit_iff dest: bit_imp_le_length)
  ultimately show ?thesis unfolding zigzag_def bit_xor_iff by blast
qed

lemma unzigzag_zigzag [simp]: "unzigzag (zigzag i) = i"
proof (rule bit_word_eqI)
  fix k assume k: "k < LENGTH(64)"
  have z: "zigzag i AND 1 = (if bit i 63 then 1 else 0)"
    by (rule bit_word_eqI) (auto simp: bit_and_iff bit_zigzag bit_1_iff)
  have d: "bit (drop_bit 1 (zigzag i)) k \<longleftrightarrow> k < 63 \<and> bit i k \<noteq> bit i 63"
    unfolding bit_drop_bit_eq comp_def bit_zigzag by auto
  have "bit (- (if bit i 63 then 1 else 0) :: u64) k \<longleftrightarrow> bit i 63" using k by (auto simp: bit_minus_1_iff)
  with d k show "bit (unzigzag (zigzag i)) k \<longleftrightarrow> bit i k"
    unfolding unzigzag_def z bit_xor_iff by (cases "k = 63") auto
qed

lemma put_varint_length: "1 \<le> length (put_varint n)"
  by (subst put_varint.simps) simp

lemma read_count_put:
  "n \<le> length b \<Longrightarrow> n < 2 ^ 64 \<Longrightarrow> read_count (put_varint (word_of_nat n) @ b) = Inr (n, b)"
  by (simp add: read_count_def unat_of_nat take_bit_nat_eq_self)

lemma read_text_put:
  "valid_str s \<Longrightarrow> str_len s < 2 ^ 64 \<Longrightarrow>
    read_text (put_varint (word_of_nat (str_len s)) @ as_bytes s @ b) = Inr (s, b)"
  by (simp add: read_text_def read_count_put take_bytes_append length_as_bytes from_utf8_as_bytes)

text \<open>
  What the types of the source guarantee of a document: texts are Unicode, dates and datetimes lie in
  the ranges of the library, whose days fit an \<^verbatim>\<open>i32\<close> and whose milliseconds an \<^verbatim>\<open>i64\<close>, the names of
  members are distinct, and lengths fit a \<^verbatim>\<open>u64\<close>.
\<close>

fun doc_wf :: "doc_lib \<Rightarrow> doc \<Rightarrow> bool" where
  "doc_wf L (DDecimal d) \<longleftrightarrow> decimal_ok d"
| "doc_wf L (DStr s) \<longleftrightarrow> valid_str s \<and> str_len s < 2 ^ 64"
| "doc_wf L (DDate d) \<longleftrightarrow> date_range L d \<and> - (2 ^ 31) \<le> d \<and> d < 2 ^ 31"
| "doc_wf L (DDateTime secs nanos) \<longleftrightarrow>
     datetime_range L secs \<and> - (2 ^ 63) \<le> secs * 1000 \<and> secs * 1000 + 999 < 2 ^ 63"
| "doc_wf L (DTime secs nanos) \<longleftrightarrow> secs < 86400"
| "doc_wf L (DArray items) \<longleftrightarrow> length items < 2 ^ 64 \<and> (\<forall>v \<in> set items. doc_wf L v)"
| "doc_wf L (DObject m) \<longleftrightarrow> length m < 2 ^ 64 \<and> distinct (map fst m) \<and>
     (\<forall>kv \<in> set m. valid_str (fst kv) \<and> str_len (fst kv) < 2 ^ 64 \<and> doc_wf L (snd kv))"
| "doc_wf L d \<longleftrightarrow> True"

lemma fold_try_bind:
  "fold (\<lambda>v r. try_bind r (\<lambda>_. f v)) xs r = Inr () \<longleftrightarrow> r = Inr () \<and> (\<forall>v \<in> set xs. f v = Inr ())"
  by (induction xs arbitrary: r) (auto simp: try_bind_def split: sum.splits)

lemma check_at_depth: "check_at depth d = Inr () \<Longrightarrow> depth \<le> MAX_DEPTH"
  by (subst (asm) check_at.simps) (auto split: if_splits)

lemma check_at_items:
  "check_at depth (DArray items) = Inr () \<Longrightarrow> v \<in> set items \<Longrightarrow> check_at (depth + 1) v = Inr ()"
  "check_at depth (DObject m) = Inr () \<Longrightarrow> kv \<in> set m \<Longrightarrow> check_at (depth + 1) (snd kv) = Inr ()"
  "check_at depth (DFloat f) = Inr () \<Longrightarrow> f_finite f"
  "check_at depth (DTime ss nanos) = Inr () \<Longrightarrow> whole_ms nanos"
  "check_at depth (DDateTime us nanos) = Inr () \<Longrightarrow> whole_ms nanos"
  by (subst (asm) check_at.simps; auto simp: fold_try_bind split: if_splits)+

lemma encode_value_length: "1 \<le> length (encode_value L d)"
  by (cases d) auto

lemma length_concat_le: "(\<And>x. x \<in> set xs \<Longrightarrow> 1 \<le> length (f x)) \<Longrightarrow> length xs \<le> length (concat (map f xs))"
proof (induction xs)
  case (Cons a xs)
  then have "1 \<le> length (f a)" "length xs \<le> length (concat (map f xs))" by simp_all
  then show ?case by simp
qed simp

lemma read_items_concat:
  "(\<And>v b. v \<in> set vs \<Longrightarrow> r (enc v @ b) = Inr (v, b)) \<Longrightarrow>
    read_items r (length vs) (concat (map enc vs) @ b) = Inr (vs, b)"
  by (induction vs) simp_all

definition enc_member :: "doc_lib \<Rightarrow> rstring \<times> doc \<Rightarrow> bytes" where
  "enc_member L kv = put_varint (word_of_nat (str_len (fst kv))) @ as_bytes (fst kv) @ encode_value L (snd kv)"

lemma read_members_concat:
  "(\<And>kv b. kv \<in> set m \<Longrightarrow> r (encode_value L (snd kv) @ b) = Inr (snd kv, b)) \<Longrightarrow>
    \<forall>kv \<in> set m. valid_str (fst kv) \<and> str_len (fst kv) < 2 ^ 64 \<Longrightarrow>
    distinct (map fst (acc @ m)) \<Longrightarrow>
    read_members r (length m) acc (concat (map (enc_member L) m) @ b) = Inr (acc @ m, b)"
proof (induction m arbitrary: acc)
  case (Cons kv m)
  have "fst kv \<notin> fst ` set acc" using Cons.prems(3) by auto
  with Cons.prems(1) [of kv] Cons.prems(2) Cons.IH [of "acc @ [kv]"] Cons.prems show ?case
    by (simp add: enc_member_def read_text_put)
qed simp

lemma encode_object:
  "encode_value L (DObject m) =
     T_OBJECT # put_varint (word_of_nat (length m)) @ concat (map (enc_member L) m)"
  by (simp add: enc_member_def [abs_def] split_def)

lemma sint_word_of_int_32: "- (2 ^ 31) \<le> i \<Longrightarrow> i < 2 ^ 31 \<Longrightarrow> sint (word_of_int i :: u32) = i"
  by (simp add: signed_of_int signed_take_bit_int_eq_self)

lemma sint_word_of_int_64: "- (2 ^ 63) \<le> i \<Longrightarrow> i < 2 ^ 63 \<Longrightarrow> sint (word_of_int i :: u64) = i"
  by (simp add: signed_of_int signed_take_bit_int_eq_self)

lemma millis:
  fixes secs :: int
  assumes "whole_ms nanos"
  shows "(secs * 1000 + int (nanos div 1000000)) div 1000 = secs"
    and "nat ((secs * 1000 + int (nanos div 1000000)) mod 1000) * 1000000 = nanos"
    and "nanos div 1000000 < 1000" and "nanos div 1000000 * 1000000 = nanos"
proof -
  obtain k where k: "nanos = k * 1000000" "k < 1000"
    using assms by (auto simp: whole_ms_def mod_eq_0_iff_dvd elim!: dvdE)
  then show "(secs * 1000 + int (nanos div 1000000)) div 1000 = secs"
    "nat ((secs * 1000 + int (nanos div 1000000)) mod 1000) * 1000000 = nanos"
    "nanos div 1000000 < 1000" "nanos div 1000000 * 1000000 = nanos"
    by simp_all
qed

lemma read_value_encode:
  assumes L: "doc_lib_ok L"
  shows "doc_wf L d \<Longrightarrow> check_at depth d = Inr () \<Longrightarrow>
    read_value L (Suc MAX_DEPTH - depth) (encode_value L d @ b) = Inr (d, b)"
proof (induction d arbitrary: depth b)
  case (DArray items)
  let ?r = "read_value L (MAX_DEPTH - depth)"
  have "r = ?r" if "r = read_value L (Suc MAX_DEPTH - (depth + 1))" for r using that by simp
  then have "?r (encode_value L v @ b) = Inr (v, b)" if "v \<in> set items" for v b
    using DArray.IH [OF that, of "depth + 1" b] DArray.prems check_at_items(1) [OF DArray.prems(2) that] that
    by simp
  then have "read_items ?r (length items) (concat (map (encode_value L) items) @ b) = Inr (items, b)"
    by (rule read_items_concat)
  moreover have "length items \<le> length (concat (map (encode_value L) items))"
    by (rule length_concat_le) (rule encode_value_length)
  ultimately show ?case
    using DArray.prems(1) check_at_depth [OF DArray.prems(2)]
    by (simp add: Suc_diff_le tag_defs read_count_put)
next
  case (DObject m)
  let ?r = "read_value L (MAX_DEPTH - depth)"
  have "?r (encode_value L (snd kv) @ b) = Inr (snd kv, b)" if "kv \<in> set m" for kv b
    using DObject.IH [OF that, of "snd kv" "depth + 1" b] DObject.prems(1)
      check_at_items(2) [OF DObject.prems(2) that] that
    by (cases kv) auto
  then have "read_members ?r (length m) [] (concat (map (enc_member L) m) @ b) = Inr ([] @ m, b)"
    using DObject.prems(1) by (intro read_members_concat) auto
  moreover have "length m \<le> length (concat (map (enc_member L) m))"
    using encode_value_length by (intro length_concat_le) (simp add: enc_member_def trans_le_add2)
  ultimately show ?case
    using DObject.prems(1) check_at_depth [OF DObject.prems(2)]
    unfolding encode_object by (simp add: Suc_diff_le tag_defs read_count_put)
next
  case (DDecimal d)
  with L have "length (dec_serialize L d) = 16" "dec_deserialize L (dec_serialize L d) = d"
    "decimal_flags_ok (le_word (take 4 (dec_serialize L d)))"
    by (simp_all add: doc_lib_ok_def)
  with check_at_depth [OF DDecimal.prems(2)] show ?case
    by (simp add: Suc_diff_le tag_defs take_bytes_append)
next
  case (DDateTime secs nanos)
  have w: "whole_ms nanos" using check_at_items(5) [OF DDateTime.prems(2)] .
  note m = millis [OF w]
  have "sint (word_of_int (secs * 1000 + int (nanos div 1000000)) :: u64) =
      secs * 1000 + int (nanos div 1000000)"
    using DDateTime.prems(1) m(3) by (intro sint_word_of_int_64) auto
  with DDateTime.prems(1) check_at_depth [OF DDateTime.prems(2)] m(1,2) [of secs] m(4) show ?case
    by (simp add: Suc_diff_le tag_defs take_bytes_append le_word_le_bytes Let_def del: of_int_add)
next
  case (DTime secs nanos)
  have w: "whole_ms nanos" using check_at_items(4) [OF DTime.prems(2)] .
  note m = millis [OF w]
  have ms: "secs * 1000 + nanos div 1000000 < 86400000" using DTime.prems(1) m(3) by simp
  then have u: "unat (word_of_nat (secs * 1000 + nanos div 1000000) :: u32) = secs * 1000 + nanos div 1000000"
    by (simp add: unat_of_nat take_bit_nat_eq_self del: of_nat_add)
  have "(secs * 1000 + nanos div 1000000) div 1000 = secs"
    "(secs * 1000 + nanos div 1000000) mod 1000 * 1000000 = nanos"
    using m(2) [of "int secs"] m(3) by (simp_all add: nat_mod_distrib flip: of_nat_mult of_nat_add)
  with u ms check_at_depth [OF DTime.prems(2)] show ?case
    by (simp add: Suc_diff_le tag_defs take_bytes_append le_word_le_bytes Let_def del: of_nat_add)
next
  case (DFloat f)
  with check_at_depth [OF DFloat.prems(2)] check_at_items(3) [OF DFloat.prems(2)] show ?case
    by (simp add: Suc_diff_le tag_defs take_bytes_append le_word_le_bytes Let_def)
next
  case (DDate d)
  with check_at_depth [OF DDate.prems(2)] sint_word_of_int_32 [of d] show ?case
    by (simp add: Suc_diff_le tag_defs take_bytes_append le_word_le_bytes Let_def)
next
  case (DStr s)
  with check_at_depth [OF DStr.prems(2)] show ?case by (simp add: Suc_diff_le tag_defs read_text_put)
qed (use check_at_depth in \<open>fastforce simp: Suc_diff_le tag_defs\<close>)+

text \<open>
  (C25) \<^verbatim>\<open>KDOC\<close> loses nothing: a document that \<^verbatim>\<open>check\<close> accepts is read back from its bytes exactly as
  it was, every type and the order of members included; and the same bytes with anything after
  them are refused.
\<close>

theorem kdoc_roundtrip:
  assumes "doc_lib_ok L" and "doc_wf L d" and "doc_check d = Inr ()"
  shows "doc_decode L (doc_encode L d) = Inr d \<and>
    doc_decode L (doc_encode L d @ x # xs) = Inl ''bytes after the document''"
proof -
  have r: "read_value L MAX_DEPTH (encode_value L d @ b) = Inr (d, b)" for b
    using read_value_encode [OF assms(1,2), of 1 b] assms(3) by (simp add: doc_check_def)
  from r [of "[]"] r [of "x # xs"] show ?thesis by (simp add: doc_decode_def doc_encode_def)
qed

text \<open>A decimal as the library writes it: the flags, then the 96 bits of its mantissa.\<close>

definition plain_lib :: doc_lib where
  "plain_lib = \<lparr>date_range = (\<lambda>d. - 96465292 \<le> d \<and> d \<le> 95026236),
     datetime_range = (\<lambda>s. - 8334601228800 \<le> s \<and> s \<le> 8210266876799),
     dec_serialize = (\<lambda>d. le_bytes 4 ((if d_mantissa d < 0 then 0x80000000 else 0) OR
         push_bit 16 (word_of_nat (d_scale d)) :: u32) @ le_bytes 12 (word_of_int \<bar>d_mantissa d\<bar> :: 96 word)),
     dec_deserialize = (\<lambda>b. let flags = le_word (take 4 b) :: u32; m = uint (le_word (drop 4 b) :: 96 word)
       in \<lparr>d_mantissa = (if bit flags 31 then - m else m), d_scale = unat (drop_bit 16 flags AND 0xFF)\<rparr>)\<rparr>"

lemma decimal_flags:
  fixes neg :: bool and n :: nat
  assumes "n \<le> 28"
  defines "w \<equiv> (if neg then 0x80000000 else 0) OR push_bit 16 (word_of_nat n) :: u32"
  shows "bit w 31 = neg" and "unat (drop_bit 16 w AND 0xFF) = n" and "decimal_flags_ok w"
proof -
  have n: "n \<in> set [0..<29]" using assms(1) by auto
  have upt: "[0..<29] = [0, 1, 2, 3, 4, 5, 6, 7, 8, 9, 10, 11, 12, 13, 14, 15, 16, 17, 18, 19, 20, 21, 22, 23, 24, 25, 26, 27, 28]"
    by code_simp
  have "list_all (\<lambda>n. let w = (if b then 0x80000000 else 0) OR push_bit 16 (word_of_nat n) :: u32 in
      bit w 31 = b \<and> unat (drop_bit 16 w AND 0xFF) = n \<and> decimal_flags_ok w) [0..<29]" for b
    unfolding upt by (cases b) (simp_all add: decimal_flags_ok_def Let_def)
  from this [of neg] n show "bit w 31 = neg" "unat (drop_bit 16 w AND 0xFF) = n" "decimal_flags_ok w"
    unfolding list_all_iff Let_def w_def by blast+
qed

lemma plain_lib_ok: "doc_lib_ok plain_lib"
proof -
  have "dec_deserialize plain_lib (dec_serialize plain_lib d) = d"
    "decimal_flags_ok (le_word (take 4 (dec_serialize plain_lib d)))" if d: "decimal_ok d" for d
  proof -
    have m: "uint (word_of_int \<bar>d_mantissa d\<bar> :: 96 word) = \<bar>d_mantissa d\<bar>"
      using d by (simp add: decimal_ok_def unsigned_of_int take_bit_int_eq_self)
    have m1: "uint (- word_of_int (d_mantissa d) :: 96 word) = - d_mantissa d" if "d_mantissa d < 0"
      using m that by simp
    have m2: "uint (word_of_int (d_mantissa d) :: 96 word) = d_mantissa d" if "\<not> d_mantissa d < 0"
      using m that by simp
    have s: "d_scale d \<le> 28" using d by (simp add: decimal_ok_def)
    note f = decimal_flags [OF s]
    show "dec_deserialize plain_lib (dec_serialize plain_lib d) = d"
      using f m1 m2 by (simp add: plain_lib_def Let_def le_word_le_bytes)
    show "decimal_flags_ok (le_word (take 4 (dec_serialize plain_lib d)))"
      using f by (simp add: plain_lib_def le_word_le_bytes)
  qed
  then show ?thesis by (simp add: doc_lib_ok_def) (simp add: plain_lib_def)
qed

theorem kdoc_roundtrip_witness:
  "doc_decode plain_lib (doc_encode plain_lib
      (DObject [(lit ''price'', DDecimal \<lparr>d_mantissa = 125050, d_scale = 2\<rparr>), (lit ''tags'', DArray [DInt (- 7), DDate 20000])])
      ) = Inr (DObject [(lit ''price'', DDecimal \<lparr>d_mantissa = 125050, d_scale = 2\<rparr>), (lit ''tags'', DArray [DInt (- 7), DDate 20000])])"
  (is "doc_decode plain_lib (doc_encode plain_lib ?d) = _")
proof -
  have "doc_wf plain_lib ?d" by (simp add: decimal_ok_def plain_lib_def valid_char_def len_utf8_def)
  moreover have "doc_check ?d = Inr ()" by (simp add: doc_check_def check_at.simps MAX_DEPTH_def)
  ultimately show ?thesis using kdoc_roundtrip [OF plain_lib_ok] by blast
qed

end
