(* ===== verification/Json.thy ===== *)
theory Json
  imports Doc
begin

text \<open>
  JSON values (\<^verbatim>\<open>serde_json::Value\<close>, an object as the list of its members in order, as the feature
  \<^verbatim>\<open>preserve_order\<close> keeps them), and the rest of \<^verbatim>\<open>src/doc.rs\<close>: the order and equality of documents,
  their arithmetic, and their plain and extended JSON forms.
\<close>

datatype json =
    JNull | JBool bool | JNumber number | JString rstring
  | JArray "json list" | JObject "(rstring \<times> json) list"

text \<open>
  The texts of decimals (\<^verbatim>\<open>rust_decimal\<close>) and of dates, datetimes and times (\<^verbatim>\<open>src/time.rs\<close>, which
  is not modelled yet), with what reads them; a datetime text of the source always carries its offset.
\<close>

record doc_texts =
  dec_text :: "decimal \<Rightarrow> rstring"
  date_text :: "int \<Rightarrow> rstring"
  datetime_text :: "int \<Rightarrow> nat \<Rightarrow> rstring"
  time_text :: "nat \<Rightarrow> nat \<Rightarrow> rstring"
  parse_leaf :: "rstring \<Rightarrow> rstring \<Rightarrow> string + doc"

text \<open>The accessors of \<^verbatim>\<open>serde_json::Value\<close>; a member that is missing reads as null.\<close>

definition json_at :: "json \<Rightarrow> string \<Rightarrow> json" where
  "json_at j name = (case j of
     JObject ms \<Rightarrow> (case map_of ms (lit name) of Some x \<Rightarrow> x | None \<Rightarrow> JNull) | _ \<Rightarrow> JNull)"

definition as_array :: "json \<Rightarrow> json list option" where
  "as_array j = (case j of JArray js \<Rightarrow> Some js | _ \<Rightarrow> None)"

definition as_str :: "json \<Rightarrow> rstring option" where
  "as_str j = (case j of JString s \<Rightarrow> Some s | _ \<Rightarrow> None)"

definition as_bool :: "json \<Rightarrow> bool option" where
  "as_bool j = (case j of JBool b \<Rightarrow> Some b | _ \<Rightarrow> None)"

definition or_default :: "'a \<Rightarrow> 'a option \<Rightarrow> 'a" where
  "or_default d x = (case x of Some y \<Rightarrow> y | None \<Rightarrow> d)"

definition json_u64 :: "json \<Rightarrow> nat option" where
  "json_u64 j = (case j of JNumber n \<Rightarrow> as_u64 n | _ \<Rightarrow> None)"

subsection \<open>Order and equality\<close>

fun as_num :: "doc \<Rightarrow> dnum option" where
  "as_num (DInt i) = Some (NumInt (sint i))"
| "as_num (DFloat f) = Some (NumFloat f)"
| "as_num (DDecimal d) = Some (NumDecimal d)"
| "as_num _ = None"

fun rank :: "doc \<Rightarrow> nat" where
  "rank DNull = 0" | "rank (DBool _) = 1" | "rank (DInt _) = 2" | "rank (DFloat _) = 2"
| "rank (DDecimal _) = 2" | "rank (DDate _) = 3" | "rank (DDateTime _ _) = 4" | "rank (DTime _ _) = 5"
| "rank (DStr _) = 6" | "rank (DArray _) = 7" | "rank (DObject _) = 7"

definition cmp_as_num :: "doc \<Rightarrow> doc \<Rightarrow> ordering" where
  "cmp_as_num a b = (case as_num a of None \<Rightarrow> Equal | Some x \<Rightarrow>
     (case as_num b of None \<Rightarrow> Equal | Some y \<Rightarrow> cmp_num x y))"

definition cmp_leaf :: "doc \<Rightarrow> doc \<Rightarrow> ordering" where
  "cmp_leaf a b = (case a of
     DBool x \<Rightarrow> (case b of DBool y \<Rightarrow> cmp_of x y | _ \<Rightarrow> cmp_as_num a b)
   | DDate x \<Rightarrow> (case b of DDate y \<Rightarrow> cmp_of x y | _ \<Rightarrow> cmp_as_num a b)
   | DDateTime s n \<Rightarrow>
       (case b of DDateTime t m \<Rightarrow> then_ord (cmp_of s t) (cmp_of n m) | _ \<Rightarrow> cmp_as_num a b)
   | DTime s n \<Rightarrow> (case b of DTime t m \<Rightarrow> then_ord (cmp_of s t) (cmp_of n m) | _ \<Rightarrow> cmp_as_num a b)
   | DStr x \<Rightarrow> (case b of DStr y \<Rightarrow> lex_cmp x y | _ \<Rightarrow> cmp_as_num a b)
   | _ \<Rightarrow> cmp_as_num a b)"

definition cmp_scalar :: "doc \<Rightarrow> doc \<Rightarrow> ordering option" where
  "cmp_scalar a b =
     (if rank a = 7 \<or> rank b = 7 then None
      else Some (then_ord (cmp_of (rank a) (rank b)) (cmp_leaf a b)))"

lemma zip_size [termination_simp]: "(a, b) \<in> set (zip x y) \<Longrightarrow> f a < Suc (size_list f x)"
  by (metis less_Suc_eq_le set_zip_leftD size_list_estimation' order_refl)

fun doc_eq :: "doc \<Rightarrow> doc \<Rightarrow> bool" where
  "doc_eq (DArray x) b \<longleftrightarrow> (case b of
     DArray y \<Rightarrow> length x = length y \<and> list_all (\<lambda>(a, b). doc_eq a b) (zip x y)
   | _ \<Rightarrow> cmp_scalar (DArray x) b = Some Equal)"
| "doc_eq (DObject x) b \<longleftrightarrow> (case b of
     DObject y \<Rightarrow> length x = length y \<and>
       list_all (\<lambda>(k, v). case map_of y k of Some w \<Rightarrow> doc_eq v w | None \<Rightarrow> False) x
   | _ \<Rightarrow> cmp_scalar (DObject x) b = Some Equal)"
| "doc_eq a b \<longleftrightarrow> cmp_scalar a b = Some Equal"

subsection \<open>Arithmetic\<close>

text \<open>
  \<^verbatim>\<open>u64_beyond_i64\<close>; \<open>nrm\<close> is \<^verbatim>\<open>Decimal::normalize\<close>. The float and decimal operations of the
  libraries are parameters: \<open>fop\<close> gives the float of an operation on two operands, \<open>dop\<close> the checked
  operation on decimals.
\<close>

definition u64_beyond_i64 :: "(decimal \<Rightarrow> decimal) \<Rightarrow> decimal \<Rightarrow> nat option" where
  "u64_beyond_i64 nrm d =
     (if d_scale (nrm d) \<noteq> 0 then None
      else (let m = d_mantissa (nrm d) in
        if 2 ^ 63 - 1 < m \<and> m < 2 ^ 64 then Some (nat m) else None))"

datatype operand = OpInt int | OpFloat f64 | OpDecimal decimal

fun operand_of :: "(decimal \<Rightarrow> decimal) \<Rightarrow> doc \<Rightarrow> string + operand" where
  "operand_of nrm (DInt i) = Inr (OpInt (sint i))"
| "operand_of nrm (DFloat f) = Inr (OpFloat f)"
| "operand_of nrm (DDecimal x) = (case u64_beyond_i64 nrm x of
     Some u \<Rightarrow> Inr (OpInt (int u)) | None \<Rightarrow> Inr (OpDecimal x))"
| "operand_of nrm _ = Inl ''not a number''"

definition dec_of_int :: "int \<Rightarrow> decimal" where
  "dec_of_int i = \<lparr>d_mantissa = i, d_scale = 0\<rparr>"

definition int_result :: "int \<Rightarrow> string + doc" where
  "int_result i =
     (if - (2 ^ 63) \<le> i \<and> i < 2 ^ 63 then Inr (DInt (word_of_int i))
      else if 0 \<le> i \<and> i < 2 ^ 64 then Inr (DDecimal (dec_of_int i))
      else Inl ''the result would be beyond the 64-bit integers'')"

definition float_result :: "f64 \<Rightarrow> string + doc" where
  "float_result f = (if f_finite f then Inr (DFloat f) else Inl ''the result would be NaN or infinite'')"

definition int_as_decimal :: "int \<Rightarrow> decimal option" where
  "int_as_decimal i = (if - (2 ^ 63) \<le> i \<and> i < 2 ^ 64 then Some (dec_of_int i) else None)"

definition decimal_result :: "decimal option \<Rightarrow> string + doc" where
  "decimal_result r = (case r of Some d \<Rightarrow> Inr (DDecimal d)
     | None \<Rightarrow> Inl ''the result is beyond what a decimal holds exactly'')"

definition mixed :: string where
  "mixed = ''a decimal and a float do not mix''"

definition doc_add :: "(decimal \<Rightarrow> decimal) \<Rightarrow> (operand \<Rightarrow> operand \<Rightarrow> f64) \<Rightarrow>
    (decimal \<Rightarrow> decimal \<Rightarrow> decimal option) \<Rightarrow> doc \<Rightarrow> doc \<Rightarrow> string + doc" where
  "doc_add nrm fop dop a b =
     try_bind (operand_of nrm a) (\<lambda>x. try_bind (operand_of nrm b) (\<lambda>y.
       case (x, y) of
         (OpInt x, OpInt y) \<Rightarrow> int_result (x + y)
       | (OpFloat _, OpFloat _) \<Rightarrow> float_result (fop x y)
       | (OpInt _, OpFloat _) \<Rightarrow> float_result (fop x y)
       | (OpFloat _, OpInt _) \<Rightarrow> float_result (fop y x)
       | (OpDecimal _, OpFloat _) \<Rightarrow> Inl mixed
       | (OpFloat _, OpDecimal _) \<Rightarrow> Inl mixed
       | (OpDecimal x, OpDecimal y) \<Rightarrow> decimal_result (dop x y)
       | (OpDecimal x, OpInt i) \<Rightarrow> decimal_result (Option.bind (int_as_decimal i) (\<lambda>i. dop x i))
       | (OpInt i, OpDecimal x) \<Rightarrow> decimal_result (Option.bind (int_as_decimal i) (\<lambda>i. dop x i))))"

definition exact_mul :: "(decimal \<Rightarrow> decimal \<Rightarrow> decimal option) \<Rightarrow> decimal \<Rightarrow> decimal \<Rightarrow> decimal option" where
  "exact_mul dop x y = Option.bind (dop x y) (\<lambda>r.
     if d_mantissa r = 0 \<or> d_scale r = d_scale x + d_scale y then Some r else None)"

definition doc_mul :: "(decimal \<Rightarrow> decimal) \<Rightarrow> (operand \<Rightarrow> operand \<Rightarrow> f64) \<Rightarrow>
    (decimal \<Rightarrow> decimal \<Rightarrow> decimal option) \<Rightarrow> doc \<Rightarrow> doc \<Rightarrow> string + doc" where
  "doc_mul nrm fop dop a b =
     try_bind (operand_of nrm a) (\<lambda>x. try_bind (operand_of nrm b) (\<lambda>y.
       case (x, y) of
         (OpInt x, OpInt y) \<Rightarrow>
           if - (2 ^ 127) \<le> x * y \<and> x * y < 2 ^ 127 then int_result (x * y)
           else Inl ''the result would be beyond the 64-bit integers''
       | (OpFloat _, OpFloat _) \<Rightarrow> float_result (fop x y)
       | (OpInt _, OpFloat _) \<Rightarrow> float_result (fop x y)
       | (OpFloat _, OpInt _) \<Rightarrow> float_result (fop y x)
       | (OpDecimal _, OpFloat _) \<Rightarrow> Inl mixed
       | (OpFloat _, OpDecimal _) \<Rightarrow> Inl mixed
       | (OpDecimal x, OpDecimal y) \<Rightarrow> decimal_result (exact_mul dop x y)
       | (OpDecimal x, OpInt i) \<Rightarrow> decimal_result (Option.bind (int_as_decimal i) (exact_mul dop x))
       | (OpInt i, OpDecimal x) \<Rightarrow> decimal_result (Option.bind (int_as_decimal i) (exact_mul dop x))))"

subsection \<open>JSON forms\<close>

fun json_encodable :: "(decimal \<Rightarrow> decimal) \<Rightarrow> doc \<Rightarrow> bool" where
  "json_encodable nrm (DDecimal d) \<longleftrightarrow> u64_beyond_i64 nrm d \<noteq> None"
| "json_encodable nrm (DDate _) \<longleftrightarrow> False"
| "json_encodable nrm (DDateTime _ _) \<longleftrightarrow> False"
| "json_encodable nrm (DTime _ _) \<longleftrightarrow> False"
| "json_encodable nrm (DArray items) \<longleftrightarrow> list_all (json_encodable nrm) items"
| "json_encodable nrm (DObject m) \<longleftrightarrow> list_all (\<lambda>kv. json_encodable nrm (snd kv)) m"
| "json_encodable nrm _ \<longleftrightarrow> True"

fun doc_from_json :: "json \<Rightarrow> doc" where
  "doc_from_json JNull = DNull"
| "doc_from_json (JBool b) = DBool b"
| "doc_from_json (JNumber n) = (case (as_i64 n, as_u64 n) of
     (Some i, _) \<Rightarrow> DInt (word_of_int i)
   | (None, Some u) \<Rightarrow> DDecimal (dec_of_int (int u))
   | _ \<Rightarrow> DFloat (case n of NFloat f \<Rightarrow> f | _ \<Rightarrow> 0))"
| "doc_from_json (JString s) = DStr s"
| "doc_from_json (JArray items) = DArray (map doc_from_json items)"
| "doc_from_json (JObject m) = DObject (map (\<lambda>(k, v). (k, doc_from_json v)) m)"

definition json_of_i64 :: "i64 \<Rightarrow> json" where
  "json_of_i64 i = JNumber (if sint i < 0 then NegInt (sint i) else PosInt (nat (sint i)))"

definition float_json :: "f64 \<Rightarrow> json" where
  "float_json f = (if f_finite f then JNumber (NFloat f) else JNull)"

fun to_plain_json :: "(decimal \<Rightarrow> decimal) \<Rightarrow> doc_texts \<Rightarrow> doc \<Rightarrow> json" where
  "to_plain_json nrm X DNull = JNull"
| "to_plain_json nrm X (DBool b) = JBool b"
| "to_plain_json nrm X (DInt i) = json_of_i64 i"
| "to_plain_json nrm X (DFloat f) = float_json f"
| "to_plain_json nrm X (DDecimal d) = (case u64_beyond_i64 nrm d of
     Some u \<Rightarrow> JNumber (PosInt u) | None \<Rightarrow> JString (dec_text X d))"
| "to_plain_json nrm X (DStr s) = JString s"
| "to_plain_json nrm X (DDate d) = JString (date_text X d)"
| "to_plain_json nrm X (DDateTime s n) = JString (datetime_text X s n)"
| "to_plain_json nrm X (DTime s n) = JString (time_text X s n)"
| "to_plain_json nrm X (DArray items) = JArray (map (to_plain_json nrm X) items)"
| "to_plain_json nrm X (DObject m) = JObject (map (\<lambda>(k, v). (k, to_plain_json nrm X v)) m)"

subsection \<open>Plain JSON keeps what it can hold\<close>

lemma lex_cmp_refl [simp]: "lex_cmp x x = Equal"
  by (induction x) (simp_all add: then_ord_def)

lemma cmp_num_refl [simp]: "cmp_num a a = Equal"
  by (simp add: cmp_num_value)

lemma doc_eq_num:
  assumes "as_num a = Some x" and "as_num b = Some y" and "dnum_value x = dnum_value y"
  shows "doc_eq a b"
  using assms
  by (cases a; cases b) (auto simp: cmp_scalar_def cmp_leaf_def cmp_as_num_def cmp_num_value then_ord_def)

lemma u64_beyond_i64_value:
  assumes "normalizes nrm" and "decimal_ok d" and "u64_beyond_i64 nrm d = Some u"
  shows "decimal_value d = of_nat u" and "2 ^ 63 \<le> u" and "u < 2 ^ 64"
proof -
  have "decimal_value (nrm d) = decimal_value d" using assms(1,2) by (simp add: normalizes_def)
  moreover have m: "d_scale (nrm d) = 0" "2 ^ 63 - 1 < d_mantissa (nrm d)" "d_mantissa (nrm d) < 2 ^ 64"
    "u = nat (d_mantissa (nrm d))"
    using assms(3) by (auto simp: u64_beyond_i64_def Let_def split: if_splits)
  ultimately show "decimal_value d = of_nat u" by (simp add: decimal_value_def)
  show "2 ^ 63 \<le> u" "u < 2 ^ 64" using m by auto
qed

lemma doc_from_json_of_i64: "doc_from_json (json_of_i64 i) = DInt i"
proof -
  have "sint i < 2 ^ 63" using sint_lt [of i] by simp
  then show ?thesis by (auto simp: json_of_i64_def nat_less_iff)
qed

lemma plain_json_doc_eq:
  assumes nrm: "normalizes nrm"
  shows "doc_wf L d \<Longrightarrow> check_at depth d = Inr () \<Longrightarrow> json_encodable nrm d \<Longrightarrow>
    doc_eq (doc_from_json (to_plain_json nrm X d)) d"
proof (induction d arbitrary: depth)
  case (DFloat f)
  then show ?case
    using check_at_items(3) by (auto simp: float_json_def cmp_scalar_def cmp_leaf_def cmp_as_num_def then_ord_def)
next
  case (DInt i)
  then show ?case by (simp add: doc_from_json_of_i64 doc_eq_num del: doc_eq.simps)
next
  case (DDecimal d)
  then obtain u where u: "u64_beyond_i64 nrm d = Some u" by auto
  note v = u64_beyond_i64_value [OF nrm _ u]
  have "decimal_ok d" using DDecimal.prems(1) by simp
  with u v have "doc_from_json (to_plain_json nrm X (DDecimal d)) = DDecimal (dec_of_int (int u))" by simp
  moreover have "dnum_value (NumDecimal (dec_of_int (int u))) = dnum_value (NumDecimal d)"
    using v(1) \<open>decimal_ok d\<close> by (simp add: dec_of_int_def decimal_value_def)
  ultimately show ?case by (simp add: doc_eq_num del: doc_eq.simps)
next
  case (DArray items)
  have "doc_eq (doc_from_json (to_plain_json nrm X v)) v" if "v \<in> set items" for v
    using DArray.IH [OF that _ check_at_items(1) [OF DArray.prems(2) that]] DArray.prems(1,3) that
    by (simp add: list_all_iff)
  then show ?case by (auto simp: list_all_iff zip_map1 in_set_zip split_def)
next
  case (DObject m)
  have "doc_eq (doc_from_json (to_plain_json nrm X v)) v" if "(k, v) \<in> set m" for k v
    using DObject.IH [OF that _ _ check_at_items(2) [OF DObject.prems(2) that]] DObject.prems(1,3) that
    by (force simp: list_all_iff)
  with DObject.prems(1) show ?case by (auto simp: list_all_iff)
qed (auto simp: cmp_scalar_def cmp_leaf_def cmp_as_num_def then_ord_def)

text \<open>
  Documents that \<^verbatim>\<open>json_encodable\<close> accepts keep every value and every type in plain JSON: read
  back from it, such a document equals the one written (numbers by their exact value, the integers
  beyond \<^verbatim>\<open>i64\<close> as decimals). This is why only the other documents are stored as \<^verbatim>\<open>KDOC\<close>.
\<close>

theorem plain_json_keeps:
  assumes "normalizes nrm" and "doc_wf L d" and "doc_check d = Inr ()" and "json_encodable nrm d"
  shows "doc_eq (doc_from_json (to_plain_json nrm X d)) d"
  using plain_json_doc_eq [OF assms(1,2) _ assms(4)] assms(3) by (simp add: doc_check_def)

theorem plain_json_keeps_witness:
  "doc_eq (doc_from_json (to_plain_json strip_zeros undefined
      (DObject [(lit ''n'', DDecimal \<lparr>d_mantissa = 92233720368547758080, d_scale = 1\<rparr>), (lit ''b'', DArray [DInt (- 7), DNull])])))
    (DObject [(lit ''n'', DDecimal \<lparr>d_mantissa = 92233720368547758080, d_scale = 1\<rparr>), (lit ''b'', DArray [DInt (- 7), DNull])])"
  (is "doc_eq (doc_from_json (to_plain_json strip_zeros undefined ?d)) ?d")
proof (rule plain_json_keeps [OF strip_zeros_normalizes])
  show "doc_wf plain_lib ?d"
    by (simp add: decimal_ok_def plain_lib_def valid_char_def len_utf8_def)
  show "doc_check ?d = Inr ()" by (simp add: doc_check_def check_at.simps MAX_DEPTH_def)
  have "strip_zeros \<lparr>d_mantissa = 92233720368547758080, d_scale = 1\<rparr> = \<lparr>d_mantissa = 9223372036854775808, d_scale = 0\<rparr>"
    by (subst strip_zeros.simps) (simp add: strip_zeros.simps)
  then show "json_encodable strip_zeros ?d" by (simp add: u64_beyond_i64_def)
qed

end
