(* ===== verification/Text.thy ===== *)
theory Text
  imports Prelude
begin

text \<open>
  The parts of Rust's text library that the sources use: \<^verbatim>\<open>char::is_whitespace\<close>, \<^verbatim>\<open>str::trim\<close>,
  \<^verbatim>\<open>to_ascii_lowercase\<close>, \<^verbatim>\<open>str::parse::<i64>\<close> and the decimal text of an integer.
\<close>

definition is_whitespace :: "rchar \<Rightarrow> bool" where
  "is_whitespace c \<longleftrightarrow> (9 \<le> c \<and> c \<le> 13) \<or> c = 32 \<or> c = 0x85 \<or> c = 0xA0 \<or> c = 0x1680 \<or>
     (0x2000 \<le> c \<and> c \<le> 0x200A) \<or> c = 0x2028 \<or> c = 0x2029 \<or> c = 0x202F \<or> c = 0x205F \<or> c = 0x3000"

definition trim_str :: "rstring \<Rightarrow> rstring" where
  "trim_str s = rev (dropWhile is_whitespace (rev (dropWhile is_whitespace s)))"

definition ascii_lower :: "rchar \<Rightarrow> rchar" where
  "ascii_lower c = (if ch CHR ''A'' \<le> c \<and> c \<le> ch CHR ''Z'' then c + 32 else c)"

definition eq_ignore_ascii_case :: "rstring \<Rightarrow> rstring \<Rightarrow> bool" where
  "eq_ignore_ascii_case a b \<longleftrightarrow> map ascii_lower a = map ascii_lower b"

definition is_digit :: "rchar \<Rightarrow> bool" where
  "is_digit c \<longleftrightarrow> ch CHR ''0'' \<le> c \<and> c \<le> ch CHR ''9''"

definition digits_value :: "rstring \<Rightarrow> nat" where
  "digits_value s = foldl (\<lambda>n c. 10 * n + (c - ch CHR ''0'')) 0 s"

text \<open>An optional sign, then at least one digit; out of range is an error like any other.\<close>

definition parse_int :: "rstring \<Rightarrow> int option" where
  "parse_int s =
     (let (neg, ds) = (case s of c # cs \<Rightarrow>
            if c = ch CHR ''-'' then (True, cs) else if c = ch CHR ''+'' then (False, cs) else (False, s)
          | [] \<Rightarrow> (False, []))
      in if ds \<noteq> [] \<and> list_all is_digit ds then
           Some (if neg then - int (digits_value ds) else int (digits_value ds))
         else None)"

definition parse_i64 :: "rstring \<Rightarrow> int option" where
  "parse_i64 s = (case parse_int s of
     Some i \<Rightarrow> if - (2 ^ 63) \<le> i \<and> i < 2 ^ 63 then Some i else None | None \<Rightarrow> None)"

fun show_nat :: "nat \<Rightarrow> rstring" where
  "show_nat n = (if n < 10 then [ch CHR ''0'' + n] else show_nat (n div 10) @ [ch CHR ''0'' + n mod 10])"

declare show_nat.simps [simp del]

definition show_int :: "int \<Rightarrow> rstring" where
  "show_int i = (if i < 0 then ch CHR ''-'' # show_nat (nat (- i)) else show_nat (nat i))"

lemma digits_value_snoc: "digits_value (s @ [c]) = 10 * digits_value s + (c - ch CHR ''0'')"
  by (simp add: digits_value_def)

lemma show_nat_digits: "show_nat n \<noteq> [] \<and> list_all is_digit (show_nat n) \<and> digits_value (show_nat n) = n"
proof (induction n rule: show_nat.induct)
  case (1 n)
  show ?case
  proof (cases "n < 10")
    case True
    then show ?thesis by (subst (1 2 3) show_nat.simps) (simp add: is_digit_def digits_value_def)
  next
    case False
    then have "show_nat n = show_nat (n div 10) @ [ch CHR ''0'' + n mod 10]"
      by (subst show_nat.simps) simp
    moreover have "is_digit (ch CHR ''0'' + n mod 10)"
      using mod_less_divisor [of 10 n] by (simp add: is_digit_def)
    ultimately show ?thesis using 1 [OF False] by (simp add: digits_value_snoc)
  qed
qed

lemma show_nat_hd: "is_digit (hd (show_nat n))"
  using show_nat_digits [of n] by (cases "show_nat n") auto

lemma digit_not_sign: "is_digit c \<Longrightarrow> c \<noteq> ch CHR ''-'' \<and> c \<noteq> ch CHR ''+''"
  by (auto simp: is_digit_def)

lemma parse_int_show [simp]: "parse_int (show_int i) = Some i"
proof (cases "i < 0")
  case True
  with show_nat_digits [of "nat (- i)"] show ?thesis by (simp add: parse_int_def show_int_def)
next
  case False
  obtain c cs where c: "show_nat (nat i) = c # cs" using show_nat_digits [of "nat i"] by (cases "show_nat (nat i)") auto
  then have "is_digit c" using show_nat_hd [of "nat i"] by simp
  with digit_not_sign [OF this] show_nat_digits [of "nat i"] False c show ?thesis
    by (simp add: parse_int_def show_int_def)
qed

lemma parse_i64_show: "- (2 ^ 63) \<le> i \<Longrightarrow> i < 2 ^ 63 \<Longrightarrow> parse_i64 (show_int i) = Some i"
  by (simp add: parse_i64_def)

lemma show_int_chars: "c \<in> set (show_int i) \<Longrightarrow> is_digit c \<or> c = ch CHR ''-''"
  using show_nat_digits [of "nat i"] show_nat_digits [of "nat (- i)"]
  by (auto simp: show_int_def list_all_iff split: if_splits)

lemma trim_str_id:
  "s \<noteq> [] \<Longrightarrow> \<not> is_whitespace (hd s) \<Longrightarrow> \<not> is_whitespace (last s) \<Longrightarrow> trim_str s = s"
proof -
  assume s: "s \<noteq> []" "\<not> is_whitespace (hd s)" "\<not> is_whitespace (last s)"
  have "dropWhile is_whitespace s = s" using s by (cases s) simp_all
  moreover have "dropWhile is_whitespace (rev s) = rev s" using s by (cases s rule: rev_cases) simp_all
  ultimately show ?thesis by (simp add: trim_str_def)
qed

lemma digit_not_whitespace: "is_digit c \<or> c = ch CHR ''-'' \<Longrightarrow> \<not> is_whitespace c"
  by (auto simp: is_digit_def is_whitespace_def)

lemma show_int_nonempty: "show_int i \<noteq> []"
  using show_nat_digits [of "nat i"] by (simp add: show_int_def)

lemma trim_show_int [simp]: "trim_str (show_int i) = show_int i"
  using show_int_chars [of "hd (show_int i)" i] show_int_chars [of "last (show_int i)" i] show_int_nonempty [of i]
  by (intro trim_str_id) (auto intro!: digit_not_whitespace)

end
