(* ===== verification/Path.thy ===== *)
theory Path
  imports Json Text
begin

text \<open>
  \<^verbatim>\<open>src/jsonpath.rs\<close> and \<^verbatim>\<open>src/docpath.rs\<close>: paths into documents and the changes made through them.
  The two files hold the same operations on the two kinds of trees; here each operation is written
  once over a view of a node (an object with its members, an array with its items, or a scalar) and
  instantiated on \<open>json\<close> and on \<open>doc\<close>. A change in place gives the result and the document after it,
  which is the document as the source leaves it on errors too.
\<close>

datatype seg = Key rstring | Idx int

datatype 'd node = Members "(rstring \<times> 'd) list" | Items "'d list" | Scalar

subsection \<open>Parsing\<close>

text \<open>
  The loop of \<^verbatim>\<open>parse_path\<close> over the characters left from \<open>i\<close> on. \<open>start\<close>: no segment was read yet.
\<close>

function parse_segs :: "bool \<Rightarrow> bool \<Rightarrow> rstring \<Rightarrow> string + seg list" where
  "parse_segs first need_name [] = (if need_name then Inl ''empty segment'' else Inr [])"
| "parse_segs first need_name (c # cs) =
     (if c = ch CHR ''['' then
        (case cs of
           q # rest \<Rightarrow>
             if q = ch CHR ''\"'' \<or> q = 39 then
               (let name = takeWhile (\<lambda>c. c \<noteq> q) rest; after = drop (length name + 1) rest in
                if q \<notin> set rest then Inl ''unclosed quote''
                else (case after of
                    [] \<Rightarrow> Inl ''missing bracket''
                  | d # ds \<Rightarrow>
                      if d \<noteq> ch CHR '']'' then Inl ''missing bracket''
                      else try_bind (parse_segs False False ds) (\<lambda>segs. Inr (Key name # segs))))
             else if ch CHR '']'' \<notin> set cs then Inl ''missing bracket''
             else
               (let text = takeWhile (\<lambda>c. c \<noteq> ch CHR '']'') cs in
                case parse_i64 (trim_str text) of
                  None \<Rightarrow> Inl ''an array index must be an integer''
                | Some n \<Rightarrow>
                    try_bind (parse_segs False False (drop (length text + 1) cs)) (\<lambda>segs. Inr (Idx n # segs)))
         | [] \<Rightarrow> Inl ''missing bracket'')
      else if c = ch CHR ''.'' then
        (if need_name \<or> cs = [] then Inl ''empty segment'' else parse_segs first True cs)
      else if c = ch CHR '']'' then Inl ''unexpected bracket''
      else if \<not> first \<and> \<not> need_name then Inl ''expected a dot or a bracket between segments''
      else
        (let name = takeWhile (\<lambda>c. c \<noteq> ch CHR ''.'' \<and> c \<noteq> ch CHR ''['' \<and> c \<noteq> ch CHR '']'') (c # cs) in
         try_bind (parse_segs False False (drop (length name) (c # cs))) (\<lambda>segs. Inr (Key name # segs))))"
  by pat_completeness auto
termination
  by (relation "measure (\<lambda>(_, _, cs). length cs)")
    (auto simp: less_Suc_eq_le Let_def split: list.splits dest: arg_cong [where f = length])

declare parse_segs.simps [simp del]

definition parse_path :: "rstring \<Rightarrow> string + seg list" where
  "parse_path path =
     (case trim_str path of
        c # cs \<Rightarrow>
          if c = ch CHR ''.'' then (if cs = [] then Inr [] else parse_segs True True cs)
          else parse_segs True False (c # cs)
      | [] \<Rightarrow> parse_segs True False [])"

definition position :: "seg \<Rightarrow> nat \<Rightarrow> bool \<Rightarrow> nat option" where
  "position seg len app =
     (case (case seg of Idx i \<Rightarrow> Some i | Key k \<Rightarrow> parse_i64 k) of
        None \<Rightarrow> None
      | Some n \<Rightarrow>
          (let pos = (if n < 0 then int len + n else n);
               mx = (if app \<and> n \<ge> 0 then int len else int len - 1)
           in if 0 \<le> pos \<and> pos \<le> mx then Some (nat pos) else None))"

definition out_of_range :: "seg \<Rightarrow> string" where
  "out_of_range seg = (case seg of
     Idx _ \<Rightarrow> ''array index is out of range''
   | Key _ \<Rightarrow> ''array elements are addressed by index'')"

subsection \<open>Reading and changing a tree\<close>

text \<open>\<^verbatim>\<open>IndexMap::insert\<close> keeps the place of a key it knows; \<^verbatim>\<open>shift_remove\<close> keeps the order.\<close>

fun im_insert :: "'k \<Rightarrow> 'v \<Rightarrow> ('k \<times> 'v) list \<Rightarrow> ('k \<times> 'v) list" where
  "im_insert k v [] = [(k, v)]"
| "im_insert k v (kv # m) = (if fst kv = k then (k, v) # m else kv # im_insert k v m)"

fun shift_remove :: "'k \<Rightarrow> ('k \<times> 'v) list \<Rightarrow> ('k \<times> 'v) list" where
  "shift_remove k [] = []"
| "shift_remove k (kv # m) = (if fst kv = k then m else kv # shift_remove k m)"

text \<open>The view of a node, and how an object and an array are made.\<close>

record 'd tree_ops =
  t_view :: "'d \<Rightarrow> 'd node"
  t_obj :: "(rstring \<times> 'd) list \<Rightarrow> 'd"
  t_arr :: "'d list \<Rightarrow> 'd"

fun tree_get :: "'d tree_ops \<Rightarrow> 'd \<Rightarrow> seg list \<Rightarrow> 'd option" where
  "tree_get T cur [] = Some cur"
| "tree_get T cur (seg # path) = (case t_view T cur of
     Members m \<Rightarrow> (case seg of
       Key k \<Rightarrow> (case map_of m k of None \<Rightarrow> None | Some v \<Rightarrow> tree_get T v path)
     | Idx _ \<Rightarrow> None)
   | Items a \<Rightarrow> (case position seg (length a) False of
       None \<Rightarrow> None | Some i \<Rightarrow> tree_get T (a ! i) path)
   | Scalar \<Rightarrow> None)"

text \<open>\<^verbatim>\<open>get_mut\<close>: the change \<open>f\<close> of the value at the path, \<open>None\<close> when there is none.\<close>

fun tree_mut :: "'d tree_ops \<Rightarrow> seg list \<Rightarrow> ('d \<Rightarrow> 'r \<times> 'd) \<Rightarrow> 'd \<Rightarrow> ('r \<times> 'd) option" where
  "tree_mut T [] f cur = Some (f cur)"
| "tree_mut T (seg # path) f cur = (case t_view T cur of
     Members m \<Rightarrow> (case seg of
       Key k \<Rightarrow> (case map_of m k of
           None \<Rightarrow> None
         | Some v \<Rightarrow> map_option (\<lambda>(r, v). (r, t_obj T (im_insert k v m))) (tree_mut T path f v))
     | Idx _ \<Rightarrow> None)
   | Items a \<Rightarrow> (case position seg (length a) False of
       None \<Rightarrow> None
     | Some i \<Rightarrow> map_option (\<lambda>(r, v). (r, t_arr T (a[i := v]))) (tree_mut T path f (a ! i)))
   | Scalar \<Rightarrow> None)"

text \<open>\<^verbatim>\<open>parent_mut\<close>: the change \<open>f\<close> of the value at the path, missing objects created on the way.\<close>

fun parent_mut :: "'d tree_ops \<Rightarrow> seg list \<Rightarrow> ('d \<Rightarrow> (string + 'r) \<times> 'd) \<Rightarrow> 'd \<Rightarrow> (string + 'r) \<times> 'd" where
  "parent_mut T [] f cur = f cur"
| "parent_mut T (seg # path) f cur = (case t_view T cur of
     Members m \<Rightarrow> (case seg of
       Key k \<Rightarrow>
         (let v = (case map_of m k of Some v \<Rightarrow> v | None \<Rightarrow> t_obj T []);
              (r, v) = parent_mut T path f v
          in (r, t_obj T (im_insert k v m)))
     | Idx _ \<Rightarrow> (Inl ''cannot index an object with [n]'', cur))
   | Items a \<Rightarrow> (case position seg (length a) False of
       None \<Rightarrow> (Inl (out_of_range seg), cur)
     | Some i \<Rightarrow> (let (r, v) = parent_mut T path f (a ! i) in (r, t_arr T (a[i := v]))))
   | Scalar \<Rightarrow> (Inl ''path traverses a scalar value'', cur))"

definition set_last :: "'d tree_ops \<Rightarrow> seg \<Rightarrow> 'd \<Rightarrow> 'd \<Rightarrow> (string + unit) \<times> 'd" where
  "set_last T seg v cur = (case t_view T cur of
     Members m \<Rightarrow> (case seg of
       Key k \<Rightarrow> (Inr (), t_obj T (im_insert k v m))
     | Idx _ \<Rightarrow> (Inl ''cannot index an object with [n]'', cur))
   | Items a \<Rightarrow> (case position seg (length a) True of
       None \<Rightarrow> (Inl (out_of_range seg), cur)
     | Some i \<Rightarrow> (Inr (), t_arr T (if i = length a then a @ [v] else a[i := v])))
   | Scalar \<Rightarrow> (Inl ''path traverses a scalar value'', cur))"

definition tree_set :: "'d tree_ops \<Rightarrow> 'd \<Rightarrow> seg list \<Rightarrow> 'd \<Rightarrow> (string + unit) \<times> 'd" where
  "tree_set T doc path v =
     (if path = [] then (Inr (), v) else parent_mut T (butlast path) (set_last T (last path) v) doc)"

definition delete_last :: "'d tree_ops \<Rightarrow> seg \<Rightarrow> 'd \<Rightarrow> bool \<times> 'd" where
  "delete_last T seg cur = (case t_view T cur of
     Members m \<Rightarrow> (case seg of
       Key k \<Rightarrow> if map_of m k = None then (False, cur) else (True, t_obj T (shift_remove k m))
     | Idx _ \<Rightarrow> (False, cur))
   | Items a \<Rightarrow> (case position seg (length a) False of
       Some i \<Rightarrow> (True, t_arr T (take i a @ drop (i + 1) a))
     | None \<Rightarrow> (False, cur))
   | Scalar \<Rightarrow> (False, cur))"

definition tree_delete :: "'d tree_ops \<Rightarrow> 'd \<Rightarrow> seg list \<Rightarrow> bool \<times> 'd" where
  "tree_delete T doc path =
     (if path = [] then (False, doc)
      else case tree_mut T (butlast path) (delete_last T (last path)) doc of
        None \<Rightarrow> (False, doc) | Some rd \<Rightarrow> rd)"

definition append_items :: "'d tree_ops \<Rightarrow> 'd list \<Rightarrow> 'd \<Rightarrow> (string + nat) \<times> 'd" where
  "append_items T vs cur = (case t_view T cur of
     Items a \<Rightarrow> (Inr (length a + length vs), t_arr T (a @ vs))
   | _ \<Rightarrow> (Inl ''the value at this path is not an array'', cur))"

definition tree_append :: "'d tree_ops \<Rightarrow> 'd \<Rightarrow> seg list \<Rightarrow> 'd list \<Rightarrow> (string + nat) \<times> 'd" where
  "tree_append T doc path vs =
     (let (r, doc) = (if tree_get T doc path = None then tree_set T doc path (t_arr T []) else (Inr (), doc))
      in case r of
        Inl e \<Rightarrow> (Inl e, doc)
      | Inr _ \<Rightarrow> (case tree_mut T path (append_items T vs) doc of
          None \<Rightarrow> (Inl ''the value at this path is not an array'', doc) | Some rd \<Rightarrow> rd))"

definition insert_item :: "'d tree_ops \<Rightarrow> seg \<Rightarrow> 'd \<Rightarrow> 'd \<Rightarrow> (string + nat) \<times> 'd" where
  "insert_item T seg v cur = (case t_view T cur of
     Items a \<Rightarrow> (case position seg (length a) True of
       None \<Rightarrow> (Inl (out_of_range seg), cur)
     | Some i \<Rightarrow> (Inr (length a + 1), t_arr T (take i a @ v # drop i a)))
   | _ \<Rightarrow> (Inl ''insert works on arrays'', cur))"

definition tree_insert :: "'d tree_ops \<Rightarrow> 'd \<Rightarrow> seg list \<Rightarrow> 'd \<Rightarrow> (string + nat) \<times> 'd" where
  "tree_insert T doc path v =
     (if path = [] then (Inl ''insert needs a path ending with an array position'', doc)
      else case tree_mut T (butlast path) (insert_item T (last path) v) doc of
        None \<Rightarrow> (Inl ''the array at this path does not exist'', doc) | Some rd \<Rightarrow> rd)"

text \<open>\<open>isnum\<close> and \<open>add\<close>: the numbers of the tree and their sum, \<open>by\<close> the increment.\<close>

definition tree_incr :: "'d tree_ops \<Rightarrow> ('d \<Rightarrow> bool) \<Rightarrow> ('d \<Rightarrow> 'd \<Rightarrow> string + 'd) \<Rightarrow> 'd \<Rightarrow> seg list \<Rightarrow> 'd \<Rightarrow>
    (string + 'd) \<times> 'd" where
  "tree_incr T isnum add doc path by =
     (case (case tree_get T doc path of
              None \<Rightarrow> Inr by
            | Some cur \<Rightarrow> if isnum cur then add cur by else Inl ''the value at this path is not a number'') of
        Inl e \<Rightarrow> (Inl e, doc)
      | Inr nxt \<Rightarrow> (case tree_set T doc path nxt of
          (Inl e, doc) \<Rightarrow> (Inl e, doc) | (Inr _, doc) \<Rightarrow> (Inr nxt, doc)))"

subsection \<open>The two kinds of trees\<close>

fun json_view :: "json \<Rightarrow> json node" where
  "json_view (JObject m) = Members m" | "json_view (JArray a) = Items a" | "json_view _ = Scalar"

definition json_tree :: "json tree_ops" where
  "json_tree = \<lparr>t_view = json_view, t_obj = JObject, t_arr = JArray\<rparr>"

fun doc_view :: "doc \<Rightarrow> doc node" where
  "doc_view (DObject m) = Members m" | "doc_view (DArray a) = Items a" | "doc_view _ = Scalar"

definition doc_tree :: "doc tree_ops" where
  "doc_tree = \<lparr>t_view = doc_view, t_obj = DObject, t_arr = DArray\<rparr>"

definition jp_get :: "json \<Rightarrow> seg list \<Rightarrow> json option" where "jp_get = tree_get json_tree"
definition jp_set :: "json \<Rightarrow> seg list \<Rightarrow> json \<Rightarrow> (string + unit) \<times> json" where "jp_set = tree_set json_tree"
definition jp_delete :: "json \<Rightarrow> seg list \<Rightarrow> bool \<times> json" where "jp_delete = tree_delete json_tree"
definition jp_append :: "json \<Rightarrow> seg list \<Rightarrow> json list \<Rightarrow> (string + nat) \<times> json" where
  "jp_append = tree_append json_tree"
definition jp_insert :: "json \<Rightarrow> seg list \<Rightarrow> json \<Rightarrow> (string + nat) \<times> json" where
  "jp_insert = tree_insert json_tree"

fun is_json_num :: "json \<Rightarrow> bool" where
  "is_json_num (JNumber _) \<longleftrightarrow> True" | "is_json_num _ \<longleftrightarrow> False"

fun json_num :: "json \<Rightarrow> number" where
  "json_num (JNumber n) = n" | "json_num _ = PosInt 0"

definition jp_incr :: "(number \<Rightarrow> number \<Rightarrow> f64 option) \<Rightarrow> json \<Rightarrow> seg list \<Rightarrow> number \<Rightarrow> (string + json) \<times> json" where
  "jp_incr fl doc path by = tree_incr json_tree is_json_num
     (\<lambda>cur by. map_sum id JNumber (num_add fl (json_num cur) (json_num by))) doc path (JNumber by)"

definition jp_len :: "json \<Rightarrow> nat option" where
  "jp_len v = (case v of JArray a \<Rightarrow> Some (length a) | JObject m \<Rightarrow> Some (length m)
     | JString s \<Rightarrow> Some (length s) | _ \<Rightarrow> None)"

definition dp_get :: "doc \<Rightarrow> seg list \<Rightarrow> doc option" where "dp_get = tree_get doc_tree"
definition dp_set :: "doc \<Rightarrow> seg list \<Rightarrow> doc \<Rightarrow> (string + unit) \<times> doc" where "dp_set = tree_set doc_tree"
definition dp_delete :: "doc \<Rightarrow> seg list \<Rightarrow> bool \<times> doc" where "dp_delete = tree_delete doc_tree"
definition dp_append :: "doc \<Rightarrow> seg list \<Rightarrow> doc list \<Rightarrow> (string + nat) \<times> doc" where
  "dp_append = tree_append doc_tree"
definition dp_insert :: "doc \<Rightarrow> seg list \<Rightarrow> doc \<Rightarrow> (string + nat) \<times> doc" where
  "dp_insert = tree_insert doc_tree"

definition is_doc_num :: "doc \<Rightarrow> bool" where
  "is_doc_num d \<longleftrightarrow> as_num d \<noteq> None"

definition dp_incr :: "(doc \<Rightarrow> doc \<Rightarrow> string + doc) \<Rightarrow> doc \<Rightarrow> seg list \<Rightarrow> doc \<Rightarrow> (string + doc) \<times> doc" where
  "dp_incr add = tree_incr doc_tree is_doc_num add"

definition dp_mul :: "(doc \<Rightarrow> doc \<Rightarrow> string + doc) \<Rightarrow> doc \<Rightarrow> seg list \<Rightarrow> doc \<Rightarrow> (string + doc) \<times> doc" where
  "dp_mul mul doc path by =
     (case (case dp_get doc path of
              Some cur \<Rightarrow> if is_doc_num cur then mul cur by else Inl ''the value at this path is not a number''
            | None \<Rightarrow> Inl ''nothing at this path'') of
        Inl e \<Rightarrow> (Inl e, doc)
      | Inr nxt \<Rightarrow> (case dp_set doc path nxt of
          (Inl e, doc) \<Rightarrow> (Inl e, doc) | (Inr _, doc) \<Rightarrow> (Inr nxt, doc)))"

lemmas path_ops = jp_get_def jp_set_def jp_delete_def jp_append_def jp_insert_def
  dp_get_def dp_set_def dp_delete_def dp_append_def dp_insert_def

subsection \<open>The laws of paths\<close>

lemma map_of_im_insert [simp]: "map_of (im_insert k v m) = (map_of m)(k \<mapsto> v)"
  by (induction m) (auto simp: fun_eq_iff)

lemma keys_im_insert: "fst ` set (im_insert k v m) = insert k (fst ` set m)"
  by (induction m) auto

lemma distinct_im_insert [simp]: "distinct (map fst m) \<Longrightarrow> distinct (map fst (im_insert k v m))"
  by (induction m) (auto simp: keys_im_insert)

lemma position_bound: "position seg len app = Some i \<Longrightarrow> i < len \<or> app \<and> i = len"
  by (auto simp: position_def Let_def split: option.splits if_splits)

lemma position_lt: "position seg len False = Some i \<Longrightarrow> i < len"
  using position_bound by blast

lemma position_mono: "position seg len True = Some i \<Longrightarrow> i < len \<Longrightarrow> position seg len False = Some i"
  by (auto simp: position_def Let_def split: option.splits if_splits)

lemma position_end: "position seg len True = Some len \<Longrightarrow> position seg (len + 1) False = Some len"
  by (auto simp: position_def Let_def split: option.splits if_splits)

lemma im_insert_id: "map_of m k = Some v \<Longrightarrow> im_insert k v m = m"
  by (induction m) auto

text \<open>
  Two paths part in a document: at some node they name different members, or different positions (a
  position past the end is one that is being added).
\<close>

fun parts :: "'d tree_ops \<Rightarrow> 'd \<Rightarrow> seg list \<Rightarrow> seg list \<Rightarrow> bool" where
  "parts T cur (s # p) (t # q) = (case t_view T cur of
     Members m \<Rightarrow> (case s of
       Key k \<Rightarrow> (case t of
         Key j \<Rightarrow> k \<noteq> j \<or> (case map_of m k of Some v \<Rightarrow> parts T v p q | None \<Rightarrow> False)
       | Idx _ \<Rightarrow> False)
     | Idx _ \<Rightarrow> False)
   | Items a \<Rightarrow> (case position s (length a) True of
       None \<Rightarrow> False
     | Some i \<Rightarrow> (case position t (length a) False of
         None \<Rightarrow> False
       | Some j \<Rightarrow> if i = length a then position t (length a + 1) False = Some j
                  else i \<noteq> j \<or> parts T (a ! i) p q))
   | Scalar \<Rightarrow> False)"
| "parts T cur _ _ = False"

text \<open>
  A tree whose nodes are what their view says. The laws hold for both kinds of documents, so every
  lemma below is proved once for both.
\<close>

locale tree =
  fixes T :: "'d tree_ops"
  assumes view_obj: "t_view T (t_obj T m) = Members m"
    and view_arr: "t_view T (t_arr T a) = Items a"
    and obj_view: "t_view T d = Members m \<Longrightarrow> d = t_obj T m"
    and arr_view: "t_view T d = Items a \<Longrightarrow> d = t_arr T a"
begin

lemma get_set_last:
  "set_last T seg v cur = (Inr u, cur') \<Longrightarrow> tree_get T cur' [seg] = Some v"
proof (cases "t_view T cur")
  case (Items a)
  assume "set_last T seg v cur = (Inr u, cur')"
  then obtain i where i: "position seg (length a) True = Some i"
    and c: "cur' = t_arr T (if i = length a then a @ [v] else a[i := v])"
    by (auto simp: set_last_def Items split: option.splits)
  show ?thesis
  proof (cases "i = length a")
    case True
    with i c position_end [of seg "length a"] show ?thesis by (simp add: view_arr)
  next
    case False
    with position_bound [OF i] have "i < length a" by simp
    with i c position_mono [OF i] show ?thesis by (simp add: view_arr)
  qed
qed (auto simp: set_last_def view_obj split: seg.splits)

lemma get_parent_mut:
  assumes f: "\<And>cur u cur'. f cur = (Inr u, cur') \<Longrightarrow> tree_get T cur' q = Some v"
  shows "parent_mut T p f cur = (Inr u, cur') \<Longrightarrow> tree_get T cur' (p @ q) = Some v"
proof (induction p arbitrary: cur cur')
  case Nil
  then show ?case by (simp add: f)
next
  case (Cons seg p)
  then show ?case
    by (auto simp: view_obj view_arr Let_def
        split: node.splits seg.splits option.splits prod.splits)
      (metis nth_list_update_eq position_lt)
qed

lemma get_set: "tree_set T doc path v = (Inr u, doc') \<Longrightarrow> tree_get T doc' path = Some v"
proof (cases "path = []")
  case False
  assume "tree_set T doc path v = (Inr u, doc')"
  with False have "parent_mut T (butlast path) (set_last T (last path) v) doc = (Inr u, doc')"
    by (simp add: tree_set_def)
  from get_parent_mut [OF get_set_last this, of "last path"] False show ?thesis by simp
qed (simp add: tree_set_def)

text \<open>A change in place is found again at its path.\<close>

lemma get_mut_iff: "tree_mut T p f cur = None \<longleftrightarrow> tree_get T cur p = None"
  by (induction p arbitrary: cur) (auto split: node.splits seg.splits option.splits)

lemma tree_mut_at:
  "tree_mut T p f cur = Some (r, cur') \<Longrightarrow>
    \<exists>d. tree_get T cur p = Some d \<and> fst (f d) = r \<and> tree_get T cur' p = Some (snd (f d))"
proof (induction p arbitrary: cur cur')
  case Nil
  then show ?case by simp
next
  case (Cons seg p)
  then show ?case
    by (auto simp: view_obj view_arr dest: position_lt split: node.splits seg.splits option.splits)
      (metis nth_list_update_eq position_lt)+
qed

lemma get_append_path:
  "tree_get T cur (p @ q) = (case tree_get T cur p of None \<Rightarrow> None | Some d \<Rightarrow> tree_get T d q)"
  by (induction p arbitrary: cur) (auto split: node.splits seg.splits option.splits)

lemma delete_iff: "fst (tree_delete T doc path) \<longleftrightarrow> path \<noteq> [] \<and> tree_get T doc path \<noteq> None"
proof (cases "path = []")
  case False
  let ?p = "butlast path" and ?seg = "last path"
  have g: "tree_get T doc path = (case tree_get T doc ?p of None \<Rightarrow> None | Some d \<Rightarrow> tree_get T d [?seg])"
    using get_append_path [of doc ?p "[?seg]"] False by simp
  have "fst (delete_last T ?seg d) \<longleftrightarrow> tree_get T d [?seg] \<noteq> None" for d
    by (auto simp: delete_last_def split: node.splits seg.splits option.splits)
  with False g tree_mut_at [of ?p "delete_last T ?seg" doc] get_mut_iff [of ?p "delete_last T ?seg" doc]
  show ?thesis
    by (auto simp: tree_delete_def split: option.splits)
qed (simp add: tree_delete_def)

lemma tree_mut_id: "tree_get T cur p = Some d \<Longrightarrow> f d = (r, d) \<Longrightarrow> tree_mut T p f cur = Some (r, cur)"
proof (induction p arbitrary: cur)
  case (Cons seg p)
  then show ?case
    by (auto simp: im_insert_id list_update_id dest: obj_view arr_view
        split: node.splits seg.splits option.splits)
qed simp

lemma delete_False: "\<not> fst (tree_delete T doc path) \<Longrightarrow> snd (tree_delete T doc path) = doc"
proof (cases "path = [] \<or> tree_get T doc (butlast path) = None")
  case True
  then show ?thesis
    using get_mut_iff [of "butlast path" "delete_last T (last path)" doc]
    by (auto simp: tree_delete_def split: option.splits)
next
  case False
  then obtain d where d: "path \<noteq> []" "tree_get T doc (butlast path) = Some d" by auto
  assume "\<not> fst (tree_delete T doc path)"
  with d have "tree_get T d [last path] = None"
    using delete_iff [of doc path] get_append_path [of doc "butlast path" "[last path]"] by simp
  then have "delete_last T (last path) d = (False, d)"
    by (auto simp: delete_last_def split: node.splits seg.splits option.splits)
  from tree_mut_id [where f = "delete_last T (last path)", OF d(2) this] d(1) show ?thesis
    by (simp add: tree_delete_def)
qed

text \<open>A change leaves alone what lies on a path that parts from its own.\<close>

lemma set_last_frame:
  assumes "set_last T seg v cur = (Inr u, cur')" and "parts T cur [seg] q"
  shows "tree_get T cur' q = tree_get T cur q"
proof (cases q)
  case (Cons t q')
  show ?thesis
  proof (cases "t_view T cur")
    case (Members m)
    with assms Cons show ?thesis
      by (auto simp: set_last_def view_obj split: seg.splits option.splits)
  next
    case (Items a)
    then obtain i j where i: "position seg (length a) True = Some i" and j: "position t (length a) False = Some j"
      and ij: "if i = length a then position t (length a + 1) False = Some j else i \<noteq> j"
      and c: "cur' = t_arr T (if i = length a then a @ [v] else a[i := v])"
      using assms Cons by (auto simp: set_last_def split: option.splits if_splits)
    show ?thesis
      using ij j position_lt [OF j] by (auto simp: Cons Items c view_arr nth_append)
  qed (use assms Cons in simp)
qed (use assms in simp)

lemma parent_mut_frame:
  assumes f: "\<And>cur u cur' q. f cur = (Inr u, cur') \<Longrightarrow> parts T cur [seg] q \<Longrightarrow> tree_get T cur' q = tree_get T cur q"
  shows "parent_mut T p f cur = (Inr u, cur') \<Longrightarrow> parts T cur (p @ [seg]) q \<Longrightarrow>
    tree_get T cur' q = tree_get T cur q"
proof (induction p arbitrary: cur cur' q)
  case Nil
  then show ?case using f by simp
next
  case (Cons s p)
  obtain t q' where q: "q = t # q'" using Cons.prems(2) by (cases q) auto
  show ?case
  proof (cases "t_view T cur")
    case (Members m)
    with Cons q show ?thesis
      by (auto simp: view_obj Let_def split: seg.splits option.splits prod.splits)
  next
    case (Items a)
    then obtain i v where i: "position s (length a) False = Some i"
      and v: "parent_mut T p f (a ! i) = (Inr u, v)" and c: "cur' = t_arr T (a[i := v])"
      using Cons.prems(1) by (auto simp: Let_def split: option.splits prod.splits)
    have "i < length a" using position_lt [OF i] .
    then have i': "position s (length a) True = Some i"
      using i by (auto simp: position_def Let_def split: option.splits if_splits)
    obtain j where j: "position t (length a) False = Some j" "i \<noteq> j \<or> parts T (a ! i) (p @ [seg]) q'"
      using Cons.prems(2) Items q i' \<open>i < length a\<close> by (auto split: option.splits if_splits)
    show ?thesis
    proof (cases "i = j")
      case True
      with Cons.IH [OF v] j \<open>i < length a\<close> show ?thesis by (auto simp: q Items c view_arr)
    next
      case False
      with j show ?thesis by (simp add: q Items c view_arr)
    qed
  qed (use Cons.prems q in simp)
qed

lemma set_frame:
  assumes "tree_set T doc p v = (Inr u, doc')" and "parts T doc p q"
  shows "tree_get T doc' q = tree_get T doc q"
proof (cases "p = []")
  case False
  then have "parent_mut T (butlast p) (set_last T (last p) v) doc = (Inr u, doc')"
    using assms(1) by (simp add: tree_set_def)
  moreover have "parts T doc (butlast p @ [last p]) q" using assms(2) False by simp
  ultimately show ?thesis
    by (rule parent_mut_frame [where seg = "last p", rotated 1]) (rule set_last_frame)
qed (use assms in simp)

end

interpretation jt: tree json_tree
proof unfold_locales
  fix d :: json
  show "t_view json_tree d = Members m \<Longrightarrow> d = t_obj json_tree m" for m by (cases d) (simp_all add: json_tree_def)
  show "t_view json_tree d = Items a \<Longrightarrow> d = t_arr json_tree a" for a by (cases d) (simp_all add: json_tree_def)
qed (simp_all add: json_tree_def)

interpretation dt: tree doc_tree
proof unfold_locales
  fix d :: doc
  show "t_view doc_tree d = Members m \<Longrightarrow> d = t_obj doc_tree m" for m by (cases d) (simp_all add: doc_tree_def)
  show "t_view doc_tree d = Items a \<Longrightarrow> d = t_arr doc_tree a" for a by (cases d) (simp_all add: doc_tree_def)
qed (simp_all add: doc_tree_def)

subsection \<open>Writing a path\<close>

text \<open>The bracket form of a path, \<open>["name"][3]\<close>.\<close>

fun print_seg :: "seg \<Rightarrow> rstring" where
  "print_seg (Key k) = lit ''[\"'' @ k @ lit ''\"]''"
| "print_seg (Idx n) = lit ''['' @ show_int n @ lit '']''"

definition print_path :: "seg list \<Rightarrow> rstring" where
  "print_path segs = concat (map print_seg segs)"

fun writable :: "seg \<Rightarrow> bool" where
  "writable (Key k) \<longleftrightarrow> ch CHR ''\"'' \<notin> set k"
| "writable (Idx n) \<longleftrightarrow> - (2 ^ 63) \<le> n \<and> n < 2 ^ 63"

lemma takeWhile_stop: "q \<notin> set k \<Longrightarrow> takeWhile (\<lambda>c. c \<noteq> q) (k @ q # r) = k"
  by (induction k) auto

lemma parse_segs_key:
  assumes "ch CHR ''\"'' \<notin> set k"
  shows "parse_segs first False (lit ''[\"'' @ k @ lit ''\"]'' @ r) =
    try_bind (parse_segs False False r) (\<lambda>segs. Inr (Key k # segs))"
proof -
  have "takeWhile (\<lambda>c. c \<noteq> 34) (k @ 34 # 93 # r) = k" using takeWhile_stop [of 34 k] assms by simp
  then show ?thesis by (simp add: parse_segs.simps(2) Let_def)
qed

lemma show_int_hd: "hd (show_int n) \<noteq> 34 \<and> hd (show_int n) \<noteq> 39"
  using show_int_chars [of "hd (show_int n)" n] show_int_nonempty [of n] by (auto simp: is_digit_def)

lemma show_int_no_bracket: "93 \<notin> set (show_int n)"
  using show_int_chars [of 93 n] by (auto simp: is_digit_def)

lemma parse_segs_idx:
  assumes "- (2 ^ 63) \<le> n" and "n < 2 ^ 63"
  shows "parse_segs first False (lit ''['' @ show_int n @ lit '']'' @ r) =
    try_bind (parse_segs False False r) (\<lambda>segs. Inr (Idx n # segs))"
proof -
  obtain d ds where d: "show_int n = d # ds" using show_int_nonempty [of n] by (cases "show_int n") auto
  have t: "takeWhile (\<lambda>c. c \<noteq> 93) (show_int n @ 93 # r) = show_int n"
    by (rule takeWhile_stop [OF show_int_no_bracket])
  have "trim_str (d # ds) = d # ds" using trim_show_int [of n] d by simp
  moreover have "parse_i64 (d # ds) = Some n" using parse_i64_show [OF assms] d by simp
  ultimately show ?thesis
    using t d show_int_hd [of n] by (simp add: parse_segs.simps(2) Let_def)
qed

lemma parse_segs_print:
  "list_all writable segs \<Longrightarrow> parse_segs first False (print_path segs) = Inr segs"
proof (induction segs arbitrary: first)
  case Nil
  then show ?case by (simp add: print_path_def parse_segs.simps(1))
next
  case (Cons s segs)
  have "print_path (s # segs) = print_seg s @ print_path segs" by (simp add: print_path_def)
  then show ?case
    using Cons parse_segs_key parse_segs_idx by (cases s) auto
qed

lemma print_seg_ends: "hd (print_seg s) = 91 \<and> last (print_seg s) = 93 \<and> print_seg s \<noteq> []"
  by (cases s) (simp_all add: hd_append)

lemma print_path_ends: "segs \<noteq> [] \<Longrightarrow> hd (print_path segs) = 91 \<and> last (print_path segs) = 93 \<and> print_path segs \<noteq> []"
proof (induction segs)
  case (Cons s segs)
  then show ?case
    using print_seg_ends [of s] by (cases "segs = []") (auto simp: print_path_def hd_append last_append)
qed simp

subsection \<open>Properties\<close>

text \<open>
  Every path can be written and read back: in the bracket form, any list of member names
  without a double quote and of 64-bit positions is parsed to exactly that list.
\<close>

theorem parse_print_path:
  assumes "list_all writable segs"
  shows "parse_path (print_path segs) = Inr segs"
proof (cases "segs = []")
  case True
  then show ?thesis by (simp add: parse_path_def print_path_def trim_str_def parse_segs.simps(1))
next
  case False
  note e = print_path_ends [OF False]
  then have "trim_str (print_path segs) = print_path segs"
    by (intro trim_str_id) (simp_all add: is_whitespace_def)
  with e parse_segs_print [OF assms, of True] show ?thesis
    by (cases "print_path segs") (auto simp: parse_path_def)
qed

theorem parse_print_path_witness:
  "parse_path (print_path [Key (lit ''a.b''), Idx (- 1), Key []]) = Inr [Key (lit ''a.b''), Idx (- 1), Key []]"
  by (rule parse_print_path) simp

text \<open>
  (C26) A value set at a path is found there, and nothing else moves: when \<^verbatim>\<open>set\<close> succeeds on a JSON
  or a typed document, reading the path gives the value, and reading any path that parts from it
  gives what it gave before.
\<close>

theorem path_set_get:
  "(jp_set j p v = (Inr (), j') \<longrightarrow>
     jp_get j' p = Some v \<and> (parts json_tree j p q \<longrightarrow> jp_get j' q = jp_get j q)) \<and>
   (dp_set d p' w = (Inr (), d') \<longrightarrow>
     dp_get d' p' = Some w \<and> (parts doc_tree d p' q' \<longrightarrow> dp_get d' q' = dp_get d q'))"
  unfolding path_ops by (auto dest: jt.get_set jt.set_frame dt.get_set dt.set_frame)

theorem path_set_get_witness:
  "jp_get (JObject [(lit ''a'', JArray [JNull, JBool True]), (lit ''n'', JNull)]) [Key (lit ''a''), Idx 1] = Some (JBool True) \<and>
   dp_get (DObject [(lit ''a'', DNull), (lit ''b'', DObject [(lit ''c'', DBool True)])]) [Key (lit ''b''), Key (lit ''c'')]
     = Some (DBool True)"
  using path_set_get [of "JObject [(lit ''a'', JArray [JNull]), (lit ''n'', JNull)]" "[Key (lit ''a''), Idx 1]" "JBool True"
      "JObject [(lit ''a'', JArray [JNull, JBool True]), (lit ''n'', JNull)]" "[Key (lit ''n'')]"
      "DObject [(lit ''a'', DNull)]" "[Key (lit ''b''), Key (lit ''c'')]" "DBool True"
      "DObject [(lit ''a'', DNull), (lit ''b'', DObject [(lit ''c'', DBool True)])]"
      "[Key (lit ''a'')]"]
  by (simp add: path_ops tree_set_def set_last_def json_tree_def doc_tree_def position_def)

text \<open>
  \<^verbatim>\<open>delete\<close> says the truth: it reports a removal exactly when the path designates something
  below the root, and otherwise leaves the document as it was.
\<close>

theorem path_delete_exact:
  "(fst (jp_delete j p) \<longleftrightarrow> p \<noteq> [] \<and> jp_get j p \<noteq> None) \<and>
   (fst (dp_delete d p) \<longleftrightarrow> p \<noteq> [] \<and> dp_get d p \<noteq> None) \<and>
   (fst (jp_delete j p) \<or> snd (jp_delete j p) = j) \<and> (fst (dp_delete d p) \<or> snd (dp_delete d p) = d)"
  unfolding path_ops
  using jt.delete_iff [of j p] jt.delete_False [of j p] dt.delete_iff [of d p] dt.delete_False [of d p] by blast

end
