(* ===== verification/SecIndex.thy ===== *)
theory SecIndex
  imports Path Util "HOL-Library.Product_Lexorder"
begin

text \<open>
  The secondary indexes of \<^verbatim>\<open>src/engine.rs\<close> (\<^verbatim>\<open>SKey\<close>, \<^verbatim>\<open>IndexKind\<close>, \<^verbatim>\<open>Postings\<close>, \<^verbatim>\<open>SecIndex\<close>) and
  the views of documents they read (\<^verbatim>\<open>src/view.rs\<close>). A \<^verbatim>\<open>NumKey\<close> compares, orders and hashes by its
  exact value, so it is kept as that value; both kinds of \<^verbatim>\<open>Postings\<close> are an ordered map, since no
  operation here depends on the order of a hash table.
\<close>

subsection \<open>Views of documents\<close>

datatype doc_view = ViewJson json | ViewTyped doc

datatype leaf = LeafJson json | LeafDoc doc

definition view_get :: "doc_view \<Rightarrow> seg list \<Rightarrow> leaf option" where
  "view_get v path = (case v of
     ViewJson j \<Rightarrow> map_option LeafJson (jp_get j path)
   | ViewTyped d \<Rightarrow> map_option LeafDoc (dp_get d path))"

text \<open>The library and time texts a plain JSON form needs, and \<^verbatim>\<open>str::to_lowercase\<close>.\<close>

record doc_env =
  env_norm :: "decimal \<Rightarrow> decimal"
  env_texts :: doc_texts
  env_lower :: "rstring \<Rightarrow> rstring"

definition leaf_json :: "doc_env \<Rightarrow> leaf \<Rightarrow> json" where
  "leaf_json E l = (case l of LeafJson j \<Rightarrow> j | LeafDoc d \<Rightarrow> to_plain_json (env_norm E) (env_texts E) d)"

definition leaf_decimal :: "leaf \<Rightarrow> decimal option" where
  "leaf_decimal l = (case l of LeafDoc (DDecimal d) \<Rightarrow> Some d | _ \<Rightarrow> None)"

subsection \<open>Index keys\<close>

datatype skey = SNull | SBool bool | SNum rat | SStr rstring | STuple "skey list"

definition skey_from_json :: "json \<Rightarrow> skey option" where
  "skey_from_json j = (case j of
     JNull \<Rightarrow> Some SNull | JBool b \<Rightarrow> Some (SBool b) | JNumber n \<Rightarrow> Some (SNum (num_value n))
   | JString s \<Rightarrow> Some (SStr s) | _ \<Rightarrow> None)"

definition skey_from_leaf :: "doc_env \<Rightarrow> leaf \<Rightarrow> skey option" where
  "skey_from_leaf E l = (case leaf_decimal l of
     Some d \<Rightarrow> Some (SNum (decimal_value d)) | None \<Rightarrow> skey_from_json (leaf_json E l))"

definition same_kind :: "skey \<Rightarrow> skey \<Rightarrow> bool" where
  "same_kind a b = (case a of
     SNull \<Rightarrow> (case b of SNull \<Rightarrow> True | _ \<Rightarrow> False)
   | SBool _ \<Rightarrow> (case b of SBool _ \<Rightarrow> True | _ \<Rightarrow> False)
   | SNum _ \<Rightarrow> (case b of SNum _ \<Rightarrow> True | _ \<Rightarrow> False)
   | SStr _ \<Rightarrow> (case b of SStr _ \<Rightarrow> True | _ \<Rightarrow> False)
   | STuple _ \<Rightarrow> (case b of STuple _ \<Rightarrow> True | _ \<Rightarrow> False))"

text \<open>
  The derived order of \<^verbatim>\<open>SKey\<close>: by kind, then by value, tuples lexicographically. It is the
  lexicographic order of the keys written out as tokens, the end of a tuple first.
\<close>

type_synonym skey_token = "nat \<times> bool \<times> rat \<times> rstring"

fun skey_tokens :: "skey \<Rightarrow> skey_token list" where
  "skey_tokens SNull = [(1, False, 0, [])]"
| "skey_tokens (SBool b) = [(2, b, 0, [])]"
| "skey_tokens (SNum r) = [(3, False, r, [])]"
| "skey_tokens (SStr s) = [(4, False, 0, s)]"
| "skey_tokens (STuple ks) = (5, False, 0, []) # concat (map skey_tokens ks) @ [(0, False, 0, [])]"

lemma skey_tokens_hd: "\<exists>t ts. skey_tokens k = t # ts \<and> 0 < fst t"
  by (cases k) auto

lemma skey_tokens_prefix_free: "skey_tokens a @ r = skey_tokens b @ s \<Longrightarrow> a = b \<and> r = s"
proof (induction a arbitrary: b r s)
  case (STuple ks)
  then obtain js where b: "b = STuple js" by (cases b) auto
  have "concat (map skey_tokens ks) @ (0, False, 0, []) # r = concat (map skey_tokens js) @ (0, False, 0, []) # s \<Longrightarrow>
      (\<And>k b r s. k \<in> set ks \<Longrightarrow> skey_tokens k @ r = skey_tokens b @ s \<Longrightarrow> k = b \<and> r = s) \<Longrightarrow> ks = js \<and> r = s"
    for ks js
  proof (induction ks arbitrary: js)
    case Nil
    then show ?case
    proof (cases js)
      case (Cons j js')
      with Nil.prems(1) skey_tokens_hd [of j] show ?thesis by auto
    qed simp
  next
    case (Cons k ks)
    show ?case
    proof (cases js)
      case Nil
      with Cons.prems(1) skey_tokens_hd [of k] show ?thesis by auto
    next
      case js: (Cons j js')
      let ?r = "concat (map skey_tokens ks) @ (0, False, 0, []) # r"
      let ?s = "concat (map skey_tokens js') @ (0, False, 0, []) # s"
      have "k = j \<and> ?r = ?s"
        using Cons.prems(1) by (intro Cons.prems(2)) (simp_all add: js)
      moreover have "?r = ?s \<Longrightarrow> ks = js' \<and> r = s"
        by (rule Cons.IH) (use Cons.prems(2) in auto)
      ultimately show ?thesis using js by simp
    qed
  qed
  from this [of ks js] STuple b show ?case by simp
qed (case_tac b; auto)+

lemma skey_tokens_inject: "skey_tokens a = skey_tokens b \<longleftrightarrow> a = b"
  using skey_tokens_prefix_free [of a "[]" b "[]"] by auto

instantiation skey :: linorder
begin

definition less_eq_skey :: "skey \<Rightarrow> skey \<Rightarrow> bool" where
  "less_eq_skey a b \<longleftrightarrow> skey_tokens a \<le> skey_tokens b"

definition less_skey :: "skey \<Rightarrow> skey \<Rightarrow> bool" where
  "less_skey a b \<longleftrightarrow> skey_tokens a < skey_tokens b"

instance
  by intro_classes (auto simp: less_eq_skey_def less_skey_def skey_tokens_inject [symmetric])

end

lemma skey_order:
  "SNull < SBool b" "SBool b < SNum r" "SNum r < SStr s" "SStr s < STuple ks"
  "SBool b < SBool c \<longleftrightarrow> b < c" "SNum r < SNum q \<longleftrightarrow> r < q" "SStr s < SStr t \<longleftrightarrow> s < t"
  by (auto simp: less_skey_def less_prod_def less_eq_prod_def)

subsection \<open>Postings\<close>

datatype index_kind = BTree | HashIdx

type_synonym postings = "(skey, rstring oset) omap"

definition postings_add :: "skey \<Rightarrow> rstring \<Rightarrow> postings \<Rightarrow> postings" where
  "postings_add sk key m =
     om_insert sk (om_insert key () (case om_get m sk of Some ks \<Rightarrow> ks | None \<Rightarrow> [])) m"

definition postings_take :: "skey \<Rightarrow> rstring \<Rightarrow> postings \<Rightarrow> postings" where
  "postings_take sk key m = (case om_get m sk of
     None \<Rightarrow> m
   | Some ks \<Rightarrow>
       if om_get ks key = None then m
       else (let ks = om_remove key ks in
         if ks = [] then om_remove sk m else om_insert sk ks m))"

record sec_index =
  si_pattern :: rstring
  si_field :: rstring
  si_paths :: "seg list list"
  si_kind :: index_kind
  si_unique :: bool
  si_fold :: bool
  si_map :: postings
  si_rev :: "(rstring, skey) omap"

definition sec_new :: "rstring \<Rightarrow> rstring \<Rightarrow> seg list list \<Rightarrow> index_kind \<Rightarrow> bool \<Rightarrow> sec_index" where
  "sec_new pattern field paths kind unique = \<lparr>si_pattern = pattern, si_field = field, si_paths = paths, si_kind = kind,
     si_unique = unique, si_fold = False, si_map = [], si_rev = []\<rparr>"

definition sec_folding :: "bool \<Rightarrow> sec_index \<Rightarrow> sec_index" where
  "sec_folding b s = s\<lparr>si_fold := b\<rparr>"

definition sec_clear :: "sec_index \<Rightarrow> sec_index" where
  "sec_clear s = s\<lparr>si_map := [], si_rev := []\<rparr>"

definition sec_one :: "doc_env \<Rightarrow> bool \<Rightarrow> doc_view \<Rightarrow> seg list \<Rightarrow> skey option" where
  "sec_one E fold_case d path = (case view_get d path of
     None \<Rightarrow> None
   | Some l \<Rightarrow> map_option (\<lambda>sk. case sk of SStr s \<Rightarrow> if fold_case then SStr (env_lower E s) else sk | _ \<Rightarrow> sk)
       (skey_from_leaf E l))"

definition sec_value :: "doc_env \<Rightarrow> sec_index \<Rightarrow> doc_view \<Rightarrow> skey option" where
  "sec_value E s d = (case si_paths s of
     [path] \<Rightarrow> sec_one E (si_fold s) d path
   | paths \<Rightarrow> (let ks = map (sec_one E (si_fold s) d) paths in
       if list_all (\<lambda>k. k \<noteq> None) ks then Some (STuple (map the ks)) else None))"

definition sec_holders :: "sec_index \<Rightarrow> rstring \<Rightarrow> skey \<Rightarrow> rstring list" where
  "sec_holders s key sk =
     (case (if si_unique s then om_get (si_map s) sk else None) of
        None \<Rightarrow> [] | Some ks \<Rightarrow> filter (\<lambda>k. k \<noteq> key) (map fst ks))"

definition first_duplicate :: "sec_index \<Rightarrow> (rstring \<times> rstring \<times> skey) option" where
  "first_duplicate s = (case find (\<lambda>(sk, keys). length keys > 1) (si_map s) of
     Some (sk, a # b # _) \<Rightarrow> Some (fst a, fst b, sk) | _ \<Rightarrow> None)"

definition sec_remove :: "rstring \<Rightarrow> sec_index \<Rightarrow> sec_index" where
  "sec_remove key s = (case om_get (si_rev s) key of
     None \<Rightarrow> s
   | Some sk \<Rightarrow> s\<lparr>si_rev := om_remove key (si_rev s), si_map := postings_take sk key (si_map s)\<rparr>)"

definition sec_update :: "doc_env \<Rightarrow> rstring \<Rightarrow> doc_view option \<Rightarrow> sec_index \<Rightarrow> sec_index" where
  "sec_update E key d s =
     (if \<not> glob_match (si_pattern s) key then s
      else (let sk = Option.bind d (sec_value E s) in
        if om_get (si_rev s) key = sk then s
        else (let s = sec_remove key s in
          case sk of
            None \<Rightarrow> s
          | Some sk \<Rightarrow> s\<lparr>si_map := postings_add sk key (si_map s), si_rev := om_insert key sk (si_rev s)\<rparr>)))"

subsection \<open>The two maps agree\<close>

definition posted :: "postings \<Rightarrow> skey \<Rightarrow> rstring \<Rightarrow> bool" where
  "posted m sk key \<longleftrightarrow> (case om_get m sk of Some ks \<Rightarrow> om_get ks key \<noteq> None | None \<Rightarrow> False)"

definition postings_ok :: "postings \<Rightarrow> bool" where
  "postings_ok m \<longleftrightarrow> om_ok m \<and> list_all (\<lambda>(sk, ks). om_ok ks \<and> ks \<noteq> []) m"

definition sec_ok :: "sec_index \<Rightarrow> bool" where
  "sec_ok s \<longleftrightarrow> postings_ok (si_map s) \<and> om_ok (si_rev s) \<and>
     (\<forall>sk key. posted (si_map s) sk key \<longleftrightarrow> om_get (si_rev s) key = Some sk)"

lemma postings_okD: "postings_ok m \<Longrightarrow> om_get m sk = Some ks \<Longrightarrow> om_ok ks \<and> ks \<noteq> []"
  by (auto simp: postings_ok_def list_all_iff dest: om_get_SomeD)

lemma postings_ok_nil [simp]: "postings_ok []" "posted [] sk key \<longleftrightarrow> False"
  by (simp_all add: postings_ok_def posted_def)

lemma postings_ok_insert:
  "postings_ok m \<Longrightarrow> om_ok ks \<Longrightarrow> ks \<noteq> [] \<Longrightarrow> postings_ok (om_insert sk ks m)"
proof -
  have "list_all P m \<Longrightarrow> P (sk, ks) \<Longrightarrow> list_all P (om_insert sk ks m)" for P
    by (induction m) auto
  then show "postings_ok m \<Longrightarrow> om_ok ks \<Longrightarrow> ks \<noteq> [] \<Longrightarrow> postings_ok (om_insert sk ks m)"
    by (simp add: postings_ok_def)
qed

lemma postings_ok_remove: "postings_ok m \<Longrightarrow> postings_ok (om_remove sk m)"
proof -
  have "list_all P m \<Longrightarrow> list_all P (om_remove sk m)" for P
    by (induction m) auto
  then show "postings_ok m \<Longrightarrow> postings_ok (om_remove sk m)"
    by (simp add: postings_ok_def)
qed

lemma om_insert_nonempty [simp]: "om_insert k v m \<noteq> []"
  by (cases m) auto

lemma postings_add_ok: "postings_ok m \<Longrightarrow> postings_ok (postings_add sk key m)"
  by (simp add: postings_add_def postings_ok_insert postings_okD split: option.splits)

lemma posted_add: "posted (postings_add sk key m) sk' key' \<longleftrightarrow> (sk' = sk \<and> key' = key) \<or> posted m sk' key'"
  by (auto simp: postings_add_def posted_def split: option.splits)

lemma postings_take_ok: "postings_ok m \<Longrightarrow> postings_ok (postings_take sk key m)"
  by (simp add: postings_take_def Let_def postings_ok_insert postings_ok_remove postings_okD split: option.splits)

lemma om_get_only: "om_remove key ks = [] \<Longrightarrow> key' \<noteq> key \<Longrightarrow> om_get ks key' = None"
  by (induction ks) (auto split: if_splits)

lemma posted_take:
  assumes "postings_ok m"
  shows "posted (postings_take sk key m) sk' key' \<longleftrightarrow> posted m sk' key' \<and> \<not> (sk' = sk \<and> key' = key)"
proof (cases "om_get m sk")
  case None
  then show ?thesis by (auto simp: postings_take_def posted_def)
next
  case (Some ks)
  have ok: "om_ok m" "om_ok ks" using assms postings_okD [OF assms Some] by (simp_all add: postings_ok_def)
  consider "om_get ks key = None" | "om_get ks key \<noteq> None" "om_remove key ks = []"
    | "om_get ks key \<noteq> None" "om_remove key ks \<noteq> []" by blast
  then show ?thesis
  proof cases
    case 1
    then show ?thesis by (cases "sk' = sk") (auto simp: postings_take_def posted_def Some)
  next
    case 2
    then show ?thesis
      using ok om_get_only [OF 2(2), of key'] by (cases "sk' = sk"; cases "key' = key") (auto simp: postings_take_def posted_def Some)
  next
    case 3
    then show ?thesis
      using ok by (cases "sk' = sk") (auto simp: postings_take_def posted_def Some Let_def)
  qed
qed

lemma sec_new_ok: "sec_ok (sec_new pattern field paths kind unique)"
  and sec_clear_ok: "sec_ok (sec_clear s)"
  by (simp_all add: sec_ok_def sec_new_def sec_clear_def)

lemma sec_remove_ok: "sec_ok s \<Longrightarrow> sec_ok (sec_remove key s)"
  by (auto simp: sec_ok_def sec_remove_def postings_take_ok posted_take split: option.splits)

lemma sec_remove_rev: "sec_ok s \<Longrightarrow> om_get (si_rev (sec_remove key s)) = (om_get (si_rev s))(key := None)"
  by (auto simp: sec_ok_def sec_remove_def fun_eq_iff split: option.splits)

lemma sec_remove_fixed [simp]:
  "si_pattern (sec_remove key s) = si_pattern s" "si_paths (sec_remove key s) = si_paths s"
  "si_fold (sec_remove key s) = si_fold s" "si_unique (sec_remove key s) = si_unique s"
  by (simp_all add: sec_remove_def split: option.splits)

lemma sec_value_cong:
  "si_paths s = si_paths t \<Longrightarrow> si_fold s = si_fold t \<Longrightarrow> sec_value E s = sec_value E t"
  by (rule ext) (simp only: sec_value_def)

lemma sec_value_remove [simp]: "sec_value E (sec_remove key s) = sec_value E s"
  by (rule sec_value_cong) simp_all

lemma sec_update_fixed [simp]:
  "si_pattern (sec_update E key d s) = si_pattern s" "si_paths (sec_update E key d s) = si_paths s"
  "si_fold (sec_update E key d s) = si_fold s" "si_unique (sec_update E key d s) = si_unique s"
  by (simp_all add: sec_update_def Let_def split: option.splits)

lemma sec_value_update [simp]: "sec_value E (sec_update E key d s) = sec_value E s"
  by (rule sec_value_cong) simp_all

lemma sec_update_ok:
  assumes "sec_ok s"
  shows "sec_ok (sec_update E key d s)"
proof -
  have r: "sec_ok (sec_remove key s)" using assms by (rule sec_remove_ok)
  have "om_get (si_rev (sec_remove key s)) key = None" using assms by (simp add: sec_remove_rev)
  with r have "sec_ok (sec_remove key s
      \<lparr>si_map := postings_add sk key (si_map (sec_remove key s)), si_rev := om_insert key sk (si_rev (sec_remove key s))\<rparr>)" for sk
    by (auto simp: sec_ok_def postings_add_ok posted_add)
  with r assms show ?thesis by (simp add: sec_update_def Let_def split: option.splits)
qed

lemma sec_update_rev:
  "sec_ok s \<Longrightarrow> om_get (si_rev (sec_update E key d s)) =
     (if glob_match (si_pattern s) key then (om_get (si_rev s))(key := Option.bind d (sec_value E s)) else om_get (si_rev s))"
  by (auto simp: sec_update_def Let_def sec_remove_rev split: option.splits)

text \<open>
  The refinement: an index of a pattern stands for the documents of the store when it holds, for each
  key of the pattern, the indexed value of the document of that key, and nothing else.
\<close>

definition represents :: "doc_env \<Rightarrow> sec_index \<Rightarrow> (rstring \<Rightarrow> doc_view option) \<Rightarrow> bool" where
  "represents E s docs \<longleftrightarrow> sec_ok s \<and> (\<forall>key. om_get (si_rev s) key =
     (if glob_match (si_pattern s) key then Option.bind (docs key) (sec_value E s) else None))"

locale document_index =
  fixes rep :: "'s \<Rightarrow> ('k \<Rightarrow> 'd option) \<Rightarrow> bool"
    and upd :: "'k \<Rightarrow> 'd option \<Rightarrow> 's \<Rightarrow> 's"
    and rem :: "'k \<Rightarrow> 's \<Rightarrow> 's"
  assumes rep_upd: "rep s docs \<Longrightarrow> rep (upd k d s) (docs(k := d))"
    and rep_rem: "rep s docs \<Longrightarrow> rep (rem k s) (docs(k := None))"
begin

text \<open>Any sequence of writes and deletions keeps the index in step with the documents.\<close>

lemma rep_run:
  "rep s docs \<Longrightarrow>
    rep (fold (\<lambda>w s. case snd w of Some d \<Rightarrow> upd (fst w) (Some d) s | None \<Rightarrow> rem (fst w) s) ws s)
        (fold (\<lambda>w docs. docs(fst w := snd w)) ws docs)"
proof (induction ws arbitrary: s docs)
  case (Cons w ws)
  have "rep (case snd w of Some d \<Rightarrow> upd (fst w) (Some d) s | None \<Rightarrow> rem (fst w) s) (docs(fst w := snd w))"
    using Cons.prems rep_upd [of s docs "fst w" "snd w"] rep_rem [of s docs "fst w"] by (cases "snd w") auto
  from Cons.IH [OF this] show ?case by simp
qed simp

end

interpretation di: document_index "represents E" "sec_update E" sec_remove for E
proof
  fix s docs k d
  assume r: "represents E s docs"
  then have ok: "sec_ok s" by (simp add: represents_def)
  from r ok show "represents E (sec_update E k d s) (docs(k := d))"
    by (simp add: represents_def sec_update_ok sec_update_rev)
  from r ok show "represents E (sec_remove k s) (docs(k := None))"
    by (simp add: represents_def sec_remove_ok sec_remove_rev)
qed

lemma posted_represents:
  "represents E s docs \<Longrightarrow> posted (si_map s) sk key \<longleftrightarrow>
     glob_match (si_pattern s) key \<and> Option.bind (docs key) (sec_value E s) = Some sk"
  by (auto simp: represents_def sec_ok_def)

lemma sec_holders_iff:
  "sec_ok s \<Longrightarrow> key' \<in> set (sec_holders s key sk) \<longleftrightarrow> si_unique s \<and> key' \<noteq> key \<and> posted (si_map s) sk key'"
  by (cases "om_get (si_map s) sk") (auto simp: sec_holders_def posted_def om_get_None_iff [of _ key'] image_iff)

definition index_run :: "doc_env \<Rightarrow> (rstring \<times> doc_view option) list \<Rightarrow> sec_index \<Rightarrow> sec_index" where
  "index_run E ws s = fold (\<lambda>w s. case snd w of Some d \<Rightarrow> sec_update E (fst w) (Some d) s | None \<Rightarrow> sec_remove (fst w) s) ws s"

lemma represents_run:
  "represents E s docs \<Longrightarrow> represents E (index_run E ws s) (fold (\<lambda>w docs. docs(fst w := snd w)) ws docs)"
  unfolding index_run_def by (rule di.rep_run)

lemma index_run_fixed:
  "si_pattern (index_run E ws s) = si_pattern s" "si_paths (index_run E ws s) = si_paths s"
  "si_fold (index_run E ws s) = si_fold s" "si_unique (index_run E ws s) = si_unique s"
  by (induction ws arbitrary: s) (simp_all add: index_run_def split: option.splits)

lemma represents_new: "represents E (sec_new pattern field paths kind unique) (\<lambda>_. None)"
  by (simp add: represents_def sec_new_ok) (simp add: sec_new_def)

lemma first_duplicate_iff:
  assumes ok: "sec_ok s"
  shows "first_duplicate s = None \<longleftrightarrow>
    (\<forall>a b sk. om_get (si_rev s) a = Some sk \<longrightarrow> om_get (si_rev s) b = Some sk \<longrightarrow> a = b)"
proof -
  have p: "postings_ok (si_map s)" and r: "\<And>sk key. posted (si_map s) sk key \<longleftrightarrow> om_get (si_rev s) key = Some sk"
    using ok by (auto simp: sec_ok_def)
  have *: "om_get (si_map s) sk = Some ks \<Longrightarrow> om_get (si_rev s) k = Some sk \<longleftrightarrow> k \<in> fst ` set ks" for sk ks k
    using r [of sk k] by (auto simp: posted_def om_get_None_iff)
  have one: "length ks \<le> 1 \<longleftrightarrow> (\<forall>a \<in> fst ` set ks. \<forall>b \<in> fst ` set ks. a = b)" if "om_ok ks" for ks :: "rstring oset"
  proof (cases ks)
    case (Cons x xs)
    with that show ?thesis by (cases xs) force+
  qed simp
  have dup: "first_duplicate s = None \<longleftrightarrow> (\<forall>(sk, ks) \<in> set (si_map s). length ks \<le> 1)"
  proof (cases "find (\<lambda>(sk, keys). length keys > 1) (si_map s)")
    case None
    then have "\<forall>x \<in> set (si_map s). length (snd x) \<le> 1" by (fastforce simp: find_None_iff)
    with None show ?thesis by (auto simp: first_duplicate_def)
  next
    case (Some x)
    obtain sk ks where x: "x = (sk, ks)" by (cases x)
    from Some have "x \<in> set (si_map s)" "length ks > 1"
      by (auto simp: find_Some_iff x in_set_conv_nth)
    moreover from \<open>length ks > 1\<close> obtain a b zs where "ks = a # b # zs"
      by (cases ks; cases "tl ks") auto
    ultimately show ?thesis using Some x by (force simp: first_duplicate_def)
  qed
  show ?thesis
  proof
    assume "first_duplicate s = None"
    then have len: "\<And>sk ks. (sk, ks) \<in> set (si_map s) \<Longrightarrow> length ks \<le> 1" using dup by auto
    show "\<forall>a b sk. om_get (si_rev s) a = Some sk \<longrightarrow> om_get (si_rev s) b = Some sk \<longrightarrow> a = b"
    proof (intro allI impI)
      fix a b sk assume ab: "om_get (si_rev s) a = Some sk" "om_get (si_rev s) b = Some sk"
      then obtain ks where ks: "om_get (si_map s) sk = Some ks"
        using r [of sk a] by (auto simp: posted_def split: option.splits)
      with len [of sk ks] one [of ks] postings_okD [OF p ks] ab * [OF ks] show "a = b"
        by (auto dest: om_get_SomeD)
    qed
  next
    assume u: "\<forall>a b sk. om_get (si_rev s) a = Some sk \<longrightarrow> om_get (si_rev s) b = Some sk \<longrightarrow> a = b"
    have "length ks \<le> 1" if "(sk, ks) \<in> set (si_map s)" for sk ks
    proof -
      have g: "om_get (si_map s) sk = Some ks" using that p by (simp add: postings_ok_def om_get_Some_iff)
      with u * [OF g] one [of ks] postings_okD [OF p g] show ?thesis by blast
    qed
    then show "first_duplicate s = None" using dup by auto
  qed
qed

lemma fold_docs:
  "fold (\<lambda>w docs. docs(fst w := snd w)) ws docs key = (case map_of (rev ws) key of Some d \<Rightarrow> d | None \<Rightarrow> docs key)"
proof (induction ws rule: rev_induct)
  case (snoc w ws)
  then show ?case by (cases w) auto
qed simp

text \<open>
  (C18) A secondary index is exact: after any sequence of document writes and deletions on a new
  index, a key is posted under a value exactly when the key matches the index's pattern and its last
  write left a document whose indexed fields have that value; and no two documents share a value
  exactly when \<^verbatim>\<open>first_duplicate\<close> finds none.
\<close>

theorem sec_index_exact:
  "let s0 = sec_folding b (sec_new pattern field paths kind unique);
       s = index_run E ws s0;
       indexed = (\<lambda>key. if glob_match pattern key
                        then Option.bind (Option.bind (map_of (rev ws) key) id) (sec_value E s0) else None)
   in (\<forall>sk key. posted (si_map s) sk key \<longleftrightarrow> indexed key = Some sk) \<and>
      (first_duplicate s = None \<longleftrightarrow> inj_on indexed {key. indexed key \<noteq> None})"
proof -
  let ?new = "sec_folding b (sec_new pattern field paths kind unique)"
  let ?s = "index_run E ws ?new"
  have new: "represents E ?new (\<lambda>_. None)"
    by (simp add: represents_def sec_folding_def sec_new_def sec_ok_def)
  have run: "represents E ?s (fold (\<lambda>w docs. docs(fst w := snd w)) ws (\<lambda>_. None))"
    by (rule represents_run [OF new])
  have val: "sec_value E ?s = sec_value E ?new" by (rule sec_value_cong) (simp_all add: index_run_fixed)
  have pat: "si_pattern ?s = pattern" by (simp add: index_run_fixed sec_folding_def sec_new_def)
  define indexed where "indexed = (\<lambda>key. if glob_match pattern key
    then Option.bind (Option.bind (map_of (rev ws) key) id) (sec_value E ?new) else None)"
  have "Option.bind (fold (\<lambda>w docs. docs(fst w := snd w)) ws (\<lambda>_. None) key) (sec_value E ?s) =
      Option.bind (Option.bind (map_of (rev ws) key) id) (sec_value E ?new)" for key
    by (simp add: fold_docs val split: option.splits)
  then have rev: "om_get (si_rev ?s) key = indexed key" for key
    using run by (simp add: represents_def pat indexed_def)
  have ok: "sec_ok ?s" using run by (simp add: represents_def)
  have "posted (si_map ?s) sk key \<longleftrightarrow> indexed key = Some sk" for sk key
    using ok rev by (simp add: sec_ok_def)
  moreover have "first_duplicate ?s = None \<longleftrightarrow> inj_on indexed {key. indexed key \<noteq> None}"
    unfolding first_duplicate_iff [OF ok] rev inj_on_def by auto
  ultimately show ?thesis by (simp add: Let_def indexed_def)
qed

end
