(* ===== verification/Value.thy ===== *)
theory Value
  imports SecIndex Types "HOL-Library.Countable"
begin

text \<open>
  Typed values (\<^verbatim>\<open>src/value.rs\<close>): the \<^verbatim>\<open>Value\<close> enum, its stored bytes and how they are read back.
  The JSON and MessagePack libraries and the calendar texts of \<^verbatim>\<open>src/time.rs\<close> (formats of the
  \<^verbatim>\<open>chrono\<close> crate) are a \<open>value_lib\<close>; \<open>value_lib_ok\<close> says what the code relies on.
\<close>

datatype kvalue =
    VStr rstring | VNum rstring | VBool bool | VNull | VDoc json | VTyped doc | VBytes bytes
  | VDate int | VDateTime int nat | VTime nat nat

record value_lib =
  vl_doc :: doc_lib
  vl_env :: doc_env
  vl_json_to :: "json \<Rightarrow> bytes"
  vl_json_from :: "bytes \<Rightarrow> json option"
  vl_rmp_to :: "json \<Rightarrow> bytes option"
  vl_rmp_from :: "bytes \<Rightarrow> json option"
  vl_parse_date :: "rstring \<Rightarrow> string + int"
  vl_parse_datetime :: "rstring \<Rightarrow> string + int \<times> nat"
  vl_parse_time :: "rstring \<Rightarrow> string + nat \<times> nat"

abbreviation vl_norm :: "value_lib \<Rightarrow> decimal \<Rightarrow> decimal" where
  "vl_norm V \<equiv> env_norm (vl_env V)"

abbreviation vl_texts :: "value_lib \<Rightarrow> doc_texts" where
  "vl_texts V \<equiv> env_texts (vl_env V)"

abbreviation plain_json :: "value_lib \<Rightarrow> doc \<Rightarrow> json" where
  "plain_json V d \<equiv> to_plain_json (vl_norm V) (vl_texts V) d"

subsection \<open>Types and views\<close>

definition value_ty :: "kvalue \<Rightarrow> vtype" where
  "value_ty v = (case v of
     VStr _ \<Rightarrow> TString | VNum _ \<Rightarrow> TNumber | VBool _ \<Rightarrow> TBoolean | VNull \<Rightarrow> TNull
   | VDoc j \<Rightarrow> (case j of JArray _ \<Rightarrow> TArray | _ \<Rightarrow> TObject)
   | VTyped d \<Rightarrow> (case d of DArray _ \<Rightarrow> TArray | _ \<Rightarrow> TObject)
   | VBytes _ \<Rightarrow> TBytes | VDate _ \<Rightarrow> TDate | VDateTime _ _ \<Rightarrow> TDateTime | VTime _ _ \<Rightarrow> TTime)"

text \<open>\<^verbatim>\<open>DocView::of\<close>, which is \<^verbatim>\<open>as_doc\<close> of the engine.\<close>

definition doc_view_of :: "kvalue \<Rightarrow> doc_view option" where
  "doc_view_of v = (case v of VDoc j \<Rightarrow> Some (ViewJson j) | VTyped d \<Rightarrow> Some (ViewTyped d) | _ \<Rightarrow> None)"

definition check_document :: "doc \<Rightarrow> kiva_error + unit" where
  "check_document d = (case d of
     DArray _ \<Rightarrow> (case doc_check d of Inl e \<Rightarrow> Inl (Invalid e) | Inr u \<Rightarrow> Inr u)
   | DObject _ \<Rightarrow> (case doc_check d of Inl e \<Rightarrow> Inl (Invalid e) | Inr u \<Rightarrow> Inr u)
   | _ \<Rightarrow> Inl (Invalid (''a document is an array or an object, not a ['' @ doc_type_name d @ '']'')))"

definition value_typed :: "value_lib \<Rightarrow> doc \<Rightarrow> kiva_error + kvalue" where
  "value_typed V d = try_bind (check_document d) (\<lambda>_.
     Inr (if json_encodable (vl_norm V) d then VDoc (plain_json V d) else VTyped d))"

definition json_doc :: "value_lib \<Rightarrow> kvalue \<Rightarrow> json option" where
  "json_doc V v = (case v of VDoc j \<Rightarrow> Some j | VTyped d \<Rightarrow> Some (plain_json V d) | _ \<Rightarrow> None)"

subsection \<open>Numbers as texts\<close>

text \<open>
  The closure \<^verbatim>\<open>digits\<close> of \<^verbatim>\<open>is_valid_number\<close>: the digits at the front, if there are some, and the
  rest.
\<close>

definition num_digits :: "rstring \<Rightarrow> (rstring \<times> rstring) option" where
  "num_digits b = (if takeWhile is_digit b = [] then None else Some (takeWhile is_digit b, dropWhile is_digit b))"

text \<open>
  \<^verbatim>\<open>parse::<f64>\<close> of a decimal text rounds to nearest: it is finite exactly below the midpoint
  between the largest float and \<open>2 ^ 1024\<close>.
\<close>

definition f64_finite_text :: "nat \<Rightarrow> int \<Rightarrow> bool" where
  "f64_finite_text m e \<longleftrightarrow>
     (if 0 \<le> e then m * 10 ^ nat e < 2 ^ 1024 - 2 ^ 970 else m < (2 ^ 1024 - 2 ^ 970) * 10 ^ nat (- e))"

definition is_valid_number :: "rstring \<Rightarrow> bool" where
  "is_valid_number s =
     (let b = (case s of c # r \<Rightarrow> if c = ch CHR ''-'' then r else s | [] \<Rightarrow> s) in
      case num_digits b of
        None \<Rightarrow> False
      | Some (whole, b) \<Rightarrow>
          (case (case b of
               c # r \<Rightarrow> if c = ch CHR ''.'' then num_digits r else Some ([], b)
             | [] \<Rightarrow> Some ([], b)) of
             None \<Rightarrow> False
           | Some (fracs, b) \<Rightarrow>
               (case (case b of
                    c # r \<Rightarrow>
                      if c = ch CHR ''e'' \<or> c = ch CHR ''E'' then
                        (let (neg, r) = (case r of
                             d # r' \<Rightarrow> if d = ch CHR ''+'' then (False, r')
                               else if d = ch CHR ''-'' then (True, r') else (False, r)
                           | [] \<Rightarrow> (False, r))
                         in map_option (\<lambda>(ds, r). (if neg then - int (digits_value ds) else int (digits_value ds), r))
                              (num_digits r))
                      else Some (0, b)
                  | [] \<Rightarrow> Some (0, b)) of
                  None \<Rightarrow> False
                | Some (ex, b) \<Rightarrow>
                    b = [] \<and> f64_finite_text (digits_value (whole @ fracs)) (ex - int (length fracs)))))"

subsection \<open>Encoding and decoding\<close>

primrec value_encode :: "value_lib \<Rightarrow> bool \<Rightarrow> kvalue \<Rightarrow> kiva_error + bytes" where
  "value_encode V msgpack (VStr s) = Inr (as_bytes s)"
| "value_encode V msgpack (VNum s) = Inr (as_bytes s)"
| "value_encode V msgpack (VBool b) = Inr (if b then lit_bytes ''true'' else lit_bytes ''false'')"
| "value_encode V msgpack VNull = Inr []"
| "value_encode V msgpack (VDoc j) =
     (if msgpack then (case vl_rmp_to V j of
          Some b \<Rightarrow> Inr b | None \<Rightarrow> Inl (Invalid ''MessagePack encoding failed''))
      else Inr (vl_json_to V j))"
| "value_encode V msgpack (VTyped d) =
     (if msgpack then (case vl_rmp_to V (plain_json V d) of
          Some b \<Rightarrow> Inr b | None \<Rightarrow> Inl (Invalid ''MessagePack encoding failed''))
      else Inr (vl_json_to V (plain_json V d)))"
| "value_encode V msgpack (VBytes b) = Inr b"
| "value_encode V msgpack (VDate d) = Inr (as_bytes (date_text (vl_texts V) d))"
| "value_encode V msgpack (VDateTime s n) = Inr (as_bytes (datetime_text (vl_texts V) s n))"
| "value_encode V msgpack (VTime s n) = Inr (as_bytes (time_text (vl_texts V) s n))"

definition encode_stored_plain :: "value_lib \<Rightarrow> bool \<Rightarrow> kvalue \<Rightarrow> kiva_error + bytes \<times> doc_enc" where
  "encode_stored_plain V msgpack v = (case v of
     VDoc _ \<Rightarrow> if msgpack then try_bind (value_encode V True v) (\<lambda>b. Inr (b, EMsgPack))
       else try_bind (value_encode V False v) (\<lambda>b. Inr (b, EJson))
   | _ \<Rightarrow> try_bind (value_encode V False v) (\<lambda>b. Inr (b, EJson)))"

definition encode_stored :: "value_lib \<Rightarrow> bool \<Rightarrow> kvalue \<Rightarrow> kiva_error + bytes \<times> doc_enc" where
  "encode_stored V msgpack v = (case v of
     VTyped d \<Rightarrow> try_bind (check_document d) (\<lambda>_.
       if json_encodable (vl_norm V) d then encode_stored_plain V msgpack (VDoc (plain_json V d))
       else Inr (doc_encode (vl_doc V) d, EKdoc))
   | _ \<Rightarrow> encode_stored_plain V msgpack v)"

definition decode_text :: "bytes \<Rightarrow> kiva_error + rstring" where
  "decode_text raw = (case from_utf8 raw of
     Some s \<Rightarrow> Inr s | None \<Rightarrow> Inl (Corrupted ''value is not valid UTF-8''))"

definition as_corrupted :: "string + 'a \<Rightarrow> kiva_error + 'a" where
  "as_corrupted r = (case r of Inl e \<Rightarrow> Inl (Corrupted e) | Inr a \<Rightarrow> Inr a)"

definition decode_kdoc :: "value_lib \<Rightarrow> vtype \<Rightarrow> bytes \<Rightarrow> kiva_error + kvalue" where
  "decode_kdoc V ty raw = try_bind (as_corrupted (doc_decode (vl_doc V) raw)) (\<lambda>d.
     if (ty = TArray \<and> (case d of DArray _ \<Rightarrow> True | _ \<Rightarrow> False)) \<or>
        (ty = TObject \<and> (case d of DObject _ \<Rightarrow> True | _ \<Rightarrow> False))
     then Inr (if json_encodable (vl_norm V) d then VDoc (plain_json V d) else VTyped d)
     else Inl (Corrupted ''document does not match its type tag''))"

definition decode_json :: "value_lib \<Rightarrow> vtype \<Rightarrow> bytes \<Rightarrow> doc_enc \<Rightarrow> kiva_error + kvalue" where
  "decode_json V ty raw denc =
     (case (if denc = EMsgPack then vl_rmp_from V raw else vl_json_from V raw) of
        None \<Rightarrow> Inl (Corrupted (if denc = EMsgPack then ''MessagePack document'' else ''JSON document''))
      | Some j \<Rightarrow>
          if (ty = TArray \<and> (case j of JArray _ \<Rightarrow> True | _ \<Rightarrow> False)) \<or>
             (ty = TObject \<and> (case j of JObject _ \<Rightarrow> True | _ \<Rightarrow> False))
          then Inr (VDoc j) else Inl (Corrupted ''document does not match its type tag''))"

definition value_decode :: "value_lib \<Rightarrow> vtype \<Rightarrow> bytes \<Rightarrow> doc_enc \<Rightarrow> kiva_error + kvalue" where
  "value_decode V ty raw denc =
     (if denc = EKdoc \<and> \<not> is_doc ty then Inl (Corrupted (''a ['' @ type_name ty @ ''] marked as a KDOC document''))
      else case ty of
        TString \<Rightarrow> try_bind (decode_text raw) (\<lambda>s. Inr (VStr s))
      | TNumber \<Rightarrow> try_bind (decode_text raw) (\<lambda>s.
          if is_valid_number s then Inr (VNum s) else Inl (Corrupted ''stored number is malformed''))
      | TBoolean \<Rightarrow> if raw = lit_bytes ''true'' then Inr (VBool True)
          else if raw = lit_bytes ''false'' then Inr (VBool False)
          else Inl (Corrupted ''stored boolean is malformed'')
      | TNull \<Rightarrow> Inr VNull
      | TArray \<Rightarrow> if denc = EKdoc then decode_kdoc V ty raw else decode_json V ty raw denc
      | TObject \<Rightarrow> if denc = EKdoc then decode_kdoc V ty raw else decode_json V ty raw denc
      | TBytes \<Rightarrow> Inr (VBytes raw)
      | TDate \<Rightarrow> try_bind (decode_text raw) (\<lambda>s. try_bind (as_corrupted (vl_parse_date V s)) (\<lambda>d. Inr (VDate d)))
      | TDateTime \<Rightarrow> try_bind (decode_text raw) (\<lambda>s.
          try_bind (as_corrupted (vl_parse_datetime V s)) (\<lambda>(a, n). Inr (VDateTime a n)))
      | TTime \<Rightarrow> try_bind (decode_text raw) (\<lambda>s.
          try_bind (as_corrupted (vl_parse_time V s)) (\<lambda>(a, n). Inr (VTime a n))))"

subsection \<open>Plain JSON forms\<close>

definition value_to_json :: "value_lib \<Rightarrow> (rstring \<Rightarrow> number option) \<Rightarrow> kvalue \<Rightarrow> json" where
  "value_to_json V exact_json v = (case v of
     VStr s \<Rightarrow> JString s
   | VNum s \<Rightarrow> (case exact_json s of Some n \<Rightarrow> JNumber n | None \<Rightarrow> JString s)
   | VBool b \<Rightarrow> JBool b
   | VNull \<Rightarrow> JNull
   | VDoc j \<Rightarrow> j
   | VTyped d \<Rightarrow> plain_json V d
   | VBytes b \<Rightarrow> JObject [(lit ''$bytes'', JString (b64_encode b))]
   | VDate d \<Rightarrow> JString (date_text (vl_texts V) d)
   | VDateTime s n \<Rightarrow> JString (datetime_text (vl_texts V) s n)
   | VTime s n \<Rightarrow> JString (time_text (vl_texts V) s n))"

definition value_from_json :: "(number \<Rightarrow> rstring) \<Rightarrow> json \<Rightarrow> kvalue" where
  "value_from_json show_number j = (case j of
     JString s \<Rightarrow> VStr s
   | JNumber n \<Rightarrow> VNum (show_number n)
   | JBool b \<Rightarrow> VBool b
   | JNull \<Rightarrow> VNull
   | JObject [(k, JString s)] \<Rightarrow>
       if k = lit ''$bytes'' then (case b64_decode s of Some b \<Rightarrow> VBytes b | None \<Rightarrow> VDoc j) else VDoc j
   | _ \<Rightarrow> VDoc j)"

subsection \<open>Round trip\<close>

text \<open>The JSON trees the libraries read back: at most 127 levels deep, no duplicate member.\<close>

fun json_depth :: "json \<Rightarrow> nat" where
  "json_depth (JArray items) = Suc (fold max (map json_depth items) 0)"
| "json_depth (JObject m) = Suc (fold max (map (\<lambda>kv. json_depth (snd kv)) m) 0)"
| "json_depth _ = 0"

fun json_ok :: "json \<Rightarrow> bool" where
  "json_ok (JNumber n) \<longleftrightarrow> number_ok n"
| "json_ok (JString s) \<longleftrightarrow> valid_str s"
| "json_ok (JArray items) \<longleftrightarrow> list_all json_ok items"
| "json_ok (JObject m) \<longleftrightarrow> distinct (map fst m) \<and> list_all (\<lambda>kv. valid_str (fst kv) \<and> json_ok (snd kv)) m"
| "json_ok _ \<longleftrightarrow> True"

definition json_stores :: "json \<Rightarrow> bool" where
  "json_stores j \<longleftrightarrow> json_ok j \<and> json_depth j \<le> 127"

text \<open>Calendar values whose texts have four digits for the year and whole milliseconds.\<close>

definition date_ok :: "int \<Rightarrow> bool" where
  "date_ok d \<longleftrightarrow> -719528 \<le> d \<and> d \<le> 2932896"

definition datetime_ok :: "int \<Rightarrow> nat \<Rightarrow> bool" where
  "datetime_ok s n \<longleftrightarrow> date_ok (s div 86400) \<and> n < 1000000000 \<and> n mod 1000000 = 0"

definition time_ok :: "nat \<Rightarrow> nat \<Rightarrow> bool" where
  "time_ok s n \<longleftrightarrow> s < 86400 \<and> n < 1000000000 \<and> n mod 1000000 = 0"

definition value_lib_ok :: "value_lib \<Rightarrow> bool" where
  "value_lib_ok V \<longleftrightarrow> doc_lib_ok (vl_doc V) \<and> normalizes (vl_norm V) \<and>
     (\<forall>j. json_stores j \<longrightarrow> vl_json_from V (vl_json_to V j) = Some j \<and>
        (\<exists>b. vl_rmp_to V j = Some b \<and> vl_rmp_from V b = Some j)) \<and>
     (\<forall>d. date_ok d \<longrightarrow> valid_str (date_text (vl_texts V) d) \<and>
        vl_parse_date V (date_text (vl_texts V) d) = Inr d) \<and>
     (\<forall>s n. datetime_ok s n \<longrightarrow> valid_str (datetime_text (vl_texts V) s n) \<and>
        vl_parse_datetime V (datetime_text (vl_texts V) s n) = Inr (s, n)) \<and>
     (\<forall>s n. time_ok s n \<longrightarrow> valid_str (time_text (vl_texts V) s n) \<and>
        vl_parse_time V (time_text (vl_texts V) s n) = Inr (s, n))"

text \<open>
  The values the constructors of the source make: valid texts, checked numbers, documents that are
  arrays or objects, typed exactly when JSON cannot hold them (\<^verbatim>\<open>Value::typed\<close>).
\<close>

definition value_ok :: "value_lib \<Rightarrow> kvalue \<Rightarrow> bool" where
  "value_ok V v \<longleftrightarrow> (case v of
     VStr s \<Rightarrow> valid_str s
   | VNum s \<Rightarrow> valid_str s \<and> is_valid_number s
   | VDoc j \<Rightarrow> json_stores j \<and> (case j of JArray _ \<Rightarrow> True | JObject _ \<Rightarrow> True | _ \<Rightarrow> False)
   | VTyped d \<Rightarrow> doc_wf (vl_doc V) d \<and> check_document d = Inr () \<and> \<not> json_encodable (vl_norm V) d
   | VDate d \<Rightarrow> date_ok d
   | VDateTime s n \<Rightarrow> datetime_ok s n
   | VTime s n \<Rightarrow> time_ok s n
   | _ \<Rightarrow> True)"

lemma check_documentD:
  assumes "check_document d = Inr ()"
  shows "doc_check d = Inr ()" and "(\<exists>xs. d = DArray xs) \<or> (\<exists>m. d = DObject m)"
  using assms by (cases d; auto simp: check_document_def split: sum.splits)+

lemma decode_text_valid: "valid_str s \<Longrightarrow> decode_text (as_bytes s) = Inr s"
  by (simp add: decode_text_def)

lemma kdoc_decodes:
  assumes "value_lib_ok V" and "value_ok V (VTyped d)"
  shows "doc_decode (vl_doc V) (doc_encode (vl_doc V) d) = Inr d"
  using assms read_value_encode [of "vl_doc V" d 1 "[]"] check_documentD(1) [of d]
  by (simp add: value_lib_ok_def value_ok_def doc_check_def doc_decode_def doc_encode_def)

lemma value_decode_encode:
  assumes V: "value_lib_ok V" and v: "value_ok V v"
  shows "\<exists>raw e. encode_stored V mp v = Inr (raw, e) \<and> value_decode V (value_ty v) raw e = Inr v"
proof (cases v)
  case (VTyped d)
  with v check_documentD [of d] kdoc_decodes [OF V v [unfolded VTyped]] show ?thesis
    by (auto simp: VTyped value_ok_def encode_stored_def value_decode_def decode_kdoc_def value_ty_def as_corrupted_def)
next
  case (VDoc j)
  then obtain b where "vl_rmp_to V j = Some b" "vl_rmp_from V b = Some j" "vl_json_from V (vl_json_to V j) = Some j"
    using V v by (auto simp: value_lib_ok_def value_ok_def)
  with VDoc v show ?thesis
    by (auto simp: value_ok_def encode_stored_def encode_stored_plain_def value_decode_def decode_json_def value_ty_def
        split: json.splits)
qed (use assms in \<open>simp_all add: value_lib_ok_def value_ok_def encode_stored_def encode_stored_plain_def
      value_decode_def value_ty_def decode_text_valid as_corrupted_def\<close>)


text \<open>Libraries that satisfy the hypothesis: trees and moments are written as their numbers.\<close>

instance number :: countable
  by countable_datatype

instance json :: countable
  by countable_datatype

definition plain_texts :: doc_texts where
  "plain_texts = \<lparr>dec_text = (\<lambda>d. show_int (d_mantissa d)), date_text = show_int,
     datetime_text = (\<lambda>s n. show_int (s * 1000000000 + int n)),
     time_text = (\<lambda>s n. show_int (int s * 1000000000 + int n)), parse_leaf = (\<lambda>_ _. Inl ''not a leaf'')\<rparr>"

definition plain_env :: doc_env where
  "plain_env = \<lparr>env_norm = strip_zeros, env_texts = plain_texts, env_lower = map ascii_lower\<rparr>"

definition plain_values :: value_lib where
  "plain_values = \<lparr>vl_doc = plain_lib, vl_env = plain_env,
     vl_json_to = (\<lambda>j. replicate (to_nat j) 0), vl_json_from = (\<lambda>b. Some (from_nat (length b))),
     vl_rmp_to = (\<lambda>j. Some (replicate (to_nat j) 1)), vl_rmp_from = (\<lambda>b. Some (from_nat (length b))),
     vl_parse_date = (\<lambda>s. case parse_int s of Some i \<Rightarrow> Inr i | None \<Rightarrow> Inl ''not a date''),
     vl_parse_datetime = (\<lambda>s. case parse_int s of
        Some i \<Rightarrow> Inr (i div 1000000000, nat (i mod 1000000000)) | None \<Rightarrow> Inl ''not a datetime''),
     vl_parse_time = (\<lambda>s. case parse_int s of
        Some i \<Rightarrow> Inr (nat (i div 1000000000), nat (i mod 1000000000)) | None \<Rightarrow> Inl ''not a time'')\<rparr>"

lemma valid_show_int [simp]: "valid_str (show_int i)"
proof -
  have "valid_char c" if "c \<in> set (show_int i)" for c
    using show_int_chars [OF that] by (auto simp: is_digit_def valid_char_def)
  then show ?thesis by (simp add: valid_str_def list_all_iff)
qed

lemma plain_values_ok: "value_lib_ok plain_values"
  by (simp add: value_lib_ok_def plain_values_def plain_env_def plain_texts_def plain_lib_ok
      strip_zeros_normalizes datetime_ok_def time_ok_def)


end
