(* ===== verification/Journal.thy ===== *)
theory Journal
  imports Types Text
begin

text \<open>
  The change journal (\<^verbatim>\<open>src/changes.rs\<close>): numbered changes in segment files, read again from a
  cursor. A segment file is the list of its bytes; the folder is the list of its segments. Sequence
  numbers and lengths are natural numbers, written as 64-bit words. A failing write is an argument;
  the list of consumers is kept in memory as the source keeps it, its JSON file is left out.
\<close>

subsection \<open>Constants and data\<close>

definition J_MAGIC :: bytes where "J_MAGIC = lit_bytes ''KCDC''"
definition J_VERSION :: u32 where "J_VERSION = 1"
definition HEADER_LEN :: nat where "HEADER_LEN = 24"
definition BODY_FIXED :: nat where "BODY_FIXED = 53"
definition MAX_RECORD :: nat where "MAX_RECORD = 300 * 1024 * 1024"
definition MAX_READ :: nat where "MAX_READ = 1000"
definition MAX_SCAN :: nat where "MAX_SCAN = 20000"
definition INDEX_EVERY :: nat where "INDEX_EVERY = 256"

definition KIND_MARK :: u8 where "KIND_MARK = 0"
definition KIND_SET :: u8 where "KIND_SET = 1"
definition KIND_DEL :: u8 where "KIND_DEL = 2"
definition KIND_RESET :: u8 where "KIND_RESET = 3"

definition F_TXN_END :: u8 where "F_TXN_END = 1"
definition F_MSGPACK :: u8 where "F_MSGPACK = 2"
definition F_VALUE :: u8 where "F_VALUE = 4"
definition F_CREATED :: u8 where "F_CREATED = 8"
definition F_REBUILT :: u8 where "F_REBUILT = 16"
definition F_KDOC :: u8 where "F_KDOC = 32"

lemmas f_defs = F_TXN_END_def F_MSGPACK_def F_VALUE_def F_CREATED_def F_REBUILT_def F_KDOC_def
lemmas kind_defs = KIND_MARK_def KIND_SET_def KIND_DEL_def KIND_RESET_def

record settings =
  set_values :: bool
  retain_secs :: nat
  max_bytes :: nat

definition default_settings :: settings where
  "default_settings = \<lparr>set_values = True, retain_secs = 24 * 3600, max_bytes = 256 * 1024 * 1024\<rparr>"

definition segment_bytes :: "settings \<Rightarrow> nat" where
  "segment_bytes s = min (max (max_bytes s div 8) (2 ^ 20)) (64 * 2 ^ 20)"

datatype change_kind = CSet | CDel | CReset

record new_change =
  nc_kind :: change_kind
  nc_key :: rstring
  nc_ty :: u8
  nc_raw :: bytes
  nc_enc :: doc_enc
  nc_timestamp :: int
  nc_expires_at :: int
  nc_created :: "bool option"
  nc_data_end :: nat

record change =
  ch_seq :: nat
  ch_kind :: change_kind
  ch_key :: rstring
  ch_ty :: u8
  ch_value :: "bytes option"
  ch_enc :: doc_enc
  ch_timestamp :: int
  ch_expires_at :: int
  ch_created :: "bool option"
  ch_txn :: "nat option"
  ch_txn_end :: bool

record segment =
  sg_first_seq :: nat
  sg_data :: bytes \<comment> \<open>the file\<close>
  sg_len :: nat
  sg_last_ts :: int
  sg_index :: "(nat \<times> nat) list"
  sg_records :: nat

record journal =
  j_id :: u64
  j_settings :: settings
  j_keys :: "keys option"
  j_segments :: "segment list"
  j_last_seq :: nat
  j_dirty :: bool
  j_last_pos :: "(u64 \<times> nat) option"
  j_consumers :: "(rstring, nat \<times> int) omap"
  j_broken :: "string option"
  j_written :: nat
  j_read_synced :: nat

datatype read_error = RExpired nat | RInvalid string | ROther kiva_error

record batch =
  b_changes :: "change list"
  b_next :: nat
  b_more :: bool

subsection \<open>Record bodies\<close>

text \<open>\<^verbatim>\<open>Body\<close> and \<^verbatim>\<open>Parsed\<close>, which have the same fields.\<close>

record jbody =
  jb_seq :: nat
  jb_file_id :: u64
  jb_data_end :: nat
  jb_txn :: nat
  jb_kind :: u8
  jb_flags :: u8
  jb_ty :: u8
  jb_timestamp :: int
  jb_expires_at :: int
  jb_key :: rstring
  jb_value :: bytes

definition u64_at :: "bytes \<Rightarrow> nat \<Rightarrow> u64" where
  "u64_at b i = le_word (take 8 (drop i b))"

definition u32_at :: "bytes \<Rightarrow> nat \<Rightarrow> u32" where
  "u32_at b i = le_word (take 4 (drop i b))"

definition jbody_bytes :: "jbody \<Rightarrow> bytes" where
  "jbody_bytes b =
     le_bytes 8 (word_of_nat (jb_seq b) :: u64) @ le_bytes 8 (jb_file_id b) @
     le_bytes 8 (word_of_nat (jb_data_end b) :: u64) @ le_bytes 8 (word_of_nat (jb_txn b) :: u64) @
     [jb_kind b, jb_flags b, jb_ty b] @ i64_bytes (jb_timestamp b) @ i64_bytes (jb_expires_at b) @
     le_bytes 2 (word_of_nat (length (as_bytes (jb_key b))) :: u16) @ as_bytes (jb_key b) @ jb_value b"

text \<open>
  \<^verbatim>\<open>String::from_utf8_lossy\<close>: each maximal ill-formed piece becomes U+FFFD. \<open>bad_len\<close> is the length of
  that piece: the longest start of a sequence that could still have become a character.
\<close>

definition second_ok :: "u8 \<Rightarrow> u8 \<Rightarrow> bool" where
  "second_ok b0 b1 \<longleftrightarrow> is_cont b1 \<and> (b0 = 0xE0 \<longrightarrow> 0xA0 \<le> unat b1) \<and> (b0 = 0xED \<longrightarrow> unat b1 < 0xA0) \<and>
     (b0 = 0xF0 \<longrightarrow> 0x90 \<le> unat b1) \<and> (b0 = 0xF4 \<longrightarrow> unat b1 < 0x90)"

definition bad_len :: "bytes \<Rightarrow> nat" where
  "bad_len bs = (case bs of
     b0 # b1 # r \<Rightarrow>
       if 0xE0 \<le> unat b0 \<and> unat b0 < 0xF5 \<and> second_ok b0 b1
       then (if 0xF0 \<le> unat b0 \<and> r \<noteq> [] \<and> is_cont (hd r) then 3 else 2) else 1
   | _ \<Rightarrow> 1)"

function from_utf8_lossy :: "bytes \<Rightarrow> rstring" where
  "from_utf8_lossy bs =
     (if bs = [] then []
      else case utf8_next bs of
        Some (c, r) \<Rightarrow> c # from_utf8_lossy r
      | None \<Rightarrow> 0xFFFD # from_utf8_lossy (drop (bad_len bs) bs))"
  by pat_completeness auto
termination
  by (relation "measure length") (auto dest: utf8_next_shorter simp: bad_len_def split: list.splits)

declare from_utf8_lossy.simps [simp del]

definition parse_jbody :: "bytes \<Rightarrow> jbody option" where
  "parse_jbody b =
     (if length b < BODY_FIXED then None
      else (let klen = unat (le_word (take 2 (drop (BODY_FIXED - 2) b)) :: u16) in
        if length b < BODY_FIXED + klen then None
        else Some \<lparr>jb_seq = unat (u64_at b 0), jb_file_id = u64_at b 8, jb_data_end = unat (u64_at b 16),
          jb_txn = unat (u64_at b 24), jb_kind = b ! 32, jb_flags = b ! 33, jb_ty = b ! 34,
          jb_timestamp = sint (u64_at b 35), jb_expires_at = sint (u64_at b 43),
          jb_key = from_utf8_lossy (take klen (drop BODY_FIXED b)), jb_value = drop (BODY_FIXED + klen) b\<rparr>))"

definition into_change :: "jbody \<Rightarrow> change" where
  "into_change b =
     \<lparr>ch_seq = jb_seq b,
      ch_kind = (if jb_kind b = KIND_DEL then CDel else if jb_kind b = KIND_RESET then CReset else CSet),
      ch_key = jb_key b, ch_ty = jb_ty b,
      ch_value = (if jb_flags b AND F_VALUE \<noteq> 0 then Some (jb_value b) else None),
      ch_enc = (if jb_flags b AND F_KDOC \<noteq> 0 then EKdoc else if jb_flags b AND F_MSGPACK \<noteq> 0 then EMsgPack else EJson),
      ch_timestamp = jb_timestamp b, ch_expires_at = jb_expires_at b,
      ch_created = (if jb_flags b AND F_REBUILT \<noteq> 0 then None else Some (jb_flags b AND F_CREATED \<noteq> 0)),
      ch_txn = (if jb_txn b \<noteq> 0 then Some (jb_txn b) else None),
      ch_txn_end = (jb_flags b AND F_TXN_END \<noteq> 0)\<rparr>"

subsection \<open>Frames and segments\<close>

definition frame :: "(bytes \<Rightarrow> u32) \<Rightarrow> bytes \<Rightarrow> nat \<Rightarrow> (bytes \<times> nat) option" where
  "frame crc data pos =
     (if length data - pos < 8 then None
      else (let len = unat (u32_at data pos); stop = pos + 8 + len in
        if len > MAX_RECORD \<or> stop > length data then None
        else (let body = take len (drop (pos + 8) data) in
          if crc body = u32_at data (pos + 4) then Some (body, stop) else None)))"

definition open_body :: "aead \<Rightarrow> keys option \<Rightarrow> u64 \<Rightarrow> bytes \<Rightarrow> kiva_error + bytes" where
  "open_body A ks jid sealed = (case ks of
     Some _ \<Rightarrow> (case open_with A ks DChanges (le_bytes 8 jid) sealed of
        Inl e \<Rightarrow> Inl (into_error e) | Inr b \<Rightarrow> Inr b)
   | None \<Rightarrow> Inr sealed)"

definition parse_seg_header :: "bytes \<Rightarrow> nat \<Rightarrow> u64 option" where
  "parse_seg_header data first =
     (if length data < HEADER_LEN \<or> take 4 data \<noteq> J_MAGIC \<or> u32_at data 4 \<noteq> J_VERSION then None
      else if unat (u64_at data 16) = first then Some (u64_at data 8) else None)"

definition new_segment :: "u64 \<Rightarrow> nat \<Rightarrow> segment" where
  "new_segment jid first =
     \<lparr>sg_first_seq = first,
      sg_data = J_MAGIC @ le_bytes 4 J_VERSION @ le_bytes 8 jid @ le_bytes 8 (word_of_nat first :: u64),
      sg_len = HEADER_LEN, sg_last_ts = 0, sg_index = [], sg_records = 0\<rparr>"

definition push_record :: "aead \<Rightarrow> (bytes \<Rightarrow> u32) \<Rightarrow> journal \<Rightarrow> kiva_error + bytes \<Rightarrow> bytes \<Rightarrow> kiva_error + bytes" where
  "push_record A crc j rng body =
     try_bind (case j_keys j of Some k \<Rightarrow> seal A k rng DChanges (le_bytes 8 (j_id j)) body | None \<Rightarrow> Inr body)
       (\<lambda>body. Inr (le_bytes 4 (word_of_nat (length body) :: u32) @ le_bytes 4 (crc body) @ body))"

definition journal_sync :: "journal \<Rightarrow> journal" where
  "journal_sync j = j\<lparr>j_dirty := False\<rparr>"

definition rotate :: "journal \<Rightarrow> journal" where
  "rotate j = (let j = journal_sync j in
     j\<lparr>j_segments := j_segments j @ [new_segment (j_id j) (j_last_seq j + 1)]\<rparr>)"

text \<open>One offset of \<^verbatim>\<open>write\<close>: the sparse index and the counters of the segment.\<close>

definition note_record :: "nat \<Rightarrow> nat \<times> nat \<times> int \<Rightarrow> segment \<Rightarrow> segment" where
  "note_record at_pos o_rec s = (case o_rec of (sq, off, ts) \<Rightarrow>
     s\<lparr>sg_index := (if sg_records s mod INDEX_EVERY = 0 then sg_index s @ [(sq, at_pos + off)] else sg_index s),
       sg_records := sg_records s + 1, sg_last_ts := ts\<rparr>)"

text \<open>\<open>fault\<close> is the I/O error of the write, if it fails: the file is cut back and the journal is broken.\<close>

definition journal_write :: "string option \<Rightarrow> bytes \<Rightarrow> (nat \<times> nat \<times> int) list \<Rightarrow> journal \<Rightarrow> (kiva_error + unit) \<times> journal" where
  "journal_write fault buf offsets j =
     (let s = last (j_segments j);
          j = (if sg_len s \<ge> segment_bytes (j_settings j) \<and> sg_records s > 0 then rotate j else j);
          s = last (j_segments j); pos = sg_len s in
      case fault of
        Some why \<Rightarrow> (Inl (Io why), j\<lparr>j_broken := Some why\<rparr>)
      | None \<Rightarrow>
          (let s = s\<lparr>sg_data := take pos (sg_data s) @ buf, sg_len := pos + length buf\<rparr>
           in (Inr (), j\<lparr>j_segments := butlast (j_segments j) @ [fold (note_record pos) offsets s], j_dirty := True\<rparr>)))"

text \<open>The body \<^verbatim>\<open>append\<close> makes for the \<open>i\<close>-th of \<open>n\<close> changes.\<close>

definition change_flags :: "journal \<Rightarrow> bool \<Rightarrow> nat \<Rightarrow> nat \<Rightarrow> new_change \<Rightarrow> u8" where
  "change_flags j txn n i c =
     (case nc_enc c of EJson \<Rightarrow> 0 | EMsgPack \<Rightarrow> F_MSGPACK | EKdoc \<Rightarrow> F_KDOC) OR
     (case nc_created c of Some True \<Rightarrow> F_CREATED | Some False \<Rightarrow> 0 | None \<Rightarrow> F_REBUILT) OR
     (if txn \<and> i + 1 = n then F_TXN_END else 0) OR
     (if set_values (j_settings j) \<and> nc_kind c = CSet then F_VALUE else 0)"

definition change_body :: "journal \<Rightarrow> u64 \<Rightarrow> bool \<Rightarrow> nat \<Rightarrow> nat \<Rightarrow> new_change \<Rightarrow> jbody" where
  "change_body j file_id txn n i c =
     \<lparr>jb_seq = j_last_seq j + 1 + i, jb_file_id = file_id, jb_data_end = nc_data_end c,
      jb_txn = (if txn then j_last_seq j + 1 else 0),
      jb_kind = (case nc_kind c of CSet \<Rightarrow> KIND_SET | CDel \<Rightarrow> KIND_DEL | CReset \<Rightarrow> KIND_RESET),
      jb_flags = change_flags j txn n i c, jb_ty = nc_ty c, jb_timestamp = nc_timestamp c,
      jb_expires_at = nc_expires_at c, jb_key = nc_key c,
      jb_value = (if set_values (j_settings j) \<and> nc_kind c = CSet then nc_raw c else [])\<rparr>"

fun push_changes :: "aead \<Rightarrow> (bytes \<Rightarrow> u32) \<Rightarrow> journal \<Rightarrow> (nat \<Rightarrow> kiva_error + bytes) \<Rightarrow> u64 \<Rightarrow> bool \<Rightarrow> nat \<Rightarrow> nat \<Rightarrow>
    new_change list \<Rightarrow> bytes \<Rightarrow> (nat \<times> nat \<times> int) list \<Rightarrow> kiva_error + bytes \<times> (nat \<times> nat \<times> int) list" where
  "push_changes A crc j rng file_id txn n i [] buf offsets = Inr (buf, offsets)"
| "push_changes A crc j rng file_id txn n i (c # cs) buf offsets =
     try_bind (push_record A crc j (rng i) (jbody_bytes (change_body j file_id txn n i c))) (\<lambda>rec.
       push_changes A crc j rng file_id txn n (i + 1) cs (buf @ rec)
         (offsets @ [(j_last_seq j + 1 + i, length buf, nc_timestamp c)]))"

definition journal_append :: "aead \<Rightarrow> (bytes \<Rightarrow> u32) \<Rightarrow> (nat \<Rightarrow> kiva_error + bytes) \<Rightarrow> string option \<Rightarrow> u64 \<Rightarrow>
    new_change list \<Rightarrow> bool \<Rightarrow> journal \<Rightarrow> (kiva_error + unit) \<times> journal" where
  "journal_append A crc rng fault file_id changes txn j =
     (if changes = [] then (Inr (), j)
      else case push_changes A crc j rng file_id txn (length changes) 0 changes [] [] of
        Inl e \<Rightarrow> (Inl e, j)
      | Inr (buf, offsets) \<Rightarrow>
          (case journal_write fault buf offsets j of
             (Inl e, j) \<Rightarrow> (Inl e, j)
           | (Inr (), j') \<Rightarrow> (Inr (), j'\<lparr>j_last_seq := j_last_seq j + length changes,
               j_last_pos := Some (file_id, nc_data_end (last changes)),
               j_written := j_written j' + length changes\<rparr>)))"

definition journal_mark :: "aead \<Rightarrow> (bytes \<Rightarrow> u32) \<Rightarrow> kiva_error + bytes \<Rightarrow> string option \<Rightarrow> u64 \<Rightarrow> nat \<Rightarrow> journal \<Rightarrow>
    (kiva_error + unit) \<times> journal" where
  "journal_mark A crc rng fault file_id data_end j =
     (case push_record A crc j rng (jbody_bytes
         \<lparr>jb_seq = j_last_seq j, jb_file_id = file_id, jb_data_end = data_end, jb_txn = 0, jb_kind = KIND_MARK,
          jb_flags = 0, jb_ty = 0, jb_timestamp = 0, jb_expires_at = 0, jb_key = [], jb_value = []\<rparr>) of
        Inl e \<Rightarrow> (Inl e, j)
      | Inr buf \<Rightarrow>
          (case journal_write fault buf [] j of
             (Inl e, j) \<Rightarrow> (Inl e, j)
           | (Inr (), j) \<Rightarrow> (Inr (), j\<lparr>j_last_pos := Some (file_id, data_end)\<rparr>)))"

definition first_seq :: "journal \<Rightarrow> nat" where
  "first_seq j = (case j_segments j of s # _ \<Rightarrow> sg_first_seq s | [] \<Rightarrow> 1)"

definition journal_bytes :: "journal \<Rightarrow> nat" where
  "journal_bytes j = sum_list (map sg_len (j_segments j))"

definition retained :: "journal \<Rightarrow> nat" where
  "retained j = sum_list (map sg_records (j_segments j))"

function trim_loop :: "int \<Rightarrow> nat \<Rightarrow> journal \<Rightarrow> nat \<times> journal" where
  "trim_loop now removed j =
     (if length (j_segments j) \<le> 1 then (removed, j)
      else (let old = hd (j_segments j);
                too_old = (sg_last_ts old > 0 \<and> sg_last_ts old < now - int (retain_secs (j_settings j)));
                too_big = (journal_bytes j > max_bytes (j_settings j)) in
        if \<not> (too_old \<or> too_big) then (removed, j)
        else trim_loop now (removed + sg_records old) (j\<lparr>j_segments := tl (j_segments j)\<rparr>)))"
  by pat_completeness auto
termination
  by (relation "measure (\<lambda>(now, r, j). length (j_segments j))") auto

declare trim_loop.simps [simp del]

definition trim_journal :: "int \<Rightarrow> journal \<Rightarrow> nat \<times> journal" where
  "trim_journal now j = trim_loop now 0 j"

subsection \<open>Cursors\<close>

fun hex_pad :: "nat \<Rightarrow> nat \<Rightarrow> rstring" where
  "hex_pad 0 n = []"
| "hex_pad (Suc k) n = hex_pad k (n div 16) @ [lit ''0123456789abcdef'' ! (n mod 16)]"

definition cursor :: "u64 \<Rightarrow> nat \<Rightarrow> rstring" where
  "cursor jid sq = hex_pad 16 (unat jid) @ hex_pad 16 sq"

definition hex_value :: "rchar \<Rightarrow> nat option" where
  "hex_value c = (if is_digit c then Some (c - ch CHR ''0'')
     else if ch CHR ''a'' \<le> c \<and> c \<le> ch CHR ''f'' then Some (c - ch CHR ''a'' + 10)
     else if ch CHR ''A'' \<le> c \<and> c \<le> ch CHR ''F'' then Some (c - ch CHR ''A'' + 10) else None)"

definition from_hex :: "rstring \<Rightarrow> nat" where
  "from_hex s = foldl (\<lambda>n c. 16 * n + the (hex_value c)) 0 s"

definition parse_cursor :: "journal \<Rightarrow> rstring \<Rightarrow> read_error + nat" where
  "parse_cursor j s =
     (let c = trim_str s in
      if str_len c \<noteq> 32 \<or> \<not> list_all (\<lambda>x. hex_value x \<noteq> None) c then Inl (RInvalid ''not a cursor of this change journal'')
      else (let jid = from_hex (take 16 c); sq = from_hex (drop 16 c) in
        if jid \<noteq> unat (j_id j) then Inl (RInvalid ''this cursor comes from another change journal'')
        else if sq > j_last_seq j then Inl (RInvalid ''this cursor is ahead of the journal'')
        else Inr sq))"

subsection \<open>Reading\<close>

lemma frame_end: "frame crc data pos = Some (b, stop) \<Longrightarrow> pos < stop \<and> stop \<le> length data"
  by (auto simp: frame_def Let_def split: if_splits)

function read_loop :: "aead \<Rightarrow> (bytes \<Rightarrow> u32) \<Rightarrow> journal \<Rightarrow> bytes \<Rightarrow> nat \<Rightarrow> nat \<Rightarrow> nat \<Rightarrow> rstring option \<Rightarrow>
    change list \<times> nat \<times> nat \<Rightarrow> read_error + bool \<times> change list \<times> nat \<times> nat" where
  "read_loop A crc j data pos after limit pattern st =
     (if \<not> pos < length data then Inr (False, st)
      else case frame crc data pos of
        None \<Rightarrow> Inr (False, st)
      | Some (b, stop) \<Rightarrow>
          (case open_body A (j_keys j) (j_id j) b of
             Inl e \<Rightarrow> Inl (ROther e)
           | Inr body \<Rightarrow>
               (case parse_jbody body of
                  None \<Rightarrow> Inr (False, st)
                | Some r \<Rightarrow>
                    if jb_kind r = KIND_MARK \<or> jb_seq r \<le> after then read_loop A crc j data stop after limit pattern st
                    else (case st of (changes, nxt, scanned) \<Rightarrow>
                      let scanned = scanned + 1;
                          changes = (if (case pattern of None \<Rightarrow> True
                                | Some p \<Rightarrow> glob_match p (jb_key r) \<or> jb_kind r = KIND_RESET)
                              then changes @ [into_change r] else changes);
                          st = (changes, jb_seq r, scanned)
                      in if length changes \<ge> limit \<or> scanned \<ge> MAX_SCAN then Inr (True, st)
                         else read_loop A crc j data stop after limit pattern st))))"
  by pat_completeness auto
termination
  by (relation "measure (\<lambda>(A, crc, j, data, pos, rest). length data - pos)") (auto dest!: frame_end)

declare read_loop.simps [simp del]

fun read_segments :: "aead \<Rightarrow> (bytes \<Rightarrow> u32) \<Rightarrow> journal \<Rightarrow> nat \<Rightarrow> nat \<Rightarrow> rstring option \<Rightarrow> segment list \<Rightarrow>
    change list \<times> nat \<times> nat \<Rightarrow> read_error + change list \<times> nat \<times> nat" where
  "read_segments A crc j after limit pattern [] st = Inr st"
| "read_segments A crc j after limit pattern (s # ss) st =
     (let from = (case find (\<lambda>(q, _). q \<le> after + 1) (rev (sg_index s)) of Some (_, off) \<Rightarrow> off | None \<Rightarrow> HEADER_LEN) in
      if from \<ge> sg_len s then read_segments A crc j after limit pattern ss st
      else (case read_loop A crc j (take (sg_len s - from) (drop from (sg_data s))) 0 after limit pattern st of
          Inl e \<Rightarrow> Inl e
        | Inr (stop, st) \<Rightarrow> if stop then Inr st else read_segments A crc j after limit pattern ss st))"

fun rposition :: "('a \<Rightarrow> bool) \<Rightarrow> 'a list \<Rightarrow> nat option" where
  "rposition P [] = None"
| "rposition P (x # xs) = (case rposition P xs of Some i \<Rightarrow> Some (Suc i) | None \<Rightarrow> if P x then Some 0 else None)"

definition journal_read :: "aead \<Rightarrow> (bytes \<Rightarrow> u32) \<Rightarrow> journal \<Rightarrow> nat \<Rightarrow> nat \<Rightarrow> rstring option \<Rightarrow> read_error + batch" where
  "journal_read A crc j after limit pattern =
     (case j_broken j of
        Some why \<Rightarrow> Inl (ROther (Other ''the change journal could not be written''))
      | None \<Rightarrow>
          if after + 1 < first_seq j then Inl (RExpired (first_seq j))
          else
            (let limit = min (max limit 1) MAX_READ;
                 start = (case rposition (\<lambda>s. sg_first_seq s \<le> after + 1) (j_segments j) of Some i \<Rightarrow> i | None \<Rightarrow> 0)
             in case read_segments A crc j after limit pattern (drop start (j_segments j)) ([], after, 0) of
                  Inl e \<Rightarrow> Inl e
                | Inr (changes, nxt, _) \<Rightarrow> Inr \<lparr>b_changes = changes, b_next = nxt, b_more = (nxt < j_last_seq j)\<rparr>))"

subsection \<open>Consumers\<close>

definition journal_ack :: "rstring \<Rightarrow> nat \<Rightarrow> int \<Rightarrow> journal \<Rightarrow> journal" where
  "journal_ack name sq now j =
     (if map_option fst (om_get (j_consumers j) name) = Some sq then j
      else j\<lparr>j_consumers := om_insert name (sq, now) (j_consumers j)\<rparr>)"

definition journal_consumer :: "journal \<Rightarrow> rstring \<Rightarrow> nat option" where
  "journal_consumer j name = map_option fst (om_get (j_consumers j) name)"

definition remove_consumer :: "rstring \<Rightarrow> journal \<Rightarrow> bool \<times> journal" where
  "remove_consumer name j =
     (if om_get (j_consumers j) name = None then (False, j)
      else (True, j\<lparr>j_consumers := om_remove name (j_consumers j)\<rparr>))"

subsection \<open>Recovery\<close>

record open_scan =
  os_seg :: segment
  os_last_seq :: nat
  os_last_pos :: "(u64 \<times> nat) option"

function open_loop :: "aead \<Rightarrow> (bytes \<Rightarrow> u32) \<Rightarrow> keys option \<Rightarrow> u64 \<Rightarrow> bytes \<Rightarrow> nat \<Rightarrow> open_scan \<Rightarrow> open_scan" where
  "open_loop A crc ks jid data pos st =
     (if \<not> pos < length data then st
      else case frame crc data pos of
        None \<Rightarrow> st
      | Some (b, stop) \<Rightarrow>
          (case open_body A ks jid b of
             Inl _ \<Rightarrow> st
           | Inr body \<Rightarrow>
               (case parse_jbody body of
                  None \<Rightarrow> st
                | Some r \<Rightarrow>
                    (let s = os_seg st;
                         s = (if jb_kind r \<noteq> KIND_MARK then
                             s\<lparr>sg_index := (if sg_records s mod INDEX_EVERY = 0 then sg_index s @ [(jb_seq r, pos)] else sg_index s),
                               sg_records := sg_records s + 1, sg_last_ts := jb_timestamp r\<rparr> else s)
                     in open_loop A crc ks jid data stop
                          \<lparr>os_seg = s\<lparr>sg_len := stop\<rparr>,
                           os_last_seq = (if jb_kind r \<noteq> KIND_MARK then jb_seq r else os_last_seq st),
                           os_last_pos = Some (jb_file_id r, jb_data_end r)\<rparr>))))"
  by pat_completeness auto
termination
  by (relation "measure (\<lambda>(A, crc, ks, jid, data, pos, st). length data - pos)") (auto dest!: frame_end)

declare open_loop.simps [simp del]

text \<open>One file of the folder: its name gives its first number; the newest may be cut.\<close>

fun open_files :: "aead \<Rightarrow> (bytes \<Rightarrow> u32) \<Rightarrow> keys option \<Rightarrow> u64 option \<Rightarrow> (nat \<times> bytes) list \<Rightarrow>
    segment list \<times> nat \<times> (u64 \<times> nat) option \<Rightarrow> kiva_error + u64 option \<times> segment list \<times> nat \<times> (u64 \<times> nat) option" where
  "open_files A crc ks jid [] st = Inr (jid, st)"
| "open_files A crc ks jid ((first, data) # files) (segs, last_seq, last_pos) =
     (case parse_seg_header data first of
        None \<Rightarrow>
          if files = [] then Inr (jid, segs, last_seq, last_pos)
          else Inl (Corrupted ''not a change journal segment'')
      | Some seg_id \<Rightarrow>
          if (case jid of Some i \<Rightarrow> i | None \<Rightarrow> seg_id) \<noteq> seg_id
          then Inl (Corrupted ''belongs to another change journal'')
          else
            (let st = open_loop A crc ks seg_id data HEADER_LEN
                   \<lparr>os_seg = \<lparr>sg_first_seq = first, sg_data = data, sg_len = HEADER_LEN, sg_last_ts = 0,
                      sg_index = [], sg_records = 0\<rparr>, os_last_seq = last_seq, os_last_pos = last_pos\<rparr>;
                 seg = os_seg st in
             if sg_len seg < length data \<and> files \<noteq> [] then Inl (Corrupted ''is damaged'')
             else open_files A crc ks (Some seg_id) files
               (segs @ [seg\<lparr>sg_data := take (sg_len seg) data\<rparr>], os_last_seq st, os_last_pos st)))"

definition journal_open :: "aead \<Rightarrow> (bytes \<Rightarrow> u32) \<Rightarrow> keys option \<Rightarrow> settings \<Rightarrow> u64 \<Rightarrow> (nat \<times> bytes) list \<Rightarrow>
    (rstring, nat \<times> int) omap \<Rightarrow> kiva_error + journal" where
  "journal_open A crc ks stg fresh_id files consumers =
     try_bind (open_files A crc ks None files ([], 0, None)) (\<lambda>(jid, segs, last_seq, last_pos).
       let jid = (case jid of Some i \<Rightarrow> i | None \<Rightarrow> fresh_id);
           segs = (if segs = [] then [new_segment jid (last_seq + 1)] else segs)
       in Inr \<lparr>j_id = jid, j_settings = stg, j_keys = ks, j_segments = segs, j_last_seq = last_seq, j_dirty = False,
            j_last_pos = last_pos, j_consumers = consumers, j_broken = None, j_written = 0, j_read_synced = 0\<rparr>)"

end
