(* ===== verification/Engine.thy ===== *)
theory Engine
  imports Value Cache Journal ScanLog
begin

text \<open>
  The storage engine (\<^verbatim>\<open>src/engine.rs\<close>, \<^verbatim>\<open>struct Inner\<close> and the reads and writes of \<^verbatim>\<open>struct Engine\<close>).
  Every call holds the engine lock, so a call is a function on the state \<open>inner\<close>; the data file is the
  list of its bytes. A call reads the clock once (\<open>c_now\<close>), draws nonces from \<open>c_rng\<close> and may meet an
  I/O fault. What listeners are told is recorded: \<open>i_emitted\<close> and \<open>i_expired\<close>. The state is that of a
  workspace without vector indexes and without schemas, where the loops over \<^verbatim>\<open>vecs\<close> and
  \<^verbatim>\<open>schemas\<close> do nothing. Byte counts and sequence numbers are natural numbers.
\<close>

subsection \<open>The environment of a call\<close>

record engine_env =
  ee_values :: value_lib
  ee_aead :: aead
  ee_crc :: "bytes \<Rightarrow> u32"
  ee_codec :: codec
  ee_keys :: "keys option"

datatype io_fault = NoFault | HeaderFault string | WriteFault string

record call =
  c_now :: int \<comment> \<open>milliseconds\<close>
  c_rng :: "nat \<Rightarrow> kiva_error + bytes"
  c_io :: io_fault
  c_journal_rng :: "nat \<Rightarrow> kiva_error + bytes"
  c_journal_io :: "string option"

abbreviation c_secs :: "call \<Rightarrow> int" where
  "c_secs c \<equiv> c_now c div 1000"

datatype op =
    OpSet rstring vtype bytes doc_enc int int bool
  | OpDel rstring
  | OpReset

subsection \<open>State\<close>

record inner =
  i_file :: bytes
  i_file_len :: nat
  i_file_id :: u64
  i_format :: u32
  i_index :: index
  i_live_bytes :: nat
  i_expiry :: "(int \<times> rstring) oset"
  i_expired :: "rstring list"
  i_seq :: nat
  i_compression :: compression
  i_sec :: "sec_index list"
  i_cache :: "kvalue value_cache"
  i_key_bytes :: nat
  i_active_txns :: nat
  i_tomb_versions :: "(rstring, nat) omap"
  i_reset_seq :: nat
  i_dirty_ops :: nat
  i_unsynced :: bool
  i_corrupted :: nat
  i_closed :: bool
  i_changes :: "journal option"
  i_emitted :: "op list"

definition PURGE_BATCH :: nat where "PURGE_BATCH = 10000"

text \<open>The sizes of \<^verbatim>\<open>String\<close> and \<^verbatim>\<open>Entry\<close> on a 64-bit target.\<close>

definition SIZE_STRING :: nat where "SIZE_STRING = 24"
definition SIZE_ENTRY :: nat where "SIZE_ENTRY = 48"

definition key_cost :: "rstring \<Rightarrow> nat" where
  "key_cost key = str_len key + SIZE_STRING + SIZE_ENTRY + 48"

definition validate_key :: "rstring \<Rightarrow> kiva_error + unit" where
  "validate_key key =
     (if key = [] then Inl (Invalid ''key cannot be empty'')
      else if str_len key > MAX_KEY_LEN then Inl (Invalid ''key is longer than 1024 bytes'')
      else Inr ())"

subsection \<open>Reading records\<close>

text \<open>\<^verbatim>\<open>seek\<close> and \<^verbatim>\<open>read_exact\<close>: past the end of the file it fails.\<close>

definition read_at :: "bytes \<Rightarrow> nat \<Rightarrow> nat \<Rightarrow> bytes option" where
  "read_at f off n = (if off + n \<le> length f then Some (take n (drop off f)) else None)"

definition read_record :: "engine_env \<Rightarrow> entry \<Rightarrow> inner \<Rightarrow> (kiva_error + bytes) \<times> inner" where
  "read_record E e s = (case read_at (i_file s) (e_offset e) (rec_len e) of
     None \<Rightarrow> (Inl (Corrupted ''record cannot be read''), s\<lparr>i_corrupted := i_corrupted s + 1\<rparr>)
   | Some rec \<Rightarrow>
       if \<not> verify_record (ee_crc E) rec
       then (Inl (Corrupted ''checksum mismatch''), s\<lparr>i_corrupted := i_corrupted s + 1\<rparr>)
       else (Inr rec, s))"

definition read_raw :: "engine_env \<Rightarrow> entry \<Rightarrow> inner \<Rightarrow> (kiva_error + bytes) \<times> inner" where
  "read_raw E e s = (case read_record E e s of
     (Inl err, s) \<Rightarrow> (Inl err, s)
   | (Inr rec, s) \<Rightarrow>
       (case open_record (ee_aead E) (ee_keys E) rec of
          Inl err \<Rightarrow> (Inl (into_error err), if err = Tampered then s\<lparr>i_corrupted := i_corrupted s + 1\<rparr> else s)
        | Inr (_, stored) \<Rightarrow> (unpack (ee_codec E) stored (e_compression e), s)))"

definition read_value :: "engine_env \<Rightarrow> entry \<Rightarrow> inner \<Rightarrow> (kiva_error + kvalue) \<times> inner" where
  "read_value E e s = (case read_raw E e s of
     (Inl err, s) \<Rightarrow> (Inl err, s)
   | (Inr raw, s) \<Rightarrow> (value_decode (ee_values E) (e_ty e) raw (e_doc_enc e), s))"

definition value_of :: "engine_env \<Rightarrow> rstring \<Rightarrow> entry \<Rightarrow> inner \<Rightarrow> (kiva_error + kvalue) \<times> inner" where
  "value_of E key e s = (case cache_get key (e_version e) (i_cache s) of
     (Some v, c) \<Rightarrow> (Inr v, s\<lparr>i_cache := c\<rparr>)
   | (None, c) \<Rightarrow>
       (case read_value E e (s\<lparr>i_cache := c\<rparr>) of
          (Inl err, s) \<Rightarrow> (Inl err, s)
        | (Inr v, s) \<Rightarrow> (Inr v, s\<lparr>i_cache := cache_put key (e_version e) v (unat (e_raw_size e)) (i_cache s)\<rparr>)))"

subsection \<open>The index\<close>

definition idx_insert :: "engine_env \<Rightarrow> rstring \<Rightarrow> entry \<Rightarrow> doc_view option \<Rightarrow> inner \<Rightarrow> inner" where
  "idx_insert E key e d s =
     (let old = om_get (i_index s) key;
          s = s\<lparr>i_live_bytes := i_live_bytes s + rec_len e, i_index := om_insert key e (i_index s)\<rparr>;
          s = (case old of
               Some o_ent \<Rightarrow> s\<lparr>i_live_bytes := i_live_bytes s - rec_len o_ent,
                 i_expiry := (if e_expires_at o_ent > 0 then om_remove (e_expires_at o_ent, key) (i_expiry s) else i_expiry s)\<rparr>
             | None \<Rightarrow> s\<lparr>i_key_bytes := i_key_bytes s + key_cost key\<rparr>);
          s = (if e_expires_at e > 0 then s\<lparr>i_expiry := om_insert (e_expires_at e, key) () (i_expiry s)\<rparr> else s)
      in s\<lparr>i_sec := map (sec_update (vl_env (ee_values E)) key d) (i_sec s), i_cache := cache_remove key (i_cache s)\<rparr>)"

definition idx_remove :: "rstring \<Rightarrow> inner \<Rightarrow> entry option \<times> inner" where
  "idx_remove key s = (case om_get (i_index s) key of
     None \<Rightarrow> (None, s)
   | Some o_ent \<Rightarrow> (Some o_ent, s\<lparr>i_index := om_remove key (i_index s), i_key_bytes := i_key_bytes s - key_cost key,
       i_live_bytes := i_live_bytes s - rec_len o_ent,
       i_expiry := (if e_expires_at o_ent > 0 then om_remove (e_expires_at o_ent, key) (i_expiry s) else i_expiry s),
       i_sec := map (sec_remove key) (i_sec s), i_cache := cache_remove key (i_cache s)\<rparr>))"

definition tell_expired :: "rstring \<Rightarrow> inner \<Rightarrow> inner" where
  "tell_expired key s = s\<lparr>i_expired := i_expired s @ [key]\<rparr>"

definition live :: "int \<Rightarrow> rstring \<Rightarrow> inner \<Rightarrow> entry option \<times> inner" where
  "live now key s = (case om_get (i_index s) key of
     None \<Rightarrow> (None, s)
   | Some e \<Rightarrow> if is_expired e now then (None, tell_expired key (snd (idx_remove key s))) else (Some e, s))"

definition recount :: "inner \<Rightarrow> inner" where
  "recount s = s\<lparr>i_live_bytes := FILE_HEADER_LEN + om_sum (\<lambda>_ e. rec_len e) (i_index s),
     i_expiry := fold (\<lambda>kv m. if e_expires_at (snd kv) > 0 then om_insert (e_expires_at (snd kv), fst kv) () m else m) (i_index s) [],
     i_key_bytes := om_sum (\<lambda>k _. key_cost k) (i_index s)\<rparr>"

definition purge_expired :: "int \<Rightarrow> inner \<Rightarrow> nat \<times> inner" where
  "purge_expired now s =
     (let dead = map (snd \<circ> fst) (take PURGE_BATCH (takeWhile (\<lambda>x. fst (fst x) \<le> now) (i_expiry s)))
      in (length dead, fold (\<lambda>k s. tell_expired k (snd (idx_remove k s))) dead s))"

text \<open>\<^verbatim>\<open>purge_all_expired\<close> loops; \<open>None\<close> is a loop that has not ended after \<open>n\<close> rounds.\<close>

fun purge_loop :: "nat \<Rightarrow> int \<Rightarrow> inner \<Rightarrow> inner option" where
  "purge_loop 0 now s = None"
| "purge_loop (Suc n) now s =
     (let (k, s) = purge_expired now s in if k = PURGE_BATCH then purge_loop n now s else Some s)"

definition purge_all_expired :: "int \<Rightarrow> inner \<Rightarrow> inner" where
  "purge_all_expired now s = (case purge_loop (Suc (length (i_expiry s))) now s of Some s' \<Rightarrow> s' | None \<Rightarrow> s)"

subsection \<open>Appending\<close>

definition write_at :: "nat \<Rightarrow> bytes \<Rightarrow> bytes \<Rightarrow> bytes" where
  "write_at off buf f = take off f @ buf @ drop (off + length buf) f"

text \<open>A buffer whose last header announces more bytes than it holds makes \<^verbatim>\<open>format_needed\<close> panic.\<close>

definition append_buf :: "io_fault \<Rightarrow> bytes \<Rightarrow> bool \<Rightarrow> inner \<Rightarrow> (kiva_error + nat) \<times> inner" where
  "append_buf io buf sync s =
     (if i_closed s then (Inl (Other ''database is closed''), s)
      else case format_needed buf of
        None \<Rightarrow> (Inl (Other ''panic''), s)
      | Some need \<Rightarrow>
          (case (if need > i_format s then
                (case io of
                   HeaderFault why \<Rightarrow> (Some why, s)
                 | _ \<Rightarrow> (None, s\<lparr>i_file := write_at 4 (le_bytes 4 need) (i_file s), i_format := need\<rparr>))
              else (None, s)) of
             (Some why, s) \<Rightarrow> (Inl (Io why), s)
           | (None, s) \<Rightarrow>
               (let offset = i_file_len s in
                case io of
                  WriteFault why \<Rightarrow> (Inl (Io why), s\<lparr>i_file := take offset (i_file s)\<rparr>)
                | _ \<Rightarrow> (Inr offset, s\<lparr>i_file := write_at offset buf (i_file s),
                    i_file_len := offset + length buf, i_unsynced := \<not> sync\<rparr>))))"

definition engine_encode :: "engine_env \<Rightarrow> kiva_error + bytes \<Rightarrow> rstring \<Rightarrow> bytes \<Rightarrow> u8 \<Rightarrow> u8 \<Rightarrow> int \<Rightarrow> int \<Rightarrow> kiva_error + bytes" where
  "engine_encode E rng key v ty flags ts ex =
     crypt_encode_record (ee_aead E) (ee_crc E) (ee_keys E) rng key v ty flags ts ex"

definition build_put :: "engine_env \<Rightarrow> kiva_error + bytes \<Rightarrow> compression \<Rightarrow> rstring \<Rightarrow> kvalue \<Rightarrow> int \<Rightarrow> bool \<Rightarrow> int \<Rightarrow> u8 \<Rightarrow>
    kiva_error + bytes \<times> entry \<times> bytes" where
  "build_put E rng algo key v expires_at msgpack timestamp extra_flags =
     try_bind (validate_key key) (\<lambda>_.
     try_bind (encode_stored (ee_values E) (msgpack \<and> is_doc (value_ty v)) v) (\<lambda>(raw, de).
       if length raw > MAX_VALUE_LEN then Inl (Invalid ''value is larger than 256 MB'')
       else (let (stored, cflag) = pack (ee_codec E) raw algo;
                 flags = cflag OR extra_flags OR doc_enc_flags de
         in try_bind (engine_encode E rng key stored (type_u8 (value_ty v)) flags timestamp expires_at) (\<lambda>rec.
              let h = parse_header rec in
              Inr (rec, \<lparr>e_offset = 0, e_k_size = h_k_size h, e_v_size = h_v_size h,
                e_raw_size = word_of_nat (length raw), e_ty = value_ty v, e_flags = h_flags h,
                e_timestamp = timestamp, e_expires_at = expires_at, e_version = 0\<rparr>, raw)))))"

subsection \<open>The change journal of the engine\<close>

text \<open>A failure to journal is reported and otherwise ignored.\<close>

definition journal_list :: "engine_env \<Rightarrow> call \<Rightarrow> new_change list \<Rightarrow> bool \<Rightarrow> inner \<Rightarrow> inner" where
  "journal_list E c nlist txn s = (case i_changes s of
     None \<Rightarrow> s
   | Some j \<Rightarrow> s\<lparr>i_changes := Some (snd (journal_append (ee_aead E) (ee_crc E) (c_journal_rng c) (c_journal_io c)
       (i_file_id s) nlist txn j))\<rparr>)"

definition journal_del :: "engine_env \<Rightarrow> call \<Rightarrow> rstring \<Rightarrow> int \<Rightarrow> nat \<Rightarrow> inner \<Rightarrow> inner" where
  "journal_del E c key timestamp data_end s =
     journal_list E c [\<lparr>nc_kind = CDel, nc_key = key, nc_ty = 0, nc_raw = [], nc_enc = EJson, nc_timestamp = timestamp,
       nc_expires_at = 0, nc_created = None, nc_data_end = data_end\<rparr>] False s"

definition emit :: "op \<Rightarrow> inner \<Rightarrow> inner" where
  "emit o_p s = s\<lparr>i_emitted := i_emitted s @ [o_p]\<rparr>"

subsection \<open>Reads\<close>

definition engine_get :: "engine_env \<Rightarrow> call \<Rightarrow> rstring \<Rightarrow> inner \<Rightarrow> (kiva_error + (kvalue \<times> entry) option) \<times> inner" where
  "engine_get E c key s = (case live (c_now c) key s of
     (None, s) \<Rightarrow> (Inr None, s)
   | (Some e, s) \<Rightarrow>
       (case value_of E key e s of
          (Inl err, s) \<Rightarrow> (Inl err, s)
        | (Inr v, s) \<Rightarrow> (Inr (Some (v, e)), s)))"

definition engine_get_raw :: "engine_env \<Rightarrow> call \<Rightarrow> rstring \<Rightarrow> inner \<Rightarrow> (kiva_error + (bytes \<times> entry) option) \<times> inner" where
  "engine_get_raw E c key s = (case live (c_now c) key s of
     (None, s) \<Rightarrow> (Inr None, s)
   | (Some e, s) \<Rightarrow>
       (case read_raw E e s of
          (Inl err, s) \<Rightarrow> (Inl err, s)
        | (Inr raw, s) \<Rightarrow> (Inr (Some (raw, e)), s)))"

definition engine_contains :: "call \<Rightarrow> rstring \<Rightarrow> inner \<Rightarrow> bool \<times> inner" where
  "engine_contains c key s = (let (e, s) = live (c_now c) key s in (e \<noteq> None, s))"

definition engine_range :: "int \<Rightarrow> rstring option \<Rightarrow> rstring option \<Rightarrow> bool \<Rightarrow> nat \<Rightarrow> inner \<Rightarrow> (rstring \<times> entry) list" where
  "engine_range now from to reverse limit s =
     (let (lo, hi) = (case (from, to) of (Some a, Some b) \<Rightarrow> if a > b then (Some b, Some a) else (from, to) | _ \<Rightarrow> (from, to));
          it = filter (\<lambda>kv. (case lo of Some a \<Rightarrow> a \<le> fst kv | None \<Rightarrow> True) \<and> (case hi of Some b \<Rightarrow> fst kv \<le> b | None \<Rightarrow> True))
                 (i_index s);
          it = filter (\<lambda>kv. \<not> is_expired (snd kv) now) it;
          it = (if reverse then rev it else it)
      in if limit = 0 then it else take limit it)"

definition starts_with :: "rstring \<Rightarrow> rstring \<Rightarrow> bool" where
  "starts_with k p \<longleftrightarrow> take (length p) k = p"

definition keys_matching :: "int \<Rightarrow> rstring \<Rightarrow> nat \<Rightarrow> inner \<Rightarrow> (rstring \<times> entry) list" where
  "keys_matching now pattern limit s =
     (let prefix = glob_prefix pattern;
          it = filter (\<lambda>kv. \<not> is_expired (snd kv) now \<and> glob_match pattern (fst kv))
                 (takeWhile (\<lambda>kv. starts_with (fst kv) prefix) (om_from prefix (i_index s)))
      in if limit = 0 then it else take limit it)"

subsection \<open>Writes\<close>

text \<open>\<^verbatim>\<open>check_unique\<close>: one unique index, the values taken by the writes already looked at.\<close>

fun check_writes :: "engine_env \<Rightarrow> int \<Rightarrow> index \<Rightarrow> sec_index \<Rightarrow> (rstring \<times> doc_view option) list \<Rightarrow>
    (skey, rstring) omap \<Rightarrow> (rstring \<times> doc_view option) list \<Rightarrow> kiva_error + unit" where
  "check_writes E now index si writes taken [] = Inr ()"
| "check_writes E now index si writes taken ((key, d) # rest) =
     (if \<not> glob_match (si_pattern si) key then check_writes E now index si writes taken rest
      else case Option.bind d (sec_value (vl_env (ee_values E)) si) of
        None \<Rightarrow> check_writes E now index si writes taken rest
      | Some sk \<Rightarrow>
          (case (case om_get taken sk of
                Some k \<Rightarrow> Some k
              | None \<Rightarrow> find (\<lambda>k. \<not> list_ex (\<lambda>w. fst w = k) writes \<and>
                    (case om_get index k of Some e \<Rightarrow> \<not> is_expired e now | None \<Rightarrow> False)) (sec_holders si key sk)) of
             Some other \<Rightarrow> Inl (Unique ''already held in the unique index'')
           | None \<Rightarrow> check_writes E now index si writes (om_insert sk key taken) rest))"

fun check_unique :: "engine_env \<Rightarrow> int \<Rightarrow> index \<Rightarrow> sec_index list \<Rightarrow> (rstring \<times> doc_view option) list \<Rightarrow> kiva_error + unit" where
  "check_unique E now index [] writes = Inr ()"
| "check_unique E now index (si # sis) writes =
     (if si_unique si then try_bind (check_writes E now index si writes [] writes) (\<lambda>_. check_unique E now index sis writes)
      else check_unique E now index sis writes)"

definition put_locked :: "engine_env \<Rightarrow> call \<Rightarrow> rstring \<Rightarrow> kvalue \<Rightarrow> int \<Rightarrow> bool \<Rightarrow> int \<Rightarrow> inner \<Rightarrow> (kiva_error + bool) \<times> inner" where
  "put_locked E c key v expires_at msgpack timestamp s =
     (case build_put E (c_rng c 0) (i_compression s) key v expires_at msgpack timestamp 0 of
        Inl err \<Rightarrow> (Inl err, s)
      | Inr (rec, entry, raw) \<Rightarrow>
          (let (found, s) = live (c_now c) key s; created = (found = None) in
           case append_buf (c_io c) rec False s of
             (Inl err, s) \<Rightarrow> (Inl err, s)
           | (Inr offset, s) \<Rightarrow>
               (let entry = entry\<lparr>e_offset := offset\<rparr>;
                    s = journal_list E c [\<lparr>nc_kind = CSet, nc_key = key, nc_ty = type_u8 (value_ty v), nc_raw = raw,
                      nc_enc = e_doc_enc entry, nc_timestamp = timestamp, nc_expires_at = expires_at,
                      nc_created = Some created, nc_data_end = offset + length rec\<rparr>] False s;
                    s = s\<lparr>i_seq := i_seq s + 1\<rparr>;
                    entry = entry\<lparr>e_version := i_seq s\<rparr>;
                    s = idx_insert E key entry (doc_view_of v) s;
                    s = (if is_pinned (i_cache s) key
                         then s\<lparr>i_cache := cache_put key (e_version entry) v (length raw) (i_cache s)\<rparr> else s);
                    s = s\<lparr>i_dirty_ops := i_dirty_ops s + 1\<rparr>
                in (Inr created, emit (OpSet key (value_ty v) raw (e_doc_enc entry) timestamp expires_at created) s))))"

definition put_at :: "engine_env \<Rightarrow> call \<Rightarrow> rstring \<Rightarrow> kvalue \<Rightarrow> int \<Rightarrow> bool \<Rightarrow> int \<Rightarrow> bool \<Rightarrow> inner \<Rightarrow> (kiva_error + bool) \<times> inner" where
  "put_at E c key v expires_at msgpack timestamp check s =
     (case (if check then check_unique E (c_now c) (i_index s) (i_sec s) [(key, doc_view_of v)] else Inr ()) of
        Inl err \<Rightarrow> (Inl err, s)
      | Inr _ \<Rightarrow> put_locked E c key v expires_at msgpack timestamp s)"

definition engine_put :: "engine_env \<Rightarrow> call \<Rightarrow> rstring \<Rightarrow> kvalue \<Rightarrow> int \<Rightarrow> bool \<Rightarrow> inner \<Rightarrow> (kiva_error + bool) \<times> inner" where
  "engine_put E c key v expires_at msgpack s = put_at E c key v expires_at msgpack (c_secs c) True s"

definition put_raw :: "engine_env \<Rightarrow> call \<Rightarrow> rstring \<Rightarrow> vtype \<Rightarrow> bytes \<Rightarrow> doc_enc \<Rightarrow> int \<Rightarrow> int \<Rightarrow> inner \<Rightarrow> (kiva_error + unit) \<times> inner" where
  "put_raw E c key ty raw de timestamp expires_at s = (case value_decode (ee_values E) ty raw de of
     Inl err \<Rightarrow> (Inl err, s)
   | Inr v \<Rightarrow>
       (case put_at E c key v expires_at (de = EMsgPack) timestamp False s of
          (Inl err, s) \<Rightarrow> (Inl err, s)
        | (Inr _, s) \<Rightarrow> (Inr (), s)))"

definition update_with :: "engine_env \<Rightarrow> call \<Rightarrow> rstring \<Rightarrow> (kvalue \<Rightarrow> kiva_error + kvalue option \<times> 'a) \<Rightarrow> inner \<Rightarrow>
    (kiva_error + ('a \<times> bool) option) \<times> inner" where
  "update_with E c key f s = (case live (c_now c) key s of
     (None, s) \<Rightarrow> (Inr None, s)
   | (Some e, s) \<Rightarrow>
       (case value_of E key e s of
          (Inl err, s) \<Rightarrow> (Inl err, s)
        | (Inr cur, s) \<Rightarrow>
            (case f cur of
               Inl err \<Rightarrow> (Inl err, s)
             | Inr (None, out) \<Rightarrow> (Inr (Some (out, False)), s)
             | Inr (Some new, out) \<Rightarrow>
                 (case check_unique E (c_now c) (i_index s) (i_sec s) [(key, doc_view_of new)] of
                    Inl err \<Rightarrow> (Inl err, s)
                  | Inr _ \<Rightarrow>
                      (case put_locked E c key new (e_expires_at e) (is_msgpack e) (c_secs c) s of
                         (Inl err, s) \<Rightarrow> (Inl err, s)
                       | (Inr _, s) \<Rightarrow> (Inr (Some (out, True)), s))))))"

definition engine_delete :: "engine_env \<Rightarrow> call \<Rightarrow> rstring \<Rightarrow> inner \<Rightarrow> (kiva_error + bool) \<times> inner" where
  "engine_delete E c key s = (case live (c_now c) key s of
     (None, s) \<Rightarrow> (Inr False, s)
   | (Some _, s) \<Rightarrow>
       (case engine_encode E (c_rng c 0) key [] 0 FLAG_TOMBSTONE (c_secs c) 0 of
          Inl err \<Rightarrow> (Inl err, s)
        | Inr rec \<Rightarrow>
            (case append_buf (c_io c) rec False s of
               (Inl err, s) \<Rightarrow> (Inl err, s)
             | (Inr pos, s) \<Rightarrow>
                 (let s = journal_del E c key (c_secs c) (pos + length rec) s;
                      s = s\<lparr>i_seq := i_seq s + 1\<rparr>;
                      s = snd (idx_remove key s);
                      s = (if i_active_txns s > 0 then s\<lparr>i_tomb_versions := om_insert key (i_seq s) (i_tomb_versions s)\<rparr> else s);
                      s = s\<lparr>i_dirty_ops := i_dirty_ops s + 1\<rparr>
                  in (Inr True, emit (OpDel key) s)))))"

end
