(* ===== verification/Books.thy ===== *)
theory Books
  imports Engine
begin

text \<open>
  The books the engine keeps beside its index (\<^verbatim>\<open>live_bytes\<close>, \<^verbatim>\<open>key_bytes\<close>, \<^verbatim>\<open>expiry\<close>, the secondary
  indexes, the value cache) and that \<^verbatim>\<open>idx_insert\<close>, \<^verbatim>\<open>idx_remove\<close>, \<^verbatim>\<open>live\<close> and the purges keep them
  exact, so that none of their subtractions can go below zero.
\<close>

definition expiry_ok :: "index \<Rightarrow> (int \<times> rstring) oset \<Rightarrow> bool" where
  "expiry_ok idx ex \<longleftrightarrow> om_ok ex \<and>
     (\<forall>t k. (t, k) \<in> fst ` set ex \<longleftrightarrow> 0 < t \<and> (\<exists>e. om_get idx k = Some e \<and> e_expires_at e = t))"

definition books_ok :: "inner \<Rightarrow> bool" where
  "books_ok s \<longleftrightarrow> om_ok (i_index s) \<and>
     i_live_bytes s = FILE_HEADER_LEN + om_sum (\<lambda>_ e. rec_len e) (i_index s) \<and>
     i_key_bytes s = om_sum (\<lambda>k _. key_cost k) (i_index s) \<and>
     expiry_ok (i_index s) (i_expiry s) \<and> cache_ok (i_cache s) \<and> list_all sec_ok (i_sec s)"

lemma books_okD:
  assumes "books_ok s"
  shows "om_ok (i_index s)" "i_live_bytes s = FILE_HEADER_LEN + om_sum (\<lambda>_ e. rec_len e) (i_index s)"
    "i_key_bytes s = om_sum (\<lambda>k _. key_cost k) (i_index s)" "expiry_ok (i_index s) (i_expiry s)"
    "cache_ok (i_cache s)" "list_all sec_ok (i_sec s)"
  using assms by (simp_all add: books_ok_def)

subsection \<open>What the two index operations change\<close>

definition expiry_drop :: "entry option \<Rightarrow> rstring \<Rightarrow> (int \<times> rstring) oset \<Rightarrow> (int \<times> rstring) oset" where
  "expiry_drop o_ent key ex = (case o_ent of
     Some e \<Rightarrow> if e_expires_at e > 0 then om_remove (e_expires_at e, key) ex else ex | None \<Rightarrow> ex)"

definition expiry_add :: "entry \<Rightarrow> rstring \<Rightarrow> (int \<times> rstring) oset \<Rightarrow> (int \<times> rstring) oset" where
  "expiry_add e key ex = (if e_expires_at e > 0 then om_insert (e_expires_at e, key) () ex else ex)"

lemma idx_insert_fields:
  "i_index (idx_insert E key e d s) = om_insert key e (i_index s)"
  "i_expiry (idx_insert E key e d s) = expiry_add e key (expiry_drop (om_get (i_index s) key) key (i_expiry s))"
  "i_sec (idx_insert E key e d s) = map (sec_update (vl_env (ee_values E)) key d) (i_sec s)"
  "i_cache (idx_insert E key e d s) = cache_remove key (i_cache s)"
  "i_live_bytes (idx_insert E key e d s) =
     i_live_bytes s + rec_len e - (case om_get (i_index s) key of Some o_ent \<Rightarrow> rec_len o_ent | None \<Rightarrow> 0)"
  "i_key_bytes (idx_insert E key e d s) =
     i_key_bytes s + (case om_get (i_index s) key of Some _ \<Rightarrow> 0 | None \<Rightarrow> key_cost key)"
  by (simp_all add: idx_insert_def Let_def expiry_add_def expiry_drop_def split: option.splits)

lemma idx_insert_frame [simp]:
  "i_file (idx_insert E key e d s) = i_file s" "i_file_len (idx_insert E key e d s) = i_file_len s"
  "i_file_id (idx_insert E key e d s) = i_file_id s" "i_format (idx_insert E key e d s) = i_format s"
  "i_expired (idx_insert E key e d s) = i_expired s" "i_seq (idx_insert E key e d s) = i_seq s"
  "i_compression (idx_insert E key e d s) = i_compression s" "i_active_txns (idx_insert E key e d s) = i_active_txns s"
  "i_tomb_versions (idx_insert E key e d s) = i_tomb_versions s" "i_reset_seq (idx_insert E key e d s) = i_reset_seq s"
  "i_dirty_ops (idx_insert E key e d s) = i_dirty_ops s" "i_closed (idx_insert E key e d s) = i_closed s"
  "i_changes (idx_insert E key e d s) = i_changes s" "i_emitted (idx_insert E key e d s) = i_emitted s"
  by (simp_all add: idx_insert_def Let_def split: option.splits)

lemma idx_remove_absent: "om_get (i_index s) key = None \<Longrightarrow> idx_remove key s = (None, s)"
  by (simp add: idx_remove_def)

lemma idx_remove_fields:
  "fst (idx_remove key s) = om_get (i_index s) key"
  "i_index (snd (idx_remove key s)) = om_remove key (i_index s)"
  "i_expiry (snd (idx_remove key s)) = expiry_drop (om_get (i_index s) key) key (i_expiry s)"
  "om_get (i_index s) key \<noteq> None \<Longrightarrow> i_sec (snd (idx_remove key s)) = map (sec_remove key) (i_sec s)"
  "om_get (i_index s) key \<noteq> None \<Longrightarrow> i_cache (snd (idx_remove key s)) = cache_remove key (i_cache s)"
  "i_live_bytes (snd (idx_remove key s)) =
     i_live_bytes s - (case om_get (i_index s) key of Some o_ent \<Rightarrow> rec_len o_ent | None \<Rightarrow> 0)"
  "i_key_bytes (snd (idx_remove key s)) =
     i_key_bytes s - (case om_get (i_index s) key of Some _ \<Rightarrow> key_cost key | None \<Rightarrow> 0)"
  by (auto simp: idx_remove_def expiry_drop_def om_remove_absent split: option.splits)

lemma idx_remove_frame [simp]:
  "i_file (snd (idx_remove key s)) = i_file s" "i_file_len (snd (idx_remove key s)) = i_file_len s"
  "i_file_id (snd (idx_remove key s)) = i_file_id s" "i_format (snd (idx_remove key s)) = i_format s"
  "i_expired (snd (idx_remove key s)) = i_expired s" "i_seq (snd (idx_remove key s)) = i_seq s"
  "i_compression (snd (idx_remove key s)) = i_compression s" "i_active_txns (snd (idx_remove key s)) = i_active_txns s"
  "i_tomb_versions (snd (idx_remove key s)) = i_tomb_versions s" "i_reset_seq (snd (idx_remove key s)) = i_reset_seq s"
  "i_dirty_ops (snd (idx_remove key s)) = i_dirty_ops s" "i_closed (snd (idx_remove key s)) = i_closed s"
  "i_changes (snd (idx_remove key s)) = i_changes s" "i_emitted (snd (idx_remove key s)) = i_emitted s"
  by (simp_all add: idx_remove_def split: option.splits)

subsection \<open>The deadlines\<close>

lemma fst_om_remove: "om_ok m \<Longrightarrow> x \<in> fst ` set (om_remove k m) \<longleftrightarrow> x \<in> fst ` set m \<and> x \<noteq> k"
  by (simp add: keys_om_remove)

lemma expiry_drop_ok:
  assumes "expiry_ok idx ex"
  shows "om_ok (expiry_drop (om_get idx key) key ex)"
    and "(t, k) \<in> fst ` set (expiry_drop (om_get idx key) key ex) \<longleftrightarrow> (t, k) \<in> fst ` set ex \<and> k \<noteq> key"
proof -
  have ok: "om_ok ex" and mem: "\<And>t k. (t, k) \<in> fst ` set ex \<longleftrightarrow> 0 < t \<and> (\<exists>e. om_get idx k = Some e \<and> e_expires_at e = t)"
    using assms by (auto simp: expiry_ok_def)
  show "om_ok (expiry_drop (om_get idx key) key ex)"
    using ok by (simp add: expiry_drop_def split: option.splits)
  show "(t, k) \<in> fst ` set (expiry_drop (om_get idx key) key ex) \<longleftrightarrow> (t, k) \<in> fst ` set ex \<and> k \<noteq> key"
  proof (cases "om_get idx key")
    case None
    with mem [of t key] show ?thesis by (auto simp: expiry_drop_def)
  next
    case (Some e)
    with mem [of t key] show ?thesis by (auto simp: expiry_drop_def fst_om_remove [OF ok])
  qed
qed

lemma expiry_ok_remove:
  assumes "om_ok idx" and "expiry_ok idx ex"
  shows "expiry_ok (om_remove key idx) (expiry_drop (om_get idx key) key ex)"
  using assms expiry_drop_ok [OF assms(2), where key = key]
  by (auto simp: expiry_ok_def)

lemma expiry_ok_insert:
  assumes "om_ok idx" and "expiry_ok idx ex"
  shows "expiry_ok (om_insert key e idx) (expiry_add e key (expiry_drop (om_get idx key) key ex))"
proof -
  note d = expiry_drop_ok [OF assms(2), where key = key]
  have "om_ok (expiry_add e key (expiry_drop (om_get idx key) key ex))"
    using d(1) by (simp add: expiry_add_def)
  moreover have "(t, k) \<in> fst ` set (expiry_add e key (expiry_drop (om_get idx key) key ex)) \<longleftrightarrow>
      0 < t \<and> (\<exists>e'. om_get (om_insert key e idx) k = Some e' \<and> e_expires_at e' = t)" for t k
    using assms(2) d(2) [of t k] by (auto simp: expiry_add_def expiry_ok_def)
  ultimately show ?thesis by (simp add: expiry_ok_def)
qed

subsection \<open>Preservation\<close>

lemma om_sum_ge: "om_get m k = Some v \<Longrightarrow> f k v \<le> om_sum f m"
  by (induction m) (auto split: if_splits)

lemma cache_ok_remove: "cache_ok c \<Longrightarrow> cache_ok (cache_remove k c)"
  by (rule vc.ok_forget)

lemma books_ok_insert:
  assumes "books_ok s"
  shows "books_ok (idx_insert E key e d s)"
proof -
  note b = books_okD [OF assms]
  have "om_sum f (om_insert key e (i_index s)) =
      om_sum f (i_index s) + f key e - (case om_get (i_index s) key of Some o_ent \<Rightarrow> f key o_ent | None \<Rightarrow> 0)" for f
    using om_sum_insert [OF b(1), of f key e] by (cases "om_get (i_index s) key") auto
  moreover have "rec_len o_ent \<le> om_sum (\<lambda>_ e. rec_len e) (i_index s)"
    "key_cost key \<le> om_sum (\<lambda>k _. key_cost k) (i_index s)" if "om_get (i_index s) key = Some o_ent" for o_ent
    using om_sum_ge [OF that, of "\<lambda>_ e. rec_len e"] om_sum_ge [OF that, of "\<lambda>k _. key_cost k"] by simp_all
  ultimately show ?thesis
    using b by (auto simp: books_ok_def idx_insert_fields expiry_ok_insert cache_ok_remove list_all_iff sec_update_ok
        split: option.splits)
qed

lemma books_ok_remove:
  assumes "books_ok s"
  shows "books_ok (snd (idx_remove key s))"
proof (cases "om_get (i_index s) key")
  case None
  with assms show ?thesis by (simp add: idx_remove_absent)
next
  case (Some o_ent)
  note b = books_okD [OF assms]
  have "om_sum f (om_remove key (i_index s)) + f key o_ent = om_sum f (i_index s)" for f
    using om_sum_remove [OF b(1), of f key] Some by simp
  from this [of "\<lambda>_ e. rec_len e"] this [of "\<lambda>k _. key_cost k"]
  show ?thesis
    using b Some by (auto simp: books_ok_def idx_remove_fields expiry_ok_remove [OF b(1) b(4), of key, unfolded Some]
        cache_ok_remove list_all_iff sec_remove_ok)
qed

lemma tell_expired_frame [simp]:
  "i_file (tell_expired k s) = i_file s" "i_file_len (tell_expired k s) = i_file_len s"
  "i_index (tell_expired k s) = i_index s" "i_seq (tell_expired k s) = i_seq s" "i_sec (tell_expired k s) = i_sec s"
  "i_cache (tell_expired k s) = i_cache s" "i_expiry (tell_expired k s) = i_expiry s"
  "i_live_bytes (tell_expired k s) = i_live_bytes s" "i_key_bytes (tell_expired k s) = i_key_bytes s"
  "i_file_id (tell_expired k s) = i_file_id s" "i_format (tell_expired k s) = i_format s"
  "i_compression (tell_expired k s) = i_compression s" "i_active_txns (tell_expired k s) = i_active_txns s"
  "i_tomb_versions (tell_expired k s) = i_tomb_versions s" "i_reset_seq (tell_expired k s) = i_reset_seq s"
  "i_dirty_ops (tell_expired k s) = i_dirty_ops s" "i_closed (tell_expired k s) = i_closed s"
  "i_changes (tell_expired k s) = i_changes s" "i_emitted (tell_expired k s) = i_emitted s"
  "i_expired (tell_expired k s) = i_expired s @ [k]"
  by (simp_all add: tell_expired_def)

lemma books_ok_tell [simp]: "books_ok (tell_expired k s) \<longleftrightarrow> books_ok s"
  by (simp add: books_ok_def)

lemma books_ok_live: "books_ok s \<Longrightarrow> books_ok (snd (live now key s))"
  by (auto simp: live_def books_ok_remove split: option.splits)

lemma live_cases:
  obtains (absent) "om_get (i_index s) key = None" "live now key s = (None, s)"
  | (gone) e where "om_get (i_index s) key = Some e" "is_expired e now"
      "live now key s = (None, tell_expired key (snd (idx_remove key s)))"
  | (found) e where "om_get (i_index s) key = Some e" "\<not> is_expired e now" "live now key s = (Some e, s)"
  by (cases "om_get (i_index s) key") (auto simp: live_def)

text \<open>\<^verbatim>\<open>recount\<close> computes from scratch what the operations keep up to date.\<close>

lemma expiry_fold_ok:
  assumes "om_ok idx"
  shows "expiry_ok idx (fold (\<lambda>kv m. if e_expires_at (snd kv) > 0 then om_insert (e_expires_at (snd kv), fst kv) () m else m) idx [])"
proof -
  let ?f = "\<lambda>kv m. if e_expires_at (snd kv) > 0 then om_insert (e_expires_at (snd kv), fst kv) () m else m"
  have ok: "om_ok m \<Longrightarrow> om_ok (fold ?f xs m)" for xs :: "(rstring \<times> entry) list" and m
    by (induction xs arbitrary: m) simp_all
  have mem: "x \<in> fst ` set (fold ?f xs m) \<longleftrightarrow> x \<in> fst ` set m \<or> (\<exists>kv \<in> set xs. e_expires_at (snd kv) > 0 \<and> x = (e_expires_at (snd kv), fst kv))"
    for xs :: "(rstring \<times> entry) list" and m x
    by (induction xs arbitrary: m) (auto simp del: fold_simps simp: fold_Cons)
  show ?thesis
    unfolding expiry_ok_def
  proof (intro conjI allI)
    show "om_ok (fold ?f idx [])" by (rule ok) simp
    show "(t, k) \<in> fst ` set (fold ?f idx []) \<longleftrightarrow> 0 < t \<and> (\<exists>e. om_get idx k = Some e \<and> e_expires_at e = t)" for t k
      unfolding mem by (force simp: om_get_Some_iff [OF assms])
  qed
qed

lemma books_ok_recount:
  "om_ok (i_index s) \<Longrightarrow> cache_ok (i_cache s) \<Longrightarrow> list_all sec_ok (i_sec s) \<Longrightarrow> books_ok (recount s)"
  by (simp add: books_ok_def recount_def expiry_fold_ok)

subsection \<open>Purging\<close>

definition drop_keys :: "rstring list \<Rightarrow> inner \<Rightarrow> inner" where
  "drop_keys ks s = fold (\<lambda>k s. tell_expired k (snd (idx_remove k s))) ks s"

lemma drop_keys_simps [simp]:
  "drop_keys [] s = s" "drop_keys (k # ks) s = drop_keys ks (tell_expired k (snd (idx_remove k s)))"
  by (simp_all add: drop_keys_def)

lemma drop_keys_append: "drop_keys (ks @ js) s = drop_keys js (drop_keys ks s)"
  by (simp add: drop_keys_def)

lemma drop_keys_books: "books_ok s \<Longrightarrow> books_ok (drop_keys ks s)"
  by (induction ks arbitrary: s) (simp_all add: books_ok_remove)

lemma drop_keys_get:
  "books_ok s \<Longrightarrow> om_get (i_index (drop_keys ks s)) k = (if k \<in> set ks then None else om_get (i_index s) k)"
  by (induction ks arbitrary: s) (simp_all add: books_ok_remove idx_remove_fields books_okD)

lemma drop_keys_expired: "i_expired (drop_keys ks s) = i_expired s @ ks"
  by (induction ks arbitrary: s) simp_all

lemma drop_keys_file [simp]:
  "i_file (drop_keys ks s) = i_file s" "i_file_len (drop_keys ks s) = i_file_len s"
  "i_file_id (drop_keys ks s) = i_file_id s" "i_seq (drop_keys ks s) = i_seq s"
  "i_format (drop_keys ks s) = i_format s" "i_closed (drop_keys ks s) = i_closed s"
  "i_compression (drop_keys ks s) = i_compression s" "i_changes (drop_keys ks s) = i_changes s"
  by (induction ks arbitrary: s) simp_all

lemma oset_eqI:
  assumes "om_ok m" and "om_ok n" and "fst ` set m = fst ` set n"
  shows "m = (n :: ('a::linorder \<times> unit) list)"
proof (rule om_eqI [OF assms(1,2)])
  have "om_get m k = (if k \<in> fst ` set m then Some () else None)" for m :: "('a \<times> unit) list" and k
    by (induction m) auto
  with assms(3) show "om_get m = om_get n" by (auto simp: fun_eq_iff)
qed

definition first_keys :: "nat \<Rightarrow> inner \<Rightarrow> rstring list" where
  "first_keys n s = map (\<lambda>x. snd (fst x)) (take n (i_expiry s))"

text \<open>Dropping the keys of the first \<open>n\<close> deadlines drops those deadlines.\<close>

lemma drop_keys_expiry:
  assumes b: "books_ok s"
  shows "i_expiry (drop_keys (first_keys n s) s) = drop n (i_expiry s)"
proof -
  let ?ex = "i_expiry s" and ?ks = "first_keys n s"
  let ?s' = "drop_keys ?ks s"
  have mem: "(t, k) \<in> fst ` set ?ex \<longleftrightarrow> 0 < t \<and> (\<exists>e. om_get (i_index s) k = Some e \<and> e_expires_at e = t)" for t k
    using books_okD(4) [OF b] by (simp add: expiry_ok_def)
  have ok: "om_ok ?ex" using books_okD(4) [OF b] by (simp add: expiry_ok_def)
  have b': "books_ok ?s'" by (rule drop_keys_books [OF b])
  have ok': "om_ok (i_expiry ?s')" using books_okD(4) [OF b'] by (simp add: expiry_ok_def)
  have split: "?ex = take n ?ex @ drop n ?ex" by simp
  have okd: "om_ok (drop n ?ex)"
    using ok by (metis om_ok_def append_take_drop_id map_append sorted_wrt_append)
  have disj: "fst ` set (take n ?ex) \<inter> fst ` set (drop n ?ex) = {}"
    using om_ok_distinct [OF ok] by (subst (asm) split) (simp del: append_take_drop_id)
  have sub: "fst ` set (take n ?ex) \<subseteq> fst ` set ?ex" "fst ` set (drop n ?ex) \<subseteq> fst ` set ?ex"
    by (auto dest: in_set_takeD in_set_dropD)
  have un: "fst ` set ?ex = fst ` set (take n ?ex) \<union> fst ` set (drop n ?ex)"
    by (subst split) (simp only: set_append image_Un)
  have keys: "k \<in> set ?ks \<longleftrightarrow> (\<exists>t. (t, k) \<in> fst ` set (take n ?ex))" for k
    by (force simp: first_keys_def)
  have *: "(t, k) \<in> fst ` set (i_expiry ?s') \<longleftrightarrow> (t, k) \<in> fst ` set (drop n ?ex)" for t k
  proof -
    have "(t, k) \<in> fst ` set (i_expiry ?s') \<longleftrightarrow> (t, k) \<in> fst ` set ?ex \<and> k \<notin> set ?ks"
      using books_okD(4) [OF b'] by (auto simp: expiry_ok_def drop_keys_get [OF b] mem)
    also have "\<dots> \<longleftrightarrow> (t, k) \<in> fst ` set (drop n ?ex)"
    proof
      assume "(t, k) \<in> fst ` set ?ex \<and> k \<notin> set ?ks"
      then show "(t, k) \<in> fst ` set (drop n ?ex)" using un keys by blast
    next
      assume d: "(t, k) \<in> fst ` set (drop n ?ex)"
      have "(t', k) \<notin> fst ` set (take n ?ex)" for t'
      proof
        assume t': "(t', k) \<in> fst ` set (take n ?ex)"
        then have "t' = t" using d sub mem [of t k] mem [of t' k] by auto
        with t' d disj show False by blast
      qed
      then show "(t, k) \<in> fst ` set ?ex \<and> k \<notin> set ?ks" using d sub keys by blast
    qed
    finally show ?thesis .
  qed
  have "fst ` set (i_expiry ?s') = fst ` set (drop n ?ex)"
    using * by (intro set_eqI) (metis prod.collapse)
  then show ?thesis by (rule oset_eqI [OF ok' okd])
qed

definition due :: "int \<Rightarrow> inner \<Rightarrow> nat" where
  "due now s = length (takeWhile (\<lambda>x. fst (fst x) \<le> now) (i_expiry s))"

lemma due_le: "due now s \<le> length (i_expiry s)"
  by (simp add: due_def length_takeWhile_le)

lemma length_first_keys: "n \<le> length (i_expiry s) \<Longrightarrow> length (first_keys n s) = n"
  by (simp add: first_keys_def)

lemma take_takeWhile: "take m (takeWhile P xs) = take (min m (length (takeWhile P xs))) xs"
  by (metis takeWhile_eq_take take_take)

lemma purge_expired_drop:
  "purge_expired now s = (let n = min PURGE_BATCH (due now s) in (n, drop_keys (first_keys n s) s))"
proof -
  have "map (snd \<circ> fst) (take PURGE_BATCH (takeWhile (\<lambda>x. fst (fst x) \<le> now) (i_expiry s))) =
      first_keys (min PURGE_BATCH (due now s)) s"
    by (simp add: first_keys_def due_def take_takeWhile comp_def)
  then show ?thesis
    using due_le [of now s] unfolding purge_expired_def Let_def by (simp add: drop_keys_def length_first_keys)
qed

lemma drop_takeWhile: "n \<le> length (takeWhile P xs) \<Longrightarrow> takeWhile P (drop n xs) = drop n (takeWhile P xs)"
  by (induction xs arbitrary: n) (auto simp: drop_Cons split: nat.splits if_splits)

lemma due_drop:
  "books_ok s \<Longrightarrow> n \<le> due now s \<Longrightarrow> due now (drop_keys (first_keys n s) s) = due now s - n"
  by (simp add: due_def drop_keys_expiry drop_takeWhile)

text \<open>The loop of \<^verbatim>\<open>purge_all_expired\<close> ends, and it removes the keys of all deadlines that are due.\<close>

lemma purge_loop_drop:
  "books_ok s \<Longrightarrow> due now s < fuel \<Longrightarrow>
    purge_loop fuel now s = Some (drop_keys (first_keys (due now s) s) s)"
proof (induction fuel arbitrary: s)
  case (Suc fuel)
  let ?n = "min PURGE_BATCH (due now s)"
  let ?s = "drop_keys (first_keys ?n s) s"
  show ?case
  proof (cases "?n = PURGE_BATCH")
    case False
    then have "?n = due now s" by linarith
    with False show ?thesis by (simp add: purge_expired_drop Let_def)
  next
    case True
    have b: "books_ok ?s" by (rule drop_keys_books [OF Suc.prems(1)])
    have d: "due now ?s = due now s - PURGE_BATCH" using due_drop [OF Suc.prems(1), of ?n now] True by simp
    have "0 < PURGE_BATCH" "PURGE_BATCH \<le> due now s" using True by (simp_all add: PURGE_BATCH_def)
    then have "due now ?s < fuel" using d Suc.prems(2) by linarith
    from Suc.IH [OF b this] have "purge_loop (Suc fuel) now s =
        Some (drop_keys (first_keys (due now ?s) ?s) ?s)"
      using True by (simp add: purge_expired_drop Let_def)
    also have "first_keys (due now ?s) ?s = map (\<lambda>x. snd (fst x)) (take (due now s - PURGE_BATCH) (drop PURGE_BATCH (i_expiry s)))"
      using drop_keys_expiry [OF Suc.prems(1), of ?n] True d by (simp add: first_keys_def)
    also have "drop_keys \<dots> ?s = drop_keys (first_keys PURGE_BATCH s @ \<dots>) s"
      by (simp only: True drop_keys_append)
    also have "first_keys PURGE_BATCH s @ map (\<lambda>x. snd (fst x)) (take (due now s - PURGE_BATCH) (drop PURGE_BATCH (i_expiry s))) =
        first_keys (due now s) s"
      using \<open>PURGE_BATCH \<le> due now s\<close>
      by (simp add: first_keys_def flip: map_append take_add)
    finally show ?thesis .
  qed
qed simp

lemma pair_key_iff: "(\<exists>x \<in> A. P (fst (fst x)) \<and> k = snd (fst x)) \<longleftrightarrow> (\<exists>t. P t \<and> (t, k) \<in> fst ` A)"
  by force

lemma sorted_takeWhile_iff:
  assumes "om_ok (m :: ((int \<times> 'a::linorder) \<times> unit) list)"
  shows "x \<in> set (takeWhile (\<lambda>x. fst (fst x) \<le> now) m) \<longleftrightarrow> x \<in> set m \<and> fst (fst x) \<le> now"
  using assms
proof (induction m)
  case (Cons y m)
  have "fst (fst y) \<le> fst (fst x)" if "x \<in> set m"
    using Cons.prems that by (auto simp: less_prod_def)
  with Cons show ?case by (auto dest: set_takeWhileD)
qed simp

lemma purge_all_get:
  fixes now :: int
  assumes b: "books_ok s"
  defines "s' \<equiv> purge_all_expired now s"
  shows "om_get (i_index s') k = (case om_get (i_index s) k of
      Some e \<Rightarrow> if is_expired e now then None else Some e | None \<Rightarrow> None)"
    and "books_ok s'" and "i_file s' = i_file s" and "i_seq s' = i_seq s"
    and "set (i_expired s') = set (i_expired s) \<union> {k. \<exists>e. om_get (i_index s) k = Some e \<and> is_expired e now}"
proof -
  let ?ks = "first_keys (due now s) s" and ?ex = "i_expiry s"
  have s': "s' = drop_keys ?ks s"
    using purge_loop_drop [OF b, of now "Suc (length (i_expiry s))"] due_le [of now s]
    by (simp only: s'_def purge_all_expired_def less_Suc_eq_le option.case)
  have e: "expiry_ok (i_index s) ?ex" by (rule books_okD(4) [OF b])
  then have ok: "om_ok ?ex" by (simp add: expiry_ok_def)
  have "set ?ks = (\<lambda>x. snd (fst x)) ` set (takeWhile (\<lambda>x. fst (fst x) \<le> now) ?ex)"
    by (simp add: first_keys_def due_def takeWhile_eq_take [symmetric])
  then have "k \<in> set ?ks \<longleftrightarrow> (\<exists>x \<in> set ?ex. fst (fst x) \<le> now \<and> k = snd (fst x))" for k
    using sorted_takeWhile_iff [OF ok, of _ now] by auto
  then have "k \<in> set ?ks \<longleftrightarrow> (\<exists>t \<le> now. (t, k) \<in> fst ` set ?ex)" for k
    using pair_key_iff [of "set ?ex" "\<lambda>t. t \<le> now" k] by simp
  then have ks: "k \<in> set ?ks \<longleftrightarrow> (\<exists>e. om_get (i_index s) k = Some e \<and> is_expired e now)" for k
    using e by (auto simp: expiry_ok_def is_expired_def)
  show "om_get (i_index s') k = (case om_get (i_index s) k of
      Some e \<Rightarrow> if is_expired e now then None else Some e | None \<Rightarrow> None)"
    using ks [of k] by (simp add: s' drop_keys_get [OF b] split: option.splits)
  show "books_ok s'" "i_file s' = i_file s" "i_seq s' = i_seq s"
    by (simp_all add: s' drop_keys_books [OF b])
  show "set (i_expired s') = set (i_expired s) \<union> {k. \<exists>e. om_get (i_index s) k = Some e \<and> is_expired e now}"
    using ks by (auto simp: s' drop_keys_expired)
qed

end
