(* ===== verification/Store.thy ===== *)
theory Store
  imports Books
begin

text \<open>
  What the engine stores and that its reads give it back. \<open>entry_value\<close> is the value behind an index
  entry in a data file; \<open>store_ok\<close> is the invariant of the engine; \<open>contents\<close> is the abstract state,
  a map from keys to values and deadlines, that the operations refine.
\<close>

subsection \<open>The value behind an entry\<close>

definition entry_value :: "engine_env \<Rightarrow> bytes \<Rightarrow> entry \<Rightarrow> kvalue option" where
  "entry_value E f e = (case read_at f (e_offset e) (rec_len e) of
     None \<Rightarrow> None
   | Some rec \<Rightarrow>
       if \<not> verify_record (ee_crc E) rec then None
       else (case open_record (ee_aead E) (ee_keys E) rec of
          Inl _ \<Rightarrow> None
        | Inr (_, stored) \<Rightarrow>
            (case unpack (ee_codec E) stored (e_compression e) of
               Inl _ \<Rightarrow> None
             | Inr raw \<Rightarrow>
                 (case value_decode (ee_values E) (e_ty e) raw (e_doc_enc e) of
                    Inl _ \<Rightarrow> None | Inr v \<Rightarrow> Some v))))"

lemma read_value_entry:
  "entry_value E (i_file s) e = Some v \<Longrightarrow> read_value E e s = (Inr v, s)"
  by (auto simp: entry_value_def read_value_def read_raw_def read_record_def split: option.splits if_splits sum.splits)

lemma entry_value_cong:
  assumes "e_offset e = e_offset e'" "rec_len e = rec_len e'" "e_flags e = e_flags e'" "e_ty e = e_ty e'"
  shows "entry_value E f e = entry_value E f e'"
proof -
  have "e_compression e = e_compression e'" "e_doc_enc e = e_doc_enc e'"
    using assms(3) by (simp_all add: e_compression_def e_doc_enc_def)
  with assms show ?thesis by (simp only: entry_value_def)
qed

lemma rec_len_update [simp]:
  "rec_len (e\<lparr>e_offset := x\<rparr>) = rec_len e" "rec_len (e\<lparr>e_version := v\<rparr>) = rec_len e"
  by (simp_all add: rec_len_def)

lemma entry_value_version [simp]: "entry_value E f (e\<lparr>e_version := v\<rparr>) = entry_value E f e"
  by (rule entry_value_cong) simp_all

lemma read_at_append: "read_at f off n = Some r \<Longrightarrow> read_at (f @ g) off n = Some r"
  by (auto simp: read_at_def split: if_splits)

lemma read_at_middle: "n = length r \<Longrightarrow> read_at (pre @ r @ post) (length pre) n = Some r"
  by (simp add: read_at_def)

lemma read_at_header:
  assumes "8 \<le> length f" and "8 \<le> off" and "length b = 4"
  shows "read_at (write_at 4 b f) off n = read_at f off n"
proof -
  have "drop off (write_at 4 b f) = drop off f"
    using assms by (simp add: write_at_def)
  with assms show ?thesis by (simp add: read_at_def write_at_def)
qed

lemma entry_value_append: "entry_value E f e = Some v \<Longrightarrow> entry_value E (f @ g) e = Some v"
  by (cases "read_at f (e_offset e) (rec_len e)") (simp_all add: entry_value_def read_at_append)

lemma entry_value_header:
  "8 \<le> length f \<Longrightarrow> 8 \<le> e_offset e \<Longrightarrow> length b = 4 \<Longrightarrow> entry_value E (write_at 4 b f) e = entry_value E f e"
  by (simp add: entry_value_def read_at_header)

text \<open>The shape of an index entry: bounds of its key and times, and a record that opens under its key.\<close>

definition entry_shaped :: "engine_env \<Rightarrow> bytes \<Rightarrow> rstring \<Rightarrow> entry \<Rightarrow> bool" where
  "entry_shaped E f k e \<longleftrightarrow> k \<noteq> [] \<and> str_len k \<le> MAX_KEY_LEN \<and> e_k_size e = word_of_nat (str_len k) \<and>
     is_i64 (e_timestamp e) \<and> is_i64 (e_expires_at e) \<and>
     (\<exists>rec body. read_at f (e_offset e) (rec_len e) = Some rec \<and>
        open_record (ee_aead E) (ee_keys E) rec = Inr (as_bytes k, body) \<and> length body \<le> MAX_VALUE_LEN)"

lemma entry_shaped_version [simp]: "entry_shaped E f k (e\<lparr>e_version := v\<rparr>) = entry_shaped E f k e"
  by (simp add: entry_shaped_def)

lemma entry_shaped_append: "entry_shaped E f k e \<Longrightarrow> entry_shaped E (f @ g) k e"
  unfolding entry_shaped_def using read_at_append by blast

lemma read_same:
  assumes "read_at f' (e_offset e) (rec_len e) = read_at f (e_offset e) (rec_len e)"
  shows "entry_value E f' e = entry_value E f e" and "entry_shaped E f' k e = entry_shaped E f k e"
  using assms by (simp_all add: entry_value_def entry_shaped_def)

subsection \<open>What a written record holds\<close>

definition env_ok :: "engine_env \<Rightarrow> bool" where
  "env_ok E \<longleftrightarrow> value_lib_ok (ee_values E) \<and> aead_ok (ee_aead E) \<and> codec_ok (ee_codec E) \<and> can_open (ee_keys E) (ee_keys E)"

definition nonce_ok :: "kiva_error + bytes \<Rightarrow> bool" where
  "nonce_ok r \<longleftrightarrow> (case r of Inr n \<Rightarrow> length n = NONCE_LEN | Inl _ \<Rightarrow> False)"

lemma nonce_okD: "nonce_ok r \<Longrightarrow> \<exists>n. r = Inr n \<and> length n = NONCE_LEN"
  by (auto simp: nonce_ok_def split: sum.splits)

text \<open>The flags of a record: the algorithm, the batch and the encoding do not overlap.\<close>

lemma put_flags:
  fixes d :: doc_enc
  assumes "c \<in> {0, 1, 2}" and "x \<in> {0, FLAG_TXN}"
  defines "fl \<equiv> c OR x OR doc_enc_flags d"
  shows "fl AND FLAG_COMP_MASK = c" and "doc_enc_from_flags fl = d" and "fl AND FLAG_ENCRYPTED = 0"
    and "fl AND FLAG_TOMBSTONE = 0" and "fl AND FLAG_TXN = x" and "fl AND FLAG_TXN_COMMIT = 0"
    and "fl AND FLAG_KDOC = (if d = EKdoc then FLAG_KDOC else 0)"
  unfolding fl_def using assms(1,2) by (cases d; auto simp: flag_defs doc_enc_from_flags_def)+

lemma pack_flag_set: "snd (pack C raw a) \<in> {0, 1, 2}"
  using pack_flag_cases [of C raw a] by (cases a) auto

lemma doc_enc_stored_flags: "doc_enc_from_flags (stored_flags ks fl) = doc_enc_from_flags fl"
  by (simp add: doc_enc_from_flags_def stored_flags_and flag_defs)

text \<open>A record that \<^verbatim>\<open>build_put\<close> encodes, as the readers see it.\<close>

lemma build_put_facts:
  assumes "build_put E rng algo key v ex mp ts x = Inr (rec, ent, raw)"
    and "env_ok E" and "nonce_ok rng" and "value_ok (ee_values E) v" and "x \<in> {0, FLAG_TXN}"
    and "is_i64 ts" and "is_i64 ex"
  obtains stored fl de where "raw = fst (projr (encode_stored (ee_values E) (mp \<and> is_doc (value_ty v)) v))"
    and "value_decode (ee_values E) (value_ty v) raw de = Inr v"
    and "unpack (ee_codec E) stored (from_flag (fl AND FLAG_COMP_MASK)) = Inr raw"
    and "fl = snd (pack (ee_codec E) raw algo) OR x OR doc_enc_flags de"
    and "stored = fst (pack (ee_codec E) raw algo)"
    and "parse_header rec = crypt_header (ee_keys E) (ee_crc E (drop 4 rec)) key stored (type_u8 (value_ty v)) fl ts ex"
    and "length rec = 28 + str_len key + length stored + overhead (ee_keys E)"
    and "open_record (ee_aead E) (ee_keys E) rec = Inr (as_bytes key, stored)"
    and "crypt_fits (ee_keys E) key stored ts ex"
    and "ent = \<lparr>e_offset = 0, e_k_size = word_of_nat (str_len key),
      e_v_size = word_of_nat (length stored + overhead (ee_keys E)), e_raw_size = word_of_nat (length raw),
      e_ty = value_ty v, e_flags = stored_flags (ee_keys E) fl, e_timestamp = ts, e_expires_at = ex, e_version = 0\<rparr>"
    and "key \<noteq> []" and "str_len key \<le> MAX_KEY_LEN" and "length stored \<le> MAX_VALUE_LEN"
proof -
  let ?V = "ee_values E"
  obtain nonce where n: "rng = Inr nonce" "length nonce = NONCE_LEN" using nonce_okD [OF assms(3)] by blast
  have V: "value_lib_ok ?V" and A: "aead_ok (ee_aead E)" and C: "codec_ok (ee_codec E)"
    and K: "can_open (ee_keys E) (ee_keys E)" using assms(2) by (simp_all add: env_ok_def)
  obtain raw' de where enc: "encode_stored ?V (mp \<and> is_doc (value_ty v)) v = Inr (raw', de)"
    and dec: "value_decode ?V (value_ty v) raw' de = Inr v"
    using value_decode_encode [OF V assms(4)] by blast
  define stored where "stored = fst (pack (ee_codec E) raw' algo)"
  define fl where "fl = snd (pack (ee_codec E) raw' algo) OR x OR doc_enc_flags de"
  have key: "key \<noteq> []" "str_len key \<le> 1024" and len: "length raw' \<le> MAX_VALUE_LEN" and raw: "raw = raw'"
    and rec: "crypt_encode_record (ee_aead E) (ee_crc E) (ee_keys E) (Inr nonce) key stored (type_u8 (value_ty v)) fl ts ex = Inr rec"
    and ent: "ent = (let h = parse_header rec in \<lparr>e_offset = 0, e_k_size = h_k_size h, e_v_size = h_v_size h,
                e_raw_size = word_of_nat (length raw), e_ty = value_ty v, e_flags = h_flags h,
                e_timestamp = ts, e_expires_at = ex, e_version = 0\<rparr>)"
    using assms(1) enc n(1)
    by (auto simp: build_put_def validate_key_def MAX_KEY_LEN_def try_bind_Inr_iff engine_encode_def Let_def
        stored_def fl_def split: if_splits prod.splits)
  note pf = put_flags [OF pack_flag_set [of "ee_codec E" raw' algo] assms(5), of de, folded fl_def]
  have fits: "crypt_fits (ee_keys E) key stored ts ex"
  proof -
    have "length stored \<le> length raw'" by (simp add: stored_def pack_shrinks)
    moreover have "overhead (ee_keys E) \<le> 32" by (simp add: overhead_def crypt_lens split: option.splits)
    ultimately show ?thesis using key(2) len assms(6,7) by (simp add: crypt_fits_def MAX_VALUE_LEN_def)
  qed
  note cf = crypt_record_facts [OF rec A n(2) K fits pf(3)]
  have up: "unpack (ee_codec E) stored (from_flag (fl AND FLAG_COMP_MASK)) = Inr raw"
    using unpack_pack_eq [OF C len, of algo] by (simp add: stored_def raw pf(1))
  show thesis
    by (rule that [of de stored fl])
      (use enc dec up cf fits key raw ent len pack_shrinks [of "ee_codec E" raw' algo]
        in \<open>simp_all add: stored_def fl_def Let_def MAX_KEY_LEN_def\<close>)
qed

lemma is_frame_header:
  assumes "parse_header rec = crypt_header ks c key stored ty fl ts ex" and "crypt_fits ks key stored ts ex"
    and "length rec = 28 + str_len key + length stored + overhead ks" and "key \<noteq> []"
  shows "is_frame rec" and "verify_record crc rec \<longleftrightarrow> crc (drop 4 rec) = c"
proof -
  have k: "unat (word_of_nat (str_len key) :: u16) = str_len key" using assms(2) by (simp add: unat_of_nat crypt_fits_def)
  have "0 < str_len key" using assms(4) by (cases key) (simp_all add: len_utf8_def)
  then have "(word_of_nat (str_len key) :: u16) \<noteq> 0" using k by (metis unat_0 less_numeral_extra(3))
  then show "is_frame rec" "verify_record crc rec \<longleftrightarrow> crc (drop 4 rec) = c"
    using assms by (simp_all add: is_frame_def verify_record_def total_len_crypt_header len_defs Let_def)
qed

lemma format_needed_frame:
  assumes "is_frame rec"
  shows "format_needed rec = Some (max FORMAT_V1 (format_for_record (h_ty (parse_header rec)) (h_flags (parse_header rec))))"
  using is_frameD [OF assms]
  by (simp add: format_needed_def format_needed_from.simps [of _ rec] format_needed_from.simps [of _ "[]"] len_defs Let_def)

lemma build_put_entry:
  assumes "build_put E rng algo key v ex mp ts x = Inr (rec, ent, raw)"
    and "env_ok E" and "nonce_ok rng" and "value_ok (ee_values E) v" and "x \<in> {0, FLAG_TXN}"
    and "is_i64 ts" and "is_i64 ex"
  shows "entry_value E (pre @ rec @ post) (ent\<lparr>e_offset := length pre\<rparr>) = Some v"
    and "rec_len ent = length rec" and "is_frame rec" and "e_expires_at ent = ex" and "e_version ent = 0"
    and "e_ty ent = value_ty v" and "e_timestamp ent = ts"
    and "entry_shaped E (pre @ rec @ post) key (ent\<lparr>e_offset := length pre\<rparr>)"
proof -
  obtain stored fl de where dec: "value_decode (ee_values E) (value_ty v) raw de = Inr v"
    and up: "unpack (ee_codec E) stored (from_flag (fl AND FLAG_COMP_MASK)) = Inr raw"
    and fl: "fl = snd (pack (ee_codec E) raw algo) OR x OR doc_enc_flags de"
    and ph: "parse_header rec = crypt_header (ee_keys E) (ee_crc E (drop 4 rec)) key stored (type_u8 (value_ty v)) fl ts ex"
    and len: "length rec = 28 + str_len key + length stored + overhead (ee_keys E)"
    and op: "open_record (ee_aead E) (ee_keys E) rec = Inr (as_bytes key, stored)"
    and fits: "crypt_fits (ee_keys E) key stored ts ex"
    and ent: "ent = \<lparr>e_offset = 0, e_k_size = word_of_nat (str_len key),
      e_v_size = word_of_nat (length stored + overhead (ee_keys E)), e_raw_size = word_of_nat (length raw),
      e_ty = value_ty v, e_flags = stored_flags (ee_keys E) fl, e_timestamp = ts, e_expires_at = ex, e_version = 0\<rparr>"
    and key: "key \<noteq> []" and kl: "str_len key \<le> MAX_KEY_LEN" and sl: "length stored \<le> MAX_VALUE_LEN"
    by (rule build_put_facts [OF assms])
  note pf = put_flags [OF pack_flag_set assms(5), of "ee_codec E" raw algo de, folded fl]
  note fr = is_frame_header [OF ph fits len key]
  show "is_frame rec" by (rule fr(1))
  show l: "rec_len ent = length rec"
    using fits by (simp add: ent rec_len_def len len_defs crypt_fits_def unat_of_nat del: of_nat_add)
  have "e_compression (ent\<lparr>e_offset := length pre\<rparr>) = from_flag (fl AND FLAG_COMP_MASK)"
    by (simp add: ent e_compression_def stored_flags_and flag_defs)
  moreover have "e_doc_enc (ent\<lparr>e_offset := length pre\<rparr>) = de"
    by (simp add: ent e_doc_enc_def doc_enc_stored_flags pf(2))
  moreover have at_rec: "read_at (pre @ rec @ post) (length pre) (rec_len ent) = Some rec"
    by (rule read_at_middle [OF l])
  moreover have "e_ty (ent\<lparr>e_offset := length pre\<rparr>) = value_ty v" by (simp add: ent)
  ultimately show "entry_value E (pre @ rec @ post) (ent\<lparr>e_offset := length pre\<rparr>) = Some v"
    using fr(2) [of "ee_crc E"] op up dec by (simp add: entry_value_def)
  show "e_expires_at ent = ex" "e_version ent = 0" "e_ty ent = value_ty v" "e_timestamp ent = ts" by (simp_all add: ent)
  show "entry_shaped E (pre @ rec @ post) key (ent\<lparr>e_offset := length pre\<rparr>)"
    using at_rec op sl kl key assms(6,7) by (simp add: entry_shaped_def) (simp add: ent)
qed

subsection \<open>The invariant\<close>

definition docs_of :: "engine_env \<Rightarrow> bytes \<Rightarrow> index \<Rightarrow> rstring \<Rightarrow> doc_view option" where
  "docs_of E f idx key = Option.bind (om_get idx key) (\<lambda>e. Option.bind (entry_value E f e) doc_view_of)"

definition cache_truth :: "engine_env \<Rightarrow> bytes \<Rightarrow> index \<Rightarrow> rstring \<Rightarrow> nat \<Rightarrow> kvalue option" where
  "cache_truth E f idx key n = Option.bind (om_get idx key) (\<lambda>e. if e_version e = n then entry_value E f e else None)"

definition entry_ok :: "engine_env \<Rightarrow> bytes \<Rightarrow> nat \<Rightarrow> rstring \<Rightarrow> entry \<Rightarrow> bool" where
  "entry_ok E f sq k e \<longleftrightarrow> FILE_HEADER_LEN \<le> e_offset e \<and> entry_value E f e \<noteq> None \<and> e_version e \<le> sq \<and> entry_shaped E f k e"

definition store_ok :: "engine_env \<Rightarrow> inner \<Rightarrow> bool" where
  "store_ok E s \<longleftrightarrow> books_ok s \<and> i_file_len s = length (i_file s) \<and> FILE_HEADER_LEN \<le> length (i_file s) \<and>
     list_all (\<lambda>(k, e). entry_ok E (i_file s) (i_seq s) k e) (i_index s) \<and>
     vc.coherent (cache_truth E (i_file s) (i_index s)) (i_cache s) \<and>
     list_all (\<lambda>si. represents (vl_env (ee_values E)) si (docs_of E (i_file s) (i_index s))) (i_sec s)"

lemma store_okD:
  assumes "store_ok E s"
  shows "books_ok s" "i_file_len s = length (i_file s)" "FILE_HEADER_LEN \<le> length (i_file s)"
    "om_ok (i_index s)" "vc.coherent (cache_truth E (i_file s) (i_index s)) (i_cache s)"
  using assms by (auto simp: store_ok_def books_ok_def)

lemma store_ok_entry:
  assumes "store_ok E s" and "om_get (i_index s) k = Some e"
  obtains v where "entry_value E (i_file s) e = Some v" "FILE_HEADER_LEN \<le> e_offset e" "e_version e \<le> i_seq s"
    "entry_shaped E (i_file s) k e"
  using assms by (auto simp: store_ok_def entry_ok_def list_all_iff dest!: om_get_SomeD)

lemma list_all_om:
  "om_ok m \<Longrightarrow> list_all (\<lambda>(k, v). P k v) m \<longleftrightarrow> (\<forall>k v. om_get m k = Some v \<longrightarrow> P k v)"
  by (auto simp: list_all_iff om_get_Some_iff)

text \<open>
  The abstract state: each key with its value and its deadline (0 is none). \<open>contents\<close> is what a read
  at the time \<open>now\<close> finds.
\<close>

type_synonym kv_state = "rstring \<Rightarrow> (kvalue \<times> int) option"

definition dead :: "int \<Rightarrow> int \<Rightarrow> bool" where
  "dead now ex \<longleftrightarrow> 0 < ex \<and> ex \<le> now"

definition at_time :: "int \<Rightarrow> kv_state \<Rightarrow> kv_state" where
  "at_time now m k = (case m k of Some (v, ex) \<Rightarrow> if dead now ex then None else Some (v, ex) | None \<Rightarrow> None)"

definition stored :: "engine_env \<Rightarrow> inner \<Rightarrow> kv_state" where
  "stored E s k = Option.bind (om_get (i_index s) k) (\<lambda>e. map_option (\<lambda>v. (v, e_expires_at e)) (entry_value E (i_file s) e))"

definition contents :: "engine_env \<Rightarrow> int \<Rightarrow> inner \<Rightarrow> kv_state" where
  "contents E now s = at_time now (stored E s)"

lemma is_expired_dead: "is_expired e now \<longleftrightarrow> dead now (e_expires_at e)"
  by (simp add: is_expired_def dead_def)

lemma at_time_later: "now \<le> t \<Longrightarrow> at_time t (at_time now m) = at_time t m"
  by (auto simp: at_time_def dead_def fun_eq_iff split: option.splits)

lemma at_time_later_cong: "now \<le> t \<Longrightarrow> at_time now m = at_time now m' \<Longrightarrow> at_time t m = at_time t m'"
  by (metis at_time_later)

subsection \<open>The index operations\<close>

lemma docs_of_insert:
  "docs_of E f (om_insert k e idx) = (docs_of E f idx)(k := Option.bind (entry_value E f e) doc_view_of)"
  by (simp add: docs_of_def fun_eq_iff)

lemma docs_of_remove: "om_ok idx \<Longrightarrow> docs_of E f (om_remove k idx) = (docs_of E f idx)(k := None)"
  by (simp add: docs_of_def fun_eq_iff)

lemma store_ok_remove:
  assumes "store_ok E s"
  shows "store_ok E (snd (idx_remove key s))"
    and "stored E (snd (idx_remove key s)) = (stored E s)(key := None)"
proof -
  note b = store_okD [OF assms]
  show "stored E (snd (idx_remove key s)) = (stored E s)(key := None)"
    using b(4) by (simp add: stored_def idx_remove_fields fun_eq_iff)
  show "store_ok E (snd (idx_remove key s))"
  proof (cases "om_get (i_index s) key")
    case None
    with assms show ?thesis by (simp add: idx_remove_absent)
  next
    case (Some e)
    have "vc.coherent (cache_truth E (i_file s) (om_remove key (i_index s))) (cache_remove key (i_cache s))"
      by (rule vc.coherent_forget [OF b(5)]) (simp add: cache_truth_def b(4))
    moreover have "list_all (\<lambda>(k, e). entry_ok E (i_file s) (i_seq s) k e) (om_remove key (i_index s))"
      using assms set_om_remove [of key "i_index s"] by (auto simp: store_ok_def list_all_iff)
    moreover have "list_all (\<lambda>si. represents (vl_env (ee_values E)) si (docs_of E (i_file s) (om_remove key (i_index s))))
        (map (sec_remove key) (i_sec s))"
      using assms by (auto simp: store_ok_def list_all_iff docs_of_remove [OF b(4)] intro!: di.rep_rem)
    ultimately show ?thesis
      using assms Some b(2,3) by (simp add: store_ok_def books_ok_remove idx_remove_fields)
  qed
qed

lemma store_ok_insert:
  assumes "store_ok E s" and v: "entry_value E (i_file s) e = Some v"
    and "FILE_HEADER_LEN \<le> e_offset e" and "e_version e \<le> i_seq s" and "entry_shaped E (i_file s) key e"
  shows "store_ok E (idx_insert E key e (doc_view_of v) s)"
    and "stored E (idx_insert E key e (doc_view_of v) s) = (stored E s)(key \<mapsto> (v, e_expires_at e))"
proof -
  note b = store_okD [OF assms(1)]
  show "stored E (idx_insert E key e (doc_view_of v) s) = (stored E s)(key \<mapsto> (v, e_expires_at e))"
    using v by (simp add: stored_def idx_insert_fields fun_eq_iff)
  have "vc.coherent (cache_truth E (i_file s) (om_insert key e (i_index s))) (cache_remove key (i_cache s))"
    by (rule vc.coherent_forget [OF b(5)]) (simp add: cache_truth_def)
  moreover have "list_all (\<lambda>(k, e). entry_ok E (i_file s) (i_seq s) k e) (om_insert key e (i_index s))"
    using assms b(4) by (auto simp: store_ok_def list_all_om entry_ok_def split: if_splits)
  moreover have "list_all (\<lambda>si. represents (vl_env (ee_values E)) si (docs_of E (i_file s) (om_insert key e (i_index s))))
      (map (sec_update (vl_env (ee_values E)) key (doc_view_of v)) (i_sec s))"
    using assms by (auto simp: store_ok_def list_all_iff docs_of_insert intro!: di.rep_upd)
  ultimately show "store_ok E (idx_insert E key e (doc_view_of v) s)"
    using assms b(2,3) by (simp add: store_ok_def books_ok_insert idx_insert_fields)
qed

text \<open>A state that differs only in what the store does not depend on, or in a file that reads alike.\<close>

lemma store_ok_same:
  assumes "store_ok E s" and "i_index t = i_index s" and "i_live_bytes t = i_live_bytes s"
    and "i_key_bytes t = i_key_bytes s" and "i_expiry t = i_expiry s" and "i_sec t = i_sec s"
    and "vc.coherent (cache_truth E (i_file s) (i_index s)) (i_cache t)" and "i_seq s \<le> i_seq t"
    and "i_file_len t = length (i_file t)" and "FILE_HEADER_LEN \<le> length (i_file t)"
    and reads: "\<And>k e. om_get (i_index s) k = Some e \<Longrightarrow>
      read_at (i_file t) (e_offset e) (rec_len e) = read_at (i_file s) (e_offset e) (rec_len e)"
  shows "store_ok E t" and "stored E t = stored E s"
proof -
  note b = store_okD [OF assms(1)]
  note same = read_same(1) [OF reads] and shape = read_same(2) [OF reads]
  have docs: "docs_of E (i_file t) (i_index s) = docs_of E (i_file s) (i_index s)"
    by (rule ext) (simp add: docs_of_def same cong: Option.bind_cong)
  have truth: "cache_truth E (i_file t) (i_index s) = cache_truth E (i_file s) (i_index s)"
  proof (intro ext)
    fix k n
    show "cache_truth E (i_file t) (i_index s) k n = cache_truth E (i_file s) (i_index s) k n"
      by (cases "om_get (i_index s) k") (simp_all add: cache_truth_def same)
  qed
  have "list_all (\<lambda>(k, e). entry_ok E (i_file t) (i_seq t) k e) (i_index s)"
    using assms(1,8) same shape b(4) by (fastforce simp: store_ok_def list_all_om entry_ok_def)
  moreover have "cache_ok (i_cache t)" using assms(7) by (simp add: vc.coherent_def)
  ultimately show "store_ok E t"
    using assms(1-10) by (simp add: store_ok_def books_ok_def docs truth)
  show "stored E t = stored E s"
    by (rule ext) (simp add: stored_def same assms(2) cong: Option.bind_cong)
qed

lemma store_ok_live:
  assumes "store_ok E s"
  shows "store_ok E (snd (live now key s))" and "at_time now (stored E (snd (live now key s))) = at_time now (stored E s)"
proof -
  let ?s = "snd (idx_remove key s)"
  have t: "store_ok E (tell_expired key ?s)" "stored E (tell_expired key ?s) = (stored E s)(key := None)"
    using store_ok_same [OF store_ok_remove(1) [OF assms, of key], of "tell_expired key ?s"]
      store_ok_remove [OF assms, of key] store_okD [OF store_ok_remove(1) [OF assms, of key]] by simp_all
  show "store_ok E (snd (live now key s))"
    by (rule live_cases [of s key now]) (use assms t(1) in simp_all)
  show "at_time now (stored E (snd (live now key s))) = at_time now (stored E s)"
  proof (rule live_cases [of s key now])
    fix e assume e: "om_get (i_index s) key = Some e" "is_expired e now"
      and l: "live now key s = (None, tell_expired key ?s)"
    obtain v where "entry_value E (i_file s) e = Some v" by (rule store_ok_entry [OF assms e(1)])
    with e have "at_time now (stored E s) key = None" by (simp add: at_time_def stored_def is_expired_dead)
    then show ?thesis by (simp add: l t(2) fun_eq_iff) (simp add: at_time_def)
  qed simp_all
qed

lemma live_contents:
  assumes "store_ok E s"
  shows "fst (live now key s) = None \<longleftrightarrow> contents E now s key = None"
    and "fst (live now key s) = Some e \<Longrightarrow> om_get (i_index s) key = Some e \<and> snd (live now key s) = s \<and>
      (\<exists>v. entry_value E (i_file s) e = Some v \<and> contents E now s key = Some (v, e_expires_at e))"
proof -
  have c: "contents E now s key = (case om_get (i_index s) key of
      Some e \<Rightarrow> if is_expired e now then None else map_option (\<lambda>v. (v, e_expires_at e)) (entry_value E (i_file s) e) | None \<Rightarrow> None)"
    by (auto simp: contents_def at_time_def stored_def is_expired_dead split: option.splits)
  show "fst (live now key s) = None \<longleftrightarrow> contents E now s key = None"
    by (rule live_cases [of s key now]) (auto simp: c elim: store_ok_entry [OF assms])
  show "fst (live now key s) = Some e \<Longrightarrow> om_get (i_index s) key = Some e \<and> snd (live now key s) = s \<and>
      (\<exists>v. entry_value E (i_file s) e = Some v \<and> contents E now s key = Some (v, e_expires_at e))"
    by (rule live_cases [of s key now]) (auto simp: c elim: store_ok_entry [OF assms])
qed

subsection \<open>Reading and appending\<close>

lemma value_of_ok:
  assumes "store_ok E s" and "om_get (i_index s) key = Some e" and "entry_value E (i_file s) e = Some v"
  shows "fst (value_of E key e s) = Inr v" and "store_ok E (snd (value_of E key e s))"
    and "stored E (snd (value_of E key e s)) = stored E s" and "i_index (snd (value_of E key e s)) = i_index s"
    and "i_file (snd (value_of E key e s)) = i_file s" and "i_sec (snd (value_of E key e s)) = i_sec s"
    and "i_closed (snd (value_of E key e s)) = i_closed s"
proof -
  let ?T = "cache_truth E (i_file s) (i_index s)"
  note b = store_okD [OF assms(1)]
  have tr: "?T key (e_version e) = Some v" using assms(2,3) by (simp add: cache_truth_def)
  obtain r c where g: "cache_get key (e_version e) (i_cache s) = (r, c)" by (cases "cache_get key (e_version e) (i_cache s)")
  note rt = vc.read_through [OF b(5) tr, where n = "unat (e_raw_size e)", unfolded g fst_conv snd_conv]
  have rv: "read_value E e (s\<lparr>i_cache := c\<rparr>) = (Inr v, s\<lparr>i_cache := c\<rparr>)"
    by (rule read_value_entry) (simp add: assms(3))
  have "\<exists>c'. value_of E key e s = (Inr v, s\<lparr>i_cache := c'\<rparr>) \<and> vc.coherent ?T c'"
    using rt by (cases r) (auto simp: value_of_def g rv)
  then obtain c' where c': "value_of E key e s = (Inr v, s\<lparr>i_cache := c'\<rparr>)" "vc.coherent ?T c'" by blast
  have st: "store_ok E (s\<lparr>i_cache := c'\<rparr>)" "stored E (s\<lparr>i_cache := c'\<rparr>) = stored E s"
    using store_ok_same [OF assms(1), of "s\<lparr>i_cache := c'\<rparr>"] b(2,3) c'(2) by simp_all
  with c'(1) show "fst (value_of E key e s) = Inr v" "store_ok E (snd (value_of E key e s))"
    "stored E (snd (value_of E key e s)) = stored E s" "i_index (snd (value_of E key e s)) = i_index s"
    "i_file (snd (value_of E key e s)) = i_file s" "i_sec (snd (value_of E key e s)) = i_sec s"
    "i_closed (snd (value_of E key e s)) = i_closed s" by simp_all
qed

definition header_written :: "bytes \<Rightarrow> bytes \<Rightarrow> bool" where
  "header_written f f' \<longleftrightarrow> f' = f \<or> (\<exists>b. length b = 4 \<and> f' = write_at 4 b f)"

lemma header_written_facts:
  assumes "header_written f f'" and "FILE_HEADER_LEN \<le> length f"
  shows "length f' = length f" and "FILE_HEADER_LEN \<le> e_offset e \<Longrightarrow> entry_value E f' e = entry_value E f e"
    and "FILE_HEADER_LEN \<le> off \<Longrightarrow> read_at f' off n = read_at f off n"
  using assms entry_value_header [of f e _ E] read_at_header [of f off _ n]
  by (auto simp: header_written_def write_at_def len_defs)

text \<open>What an append leaves, whether it succeeds or fails.\<close>

lemma append_cases:
  assumes "store_ok E s"
  obtains (ok) f fmt where "append_buf io buf sync s = (Inr (length (i_file s)),
      s\<lparr>i_file := f @ buf, i_file_len := length (i_file s) + length buf, i_format := fmt, i_unsynced := \<not> sync\<rparr>)"
      "header_written (i_file s) f"
  | (failed) err f fmt where "append_buf io buf sync s = (Inl err, s\<lparr>i_file := f, i_format := fmt\<rparr>)"
      "header_written (i_file s) f"
proof -
  note b = store_okD [OF assms]
  have self: "s = s\<lparr>i_file := i_file s, i_format := i_format s\<rparr>" by simp
  have hw: "header_written (i_file s) (i_file s)" "header_written (i_file s) (write_at 4 (le_bytes 4 n) (i_file s))" for n :: u32
    by (auto simp: header_written_def intro!: exI [of _ "le_bytes 4 n"])
  have wl: "length (write_at 4 (le_bytes 4 (n :: u32)) (i_file s)) = length (i_file s)" for n
    using header_written_facts(1) [OF hw(2) b(3)] .
  have app: "write_at (length f) buf f = f @ buf" for f by (simp add: write_at_def)
  show thesis
  proof (cases "i_closed s \<or> format_needed buf = None")
    case True
    then have "\<exists>err. append_buf io buf sync s = (Inl err, s)" by (auto simp: append_buf_def)
    then obtain err where "append_buf io buf sync s = (Inl err, s)" ..
    then have "append_buf io buf sync s = (Inl err, s\<lparr>i_file := i_file s, i_format := i_format s\<rparr>)" by simp
    then show thesis using hw(1) by (rule failed)
  next
    case False
    then obtain need where n: "format_needed buf = Some need" "\<not> i_closed s" by auto
    define f where "f = (if need > i_format s then write_at 4 (le_bytes 4 need) (i_file s) else i_file s)"
    have f: "header_written (i_file s) f" "length f = length (i_file s)" using hw wl by (simp_all add: f_def)
    show thesis
    proof (cases io)
      case NoFault
      have "append_buf io buf sync s = (Inr (length (i_file s)), s\<lparr>i_file := f @ buf,
          i_file_len := length (i_file s) + length buf, i_format := (if need > i_format s then need else i_format s),
          i_unsynced := \<not> sync\<rparr>)"
        using n NoFault app [of f] f(2) b(2)
        by (cases "need > i_format s"; cases s) (simp_all add: append_buf_def f_def Let_def)
      then show thesis using f(1) by (rule ok)
    next
      case (HeaderFault why)
      show thesis
      proof (cases "need > i_format s")
        case True
        with n HeaderFault have "append_buf io buf sync s = (Inl (Io why), s\<lparr>i_file := i_file s, i_format := i_format s\<rparr>)"
          by (simp add: append_buf_def)
        then show thesis using hw(1) by (rule failed)
      next
        case no: False
        have "append_buf io buf sync s = (Inr (length (i_file s)), s\<lparr>i_file := i_file s @ buf,
            i_file_len := length (i_file s) + length buf, i_format := i_format s, i_unsynced := \<not> sync\<rparr>)"
          using n no HeaderFault app [of "i_file s"] by (simp add: append_buf_def b(2) Let_def)
        then show thesis using hw(1) by (rule ok)
      qed
    next
      case (WriteFault why)
      have "append_buf io buf sync s = (Inl (Io why), s\<lparr>i_file := f,
          i_format := (if need > i_format s then need else i_format s)\<rparr>)"
        using n WriteFault f(2) b(2) by (cases "need > i_format s"; cases s) (simp_all add: append_buf_def f_def Let_def)
      then show thesis using f(1) by (rule failed)
    qed
  qed
qed

lemma store_ok_file:
  assumes "store_ok E s" and "header_written (i_file s) f" and "i_file t = f @ buf"
    and "i_index t = i_index s" and "i_live_bytes t = i_live_bytes s"
    and "i_key_bytes t = i_key_bytes s" and "i_expiry t = i_expiry s" and "i_sec t = i_sec s"
    and "i_cache t = i_cache s" and "i_seq s \<le> i_seq t" and "i_file_len t = length (i_file s) + length buf"
  shows "store_ok E t" and "stored E t = stored E s"
proof -
  note b = store_okD [OF assms(1)]
  note hf = header_written_facts [OF assms(2) b(3)]
  have same: "read_at (i_file t) (e_offset e) (rec_len e) = read_at (i_file s) (e_offset e) (rec_len e)"
    if e: "om_get (i_index s) k = Some e" for k e
  proof -
    obtain rec where "read_at (i_file s) (e_offset e) (rec_len e) = Some rec" "FILE_HEADER_LEN \<le> e_offset e"
      by (rule store_ok_entry [OF assms(1) e]) (auto simp: entry_shaped_def)
    then show ?thesis using hf(3) [of "e_offset e" "rec_len e"] read_at_append [of f _ _ _ buf] by (simp add: assms(3))
  qed
  have "i_file_len t = length (i_file t)" "FILE_HEADER_LEN \<le> length (i_file t)"
    "vc.coherent (cache_truth E (i_file s) (i_index s)) (i_cache t)"
    using hf(1) b assms by simp_all
  note st = store_ok_same [OF assms(1,4-8) this(3) assms(10) this(1,2)]
  show "store_ok E t" by (rule st(1)) (rule same)
  show "stored E t = stored E s" by (rule st(2)) (rule same)
qed

subsection \<open>Writes\<close>

text \<open>What does not touch the store: the journal, the log of events, the counters.\<close>

lemma journal_list_frame [simp]:
  "i_file (journal_list E c l x s) = i_file s" "i_file_len (journal_list E c l x s) = i_file_len s"
  "i_index (journal_list E c l x s) = i_index s" "i_seq (journal_list E c l x s) = i_seq s"
  "i_sec (journal_list E c l x s) = i_sec s" "i_cache (journal_list E c l x s) = i_cache s"
  "i_expiry (journal_list E c l x s) = i_expiry s" "i_live_bytes (journal_list E c l x s) = i_live_bytes s"
  "i_key_bytes (journal_list E c l x s) = i_key_bytes s" "i_closed (journal_list E c l x s) = i_closed s"
  "i_compression (journal_list E c l x s) = i_compression s" "i_emitted (journal_list E c l x s) = i_emitted s"
  "i_active_txns (journal_list E c l x s) = i_active_txns s" "i_tomb_versions (journal_list E c l x s) = i_tomb_versions s"
  "i_reset_seq (journal_list E c l x s) = i_reset_seq s" "i_expired (journal_list E c l x s) = i_expired s"
  "i_file_id (journal_list E c l x s) = i_file_id s" "i_format (journal_list E c l x s) = i_format s"
  by (simp_all add: journal_list_def split: option.splits)

lemma emit_frame [simp]:
  "i_file (emit x s) = i_file s" "i_file_len (emit x s) = i_file_len s" "i_index (emit x s) = i_index s"
  "i_seq (emit x s) = i_seq s" "i_sec (emit x s) = i_sec s" "i_cache (emit x s) = i_cache s"
  "i_expiry (emit x s) = i_expiry s" "i_live_bytes (emit x s) = i_live_bytes s" "i_key_bytes (emit x s) = i_key_bytes s"
  "i_closed (emit x s) = i_closed s" "i_compression (emit x s) = i_compression s" "i_changes (emit x s) = i_changes s"
  "i_tomb_versions (emit x s) = i_tomb_versions s" "i_active_txns (emit x s) = i_active_txns s"
  "i_reset_seq (emit x s) = i_reset_seq s" "i_emitted (emit x s) = i_emitted s @ [x]"
  "i_file_id (emit x s) = i_file_id s" "i_format (emit x s) = i_format s"
  by (simp_all add: emit_def)

text \<open>The last steps of a write: the counters, the pinned value and the event.\<close>

definition put_entry :: "engine_env \<Rightarrow> rstring \<Rightarrow> kvalue \<Rightarrow> entry \<Rightarrow> bytes \<Rightarrow> inner \<Rightarrow> inner" where
  "put_entry E key v ent raw s =
     (let s = idx_insert E key ent (doc_view_of v) s in
      if is_pinned (i_cache s) key
      then s\<lparr>i_cache := cache_put key (e_version ent) v (length raw) (i_cache s)\<rparr> else s)"

lemma put_entry_ok:
  assumes "store_ok E s" and v: "entry_value E (i_file s) e = Some v"
    and "FILE_HEADER_LEN \<le> e_offset e" and "e_version e \<le> i_seq s" and "entry_shaped E (i_file s) key e"
  shows "store_ok E (put_entry E key v e raw s)"
    and "stored E (put_entry E key v e raw s) = (stored E s)(key \<mapsto> (v, e_expires_at e))"
proof -
  let ?s = "idx_insert E key e (doc_view_of v) s"
  note ins = store_ok_insert [OF assms]
  note b = store_okD [OF ins(1)]
  have "vc.coherent (cache_truth E (i_file ?s) (i_index ?s)) (cache_put key (e_version e) v n (i_cache ?s))" for n
    by (rule vc.coherent_store [OF b(5)]) (simp add: cache_truth_def idx_insert_fields v)
  then have "store_ok E (?s\<lparr>i_cache := cache_put key (e_version e) v n (i_cache ?s)\<rparr>) \<and>
      stored E (?s\<lparr>i_cache := cache_put key (e_version e) v n (i_cache ?s)\<rparr>) = stored E ?s" for n
    using store_ok_same [OF ins(1), of "?s\<lparr>i_cache := cache_put key (e_version e) v n (i_cache ?s)\<rparr>"] b(2,3) by simp
  with ins show "store_ok E (put_entry E key v e raw s)"
    "stored E (put_entry E key v e raw s) = (stored E s)(key \<mapsto> (v, e_expires_at e))"
    by (simp_all add: put_entry_def Let_def)
qed

lemma put_entry_frame [simp]:
  "i_closed (put_entry E key v e raw s) = i_closed s"
  "i_sec (put_entry E key v e raw s) = map (sec_update (vl_env (ee_values E)) key (doc_view_of v)) (i_sec s)"
  "i_file (put_entry E key v e raw s) = i_file s" "i_seq (put_entry E key v e raw s) = i_seq s"
  "i_index (put_entry E key v e raw s) = om_insert key e (i_index s)"
  "i_file_id (put_entry E key v e raw s) = i_file_id s" "i_format (put_entry E key v e raw s) = i_format s"
  "i_file_len (put_entry E key v e raw s) = i_file_len s" "i_compression (put_entry E key v e raw s) = i_compression s"
  "i_tomb_versions (put_entry E key v e raw s) = i_tomb_versions s" "i_active_txns (put_entry E key v e raw s) = i_active_txns s"
  "i_reset_seq (put_entry E key v e raw s) = i_reset_seq s" "i_changes (put_entry E key v e raw s) = i_changes s"
  "i_emitted (put_entry E key v e raw s) = i_emitted s"
  by (simp_all add: put_entry_def Let_def idx_insert_fields)

lemma store_ok_same_simple:
  assumes "store_ok E s" and "i_index t = i_index s" and "i_live_bytes t = i_live_bytes s"
    and "i_key_bytes t = i_key_bytes s" and "i_expiry t = i_expiry s" and "i_sec t = i_sec s"
    and "i_cache t = i_cache s" and "i_seq s \<le> i_seq t" and "i_file t = i_file s" and "i_file_len t = i_file_len s"
  shows "store_ok E t" and "stored E t = stored E s"
  using store_ok_same [OF assms(1-6), unfolded assms(7), OF store_okD(5) [OF assms(1)] assms(8)]
    store_okD(2,3) [OF assms(1)] assms(9,10) by auto

definition put_ready :: "engine_env \<Rightarrow> call \<Rightarrow> kvalue \<Rightarrow> int \<Rightarrow> int \<Rightarrow> bool" where
  "put_ready E c v ex ts \<longleftrightarrow> env_ok E \<and> nonce_ok (c_rng c 0) \<and> value_ok (ee_values E) v \<and> is_i64 ts \<and> is_i64 ex"

definition put_change :: "rstring \<Rightarrow> kvalue \<Rightarrow> bytes \<Rightarrow> entry \<Rightarrow> int \<Rightarrow> int \<Rightarrow> bool \<Rightarrow> nat \<Rightarrow> new_change" where
  "put_change key v raw ent ts ex created data_end =
     \<lparr>nc_kind = CSet, nc_key = key, nc_ty = type_u8 (value_ty v), nc_raw = raw, nc_enc = e_doc_enc ent,
      nc_timestamp = ts, nc_expires_at = ex, nc_created = Some created, nc_data_end = data_end\<rparr>"

lemma put_locked_eq:
  assumes "build_put E (c_rng c 0) (i_compression s) key v ex mp ts 0 = Inr (rec, ent, raw)"
    and "live (c_now c) key s = (found, s1)" and "append_buf (c_io c) rec False s1 = (Inr off, t)"
  defines "u \<equiv> journal_list E c [put_change key v raw (ent\<lparr>e_offset := off\<rparr>) ts ex (found = None) (off + length rec)] False t"
  defines "w \<equiv> put_entry E key v (ent\<lparr>e_offset := off, e_version := i_seq u + 1\<rparr>) raw (u\<lparr>i_seq := i_seq u + 1\<rparr>)"
  shows "put_locked E c key v ex mp ts s = (Inr (found = None),
    emit (OpSet key (value_ty v) raw (e_doc_enc ent) ts ex (found = None)) (w\<lparr>i_dirty_ops := i_dirty_ops w + 1\<rparr>))"
proof -
  have "e_doc_enc (ent\<lparr>e_offset := off, e_version := n\<rparr>) = e_doc_enc ent" for n by (simp add: e_doc_enc_def)
  with assms(1-3) show ?thesis
    by (simp add: put_locked_def Let_def u_def w_def put_entry_def put_change_def)
qed

lemma put_locked_ok:
  assumes s: "store_ok E s" and ready: "put_ready E c v ex ts"
    and put: "put_locked E c key v ex mp ts s = (r, s')"
  shows "store_ok E s'"
    and "at_time (c_now c) (stored E s') =
      (case r of Inr _ \<Rightarrow> at_time (c_now c) ((stored E s)(key \<mapsto> (v, ex))) | Inl _ \<Rightarrow> at_time (c_now c) (stored E s))"
    and "\<And>created. r = Inr created \<Longrightarrow> created = (contents E (c_now c) s key = None)"
proof -
  have "store_ok E s' \<and> at_time (c_now c) (stored E s') =
      (case r of Inr _ \<Rightarrow> at_time (c_now c) ((stored E s)(key \<mapsto> (v, ex))) | Inl _ \<Rightarrow> at_time (c_now c) (stored E s)) \<and>
      (\<forall>created. r = Inr created \<longrightarrow> created = (contents E (c_now c) s key = None))"
  proof (cases "build_put E (c_rng c 0) (i_compression s) key v ex mp ts 0")
    case (Inl err)
    with put s show ?thesis by (auto simp: put_locked_def)
  next
    case (Inr x)
    obtain rec ent raw where x: "x = (rec, ent, raw)" by (cases x)
    have rd: "env_ok E" "nonce_ok (c_rng c 0)" "value_ok (ee_values E) v" "is_i64 ts" "is_i64 ex"
      using ready by (simp_all add: put_ready_def)
    note bp = build_put_entry [OF Inr [unfolded x] rd(1-3) _ rd(4,5), simplified]
    obtain found s1 where l: "live (c_now c) key s = (found, s1)" by (cases "live (c_now c) key s")
    have s1: "store_ok E s1" "at_time (c_now c) (stored E s1) = at_time (c_now c) (stored E s)"
      using store_ok_live [OF s, of "c_now c" key] l by simp_all
    have created: "found = None \<longleftrightarrow> contents E (c_now c) s key = None"
      using live_contents(1) [OF s, of "c_now c" key] l by simp
    show ?thesis
    proof (rule append_cases [OF s1(1), of "c_io c" rec False])
      fix err f fmt
      assume a: "append_buf (c_io c) rec False s1 = (Inl err, s1\<lparr>i_file := f, i_format := fmt\<rparr>)"
        and f: "header_written (i_file s1) f"
      have "store_ok E (s1\<lparr>i_file := f, i_format := fmt\<rparr>)" "stored E (s1\<lparr>i_file := f, i_format := fmt\<rparr>) = stored E s1"
        using store_ok_file [OF s1(1) f, of "s1\<lparr>i_file := f, i_format := fmt\<rparr>" "[]"] store_okD(2) [OF s1(1)] by simp_all
      with put Inr x l a s1(2) show ?thesis by (auto simp: put_locked_def)
    next
      fix f fmt
      let ?t = "s1\<lparr>i_file := f @ rec, i_file_len := length (i_file s1) + length rec, i_format := fmt, i_unsynced := \<not> False\<rparr>"
      assume a: "append_buf (c_io c) rec False s1 = (Inr (length (i_file s1)), ?t)"
        and f: "header_written (i_file s1) f"
      define u where "u = journal_list E c [put_change key v raw (ent\<lparr>e_offset := length (i_file s1)\<rparr>) ts ex (found = None)
          (length (i_file s1) + length rec)] False ?t"
      define e where "e = ent\<lparr>e_offset := length (i_file s1), e_version := i_seq u + 1\<rparr>"
      have fl: "length f = length (i_file s1)" "FILE_HEADER_LEN \<le> length (i_file s1)"
        using header_written_facts(1) [OF f] store_okD(3) [OF s1(1)] by simp_all
      have u: "store_ok E (u\<lparr>i_seq := i_seq u + 1\<rparr>)" "stored E (u\<lparr>i_seq := i_seq u + 1\<rparr>) = stored E s1"
        using store_ok_file [OF s1(1) f, of "u\<lparr>i_seq := i_seq u + 1\<rparr>" rec] by (simp_all add: u_def)
      have ev: "entry_value E (i_file (u\<lparr>i_seq := i_seq u + 1\<rparr>)) e = Some v"
        using bp(1) [of f "[]"] by (simp add: e_def u_def fl)
      have sh: "entry_shaped E (i_file (u\<lparr>i_seq := i_seq u + 1\<rparr>)) key e"
        using bp(8) [of f "[]"] by (simp add: e_def u_def fl)
      note pe = put_entry_ok [OF u(1) ev _ _ sh, of raw]
      have e': "FILE_HEADER_LEN \<le> e_offset e" "e_version e \<le> i_seq (u\<lparr>i_seq := i_seq u + 1\<rparr>)" "e_expires_at e = ex"
        using fl bp(4) by (simp_all add: e_def)
      let ?w = "put_entry E key v e raw (u\<lparr>i_seq := i_seq u + 1\<rparr>)"
      let ?o = "OpSet key (value_ty v) raw (e_doc_enc ent) ts ex (found = None)"
      have s': "s' = emit ?o (?w\<lparr>i_dirty_ops := i_dirty_ops ?w + 1\<rparr>)" and r: "r = Inr (found = None)"
        using put put_locked_eq [OF Inr [unfolded x] l a, folded u_def e_def] by auto
      have "store_ok E s'" "stored E s' = stored E ?w"
        using store_ok_same_simple [OF pe(1) [OF e'(1,2)], of s'] by (simp_all add: s')
      moreover have "stored E ?w = (stored E s1)(key \<mapsto> (v, ex))"
        using pe(2) [OF e'(1,2)] u(2) e'(3) by simp
      moreover have "at_time (c_now c) ((stored E s1)(key \<mapsto> (v, ex))) = at_time (c_now c) ((stored E s)(key \<mapsto> (v, ex)))"
        using s1(2) by (auto simp: at_time_def fun_eq_iff)
      ultimately show ?thesis using r created by simp
    qed
  qed
  then show "store_ok E s'"
    and "at_time (c_now c) (stored E s') =
      (case r of Inr _ \<Rightarrow> at_time (c_now c) ((stored E s)(key \<mapsto> (v, ex))) | Inl _ \<Rightarrow> at_time (c_now c) (stored E s))"
    and "\<And>created. r = Inr created \<Longrightarrow> created = (contents E (c_now c) s key = None)"
    by blast+
qed

text \<open>When a write goes through: a key and a value within bounds, an open engine, no I/O fault.\<close>

definition value_fits :: "engine_env \<Rightarrow> bool \<Rightarrow> kvalue \<Rightarrow> bool" where
  "value_fits E mp v \<longleftrightarrow> (case encode_stored (ee_values E) (mp \<and> is_doc (value_ty v)) v of
     Inr (raw, _) \<Rightarrow> length raw \<le> MAX_VALUE_LEN | Inl _ \<Rightarrow> False)"

lemma encode_succeeds: "nonce_ok rng \<Longrightarrow> \<exists>rec. engine_encode E rng key v ty fl ts ex = Inr rec"
  by (auto simp: engine_encode_def crypt_encode_record_def seal_def Let_def dest!: nonce_okD split: option.splits prod.splits)

lemma build_put_succeeds:
  assumes "validate_key key = Inr ()" and "value_fits E mp v" and "nonce_ok rng"
  shows "\<exists>rec ent raw. build_put E rng algo key v ex mp ts x = Inr (rec, ent, raw)"
proof -
  obtain raw de where enc: "encode_stored (ee_values E) (mp \<and> is_doc (value_ty v)) v = Inr (raw, de)"
    and len: "\<not> length raw > MAX_VALUE_LEN"
    using assms(2) by (auto simp: value_fits_def split: sum.splits)
  obtain stored' cfl where pk: "pack (ee_codec E) raw algo = (stored', cfl)" by (cases "pack (ee_codec E) raw algo")
  obtain rec where "engine_encode E rng key stored' (type_u8 (value_ty v)) (cfl OR x OR doc_enc_flags de) ts ex = Inr rec"
    using encode_succeeds [OF assms(3)] by blast
  with assms(1) enc len pk show ?thesis by (simp add: build_put_def Let_def)
qed

lemma append_succeeds:
  assumes "is_frame rec" and "c_io c = NoFault" and "\<not> i_closed s"
  shows "\<exists>off t. append_buf (c_io c) rec sync s = (Inr off, t)"
  using assms by (auto simp: append_buf_def format_needed_frame Let_def)

lemma live_closed [simp]: "i_closed (snd (live now key s)) = i_closed s"
  by (rule live_cases [of s key now]) simp_all

lemma put_locked_succeeds:
  assumes "store_ok E s" and "put_ready E c v ex ts" and "validate_key key = Inr ()" and "value_fits E mp v"
    and "c_io c = NoFault" and "\<not> i_closed s"
  shows "\<exists>created s'. put_locked E c key v ex mp ts s = (Inr created, s')"
proof -
  have rd: "env_ok E" "nonce_ok (c_rng c 0)" "value_ok (ee_values E) v" "is_i64 ts" "is_i64 ex"
    using assms(2) by (simp_all add: put_ready_def)
  obtain rec ent raw where bp: "build_put E (c_rng c 0) (i_compression s) key v ex mp ts 0 = Inr (rec, ent, raw)"
    using build_put_succeeds [OF assms(3,4) rd(2)] by blast
  note be = build_put_entry [OF bp rd(1-3) _ rd(4,5), simplified]
  obtain found s1 where l: "live (c_now c) key s = (found, s1)" by (cases "live (c_now c) key s")
  then have "\<not> i_closed s1" using live_closed [of "c_now c" key s] assms(6) by simp
  from append_succeeds [OF be(3) assms(5) this, of False] obtain off t where "append_buf (c_io c) rec False s1 = (Inr off, t)"
    by blast
  from put_locked_eq [OF bp l this] show ?thesis by blast
qed

lemma validate_key_ok: "validate_key key = Inr () \<Longrightarrow> key \<noteq> [] \<and> str_len key \<le> 1024"
  by (auto simp: validate_key_def MAX_KEY_LEN_def split: if_splits)

lemma tombstone_frame:
  assumes "engine_encode E rng key [] 0 fl ts 0 = Inr rec" and "env_ok E" and "nonce_ok rng"
    and "validate_key key = Inr ()" and "is_i64 ts" and "fl AND FLAG_ENCRYPTED = 0"
  shows "is_frame rec"
proof -
  obtain nonce where n: "rng = Inr nonce" "length nonce = NONCE_LEN" using nonce_okD [OF assms(3)] by blast
  note k = validate_key_ok [OF assms(4)]
  have fits: "crypt_fits (ee_keys E) key [] ts 0"
    using k assms(5) by (simp add: crypt_fits_def overhead_def crypt_lens is_i64_def split: option.splits)
  have A: "aead_ok (ee_aead E)" "can_open (ee_keys E) (ee_keys E)" using assms(2) by (simp_all add: env_ok_def)
  note cf = crypt_record_facts [OF assms(1) [unfolded engine_encode_def n(1)] A(1) n(2) A(2) fits assms(6)]
  show ?thesis by (rule is_frame_header(1) [OF cf(1) fits]) (use cf(2) k in simp_all)
qed

text \<open>The steps of a deletion that follow the append.\<close>

definition drop_entry :: "rstring \<Rightarrow> inner \<Rightarrow> inner" where
  "drop_entry key s =
     (let s = s\<lparr>i_seq := i_seq s + 1\<rparr>; s = snd (idx_remove key s)
      in if i_active_txns s > 0 then s\<lparr>i_tomb_versions := om_insert key (i_seq s) (i_tomb_versions s)\<rparr> else s)"

lemma drop_entry_frame [simp]:
  "i_closed (drop_entry key s) = i_closed s" "i_file (drop_entry key s) = i_file s"
  "i_seq (drop_entry key s) = i_seq s + 1" "i_index (drop_entry key s) = om_remove key (i_index s)"
  "i_file_id (drop_entry key s) = i_file_id s" "i_format (drop_entry key s) = i_format s"
  "i_file_len (drop_entry key s) = i_file_len s" "i_compression (drop_entry key s) = i_compression s"
  "i_active_txns (drop_entry key s) = i_active_txns s" "i_reset_seq (drop_entry key s) = i_reset_seq s"
  "i_changes (drop_entry key s) = i_changes s" "i_emitted (drop_entry key s) = i_emitted s"
  by (simp_all add: drop_entry_def Let_def idx_remove_fields)

lemma drop_entry_ok:
  assumes "store_ok E s"
  shows "store_ok E (drop_entry key s)" and "stored E (drop_entry key s) = (stored E s)(key := None)"
proof -
  let ?t = "s\<lparr>i_seq := i_seq s + 1\<rparr>"
  have t: "store_ok E ?t" "stored E ?t = stored E s"
    using store_ok_same_simple [OF assms, of ?t] by simp_all
  note r = store_ok_remove [OF t(1), of key]
  have "store_ok E (drop_entry key s) \<and> stored E (drop_entry key s) = stored E (snd (idx_remove key ?t))"
    using store_ok_same_simple [OF r(1), of "drop_entry key s"] by (simp add: drop_entry_def Let_def)
  with r(2) t(2) show "store_ok E (drop_entry key s)" "stored E (drop_entry key s) = (stored E s)(key := None)"
    by simp_all
qed

lemma delete_eq:
  assumes "live (c_now c) key s = (Some e, s1)"
    and "engine_encode E (c_rng c 0) key [] 0 FLAG_TOMBSTONE (c_secs c) 0 = Inr rec"
    and "append_buf (c_io c) rec False s1 = (Inr off, t)"
  defines "w \<equiv> drop_entry key (journal_del E c key (c_secs c) (off + length rec) t)"
  shows "engine_delete E c key s = (Inr True, emit (OpDel key) (w\<lparr>i_dirty_ops := i_dirty_ops w + 1\<rparr>))"
  using assms(1-3) by (simp add: engine_delete_def Let_def drop_entry_def w_def)

lemma delete_ok:
  assumes s: "store_ok E s" and del: "engine_delete E c key s = (r, s')"
  shows "store_ok E s'"
    and "at_time (c_now c) (stored E s') =
      (if r = Inr True then at_time (c_now c) ((stored E s)(key := None)) else at_time (c_now c) (stored E s))"
    and "\<And>b. r = Inr b \<Longrightarrow> b = (contents E (c_now c) s key \<noteq> None)"
proof -
  obtain found s1 where l: "live (c_now c) key s = (found, s1)" by (cases "live (c_now c) key s")
  have s1: "store_ok E s1" "at_time (c_now c) (stored E s1) = at_time (c_now c) (stored E s)"
    using store_ok_live [OF s, of "c_now c" key] l by simp_all
  have found: "found = None \<longleftrightarrow> contents E (c_now c) s key = None"
    using live_contents(1) [OF s, of "c_now c" key] l by simp
  have "store_ok E s' \<and> at_time (c_now c) (stored E s') =
      (if r = Inr True then at_time (c_now c) ((stored E s)(key := None)) else at_time (c_now c) (stored E s)) \<and>
      (\<forall>b. r = Inr b \<longrightarrow> b = (contents E (c_now c) s key \<noteq> None))"
  proof (cases "found = None \<or> (\<exists>err. engine_encode E (c_rng c 0) key [] 0 FLAG_TOMBSTONE (c_secs c) 0 = Inl err)")
    case True
    with del l s1 found show ?thesis by (auto simp: engine_delete_def split: option.splits)
  next
    case False
    then obtain e rec where e: "found = Some e" and rec: "engine_encode E (c_rng c 0) key [] 0 FLAG_TOMBSTONE (c_secs c) 0 = Inr rec"
      by (metis option.exhaust sum.exhaust)
    show ?thesis
    proof (rule append_cases [OF s1(1), of "c_io c" rec False])
      fix err f fmt
      assume a: "append_buf (c_io c) rec False s1 = (Inl err, s1\<lparr>i_file := f, i_format := fmt\<rparr>)"
        and f: "header_written (i_file s1) f"
      have "store_ok E (s1\<lparr>i_file := f, i_format := fmt\<rparr>)" "stored E (s1\<lparr>i_file := f, i_format := fmt\<rparr>) = stored E s1"
        using store_ok_file [OF s1(1) f, of "s1\<lparr>i_file := f, i_format := fmt\<rparr>" "[]"] store_okD(2) [OF s1(1)] by simp_all
      with del l e rec a s1(2) show ?thesis by (auto simp: engine_delete_def)
    next
      fix f fmt
      let ?t = "s1\<lparr>i_file := f @ rec, i_file_len := length (i_file s1) + length rec, i_format := fmt, i_unsynced := \<not> False\<rparr>"
      assume a: "append_buf (c_io c) rec False s1 = (Inr (length (i_file s1)), ?t)"
        and f: "header_written (i_file s1) f"
      define u where "u = journal_del E c key (c_secs c) (length (i_file s1) + length rec) ?t"
      have u: "store_ok E u" "stored E u = stored E s1"
        using store_ok_file [OF s1(1) f, of u rec] by (simp_all add: u_def journal_del_def)
      let ?w = "drop_entry key u"
      have s': "s' = emit (OpDel key) (?w\<lparr>i_dirty_ops := i_dirty_ops ?w + 1\<rparr>)" "r = Inr True"
        using del delete_eq [OF l [unfolded e] rec a] by (auto simp: u_def)
      note de = drop_entry_ok [OF u(1), of key]
      have "store_ok E s'" "stored E s' = stored E ?w"
        using store_ok_same_simple [OF de(1), of s'] by (simp_all add: s')
      moreover have "at_time (c_now c) ((stored E s1)(key := None)) = at_time (c_now c) ((stored E s)(key := None))"
        using s1(2) by (auto simp: at_time_def fun_eq_iff)
      ultimately show ?thesis using s'(2) de(2) u(2) found e by simp
    qed
  qed
  then show "store_ok E s'"
    and "at_time (c_now c) (stored E s') =
      (if r = Inr True then at_time (c_now c) ((stored E s)(key := None)) else at_time (c_now c) (stored E s))"
    and "\<And>b. r = Inr b \<Longrightarrow> b = (contents E (c_now c) s key \<noteq> None)"
    by blast+
qed

lemma get_ok:
  assumes s: "store_ok E s" and g: "engine_get E c key s = (r, s')"
  shows "store_ok E s'" and "at_time (c_now c) (stored E s') = at_time (c_now c) (stored E s)"
    and "\<exists>o_r. r = Inr o_r \<and> map_option (\<lambda>(v, e). (v, e_expires_at e)) o_r = contents E (c_now c) s key"
proof -
  obtain found s1 where l: "live (c_now c) key s = (found, s1)" by (cases "live (c_now c) key s")
  have s1: "store_ok E s1" "at_time (c_now c) (stored E s1) = at_time (c_now c) (stored E s)"
    using store_ok_live [OF s, of "c_now c" key] l by simp_all
  have "store_ok E s' \<and> at_time (c_now c) (stored E s') = at_time (c_now c) (stored E s) \<and>
      (\<exists>o_r. r = Inr o_r \<and> map_option (\<lambda>(v, e). (v, e_expires_at e)) o_r = contents E (c_now c) s key)"
  proof (cases found)
    case None
    with g l s1 live_contents(1) [OF s, of "c_now c" key] show ?thesis by (simp add: engine_get_def)
  next
    case (Some e)
    with live_contents(2) [OF s, of "c_now c" key e] l obtain v where
      v: "om_get (i_index s) key = Some e" "s1 = s" "entry_value E (i_file s) e = Some v"
        "contents E (c_now c) s key = Some (v, e_expires_at e)" by auto
    note vo = value_of_ok [OF s v(1,3)]
    obtain r2 s2 where v2: "value_of E key e s = (r2, s2)" by (cases "value_of E key e s")
    with vo g l Some v show ?thesis by (auto simp: engine_get_def)
  qed
  then show "store_ok E s'" and "at_time (c_now c) (stored E s') = at_time (c_now c) (stored E s)"
    and "\<exists>o_r. r = Inr o_r \<and> map_option (\<lambda>(v, e). (v, e_expires_at e)) o_r = contents E (c_now c) s key"
    by blast+
qed

end
