(* ===== verification/Hint.thy ===== *)
theory Hint
  imports Types
begin

text \<open>
  \<^verbatim>\<open>src/hint.rs\<close>: the hint file, a snapshot of the index that saves the scan of the data file at
  start. A hint file is the list of its bytes; writing it to a temporary file and renaming it, and
  reading it from disk, are left to the caller. Sealing draws its nonce from the argument \<open>rng\<close>.
\<close>

definition HINT_MAGIC :: bytes where "HINT_MAGIC = lit_bytes ''KHNT''"
definition HINT_VERSION :: u32 where "HINT_VERSION = 1"
definition HINT_HEADER_LEN :: nat where "HINT_HEADER_LEN = 44"

record hint_data =
  hd_file_id :: u64
  hd_data_len :: nat
  hd_compression :: compression
  hd_encrypted :: bool
  hd_entries :: "(rstring \<times> entry) list"

definition hint_fields :: "rstring \<times> entry \<Rightarrow> bytes" where
  "hint_fields ke = (case ke of (key, e) \<Rightarrow>
     le_bytes 2 (word_of_nat (str_len key) :: u16) @ as_bytes key @
     le_bytes 8 (word_of_nat (e_offset e) :: u64) @ le_bytes 4 (e_v_size e) @ le_bytes 4 (e_raw_size e) @
     [type_u8 (e_ty e), e_flags e] @ i64_bytes (e_timestamp e) @ i64_bytes (e_expires_at e))"

definition hint_entry :: "(bytes \<Rightarrow> u32) \<Rightarrow> rstring \<times> entry \<Rightarrow> bytes" where
  "hint_entry crc ke = hint_fields ke @ le_bytes 4 (crc (hint_fields ke))"

definition write_hint :: "aead \<Rightarrow> (bytes \<Rightarrow> u32) \<Rightarrow> codec \<Rightarrow> keys option \<Rightarrow> kiva_error + bytes \<Rightarrow>
    u64 \<Rightarrow> nat \<Rightarrow> index \<Rightarrow> compression \<Rightarrow> kiva_error + bytes" where
  "write_hint A crc C ks rng file_id data_len index algo =
     (let body = concat (map (hint_entry crc) index);
          (packed, flag) = pack C body algo
      in try_bind (case ks of None \<Rightarrow> Inr packed | Some k \<Rightarrow> seal A k rng DHint (le_bytes 8 file_id) packed) (\<lambda>stored.
        let out = HINT_MAGIC @ le_bytes 4 HINT_VERSION @ le_bytes 8 file_id @ le_bytes 8 (word_of_nat data_len :: u64) @
              le_bytes 8 (word_of_nat (length index) :: u64) @ [flag, if ks = None then 0 else 1] @ [0, 0] @
              le_bytes 4 (crc stored)
        in Inr (out @ le_bytes 4 (crc out) @ stored)))"

definition bad :: "string \<Rightarrow> kiva_error" where
  "bad msg = Corrupted (''hint file: '' @ msg)"

text \<open>One entry at the front of \<open>body\<close>, and what follows it.\<close>

definition read_entry :: "(bytes \<Rightarrow> u32) \<Rightarrow> nat \<Rightarrow> bytes \<Rightarrow> kiva_error + (rstring \<times> entry) \<times> bytes" where
  "read_entry crc data_len body =
     (if length body < 2 then Inl (bad ''truncated entry'')
      else let k_size = le_word (take 2 body) :: u16; k = unat k_size; p = drop 2 body in
        if length p < k + 38 then Inl (bad ''truncated entry'')
        else case from_utf8 (take k p) of
          None \<Rightarrow> Inl (bad ''key is not UTF-8'')
        | Some key \<Rightarrow>
            (let p = drop k p;
                 offset = unat (le_word (take 8 p) :: u64);
                 v_size = le_word (take 4 (drop 8 p)) :: u32;
                 raw_size = le_word (take 4 (drop 12 p)) :: u32
             in case type_from_u8 (p ! 16) of
               None \<Rightarrow> Inl (bad ''unknown type tag'')
             | Some ty \<Rightarrow>
                 if le_word (take 4 (drop 34 p)) \<noteq> crc (take (k + 36) body) then Inl (bad ''entry checksum mismatch'')
                 else if k = 0 \<or> min (offset + (28 + k + unat v_size)) (2 ^ 64 - 1) > data_len
                 then Inl (bad ''entry points outside the data file'')
                 else Inr ((key, \<lparr>e_offset = offset, e_k_size = k_size, e_v_size = v_size, e_raw_size = raw_size,
                   e_ty = ty, e_flags = p ! 17, e_timestamp = i64_of (take 8 (drop 18 p)),
                   e_expires_at = expiry_to_ms (i64_of (take 8 (drop 26 p))), e_version = 0\<rparr>), drop 38 p)))"

lemma read_entry_shorter: "read_entry crc n body = Inr (ke, rest) \<Longrightarrow> length rest < length body"
  by (auto simp: read_entry_def Let_def split: if_splits option.splits)

function read_entries :: "(bytes \<Rightarrow> u32) \<Rightarrow> nat \<Rightarrow> bytes \<Rightarrow> kiva_error + (rstring \<times> entry) list" where
  "read_entries crc data_len body =
     (if body = [] then Inr []
      else case read_entry crc data_len body of
        Inl err \<Rightarrow> Inl err
      | Inr (ke, rest) \<Rightarrow> try_bind (read_entries crc data_len rest) (\<lambda>kes. Inr (ke # kes)))"
  by pat_completeness auto
termination
  by (relation "measure (\<lambda>(crc, n, body). length body)") (auto dest: read_entry_shorter)

declare read_entries.simps [simp del]

definition read_hint :: "aead \<Rightarrow> (bytes \<Rightarrow> u32) \<Rightarrow> codec \<Rightarrow> keys option \<Rightarrow> bytes \<Rightarrow> kiva_error + hint_data" where
  "read_hint A crc C ks data =
     (if length data < HINT_HEADER_LEN \<or> take 4 data \<noteq> HINT_MAGIC then Inl (bad ''missing signature'')
      else if le_word (take 4 (drop 40 data)) \<noteq> crc (take 40 data) then Inl (bad ''header checksum mismatch'')
      else if le_word (take 4 (drop 4 data)) \<noteq> HINT_VERSION then Inl (bad ''unsupported version'')
      else let file_id = le_word (take 8 (drop 8 data)) :: u64;
               data_len = unat (le_word (take 8 (drop 16 data)) :: u64);
               count = unat (le_word (take 8 (drop 24 data)) :: u64);
               compression = from_flag (data ! 32);
               stored = drop HINT_HEADER_LEN data
        in if le_word (take 4 (drop 36 data)) \<noteq> crc stored then Inl (bad ''body checksum mismatch'')
        else let encrypted = (data ! 33 = 1) in
          try_bind (if encrypted then (case open_with A ks DHint (le_bytes 8 file_id) stored of
              Inl e \<Rightarrow> Inl (into_error e) | Inr plain \<Rightarrow> Inr plain) else Inr stored) (\<lambda>stored.
          case unpack C stored compression of
            Inl _ \<Rightarrow> Inl (bad ''body cannot be decompressed'')
          | Inr body \<Rightarrow>
              try_bind (read_entries crc data_len body) (\<lambda>entries.
                if length entries \<noteq> count then Inl (bad ''entry count mismatch'')
                else Inr \<lparr>hd_file_id = file_id, hd_data_len = data_len, hd_compression = compression,
                       hd_encrypted = encrypted, hd_entries = entries\<rparr>)))"

subsection \<open>Round trip\<close>

text \<open>An index entry of a data file of \<open>data_len\<close> bytes that a hint can hold.\<close>

definition hint_fits :: "nat \<Rightarrow> rstring \<times> entry \<Rightarrow> bool" where
  "hint_fits data_len ke \<longleftrightarrow> (case ke of (key, e) \<Rightarrow>
     valid_str key \<and> key \<noteq> [] \<and> str_len key < 2 ^ 16 \<and> e_k_size e = word_of_nat (str_len key) \<and>
     e_offset e + rec_len e \<le> data_len \<and> is_i64 (e_timestamp e) \<and> is_i64 (e_expires_at e) \<and>
     expiry_to_ms (e_expires_at e) = e_expires_at e)"

lemma length_hint_fields: "length (hint_fields (key, e)) = str_len key + 36"
  by (simp add: hint_fields_def wire_simps)

lemma read_entry_written:
  assumes "hint_fits data_len (key, e)" and "data_len < 2 ^ 64"
  shows "read_entry crc data_len (hint_entry crc (key, e) @ rest) = Inr ((key, e\<lparr>e_version := 0\<rparr>), rest)"
proof -
  have k: "unat (word_of_nat (str_len key) :: u16) = str_len key"
    using assms(1) by (simp add: hint_fits_def unat_of_nat)
  then have fits: "e_offset e + (28 + str_len key + unat (e_v_size e)) \<le> data_len"
    using assms(1) by (auto simp: hint_fits_def rec_len_def len_defs)
  then have off: "unat (word_of_nat (e_offset e) :: u64) = e_offset e"
    using assms(2) by (simp add: unat_of_nat)
  have pos: "0 < str_len key" using assms(1) by (cases key) (simp_all add: hint_fits_def)
  have "take (str_len key + 36) (hint_entry crc (key, e) @ rest) = hint_fields (key, e)"
    using length_hint_fields [of key e] by (simp add: hint_entry_def)
  moreover have "hint_entry crc (key, e) @ rest = le_bytes 2 (word_of_nat (str_len key) :: u16) @ as_bytes key @
      le_bytes 8 (word_of_nat (e_offset e) :: u64) @ le_bytes 4 (e_v_size e) @ le_bytes 4 (e_raw_size e) @
      [type_u8 (e_ty e), e_flags e] @ i64_bytes (e_timestamp e) @ i64_bytes (e_expires_at e) @
      le_bytes 4 (crc (hint_fields (key, e))) @ rest"
    by (simp add: hint_entry_def hint_fields_def)
  ultimately show ?thesis
    using assms(1) k off pos fits assms(2)
    by (simp add: read_entry_def Let_def wire_simps nth_append hint_fits_def)
qed

lemma read_entries_written:
  assumes "list_all (hint_fits data_len) kes" and "data_len < 2 ^ 64"
  shows "read_entries crc data_len (concat (map (hint_entry crc) kes)) = Inr (map (\<lambda>(k, e). (k, e\<lparr>e_version := 0\<rparr>)) kes)"
  using assms(1)
proof (induction kes)
  case Nil
  show ?case by (simp add: read_entries.simps)
next
  case (Cons ke kes)
  obtain key e where ke: "ke = (key, e)" by (cases ke)
  have "hint_entry crc ke \<noteq> []" by (simp add: hint_entry_def ke hint_fields_def wire_simps)
  with Cons read_entry_written [OF _ assms(2), of key e crc "concat (map (hint_entry crc) kes)"] ke show ?case
    by (subst read_entries.simps) simp
qed

definition hint_header :: "(bytes \<Rightarrow> u32) \<Rightarrow> keys option \<Rightarrow> u8 \<Rightarrow> u64 \<Rightarrow> nat \<Rightarrow> nat \<Rightarrow> bytes \<Rightarrow> bytes" where
  "hint_header crc ks flag file_id data_len n stored =
     (let out = HINT_MAGIC @ le_bytes 4 HINT_VERSION @ le_bytes 8 file_id @ le_bytes 8 (word_of_nat data_len :: u64) @
            le_bytes 8 (word_of_nat n :: u64) @ [flag, if ks = None then 0 else 1] @ [0, 0] @ le_bytes 4 (crc stored)
      in out @ le_bytes 4 (crc out))"

lemma read_hint_header:
  assumes "data_len < 2 ^ 64" and "n < 2 ^ 64"
  shows "read_hint A crc C ks' (hint_header crc ks flag file_id data_len n stored @ stored) =
    try_bind (if ks \<noteq> None then (case open_with A ks' DHint (le_bytes 8 file_id) stored of
        Inl e \<Rightarrow> Inl (into_error e) | Inr plain \<Rightarrow> Inr plain) else Inr stored) (\<lambda>stored.
      case unpack C stored (from_flag flag) of
        Inl _ \<Rightarrow> Inl (bad ''body cannot be decompressed'')
      | Inr body \<Rightarrow>
          try_bind (read_entries crc data_len body) (\<lambda>entries.
            if length entries \<noteq> n then Inl (bad ''entry count mismatch'')
            else Inr \<lparr>hd_file_id = file_id, hd_data_len = data_len, hd_compression = from_flag flag,
                   hd_encrypted = (ks \<noteq> None), hd_entries = entries\<rparr>))"
  using assms
  by (simp add: read_hint_def hint_header_def HINT_HEADER_LEN_def HINT_MAGIC_def Let_def wire_simps unat_of_nat nth_append
      cong: if_cong sum.case_cong)

lemma read_hint_written:
  assumes "write_hint A crc C ks (Inr nonce) file_id data_len index algo = Inr out"
    and "aead_ok A" and "codec_ok C" and "length nonce = NONCE_LEN" and "can_open ks ks'"
    and "list_all (hint_fits data_len) index" and "data_len < 2 ^ 64" and "length index < 2 ^ 64"
    and "length (concat (map (hint_entry crc) index)) \<le> MAX_VALUE_LEN"
  shows "read_hint A crc C ks' out = Inr \<lparr>hd_file_id = file_id, hd_data_len = data_len,
    hd_compression = from_flag (snd (pack C (concat (map (hint_entry crc) index)) algo)),
    hd_encrypted = (ks \<noteq> None), hd_entries = map (\<lambda>(k, e). (k, e\<lparr>e_version := 0\<rparr>)) index\<rparr>"
proof -
  define body where "body = concat (map (hint_entry crc) index)"
  obtain packed flag where pk: "pack C body algo = (packed, flag)" by (cases "pack C body algo")
  obtain stored where st: "(case ks of None \<Rightarrow> Inr packed | Some k \<Rightarrow> seal A k (Inr nonce) DHint (le_bytes 8 file_id) packed) = Inr stored"
    and out: "out = hint_header crc ks flag file_id data_len (length index) stored @ stored"
    using assms(1) pk by (auto simp: write_hint_def hint_header_def body_def [symmetric] try_bind_Inr_iff Let_def)
  have "(if ks \<noteq> None then (case open_with A ks' DHint (le_bytes 8 file_id) stored of
      Inl e \<Rightarrow> Inl (into_error e) | Inr plain \<Rightarrow> Inr plain) else Inr stored) = Inr packed"
  proof (cases ks)
    case (Some k)
    with st assms(2,4,5) open_with_seal(1) [of A k nonce DHint "le_bytes 8 file_id" packed stored "the ks'"]
    show ?thesis by (auto simp: can_open_def split: option.splits)
  qed (use st in simp)
  moreover have "unpack C packed (from_flag flag) = Inr body"
    using unpack_pack_eq [OF assms(3), of body algo] assms(9) pk by (simp add: body_def)
  moreover have "read_entries crc data_len body = Inr (map (\<lambda>(k, e). (k, e\<lparr>e_version := 0\<rparr>)) index)"
    unfolding body_def by (rule read_entries_written [OF assms(6,7)])
  ultimately show ?thesis
    using assms(7,8) pk by (simp add: read_hint_header out body_def [symmetric])
qed

text \<open>
  (C27) A hint file is read back as it was written: the identity and length of the data file it
  covers, whether it is encrypted, and every entry of the index in order, for any compression, with
  or without encryption, and with a key ring in which the writing key has become an old one. Entries
  must lie within the data file and the uncompressed snapshot within 256 MB.
\<close>

theorem hint_roundtrip:
  assumes "write_hint A crc C ks (Inr nonce) file_id data_len index algo = Inr out"
    and "aead_ok A" and "codec_ok C" and "length nonce = NONCE_LEN" and "can_open ks ks'"
    and "list_all (hint_fits data_len) index" and "data_len < 2 ^ 64" and "length index < 2 ^ 64"
    and "length (concat (map (hint_entry crc) index)) \<le> MAX_VALUE_LEN"
  shows "\<exists>h. read_hint A crc C ks' out = Inr h \<and> hd_file_id h = file_id \<and> hd_data_len h = data_len \<and>
    hd_encrypted h = (ks \<noteq> None) \<and> hd_entries h = map (\<lambda>(k, e). (k, e\<lparr>e_version := 0\<rparr>)) index"
  using read_hint_written [OF assms] by simp

definition demo_index :: index where
  "demo_index = [(lit ''a'', \<lparr>e_offset = 16, e_k_size = 1, e_v_size = 40, e_raw_size = 8, e_ty = TString, e_flags = FLAG_ENCRYPTED,
     e_timestamp = 5, e_expires_at = 0, e_version = 3\<rparr>)]"

theorem hint_roundtrip_witness:
  "\<exists>out h. write_hint plain_aead (\<lambda>b. of_nat (length b)) run_codec (Some \<lparr>current = key_one, old = []\<rparr>) (Inr (replicate 12 0))
      9 85 demo_index Lz4 = Inr out \<and>
    read_hint plain_aead (\<lambda>b. of_nat (length b)) run_codec (Some \<lparr>current = key_two, old = [key_one]\<rparr>) out = Inr h \<and>
    hd_data_len h = 85 \<and> hd_entries h = [(lit ''a'', snd (hd demo_index)\<lparr>e_version := 0\<rparr>)]"
proof -
  let ?ks = "Some \<lparr>current = key_one, old = []\<rparr>" and ?ks' = "Some \<lparr>current = key_two, old = [key_one]\<rparr>"
  let ?crc = "\<lambda>b :: bytes. of_nat (length b) :: u32"
  obtain out where w: "write_hint plain_aead ?crc run_codec ?ks (Inr (replicate 12 0)) 9 85 demo_index Lz4 = Inr out"
    by (cases "pack run_codec (concat (map (hint_entry ?crc) demo_index)) Lz4")
      (simp add: write_hint_def seal_def plain_aead_def Let_def)
  have c: "can_open ?ks ?ks'" by (simp add: can_open_def find_key_def key_one_def key_two_def)
  have f: "list_all (hint_fits 85) demo_index"
    by (simp add: demo_index_def hint_fits_def rec_len_def len_defs is_i64_def expiry_to_ms_def len_utf8_def valid_char_def)
  have n: "length (replicate 12 (0 :: u8)) = NONCE_LEN" by (simp add: crypt_lens)
  have b: "length (concat (map (hint_entry ?crc) demo_index)) \<le> MAX_VALUE_LEN"
    by (simp add: demo_index_def hint_entry_def length_hint_fields len_utf8_def MAX_VALUE_LEN_def)
  have l: "85 < (2 :: nat) ^ 64" "length demo_index < 2 ^ 64" by (simp_all add: demo_index_def)
  from hint_roundtrip [OF w plain_aead_ok run_codec_ok n c f l b]
  show ?thesis using w by (auto simp: demo_index_def)
qed

end
