(* ===== verification/Open.thy ===== *)
theory Open
  imports Store Hint
begin

text \<open>
  Opening a workspace (\<^verbatim>\<open>Engine::open\<close> of \<^verbatim>\<open>src/engine.rs\<close>): the file header, the index from the hint
  file or from the log, the truncation of a torn tail, the check of the keys, and the secondary indexes
  and pinned patterns the definitions file lists. A disk is the data file, the hint file and the parsed
  definitions file; the lock file, the temporary file of an interrupted compaction, the copy kept
  before a large truncation and the maintenance thread are not modelled, nor are the vector indexes,
  the schemas and the change journal of the definitions file. \<^verbatim>\<open>open\<close> reads the clock once here.
\<close>

record disk =
  d_data :: bytes
  d_hint :: "bytes option"
  d_meta :: "json option"

record options =
  o_compression :: compression
  o_require_encryption :: bool
  o_cache_bytes :: nat

subsection \<open>Reading the definitions file\<close>

definition index_kind_parse :: "rstring \<Rightarrow> index_kind option" where
  "index_kind_parse s = (let t = map ascii_lower s in
     if t = lit ''btree'' \<or> t = lit ''b-tree'' then Some BTree
     else if t = lit ''hash'' then Some HashIdx else None)"

fun collect_paths :: "rstring list \<Rightarrow> string + seg list list" where
  "collect_paths [] = Inr []"
| "collect_paths (f # fs) = try_bind (parse_path f) (\<lambda>p. try_bind (collect_paths fs) (\<lambda>ps. Inr (p # ps)))"

definition index_def :: "json \<Rightarrow> sec_index option" where
  "index_def j = (case (as_str (json_at j ''pattern''), as_str (json_at j ''field'')) of
     (Some p, Some f) \<Rightarrow>
       (case (case as_array (json_at j ''fields'') of
            Some fs \<Rightarrow> collect_paths (map (or_default [] \<circ> as_str) fs)
          | None \<Rightarrow> map_sum id (\<lambda>segs. [segs]) (parse_path f)) of
          Inl _ \<Rightarrow> None
        | Inr paths \<Rightarrow>
            (let kind = or_default BTree (Option.bind (as_str (json_at j ''kind'')) index_kind_parse);
                 unique = or_default False (as_bool (json_at j ''unique''));
                 folds = or_default False (as_bool (json_at j ''ignore_case''))
             in Some (sec_folding folds (sec_new p f paths kind unique))))
   | _ \<Rightarrow> None)"

subsection \<open>Filling what is kept in memory\<close>

definition matching_entries :: "rstring \<Rightarrow> index \<Rightarrow> (rstring \<times> entry) list" where
  "matching_entries pattern idx =
     takeWhile (\<lambda>kv. starts_with (fst kv) (glob_prefix pattern)) (om_from (glob_prefix pattern) idx)"

definition warm_pinned :: "engine_env \<Rightarrow> int \<Rightarrow> rstring \<Rightarrow> inner \<Rightarrow> inner" where
  "warm_pinned E now pattern s =
     fold (\<lambda>(k, e) s. case read_value E e s of
         (Inr v, s) \<Rightarrow> s\<lparr>i_cache := cache_put k (e_version e) v (unat (e_raw_size e)) (i_cache s)\<rparr>
       | (Inl _, s) \<Rightarrow> s)
       (filter (\<lambda>kv. \<not> is_expired (snd kv) now \<and> glob_match pattern (fst kv)) (matching_entries pattern (i_index s))) s"

definition rebuild_sec :: "engine_env \<Rightarrow> int \<Rightarrow> nat \<Rightarrow> inner \<Rightarrow> inner" where
  "rebuild_sec E now i s =
     (let s = s\<lparr>i_sec := (i_sec s)[i := sec_clear (i_sec s ! i)]\<rparr>;
          pattern = si_pattern (i_sec s ! i)
      in fold (\<lambda>(k, e) s. case read_value E e s of
           (Inr v, s) \<Rightarrow> s\<lparr>i_sec := (i_sec s)[i := sec_update (vl_env (ee_values E)) k (doc_view_of v) (i_sec s ! i)]\<rparr>
         | (Inl _, s) \<Rightarrow> s)
         (filter (\<lambda>kv. is_doc (e_ty (snd kv)) \<and> \<not> is_expired (snd kv) now \<and> glob_match pattern (fst kv))
           (matching_entries pattern (i_index s))) s)"

definition open_pinned :: "engine_env \<Rightarrow> int \<Rightarrow> json \<Rightarrow> inner \<Rightarrow> inner" where
  "open_pinned E now meta s =
     fold (\<lambda>j s. case as_str j of
         Some p \<Rightarrow> warm_pinned E now p (s\<lparr>i_cache := snd (pin p (i_cache s))\<rparr>)
       | None \<Rightarrow> s) (or_default [] (as_array (json_at meta ''pinned''))) s"

definition open_indexes :: "engine_env \<Rightarrow> int \<Rightarrow> json \<Rightarrow> inner \<Rightarrow> inner" where
  "open_indexes E now meta s =
     fold (\<lambda>j s. case index_def j of
         Some si \<Rightarrow> (let s = s\<lparr>i_sec := i_sec s @ [si]\<rparr> in rebuild_sec E now (length (i_sec s) - 1) s)
       | None \<Rightarrow> s) (or_default [] (as_array (json_at meta ''indexes''))) s"

subsection \<open>Opening\<close>

text \<open>The hint file: its entries with their versions, the last version and where the scan starts.\<close>

definition number_entries :: "(rstring \<times> entry) list \<Rightarrow> index \<times> nat" where
  "number_entries kes = fold (\<lambda>(k, e) (m, n). (om_insert k (e\<lparr>e_version := n + 1\<rparr>) m, n + 1)) kes ([], 0)"

definition open_hint :: "engine_env \<Rightarrow> options \<Rightarrow> u64 \<Rightarrow> disk \<Rightarrow> index \<times> nat \<times> nat" where
  "open_hint E opts file_id d = (case d_hint d of
     None \<Rightarrow> ([], 0, FILE_HEADER_LEN)
   | Some bs \<Rightarrow>
       (case read_hint (ee_aead E) (ee_crc E) (ee_codec E) (ee_keys E) bs of
          Inl _ \<Rightarrow> ([], 0, FILE_HEADER_LEN)
        | Inr h \<Rightarrow>
            (let trusted = (\<not> o_require_encryption opts \<or>
                   (hd_encrypted h \<and> list_all (\<lambda>(_, e). e_flags e AND FLAG_ENCRYPTED \<noteq> 0) (hd_entries h))) in
             if trusted \<and> hd_file_id h = file_id \<and> hd_data_len h \<le> length (d_data d) \<and> FILE_HEADER_LEN \<le> hd_data_len h
             then (let (idx, n) = number_entries (hd_entries h) in (idx, n, hd_data_len h))
             else ([], 0, FILE_HEADER_LEN))))"

definition key_check :: "engine_env \<Rightarrow> bytes \<Rightarrow> index \<Rightarrow> kiva_error + unit" where
  "key_check E f idx = (case find (\<lambda>kv. e_flags (snd kv) AND FLAG_ENCRYPTED \<noteq> 0) idx of
     None \<Rightarrow> Inr ()
   | Some (_, e) \<Rightarrow>
       (case read_at f (e_offset e) (rec_len e) of
          None \<Rightarrow> Inl (Io ''failed to fill whole buffer'')
        | Some rec \<Rightarrow>
            (case open_record (ee_aead E) (ee_keys E) rec of
               Inr _ \<Rightarrow> Inr ()
             | Inl e \<Rightarrow> if e = Tampered then Inr () else Inl (into_error e))))"

definition open_inner :: "options \<Rightarrow> bytes \<Rightarrow> u64 \<Rightarrow> u32 \<Rightarrow> index \<Rightarrow> nat \<Rightarrow> nat \<Rightarrow> inner" where
  "open_inner opts f file_id fmt idx sq bad_records =
     recount \<lparr>i_file = f, i_file_len = length f, i_file_id = file_id, i_format = fmt, i_index = idx, i_live_bytes = 0,
       i_expiry = [], i_expired = [], i_seq = sq, i_compression = o_compression opts, i_sec = [],
       i_cache = cache_new (o_cache_bytes opts), i_key_bytes = 0, i_active_txns = 0, i_tomb_versions = [],
       i_reset_seq = 0, i_dirty_ops = 0, i_unsynced = False, i_corrupted = bad_records, i_closed = False,
       i_changes = None, i_emitted = []\<rparr>"

text \<open>The file, its identity, its format, the index and the counts, before anything expires.\<close>

definition open_file :: "engine_env \<Rightarrow> options \<Rightarrow> kiva_error + u64 \<Rightarrow> disk \<Rightarrow>
    kiva_error + bytes \<times> u64 \<times> u32 \<times> scan_outcome" where
  "open_file E opts rid d =
     (if d_data d = [] then
        try_bind rid (\<lambda>file_id.
          Inr (file_header file_id FORMAT_V1, file_id, FORMAT_V1,
            \<lparr>so_index = [], so_seq = 0, so_end = FILE_HEADER_LEN, so_corrupted = 0\<rparr>))
      else if length (d_data d) < FILE_HEADER_LEN then Inl (Format ''file header is truncated'')
      else case parse_file_header (take FILE_HEADER_LEN (d_data d)) of
        Inl msg \<Rightarrow> Inl (Format msg)
      | Inr (file_id, fmt) \<Rightarrow>
          (let (idx, sq, start) = open_hint E opts file_id d in
           try_bind (scan_log (ee_aead E) (ee_crc E) (ee_keys E) (o_require_encryption opts) (d_data d) start idx sq) (\<lambda>out.
             Inr (take (so_end out) (d_data d), file_id, fmt, out))))"

definition engine_open :: "engine_env \<Rightarrow> options \<Rightarrow> int \<Rightarrow> kiva_error + u64 \<Rightarrow> disk \<Rightarrow> kiva_error + inner" where
  "engine_open E opts now rid d =
     try_bind (open_file E opts rid d) (\<lambda>(f, file_id, fmt, out).
       let idx = filter (\<lambda>kv. \<not> is_expired (snd kv) now) (so_index out) in
       try_bind (key_check E f idx) (\<lambda>_.
         let s = open_inner opts f file_id fmt idx (so_seq out) (so_corrupted out) in
         Inr (case d_meta d of
            None \<Rightarrow> s
          | Some meta \<Rightarrow> open_indexes E now meta (open_pinned E now meta s))))"

end
