(* ===== verification/Log.thy ===== *)
theory Log
  imports Open
begin

text \<open>
  The data file as a log. \<open>log_state\<close> is the map a list of records stands for; opening a file replays
  the units that are wholly there (\<open>open_log\<close>); a put appends one record that stands for the new
  value, a deletion one that stands for nothing (\<open>put_record\<close>, \<open>tombstone_record\<close>), and the file
  otherwise only changes in the format field of its header (\<open>grows\<close>).
\<close>

subsection \<open>The map a log stands for\<close>

definition rec_state :: "engine_env \<Rightarrow> log_rec \<Rightarrow> (kvalue \<times> int) option" where
  "rec_state E r = Option.bind (l_entry r) (\<lambda>e. map_option (\<lambda>v. (v, e_expires_at e)) (entry_value E (l_bytes r) e))"

definition good_rec :: "engine_env \<Rightarrow> bool \<Rightarrow> log_rec \<Rightarrow> bool" where
  "good_rec E req r \<longleftrightarrow> reads (ee_aead E) (ee_crc E) (ee_keys E) req r \<and>
     (case l_entry r of None \<Rightarrow> True
      | Some e \<Rightarrow> e_offset e = 0 \<and> rec_len e = length (l_bytes r) \<and> entry_value E (l_bytes r) e \<noteq> None \<and>
          entry_shaped E (l_bytes r) (l_key r) e)"

definition log_state :: "engine_env \<Rightarrow> kv_state \<Rightarrow> log_rec list \<Rightarrow> kv_state" where
  "log_state E m rs = fold (\<lambda>r m. m(l_key r := rec_state E r)) rs m"

definition state_of :: "engine_env \<Rightarrow> bytes \<Rightarrow> index \<Rightarrow> kv_state" where
  "state_of E f idx k = Option.bind (om_get idx k) (\<lambda>e. map_option (\<lambda>v. (v, e_expires_at e)) (entry_value E f e))"

definition index_fine :: "engine_env \<Rightarrow> bytes \<Rightarrow> nat \<Rightarrow> index \<Rightarrow> bool" where
  "index_fine E f n idx \<longleftrightarrow> om_ok idx \<and> (\<forall>k e. om_get idx k = Some e \<longrightarrow> entry_ok E f n k e)"

lemma log_state_simps [simp]:
  "log_state E m [] = m" "log_state E m (r # rs) = log_state E (m(l_key r := rec_state E r)) rs"
  "log_state E m (rs @ qs) = log_state E (log_state E m rs) qs"
  by (simp_all add: log_state_def)

lemma stored_state_of: "stored E s = state_of E (i_file s) (i_index s)"
  by (simp add: stored_def state_of_def fun_eq_iff)

lemma entry_value_placed:
  assumes "rec_len e = length r" and "e_offset e = 0"
  shows "entry_value E (pre @ r @ post) (e\<lparr>e_offset := length pre\<rparr>) = entry_value E r e"
proof -
  have "read_at (pre @ r @ post) (length pre) (rec_len e) = Some r" by (rule read_at_middle [OF assms(1)])
  moreover have "read_at r (e_offset e) (rec_len e) = Some r" using assms by (simp add: read_at_def)
  moreover have "e_compression (e\<lparr>e_offset := length pre\<rparr>) = e_compression e" "e_doc_enc (e\<lparr>e_offset := length pre\<rparr>) = e_doc_enc e"
    by (simp_all add: e_compression_def e_doc_enc_def)
  ultimately show ?thesis
    by (simp add: entry_value_def cong: sum.case_cong)
qed

lemma entry_shaped_placed:
  assumes "rec_len e = length r" and "e_offset e = 0"
  shows "entry_shaped E (pre @ r @ post) k (e\<lparr>e_offset := length pre\<rparr>) = entry_shaped E r k e"
proof -
  have "read_at (pre @ r @ post) (length pre) (rec_len e) = Some r" by (rule read_at_middle [OF assms(1)])
  moreover have "read_at r (e_offset e) (rec_len e) = Some r" using assms by (simp add: read_at_def)
  ultimately show ?thesis by (simp add: entry_shaped_def)
qed

lemma entry_ok_append: "entry_ok E f n k e \<Longrightarrow> n \<le> m \<Longrightarrow> entry_ok E (f @ g) m k e"
  by (auto simp: entry_ok_def entry_value_append entry_shaped_append)

lemma state_of_append:
  assumes "index_fine E f n idx"
  shows "state_of E (f @ g) idx = state_of E f idx"
proof
  fix k
  show "state_of E (f @ g) idx k = state_of E f idx k"
  proof (cases "om_get idx k")
    case (Some e)
    then obtain v where "entry_value E f e = Some v" using assms by (auto simp: index_fine_def entry_ok_def)
    with Some entry_value_append [OF this] show ?thesis by (simp add: state_of_def)
  qed (simp add: state_of_def)
qed

text \<open>Replaying a log onto an index gives an index for the longer file, and its map.\<close>

lemma replay_state:
  assumes "list_all (good_rec E req) rs" and "index_fine E pre n idx" and "FILE_HEADER_LEN \<le> length pre"
  shows "index_fine E (pre @ log_bytes rs) (snd (replay (placed (length pre) rs) (idx, n)))
      (fst (replay (placed (length pre) rs) (idx, n)))"
    and "state_of E (pre @ log_bytes rs) (fst (replay (placed (length pre) rs) (idx, n))) =
      log_state E (state_of E pre idx) rs"
proof -
  have "index_fine E (pre @ log_bytes rs) (snd (replay (placed (length pre) rs) (idx, n)))
      (fst (replay (placed (length pre) rs) (idx, n))) \<and>
    state_of E (pre @ log_bytes rs) (fst (replay (placed (length pre) rs) (idx, n))) = log_state E (state_of E pre idx) rs"
    using assms
  proof (induction rs arbitrary: pre idx n)
    case (Cons r rs)
    let ?pre = "pre @ l_bytes r"
    have ok: "om_ok idx" and ents: "entry_ok E pre n k e" if "om_get idx k = Some e" for k e
      using Cons.prems(2) that by (auto simp: index_fine_def)
    have ok: "om_ok idx" using Cons.prems(2) by (simp add: index_fine_def)
    have old: "entry_ok E ?pre (n + 1) k e" if "om_get idx k = Some e" for k e
      using entry_ok_append [OF ents [OF that]] by simp
    define idx' where "idx' = (case l_entry r of Some e \<Rightarrow> om_insert (l_key r) (e\<lparr>e_offset := length pre, e_version := n + 1\<rparr>) idx
        | None \<Rightarrow> om_remove (l_key r) idx)"
    have step: "replay (placed (length pre) (r # rs)) (idx, n) = replay (placed (length ?pre) rs) (idx', n + 1)"
      by (cases "l_entry r") (simp_all add: at_offset_def idx'_def)
    have new: "entry_value E ?pre (e\<lparr>e_offset := length pre, e_version := n + 1\<rparr>) = entry_value E (l_bytes r) e"
      if "l_entry r = Some e" for e
      using Cons.prems(1) that entry_value_placed [of e "l_bytes r" E pre "[]"] by (simp add: good_rec_def)
    have fine: "index_fine E ?pre (n + 1) idx'"
    proof (cases "l_entry r")
      case None
      with ok old show ?thesis by (auto simp: index_fine_def idx'_def)
    next
      case (Some e)
      have "entry_ok E ?pre (n + 1) (l_key r) (e\<lparr>e_offset := length pre, e_version := n + 1\<rparr>)"
        using new [OF Some] Cons.prems(1,3) Some entry_shaped_placed [of e "l_bytes r" E pre "[]"]
        by (simp add: entry_ok_def good_rec_def)
      with Some ok old show ?thesis by (auto simp: index_fine_def idx'_def)
    qed
    have "state_of E ?pre idx' = (state_of E ?pre idx)(l_key r := rec_state E r)"
      using new ok by (cases "l_entry r") (auto simp: fun_eq_iff state_of_def idx'_def rec_state_def)
    then have st: "state_of E ?pre idx' = (state_of E pre idx)(l_key r := rec_state E r)"
      by (simp add: state_of_append [OF Cons.prems(2)])
    have "list_all (good_rec E req) rs" "FILE_HEADER_LEN \<le> length ?pre" using Cons.prems by simp_all
    from Cons.IH [OF this(1) fine this(2)] show ?case unfolding step st by (simp add: fun_upd_def)
  qed simp
  then show "index_fine E (pre @ log_bytes rs) (snd (replay (placed (length pre) rs) (idx, n)))
      (fst (replay (placed (length pre) rs) (idx, n)))"
    and "state_of E (pre @ log_bytes rs) (fst (replay (placed (length pre) rs) (idx, n))) =
      log_state E (state_of E pre idx) rs" by simp_all
qed

subsection \<open>Opening\<close>

lemma whole_units_take: "\<exists>i \<le> length us. whole_units n us = take i us"
proof (induction us arbitrary: n)
  case (Cons u us)
  show ?case
  proof (cases "length (log_bytes u) \<le> n")
    case True
    from Cons.IH [of "n - length (log_bytes u)"] obtain i where "i \<le> length us"
      "whole_units (n - length (log_bytes u)) us = take i us" by blast
    with True show ?thesis by (intro exI [of _ "Suc i"]) simp
  qed (auto intro: exI [of _ 0])
qed simp

lemma take_whole_units:
  "take (length (log_bytes (concat (whole_units n us)))) (take n (log_bytes (concat us))) = log_bytes (concat (whole_units n us))"
  by (induction us arbitrary: n) auto

lemma whole_units_all: "length (log_bytes (concat us)) \<le> n \<Longrightarrow> whole_units n us = us"
  by (induction us arbitrary: n) auto

lemma om_get_filter:
  "om_ok m \<Longrightarrow> om_get (filter P m) k = (case om_get m k of Some v \<Rightarrow> if P (k, v) then Some v else None | None \<Rightarrow> None)"
proof (induction m)
  case (Cons x m)
  obtain j w where x: "x = (j, w)" by (cases x)
  have m: "om_ok m" "om_get m j = None" using Cons.prems om_ok_distinct [OF Cons.prems] by (auto simp: x om_get_None_iff om_ok_def)
  with Cons.IH show ?case by (auto simp: x)
qed simp

lemma index_fine_filter: "index_fine E f n idx \<Longrightarrow> index_fine E f n (filter P idx)"
  by (auto simp: index_fine_def om_get_filter split: option.splits if_splits)

lemma state_of_filter:
  assumes "index_fine E f n idx"
  shows "state_of E f (filter (\<lambda>kv. \<not> is_expired (snd kv) now) idx) = at_time now (state_of E f idx)"
proof
  fix k
  have ok: "om_ok idx" using assms by (simp add: index_fine_def)
  show "state_of E f (filter (\<lambda>kv. \<not> is_expired (snd kv) now) idx) k = at_time now (state_of E f idx) k"
  proof (cases "om_get idx k")
    case (Some e)
    then show ?thesis
      by (cases "entry_value E f e") (simp_all add: state_of_def om_get_filter [OF ok] at_time_def is_expired_dead)
  qed (simp add: state_of_def om_get_filter [OF ok] at_time_def)
qed

lemma key_check_fine:
  assumes "index_fine E f n idx"
  shows "key_check E f idx = Inr ()"
proof (cases "find (\<lambda>kv. e_flags (snd kv) AND FLAG_ENCRYPTED \<noteq> 0) idx")
  case (Some ke)
  obtain k e where ke: "ke = (k, e)" by (cases ke)
  have "(k, e) \<in> set idx" using Some ke by (auto simp: find_Some_iff in_set_conv_nth)
  then have "entry_ok E f n k e" using assms by (auto simp: index_fine_def om_get_Some_iff)
  with Some ke show ?thesis
    by (auto simp: key_check_def entry_ok_def entry_value_def split: option.splits if_splits sum.splits)
qed (simp add: key_check_def)

lemma open_inner_ok:
  assumes "index_fine E f n idx" and "FILE_HEADER_LEN \<le> length f"
  shows "store_ok E (open_inner opts f file_id fmt idx n c)"
    and "stored E (open_inner opts f file_id fmt idx n c) = state_of E f idx"
    and "i_file (open_inner opts f file_id fmt idx n c) = f" and "i_file_id (open_inner opts f file_id fmt idx n c) = file_id"
    and "i_format (open_inner opts f file_id fmt idx n c) = fmt" and "i_sec (open_inner opts f file_id fmt idx n c) = []"
    and "\<not> i_closed (open_inner opts f file_id fmt idx n c)"
proof -
  let ?s = "open_inner opts f file_id fmt idx n c"
  show f: "i_file ?s = f" "i_file_id ?s = file_id" "i_format ?s = fmt" "i_sec ?s = []" "\<not> i_closed ?s"
    by (simp_all add: open_inner_def recount_def)
  have g: "i_index ?s = idx" "i_seq ?s = n" "i_file_len ?s = length f" "i_cache ?s = cache_new (o_cache_bytes opts)"
    by (simp_all add: open_inner_def recount_def)
  show "stored E ?s = state_of E f idx" by (simp add: stored_state_of f g)
  have "om_ok idx" and "list_all (\<lambda>(k, e). entry_ok E f n k e) idx"
    using assms(1) list_all_om [of idx "entry_ok E f n"] by (auto simp: index_fine_def)
  moreover have "books_ok ?s" unfolding open_inner_def
    by (rule books_ok_recount) (simp_all add: cache_ok_new \<open>om_ok idx\<close>)
  moreover have "vc.coherent (cache_truth E f idx) (cache_new (o_cache_bytes opts))"
    by (simp add: vc.coherent_def cache_ok_new cache_has_def) (simp add: cache_new_def)
  ultimately show "store_ok E ?s" using assms(2) by (simp add: store_ok_def f g)
qed

text \<open>
  Opening a file that begins with \<open>hdr @ b\<close>, where an index of that part is known (from the hint file,
  or because \<open>b\<close> is empty), followed by a log that may be cut: the units wholly there are replayed.
\<close>

lemma open_log:
  assumes d: "d_data d = pre @ take n (log_bytes (concat us))" and meta: "d_meta d = None"
    and hdr: "parse_file_header (take FILE_HEADER_LEN pre) = Inr (file_id, fmt)" and len: "FILE_HEADER_LEN \<le> length pre"
    and hint: "open_hint E opts file_id d = (idx, sq, length pre)" and fine: "index_fine E pre sq idx"
    and us: "list_all (list_all (good_rec E (o_require_encryption opts))) us" "list_all unit_ok us"
    and n: "n \<le> length (log_bytes (concat us))"
  shows "\<exists>s. engine_open E opts now rid d = Inr s \<and> store_ok E s \<and>
    stored E s = at_time now (log_state E (state_of E pre idx) (concat (whole_units n us))) \<and>
    i_file s = pre @ log_bytes (concat (whole_units n us)) \<and> i_file_id s = file_id \<and> i_format s = fmt \<and>
    i_sec s = [] \<and> \<not> i_closed s"
proof -
  let ?rs = "concat (whole_units n us)" and ?R = "replay (placed (length pre) (concat (whole_units n us))) (idx, sq)"
  have reads: "list_all (list_all (reads (ee_aead E) (ee_crc E) (ee_keys E) (o_require_encryption opts))) us"
    using us(1) by (auto simp: list_all_iff good_rec_def)
  obtain i where i: "whole_units n us = take i us" using whole_units_take by blast
  have good: "list_all (good_rec E (o_require_encryption opts)) ?rs"
    using us(1) unfolding i by (auto simp: list_all_iff dest!: in_set_takeD)
  note rp = replay_state [OF good fine len]
  have take_n: "take (length (log_bytes ?rs)) (take n (log_bytes (concat us))) = log_bytes ?rs"
    by (rule take_whole_units)
  have "open_file E opts rid d = Inr (pre @ log_bytes ?rs, file_id, fmt,
      \<lparr>so_index = fst ?R, so_seq = snd ?R, so_end = length pre + length (log_bytes ?rs), so_corrupted = 0\<rparr>)"
    using scan_log_prefix [OF reads us(2) n refl, of pre idx sq] hdr len hint d take_n
    by (auto simp: open_file_def len_defs)
  moreover have "key_check E (pre @ log_bytes ?rs) (filter (\<lambda>kv. \<not> is_expired (snd kv) now) (fst ?R)) = Inr ()"
    by (rule key_check_fine [OF index_fine_filter [OF rp(1)]])
  ultimately have o: "engine_open E opts now rid d = Inr (open_inner opts (pre @ log_bytes ?rs) file_id fmt
      (filter (\<lambda>kv. \<not> is_expired (snd kv) now) (fst ?R)) (snd ?R) 0)"
    by (simp add: engine_open_def meta Let_def)
  have "FILE_HEADER_LEN \<le> length (pre @ log_bytes ?rs)" using len by simp
  note oi = open_inner_ok [OF index_fine_filter [OF rp(1)] this, of opts file_id fmt "\<lambda>kv. \<not> is_expired (snd kv) now" 0]
  show ?thesis
    by (intro exI conjI, rule o) (use oi state_of_filter [OF rp(1), of now] rp(2) in simp_all)
qed

subsection \<open>The records the calls write\<close>

lemma scan_opened_open:
  assumes "ee_crc E (drop 4 rec) = h_crc (parse_header rec)" and "open_record (ee_aead E) (ee_keys E) rec = Inr kv"
    and "h_flags (parse_header rec) AND FLAG_ENCRYPTED \<noteq> 0 \<or> \<not> req"
  shows "scan_opened (ee_aead E) (ee_crc E) (ee_keys E) req rec = Inr (Some kv)"
  using assms by (cases kv) (auto simp: scan_opened_def Let_def open_record_def len_defs add.commute)

lemma put_record:
  assumes bp: "build_put E rng algo key v ex mp ts x = Inr (rec, ent, raw)"
    and env: "env_ok E" "nonce_ok rng" "value_ok (ee_values E) v" "x \<in> {0, FLAG_TXN}" "is_i64 ts" "is_i64 ex"
    and key: "valid_str key" and ms: "expiry_to_ms ex = ex" and req: "ee_keys E \<noteq> None \<or> \<not> req"
  obtains r where "l_bytes r = rec" "l_key r = key" "good_rec E req r" "rec_state E r = Some (v, ex)"
    "l_txn r \<longleftrightarrow> x \<noteq> 0" "\<not> l_commit r"
proof -
  obtain stored fl de where fl: "fl = snd (pack (ee_codec E) raw algo) OR x OR doc_enc_flags de"
    and ph: "parse_header rec = crypt_header (ee_keys E) (ee_crc E (drop 4 rec)) key stored (type_u8 (value_ty v)) fl ts ex"
    and op: "open_record (ee_aead E) (ee_keys E) rec = Inr (as_bytes key, stored)"
    and ent: "ent = \<lparr>e_offset = 0, e_k_size = word_of_nat (str_len key),
      e_v_size = word_of_nat (length stored + overhead (ee_keys E)), e_raw_size = word_of_nat (length raw),
      e_ty = value_ty v, e_flags = stored_flags (ee_keys E) fl, e_timestamp = ts, e_expires_at = ex, e_version = 0\<rparr>"
    by (rule build_put_facts [OF bp env]) metis
  note be = build_put_entry [OF bp env]
  note pf = put_flags [OF pack_flag_set env(4), of "ee_codec E" raw algo de, folded fl]
  have enc: "h_flags (parse_header rec) AND FLAG_ENCRYPTED \<noteq> 0 \<or> \<not> req"
    using req by (auto simp: ph stored_flags_encrypted)
  have so: "scan_opened (ee_aead E) (ee_crc E) (ee_keys E) req rec = Inr (Some (as_bytes key, stored))"
    by (rule scan_opened_open [OF _ op enc]) (simp add: ph)
  have tomb: "stored_flags (ee_keys E) fl AND FLAG_TOMBSTONE = 0" "stored_flags (ee_keys E) fl AND FLAG_TXN = x"
    "stored_flags (ee_keys E) fl AND FLAG_TXN_COMMIT = 0"
    using pf by (simp_all add: stored_flags_and flag_defs)
  define e where "e = scan_entry 0 (parse_header rec) (value_ty v) stored"
  define r where "r = \<lparr>l_bytes = rec, l_key = key, l_entry = Some e\<rparr>"
  have "scan_record (ee_aead E) (ee_crc E) (ee_keys E) req pos rec = Inr (Some (key, at_offset pos (Some e)))" for pos
    using so key tomb(1) by (simp add: scan_record_def Let_def ph at_offset_def e_def scan_entry_def)
  then have rd: "reads (ee_aead E) (ee_crc E) (ee_keys E) req r"
    using be(3) by (simp add: reads_def r_def)
  have ev: "entry_value E rec e = Some v"
  proof -
    have "entry_value E rec e = entry_value E rec (ent\<lparr>e_offset := 0\<rparr>)"
      by (rule entry_value_cong) (simp_all add: e_def scan_entry_def ent ph rec_len_def)
    then show ?thesis using be(1) [of "[]" "[]"] by simp
  qed
  have "rec_len e = length rec" using be(2) by (simp add: e_def scan_entry_def ent ph rec_len_def)
  moreover have "entry_shaped E rec key e"
  proof -
    have "e_offset e = e_offset (ent\<lparr>e_offset := 0\<rparr>)" "rec_len e = rec_len (ent\<lparr>e_offset := 0\<rparr>)" "e_k_size e = e_k_size ent"
      "e_timestamp e = e_timestamp ent" "e_expires_at e = e_expires_at ent"
      by (simp_all add: e_def scan_entry_def ent ph rec_len_def ms)
    then show ?thesis using be(8) [of "[]" "[]"] by (simp add: entry_shaped_def)
  qed
  ultimately have "good_rec E req r" using rd ev by (simp add: good_rec_def r_def) (simp add: e_def scan_entry_def)
  moreover have "rec_state E r = Some (v, ex)" using ev by (simp add: rec_state_def r_def e_def scan_entry_def ph ms)
  moreover have "l_txn r \<longleftrightarrow> x \<noteq> 0" "\<not> l_commit r" using tomb by (simp_all add: l_txn_def l_commit_def r_def ph)
  ultimately show thesis by (intro that [of r]) (simp_all add: r_def)
qed

lemma tombstone_record:
  assumes rec: "engine_encode E rng key [] 0 fl ts 0 = Inr rec"
    and env: "env_ok E" "nonce_ok rng" "validate_key key = Inr ()" "is_i64 ts"
    and fl: "fl AND FLAG_ENCRYPTED = 0" "fl AND FLAG_TOMBSTONE \<noteq> 0"
    and key: "valid_str key" and req: "ee_keys E \<noteq> None \<or> \<not> req"
  obtains r where "l_bytes r = rec" "l_key r = key" "good_rec E req r" "rec_state E r = None"
    "l_txn r \<longleftrightarrow> fl AND FLAG_TXN \<noteq> 0" "l_commit r \<longleftrightarrow> fl AND FLAG_TXN_COMMIT \<noteq> 0"
proof -
  obtain nonce where n: "rng = Inr nonce" "length nonce = NONCE_LEN" using nonce_okD [OF env(2)] by blast
  note k = validate_key_ok [OF env(3)]
  have A: "aead_ok (ee_aead E)" "can_open (ee_keys E) (ee_keys E)" using env(1) by (simp_all add: env_ok_def)
  have fits: "crypt_fits (ee_keys E) key [] ts 0"
    using k env(4) by (simp add: crypt_fits_def overhead_def crypt_lens is_i64_def split: option.splits)
  note rec' = rec [unfolded engine_encode_def n(1)]
  note cf = crypt_record_facts [OF rec' A(1) n(2) A(2) fits fl(1)]
  have fl': "stored_flags (ee_keys E) fl AND FLAG_TOMBSTONE = fl AND FLAG_TOMBSTONE"
    "stored_flags (ee_keys E) fl AND FLAG_TXN = fl AND FLAG_TXN"
    "stored_flags (ee_keys E) fl AND FLAG_TXN_COMMIT = fl AND FLAG_TXN_COMMIT"
    by (simp_all add: stored_flags_and flag_defs)
  have rd: "reads (ee_aead E) (ee_crc E) (ee_keys E) req (written rec key [])"
    by (rule reads_written [OF rec' A(1) n(2) A(2) fits fl(1) key _ _ req]) (use k fl(2) in simp_all)
  have none: "l_entry (written rec key []) = None" using fl(2) cf(1) fl'(1) by (simp add: written_def Let_def)
  show thesis
    by (rule that [of "written rec key []"])
      (use rd none cf(1) fl' in \<open>simp_all add: written_def good_rec_def rec_state_def l_txn_def l_commit_def\<close>)
qed

subsection \<open>How the file grows\<close>

definition headed :: "inner \<Rightarrow> bool" where
  "headed s \<longleftrightarrow> take FILE_HEADER_LEN (i_file s) = file_header (i_file_id s) (i_format s) \<and> 1 \<le> i_format s \<and> i_format s \<le> 3"

definition grows :: "inner \<Rightarrow> inner \<Rightarrow> bytes \<Rightarrow> bool" where
  "grows s s' x \<longleftrightarrow> i_file_id s' = i_file_id s \<and> (headed s \<longrightarrow> headed s') \<and>
     drop FILE_HEADER_LEN (i_file s') = drop FILE_HEADER_LEN (i_file s) @ x"

lemma grows_trans: "grows s t x \<Longrightarrow> grows t u y \<Longrightarrow> grows s u (x @ y)"
  by (simp add: grows_def)

lemma grows_same: "i_file t = i_file s \<Longrightarrow> i_file_id t = i_file_id s \<Longrightarrow> i_format t = i_format s \<Longrightarrow> grows s t []"
  by (simp add: grows_def headed_def)

lemma headed_parse: "headed s \<Longrightarrow> parse_file_header (take FILE_HEADER_LEN (i_file s)) = Inr (i_file_id s, i_format s)"
  by (simp add: headed_def parse_file_header_def file_header_def MAGIC_def len_defs FORMAT_V1_def FORMAT_VERSION_def Let_def)

lemma write_format_header:
  assumes "take FILE_HEADER_LEN f = file_header i fmt"
  shows "take FILE_HEADER_LEN (write_at 4 (le_bytes 4 need) f) = file_header i need"
    and "drop FILE_HEADER_LEN (write_at 4 (le_bytes 4 (need :: u32)) f) = drop FILE_HEADER_LEN f"
proof -
  have f: "f = file_header i fmt @ drop FILE_HEADER_LEN f" using assms append_take_drop_id [of FILE_HEADER_LEN f] by simp
  have "write_at 4 (le_bytes 4 need) f = file_header i need @ drop FILE_HEADER_LEN f"
    by (subst f) (simp add: write_at_def file_header_def MAGIC_def)
  then show "take FILE_HEADER_LEN (write_at 4 (le_bytes 4 need) f) = file_header i need"
    "drop FILE_HEADER_LEN (write_at 4 (le_bytes 4 need) f) = drop FILE_HEADER_LEN f"
    by (simp_all add: file_header_def MAGIC_def len_defs)
qed

lemma format_needed_known: "is_frame buf \<Longrightarrow> format_needed buf = Some need \<Longrightarrow> 1 \<le> need \<and> need \<le> 3"
  by (auto simp: format_needed_frame format_for_record_def FORMAT_V1_def max_def word_le_nat_alt split: if_splits)

lemma append_grows:
  assumes "headed s" and "i_file_len s = length (i_file s)" and "FILE_HEADER_LEN \<le> length (i_file s)"
    and known: "\<And>need. format_needed buf = Some need \<Longrightarrow> 1 \<le> need \<and> need \<le> 3"
    and "append_buf io buf sync s = (Inr off, t)"
  shows "grows s t buf"
proof -
  obtain need where need: "format_needed buf = Some need" and open_s: "\<not> i_closed s"
    using assms(5) by (auto simp: append_buf_def split: if_splits option.splits)
  define f where "f = (if need > i_format s then write_at 4 (le_bytes 4 need) (i_file s) else i_file s)"
  define fmt where "fmt = (if need > i_format s then need else i_format s)"
  have len: "length f = length (i_file s)" using assms(3) by (simp add: f_def write_at_def len_defs)
  have "i_file t = f @ buf \<and> i_file_id t = i_file_id s \<and> i_format t = fmt"
    using assms(2,5) need open_s len
    by (cases "need > i_format s"; cases io) (auto simp: append_buf_def f_def fmt_def Let_def write_at_def)
  moreover have "take FILE_HEADER_LEN f = file_header (i_file_id s) fmt" "drop FILE_HEADER_LEN f = drop FILE_HEADER_LEN (i_file s)"
    "1 \<le> fmt" "fmt \<le> 3"
    using assms(1) write_format_header [of "i_file s" "i_file_id s" "i_format s"] known [OF need]
    by (simp_all add: headed_def f_def fmt_def)
  ultimately show ?thesis using len assms(3) by (simp add: grows_def headed_def)
qed

lemma grows_live: "grows s (snd (live now key s)) []"
  by (rule live_cases [of s key now]) (simp_all add: grows_same)

lemma grows_value_of:
  assumes "store_ok E s" and "om_get (i_index s) key = Some e" and "entry_value E (i_file s) e = Some v"
  shows "grows s (snd (value_of E key e s)) []"
proof -
  obtain c where c: "cache_get key (e_version e) (i_cache s) = (fst (cache_get key (e_version e) (i_cache s)), c)"
    by (metis prod.collapse)
  have "read_value E e (s\<lparr>i_cache := c\<rparr>) = (Inr v, s\<lparr>i_cache := c\<rparr>)"
    by (rule read_value_entry) (simp add: assms(3))
  then show ?thesis
    by (cases "fst (cache_get key (e_version e) (i_cache s))") (use c in \<open>auto simp: value_of_def intro!: grows_same\<close>)
qed

lemma put_locked_grows:
  assumes "store_ok E s" and "headed s" and "put_ready E c v ex ts" and put: "put_locked E c key v ex mp ts s = (Inr b, s')"
  obtains rec ent raw where "build_put E (c_rng c 0) (i_compression s) key v ex mp ts 0 = Inr (rec, ent, raw)" "grows s s' rec"
proof -
  obtain rec ent raw where bp: "build_put E (c_rng c 0) (i_compression s) key v ex mp ts 0 = Inr (rec, ent, raw)"
    using put by (cases "build_put E (c_rng c 0) (i_compression s) key v ex mp ts 0") (auto simp: put_locked_def)
  obtain found s1 where l: "live (c_now c) key s = (found, s1)" by (cases "live (c_now c) key s")
  obtain off t where a: "append_buf (c_io c) rec False s1 = (Inr off, t)"
    using put bp l by (cases "append_buf (c_io c) rec False s1"; cases "fst (append_buf (c_io c) rec False s1)")
      (auto simp: put_locked_def)
  have s1: "store_ok E s1" "grows s s1 []"
    using store_ok_live(1) [OF assms(1), of "c_now c" key] grows_live [of s "c_now c" key] l by simp_all
  then have h1: "headed s1" using assms(2) by (simp add: grows_def)
  have "is_frame rec" using build_put_entry(3) [OF bp] assms(3) by (simp add: put_ready_def)
  from append_grows [OF h1 store_okD(2,3) [OF s1(1)] format_needed_known [OF this] a] have "grows s1 t rec" .
  moreover have "grows t s' []"
    using put_locked_eq [OF bp l a] put by (auto intro!: grows_same simp: emit_def)
  ultimately have "grows s s' rec" using grows_trans [OF s1(2) grows_trans] by fastforce
  with bp show thesis by (rule that)
qed

lemma delete_grows:
  assumes "store_ok E s" and "headed s" and "env_ok E" and "nonce_ok (c_rng c 0)" and "validate_key key = Inr ()"
    and "is_i64 (c_secs c)" and del: "engine_delete E c key s = (Inr b, s')"
  shows "if b then \<exists>rec. engine_encode E (c_rng c 0) key [] 0 FLAG_TOMBSTONE (c_secs c) 0 = Inr rec \<and> grows s s' rec
    else grows s s' []"
proof -
  obtain found s1 where l: "live (c_now c) key s = (found, s1)" by (cases "live (c_now c) key s")
  have s1: "store_ok E s1" "grows s s1 []"
    using store_ok_live(1) [OF assms(1), of "c_now c" key] grows_live [of s "c_now c" key] l by simp_all
  then have h1: "headed s1" using assms(2) by (simp add: grows_def)
  show ?thesis
  proof (cases found)
    case None
    with del l s1(2) show ?thesis by (auto simp: engine_delete_def)
  next
    case (Some e)
    obtain rec where rec: "engine_encode E (c_rng c 0) key [] 0 FLAG_TOMBSTONE (c_secs c) 0 = Inr rec"
      using encode_succeeds [OF assms(4)] by blast
    obtain off t where a: "append_buf (c_io c) rec False s1 = (Inr off, t)"
      using del l Some rec by (cases "append_buf (c_io c) rec False s1"; cases "fst (append_buf (c_io c) rec False s1)")
        (auto simp: engine_delete_def)
    have "is_frame rec"
      by (rule tombstone_frame [OF rec assms(3-6)]) (simp add: flag_defs)
    from append_grows [OF h1 store_okD(2,3) [OF s1(1)] format_needed_known [OF this] a] have "grows s1 t rec" .
    moreover have "b" "grows t s' []"
      using delete_eq [OF l [unfolded Some] rec a] del by (auto intro!: grows_same simp: emit_def journal_del_def)
    ultimately show ?thesis using rec grows_trans [OF s1(2) grows_trans] by fastforce
  qed
qed

end
