(* ===== verification/Batch.thy ===== *)
theory Batch
  imports Log
begin

text \<open>
  Batches, transactions and watched keys (\<^verbatim>\<open>apply_batch_watched\<close>, \<^verbatim>\<open>watch\<close>, \<^verbatim>\<open>txn_begin\<close>, \<^verbatim>\<open>txn_end\<close>,
  \<^verbatim>\<open>reset\<close> of \<^verbatim>\<open>src/engine.rs\<close>), for a workspace without schemas and vector indexes. The operations of
  a batch are staged, each with the record that will hold it; the records are appended in one write,
  the last one marked as the commit.
\<close>

datatype batch_op = BPut rstring kvalue int bool | BDel rstring

fun op_key :: "batch_op \<Rightarrow> rstring" where
  "op_key (BPut key v ex mp) = key"
| "op_key (BDel key) = key"

record watched_key =
  w_key :: rstring
  w_since :: nat
  w_existed :: bool

datatype staged =
    SPut rstring entry bytes "kvalue option" vtype bool nat \<comment> \<open>key, entry, raw, doc, ty, created, rec_off\<close>
  | SDel rstring

subsection \<open>Conflicts\<close>

definition key_version :: "inner \<Rightarrow> rstring \<Rightarrow> nat" where
  "key_version s key = (case om_get (i_index s) key of
     Some e \<Rightarrow> e_version e
   | None \<Rightarrow> (case om_get (i_tomb_versions s) key of Some n \<Rightarrow> n | None \<Rightarrow> 0))"

definition txn_begin :: "inner \<Rightarrow> nat \<times> inner" where
  "txn_begin s = (i_seq s, s\<lparr>i_active_txns := i_active_txns s + 1\<rparr>)"

definition txn_end :: "inner \<Rightarrow> inner" where
  "txn_end s =
     (let s = s\<lparr>i_active_txns := i_active_txns s - 1\<rparr>
      in if i_active_txns s = 0 then s\<lparr>i_tomb_versions := []\<rparr> else s)"

fun watch_keys :: "int \<Rightarrow> nat \<Rightarrow> rstring list \<Rightarrow> inner \<Rightarrow> watched_key list \<times> inner" where
  "watch_keys now since [] s = ([], s)"
| "watch_keys now since (k # ks) s =
     (let (e, s) = live now k s; (ws, s) = watch_keys now since ks s
      in (\<lparr>w_key = k, w_since = since, w_existed = (e \<noteq> None)\<rparr> # ws, s))"

definition watch :: "call \<Rightarrow> rstring list \<Rightarrow> inner \<Rightarrow> watched_key list \<times> inner" where
  "watch c keys s =
     (let s = s\<lparr>i_active_txns := i_active_txns s + 1\<rparr> in watch_keys (c_now c) (i_seq s) keys s)"

definition unwatch :: "inner \<Rightarrow> inner" where
  "unwatch s = txn_end s"

fun changed :: "int \<Rightarrow> watched_key list \<Rightarrow> inner \<Rightarrow> rstring option \<times> inner" where
  "changed now [] s = (None, s)"
| "changed now (w # ws) s =
     (if key_version s (w_key w) > w_since w \<or> i_reset_seq s > w_since w then (Some (w_key w), s)
      else if w_existed w then
        (let (e, s) = live now (w_key w) s in if e = None then (Some (w_key w), s) else changed now ws s)
      else changed now ws s)"

definition watch_conflict :: "call \<Rightarrow> watched_key list \<Rightarrow> inner \<Rightarrow> rstring option \<times> inner" where
  "watch_conflict c ws s = changed (c_now c) ws s"

definition begin_conflict :: "nat option \<Rightarrow> batch_op list \<Rightarrow> inner \<Rightarrow> kiva_error + unit" where
  "begin_conflict begin_seq ops s = (case begin_seq of
     None \<Rightarrow> Inr ()
   | Some start \<Rightarrow>
       if i_reset_seq s > start then Inl (Conflict ''the database was reset during the transaction'')
       else (case find (\<lambda>o_p. key_version s (op_key o_p) > start) ops of
           Some _ \<Rightarrow> Inl (Conflict ''key was modified by another session'')
         | None \<Rightarrow> Inr ()))"

subsection \<open>Staging\<close>

text \<open>What each key holds once the whole batch is applied: the last document, at its first place.\<close>

fun note_write :: "rstring \<Rightarrow> doc_view option \<Rightarrow> (rstring \<times> doc_view option) list \<Rightarrow> (rstring \<times> doc_view option) list" where
  "note_write key d [] = [(key, d)]"
| "note_write key d ((k, x) # ws) = (if k = key then (k, d) # ws else (k, x) # note_write key d ws)"

definition batch_writes :: "batch_op list \<Rightarrow> (rstring \<times> doc_view option) list" where
  "batch_writes ops = fold (\<lambda>o_p ws. case o_p of
     BPut key v _ _ \<Rightarrow> note_write key (doc_view_of v) ws
   | BDel key \<Rightarrow> note_write key None ws) ops []"

definition shadow_exists :: "int \<Rightarrow> (rstring, bool) omap \<Rightarrow> rstring \<Rightarrow> inner \<Rightarrow> bool \<times> inner" where
  "shadow_exists now shadow key s = (case om_get shadow key of
     Some b \<Rightarrow> (b, s)
   | None \<Rightarrow> (let (e, s) = live now key s in (e \<noteq> None, s)))"

fun stage :: "engine_env \<Rightarrow> call \<Rightarrow> int \<Rightarrow> nat \<Rightarrow> batch_op list \<Rightarrow> (rstring, bool) omap \<Rightarrow> inner \<Rightarrow>
    (kiva_error + (staged \<times> bytes) list) \<times> inner" where
  "stage E c ts i [] shadow s = (Inr [], s)"
| "stage E c ts i (BPut key v ex mp # ops) shadow s =
     (case build_put E (c_rng c i) (i_compression s) key v ex mp ts FLAG_TXN of
        Inl err \<Rightarrow> (Inl err, s)
      | Inr (rec, ent, raw) \<Rightarrow>
          (let (exists, s) = shadow_exists (c_now c) shadow key s;
               doc = (if is_doc (value_ty v) then Some v else None)
           in case stage E c ts (i + 1) ops (om_insert key True shadow) s of
             (Inl err, s) \<Rightarrow> (Inl err, s)
           | (Inr l, s) \<Rightarrow> (Inr ((SPut key ent raw doc (e_ty ent) (\<not> exists) 0, rec) # l), s)))"
| "stage E c ts i (BDel key # ops) shadow s =
     (let (exists, s) = shadow_exists (c_now c) shadow key s in
      if \<not> exists then stage E c ts i ops shadow s
      else case engine_encode E (c_rng c i) key [] 0 (FLAG_TOMBSTONE OR FLAG_TXN) (c_now c) 0 of
          Inl err \<Rightarrow> (Inl err, s)
        | Inr rec \<Rightarrow>
            (case stage E c ts (i + 1) ops (om_insert key False shadow) s of
               (Inl err, s) \<Rightarrow> (Inl err, s)
             | (Inr l, s) \<Rightarrow> (Inr ((SDel key, rec) # l), s)))"

text \<open>The commit mark: byte 11 holds the flags, and the checksum is stamped again.\<close>

definition mark_commit :: "(bytes \<Rightarrow> u32) \<Rightarrow> bytes \<Rightarrow> bytes" where
  "mark_commit crc rec =
     (let r = rec[11 := (rec ! 11) OR FLAG_TXN_COMMIT] in le_bytes 4 (crc (drop 4 r)) @ drop 4 r)"

definition mark_entry :: "staged \<Rightarrow> staged" where
  "mark_entry st = (case st of
     SPut key ent raw doc ty created off \<Rightarrow>
       SPut key (ent\<lparr>e_flags := e_flags ent OR FLAG_TXN_COMMIT\<rparr>) raw doc ty created off
   | SDel key \<Rightarrow> SDel key)"

definition mark_last :: "(bytes \<Rightarrow> u32) \<Rightarrow> (staged \<times> bytes) list \<Rightarrow> (staged \<times> bytes) list" where
  "mark_last crc l = butlast l @ [(mark_entry (fst (last l)), mark_commit crc (snd (last l)))]"

definition set_off :: "nat \<Rightarrow> staged \<Rightarrow> staged" where
  "set_off off st = (case st of
     SPut key ent raw doc ty created _ \<Rightarrow> SPut key ent raw doc ty created off | SDel key \<Rightarrow> SDel key)"

fun set_offs :: "nat \<Rightarrow> (staged \<times> bytes) list \<Rightarrow> (staged \<times> bytes) list" where
  "set_offs off [] = []"
| "set_offs off ((st, rec) # l) = (set_off off st, rec) # set_offs (off + length rec) l"

subsection \<open>Applying\<close>

definition staged_change :: "int \<Rightarrow> nat \<Rightarrow> staged \<Rightarrow> new_change" where
  "staged_change ts data_end st = (case st of
     SPut key ent raw doc ty created off \<Rightarrow>
       \<lparr>nc_kind = CSet, nc_key = key, nc_ty = type_u8 ty, nc_raw = raw, nc_enc = e_doc_enc ent,
        nc_timestamp = e_timestamp ent, nc_expires_at = e_expires_at ent, nc_created = Some created, nc_data_end = data_end\<rparr>
   | SDel key \<Rightarrow>
       \<lparr>nc_kind = CDel, nc_key = key, nc_ty = 0, nc_raw = [], nc_enc = EJson, nc_timestamp = ts, nc_expires_at = 0,
        nc_created = None, nc_data_end = data_end\<rparr>)"

fun staged_changes :: "int \<Rightarrow> nat \<Rightarrow> (staged \<times> bytes) list \<Rightarrow> new_change list" where
  "staged_changes ts pos [] = []"
| "staged_changes ts pos ((st, rec) # l) = staged_change ts (pos + length rec) st # staged_changes ts (pos + length rec) l"

definition apply_staged :: "engine_env \<Rightarrow> nat \<Rightarrow> staged \<Rightarrow> inner \<Rightarrow> inner" where
  "apply_staged E base st s =
     (let s = s\<lparr>i_seq := i_seq s + 1\<rparr>; seq = i_seq s;
          s = (case st of
            SPut key ent raw doc ty created rec_off \<Rightarrow>
              (let ent = ent\<lparr>e_offset := base + rec_off, e_version := seq\<rparr>;
                   s = idx_insert E key ent (Option.bind doc doc_view_of) s;
                   s = (if is_pinned (i_cache s) key then
                      (case value_decode (ee_values E) ty raw (e_doc_enc ent) of
                         Inr v \<Rightarrow> s\<lparr>i_cache := cache_put key seq v (length raw) (i_cache s)\<rparr>
                       | Inl _ \<Rightarrow> s) else s)
               in emit (OpSet key ty raw (e_doc_enc ent) (e_timestamp ent) (e_expires_at ent) created) s)
          | SDel key \<Rightarrow>
              (let s = snd (idx_remove key s);
                   s = (if i_active_txns s > 0 then s\<lparr>i_tomb_versions := om_insert key seq (i_tomb_versions s)\<rparr> else s)
               in emit (OpDel key) s))
      in s\<lparr>i_dirty_ops := i_dirty_ops s + 1\<rparr>)"

definition batch_commit :: "engine_env \<Rightarrow> call \<Rightarrow> (staged \<times> bytes) list \<Rightarrow> inner \<Rightarrow> (kiva_error + unit) \<times> inner" where
  "batch_commit E c l s =
     (let l = set_offs 0 (mark_last (ee_crc E) l) in
      case append_buf (c_io c) (concat (map snd l)) False s of
        (Inl err, s) \<Rightarrow> (Inl err, s)
      | (Inr base, s) \<Rightarrow>
          (let s = journal_list E c (staged_changes (c_secs c) base l) True s
           in (Inr (), fold (apply_staged E base) (map fst l) s)))"

definition apply_batch_watched :: "engine_env \<Rightarrow> call \<Rightarrow> batch_op list \<Rightarrow> nat option \<Rightarrow> watched_key list option \<Rightarrow> inner \<Rightarrow>
    (kiva_error + unit) \<times> inner" where
  "apply_batch_watched E c ops begin_seq watched s =
     (case (case watched of None \<Rightarrow> (None, s) | Some ws \<Rightarrow> changed (c_now c) ws s) of
        (Some _, s) \<Rightarrow> (Inl (Conflict ''the watched key changed''), s)
      | (None, s) \<Rightarrow>
          (case begin_conflict begin_seq ops s of
             Inl err \<Rightarrow> (Inl err, s)
           | Inr _ \<Rightarrow>
               (case (if list_ex si_unique (i_sec s) then check_unique E (c_now c) (i_index s) (i_sec s) (batch_writes ops) else Inr ()) of
                  Inl err \<Rightarrow> (Inl err, s)
                | Inr _ \<Rightarrow>
                    (case stage E c (c_secs c) 0 ops [] s of
                       (Inl err, s) \<Rightarrow> (Inl err, s)
                     | (Inr l, s) \<Rightarrow> if l = [] then (Inr (), s) else batch_commit E c l s))))"

definition apply_batch :: "engine_env \<Rightarrow> call \<Rightarrow> batch_op list \<Rightarrow> nat option \<Rightarrow> inner \<Rightarrow> (kiva_error + unit) \<times> inner" where
  "apply_batch E c ops begin_seq s = apply_batch_watched E c ops begin_seq None s"

subsection \<open>Reset\<close>

text \<open>\<^verbatim>\<open>reset\<close>: \<open>rid\<close> is the identity drawn for the new file; writing the new header is assumed to succeed.\<close>

definition engine_reset :: "engine_env \<Rightarrow> call \<Rightarrow> bool \<Rightarrow> kiva_error + u64 \<Rightarrow> inner \<Rightarrow> (kiva_error + unit) \<times> inner" where
  "engine_reset E c compacting rid s =
     (if compacting then (Inl (Other ''a compaction or a backup is running: try again when it ends''), s)
      else if i_closed s then (Inl (Other ''database is closed''), s)
      else case rid of
        Inl err \<Rightarrow> (Inl err, s)
      | Inr file_id \<Rightarrow>
          (let s = s\<lparr>i_file := file_header file_id FORMAT_V1, i_file_id := file_id, i_format := FORMAT_V1\<rparr>;
               s = journal_list E c [\<lparr>nc_kind = CReset, nc_key = [], nc_ty = 0, nc_raw = [], nc_enc = EJson,
                 nc_timestamp = c_secs c, nc_expires_at = 0, nc_created = None, nc_data_end = FILE_HEADER_LEN\<rparr>] False s;
               s = s\<lparr>i_changes := map_option journal_sync (i_changes s)\<rparr>;
               s = s\<lparr>i_file_len := FILE_HEADER_LEN, i_index := [], i_sec := map sec_clear (i_sec s), i_cache := cache_clear (i_cache s)\<rparr>;
               s = recount s;
               s = s\<lparr>i_seq := i_seq s + 1\<rparr>;
               s = s\<lparr>i_reset_seq := i_seq s, i_tomb_versions := [], i_dirty_ops := 0\<rparr>
           in (Inr (), emit OpReset s)))"

subsection \<open>The commit mark\<close>

lemma mark_commit_length [simp]: "4 \<le> length rec \<Longrightarrow> length (mark_commit crc rec) = length rec"
  by (simp add: mark_commit_def Let_def)

lemma parse_header_mark:
  assumes "REC_HEADER_LEN \<le> length rec"
  shows "parse_header (mark_commit crc rec) = (parse_header rec)\<lparr>h_crc := crc (drop 4 (mark_commit crc rec)),
    h_flags := h_flags (parse_header rec) OR FLAG_TXN_COMMIT\<rparr>"
  using assms by (simp add: parse_header_def mark_commit_def len_defs nth_append take_drop drop_update_swap take_update_swap
      list_update_beyond)

lemma open_record_mark:
  assumes "REC_HEADER_LEN \<le> length rec" and "h_flags (parse_header rec) AND FLAG_ENCRYPTED = 0"
  shows "open_record A ks (mark_commit crc rec) = open_record A ks rec"
proof -
  have "(h_flags (parse_header rec) OR FLAG_TXN_COMMIT) AND FLAG_ENCRYPTED = 0"
    using assms(2) by (simp add: bit.conj_disj_distrib2 flag_defs)
  moreover have "drop n (mark_commit crc rec) = drop n rec" if "12 \<le> n" for n
    using assms(1) that by (simp add: mark_commit_def len_defs drop_update_cancel Let_def)
  ultimately show ?thesis using assms by (simp add: open_record_def parse_header_mark Let_def len_defs)
qed

lemma or_commit_and: "FLAG_TXN_COMMIT AND m = 0 \<Longrightarrow> (f OR FLAG_TXN_COMMIT) AND m = f AND (m :: u8)"
  by (simp add: bit.conj_disj_distrib2)

lemma commit_apart:
  "FLAG_TXN_COMMIT AND FLAG_ENCRYPTED = 0" "FLAG_TXN_COMMIT AND FLAG_TOMBSTONE = 0" "FLAG_TXN_COMMIT AND FLAG_TXN = 0"
  "FLAG_TXN_COMMIT AND FLAG_COMP_MASK = 0" "FLAG_TXN_COMMIT AND FLAG_KDOC = 0" "FLAG_TXN_COMMIT AND FLAG_MSGPACK = 0"
  "FLAG_TXN_COMMIT \<noteq> 0"
  by (simp_all add: flag_defs bit.conj_disj_distrib2)

lemmas commit_flags = commit_apart(1-6) [THEN or_commit_and] commit_apart(7)

lemma entry_value_mark:
  assumes len: "REC_HEADER_LEN \<le> length rec" and plain: "h_flags (parse_header rec) AND FLAG_ENCRYPTED = 0"
    and e: "rec_len e = length rec" and v: "entry_value E (pre @ rec @ post) (e\<lparr>e_offset := length pre\<rparr>) = Some v"
  shows "entry_value E (pre @ mark_commit (ee_crc E) rec @ post)
    (e\<lparr>e_offset := length pre, e_flags := e_flags e OR FLAG_TXN_COMMIT\<rparr>) = Some v"
proof -
  let ?m = "mark_commit (ee_crc E) rec" and ?e = "e\<lparr>e_offset := length pre, e_flags := e_flags e OR FLAG_TXN_COMMIT\<rparr>"
  have l4: "4 \<le> length rec" using len by (simp add: len_defs)
  have "read_at (pre @ rec @ post) (length pre) (rec_len e) = Some rec" by (rule read_at_middle [OF e])
  moreover have "read_at (pre @ ?m @ post) (length pre) (rec_len e) = Some ?m"
    by (rule read_at_middle) (use e l4 in simp)
  moreover have "rec_len ?e = rec_len e" by (simp add: rec_len_def)
  moreover have "e_compression ?e = e_compression (e\<lparr>e_offset := length pre\<rparr>)" "e_doc_enc ?e = e_doc_enc (e\<lparr>e_offset := length pre\<rparr>)"
    by (simp_all add: e_compression_def e_doc_enc_def doc_enc_from_flags_def commit_flags)
  moreover have "verify_record (ee_crc E) ?m" if "verify_record (ee_crc E) rec"
    using that len l4 by (simp add: verify_record_def parse_header_mark total_len_def Let_def)
  ultimately show ?thesis
    using v open_record_mark [OF len plain, of "ee_aead E" "ee_keys E" "ee_crc E"]
    by (auto simp: entry_value_def split: if_splits sum.splits)
qed

lemma entry_shaped_mark:
  assumes len: "REC_HEADER_LEN \<le> length rec" and plain: "h_flags (parse_header rec) AND FLAG_ENCRYPTED = 0"
    and e: "rec_len e = length rec" and sh: "entry_shaped E (pre @ rec @ post) key (e\<lparr>e_offset := length pre\<rparr>)"
  shows "entry_shaped E (pre @ mark_commit (ee_crc E) rec @ post) key
    (e\<lparr>e_offset := length pre, e_flags := e_flags e OR FLAG_TXN_COMMIT\<rparr>)"
proof -
  let ?m = "mark_commit (ee_crc E) rec"
  have "read_at (pre @ rec @ post) (length pre) (rec_len e) = Some rec" by (rule read_at_middle [OF e])
  moreover have "read_at (pre @ ?m @ post) (length pre) (rec_len e) = Some ?m"
    by (rule read_at_middle) (use e len in \<open>simp add: len_defs\<close>)
  moreover have "rec_len (e\<lparr>e_offset := n, e_flags := x\<rparr>) = rec_len e" for n x by (simp add: rec_len_def)
  ultimately show ?thesis
    using sh open_record_mark [OF len plain, of "ee_aead E" "ee_keys E" "ee_crc E"] by (simp add: entry_shaped_def)
qed

definition mark_rec :: "(bytes \<Rightarrow> u32) \<Rightarrow> log_rec \<Rightarrow> log_rec" where
  "mark_rec crc r = \<lparr>l_bytes = mark_commit crc (l_bytes r), l_key = l_key r,
     l_entry = map_option (\<lambda>e. e\<lparr>e_flags := e_flags e OR FLAG_TXN_COMMIT\<rparr>) (l_entry r)\<rparr>"

lemma is_frame_mark:
  assumes "is_frame rec"
  shows "is_frame (mark_commit crc rec)"
  using assms parse_header_mark [OF is_frameD(1) [OF assms], of crc] by (simp add: is_frame_def total_len_def len_defs)

lemma scan_record_mark:
  assumes f: "is_frame rec" and plain: "h_flags (parse_header rec) AND FLAG_ENCRYPTED = 0"
    and sr: "scan_record A crc ks req pos rec = Inr (Some (key, eo))"
  shows "scan_record A crc ks req pos (mark_commit crc rec) =
    Inr (Some (key, map_option (\<lambda>e. e\<lparr>e_flags := e_flags e OR FLAG_TXN_COMMIT\<rparr>) eo))"
proof -
  note len = is_frameD(1) [OF f]
  note ph = parse_header_mark [OF len, of crc]
  have d: "drop REC_HEADER_LEN (mark_commit crc rec) = drop REC_HEADER_LEN rec"
    using len by (simp add: mark_commit_def len_defs drop_update_cancel Let_def)
  obtain k stored where so: "scan_opened A crc ks req rec = Inr (Some (k, stored))"
    using sr by (auto simp: scan_record_def Let_def split: sum.splits option.splits)
  then have so': "scan_opened A crc ks req (mark_commit crc rec) = Inr (Some (k, stored))"
    using plain by (auto simp: scan_opened_def Let_def ph d commit_flags split: if_splits)
  from sr so have "from_utf8 k = Some key"
    by (auto simp: scan_record_def Let_def split: option.splits if_splits)
  with sr so so' show ?thesis
    by (auto simp: scan_record_def Let_def ph commit_flags scan_entry_def scan_raw_size_def split: option.splits if_splits)
qed

lemma good_rec_mark:
  assumes g: "good_rec E req r" and plain: "h_flags (parse_header (l_bytes r)) AND FLAG_ENCRYPTED = 0"
  shows "good_rec E req (mark_rec (ee_crc E) r)" and "rec_state E (mark_rec (ee_crc E) r) = rec_state E r"
    and "l_txn (mark_rec (ee_crc E) r) = l_txn r" and "l_commit (mark_rec (ee_crc E) r)"
proof -
  have f: "is_frame (l_bytes r)" using g by (simp add: good_rec_def reads_def)
  note len = is_frameD(1) [OF f]
  have l4: "4 \<le> length (l_bytes r)" using len by (simp add: len_defs)
  show "l_txn (mark_rec (ee_crc E) r) = l_txn r" "l_commit (mark_rec (ee_crc E) r)"
    using parse_header_mark [OF len, of "ee_crc E"] by (simp_all add: l_txn_def l_commit_def mark_rec_def commit_flags)
  have ev: "entry_value E (mark_commit (ee_crc E) (l_bytes r)) (e\<lparr>e_flags := e_flags e OR FLAG_TXN_COMMIT\<rparr>) = entry_value E (l_bytes r) e"
    if ent: "l_entry r = Some e" for e
  proof -
    obtain v where v: "entry_value E (l_bytes r) e = Some v" "e_offset e = 0" "rec_len e = length (l_bytes r)"
      using g ent by (auto simp: good_rec_def)
    then have "e\<lparr>e_offset := 0\<rparr> = e" "e\<lparr>e_offset := 0, e_flags := x\<rparr> = e\<lparr>e_flags := x\<rparr>" for x by (cases e; simp)+
    with entry_value_mark [OF len plain v(3), of E "[]" "[]" v] v(1) show ?thesis by simp
  qed
  have "scan_record (ee_aead E) (ee_crc E) (ee_keys E) req pos (l_bytes (mark_rec (ee_crc E) r)) =
      Inr (Some (l_key (mark_rec (ee_crc E) r), at_offset pos (l_entry (mark_rec (ee_crc E) r))))" for pos
    using g scan_record_mark [OF f plain, of "ee_aead E" "ee_crc E" "ee_keys E" req pos]
    by (cases "l_entry r") (simp_all add: good_rec_def reads_def mark_rec_def at_offset_def)
  then have rd: "reads (ee_aead E) (ee_crc E) (ee_keys E) req (mark_rec (ee_crc E) r)"
    using is_frame_mark [OF f, of "ee_crc E"] by (simp add: reads_def mark_rec_def)
  have shp: "entry_shaped E (mark_commit (ee_crc E) (l_bytes r)) (l_key r) (e\<lparr>e_flags := e_flags e OR FLAG_TXN_COMMIT\<rparr>)"
    if ent: "l_entry r = Some e" for e
  proof -
    have v: "entry_shaped E (l_bytes r) (l_key r) e" "e_offset e = 0" "rec_len e = length (l_bytes r)"
      using g ent by (auto simp: good_rec_def)
    then have "e\<lparr>e_offset := 0\<rparr> = e" "e\<lparr>e_offset := 0, e_flags := x\<rparr> = e\<lparr>e_flags := x\<rparr>" for x by (cases e; simp)+
    with entry_shaped_mark [OF len plain v(3), of E "[]" "[]" "l_key r"] v(1) show ?thesis by simp
  qed
  show "good_rec E req (mark_rec (ee_crc E) r)"
    using g rd ev shp l4 by (cases "l_entry r") (auto simp: good_rec_def mark_rec_def rec_len_def)
  show "rec_state E (mark_rec (ee_crc E) r) = rec_state E r"
    using ev by (cases "l_entry r") (simp_all add: rec_state_def mark_rec_def)
qed

subsection \<open>What staging prepares\<close>

definition new_value_ok :: "engine_env \<Rightarrow> kvalue \<Rightarrow> bool" where
  "new_value_ok E v \<longleftrightarrow> value_ok (ee_values E) v \<and> value_fits E True v \<and> value_fits E False v"

definition batch_op_ok :: "engine_env \<Rightarrow> batch_op \<Rightarrow> bool" where
  "batch_op_ok E o_p \<longleftrightarrow> (case o_p of
     BPut k v ex mp \<Rightarrow> validate_key k = Inr () \<and> new_value_ok E v \<and> is_i64 ex
   | BDel k \<Rightarrow> validate_key k = Inr ())"

definition batch_map :: "batch_op list \<Rightarrow> kv_state \<Rightarrow> kv_state" where
  "batch_map ops m = fold (\<lambda>o_p m. case o_p of BPut k v ex mp \<Rightarrow> m(k \<mapsto> (v, ex)) | BDel k \<Rightarrow> m(k := None)) ops m"

definition apply_ups :: "(rstring \<times> (kvalue \<times> int) option) list \<Rightarrow> kv_state \<Rightarrow> kv_state" where
  "apply_ups ups m = fold (\<lambda>u m. m(fst u := snd u)) ups m"

lemma batch_map_simps [simp]:
  "batch_map [] m = m" "batch_map (BPut k v ex mp # ops) m = batch_map ops (m(k \<mapsto> (v, ex)))"
  "batch_map (BDel k # ops) m = batch_map ops (m(k := None))"
  by (simp_all add: batch_map_def)

lemma apply_ups_simps [simp]: "apply_ups [] m = m" "apply_ups (u # ups) m = apply_ups ups (m(fst u := snd u))"
  by (simp_all add: apply_ups_def)

lemma at_time_upd: "at_time t m = at_time t m' \<Longrightarrow> at_time t (m(k := x)) = at_time t (m'(k := x))"
  by (simp add: at_time_def fun_eq_iff split: option.splits)

lemma at_time_ups: "at_time t m = at_time t m' \<Longrightarrow> at_time t (apply_ups ups m) = at_time t (apply_ups ups m')"
proof (induction ups arbitrary: m m')
  case (Cons u ups)
  show ?case unfolding apply_ups_simps by (rule Cons.IH [OF at_time_upd [OF Cons.prems]])
qed simp

fun item_ok :: "engine_env \<Rightarrow> staged \<Rightarrow> bytes \<Rightarrow> rstring \<times> (kvalue \<times> int) option \<Rightarrow> bool" where
  "item_ok E (SDel key) rec u \<longleftrightarrow> u = (key, None)"
| "item_ok E (SPut key ent raw doc ty created off) rec u \<longleftrightarrow> (\<exists>v. u = (key, Some (v, e_expires_at ent)) \<and>
     rec_len ent = length rec \<and> doc = (if is_doc (value_ty v) then Some v else None) \<and> ty = value_ty v \<and>
     value_decode (ee_values E) ty raw (e_doc_enc ent) = Inr v \<and>
     (\<forall>pre post. entry_value E (pre @ rec @ post) (ent\<lparr>e_offset := length pre\<rparr>) = Some v \<and>
        entry_shaped E (pre @ rec @ post) key (ent\<lparr>e_offset := length pre\<rparr>)))"

definition staged_ok :: "engine_env \<Rightarrow> staged \<times> bytes \<Rightarrow> rstring \<times> (kvalue \<times> int) option \<Rightarrow> bool" where
  "staged_ok E x u \<longleftrightarrow> is_frame (snd x) \<and> h_flags (parse_header (snd x)) AND FLAG_ENCRYPTED = 0 \<and> item_ok E (fst x) (snd x) u"

lemma staged_ok_mark:
  assumes "staged_ok E x u"
  shows "staged_ok E (mark_entry (fst x), mark_commit (ee_crc E) (snd x)) u"
proof -
  obtain st rec where x: "x = (st, rec)" by (cases x)
  have f: "is_frame rec" and plain: "h_flags (parse_header rec) AND FLAG_ENCRYPTED = 0" and it: "item_ok E st rec u"
    using assms by (simp_all add: staged_ok_def x)
  note len = is_frameD(1) [OF f]
  have l4: "4 \<le> length rec" using len by (simp add: len_defs)
  have "item_ok E (mark_entry st) (mark_commit (ee_crc E) rec) u"
  proof (cases st)
    case (SPut key ent raw doc ty created off)
    with it obtain v where v: "u = (key, Some (v, e_expires_at ent))" "rec_len ent = length rec"
      "doc = (if is_doc (value_ty v) then Some v else None)" "ty = value_ty v"
      "value_decode (ee_values E) ty raw (e_doc_enc ent) = Inr v"
      and ev: "\<And>pre post. entry_value E (pre @ rec @ post) (ent\<lparr>e_offset := length pre\<rparr>) = Some v"
      and sh: "\<And>pre post. entry_shaped E (pre @ rec @ post) key (ent\<lparr>e_offset := length pre\<rparr>)" by auto
    let ?ent = "ent\<lparr>e_flags := e_flags ent OR FLAG_TXN_COMMIT\<rparr>"
    have "?ent\<lparr>e_offset := n\<rparr> = ent\<lparr>e_offset := n, e_flags := e_flags ent OR FLAG_TXN_COMMIT\<rparr>" for n
      by (cases ent) simp
    then have "entry_value E (pre @ mark_commit (ee_crc E) rec @ post) (?ent\<lparr>e_offset := length pre\<rparr>) = Some v"
      "entry_shaped E (pre @ mark_commit (ee_crc E) rec @ post) key (?ent\<lparr>e_offset := length pre\<rparr>)" for pre post
      by (simp_all only: entry_value_mark [OF len plain v(2) ev] entry_shaped_mark [OF len plain v(2) sh])
    moreover have "e_doc_enc ?ent = e_doc_enc ent" "rec_len ?ent = rec_len ent"
      by (simp_all add: e_doc_enc_def doc_enc_from_flags_def commit_flags rec_len_def)
    ultimately show ?thesis using v l4 SPut by (simp add: mark_entry_def)
  qed (use it in \<open>simp add: mark_entry_def\<close>)
  moreover have "h_flags (parse_header (mark_commit (ee_crc E) rec)) AND FLAG_ENCRYPTED = 0"
    using plain by (simp add: parse_header_mark [OF len] commit_flags)
  ultimately show ?thesis using is_frame_mark [OF f, of "ee_crc E"] by (simp add: staged_ok_def x)
qed

definition calm :: "inner \<Rightarrow> inner \<Rightarrow> bool" where
  "calm s s' \<longleftrightarrow> i_closed s' = i_closed s \<and> map si_unique (i_sec s') = map si_unique (i_sec s) \<and> grows s s' [] \<and>
     i_compression s' = i_compression s"

lemma calm_refl [simp]: "calm s s" by (simp add: calm_def grows_same)

lemma calm_trans: "calm s t \<Longrightarrow> calm t u \<Longrightarrow> calm s u"
  using grows_trans [of s t "[]" u "[]"] by (simp add: calm_def)

lemma calm_live: "calm s (snd (live now key s))"
proof -
  have "i_compression (snd (live now key s)) = i_compression s"
    "map si_unique (i_sec (snd (live now key s))) = map si_unique (i_sec s)"
    by (rule live_cases [of s key now]; auto simp: idx_remove_fields comp_def)+
  with grows_live [of s now key] show ?thesis by (simp add: calm_def)
qed

lemma shadow_exists_ok:
  assumes "store_ok E s" and "shadow_exists now shadow key s = (ex, s')"
  shows "store_ok E s'" "at_time now (stored E s') = at_time now (stored E s)" "calm s s'"
    and "om_get shadow key = None \<Longrightarrow> ex = (at_time now (stored E s) key \<noteq> None)" and "om_get shadow key = Some b \<Longrightarrow> ex = b"
proof -
  have "store_ok E s' \<and> at_time now (stored E s') = at_time now (stored E s) \<and> calm s s' \<and>
      (om_get shadow key = None \<longrightarrow> ex = (at_time now (stored E s) key \<noteq> None))"
  proof (cases "om_get shadow key")
    case None
    with assms(2) store_ok_live [OF assms(1), of now key] calm_live [of s now key] live_contents(1) [OF assms(1), of now key]
    show ?thesis by (cases "live now key s") (auto simp: shadow_exists_def contents_def)
  next
    case (Some b)
    with assms show ?thesis by (simp add: shadow_exists_def)
  qed
  then show "store_ok E s'" "at_time now (stored E s') = at_time now (stored E s)" "calm s s'"
    "om_get shadow key = None \<Longrightarrow> ex = (at_time now (stored E s) key \<noteq> None)" by blast+
  show "om_get shadow key = Some b \<Longrightarrow> ex = b" using assms(2) by (simp add: shadow_exists_def)
qed

definition item_logged :: "engine_env \<Rightarrow> bool \<Rightarrow> bool \<Rightarrow> bytes \<Rightarrow> rstring \<times> (kvalue \<times> int) option \<Rightarrow> bool" where
  "item_logged E req com rec u \<longleftrightarrow> (\<exists>r. l_bytes r = rec \<and> l_key r = fst u \<and> good_rec E req r \<and> rec_state E r = snd u \<and>
     l_txn r \<and> (l_commit r \<longleftrightarrow> com))"

definition batch_kept :: "batch_op \<Rightarrow> bool" where
  "batch_kept o_p \<longleftrightarrow> (case o_p of BPut k v ex mp \<Rightarrow> valid_str k \<and> expiry_to_ms ex = ex | BDel k \<Rightarrow> valid_str k)"

lemma batch_kept_simps [simp]:
  "batch_kept (BPut k v ex mp) \<longleftrightarrow> valid_str k \<and> expiry_to_ms ex = ex" "batch_kept (BDel k) \<longleftrightarrow> valid_str k"
  by (simp_all add: batch_kept_def)

lemma put_staged:
  assumes bp: "build_put E rng algo key v ex mp ts FLAG_TXN = Inr (rec, ent, raw)"
    and env: "env_ok E" "nonce_ok rng" "value_ok (ee_values E) v" "is_i64 ts" "is_i64 ex" and keys: "ee_keys E = None"
  shows "staged_ok E (SPut key ent raw (if is_doc (value_ty v) then Some v else None) (e_ty ent) created 0, rec) (key, Some (v, ex))"
    and "valid_str key \<Longrightarrow> expiry_to_ms ex = ex \<Longrightarrow> item_logged E False False rec (key, Some (v, ex))"
proof -
  have x: "FLAG_TXN \<in> {0, FLAG_TXN}" by simp
  obtain stored fl de where dec: "value_decode (ee_values E) (value_ty v) raw de = Inr v"
    and fl: "fl = snd (pack (ee_codec E) raw algo) OR FLAG_TXN OR doc_enc_flags de"
    and ph: "parse_header rec = crypt_header (ee_keys E) (ee_crc E (drop 4 rec)) key stored (type_u8 (value_ty v)) fl ts ex"
    and ent: "ent = \<lparr>e_offset = 0, e_k_size = word_of_nat (str_len key),
      e_v_size = word_of_nat (length stored + overhead (ee_keys E)), e_raw_size = word_of_nat (length raw),
      e_ty = value_ty v, e_flags = stored_flags (ee_keys E) fl, e_timestamp = ts, e_expires_at = ex, e_version = 0\<rparr>"
    by (rule build_put_facts [OF bp env(1-3) x env(4,5)]) metis
  note be = build_put_entry [OF bp env(1-3) x env(4,5)]
  note pf = put_flags [OF pack_flag_set x, of "ee_codec E" raw algo de, folded fl]
  have "e_doc_enc ent = de" by (simp add: ent e_doc_enc_def doc_enc_stored_flags pf(2))
  with be dec show "staged_ok E (SPut key ent raw (if is_doc (value_ty v) then Some v else None) (e_ty ent) created 0, rec) (key, Some (v, ex))"
    using pf(3) keys by (auto simp: staged_ok_def ph stored_flags_encrypted)
  show "item_logged E False False rec (key, Some (v, ex))" if kv: "valid_str key" "expiry_to_ms ex = ex"
  proof -
    obtain r where "l_bytes r = rec" "l_key r = key" "good_rec E False r" "rec_state E r = Some (v, ex)"
      "l_txn r \<longleftrightarrow> FLAG_TXN \<noteq> 0" "\<not> l_commit r"
      by (rule put_record [OF bp env(1-3) x env(4,5) kv, of False]) auto
    moreover have "FLAG_TXN \<noteq> 0" by (simp add: flag_defs)
    ultimately show ?thesis unfolding item_logged_def by auto
  qed
qed

lemma del_staged:
  assumes rec: "engine_encode E rng key [] 0 (FLAG_TOMBSTONE OR FLAG_TXN) ts 0 = Inr rec"
    and env: "env_ok E" "nonce_ok rng" "validate_key key = Inr ()" "is_i64 ts" and keys: "ee_keys E = None"
  shows "staged_ok E (SDel key, rec) (key, None)" and "valid_str key \<Longrightarrow> item_logged E False False rec (key, None)"
proof -
  have fl: "(FLAG_TOMBSTONE OR FLAG_TXN) AND FLAG_ENCRYPTED = 0" "(FLAG_TOMBSTONE OR FLAG_TXN) AND FLAG_TOMBSTONE \<noteq> 0"
    "(FLAG_TOMBSTONE OR FLAG_TXN) AND FLAG_TXN \<noteq> 0" "(FLAG_TOMBSTONE OR FLAG_TXN) AND FLAG_TXN_COMMIT = 0"
    by (simp_all add: flag_defs)
  have "rec = encode_record (ee_crc E) key [] 0 (FLAG_TOMBSTONE OR FLAG_TXN) ts 0"
    using rec keys by (simp add: engine_encode_def crypt_encode_record_def)
  then have "h_flags (parse_header rec) = FLAG_TOMBSTONE OR FLAG_TXN"
    by (simp add: parse_header_def encode_record_def record_body_def Let_def nth_append)
  with fl(1) tombstone_frame [OF rec env fl(1)] show "staged_ok E (SDel key, rec) (key, None)" by (simp add: staged_ok_def)
  show "item_logged E False False rec (key, None)" if k: "valid_str key"
  proof -
    obtain r where "l_bytes r = rec" "l_key r = key" "good_rec E False r" "rec_state E r = None"
      "l_txn r \<longleftrightarrow> (FLAG_TOMBSTONE OR FLAG_TXN) AND FLAG_TXN \<noteq> 0"
      "l_commit r \<longleftrightarrow> (FLAG_TOMBSTONE OR FLAG_TXN) AND FLAG_TXN_COMMIT \<noteq> 0"
      by (rule tombstone_record [OF rec env fl(1,2) k, of False]) auto
    with fl show ?thesis unfolding item_logged_def by auto
  qed
qed

lemma stage_ok:
  assumes env: "env_ok E" "\<And>i. nonce_ok (c_rng c i)" "is_i64 (c_now c)" "is_i64 ts" and keys: "ee_keys E = None"
    and "list_all (batch_op_ok E) ops" and "store_ok E s"
    and "\<And>k. om_get shadow k = Some False \<Longrightarrow> at_time (c_now c) m k = None"
    and "\<And>k. om_get shadow k = None \<Longrightarrow> at_time (c_now c) m k = at_time (c_now c) (stored E s) k"
  shows "\<exists>l s' ups. stage E c ts i ops shadow s = (Inr l, s') \<and> store_ok E s' \<and>
    at_time (c_now c) (stored E s') = at_time (c_now c) (stored E s) \<and> calm s s' \<and> list_all2 (staged_ok E) l ups \<and>
    (list_all batch_kept ops \<longrightarrow> list_all2 (\<lambda>x. item_logged E False False (snd x)) l ups) \<and>
    at_time (c_now c) (apply_ups ups m) = at_time (c_now c) (batch_map ops m)"
  using assms(6-9)
proof (induction ops arbitrary: shadow s m i)
  case Nil
  then show ?case by (intro exI [of _ "[]"] exI [of _ s]) simp
next
  case (Cons o_p ops)
  let ?now = "c_now c"
  obtain ex s1 where sh: "shadow_exists ?now shadow (op_key o_p) s = (ex, s1)" by (cases "shadow_exists ?now shadow (op_key o_p) s")
  note se = shadow_exists_ok [OF Cons.prems(2) sh]
  have ops: "list_all (batch_op_ok E) ops" using Cons.prems(1) by simp
  show ?case
  proof (cases o_p)
    case (BPut key v e mp)
    have o: "validate_key key = Inr ()" "value_ok (ee_values E) v" "value_fits E mp v" "is_i64 e"
      using Cons.prems(1) by (cases mp; simp add: BPut batch_op_ok_def new_value_ok_def)+
    obtain rec ent raw where bp: "build_put E (c_rng c i) (i_compression s) key v e mp ts FLAG_TXN = Inr (rec, ent, raw)"
      using build_put_succeeds [OF o(1,3) env(2)] by blast
    note ps = put_staged [OF bp env(1,2) o(2) env(4) o(4) keys]
    have "\<exists>l s' ups. stage E c ts (i + 1) ops (om_insert key True shadow) s1 = (Inr l, s') \<and> store_ok E s' \<and>
        at_time ?now (stored E s') = at_time ?now (stored E s1) \<and> calm s1 s' \<and> list_all2 (staged_ok E) l ups \<and>
        (list_all batch_kept ops \<longrightarrow> list_all2 (\<lambda>x. item_logged E False False (snd x)) l ups) \<and>
        at_time ?now (apply_ups ups (m(key \<mapsto> (v, e)))) = at_time ?now (batch_map ops (m(key \<mapsto> (v, e))))"
    proof (rule Cons.IH [OF ops se(1)])
      fix k
      show "om_get (om_insert key True shadow) k = Some False \<Longrightarrow> at_time ?now (m(key \<mapsto> (v, e))) k = None"
        using Cons.prems(3) [of k] by (auto simp: at_time_def split: if_splits)
      show "om_get (om_insert key True shadow) k = None \<Longrightarrow> at_time ?now (m(key \<mapsto> (v, e))) k = at_time ?now (stored E s1) k"
        using Cons.prems(4) [of k] se(2) by (auto simp: at_time_def split: if_splits)
    qed
    then obtain l s' ups where st: "stage E c ts (i + 1) ops (om_insert key True shadow) s1 = (Inr l, s')" "store_ok E s'"
      "at_time ?now (stored E s') = at_time ?now (stored E s1)" "calm s1 s'" "list_all2 (staged_ok E) l ups"
      "list_all batch_kept ops \<longrightarrow> list_all2 (\<lambda>x. item_logged E False False (snd x)) l ups"
      "at_time ?now (apply_ups ups (m(key \<mapsto> (v, e)))) = at_time ?now (batch_map ops (m(key \<mapsto> (v, e))))" by blast
    let ?x = "(SPut key ent raw (if is_doc (value_ty v) then Some v else None) (e_ty ent) (\<not> ex) 0, rec)"
    have "stage E c ts i (o_p # ops) shadow s = (Inr (?x # l), s')"
      using bp sh st(1) by (simp add: BPut)
    with st se(2,3) ps show ?thesis
      by (intro exI [of _ "?x # l"] exI [of _ s'] exI [of _ "(key, Some (v, e)) # ups"])
        (auto simp: BPut intro: calm_trans)
  next
    case (BDel key)
    have o: "validate_key key = Inr ()" using Cons.prems(1) by (simp add: BDel batch_op_ok_def)
    show ?thesis
    proof (cases ex)
      case False
      then have none: "at_time ?now m key = None"
        using Cons.prems(3,4) [of key] se(4,5)
        by (cases "om_get shadow key"; cases "at_time ?now (stored E s) key") (auto simp: BDel)
      then have same: "at_time ?now (m(key := None)) = at_time ?now m" by (auto simp: at_time_def fun_eq_iff)
      have "\<exists>l s' ups. stage E c ts i ops shadow s1 = (Inr l, s') \<and> store_ok E s' \<and>
          at_time ?now (stored E s') = at_time ?now (stored E s1) \<and> calm s1 s' \<and> list_all2 (staged_ok E) l ups \<and>
          (list_all batch_kept ops \<longrightarrow> list_all2 (\<lambda>x. item_logged E False False (snd x)) l ups) \<and>
          at_time ?now (apply_ups ups (m(key := None))) = at_time ?now (batch_map ops (m(key := None)))"
      proof (rule Cons.IH [OF ops se(1)])
        fix k
        show "om_get shadow k = Some False \<Longrightarrow> at_time ?now (m(key := None)) k = None"
          unfolding same by (rule Cons.prems(3))
        show "om_get shadow k = None \<Longrightarrow> at_time ?now (m(key := None)) k = at_time ?now (stored E s1) k"
          unfolding same se(2) by (rule Cons.prems(4))
      qed
      moreover have "stage E c ts i (o_p # ops) shadow s = stage E c ts i ops shadow s1"
        using sh False by (simp add: BDel)
      moreover have "at_time ?now (apply_ups ups (m(key := None))) = at_time ?now (apply_ups ups m)" for ups
        by (rule at_time_ups [OF same])
      ultimately show ?thesis using se(2) calm_trans [OF se(3)] by (fastforce simp: BDel)
    next
      case True
      obtain rec where rec: "engine_encode E (c_rng c i) key [] 0 (FLAG_TOMBSTONE OR FLAG_TXN) ?now 0 = Inr rec"
        using encode_succeeds [OF env(2)] by blast
      note ds = del_staged [OF rec env(1,2) o env(3) keys]
      have "\<exists>l s' ups. stage E c ts (i + 1) ops (om_insert key False shadow) s1 = (Inr l, s') \<and> store_ok E s' \<and>
          at_time ?now (stored E s') = at_time ?now (stored E s1) \<and> calm s1 s' \<and> list_all2 (staged_ok E) l ups \<and>
          (list_all batch_kept ops \<longrightarrow> list_all2 (\<lambda>x. item_logged E False False (snd x)) l ups) \<and>
          at_time ?now (apply_ups ups (m(key := None))) = at_time ?now (batch_map ops (m(key := None)))"
      proof (rule Cons.IH [OF ops se(1)])
        fix k
        show "om_get (om_insert key False shadow) k = Some False \<Longrightarrow> at_time ?now (m(key := None)) k = None"
          using Cons.prems(3) [of k] by (auto simp: at_time_def split: if_splits)
        show "om_get (om_insert key False shadow) k = None \<Longrightarrow> at_time ?now (m(key := None)) k = at_time ?now (stored E s1) k"
          using Cons.prems(4) [of k] se(2) by (auto simp: at_time_def split: if_splits)
      qed
      then obtain l s' ups where st: "stage E c ts (i + 1) ops (om_insert key False shadow) s1 = (Inr l, s')" "store_ok E s'"
        "at_time ?now (stored E s') = at_time ?now (stored E s1)" "calm s1 s'" "list_all2 (staged_ok E) l ups"
        "list_all batch_kept ops \<longrightarrow> list_all2 (\<lambda>x. item_logged E False False (snd x)) l ups"
        "at_time ?now (apply_ups ups (m(key := None))) = at_time ?now (batch_map ops (m(key := None)))" by blast
      have "stage E c ts i (o_p # ops) shadow s = (Inr ((SDel key, rec) # l), s')"
        using rec sh st(1) True by (simp add: BDel)
      with st se(2,3) ds show ?thesis
        by (intro exI [of _ "(SDel key, rec) # l"] exI [of _ s'] exI [of _ "(key, None) # ups"])
          (auto simp: BDel intro: calm_trans)
    qed
  qed
qed

subsection \<open>What the commit does\<close>

lemma format_needed_frames:
  assumes "list_all is_frame rs" and "1 \<le> n" and "n \<le> 3"
  shows "\<exists>need. format_needed_from n (concat rs) = Some need \<and> 1 \<le> need \<and> need \<le> 3"
  using assms
proof (induction rs arbitrary: n)
  case Nil
  then show ?case by (simp add: format_needed_from.simps [of _ "[]"] len_defs)
next
  case (Cons r rs)
  have "is_frame r" using Cons.prems(1) by simp
  note f = is_frameD [OF this]
  let ?n = "max n (format_for_record (h_ty (parse_header r)) (h_flags (parse_header r)))"
  have h: "parse_header (r @ concat rs) = parse_header r" by (rule parse_header_prefix [OF f(1)])
  have "format_needed_from n (concat (r # rs)) = format_needed_from ?n (concat rs)"
    using f h by (simp add: format_needed_from.simps [of n] Let_def len_defs)
  moreover have "1 \<le> ?n" "?n \<le> 3"
    using Cons.prems(2,3) by (auto simp: format_for_record_def FORMAT_V1_def max_def word_le_nat_alt split: if_splits)
  ultimately show ?case using Cons.IH [of ?n] Cons.prems(1) by simp
qed

lemma doc_view_of_plain: "\<not> is_doc (value_ty v) \<Longrightarrow> doc_view_of v = None"
  by (cases v) (auto simp: doc_view_of_def value_ty_def split: json.splits doc.splits)

lemma apply_put_eq:
  fixes key :: rstring and base off :: nat
  assumes "value_decode (ee_values E) (value_ty v) raw (e_doc_enc ent) = Inr v"
  defines "w \<equiv> \<lambda>s. put_entry E key v (ent\<lparr>e_offset := base + off, e_version := i_seq s + 1\<rparr>) raw (s\<lparr>i_seq := i_seq s + 1\<rparr>)"
  shows "apply_staged E base (SPut key ent raw (if is_doc (value_ty v) then Some v else None) (value_ty v) created off) s =
    (emit (OpSet key (value_ty v) raw (e_doc_enc ent) (e_timestamp ent) (e_expires_at ent) created) (w s))\<lparr>i_dirty_ops := i_dirty_ops (w s) + 1\<rparr>"
proof -
  have "e_doc_enc (ent\<lparr>e_offset := base + off, e_version := n\<rparr>) = e_doc_enc ent" for n by (simp add: e_doc_enc_def)
  moreover have "Option.bind (if is_doc (value_ty v) then Some v else None) doc_view_of = doc_view_of v"
    using doc_view_of_plain [of v] by simp
  ultimately show ?thesis
    using assms(1) by (simp add: apply_staged_def Let_def w_def put_entry_def emit_def)
qed

lemma apply_del_eq:
  "apply_staged E base (SDel key) s = (emit (OpDel key) (drop_entry key s))\<lparr>i_dirty_ops := i_dirty_ops (drop_entry key s) + 1\<rparr>"
  by (simp add: apply_staged_def Let_def drop_entry_def emit_def idx_remove_fields)

lemma dirty_ops_same:
  assumes "store_ok E s"
  shows "store_ok E ((emit o_p s)\<lparr>i_dirty_ops := n\<rparr>)" and "stored E ((emit o_p s)\<lparr>i_dirty_ops := n\<rparr>) = stored E s"
  using store_ok_same_simple [OF assms, of "(emit o_p s)\<lparr>i_dirty_ops := n\<rparr>"] by simp_all

lemma apply_items:
  assumes "store_ok E s" and "i_file s = pre @ concat (map snd l) @ post" and "length pre = base + off"
    and "FILE_HEADER_LEN \<le> base" and "list_all2 (staged_ok E) l ups"
  defines "s' \<equiv> fold (apply_staged E base) (map fst (set_offs off l)) s"
  shows "store_ok E s' \<and> stored E s' = apply_ups ups (stored E s) \<and> i_file s' = i_file s \<and> calm s s'"
  using assms(1-5) unfolding s'_def
proof (induction l arbitrary: pre off s ups)
  case (Cons x l)
  obtain st rec where x: "x = (st, rec)" by (cases x)
  obtain u us where ups: "ups = u # us" "staged_ok E x u" "list_all2 (staged_ok E) l us"
    using Cons.prems(5) by (cases ups) auto
  have it: "item_ok E st rec u" using ups(2) by (simp add: staged_ok_def x)
  let ?t = "apply_staged E base (set_off off st) s"
  have "store_ok E ?t \<and> stored E ?t = (stored E s)(fst u := snd u) \<and> i_file ?t = i_file s \<and> calm s ?t"
  proof (cases st)
    case (SPut key ent raw doc ty created o0)
    from it obtain v where v: "u = (key, Some (v, e_expires_at ent))" "doc = (if is_doc (value_ty v) then Some v else None)"
      "ty = value_ty v" "value_decode (ee_values E) (value_ty v) raw (e_doc_enc ent) = Inr v"
      and ev: "\<And>pre post. entry_value E (pre @ rec @ post) (ent\<lparr>e_offset := length pre\<rparr>) = Some v"
      and shp: "\<And>pre post. entry_shaped E (pre @ rec @ post) key (ent\<lparr>e_offset := length pre\<rparr>)" by (auto simp: SPut)
    let ?e = "ent\<lparr>e_offset := base + off, e_version := i_seq s + 1\<rparr>" and ?s = "s\<lparr>i_seq := i_seq s + 1\<rparr>"
    let ?w = "put_entry E key v ?e raw ?s"
    have eq: "?t = (emit (OpSet key (value_ty v) raw (e_doc_enc ent) (e_timestamp ent) (e_expires_at ent) created) ?w)\<lparr>i_dirty_ops := i_dirty_ops ?w + 1\<rparr>"
      unfolding SPut v(2,3) set_off_def staged.case by (rule apply_put_eq [OF v(4)])
    have s1: "store_ok E ?s" "stored E ?s = stored E s"
      using store_ok_same_simple [OF Cons.prems(1), of ?s] by simp_all
    have "entry_value E (i_file ?s) (ent\<lparr>e_offset := base + off\<rparr>) = Some v"
      using ev [of pre "concat (map snd l) @ post"] Cons.prems(2,3) x by simp
    then have e: "entry_value E (i_file ?s) ?e = Some v" 
      using entry_value_version [of E "i_file ?s" "i_seq s + 1" "ent\<lparr>e_offset := base + off\<rparr>"] by simp
    have "FILE_HEADER_LEN \<le> e_offset ?e" "e_version ?e \<le> i_seq ?s" using Cons.prems(4) by simp_all
    moreover have "entry_shaped E (i_file ?s) key ?e"
      using shp [of pre "concat (map snd l) @ post"] Cons.prems(2,3) x
        entry_shaped_version [where e = "ent\<lparr>e_offset := base + off\<rparr>" and v = "i_seq s + 1"] by simp
    ultimately have pe: "store_ok E ?w" "stored E ?w = (stored E ?s)(key \<mapsto> (v, e_expires_at ?e))"
      using put_entry_ok [OF s1(1) e, of key raw] by blast+
    show ?thesis unfolding eq
      using dirty_ops_same [OF pe(1)] pe(2) s1(2) v(1)
      by (auto simp: calm_def comp_def intro!: grows_same)
  next
    case (SDel key)
    from it have u: "u = (key, None)" by (simp add: SDel)
    have eq: "?t = (emit (OpDel key) (drop_entry key s))\<lparr>i_dirty_ops := i_dirty_ops (drop_entry key s) + 1\<rparr>"
      unfolding SDel set_off_def staged.case by (rule apply_del_eq)
    have "map si_unique (i_sec (drop_entry key s)) = map si_unique (i_sec s)"
      by (cases "om_get (i_index s) key") (simp_all add: drop_entry_def Let_def idx_remove_fields idx_remove_absent comp_def)
    with dirty_ops_same [OF drop_entry_ok(1) [OF Cons.prems(1), of key]] drop_entry_ok(2) [OF Cons.prems(1), of key] u
    show ?thesis unfolding eq by (auto simp: calm_def intro!: grows_same)
  qed
  then have t: "store_ok E ?t" "stored E ?t = (stored E s)(fst u := snd u)" "i_file ?t = i_file s" "calm s ?t" by blast+
  have "store_ok E (fold (apply_staged E base) (map fst (set_offs (off + length rec) l)) ?t) \<and>
      stored E (fold (apply_staged E base) (map fst (set_offs (off + length rec) l)) ?t) = apply_ups us (stored E ?t) \<and>
      i_file (fold (apply_staged E base) (map fst (set_offs (off + length rec) l)) ?t) = i_file ?t \<and>
      calm ?t (fold (apply_staged E base) (map fst (set_offs (off + length rec) l)) ?t)"
    using Cons.prems(2-4) t(3) x by (intro Cons.IH [OF t(1) _ _ _ ups(3), of "pre @ rec"]) simp_all
  with t calm_trans [OF t(4)] show ?case unfolding x ups(1) by (simp add: t(2))
qed simp

lemma map_snd_set_offs [simp]: "map snd (set_offs off l) = map snd l"
  by (induction off l rule: set_offs.induct) simp_all

lemma mark_last_ok:
  assumes "l \<noteq> []" and "list_all2 (staged_ok E) l ups"
  shows "list_all2 (staged_ok E) (mark_last (ee_crc E) l) ups"
proof -
  obtain l0 x where l: "l = l0 @ [x]" using assms(1) by (metis append_butlast_last_id)
  with assms(2) obtain us u where "ups = us @ [u]" "list_all2 (staged_ok E) l0 us" "staged_ok E x u"
    by (auto simp: list_all2_append1 list_all2_Cons1)
  with l staged_ok_mark [of E x u] show ?thesis by (simp add: mark_last_def list_all2_appendI)
qed

definition batch_unit :: "engine_env \<Rightarrow> bytes \<Rightarrow> (rstring \<times> (kvalue \<times> int) option) list \<Rightarrow> bool" where
  "batch_unit E buf ups \<longleftrightarrow> (\<exists>u. log_bytes u = buf \<and> list_all (good_rec E False) u \<and> unit_ok u \<and>
     (\<forall>m. log_state E m u = apply_ups ups m))"

lemma items_logged_list:
  assumes "list_all2 (\<lambda>x. item_logged E False False (snd x)) l ups"
  shows "\<exists>rs. map l_bytes rs = map snd l \<and> list_all (good_rec E False) rs \<and> list_all l_txn rs \<and> list_all (\<lambda>r. \<not> l_commit r) rs \<and>
    (\<forall>m. log_state E m rs = apply_ups ups m) \<and> length rs = length l"
  using assms
proof (induction l ups rule: list_all2_induct)
  case (Cons x l u us)
  then obtain rs r where "map l_bytes rs = map snd l" "list_all (good_rec E False) rs" "list_all l_txn rs"
      "list_all (\<lambda>r. \<not> l_commit r) rs" "\<And>m. log_state E m rs = apply_ups us m" "length rs = length l"
    and "l_bytes r = snd x" "l_key r = fst u" "good_rec E False r" "rec_state E r = snd u" "l_txn r" "\<not> l_commit r"
    by (auto simp: item_logged_def)
  then show ?case by (intro exI [of _ "r # rs"]) simp
qed simp

lemma mark_last_unit:
  assumes "l \<noteq> []" and "list_all2 (\<lambda>x. item_logged E False False (snd x)) l ups" and "list_all2 (staged_ok E) l ups"
  shows "batch_unit E (concat (map snd (mark_last (ee_crc E) l))) ups"
proof -
  obtain rs where rs: "map l_bytes rs = map snd l" "list_all (good_rec E False) rs" "list_all l_txn rs"
    "list_all (\<lambda>r. \<not> l_commit r) rs" "\<And>m. log_state E m rs = apply_ups ups m" "length rs = length l"
    using items_logged_list [OF assms(2)] by blast
  then obtain qs r where q: "rs = qs @ [r]" using assms(1) by (metis append_butlast_last_id length_0_conv)
  obtain l0 x where l: "l = l0 @ [x]" using assms(1) by (metis append_butlast_last_id)
  have lb: "map l_bytes qs = map snd l0" "l_bytes r = snd x" using rs(1) q l by simp_all
  have plain: "h_flags (parse_header (l_bytes r)) AND FLAG_ENCRYPTED = 0"
    using assms(3) l lb(2) by (auto simp: list_all2_append1 list_all2_Cons1 staged_ok_def)
  have g: "good_rec E False r" using rs(2) q by simp
  note gm = good_rec_mark [OF g plain]
  let ?u = "qs @ [mark_rec (ee_crc E) r]"
  have "log_bytes ?u = concat (map snd (mark_last (ee_crc E) l))"
    using lb l by (simp add: log_bytes_def mark_last_def mark_rec_def)
  moreover have "list_all (good_rec E False) ?u" using rs(2) q gm(1) by simp
  moreover have "unit_ok ?u" using rs(3,4) q gm(3,4) by (auto simp: unit_ok_def)
  moreover have "log_state E m ?u = apply_ups ups m" for m
    using rs(5) [of m] q gm(2) by (simp add: mark_rec_def)
  ultimately show ?thesis unfolding batch_unit_def by blast
qed

lemma batch_commit_ok:
  assumes s: "store_ok E s" and io: "c_io c = NoFault" "\<not> i_closed s" and l: "l \<noteq> []" "list_all2 (staged_ok E) l ups"
  shows "\<exists>s'. batch_commit E c l s = (Inr (), s') \<and> store_ok E s' \<and> stored E s' = apply_ups ups (stored E s) \<and>
    i_closed s' = i_closed s \<and> map si_unique (i_sec s') = map si_unique (i_sec s) \<and>
    (headed s \<longrightarrow> grows s s' (concat (map snd (mark_last (ee_crc E) l))))"
proof -
  let ?l = "mark_last (ee_crc E) l" and ?n = "length (i_file s)"
  let ?buf = "concat (map snd ?l)"
  have ok: "list_all2 (staged_ok E) ?l ups" by (rule mark_last_ok [OF l])
  then have "list_all is_frame (map snd ?l)"
    by (induction rule: list_all2_induct) (simp_all add: staged_ok_def)
  then obtain need where need: "format_needed ?buf = Some need" "1 \<le> need" "need \<le> 3"
    using format_needed_frames [of "map snd ?l" FORMAT_V1] by (auto simp: format_needed_def FORMAT_V1_def word_le_nat_alt)
  show ?thesis
  proof (rule append_cases [OF s, of "c_io c" ?buf False])
    fix err f fmt
    assume "append_buf (c_io c) ?buf False s = (Inl err, s\<lparr>i_file := f, i_format := fmt\<rparr>)"
    with need io show ?thesis by (simp add: append_buf_def Let_def split: if_splits)
  next
    fix f fmt
    let ?t = "s\<lparr>i_file := f @ ?buf, i_file_len := ?n + length ?buf, i_format := fmt, i_unsynced := \<not> False\<rparr>"
    assume a: "append_buf (c_io c) ?buf False s = (Inr ?n, ?t)" and f: "header_written (i_file s) f"
    let ?u = "journal_list E c (staged_changes (c_secs c) ?n (set_offs 0 ?l)) True ?t"
    have fl: "length f = ?n" "FILE_HEADER_LEN \<le> ?n" using header_written_facts(1) [OF f] store_okD(3) [OF s] by simp_all
    have u: "store_ok E ?u" "stored E ?u = stored E s" using store_ok_file [OF s f, of ?u ?buf] by simp_all
    define s' where "s' = fold (apply_staged E ?n) (map fst (set_offs 0 ?l)) ?u"
    have "store_ok E s' \<and> stored E s' = apply_ups ups (stored E ?u) \<and> i_file s' = i_file ?u \<and> calm ?u s'"
      unfolding s'_def by (rule apply_items [OF u(1) _ _ fl(2) ok, of f "[]" 0]) (simp_all add: fl(1))
    moreover have "batch_commit E c l s = (Inr (), s')"
      using a by (simp add: batch_commit_def s'_def Let_def)
    moreover have "grows s ?t ?buf" if "headed s"
      by (rule append_grows [OF that store_okD(2,3) [OF s] _ a]) (use need in auto)
    moreover have "grows ?t ?u []" by (rule grows_same) simp_all
    ultimately show ?thesis
      using u(2) grows_trans [of s ?t ?buf ?u "[]"] grows_trans [of s ?u ?buf s' "[]"] by (auto simp: calm_def)
  qed
qed

lemma apply_batch_ok:
  assumes env: "env_ok E" "\<And>i. nonce_ok (c_rng c i)" "is_i64 (c_now c)" and keys: "ee_keys E = None" and io: "c_io c = NoFault"
    and ops: "list_all (batch_op_ok E) ops" and s: "store_ok E s" "\<not> i_closed s" "list_all (\<lambda>si. \<not> si_unique si) (i_sec s)"
  shows "\<exists>s'. apply_batch E c ops None s = (Inr (), s') \<and> store_ok E s' \<and>
    at_time (c_now c) (stored E s') = at_time (c_now c) (batch_map ops (stored E s)) \<and>
    i_closed s' = i_closed s \<and> map si_unique (i_sec s') = map si_unique (i_sec s) \<and>
    (headed s \<longrightarrow> list_all batch_kept ops \<longrightarrow> (\<exists>buf ups. grows s s' buf \<and> (buf = [] \<and> ups = [] \<or> batch_unit E buf ups) \<and>
       at_time (c_now c) (apply_ups ups (stored E s)) = at_time (c_now c) (batch_map ops (stored E s))))"
proof -
  let ?now = "c_now c"
  have ts: "is_i64 (c_secs c)" using env(3) by (auto simp: is_i64_def)
  obtain l s1 ups where st: "stage E c (c_secs c) 0 ops [] s = (Inr l, s1)" "store_ok E s1"
      "at_time ?now (stored E s1) = at_time ?now (stored E s)" "calm s s1" "list_all2 (staged_ok E) l ups"
      "list_all batch_kept ops \<longrightarrow> list_all2 (\<lambda>x. item_logged E False False (snd x)) l ups"
      "at_time ?now (apply_ups ups (stored E s)) = at_time ?now (batch_map ops (stored E s))"
    using stage_ok [OF env ts keys ops s(1), of "[]" "stored E s" 0] by auto
  have nu: "\<not> list_ex si_unique (i_sec s)" using s(3) by (auto simp: list_ex_iff list_all_iff)
  have eq: "apply_batch E c ops None s = (if l = [] then (Inr (), s1) else batch_commit E c l s1)"
    using st(1) nu by (simp add: apply_batch_def apply_batch_watched_def begin_conflict_def)
  show ?thesis
  proof (cases "l = []")
    case True
    then have "ups = []" using st(5) by simp
    with True eq st show ?thesis
      by (intro exI [of _ s1] conjI impI exI [of _ "[]"]) (simp_all add: calm_def)
  next
    case False
    have "\<not> i_closed s1" using st(4) s(2) by (simp add: calm_def)
    from batch_commit_ok [OF st(2) io this False st(5)] obtain s' where s': "batch_commit E c l s1 = (Inr (), s')" "store_ok E s'"
      "stored E s' = apply_ups ups (stored E s1)" "i_closed s' = i_closed s1" "map si_unique (i_sec s') = map si_unique (i_sec s1)"
      "headed s1 \<longrightarrow> grows s1 s' (concat (map snd (mark_last (ee_crc E) l)))" by blast
    have "at_time ?now (stored E s') = at_time ?now (batch_map ops (stored E s))"
      using at_time_ups [OF st(3), of ups] st(7) s'(3) by simp
    moreover have "grows s s' (concat (map snd (mark_last (ee_crc E) l)))" if "headed s"
      using that s'(6) st(4) grows_trans [of s s1 "[]" s'] by (auto simp: calm_def grows_def)
    moreover have "batch_unit E (concat (map snd (mark_last (ee_crc E) l))) ups" if "list_all batch_kept ops"
      using mark_last_unit [OF False _ st(5)] st(6) that by simp
    ultimately show ?thesis using eq False s' st(4,7) by (auto simp: calm_def)
  qed
qed

end
