(* ===== verification/Refine.thy ===== *)
theory Refine
  imports Batch
begin

text \<open>
  The engine refines a map: for any sequence of calls at non-decreasing times, what the calls answer
  is what a plain map from keys to values and deadlines answers. The argument is a forward simulation,
  stated once in the locale \<open>timed_simulation\<close> and interpreted on the engine.
\<close>

fun run_calls :: "('c \<Rightarrow> 's \<Rightarrow> 'r \<times> 's) \<Rightarrow> 'c list \<Rightarrow> 's \<Rightarrow> 'r list \<times> 's" where
  "run_calls step [] s = ([], s)"
| "run_calls step (c # cs) s = (let (r, s) = step c s; (rs, s) = run_calls step cs s in (r # rs, s))"

fun in_order :: "('c \<Rightarrow> int) \<Rightarrow> int \<Rightarrow> 'c list \<Rightarrow> bool" where
  "in_order clock t [] \<longleftrightarrow> True"
| "in_order clock t (c # cs) \<longleftrightarrow> t \<le> clock c \<and> in_order clock (clock c) cs"

locale timed_simulation =
  fixes R :: "int \<Rightarrow> 's \<Rightarrow> 'm \<Rightarrow> bool"
    and step :: "'c \<Rightarrow> 's \<Rightarrow> 'r \<times> 's"
    and spec :: "'c \<Rightarrow> 'm \<Rightarrow> 'r \<times> 'm"
    and clock :: "'c \<Rightarrow> int"
    and ok :: "'c \<Rightarrow> bool"
  assumes sim_step: "R t s m \<Longrightarrow> t \<le> clock c \<Longrightarrow> ok c \<Longrightarrow>
      fst (step c s) = fst (spec c m) \<and> R (clock c) (snd (step c s)) (snd (spec c m))"
begin

lemma sim_run:
  "R t s m \<Longrightarrow> in_order clock t cs \<Longrightarrow> list_all ok cs \<Longrightarrow>
    fst (run_calls step cs s) = fst (run_calls spec cs m) \<and>
    (\<exists>t' \<in> insert t (clock ` set cs). R t' (snd (run_calls step cs s)) (snd (run_calls spec cs m)))"
proof (induction cs arbitrary: t s m)
  case (Cons c cs)
  from sim_step [OF Cons.prems(1)] Cons.prems(2,3)
  have c: "fst (step c s) = fst (spec c m)" "R (clock c) (snd (step c s)) (snd (spec c m))" by auto
  from Cons.IH [OF c(2)] Cons.prems(2,3) c(1) show ?case by (fastforce simp: Let_def split: prod.splits)
qed auto

end

subsection \<open>The calls and what they answer\<close>

datatype kv_op =
    KPut rstring kvalue int bool
  | KGet rstring
  | KContains rstring
  | KDelete rstring
  | KUpdate rstring "kvalue \<Rightarrow> kiva_error + kvalue option"
  | KBatch "batch_op list"

datatype kv_result = RDone bool | RBatch | RFound "(kvalue \<times> int) option" | RUpdated "bool option" | RFailed kiva_error

definition engine_step :: "engine_env \<Rightarrow> call \<times> kv_op \<Rightarrow> inner \<Rightarrow> kv_result \<times> inner" where
  "engine_step E co s = (case co of (c, o_p) \<Rightarrow> (case o_p of
     KPut k v ex mp \<Rightarrow> (case engine_put E c k v ex mp s of
       (Inr b, s) \<Rightarrow> (RDone b, s) | (Inl e, s) \<Rightarrow> (RFailed e, s))
   | KGet k \<Rightarrow> (case engine_get E c k s of
       (Inr r, s) \<Rightarrow> (RFound (map_option (\<lambda>(v, e). (v, e_expires_at e)) r), s) | (Inl e, s) \<Rightarrow> (RFailed e, s))
   | KContains k \<Rightarrow> (case engine_contains c k s of (b, s) \<Rightarrow> (RDone b, s))
   | KDelete k \<Rightarrow> (case engine_delete E c k s of
       (Inr b, s) \<Rightarrow> (RDone b, s) | (Inl e, s) \<Rightarrow> (RFailed e, s))
   | KUpdate k f \<Rightarrow> (case update_with E c k (\<lambda>v. case f v of Inl e \<Rightarrow> Inl e | Inr o_v \<Rightarrow> Inr (o_v, ())) s of
       (Inr r, s) \<Rightarrow> (RUpdated (map_option snd r), s) | (Inl e, s) \<Rightarrow> (RFailed e, s))
   | KBatch ops \<Rightarrow> (case apply_batch E c ops None s of
       (Inr _, s) \<Rightarrow> (RBatch, s) | (Inl e, s) \<Rightarrow> (RFailed e, s))))"

definition map_step :: "call \<times> kv_op \<Rightarrow> kv_state \<Rightarrow> kv_result \<times> kv_state" where
  "map_step co m = (case co of (c, o_p) \<Rightarrow> (case o_p of
     KPut k v ex mp \<Rightarrow> (RDone (at_time (c_now c) m k = None), m(k \<mapsto> (v, ex)))
   | KGet k \<Rightarrow> (RFound (at_time (c_now c) m k), m)
   | KContains k \<Rightarrow> (RDone (at_time (c_now c) m k \<noteq> None), m)
   | KDelete k \<Rightarrow> (RDone (at_time (c_now c) m k \<noteq> None), m(k := None))
   | KUpdate k f \<Rightarrow> (case at_time (c_now c) m k of
       None \<Rightarrow> (RUpdated None, m)
     | Some (v, ex) \<Rightarrow> (case f v of
         Inl e \<Rightarrow> (RFailed e, m)
       | Inr None \<Rightarrow> (RUpdated (Some False), m)
       | Inr (Some new) \<Rightarrow> (RUpdated (Some True), m(k \<mapsto> (new, ex)))))
   | KBatch ops \<Rightarrow> (RBatch, batch_map ops m)))"

text \<open>
  The calls the theorem is about: no I/O fault and a nonce when one is needed, keys and values within
  the bounds the engine accepts, deadlines and times that fit 64 bits.
\<close>

definition op_ok :: "engine_env \<Rightarrow> kv_op \<Rightarrow> bool" where
  "op_ok E o_p \<longleftrightarrow> (case o_p of
     KPut k v ex mp \<Rightarrow> validate_key k = Inr () \<and> new_value_ok E v \<and> is_i64 ex
   | KUpdate k f \<Rightarrow> validate_key k = Inr () \<and> (\<forall>v new. f v = Inr (Some new) \<longrightarrow> new_value_ok E new)
   | KDelete k \<Rightarrow> validate_key k = Inr ()
   | KBatch ops \<Rightarrow> ee_keys E = None \<and> list_all (batch_op_ok E) ops
   | _ \<Rightarrow> True)"

definition call_ok :: "call \<Rightarrow> bool" where
  "call_ok c \<longleftrightarrow> (\<forall>i. nonce_ok (c_rng c i)) \<and> c_io c = NoFault \<and> is_i64 (c_now c)"

definition no_unique :: "inner \<Rightarrow> bool" where
  "no_unique s \<longleftrightarrow> list_all (\<lambda>si. \<not> si_unique si) (i_sec s)"

definition times_ok :: "kv_state \<Rightarrow> bool" where
  "times_ok m \<longleftrightarrow> (\<forall>k v ex. m k = Some (v, ex) \<longrightarrow> is_i64 ex)"

definition engine_sim :: "engine_env \<Rightarrow> int \<Rightarrow> inner \<Rightarrow> kv_state \<Rightarrow> bool" where
  "engine_sim E t s m \<longleftrightarrow> store_ok E s \<and> \<not> i_closed s \<and> no_unique s \<and> at_time t (stored E s) = at_time t m \<and> times_ok m"

subsection \<open>Each call\<close>

lemma no_unique_check: "list_all (\<lambda>si. \<not> si_unique si) sis \<Longrightarrow> check_unique E now idx sis ws = Inr ()"
  by (induction sis) simp_all

lemma no_unique_insert [simp]: "no_unique (idx_insert E key e d s) = no_unique s"
  by (simp add: no_unique_def idx_insert_fields list_all_iff)

lemma no_unique_remove [simp]: "no_unique (snd (idx_remove key s)) = no_unique s"
  by (cases "om_get (i_index s) key = None") (simp_all add: no_unique_def idx_remove_fields idx_remove_absent list_all_iff)

lemma no_unique_cong: "i_sec s = i_sec t \<Longrightarrow> no_unique s = no_unique t"
  by (simp add: no_unique_def)

lemma no_unique_live [simp]: "no_unique (snd (live now key s)) = no_unique s"
  by (rule live_cases [of s key now]) (simp_all add: no_unique_cong [of "tell_expired key x" x for x])

lemma append_frame:
  "i_sec (snd (append_buf io buf sync s)) = i_sec s" "i_closed (snd (append_buf io buf sync s)) = i_closed s"
  by (auto simp: append_buf_def Let_def split: option.splits io_fault.splits)

lemma put_locked_frame:
  assumes put: "put_locked E c key v ex mp ts s = (r, s')"
  shows "no_unique s' = no_unique s \<and> i_closed s' = i_closed s"
proof (cases "build_put E (c_rng c 0) (i_compression s) key v ex mp ts 0")
  case (Inl err)
  with put show ?thesis by (auto simp: put_locked_def)
next
  case (Inr x)
  obtain rec ent raw where x: "x = (rec, ent, raw)" by (cases x)
  obtain found s1 where l: "live (c_now c) key s = (found, s1)" by (cases "live (c_now c) key s")
  obtain r1 t where a: "append_buf (c_io c) rec False s1 = (r1, t)" by (cases "append_buf (c_io c) rec False s1")
  have t: "no_unique t = no_unique s" "i_closed t = i_closed s"
    using no_unique_live [of "c_now c" key s] live_closed [of "c_now c" key s] append_frame [of "c_io c" rec False s1] a l
    by (simp_all add: no_unique_cong [of t s1])
  show ?thesis
  proof (cases r1)
    case (Inl err)
    with put Inr x l a t show ?thesis by (auto simp: put_locked_def)
  next
    case off: (Inr off)
    from put_locked_eq [OF Inr [unfolded x] l a [unfolded off]] put t show ?thesis
      by (auto simp: no_unique_def list_all_iff)
  qed
qed

lemma no_unique_drop [simp]: "no_unique (drop_entry key s) = no_unique s"
proof -
  have "no_unique (drop_entry key s) = no_unique (snd (idx_remove key (s\<lparr>i_seq := i_seq s + 1\<rparr>)))"
    by (rule no_unique_cong) (simp add: drop_entry_def Let_def)
  also have "\<dots> = no_unique (s\<lparr>i_seq := i_seq s + 1\<rparr>)" by (rule no_unique_remove)
  finally show ?thesis by (simp add: no_unique_def)
qed

lemma delete_frame:
  assumes del: "engine_delete E c key s = (r, s')"
  shows "no_unique s' = no_unique s \<and> i_closed s' = i_closed s"
proof -
  obtain found s1 where l: "live (c_now c) key s = (found, s1)" by (cases "live (c_now c) key s")
  have s1: "no_unique s1 = no_unique s" "i_closed s1 = i_closed s"
    using no_unique_live [of "c_now c" key s] live_closed [of "c_now c" key s] l by simp_all
  show ?thesis
  proof (cases "found = None \<or> (\<exists>err. engine_encode E (c_rng c 0) key [] 0 FLAG_TOMBSTONE (c_secs c) 0 = Inl err)")
    case True
    with del l s1 show ?thesis by (auto simp: engine_delete_def split: option.splits)
  next
    case False
    then obtain e rec where e: "found = Some e" and rec: "engine_encode E (c_rng c 0) key [] 0 FLAG_TOMBSTONE (c_secs c) 0 = Inr rec"
      by (metis option.exhaust sum.exhaust)
    obtain r1 t where a: "append_buf (c_io c) rec False s1 = (r1, t)" by (cases "append_buf (c_io c) rec False s1")
    have t: "no_unique t = no_unique s" "i_closed t = i_closed s"
      using append_frame [of "c_io c" rec False s1] a s1 by (simp_all add: no_unique_cong [of t s1])
    show ?thesis
    proof (cases r1)
      case (Inl err)
      with del l e rec a t show ?thesis by (auto simp: engine_delete_def)
    next
      case (Inr off)
      have "no_unique (journal_del E c key n k t) = no_unique t" "i_closed (journal_del E c key n k t) = i_closed t" for n k
        by (simp_all add: no_unique_def journal_del_def)
      with delete_eq [OF l [unfolded e] rec a [unfolded Inr]] del t show ?thesis
        by (auto simp: no_unique_cong [of "emit x y" y for x y] no_unique_cong [of "y\<lparr>i_dirty_ops := n\<rparr>" y for y n])
    qed
  qed
qed

lemma value_of_frame:
  assumes "store_ok E s" and "om_get (i_index s) key = Some e" and "entry_value E (i_file s) e = Some v"
  shows "no_unique (snd (value_of E key e s)) = no_unique s"
  by (rule no_unique_cong) (simp add: value_of_ok(6) [OF assms])

lemma engine_simI:
  "store_ok E s \<Longrightarrow> \<not> i_closed s \<Longrightarrow> no_unique s \<Longrightarrow> at_time t (stored E s) = at_time t m \<Longrightarrow> times_ok m \<Longrightarrow> engine_sim E t s m"
  by (simp add: engine_sim_def)

lemma sim_put:
  assumes R: "engine_sim E t s m" and t: "t \<le> c_now c" and c: "call_ok c" and o: "op_ok E (KPut k v ex mp)" and E: "env_ok E"
  shows "\<exists>b s'. engine_put E c k v ex mp s = (Inr b, s') \<and> b = (at_time (c_now c) m k = None) \<and>
    engine_sim E (c_now c) s' (m(k \<mapsto> (v, ex)))"
proof -
  have R': "store_ok E s" "\<not> i_closed s" "no_unique s" "times_ok m" and m: "at_time (c_now c) (stored E s) = at_time (c_now c) m"
    using R at_time_later_cong [OF t, of "stored E s" m] by (simp_all add: engine_sim_def)
  have ts: "is_i64 (c_secs c)" using c by (auto simp: call_ok_def is_i64_def)
  have ready: "put_ready E c v ex (c_secs c)" and vf: "value_fits E mp v" "validate_key k = Inr ()"
    using o c E ts by (cases mp; simp add: put_ready_def op_ok_def new_value_ok_def call_ok_def)+
  obtain b s' where put: "put_locked E c k v ex mp (c_secs c) s = (Inr b, s')"
    using put_locked_succeeds [OF R'(1) ready vf(2,1) _ R'(2)] c by (auto simp: call_ok_def)
  note pl = put_locked_ok [OF R'(1) ready put]
  have "engine_put E c k v ex mp s = (Inr b, s')"
    using put R'(3) by (simp add: engine_put_def put_at_def no_unique_check no_unique_def)
  moreover have "b = (at_time (c_now c) m k = None)" using pl(3) m by (simp add: contents_def)
  moreover have "engine_sim E (c_now c) s' (m(k \<mapsto> (v, ex)))"
  proof (rule engine_simI [OF pl(1)])
    show "\<not> i_closed s'" "no_unique s'" using put_locked_frame [OF put] R' by simp_all
    show "at_time (c_now c) (stored E s') = at_time (c_now c) (m(k \<mapsto> (v, ex)))" using pl(2) at_time_upd [OF m] by simp
    show "times_ok (m(k \<mapsto> (v, ex)))" using R'(4) o by (auto simp: times_ok_def op_ok_def)
  qed
  ultimately show ?thesis by blast
qed

lemma sim_delete:
  assumes R: "engine_sim E t s m" and t: "t \<le> c_now c" and c: "call_ok c" and o: "op_ok E (KDelete k)" and E: "env_ok E"
  shows "\<exists>b s'. engine_delete E c k s = (Inr b, s') \<and> b = (at_time (c_now c) m k \<noteq> None) \<and> engine_sim E (c_now c) s' (m(k := None))"
proof -
  have R': "store_ok E s" "\<not> i_closed s" "no_unique s" "times_ok m" and m: "at_time (c_now c) (stored E s) = at_time (c_now c) m"
    using R at_time_later_cong [OF t, of "stored E s" m] by (simp_all add: engine_sim_def)
  have ts: "is_i64 (c_secs c)" using c by (auto simp: call_ok_def is_i64_def)
  have n: "nonce_ok (c_rng c 0)" using c by (simp add: call_ok_def)
  obtain found s1 where l: "live (c_now c) k s = (found, s1)" by (cases "live (c_now c) k s")
  obtain rec where rec: "engine_encode E (c_rng c 0) k [] 0 FLAG_TOMBSTONE (c_secs c) 0 = Inr rec"
    using encode_succeeds [OF n] by blast
  have fr: "is_frame rec"
    by (rule tombstone_frame [OF rec E n _ ts]) (use o in \<open>simp_all add: op_ok_def flag_defs\<close>)
  have "\<not> i_closed s1" using live_closed [of "c_now c" k s] l R'(2) by simp
  then obtain off u where a: "append_buf (c_io c) rec False s1 = (Inr off, u)"
    using append_succeeds [OF fr, of c s1 False] c by (auto simp: call_ok_def)
  have "\<exists>b s'. engine_delete E c k s = (Inr b, s')"
  proof (cases found)
    case None
    with l show ?thesis by (auto simp: engine_delete_def)
  next
    case (Some e)
    from delete_eq [OF l [unfolded Some] rec a] show ?thesis by blast
  qed
  then obtain b s' where del: "engine_delete E c k s = (Inr b, s')" by blast
  note d = delete_ok [OF R'(1) del]
  have b: "b = (at_time (c_now c) m k \<noteq> None)" using d(3) m by (simp add: contents_def)
  have "engine_sim E (c_now c) s' (m(k := None))"
  proof (rule engine_simI [OF d(1)])
    show "\<not> i_closed s'" "no_unique s'" using delete_frame [OF del] R' by simp_all
    show "times_ok (m(k := None))" using R'(4) by (auto simp: times_ok_def)
    show "at_time (c_now c) (stored E s') = at_time (c_now c) (m(k := None))"
    proof (cases b)
      case True
      with d(2) at_time_upd [OF m, of k None] show ?thesis by simp
    next
      case False
      then have "at_time (c_now c) m k = None" using b by (cases "at_time (c_now c) m k") auto
      then have "at_time (c_now c) (m(k := None)) = at_time (c_now c) m" by (auto simp: at_time_def fun_eq_iff)
      with False d(2) m show ?thesis by simp
    qed
  qed
  with del b show ?thesis by blast
qed

lemma sim_get:
  assumes R: "engine_sim E t s m" and t: "t \<le> c_now c"
  shows "\<exists>r s'. engine_get E c k s = (Inr r, s') \<and> map_option (\<lambda>(v, e). (v, e_expires_at e)) r = at_time (c_now c) m k \<and>
    engine_sim E (c_now c) s' m"
proof -
  have R': "store_ok E s" "\<not> i_closed s" "no_unique s" "times_ok m" and m: "at_time (c_now c) (stored E s) = at_time (c_now c) m"
    using R at_time_later_cong [OF t, of "stored E s" m] by (simp_all add: engine_sim_def)
  obtain r s' where g: "engine_get E c k s = (r, s')" by (cases "engine_get E c k s")
  note gk = get_ok [OF R'(1) g]
  have "no_unique s' = no_unique s \<and> i_closed s' = i_closed s"
  proof (cases "fst (live (c_now c) k s)")
    case None
    then have "engine_get E c k s = (Inr None, snd (live (c_now c) k s))"
      by (cases "live (c_now c) k s") (simp add: engine_get_def)
    with g no_unique_live [of "c_now c" k s] live_closed [of "c_now c" k s] show ?thesis by simp
  next
    case (Some e)
    from live_contents(2) [OF R'(1) this] obtain v where v: "om_get (i_index s) k = Some e" "snd (live (c_now c) k s) = s"
      "entry_value E (i_file s) e = Some v" by blast
    have "s' = snd (value_of E k e s)"
      using g Some v(2) by (cases "live (c_now c) k s"; cases "value_of E k e s") (auto simp: engine_get_def split: sum.splits)
    with value_of_frame [OF R'(1) v(1,3)] value_of_ok(7) [OF R'(1) v(1,3)] show ?thesis by simp
  qed
  with gk R' m g show ?thesis by (auto simp: engine_sim_def contents_def)
qed

lemma sim_update:
  assumes R: "engine_sim E t s m" and t: "t \<le> c_now c" and c: "call_ok c" and o: "op_ok E (KUpdate k f)" and E: "env_ok E"
  shows "fst (engine_step E (c, KUpdate k f) s) = fst (map_step (c, KUpdate k f) m) \<and>
    engine_sim E (c_now c) (snd (engine_step E (c, KUpdate k f) s)) (snd (map_step (c, KUpdate k f) m))"
proof -
  have R': "store_ok E s" "\<not> i_closed s" "no_unique s" "times_ok m" and m: "at_time (c_now c) (stored E s) = at_time (c_now c) m"
    using R at_time_later_cong [OF t, of "stored E s" m] by (simp_all add: engine_sim_def)
  have Rc: "engine_sim E (c_now c) s m" using R' m by (simp add: engine_sim_def)
  let ?g = "\<lambda>v. case f v of Inl e \<Rightarrow> Inl e | Inr o_v \<Rightarrow> Inr (o_v, ())"
  obtain found s1 where l: "live (c_now c) k s = (found, s1)" by (cases "live (c_now c) k s")
  show ?thesis
  proof (cases found)
    case None
    have none: "at_time (c_now c) m k = None"
      using live_contents(1) [OF R'(1), of "c_now c" k] l None m by (simp add: contents_def)
    have "engine_sim E (c_now c) s1 m"
      using store_ok_live [OF R'(1), of "c_now c" k] no_unique_live [of "c_now c" k s] live_closed [of "c_now c" k s] l R' m
      by (simp add: engine_sim_def)
    with none None l show ?thesis by (simp add: engine_step_def map_step_def update_with_def)
  next
    case (Some e)
    from live_contents(2) [OF R'(1), of "c_now c" k e] l Some obtain v where v: "om_get (i_index s) k = Some e" "s1 = s"
      "entry_value E (i_file s) e = Some v" "contents E (c_now c) s k = Some (v, e_expires_at e)" by auto
    have mk: "at_time (c_now c) m k = Some (v, e_expires_at e)" using v(4) m by (simp add: contents_def)
    note vo = value_of_ok [OF R'(1) v(1,3)]
    obtain s2 where s2: "value_of E k e s = (Inr v, s2)" using vo(1) by (cases "value_of E k e s") simp
    have R2: "engine_sim E (c_now c) s2 m"
      using vo s2 R' m value_of_frame [OF R'(1) v(1,3)] by (simp add: engine_sim_def)
    consider (err) x where "f v = Inl x" | (keep) "f v = Inr None" | (new) new where "f v = Inr (Some new)"
      by (metis not_None_eq sum.exhaust)
    then show ?thesis
    proof cases
      case err
      with l Some v s2 mk R2 show ?thesis by (simp add: engine_step_def map_step_def update_with_def)
    next
      case keep
      with l Some v s2 mk R2 show ?thesis by (simp add: engine_step_def map_step_def update_with_def)
    next
      case new
      have mx: "m k = Some (v, e_expires_at e)" using mk by (auto simp: at_time_def split: option.splits if_splits)
      then have "op_ok E (KPut k new (e_expires_at e) (is_msgpack e))"
        using o new R'(4) by (auto simp: op_ok_def times_ok_def)
      from sim_put [OF R2 order_refl c this E] obtain b s' where
        put: "engine_put E c k new (e_expires_at e) (is_msgpack e) s2 = (Inr b, s')"
          "engine_sim E (c_now c) s' (m(k \<mapsto> (new, e_expires_at e)))" by blast
      then have nu: "no_unique s2" using R2 by (simp add: engine_sim_def)
      have pl: "put_locked E c k new (e_expires_at e) (is_msgpack e) (c_secs c) s2 = (Inr b, s')"
        using put(1) nu by (simp add: engine_put_def put_at_def no_unique_check no_unique_def)
      with l Some v s2 mk new put nu show ?thesis
        by (simp add: engine_step_def map_step_def update_with_def no_unique_check no_unique_def)
    qed
  qed
qed

lemma at_time_batch: "at_time t m = at_time t m' \<Longrightarrow> at_time t (batch_map ops m) = at_time t (batch_map ops m')"
proof (induction ops arbitrary: m m')
  case (Cons o_p ops)
  show ?case
  proof (cases o_p)
    case (BPut k v ex mp)
    show ?thesis unfolding BPut batch_map_simps by (rule Cons.IH [OF at_time_upd [OF Cons.prems]])
  next
    case (BDel k)
    show ?thesis unfolding BDel batch_map_simps by (rule Cons.IH [OF at_time_upd [OF Cons.prems]])
  qed
qed simp

lemma times_ok_batch: "times_ok m \<Longrightarrow> list_all (batch_op_ok E) ops \<Longrightarrow> times_ok (batch_map ops m)"
proof (induction ops arbitrary: m)
  case (Cons o_p ops)
  have ops: "list_all (batch_op_ok E) ops" using Cons.prems(2) by simp
  show ?case
  proof (cases o_p)
    case (BPut k v ex mp)
    have "times_ok (m(k \<mapsto> (v, ex)))" using Cons.prems by (auto simp: BPut times_ok_def batch_op_ok_def)
    then show ?thesis unfolding BPut batch_map_simps by (rule Cons.IH [OF _ ops])
  next
    case (BDel k)
    have "times_ok (m(k := None))" using Cons.prems(1) by (auto simp: times_ok_def)
    then show ?thesis unfolding BDel batch_map_simps by (rule Cons.IH [OF _ ops])
  qed
qed simp

lemma no_unique_map: "map si_unique (i_sec s') = map si_unique (i_sec s) \<Longrightarrow> no_unique s' = no_unique s"
proof -
  have "no_unique x \<longleftrightarrow> list_all Not (map si_unique (i_sec x))" for x by (simp add: no_unique_def list_all_iff)
  then show "map si_unique (i_sec s') = map si_unique (i_sec s) \<Longrightarrow> no_unique s' = no_unique s" by simp
qed

lemma sim_batch:
  assumes R: "engine_sim E t s m" and t: "t \<le> c_now c" and c: "call_ok c" and o: "op_ok E (KBatch ops)" and E: "env_ok E"
  shows "\<exists>s'. apply_batch E c ops None s = (Inr (), s') \<and> engine_sim E (c_now c) s' (batch_map ops m)"
proof -
  have R': "store_ok E s" "\<not> i_closed s" "no_unique s" "times_ok m" and m: "at_time (c_now c) (stored E s) = at_time (c_now c) m"
    using R at_time_later_cong [OF t, of "stored E s" m] by (simp_all add: engine_sim_def)
  have ok: "\<And>i. nonce_ok (c_rng c i)" "is_i64 (c_now c)" "c_io c = NoFault" "ee_keys E = None" "list_all (batch_op_ok E) ops"
    using c o by (simp_all add: call_ok_def op_ok_def)
  from apply_batch_ok [OF E ok(1,2,4,3,5) R'(1,2) R'(3) [unfolded no_unique_def]] obtain s' where
    s': "apply_batch E c ops None s = (Inr (), s')" "store_ok E s'" "i_closed s' = i_closed s"
      "at_time (c_now c) (stored E s') = at_time (c_now c) (batch_map ops (stored E s))"
      "map si_unique (i_sec s') = map si_unique (i_sec s)" by blast
  have "engine_sim E (c_now c) s' (batch_map ops m)"
    using s' R' no_unique_map [OF s'(5)] at_time_batch [OF m, of ops] times_ok_batch [OF R'(4) ok(5)] by (simp add: engine_sim_def)
  with s'(1) show ?thesis by blast
qed

text \<open>The engine is an instance of the simulation.\<close>

definition timed_ok :: "engine_env \<Rightarrow> call \<times> kv_op \<Rightarrow> bool" where
  "timed_ok E co \<longleftrightarrow> env_ok E \<and> call_ok (fst co) \<and> op_ok E (snd co)"

interpretation es: timed_simulation "engine_sim E" "engine_step E" map_step "c_now \<circ> fst" "timed_ok E" for E
proof
  fix t s m and co :: "call \<times> kv_op"
  assume R: "engine_sim E t s m" and t: "t \<le> (c_now \<circ> fst) co" and ok: "timed_ok E co"
  obtain c o_p where co: "co = (c, o_p)" by (cases co)
  have ok': "t \<le> c_now c" "call_ok c" "op_ok E o_p" "env_ok E" using t ok by (simp_all add: co timed_ok_def)
  have "fst (engine_step E (c, o_p) s) = fst (map_step (c, o_p) m) \<and>
      engine_sim E (c_now c) (snd (engine_step E (c, o_p) s)) (snd (map_step (c, o_p) m))"
  proof (cases o_p)
    case (KPut k v ex mp)
    with sim_put [OF R ok'(1,2) _ ok'(4)] ok'(3) show ?thesis by (fastforce simp: engine_step_def map_step_def)
  next
    case (KGet k)
    with sim_get [OF R ok'(1), of k] show ?thesis by (fastforce simp: engine_step_def map_step_def)
  next
    case (KContains k)
    have m: "at_time (c_now c) (stored E s) = at_time (c_now c) m" and R': "store_ok E s" "\<not> i_closed s" "no_unique s" "times_ok m"
      using R at_time_later_cong [OF ok'(1), of "stored E s" m] by (simp_all add: engine_sim_def)
    with KContains store_ok_live [OF R'(1), of "c_now c" k] live_contents(1) [OF R'(1), of "c_now c" k]
      no_unique_live [of "c_now c" k s] live_closed [of "c_now c" k s]
    show ?thesis
      by (cases "live (c_now c) k s"; cases "at_time (c_now c) m k")
        (auto simp: engine_step_def map_step_def engine_contains_def engine_sim_def contents_def)
  next
    case (KDelete k)
    with sim_delete [OF R ok'(1,2) _ ok'(4)] ok'(3) show ?thesis by (fastforce simp: engine_step_def map_step_def)
  next
    case (KUpdate k f)
    with sim_update [OF R ok'(1,2) _ ok'(4)] ok'(3) show ?thesis by simp
  next
    case (KBatch ops)
    with sim_batch [OF R ok'(1,2) _ ok'(4)] ok'(3) show ?thesis by (fastforce simp: engine_step_def map_step_def)
  qed
  then show "fst (engine_step E co s) = fst (map_step co m) \<and>
      engine_sim E ((c_now \<circ> fst) co) (snd (engine_step E co s)) (snd (map_step co m))" by (simp add: co)
qed

subsection \<open>From a new file\<close>

lemma open_new:
  assumes "engine_open E opts now (Inr file_id) \<lparr>d_data = [], d_hint = h, d_meta = None\<rparr> = Inr s"
  shows "engine_sim E t s Map.empty" and "i_file s = file_header file_id FORMAT_V1" and "i_file_id s = file_id"
    and "i_format s = FORMAT_V1" and "i_index s = []"
proof -
  have s: "s = open_inner opts (file_header file_id FORMAT_V1) file_id FORMAT_V1 [] 0 0"
    using assms by (simp add: engine_open_def open_file_def key_check_def)
  show f: "i_file s = file_header file_id FORMAT_V1" "i_file_id s = file_id" "i_format s = FORMAT_V1" and idx: "i_index s = []"
    by (simp_all add: s open_inner_def recount_def)
  have c: "i_cache s = cache_new (o_cache_bytes opts)" "i_sec s = []" "i_file_len s = length (i_file s)" "\<not> i_closed s"
    by (simp_all add: s open_inner_def recount_def)
  have "books_ok s" unfolding s open_inner_def
    by (rule books_ok_recount) (simp_all add: cache_ok_new)
  moreover have "vc.coherent (cache_truth E (i_file s) (i_index s)) (i_cache s)"
    by (simp add: c vc.coherent_def cache_ok_new cache_has_def) (simp add: cache_new_def)
  ultimately have "store_ok E s"
    using c idx by (simp add: store_ok_def f file_header_def MAGIC_def len_defs)
  moreover have "stored E s = Map.empty" by (simp add: stored_def idx fun_eq_iff)
  ultimately show "engine_sim E t s Map.empty"
    using c by (simp add: engine_sim_def no_unique_def times_ok_def)
qed

text \<open>
  (C1) The engine is a map. Open a new data file and make any sequence of calls at times that do not
  go back: puts, reads, membership tests, deletions, read-modify-write updates and, in a workspace
  that is not encrypted, batches. What the calls
  answer is what a plain map from keys to values and deadlines answers, an entry vanishing when its
  deadline passes: no matter how values are encoded, compressed, encrypted, cached and laid out in the
  file, and which expired entries have been purged.
\<close>

theorem engine_refines_map:
  assumes "engine_open E opts now (Inr file_id) \<lparr>d_data = [], d_hint = None, d_meta = None\<rparr> = Inr s"
    and "in_order (c_now \<circ> fst) now cs" and "list_all (timed_ok E) cs"
  shows "fst (run_calls (engine_step E) cs s) = fst (run_calls map_step cs Map.empty)"
  using es.sim_run [OF open_new(1) [OF assms(1)] assms(2,3)] by simp

text \<open>A concrete environment: encryption on, a codec for runs, and plain libraries for values.\<close>

definition demo_env :: engine_env where
  "demo_env = \<lparr>ee_values = plain_values, ee_aead = plain_aead, ee_crc = (\<lambda>b. of_nat (length b)), ee_codec = run_codec,
     ee_keys = Some \<lparr>current = key_one, old = []\<rparr>\<rparr>"

definition demo_call :: "int \<Rightarrow> call" where
  "demo_call now = \<lparr>c_now = now, c_rng = (\<lambda>_. Inr (replicate 12 0)), c_io = NoFault,
     c_journal_rng = (\<lambda>_. Inr (replicate 12 0)), c_journal_io = None\<rparr>"

definition demo_options :: options where
  "demo_options = \<lparr>o_compression = Lz4, o_require_encryption = True, o_cache_bytes = 1000\<rparr>"

definition demo_inner :: inner where
  "demo_inner = open_inner demo_options (file_header 7 FORMAT_V1) 7 FORMAT_V1 [] 0 0"

definition demo_calls :: "(call \<times> kv_op) list" where
  "demo_calls = [(demo_call 2000, KPut (lit ''a'') (VStr (lit ''x'')) 200000000000 False),
     (demo_call 3000, KGet (lit ''a'')),
     (demo_call 4000, KUpdate (lit ''a'') (\<lambda>v. Inr (Some (VBool (v = VStr (lit ''x'')))))),
     (demo_call 5000, KDelete (lit ''b'')),
     (demo_call 6000, KGet (lit ''a'')),
     (demo_call 300000000000, KContains (lit ''a''))]"

lemma demo_env_ok: "env_ok demo_env"
  by (simp add: env_ok_def demo_env_def plain_values_ok plain_aead_ok run_codec_ok can_open_def key_one_def find_key_def)

lemma demo_open:
  "engine_open demo_env demo_options 1000 (Inr 7) \<lparr>d_data = [], d_hint = None, d_meta = None\<rparr> = Inr demo_inner"
  by (simp add: engine_open_def open_file_def key_check_def demo_inner_def)

lemma demo_value_ok: "new_value_ok demo_env (VBool b)" "new_value_ok demo_env (VStr [120])"
  by (simp_all add: new_value_ok_def value_ok_def value_fits_def demo_env_def encode_stored_def encode_stored_plain_def
      value_encode_def MAX_VALUE_LEN_def valid_char_def utf8_char_def)

lemma demo_calls_ok: "list_all (timed_ok demo_env) demo_calls" "in_order (c_now \<circ> fst) 1000 demo_calls"
  by (simp_all add: demo_calls_def timed_ok_def demo_env_ok call_ok_def demo_call_def nonce_ok_def op_ok_def demo_value_ok
      validate_key_def MAX_KEY_LEN_def NONCE_LEN_def is_i64_def len_utf8_def)

theorem engine_refines_map_witness:
  "fst (run_calls (engine_step demo_env) demo_calls demo_inner) =
    [RDone True, RFound (Some (VStr (lit ''x''), 200000000000)), RUpdated (Some True), RDone False,
     RFound (Some (VBool True, 200000000000)), RDone False]"
  unfolding engine_refines_map [OF demo_open demo_calls_ok(2,1)]
  by (simp add: demo_calls_def map_step_def at_time_def dead_def demo_call_def)

end
