(* ===== verification/Durable.thy ===== *)
theory Durable
  imports Refine
begin

text \<open>
  What survives a crash. The data file is a header and a log of units; each call of the engine appends
  one unit or none. A crash may lose any tail of the file: opening what is left gives the state after
  some prefix of the calls, and after all of them when nothing is lost.
\<close>

subsection \<open>What one call adds to the log\<close>

definition kept_ok :: "engine_env \<Rightarrow> bool \<Rightarrow> call \<times> kv_op \<Rightarrow> bool" where
  "kept_ok E req co \<longleftrightarrow> timed_ok E co \<and> (ee_keys E \<noteq> None \<or> \<not> req) \<and> (case snd co of
     KPut k v ex mp \<Rightarrow> valid_str k \<and> expiry_to_ms ex = ex
   | KDelete k \<Rightarrow> valid_str k
   | KUpdate k f \<Rightarrow> valid_str k
   | KBatch ops \<Rightarrow> list_all batch_kept ops
   | _ \<Rightarrow> True)"

definition ms_ok :: "kv_state \<Rightarrow> bool" where
  "ms_ok m \<longleftrightarrow> (\<forall>k v ex. m k = Some (v, ex) \<longrightarrow> expiry_to_ms ex = ex)"

definition adds_units :: "engine_env \<Rightarrow> bool \<Rightarrow> int \<Rightarrow> inner \<Rightarrow> inner \<Rightarrow> kv_state \<Rightarrow> kv_state \<Rightarrow> log_rec list list \<Rightarrow> bool" where
  "adds_units E req now s s' m m' us \<longleftrightarrow> length us \<le> 1 \<and> list_all (list_all (good_rec E req)) us \<and> list_all unit_ok us \<and>
     grows s s' (log_bytes (concat us)) \<and>
     (\<forall>m0. at_time now m0 = at_time now m \<longrightarrow> at_time now (log_state E m0 (concat us)) = at_time now m')"

lemma adds_none: "grows s s' [] \<Longrightarrow> at_time now m' = at_time now m \<Longrightarrow> adds_units E req now s s' m m' []"
  by (simp add: adds_units_def)

lemma adds_one:
  assumes "good_rec E req r" and "\<not> l_txn r" and "grows s s' (l_bytes r)" and "l_key r = k" and "m' = m(k := rec_state E r)"
  shows "adds_units E req now s s' m m' [[r]]"
proof -
  have "at_time now (log_state E m0 [r]) = at_time now m'" if "at_time now m0 = at_time now m" for m0
    unfolding log_state_simps assms(4,5) by (rule at_time_upd [OF that])
  then show ?thesis using assms(1-3) by (simp add: adds_units_def unit_ok_def)
qed

lemma engine_put_locked: "no_unique s \<Longrightarrow> engine_put E c k v ex mp s = put_locked E c k v ex mp (c_secs c) s"
  by (simp add: engine_put_def put_at_def no_unique_check no_unique_def)

lemma engine_simD:
  assumes "engine_sim E t s m" and "t \<le> c_now c"
  shows "store_ok E s" "\<not> i_closed s" "no_unique s" "times_ok m" "at_time (c_now c) (stored E s) = at_time (c_now c) m"
  using assms at_time_later_cong [OF assms(2), of "stored E s" m] by (simp_all add: engine_sim_def)

lemma put_adds:
  assumes R: "engine_sim E t s m" and t: "t \<le> c_now c" and ok: "kept_ok E req (c, KPut k v ex mp)" and h: "headed s"
  obtains b s' us where "engine_put E c k v ex mp s = (Inr b, s')" "adds_units E req (c_now c) s s' m (m(k \<mapsto> (v, ex))) us"
proof -
  have c: "call_ok c" and o: "op_ok E (KPut k v ex mp)" and E: "env_ok E" and kv: "valid_str k" "expiry_to_ms ex = ex"
    "ee_keys E \<noteq> None \<or> \<not> req" using ok by (simp_all add: kept_ok_def timed_ok_def)
  note R' = engine_simD [OF R t]
  have ts: "is_i64 (c_secs c)" using c by (auto simp: call_ok_def is_i64_def)
  have rd: "nonce_ok (c_rng c 0)" "value_ok (ee_values E) v" "is_i64 ex"
    using o c by (simp_all add: op_ok_def new_value_ok_def call_ok_def)
  have ready: "put_ready E c v ex (c_secs c)" using rd ts E by (simp add: put_ready_def)
  obtain b s' where put: "engine_put E c k v ex mp s = (Inr b, s')" using sim_put [OF R t c o E] by blast
  then have pl: "put_locked E c k v ex mp (c_secs c) s = (Inr b, s')" by (simp add: engine_put_locked [OF R'(3)])
  obtain rec ent raw where bp: "build_put E (c_rng c 0) (i_compression s) k v ex mp (c_secs c) 0 = Inr (rec, ent, raw)"
    and g: "grows s s' rec" by (rule put_locked_grows [OF R'(1) h ready pl])
  obtain r where r: "l_bytes r = rec" "l_key r = k" "good_rec E req r" "rec_state E r = Some (v, ex)" "\<not> l_txn r"
    by (rule put_record [OF bp E rd(1,2) _ ts rd(3) kv]) auto
  have "adds_units E req (c_now c) s s' m (m(k \<mapsto> (v, ex))) [[r]]"
    by (rule adds_one [OF r(3,5) _ r(2)]) (use g r in simp_all)
  with put show thesis by (rule that)
qed

lemma delete_adds:
  assumes R: "engine_sim E t s m" and t: "t \<le> c_now c" and ok: "kept_ok E req (c, KDelete k)" and h: "headed s"
  obtains b s' us where "engine_delete E c k s = (Inr b, s')" "adds_units E req (c_now c) s s' m (m(k := None)) us"
proof -
  have c: "call_ok c" and o: "op_ok E (KDelete k)" and E: "env_ok E" and kv: "valid_str k" "ee_keys E \<noteq> None \<or> \<not> req"
    using ok by (simp_all add: kept_ok_def timed_ok_def)
  note R' = engine_simD [OF R t]
  have ts: "is_i64 (c_secs c)" using c by (auto simp: call_ok_def is_i64_def)
  have n: "nonce_ok (c_rng c 0)" and vk: "validate_key k = Inr ()" using c o by (simp_all add: call_ok_def op_ok_def)
  obtain b s' where del: "engine_delete E c k s = (Inr b, s')" and b: "b = (at_time (c_now c) m k \<noteq> None)"
    using sim_delete [OF R t c o E] by blast
  note g = delete_grows [OF R'(1) h E n vk ts del]
  have "\<exists>us. adds_units E req (c_now c) s s' m (m(k := None)) us"
  proof (cases b)
    case True
    then obtain rec where rec: "engine_encode E (c_rng c 0) k [] 0 FLAG_TOMBSTONE (c_secs c) 0 = Inr rec" "grows s s' rec"
      using g by auto
    obtain r where r: "l_bytes r = rec" "l_key r = k" "good_rec E req r" "rec_state E r = None" "\<not> l_txn r"
      by (rule tombstone_record [OF rec(1) E n vk ts _ _ kv]) (auto simp: flag_defs)
    have "adds_units E req (c_now c) s s' m (m(k := None)) [[r]]"
      by (rule adds_one [OF r(3,5) _ r(2)]) (use rec r in simp_all)
    then show ?thesis ..
  next
    case False
    then have "at_time (c_now c) m k = None" using b by (cases "at_time (c_now c) m k") auto
    then have "at_time (c_now c) (m(k := None)) = at_time (c_now c) m" by (auto simp: at_time_def fun_eq_iff)
    then show ?thesis using adds_none [of s s' "c_now c" "m(k := None)" m E req] g False by auto
  qed
  with del show thesis using that by blast
qed

lemma get_grows:
  assumes "store_ok E s"
  shows "grows s (snd (engine_get E c k s)) []"
proof (cases "fst (live (c_now c) k s)")
  case None
  then show ?thesis using grows_live [of s "c_now c" k] by (cases "live (c_now c) k s") (simp add: engine_get_def)
next
  case (Some e)
  from live_contents(2) [OF assms this] obtain v where v: "om_get (i_index s) k = Some e" "snd (live (c_now c) k s) = s"
    "entry_value E (i_file s) e = Some v" by blast
  then show ?thesis using Some grows_value_of [OF assms v(1,3)]
    by (cases "live (c_now c) k s"; cases "value_of E k e s") (auto simp: engine_get_def split: sum.splits)
qed

lemma adds_after: "grows s s1 [] \<Longrightarrow> adds_units E req now s1 s' m m' us \<Longrightarrow> adds_units E req now s s' m m' us"
  using grows_trans [of s s1 "[]" s'] by (simp add: adds_units_def)

lemma update_adds:
  assumes R: "engine_sim E t s m" and t: "t \<le> c_now c" and ok: "kept_ok E req (c, KUpdate k f)" and h: "headed s"
    and ms: "ms_ok m"
  shows "\<exists>us. adds_units E req (c_now c) s (snd (engine_step E (c, KUpdate k f) s)) m (snd (map_step (c, KUpdate k f) m)) us"
proof -
  have c: "call_ok c" and o: "op_ok E (KUpdate k f)" and E: "env_ok E" and kv: "valid_str k" "ee_keys E \<noteq> None \<or> \<not> req"
    using ok by (simp_all add: kept_ok_def timed_ok_def)
  note R' = engine_simD [OF R t]
  obtain found s1 where l: "live (c_now c) k s = (found, s1)" by (cases "live (c_now c) k s")
  have g1: "grows s s1 []" using grows_live [of s "c_now c" k] l by simp
  show ?thesis
  proof (cases found)
    case None
    have "at_time (c_now c) m k = None"
      using live_contents(1) [OF R'(1), of "c_now c" k] l None R'(5) by (simp add: contents_def)
    with None l adds_none [OF g1, of "c_now c" m m] show ?thesis by (auto simp: engine_step_def map_step_def update_with_def)
  next
    case (Some e)
    from live_contents(2) [OF R'(1), of "c_now c" k e] l Some obtain v where v: "om_get (i_index s) k = Some e" "s1 = s"
      "entry_value E (i_file s) e = Some v" "contents E (c_now c) s k = Some (v, e_expires_at e)" by auto
    have mk: "at_time (c_now c) m k = Some (v, e_expires_at e)" using v(4) R'(5) by (simp add: contents_def)
    note vo = value_of_ok [OF R'(1) v(1,3)]
    obtain s2 where s2: "value_of E k e s = (Inr v, s2)" using vo(1) by (cases "value_of E k e s") simp
    have g2: "grows s s2 []" using grows_value_of [OF R'(1) v(1,3)] s2 by simp
    have R2: "engine_sim E (c_now c) s2 m"
      using vo s2 R' value_of_frame [OF R'(1) v(1,3)] by (simp add: engine_sim_def)
    note same = adds_none [OF g2, of "c_now c" m m E req]
    consider (err) x where "f v = Inl x" | (keep) "f v = Inr None" | (new) new where "f v = Inr (Some new)"
      by (metis not_None_eq sum.exhaust)
    then show ?thesis
    proof cases
      case err
      with l Some v s2 mk same show ?thesis by (auto simp: engine_step_def map_step_def update_with_def)
    next
      case keep
      with l Some v s2 mk same show ?thesis by (auto simp: engine_step_def map_step_def update_with_def)
    next
      case new
      have mx: "m k = Some (v, e_expires_at e)" using mk by (auto simp: at_time_def split: option.splits if_splits)
      then have "op_ok E (KPut k new (e_expires_at e) (is_msgpack e))" "expiry_to_ms (e_expires_at e) = e_expires_at e"
        using o new R'(4) ms by (auto simp: op_ok_def times_ok_def ms_ok_def)
      then have "kept_ok E req (c, KPut k new (e_expires_at e) (is_msgpack e))"
        using c E kv by (simp add: kept_ok_def timed_ok_def)
      moreover have "headed s2" using h g2 by (simp add: grows_def)
      ultimately obtain b s' us where put: "engine_put E c k new (e_expires_at e) (is_msgpack e) s2 = (Inr b, s')"
        and us: "adds_units E req (c_now c) s2 s' m (m(k \<mapsto> (new, e_expires_at e))) us"
        by (rule put_adds [OF R2 order_refl])
      have nu: "no_unique s2" using R2 by (simp add: engine_sim_def)
      have "put_locked E c k new (e_expires_at e) (is_msgpack e) (c_secs c) s2 = (Inr b, s')"
        using put by (simp add: engine_put_locked [OF nu])
      with l Some v s2 mk new nu
      have "snd (engine_step E (c, KUpdate k f) s) = s'" "snd (map_step (c, KUpdate k f) m) = m(k \<mapsto> (new, e_expires_at e))"
        by (simp_all add: engine_step_def map_step_def update_with_def no_unique_check no_unique_def)
      with adds_after [OF g2 us] show ?thesis by auto
    qed
  qed
qed

lemma batch_adds:
  assumes R: "engine_sim E t s m" and t: "t \<le> c_now c" and ok: "kept_ok E req (c, KBatch ops)" and h: "headed s"
  shows "\<exists>s' us. apply_batch E c ops None s = (Inr (), s') \<and> adds_units E req (c_now c) s s' m (batch_map ops m) us"
proof -
  have kept: "list_all batch_kept ops" and E: "env_ok E" and c: "call_ok c" and o: "op_ok E (KBatch ops)" and
    req: "ee_keys E \<noteq> None \<or> \<not> req" using ok by (simp_all add: kept_ok_def timed_ok_def)
  have ok': "\<And>i. nonce_ok (c_rng c i)" "is_i64 (c_now c)" "c_io c = NoFault" "ee_keys E = None" "list_all (batch_op_ok E) ops"
    using c o by (simp_all add: call_ok_def op_ok_def)
  then have nreq: "req = False" using req by simp
  note R' = engine_simD [OF R t]
  from apply_batch_ok [OF E ok'(1,2,4,3,5) R'(1,2) R'(3) [unfolded no_unique_def]] h kept obtain s' buf ups where
    s': "apply_batch E c ops None s = (Inr (), s')" "grows s s' buf" "buf = [] \<and> ups = [] \<or> batch_unit E buf ups"
      "at_time (c_now c) (apply_ups ups (stored E s)) = at_time (c_now c) (batch_map ops (stored E s))" by blast
  have fin: "at_time (c_now c) (apply_ups ups m0) = at_time (c_now c) (batch_map ops m)"
    if m0: "at_time (c_now c) m0 = at_time (c_now c) m" for m0
  proof -
    have "at_time (c_now c) (apply_ups ups m0) = at_time (c_now c) (apply_ups ups (stored E s))"
      by (rule at_time_ups) (simp only: m0 R'(5))
    then show ?thesis using s'(4) at_time_batch [OF R'(5), of ops] by simp
  qed
  from s'(3) have "\<exists>us. adds_units E req (c_now c) s s' m (batch_map ops m) us"
  proof
    assume "buf = [] \<and> ups = []"
    with s'(2) fin [OF refl] show ?thesis by (intro exI [of _ "[]"] adds_none) simp_all
  next
    assume "batch_unit E buf ups"
    then obtain u where u: "log_bytes u = buf" "list_all (good_rec E False) u" "unit_ok u" "\<And>m. log_state E m u = apply_ups ups m"
      unfolding batch_unit_def by blast
    with s'(2) fin show ?thesis unfolding nreq by (intro exI [of _ "[u]"]) (simp add: adds_units_def)
  qed
  with s'(1) show ?thesis by blast
qed

lemma step_adds:
  assumes R: "engine_sim E t s m" and t: "t \<le> c_now c" and ok: "kept_ok E req (c, o_p)" and h: "headed s" and ms: "ms_ok m"
  shows "\<exists>us. adds_units E req (c_now c) s (snd (engine_step E (c, o_p) s)) m (snd (map_step (c, o_p) m)) us"
proof (cases o_p)
  case (KPut k v ex mp)
  obtain b s' us where "engine_put E c k v ex mp s = (Inr b, s')" "adds_units E req (c_now c) s s' m (m(k \<mapsto> (v, ex))) us"
    using put_adds [OF R t ok [unfolded KPut] h] by blast
  then show ?thesis by (auto simp: KPut engine_step_def map_step_def)
next
  case (KGet k)
  have "grows s (snd (engine_step E (c, KGet k) s)) []"
    using get_grows [OF engine_simD(1) [OF R t], of c k]
    by (cases "engine_get E c k s") (auto simp: engine_step_def split: sum.splits)
  from adds_none [OF this, of "c_now c" m m] show ?thesis by (auto simp: KGet map_step_def)
next
  case (KContains k)
  have "grows s (snd (engine_step E (c, KContains k) s)) []"
    using grows_live [of s "c_now c" k] by (cases "live (c_now c) k s") (simp add: engine_step_def engine_contains_def)
  from adds_none [OF this, of "c_now c" m m] show ?thesis by (auto simp: KContains map_step_def)
next
  case (KDelete k)
  obtain b s' us where "engine_delete E c k s = (Inr b, s')" "adds_units E req (c_now c) s s' m (m(k := None)) us"
    using delete_adds [OF R t ok [unfolded KDelete] h] by blast
  then show ?thesis by (auto simp: KDelete engine_step_def map_step_def)
next
  case (KUpdate k f)
  from update_adds [OF R t ok [unfolded KUpdate] h ms] show ?thesis by (simp add: KUpdate)
next
  case (KBatch ops)
  obtain us s' where "apply_batch E c ops None s = (Inr (), s')" "adds_units E req (c_now c) s s' m (batch_map ops m) us"
    using batch_adds [OF R t ok [unfolded KBatch] h] by blast
  then show ?thesis by (auto simp: KBatch engine_step_def map_step_def)
qed

subsection \<open>The history of a run\<close>

text \<open>
  The specification side of the simulation is the list of the maps reached so far. \<open>logged\<close>: the file
  is its header, a part \<open>b\<close> that stands for the map \<open>mb\<close>, and units; every prefix of the units stands
  for one of the maps, all of them for the last one.
\<close>

definition hist_step :: "call \<times> kv_op \<Rightarrow> kv_state list \<Rightarrow> kv_result \<times> kv_state list" where
  "hist_step co hs = (fst (map_step co (last hs)), hs @ [snd (map_step co (last hs))])"

definition logged :: "engine_env \<Rightarrow> bool \<Rightarrow> bytes \<Rightarrow> kv_state \<Rightarrow> int \<Rightarrow> inner \<Rightarrow> kv_state list \<Rightarrow> bool" where
  "logged E req b mb t s hs \<longleftrightarrow> headed s \<and> (\<exists>us.
     drop FILE_HEADER_LEN (i_file s) = b @ log_bytes (concat us) \<and>
     list_all (list_all (good_rec E req)) us \<and> list_all unit_ok us \<and>
     (\<forall>i \<le> length us. \<exists>m \<in> set hs. at_time t (log_state E mb (concat (take i us))) = at_time t m) \<and>
     at_time t (log_state E mb (concat us)) = at_time t (last hs))"

definition durable_sim :: "engine_env \<Rightarrow> bool \<Rightarrow> bytes \<Rightarrow> kv_state \<Rightarrow> int \<Rightarrow> inner \<Rightarrow> kv_state list \<Rightarrow> bool" where
  "durable_sim E req b mb t s hs \<longleftrightarrow> hs \<noteq> [] \<and> engine_sim E t s (last hs) \<and> ms_ok (last hs) \<and> logged E req b mb t s hs"

lemma logged_step:
  assumes log: "logged E req b mb t s hs" and t: "t \<le> now" and hs: "hs \<noteq> []"
    and add: "adds_units E req now s s' (last hs) m' us"
  shows "logged E req b mb now s' (hs @ [m'])"
proof -
  obtain vs where vs: "drop FILE_HEADER_LEN (i_file s) = b @ log_bytes (concat vs)" "list_all (list_all (good_rec E req)) vs"
      "list_all unit_ok vs" "at_time t (log_state E mb (concat vs)) = at_time t (last hs)"
    and pre: "\<And>i. i \<le> length vs \<Longrightarrow> \<exists>m \<in> set hs. at_time t (log_state E mb (concat (take i vs))) = at_time t m"
    and h: "headed s" using log by (auto simp: logged_def)
  have us: "length us \<le> 1" "list_all (list_all (good_rec E req)) us" "list_all unit_ok us" "grows s s' (log_bytes (concat us))"
    and st: "\<And>m0. at_time now m0 = at_time now (last hs) \<Longrightarrow> at_time now (log_state E m0 (concat us)) = at_time now m'"
    using add by (auto simp: adds_units_def)
  have fin: "at_time now (log_state E mb (concat (vs @ us))) = at_time now m'"
    using st [OF at_time_later_cong [OF t vs(4)]] by simp
  have "\<exists>m \<in> set (hs @ [m']). at_time now (log_state E mb (concat (take i (vs @ us)))) = at_time now m"
    if i: "i \<le> length (vs @ us)" for i
  proof (cases "i \<le> length vs")
    case True
    then have "take i (vs @ us) = take i vs" by simp
    moreover obtain m where "m \<in> set hs" "at_time t (log_state E mb (concat (take i vs))) = at_time t m"
      using pre [OF True] by blast
    ultimately show ?thesis using at_time_later_cong [OF t] by (metis UnCI set_append)
  next
    case False
    then have "take i (vs @ us) = vs @ us" using i us(1) by simp
    with fin show ?thesis by auto
  qed
  moreover have "drop FILE_HEADER_LEN (i_file s') = b @ log_bytes (concat (vs @ us))" "headed s'"
    using us(4) vs(1) h by (simp_all add: grows_def)
  ultimately show ?thesis
    unfolding logged_def using vs(2,3) us(2,3) fin by (intro conjI exI [of _ "vs @ us"]) simp_all
qed

lemma ms_ok_batch: "ms_ok m \<Longrightarrow> list_all batch_kept ops \<Longrightarrow> ms_ok (batch_map ops m)"
proof (induction ops arbitrary: m)
  case (Cons o_p ops)
  have ops: "list_all batch_kept ops" using Cons.prems(2) by simp
  show ?case
  proof (cases o_p)
    case (BPut k v ex mp)
    have "ms_ok (m(k \<mapsto> (v, ex)))" using Cons.prems by (auto simp: BPut ms_ok_def)
    then show ?thesis unfolding BPut batch_map_simps by (rule Cons.IH [OF _ ops])
  next
    case (BDel k)
    have "ms_ok (m(k := None))" using Cons.prems(1) by (auto simp: ms_ok_def)
    then show ?thesis unfolding BDel batch_map_simps by (rule Cons.IH [OF _ ops])
  qed
qed simp

lemma ms_ok_step:
  assumes "ms_ok m" and "kept_ok E req (c, o_p)"
  shows "ms_ok (snd (map_step (c, o_p) m))"
proof (cases o_p)
  case (KUpdate k f)
  show ?thesis
  proof (cases "at_time (c_now c) m k")
    case (Some x)
    obtain v ex where x: "x = (v, ex)" by (cases x)
    then have "m k = Some (v, ex)" using Some by (auto simp: at_time_def split: option.splits if_splits)
    with assms(1) Some x KUpdate show ?thesis
      by (auto simp: map_step_def ms_ok_def split: sum.splits option.splits)
  qed (use assms(1) KUpdate in \<open>simp add: map_step_def\<close>)
next
  case (KBatch ops)
  with assms ms_ok_batch [of m ops] show ?thesis by (simp add: map_step_def kept_ok_def)
qed (use assms in \<open>auto simp: map_step_def ms_ok_def kept_ok_def\<close>)

interpretation ds: timed_simulation "durable_sim E req b mb" "engine_step E" hist_step "c_now \<circ> fst" "kept_ok E req" for E req b mb
proof
  fix t s hs and co :: "call \<times> kv_op"
  assume R: "durable_sim E req b mb t s hs" and t: "t \<le> (c_now \<circ> fst) co" and ok: "kept_ok E req co"
  obtain c o_p where co: "co = (c, o_p)" by (cases co)
  have R': "engine_sim E t s (last hs)" "logged E req b mb t s hs" "hs \<noteq> []" "ms_ok (last hs)" "headed s"
    using R by (simp_all add: durable_sim_def logged_def)
  have "timed_ok E co" using ok by (simp add: kept_ok_def)
  note sim = es.sim_step [OF R'(1) t this]
  obtain us where us: "adds_units E req (c_now c) s (snd (engine_step E co s)) (last hs) (snd (map_step co (last hs))) us"
    using step_adds [OF R'(1) _ ok [unfolded co] R'(5,4)] t co by auto
  have "logged E req b mb (c_now c) (snd (engine_step E co s)) (hs @ [snd (map_step co (last hs))])"
    by (rule logged_step [OF R'(2) _ R'(3) us]) (use t co in simp)
  with sim ms_ok_step [OF R'(4) ok [unfolded co]]
  show "fst (engine_step E co s) = fst (hist_step co hs) \<and>
      durable_sim E req b mb ((c_now \<circ> fst) co) (snd (engine_step E co s)) (snd (hist_step co hs))"
    unfolding co by (simp add: durable_sim_def hist_step_def)
qed

subsection \<open>Crashes\<close>

lemma run_calls_Cons:
  "run_calls step (c # cs) s = (fst (step c s) # fst (run_calls step cs (snd (step c s))), snd (run_calls step cs (snd (step c s))))"
  by (simp split: prod.splits)

lemma hist_run:
  "hs \<noteq> [] \<Longrightarrow> snd (run_calls hist_step cs hs) \<noteq> [] \<and>
    last (snd (run_calls hist_step cs hs)) = snd (run_calls map_step cs (last hs)) \<and>
    (\<forall>m \<in> set (snd (run_calls hist_step cs hs)). m \<in> set hs \<or> (\<exists>j \<le> length cs. m = snd (run_calls map_step (take j cs) (last hs))))"
proof (induction cs arbitrary: hs)
  case (Cons c cs)
  let ?m = "snd (map_step c (last hs))"
  have run: "snd (run_calls hist_step (c # cs) hs) = snd (run_calls hist_step cs (hs @ [?m]))"
    by (simp add: run_calls_Cons hist_step_def del: run_calls.simps)
  have map_run: "snd (run_calls map_step (c # ds) (last hs)) = snd (run_calls map_step ds ?m)" for ds
    by (simp add: run_calls_Cons del: run_calls.simps)
  have IH: "snd (run_calls hist_step cs (hs @ [?m])) \<noteq> []"
    "last (snd (run_calls hist_step cs (hs @ [?m]))) = snd (run_calls map_step cs ?m)"
    "\<And>m. m \<in> set (snd (run_calls hist_step cs (hs @ [?m]))) \<Longrightarrow>
      m \<in> set hs \<or> m = ?m \<or> (\<exists>j \<le> length cs. m = snd (run_calls map_step (take j cs) ?m))"
    using Cons.IH [of "hs @ [?m]"] by auto
  have "m \<in> set hs \<or> (\<exists>j \<le> length (c # cs). m = snd (run_calls map_step (take j (c # cs)) (last hs)))"
    if m: "m \<in> set (snd (run_calls hist_step cs (hs @ [?m])))" for m
  proof -
    from IH(3) [OF m] consider "m \<in> set hs" | j where "j \<le> length cs" "m = snd (run_calls map_step (take j cs) ?m)"
      by (metis le0 run_calls.simps(1) snd_conv take_0)
    then show ?thesis
    proof cases
      case (2 j)
      then have "m = snd (run_calls map_step (take (Suc j) (c # cs)) (last hs))" using map_run [of "take j cs"] by simp
      with 2(1) show ?thesis by (metis Suc_le_mono length_Cons)
    qed simp
  qed
  with IH(1,2) show ?case unfolding run map_run [of cs] by (intro conjI ballI) simp_all
qed simp

lemma times_ok_step:
  assumes "times_ok m" and "timed_ok E (c, o_p)"
  shows "times_ok (snd (map_step (c, o_p) m))"
proof (cases o_p)
  case (KUpdate k f)
  show ?thesis
  proof (cases "at_time (c_now c) m k")
    case (Some x)
    obtain v ex where x: "x = (v, ex)" by (cases x)
    then have "m k = Some (v, ex)" using Some by (auto simp: at_time_def split: option.splits if_splits)
    with assms(1) Some x KUpdate show ?thesis
      by (auto simp: map_step_def times_ok_def split: sum.splits option.splits)
  qed (use assms(1) KUpdate in \<open>simp add: map_step_def\<close>)
next
  case (KBatch ops)
  with assms times_ok_batch [of m E ops] show ?thesis by (simp add: map_step_def timed_ok_def op_ok_def)
qed (use assms in \<open>auto simp: map_step_def times_ok_def timed_ok_def op_ok_def\<close>)

lemma times_ok_run: "times_ok m \<Longrightarrow> list_all (timed_ok E) cs \<Longrightarrow> times_ok (snd (run_calls map_step cs m))"
proof (induction cs arbitrary: m)
  case (Cons co cs)
  obtain c o_p where co: "co = (c, o_p)" by (cases co)
  with Cons.prems have "times_ok (snd (map_step co m))" by (auto intro: times_ok_step)
  with Cons.IH [of "snd (map_step co m)"] Cons.prems show ?case by (simp add: run_calls_Cons del: run_calls.simps)
qed simp

lemma open_new_durable:
  assumes "engine_open E opts now (Inr file_id) \<lparr>d_data = [], d_hint = h, d_meta = None\<rparr> = Inr s"
  shows "durable_sim E req [] Map.empty t s [Map.empty]"
proof -
  note n = open_new [OF assms]
  have "headed s" using n(2-4) by (simp add: headed_def FORMAT_V1_def file_header_def MAGIC_def len_defs)
  moreover have "drop FILE_HEADER_LEN (i_file s) = []" using n(2) by (simp add: file_header_def MAGIC_def len_defs)
  ultimately have "logged E req [] Map.empty t s [Map.empty]"
    unfolding logged_def by (intro conjI exI [of _ "[]"]) simp_all
  with n(1) [of t] show ?thesis by (simp add: durable_sim_def ms_ok_def)
qed

text \<open>A state whose log stands for one of the maps of a history, cut and opened again.\<close>

lemma reopen_logged:
  assumes log: "logged E (o_require_encryption opts) [] Map.empty t s hs" and t: "t \<le> now"
    and n: "FILE_HEADER_LEN \<le> n" "n \<le> length (i_file s)"
  obtains m r where "m \<in> set hs" "n = length (i_file s) \<longrightarrow> at_time now m = at_time now (last hs)"
    "engine_open E opts now rid \<lparr>d_data = take n (i_file s), d_hint = None, d_meta = None\<rparr> = Inr r"
    "store_ok E r" "\<not> i_closed r" "no_unique r" "stored E r = at_time now m"
proof -
  obtain us where us: "drop FILE_HEADER_LEN (i_file s) = log_bytes (concat us)" 
      "list_all (list_all (good_rec E (o_require_encryption opts))) us" "list_all unit_ok us"
      "at_time t (log_state E Map.empty (concat us)) = at_time t (last hs)"
    and pre: "\<And>i. i \<le> length us \<Longrightarrow> \<exists>m \<in> set hs. at_time t (log_state E Map.empty (concat (take i us))) = at_time t m"
    and h: "headed s" using log by (auto simp: logged_def)
  define hdr where "hdr = take FILE_HEADER_LEN (i_file s)"
  let ?k = "n - FILE_HEADER_LEN"
  let ?d = "\<lparr>d_data = take n (i_file s), d_hint = None, d_meta = None\<rparr>"
  have split: "i_file s = hdr @ log_bytes (concat us)" using us(1) append_take_drop_id [of FILE_HEADER_LEN "i_file s"] by (simp add: hdr_def)
  have hl: "length hdr = FILE_HEADER_LEN" using n by (simp add: hdr_def)
  have k: "?k \<le> length (log_bytes (concat us))" using n hl split by simp
  obtain i where i: "i \<le> length us" "whole_units ?k us = take i us" using whole_units_take by blast
  have "\<exists>r. engine_open E opts now rid ?d = Inr r \<and> store_ok E r \<and>
      stored E r = at_time now (log_state E (state_of E hdr []) (concat (whole_units ?k us))) \<and>
      i_file r = hdr @ log_bytes (concat (whole_units ?k us)) \<and> i_file_id r = i_file_id s \<and> i_format r = i_format s \<and>
      i_sec r = [] \<and> \<not> i_closed r"
  proof (rule open_log)
    have "take n (hdr @ log_bytes (concat us)) = hdr @ take ?k (log_bytes (concat us))" using n(1) hl by simp
    then show "d_data ?d = hdr @ take ?k (log_bytes (concat us))" using split by simp
    show "parse_file_header (take FILE_HEADER_LEN hdr) = Inr (i_file_id s, i_format s)" using headed_parse [OF h] hl by (simp add: hdr_def)
    show "open_hint E opts (i_file_id s) ?d = ([], 0, length hdr)" using hl by (simp add: open_hint_def)
  qed (use us k hl in \<open>simp_all add: index_fine_def\<close>)
  then obtain r where r: "engine_open E opts now rid ?d = Inr r" "store_ok E r" "\<not> i_closed r" "i_sec r = []"
    "stored E r = at_time now (log_state E Map.empty (concat (take i us)))"
    by (auto simp: i(2) state_of_def [abs_def])
  obtain m where m: "m \<in> set hs" "at_time now (log_state E Map.empty (concat (take i us))) = at_time now m"
    using pre [OF i(1)] at_time_later_cong [OF t] by blast
  have "at_time now m = at_time now (last hs)" if "n = length (i_file s)"
  proof -
    have "whole_units ?k us = us" using that hl split by (intro whole_units_all) simp
    then show ?thesis using m(2) i(2) at_time_later_cong [OF t us(4)] by simp
  qed
  with m r show thesis by (intro that [of m r]) (simp_all add: no_unique_def)
qed


lemma demo_kept: "list_all (kept_ok demo_env (o_require_encryption demo_options)) (take 4 demo_calls)"
  using demo_calls_ok(1)
  by (simp add: demo_calls_def kept_ok_def valid_char_def expiry_to_ms_def) (simp add: demo_env_def)


end
