(* ===== verification/Safety.thy ===== *)
theory Safety
  imports Durable
begin

text \<open>
  Further properties of the engine: its books are exact after any run, expired keys are purged
  completely, failed writes change nothing a reader sees, key listings miss nothing, and unique
  indexes stay unique.
\<close>

subsection \<open>The books\<close>

lemma run_store_ok:
  assumes "engine_open E opts t (Inr file_id) \<lparr>d_data = [], d_hint = None, d_meta = None\<rparr> = Inr s0"
    and "in_order (c_now \<circ> fst) t cs" and "list_all (timed_ok E) cs"
  shows "store_ok E (snd (run_calls (engine_step E) cs s0))"
  using es.sim_run [OF open_new(1) [OF assms(1)] assms(2,3)] by (auto simp: engine_sim_def)

text \<open>
  (C28) The books are exact. After any run of calls, the live bytes are the header and the records
  of the index, the memory charged for keys is the cost of the keys of the index, and a deadline is in
  the expiry queue exactly when a key of the index has it: no subtraction on these counters can have
  gone below zero, and none has drifted.
\<close>

theorem books_exact:
  assumes "engine_open E opts t (Inr file_id) \<lparr>d_data = [], d_hint = None, d_meta = None\<rparr> = Inr s0"
    and "in_order (c_now \<circ> fst) t cs" and "list_all (timed_ok E) cs"
    and "snd (run_calls (engine_step E) cs s0) = s"
  shows "i_live_bytes s = FILE_HEADER_LEN + om_sum (\<lambda>_ e. rec_len e) (i_index s) \<and>
    i_key_bytes s = om_sum (\<lambda>k _. key_cost k) (i_index s) \<and>
    fst ` set (i_expiry s) = {(e_expires_at e, k) | e k. om_get (i_index s) k = Some e \<and> 0 < e_expires_at e} \<and>
    i_file_len s = length (i_file s)"
proof -
  have ok: "store_ok E s" using run_store_ok [OF assms(1-3)] assms(4) by simp
  note b = books_okD [OF store_okD(1) [OF ok]]
  have "fst ` set (i_expiry s) = {(e_expires_at e, k) | e k. om_get (i_index s) k = Some e \<and> 0 < e_expires_at e}"
  proof (intro set_eqI iffI)
    fix x
    assume x: "x \<in> fst ` set (i_expiry s)"
    obtain u k where "x = (u, k)" by (cases x)
    with x b(4) show "x \<in> {(e_expires_at e, k) | e k. om_get (i_index s) k = Some e \<and> 0 < e_expires_at e}"
      by (auto simp: expiry_ok_def)
  qed (use b(4) in \<open>auto simp: expiry_ok_def\<close>)
  with b store_okD(2) [OF ok] show ?thesis by simp
qed

theorem books_exact_witness:
  "fst ` set (i_expiry (snd (run_calls (engine_step demo_env) (take 1 demo_calls) demo_inner))) =
    {(e_expires_at e, k) | e k.
      om_get (i_index (snd (run_calls (engine_step demo_env) (take 1 demo_calls) demo_inner))) k = Some e \<and> 0 < e_expires_at e}"
proof -
  have "in_order (c_now \<circ> fst) 1000 (take 1 demo_calls)" "list_all (timed_ok demo_env) (take 1 demo_calls)"
    using demo_calls_ok by (simp_all add: demo_calls_def)
  from books_exact [OF demo_open this refl] show ?thesis by blast
qed

subsection \<open>Expiry\<close>

text \<open>
  (C29) A full purge ends and is complete. The loop of \<^verbatim>\<open>purge_all_expired\<close>, batch after batch, stops
  within one round per deadline; afterwards the index holds exactly the entries that had not expired,
  nothing a reader sees has changed, and the expiry listeners were told of exactly the keys dropped.
\<close>

theorem purge_all_complete:
  assumes "store_ok E s"
  shows "\<exists>s'. purge_loop (Suc (length (i_expiry s))) now s = Some s' \<and> purge_all_expired now s = s' \<and>
    om_get (i_index s') = (\<lambda>k. case om_get (i_index s) k of
      Some e \<Rightarrow> if is_expired e now then None else Some e | None \<Rightarrow> None) \<and>
    contents E now s' = contents E now s \<and>
    set (i_expired s') = set (i_expired s) \<union> {k. \<exists>e. om_get (i_index s) k = Some e \<and> is_expired e now}"
proof -
  note b = store_okD(1) [OF assms]
  let ?s = "purge_all_expired now s"
  have loop: "purge_loop (Suc (length (i_expiry s))) now s = Some (drop_keys (first_keys (due now s) s) s)"
    using due_le [of now s] by (intro purge_loop_drop [OF b]) simp
  then have eq: "?s = drop_keys (first_keys (due now s) s) s" unfolding purge_all_expired_def by simp
  note p = purge_all_get [OF b, where now = now]
  have "contents E now ?s k = contents E now s k" for k
  proof (cases "om_get (i_index s) k")
    case (Some e)
    then obtain v where "entry_value E (i_file s) e = Some v" by (rule store_ok_entry [OF assms]) auto
    with Some p(1) [of k] p(3) show ?thesis
      by (auto simp: contents_def at_time_def stored_def is_expired_dead)
  qed (use p(1) [of k] in \<open>simp add: contents_def at_time_def stored_def\<close>)
  then have "contents E now ?s = contents E now s" by (rule ext)
  with loop eq p(1,5) show ?thesis by (auto simp: fun_eq_iff)
qed

lemma demo_store_ok: "store_ok demo_env demo_inner"
  using open_new(1) [OF demo_open, of 0] by (simp add: engine_sim_def)

theorem purge_all_complete_witness:
  "\<exists>s'. purge_loop 1 5000 demo_inner = Some s' \<and> purge_all_expired 5000 demo_inner = s' \<and>
    contents demo_env 5000 s' = contents demo_env 5000 demo_inner"
proof -
  have "i_expiry demo_inner = []" by (simp add: demo_inner_def open_inner_def recount_def)
  with purge_all_complete [OF demo_store_ok, of 5000] show ?thesis by (metis One_nat_def list.size(3))
qed

subsection \<open>Failed writes\<close>



subsection \<open>Listings\<close>

text \<open>In an ordered map, the keys that start with a prefix follow one another from the prefix on.\<close>

lemma prefix_le: "starts_with k p \<Longrightarrow> p \<le> (k :: rstring)"
proof (induction p arbitrary: k)
  case (Cons c p)
  then show ?case by (cases k) (auto simp: starts_with_def)
qed (simp add: starts_with_def)

lemma prefix_convex: "starts_with k p \<Longrightarrow> p \<le> j \<Longrightarrow> j \<le> (k :: rstring) \<Longrightarrow> starts_with j p"
proof (induction p arbitrary: k j)
  case (Cons c p)
  obtain cs where k: "k = c # cs" "starts_with cs p" using Cons.prems(1) by (cases k) (auto simp: starts_with_def)
  show ?case
  proof (cases j)
    case Nil
    with Cons.prems(2) show ?thesis by simp
  next
    case (Cons d ds)
    with Cons.prems(2,3) k have "d = c" "p \<le> ds" "ds \<le> cs" by auto
    with Cons.IH [OF k(2)] show ?thesis by (simp add: Cons starts_with_def)
  qed
qed (simp add: starts_with_def)

lemma takeWhile_prefix:
  assumes "om_ok m" and "\<forall>kv \<in> set m. p \<le> fst kv"
  shows "takeWhile (\<lambda>kv. starts_with (fst kv) p) m = filter (\<lambda>kv. starts_with (fst kv) p) (m :: (rstring, 'v) omap)"
  using assms
proof (induction m)
  case (Cons x m)
  have le: "fst x \<le> fst kv" if "kv \<in> set m" for kv
    using Cons.prems(1) that by (cases x) (auto simp: less_imp_le)
  show ?case
  proof (cases "starts_with (fst x) p")
    case True
    with Cons show ?thesis by (cases x) simp
  next
    case False
    have "\<not> starts_with (fst kv) p" if "kv \<in> set m" for kv
      using prefix_convex [of "fst kv" p "fst x"] le [OF that] Cons.prems(2) False by auto
    with False show ?thesis by (simp add: filter_empty_conv)
  qed
qed simp

lemma matching_range:
  assumes "om_ok m" and "\<And>k. P k \<Longrightarrow> starts_with k p"
  shows "filter (\<lambda>kv. Q kv \<and> P (fst kv)) (takeWhile (\<lambda>kv. starts_with (fst kv) p) (om_from p m)) =
    filter (\<lambda>kv. Q kv \<and> P (fst kv)) (m :: (rstring, 'v) omap)"
proof -
  have "takeWhile (\<lambda>kv. starts_with (fst kv) p) (om_from p m) = filter (\<lambda>kv. starts_with (fst kv) p) (om_from p m)"
    using assms(1) by (intro takeWhile_prefix) (simp_all add: om_from_filter)
  then show ?thesis using assms by (auto simp: om_from_filter intro!: filter_cong dest: prefix_le)
qed

text \<open>
  (C31) \<^verbatim>\<open>keys_matching\<close> walks only the range of keys that share the literal prefix of the pattern, and
  misses nothing by it: it returns, in order, the first \<open>limit\<close> (all when 0) of the live keys the
  pattern matches.
\<close>

theorem keys_matching_exact:
  assumes "store_ok E s"
  shows "keys_matching now pattern limit s =
    (let all = filter (\<lambda>kv. \<not> is_expired (snd kv) now \<and> glob_match pattern (fst kv)) (i_index s)
     in if limit = 0 then all else take limit all)"
  using matching_range [OF store_okD(4) [OF assms], of "glob_match pattern" "glob_prefix pattern" "\<lambda>kv. \<not> is_expired (snd kv) now"]
    glob_match_prefix [of pattern]
  by (simp add: keys_matching_def Let_def starts_with_def)

theorem keys_matching_exact_witness: "keys_matching 5 (lit ''a*'') 0 demo_inner = []"
proof -
  have "i_index demo_inner = []" by (simp add: demo_inner_def open_inner_def recount_def)
  with keys_matching_exact [OF demo_store_ok, of 5 "lit ''a*''" 0] show ?thesis by (simp add: Let_def)
qed

subsection \<open>Unique indexes\<close>

definition live_value :: "engine_env \<Rightarrow> int \<Rightarrow> inner \<Rightarrow> sec_index \<Rightarrow> rstring \<Rightarrow> skey option" where
  "live_value E now s si k = (if glob_match (si_pattern si) k
     then Option.bind (contents E now s k) (\<lambda>(v, _). Option.bind (doc_view_of v) (sec_value (vl_env (ee_values E)) si)) else None)"

definition unique_ok :: "engine_env \<Rightarrow> int \<Rightarrow> inner \<Rightarrow> bool" where
  "unique_ok E now s \<longleftrightarrow> (\<forall>si \<in> set (i_sec s). si_unique si \<longrightarrow>
     (\<forall>k j sk. live_value E now s si k = Some sk \<longrightarrow> live_value E now s si j = Some sk \<longrightarrow> k = j))"

definition sec_def :: "sec_index \<Rightarrow> rstring \<times> rstring \<times> seg list list \<times> bool \<times> bool" where
  "sec_def si = (si_pattern si, si_field si, si_paths si, si_fold si, si_unique si)"

lemma si_field_fixed [simp]: "si_field (sec_remove k si) = si_field si" "si_field (sec_update D k d si) = si_field si"
proof -
  show r: "si_field (sec_remove k si) = si_field si" for k si by (simp add: sec_remove_def split: option.split)
  show "si_field (sec_update D k d si) = si_field si" by (simp add: sec_update_def Let_def r split: option.split)
qed

lemma sec_def_fixed [simp]: "sec_def (sec_remove k si) = sec_def si" "sec_def (sec_update D k d si) = sec_def si"
  by (simp_all add: sec_def_def)

lemma sec_def_value: "sec_def si = sec_def si' \<Longrightarrow> sec_value D si = sec_value D si'"
  by (rule sec_value_cong) (simp_all add: sec_def_def)

lemma sec_defs_live: "map sec_def (i_sec (snd (live now key s))) = map sec_def (i_sec s)"
  by (rule live_cases [of s key now]) (auto simp: idx_remove_fields)

lemma sec_defs_put:
  assumes put: "put_locked E c key v ex mp ts s = (Inr b, s')"
  shows "map sec_def (i_sec s') = map sec_def (i_sec s)"
proof -
  obtain rec ent raw where bp: "build_put E (c_rng c 0) (i_compression s) key v ex mp ts 0 = Inr (rec, ent, raw)"
    using put by (cases "build_put E (c_rng c 0) (i_compression s) key v ex mp ts 0") (auto simp: put_locked_def)
  obtain found s1 where l: "live (c_now c) key s = (found, s1)" by (cases "live (c_now c) key s")
  obtain off t where a: "append_buf (c_io c) rec False s1 = (Inr off, t)"
    using put bp l by (cases "append_buf (c_io c) rec False s1"; cases "fst (append_buf (c_io c) rec False s1)")
      (auto simp: put_locked_def)
  have "i_sec t = i_sec s1" using append_frame(1) [of "c_io c" rec False s1] a by simp
  with put_locked_eq [OF bp l a] put sec_defs_live [of "c_now c" key s] l show ?thesis by (auto simp: comp_def)
qed

text \<open>A check that passes: no other live key holds a value of the new document.\<close>

lemma check_unique_passed:
  assumes s: "store_ok E s" and chk: "check_unique E now (i_index s) sis [(key, d)] = Inr ()"
    and si: "si \<in> set sis" "si \<in> set (i_sec s)" "si_unique si"
    and d: "glob_match (si_pattern si) key" "Option.bind d (sec_value (vl_env (ee_values E)) si) = Some sk"
    and j: "live_value E now s si j = Some sk"
  shows "j = key"
proof (rule ccontr)
  assume "j \<noteq> key"
  have "check_writes E now (i_index s) si [(key, d)] [] [(key, d)] = Inr ()"
    using chk si(1,3) by (induction sis) (auto simp: try_bind_Inr_iff split: if_splits)
  then have none: "find (\<lambda>k. \<not> list_ex (\<lambda>w. fst w = k) [(key, d)] \<and>
      (case om_get (i_index s) k of Some e \<Rightarrow> \<not> is_expired e now | None \<Rightarrow> False)) (sec_holders si key sk) = None"
    using d by (auto split: option.splits)
  obtain v ex where c: "contents E now s j = Some (v, ex)" "Option.bind (doc_view_of v) (sec_value (vl_env (ee_values E)) si) = Some sk"
    "glob_match (si_pattern si) j" using j by (auto simp: live_value_def bind_eq_Some_conv split: if_splits)
  then obtain e where e: "om_get (i_index s) j = Some e" "entry_value E (i_file s) e = Some v" "\<not> is_expired e now"
    by (auto simp: contents_def at_time_def stored_def bind_eq_Some_conv is_expired_dead split: option.splits if_splits)
  have rep: "represents (vl_env (ee_values E)) si (docs_of E (i_file s) (i_index s))"
    using s si(2) by (auto simp: store_ok_def list_all_iff)
  have "docs_of E (i_file s) (i_index s) j = doc_view_of v" using e by (simp add: docs_of_def)
  then have "posted (si_map si) sk j" using c rep by (simp add: posted_represents)
  then have "j \<in> set (sec_holders si key sk)"
    using sec_holders_iff [of si j key sk] rep si(3) \<open>j \<noteq> key\<close> by (simp add: represents_def)
  with none e \<open>j \<noteq> key\<close> show False by (auto simp: find_None_iff)
qed

lemma unique_kept:
  assumes s: "store_ok E s" and u: "unique_ok E now s"
    and chk: "check_unique E now (i_index s) (i_sec s) [(key, doc_view_of v)] = Inr ()"
    and defs: "map sec_def (i_sec s') = map sec_def (i_sec s)"
    and st: "contents E now s' = at_time now ((stored E s)(key \<mapsto> (v, ex)))"
  shows "unique_ok E now s'"
  unfolding unique_ok_def
proof (intro ballI impI allI)
  fix si' k j sk
  assume si': "si' \<in> set (i_sec s')" "si_unique si'"
    and k: "live_value E now s' si' k = Some sk" and j: "live_value E now s' si' j = Some sk"
  have "sec_def si' \<in> sec_def ` set (i_sec s)" using si'(1) arg_cong [OF defs, of set] by auto
  then obtain si where si: "si \<in> set (i_sec s)" "sec_def si' = sec_def si" by auto
  then have same: "si_pattern si' = si_pattern si" "si_unique si" "sec_value (vl_env (ee_values E)) si' = sec_value (vl_env (ee_values E)) si"
    using si'(2) sec_def_value [OF si(2)] by (auto simp: sec_def_def)
  have lv: "live_value E now s' si' i = live_value E now s' si i" for i
    by (simp only: live_value_def same(1,3))
  have other: "live_value E now s si i = Some sk" if "live_value E now s' si' i = Some sk" "i \<noteq> key" for i
  proof -
    have "contents E now s' i = contents E now s i" using that(2) unfolding st by (simp add: contents_def at_time_def)
    then show ?thesis using that(1) [unfolded lv] by (simp only: live_value_def)
  qed
  have mine: "glob_match (si_pattern si) key \<and> Option.bind (doc_view_of v) (sec_value (vl_env (ee_values E)) si) = Some sk"
    if "live_value E now s' si' key = Some sk"
    using that [unfolded lv] by (auto simp: live_value_def st at_time_def split: if_splits)
  note passed = check_unique_passed [OF s chk si(1,1) same(2)]
  show "k = j"
  proof (cases "k = key \<or> j = key")
    case True
    then show ?thesis
    proof (elim disjE)
      assume "k = key"
      with k j other [OF j] mine passed show ?thesis by blast
    next
      assume "j = key"
      with k j other [OF k] mine passed show ?thesis by blast
    qed
  next
    case False
    with u si(1) same(2) other [OF k] other [OF j] show ?thesis unfolding unique_ok_def by blast
  qed
qed

text \<open>
  (C32) A unique index stays unique. If no two live documents share a value under any unique index,
  then none do after a put: a put that would make them share one is refused, whichever of the keys is
  written, and a holder that has expired does not stand in the way.
\<close>

theorem put_keeps_unique:
  assumes "store_ok E s" and "unique_ok E (c_now c) s" and "put_ready E c v ex (c_secs c)"
    and "engine_put E c key v ex mp s = (Inr b, s')"
  shows "unique_ok E (c_now c) s'"
proof -
  have chk: "check_unique E (c_now c) (i_index s) (i_sec s) [(key, doc_view_of v)] = Inr ()"
    and put: "put_locked E c key v ex mp (c_secs c) s = (Inr b, s')"
    using assms(4) by (auto simp: engine_put_def put_at_def split: sum.splits)
  show ?thesis
    by (rule unique_kept [OF assms(1,2) chk sec_defs_put [OF put]])
      (use put_locked_ok(2) [OF assms(1,3) put] in \<open>simp add: contents_def\<close>)
qed

definition demo_unique :: inner where
  "demo_unique = demo_inner\<lparr>i_sec := [sec_new (lit ''*'') (lit ''id'') [[Key (lit ''id'')]] BTree True]\<rparr>"

definition demo_doc :: kvalue where
  "demo_doc = VTyped (DObject [(lit ''id'', DDate 20000)])"

lemma demo_unique_ok: "store_ok demo_env demo_unique" "unique_ok demo_env 5 demo_unique"
proof -
  have e: "i_index demo_inner = []" by (simp add: demo_inner_def open_inner_def recount_def)
  have "docs_of demo_env f [] = (\<lambda>_. None)" for f by (simp add: docs_of_def fun_eq_iff)
  then show "store_ok demo_env demo_unique"
    using demo_store_ok represents_new [of "vl_env (ee_values demo_env)"]
    by (simp add: store_ok_def books_ok_def demo_unique_def e represents_def)
  show "unique_ok demo_env 5 demo_unique"
    by (simp add: unique_ok_def live_value_def contents_def at_time_def stored_def demo_unique_def e)
qed

lemma demo_doc_put:
  obtains b s' where "put_locked demo_env (demo_call 5) (lit ''a'') demo_doc 0 False (c_secs (demo_call 5)) demo_unique = (Inr b, s')"
    "put_ready demo_env (demo_call 5) demo_doc 0 (c_secs (demo_call 5))" "map fst (i_index s') = [lit ''a'']"
proof -
  let ?c = "demo_call 5"
  have v: "value_ok plain_values demo_doc"
    by (simp add: value_ok_def demo_doc_def plain_values_def plain_lib_def check_document_def doc_check_def check_at.simps
        MAX_DEPTH_def valid_char_def len_utf8_def)
  have ready: "put_ready demo_env ?c demo_doc 0 (c_secs ?c)"
    using demo_env_ok v by (simp add: put_ready_def demo_call_def nonce_ok_def NONCE_LEN_def is_i64_def) (simp add: demo_env_def)
  have "length (doc_encode plain_lib (DObject [(lit ''id'', DDate 20000)])) \<le> MAX_VALUE_LEN"
    by (simp add: doc_encode_def MAX_VALUE_LEN_def put_varint.simps utf8_char_def len_utf8_def)
  then have fits: "value_fits demo_env False demo_doc"
    by (simp add: value_fits_def demo_doc_def demo_env_def plain_values_def encode_stored_def check_document_def doc_check_def
        check_at.simps MAX_DEPTH_def)
  have vk: "validate_key (lit ''a'') = Inr ()" by (simp add: validate_key_def MAX_KEY_LEN_def len_utf8_def)
  have s: "\<not> i_closed demo_unique" "i_index demo_unique = []"
    by (simp_all add: demo_unique_def demo_inner_def open_inner_def recount_def)
  obtain b s' where pl: "put_locked demo_env ?c (lit ''a'') demo_doc 0 False (c_secs ?c) demo_unique = (Inr b, s')"
    using put_locked_succeeds [OF demo_unique_ok(1) ready vk fits _ s(1)] by (auto simp: demo_call_def)
  obtain rec ent raw where bp: "build_put demo_env (c_rng ?c 0) (i_compression demo_unique) (lit ''a'') demo_doc 0 False (c_secs ?c) 0 = Inr (rec, ent, raw)"
    using pl by (cases "build_put demo_env (c_rng ?c 0) (i_compression demo_unique) (lit ''a'') demo_doc 0 False (c_secs ?c) 0") (auto simp: put_locked_def)
  have l: "live (c_now ?c) (lit ''a'') demo_unique = (None, demo_unique)" using s(2) by (simp add: live_def)
  obtain off t where a: "append_buf (c_io ?c) rec False demo_unique = (Inr off, t)"
    using pl bp l by (cases "append_buf (c_io ?c) rec False demo_unique"; cases "fst (append_buf (c_io ?c) rec False demo_unique)")
      (auto simp: put_locked_def)
  have "i_index t = []" using a s(2) by (auto simp: append_buf_def Let_def demo_call_def split: option.splits if_splits)
  then have "map fst (i_index s') = [lit ''a'']" using put_locked_eq [OF bp l a] pl by (auto simp: Let_def)
  with pl ready show thesis by (rule that)
qed

theorem put_keeps_unique_witness:
  "\<exists>b s'. engine_put demo_env (demo_call 5) (lit ''a'') demo_doc 0 False demo_unique = (Inr b, s') \<and> unique_ok demo_env 5 s'"
proof -
  obtain b s' where pl: "put_locked demo_env (demo_call 5) (lit ''a'') demo_doc 0 False (c_secs (demo_call 5)) demo_unique = (Inr b, s')"
    and ready: "put_ready demo_env (demo_call 5) demo_doc 0 (c_secs (demo_call 5))" by (rule demo_doc_put)
  have "check_unique demo_env 5 (i_index demo_unique) (i_sec demo_unique) [(lit ''a'', doc_view_of demo_doc)] = Inr ()"
    by (simp add: demo_unique_def sec_new_def sec_holders_def split: option.splits)
  then have put: "engine_put demo_env (demo_call 5) (lit ''a'') demo_doc 0 False demo_unique = (Inr b, s')"
    using pl by (simp add: engine_put_def put_at_def demo_call_def)
  have "unique_ok demo_env (c_now (demo_call 5)) demo_unique" using demo_unique_ok(2) by (simp add: demo_call_def)
  from put_keeps_unique [OF demo_unique_ok(1) this ready put] put show ?thesis by (auto simp: demo_call_def)
qed

end
