(* ===== verification/BatchKeys.thy ===== *)
theory BatchKeys
  imports Refine
begin

text \<open>
  Batches under encryption. \<^verbatim>\<open>apply_batch_watched\<close> marks its last record as the commit by changing the
  flags byte of the encoded record (\<^verbatim>\<open>last[11] |= FLAG_TXN_COMMIT\<close>). In an encrypted workspace this byte
  is authenticated together with the sealed body, so the record no longer opens.
\<close>

text \<open>What AES-GCM promises of a changed byte of the associated data.\<close>

definition aead_binds :: "aead \<Rightarrow> bool" where
  "aead_binds A \<longleftrightarrow> (\<forall>k n a d i b. i < length a \<longrightarrow> b \<noteq> a ! i \<longrightarrow>
     aead_open A k n (a[i := b]) (snd (aead_seal A k n a d)) (fst (aead_seal A k n a d)) = None)"

lemma seal_changed_head:
  assumes "aead_ok A" and "aead_binds A" and "seal A ks (Inr nonce) d extra data = Inr sealed"
    and "length nonce = NONCE_LEN" and "length (key_id (current ks)) = 4"
    and "i < length extra" and "b \<noteq> extra ! i"
  shows "open_with A (Some ks) d (extra[i := b]) sealed = Inl Tampered"
proof -
  let ?kid = "key_id (current ks)"
  let ?a = "aad d extra ?kid"
  obtain ct tag where e: "aead_seal A (key_data (current ks)) nonce ?a data = (ct, tag)" by (metis surj_pair)
  have l: "length ct = length data" "length tag = 16"
    using assms(1) [unfolded aead_ok_def, rule_format, of "key_data (current ks)" nonce ?a data] e by (simp_all add: crypt_lens)
  have "aad d (extra[i := b]) ?kid = ?a[length (label d) + i := b]" "?a ! (length (label d) + i) = extra ! i"
    "length (label d) + i < length ?a"
    using assms(6) by (simp_all add: aad_def list_update_append nth_append)
  then have o: "aead_open A (key_data (current ks)) nonce (aad d (extra[i := b]) ?kid) tag ct = None"
    using assms(2) [unfolded aead_binds_def, rule_format, of "length (label d) + i" ?a b "key_data (current ks)" nonce data]
      assms(7) e by simp
  have "sealed = ct @ tag @ nonce @ ?kid"
    using assms(3) e by (simp add: seal_def Let_def)
  then show ?thesis using assms(4,5) l o by (simp add: open_with_def crypt_lens Let_def)
qed

lemma flags_no_commit: "f AND FLAG_TXN_COMMIT = 0 \<Longrightarrow> f OR FLAG_TXN_COMMIT \<noteq> (f :: u8)"
proof
  assume f: "f AND FLAG_TXN_COMMIT = 0" "f OR FLAG_TXN_COMMIT = f"
  have "(f OR FLAG_TXN_COMMIT) AND FLAG_TXN_COMMIT = FLAG_TXN_COMMIT" by (rule bit_eqI) (auto simp: bit_simps)
  with f commit_apart(7) show False by simp
qed

lemma open_record_marked:
  assumes "crypt_encode_record A crc (Some ks) (Inr nonce) key v ty flags ts ex = Inr rec"
    and "aead_ok A" and "aead_binds A" and "length nonce = NONCE_LEN" and "length (key_id (current ks)) = 4"
    and "flags AND FLAG_TXN_COMMIT = 0"
  shows "open_record A (Some ks) (mark_commit crc rec) = Inl Tampered"
proof -
  let ?h = "crypt_head (Some ks) key v ty flags ts ex" and ?f = "stored_flags (Some ks) flags"
  obtain body where rec: "rec = le_bytes 4 (crc (?h @ body)) @ ?h @ body"
    and sealed: "crypt_sealed A (Some ks) (Inr nonce) ?h (as_bytes key @ v) body"
    by (rule crypt_encode_shape [OF assms(1)])
  have s: "seal A ks (Inr nonce) DRecord ?h (as_bytes key @ v) = Inr body" using sealed by (simp add: crypt_sealed_def)
  have h7: "?h ! 7 = ?f" by (simp add: crypt_head_def nth_append)
  have "?f AND FLAG_TXN_COMMIT = 0" using assms(6) by (simp add: stored_flags_and flag_defs)
  then have ne: "?f OR FLAG_TXN_COMMIT \<noteq> ?h ! 7" using flags_no_commit h7 by simp
  let ?m = "mark_commit crc rec"
  have len: "REC_HEADER_LEN \<le> length rec" by (simp add: rec len_defs)
  have d4: "drop 4 ?m = ?h[7 := ?f OR FLAG_TXN_COMMIT] @ body"
    by (simp add: mark_commit_def rec Let_def list_update_append nth_append h7)
  then have "take (REC_HEADER_LEN - 4) (drop 4 ?m) = ?h[7 := ?f OR FLAG_TXN_COMMIT]"
    by (simp add: len_defs)
  moreover have "drop REC_HEADER_LEN ?m = body"
  proof -
    have "drop REC_HEADER_LEN ?m = drop 24 (drop 4 ?m)" by (simp add: len_defs)
    then show ?thesis by (simp only: d4) simp
  qed
  moreover have "h_flags (parse_header ?m) AND FLAG_ENCRYPTED \<noteq> 0"
    using parse_header_mark [OF len, of crc] by (simp add: commit_flags parse_header_def rec nth_append h7 stored_flags_encrypted)
  moreover have "open_with A (Some ks) DRecord (?h[7 := ?f OR FLAG_TXN_COMMIT]) body = Inl Tampered"
    by (rule seal_changed_head [OF assms(2,3) s assms(4,5) _ ne]) simp
  ultimately show ?thesis by (simp add: open_record_def Let_def try_bind_def)
qed

lemma scan_record_marked:
  assumes "is_frame rec" and "open_record A ks (mark_commit crc rec) = Inl Tampered"
    and "h_flags (parse_header rec) AND FLAG_ENCRYPTED \<noteq> 0"
  shows "scan_record A crc ks req pos (mark_commit crc rec) = Inr None"
  using assms(2,3) parse_header_mark [OF is_frameD(1) [OF assms(1)], of crc]
  by (simp add: scan_record_def scan_opened_def commit_flags)

lemma cache_forgotten:
  assumes "cache_ok c"
  shows "fst (cache_get key n (cache_remove key c)) = None"
  using vc.lookup_has [of key n "cache_remove key c"] vc.has_forget [OF assms, of key key n]
  by (cases "fst (cache_get key n (cache_remove key c))") auto

lemma read_value_tampered:
  assumes "read_at (i_file s) (e_offset e) (rec_len e) = Some rec" and "verify_record (ee_crc E) rec"
    and "open_record (ee_aead E) (ee_keys E) rec = Inl Tampered"
  shows "fst (read_value E e s) = Inl (Corrupted ''fails authentication'')"
  using assms by (simp add: read_value_def read_raw_def read_record_def)

lemma get_tampered:
  assumes "om_get (i_index s) key = Some e" and "\<not> is_expired e (c_now c)"
    and "fst (cache_get key (e_version e) (i_cache s)) = None"
    and "\<And>t. i_file t = i_file s \<Longrightarrow> fst (read_value E e t) = Inl err"
  shows "fst (engine_get E c key s) = Inl err"
proof -
  obtain ca where ca: "cache_get key (e_version e) (i_cache s) = (None, ca)" using assms(3) by (metis prod.collapse)
  obtain t where "read_value E e (s\<lparr>i_cache := ca\<rparr>) = (Inl err, t)"
    using assms(4) [of "s\<lparr>i_cache := ca\<rparr>"] by (cases "read_value E e (s\<lparr>i_cache := ca\<rparr>)") simp
  with assms(1,2) ca show ?thesis by (simp add: engine_get_def live_def value_of_def)
qed

lemma live_pinned: "is_pinned (i_cache (snd (live now key s))) = is_pinned (i_cache s)"
  by (rule live_cases [of s key now]) (simp_all add: fun_eq_iff is_pinned_def idx_remove_fields)

lemma pinned_remove [simp]: "is_pinned (cache_remove k c) = is_pinned c"
  by (simp add: fun_eq_iff is_pinned_def)

text \<open>The record of a batch with one put, as it is appended.\<close>

lemma put_record_marked:
  assumes "build_put E rng algo key v ex mp ts FLAG_TXN = Inr (rec, ent, raw)"
    and "env_ok E" and "aead_binds (ee_aead E)" and "ee_keys E = Some ks" and "nonce_ok rng"
    and "value_ok (ee_values E) v" and "is_i64 ts" and "is_i64 ex"
  defines "m \<equiv> mark_commit (ee_crc E) rec"
  shows "is_frame m" and "verify_record (ee_crc E) m" and "length m = rec_len ent"
    and "open_record (ee_aead E) (ee_keys E) m = Inl Tampered"
    and "scan_record (ee_aead E) (ee_crc E) (ee_keys E) req pos m = Inr None"
proof -
  obtain nonce where n: "rng = Inr nonce" "length nonce = NONCE_LEN" using nonce_okD [OF assms(5)] by blast
  note be = build_put_entry [OF assms(1,2,5,6) _ assms(7,8), simplified]
  have A: "aead_ok (ee_aead E)" "length (key_id (current ks)) = 4" using assms(2,4) by (simp_all add: env_ok_def can_open_def)
  note len = is_frameD(1) [OF be(3)]
  obtain raw' de where enc: "encode_stored (ee_values E) (mp \<and> is_doc (value_ty v)) v = Inr (raw', de)"
    and rec: "crypt_encode_record (ee_aead E) (ee_crc E) (ee_keys E) (Inr nonce) key (fst (pack (ee_codec E) raw' algo))
      (type_u8 (value_ty v)) (snd (pack (ee_codec E) raw' algo) OR FLAG_TXN OR doc_enc_flags de) ts ex = Inr rec"
    using assms(1) n(1) by (auto simp: build_put_def try_bind_Inr_iff engine_encode_def Let_def split: if_splits prod.splits)
  note pf = put_flags [OF pack_flag_set [of "ee_codec E" raw' algo], of FLAG_TXN de, simplified]
  show o: "open_record (ee_aead E) (ee_keys E) m = Inl Tampered"
    unfolding m_def assms(4) by (rule open_record_marked [OF rec [unfolded assms(4)] A(1) assms(3) n(2) A(2) pf(6)])
  show "is_frame m" unfolding m_def by (rule is_frame_mark [OF be(3)])
  show "length m = rec_len ent" using len be(2) by (simp add: m_def len_defs)
  have "verify_record (ee_crc E) rec" using be(1) [of "[]" "[]"] be(2)
    by (auto simp: entry_value_def read_at_def split: if_splits)
  then show "verify_record (ee_crc E) m"
    using len parse_header_mark [OF len, of "ee_crc E"] by (simp add: m_def verify_record_def total_len_def len_defs Let_def)
  have "h_flags (parse_header rec) AND FLAG_ENCRYPTED \<noteq> 0"
    by (rule build_put_facts [OF assms(1,2,5,6) _ assms(7,8)])
      (simp_all add: assms(4) stored_flags_encrypted)
  then show "scan_record (ee_aead E) (ee_crc E) (ee_keys E) req pos m = Inr None"
    unfolding m_def by (rule scan_record_marked [OF be(3) o [unfolded m_def]])
qed


text \<open>An AEAD that opens what it sealed and refuses a changed byte of the associated data: its tag is
  the sum of the associated data.\<close>

definition sum_aead :: aead where
  "sum_aead =
     \<lparr>aead_seal = (\<lambda>k n a d. (d, replicate 16 (sum_list a))),
      aead_open = (\<lambda>k n a t c. if t = replicate 16 (sum_list a) then Some c else None)\<rparr>"

lemma sum_list_changed:
  fixes b :: u8
  assumes "i < length a" and "b \<noteq> a ! i"
  shows "sum_list (a[i := b]) \<noteq> sum_list a"
proof -
  have "sum_list (a[i := b]) + a ! i = sum_list a + b"
    using assms(1) by (induction a arbitrary: i) (auto simp: algebra_simps split: nat.splits)
  with assms(2) show ?thesis by auto
qed

lemma sum_aead_ok: "aead_ok sum_aead" "aead_binds sum_aead"
  by (auto simp: aead_ok_def aead_binds_def sum_aead_def crypt_lens dest: sum_list_changed [THEN not_sym])

definition sealed_env :: engine_env where
  "sealed_env = demo_env\<lparr>ee_aead := sum_aead\<rparr>"


end
