(* ===== verification/Frame.thy ===== *)
theory Frame
  imports Refine
begin

text \<open>
  What calls leave alone, as a relation between the states before and after (\<open>guarded\<close>). It is what
  code relies on that works on the engine in several steps, letting other calls run between: optimistic
  transactions and compaction.
\<close>

subsection \<open>What a call does to the versions\<close>

text \<open>
  \<open>guarded n s s'\<close>: going from \<open>s\<close> to \<open>s'\<close>, the file has only grown and what could be read from it reads
  alike; entries are those of \<open>s\<close> or lie at \<open>n\<close> or above in the file; and while a transaction or a watch
  is open, every key has got a version above the sequence number of \<open>s\<close>, or is absent, or has kept its
  entry and its version.
\<close>

definition guarded :: "nat \<Rightarrow> inner \<Rightarrow> inner \<Rightarrow> bool" where
  "guarded n s s' \<longleftrightarrow> i_active_txns s' = i_active_txns s \<and> i_seq s \<le> i_seq s' \<and> i_reset_seq s' = i_reset_seq s \<and>
     i_file_id s' = i_file_id s \<and> length (i_file s) \<le> length (i_file s') \<and>
     (\<forall>off m rec. FILE_HEADER_LEN \<le> off \<longrightarrow> read_at (i_file s) off m = Some rec \<longrightarrow> read_at (i_file s') off m = Some rec) \<and>
     (\<forall>k e. om_get (i_index s') k = Some e \<longrightarrow> om_get (i_index s) k = Some e \<or> n \<le> e_offset e) \<and>
     (0 < i_active_txns s \<longrightarrow> (\<forall>k. i_seq s < key_version s' k \<or> om_get (i_index s') k = None \<or>
        key_version s' k = key_version s k \<and> om_get (i_index s') k = om_get (i_index s) k))"

lemma guarded_refl [simp]: "guarded n s s" by (simp add: guarded_def)

lemma guardedD:
  assumes "guarded n s s'"
  shows "FILE_HEADER_LEN \<le> off \<Longrightarrow> read_at (i_file s) off m = Some rec \<Longrightarrow> read_at (i_file s') off m = Some rec"
    and "om_get (i_index s') k = Some e \<Longrightarrow> om_get (i_index s) k = Some e \<or> n \<le> e_offset e"
    and "0 < i_active_txns s \<Longrightarrow> i_seq s < key_version s' k \<or> om_get (i_index s') k = None \<or>
      key_version s' k = key_version s k \<and> om_get (i_index s') k = om_get (i_index s) k"
    and "i_file_id s' = i_file_id s" and "length (i_file s) \<le> length (i_file s')" and "i_seq s \<le> i_seq s'"
  using assms by (simp_all add: guarded_def)

lemma guarded_trans:
  assumes "guarded n s t" and "guarded n t u"
  shows "guarded n s u"
proof -
  have "i_seq s < key_version u k \<or> om_get (i_index u) k = None \<or>
      key_version u k = key_version s k \<and> om_get (i_index u) k = om_get (i_index s) k" if act: "0 < i_active_txns s" for k
  proof -
    have "0 < i_active_txns t" using assms(1) act by (simp add: guarded_def)
    with guardedD(3) [OF assms(1) act, of k] guardedD(3) [OF assms(2), of k] guardedD(6) [OF assms(1)] show ?thesis by auto
  qed
  moreover have "om_get (i_index s) k = Some e \<or> n \<le> e_offset e" if "om_get (i_index u) k = Some e" for k e
    using guardedD(2) [OF assms(2) that] guardedD(2) [OF assms(1)] by blast
  ultimately show ?thesis using assms unfolding guarded_def by simp
qed

lemma key_version_cong: "i_index t = i_index s \<Longrightarrow> i_tomb_versions t = i_tomb_versions s \<Longrightarrow> key_version t = key_version s"
  by (simp add: fun_eq_iff key_version_def cong: option.case_cong)

lemma guarded_same:
  assumes "i_active_txns t = i_active_txns s" and "i_seq s \<le> i_seq t" and "i_reset_seq t = i_reset_seq s"
    and "i_index t = i_index s" and "i_tomb_versions t = i_tomb_versions s" and "i_file t = i_file s"
    and "i_file_id t = i_file_id s"
  shows "guarded n s t"
  using assms key_version_cong [OF assms(4,5)] by (simp add: guarded_def)

lemma guarded_file:
  assumes "header_written (i_file s) f" and "FILE_HEADER_LEN \<le> length (i_file s)" and "i_file t = f @ buf"
    and "i_active_txns t = i_active_txns s" and "i_seq s \<le> i_seq t" and "i_reset_seq t = i_reset_seq s"
    and "i_index t = i_index s" and "i_tomb_versions t = i_tomb_versions s" and "i_file_id t = i_file_id s"
  shows "guarded n s t"
  using assms(3-9) key_version_cong [OF assms(7,8)] header_written_facts(1,3) [OF assms(1,2)]
  by (simp add: guarded_def read_at_append)

lemma guarded_remove:
  assumes "om_ok (i_index s)"
  shows "guarded n s (tell_expired key (snd (idx_remove key s)))"
  using assms
  by (cases "om_get (i_index s) key")
    (auto simp: guarded_def tell_expired_def idx_remove_def key_version_def cong: option.case_cong)

lemma guarded_live:
  assumes "om_ok (i_index s)"
  shows "guarded n s (snd (live now key s))"
  by (rule live_cases [of s key now]) (use guarded_remove [OF assms] in simp_all)

lemma guarded_put_entry:
  assumes "om_ok (i_index s)" and "e_version e = i_seq s + 1" and "n \<le> e_offset e"
  shows "guarded n s (put_entry E key v e raw (s\<lparr>i_seq := i_seq s + 1\<rparr>))"
  using assms by (auto simp: guarded_def key_version_def cong: option.case_cong)

lemma drop_entry_tombs:
  "i_tomb_versions (drop_entry key s) =
    (if i_active_txns s > 0 then om_insert key (i_seq s + 1) (i_tomb_versions s) else i_tomb_versions s)"
  by (simp add: drop_entry_def Let_def)

lemma guarded_drop_entry:
  assumes "om_ok (i_index s)"
  shows "guarded n s (drop_entry key s)"
  using assms by (auto simp: guarded_def key_version_def drop_entry_tombs cong: option.case_cong)

lemma guarded_value_of: "guarded n s (snd (value_of E key e s))"
  by (auto simp: value_of_def read_value_def read_raw_def read_record_def intro!: guarded_same
      split: prod.splits option.splits sum.splits if_splits)

text \<open>An append that succeeds or fails, and the event and counters after a write.\<close>

lemma guarded_append:
  assumes "store_ok E s"
  shows "guarded n s (snd (append_buf io buf sync s))"
  by (rule append_cases [OF assms, of io buf sync])
    (auto intro: guarded_file [OF _ store_okD(3) [OF assms], where buf = buf]
       guarded_file [OF _ store_okD(3) [OF assms], where buf = "[]"])

lemma guarded_event: "guarded n w (emit o_p (w\<lparr>i_dirty_ops := d\<rparr>))" by (rule guarded_same) (simp_all add: emit_def)

lemma guarded_put_locked:
  assumes "store_ok E s" and n: "n \<le> length (i_file s)"
  shows "guarded n s (snd (put_locked E c key v ex mp ts s))"
proof (cases "build_put E (c_rng c 0) (i_compression s) key v ex mp ts 0")
  case (Inl err)
  then show ?thesis by (simp add: put_locked_def)
next
  case (Inr x)
  then obtain rec ent raw where bp: "build_put E (c_rng c 0) (i_compression s) key v ex mp ts 0 = Inr (rec, ent, raw)"
    by (cases x) auto
  obtain found s1 where l: "live (c_now c) key s = (found, s1)" by (cases "live (c_now c) key s")
  have s1: "store_ok E s1" "guarded n s s1"
    using store_ok_live(1) [OF assms(1), of "c_now c" key] guarded_live [OF store_okD(4) [OF assms(1)], of n "c_now c" key] l by simp_all
  obtain r t where a: "append_buf (c_io c) rec False s1 = (r, t)" by (cases "append_buf (c_io c) rec False s1")
  have t: "guarded n s t" using guarded_append [OF s1(1), of n "c_io c" rec False] a guarded_trans [OF s1(2)] by simp
  show ?thesis
  proof (cases r)
    case (Inl err)
    with bp l a t show ?thesis by (simp add: put_locked_def)
  next
    case r: (Inr off)
    have "om_ok (i_index t)" "n \<le> off"
      by (rule append_cases [OF s1(1), of "c_io c" rec False]; use a r store_okD(4) [OF s1(1)] guardedD(5) [OF s1(2)] n in auto)+
    note eq = put_locked_eq [OF bp l a [unfolded r]]
    let ?u = "journal_list E c [put_change key v raw (ent\<lparr>e_offset := off\<rparr>) ts ex (found = None) (off + length rec)] False t"
    let ?w = "put_entry E key v (ent\<lparr>e_offset := off, e_version := i_seq ?u + 1\<rparr>) raw (?u\<lparr>i_seq := i_seq ?u + 1\<rparr>)"
    have w: "guarded n ?u ?w" by (rule guarded_put_entry) (use \<open>om_ok (i_index t)\<close> \<open>n \<le> off\<close> in simp_all)
    have u: "guarded n t ?u" by (rule guarded_same) simp_all
    show ?thesis unfolding eq snd_conv
      by (rule guarded_trans [OF t guarded_trans [OF u guarded_trans [OF w guarded_event]]])
  qed
qed

lemma guarded_delete:
  assumes "store_ok E s"
  shows "guarded n s (snd (engine_delete E c key s))"
proof -
  obtain found s1 where l: "live (c_now c) key s = (found, s1)" by (cases "live (c_now c) key s")
  have s1: "store_ok E s1" "guarded n s s1"
    using store_ok_live(1) [OF assms(1), of "c_now c" key] guarded_live [OF store_okD(4) [OF assms(1)], of n "c_now c" key] l by simp_all
  show ?thesis
  proof (cases "found = None \<or> (\<exists>err. engine_encode E (c_rng c 0) key [] 0 FLAG_TOMBSTONE (c_secs c) 0 = Inl err)")
    case True
    with l s1 show ?thesis by (auto simp: engine_delete_def split: option.splits)
  next
    case False
    then obtain e rec where e: "found = Some e" and rec: "engine_encode E (c_rng c 0) key [] 0 FLAG_TOMBSTONE (c_secs c) 0 = Inr rec"
      by (metis option.exhaust sum.exhaust)
    obtain r t where a: "append_buf (c_io c) rec False s1 = (r, t)" by (cases "append_buf (c_io c) rec False s1")
    have t: "guarded n s t" using guarded_append [OF s1(1), of n "c_io c" rec False] a guarded_trans [OF s1(2)] by simp
    show ?thesis
    proof (cases r)
      case (Inl err)
      with e rec l a t show ?thesis by (simp add: engine_delete_def)
    next
      case r: (Inr off)
      have "om_ok (i_index t)"
        by (rule append_cases [OF s1(1), of "c_io c" rec False]) (use a store_okD(4) [OF s1(1)] in auto)
      let ?u = "journal_del E c key (c_secs c) (off + length rec) t"
      have u: "guarded n t ?u" by (rule guarded_same) (simp_all add: journal_del_def)
      have w: "guarded n ?u (drop_entry key ?u)"
        by (rule guarded_drop_entry) (use \<open>om_ok (i_index t)\<close> in \<open>simp add: journal_del_def\<close>)
      show ?thesis unfolding delete_eq [OF l [unfolded e] rec a [unfolded r]] snd_conv
        by (rule guarded_trans [OF t guarded_trans [OF u guarded_trans [OF w guarded_event]]])
    qed
  qed
qed

lemma guarded_update:
  assumes "store_ok E s" and n: "n \<le> length (i_file s)"
  shows "guarded n s (snd (update_with E c key f s))"
proof -
  obtain found s1 where l: "live (c_now c) key s = (found, s1)" by (cases "live (c_now c) key s")
  have s1: "store_ok E s1" "guarded n s s1"
    using store_ok_live(1) [OF assms(1), of "c_now c" key] guarded_live [OF store_okD(4) [OF assms(1)], of n "c_now c" key] l by simp_all
  show ?thesis
  proof (cases found)
    case None
    with l s1 show ?thesis by (simp add: update_with_def)
  next
    case (Some e)
    with live_contents(2) [OF assms(1), of "c_now c" key e] l obtain v where
      v: "om_get (i_index s) key = Some e" "s1 = s" "entry_value E (i_file s) e = Some v" by auto
    obtain r2 s2 where v2: "value_of E key e s = (r2, s2)" by (cases "value_of E key e s")
    have s2: "store_ok E s2" "guarded n s s2"
      using value_of_ok(2) [OF assms(1) v(1,3)] guarded_value_of [of n s E key e] v2 by simp_all
    have "n \<le> length (i_file s2)" using guardedD(5) [OF s2(2)] n by simp
    note pl = guarded_put_locked [OF s2(1) this]
    have "guarded n s (snd (put_locked E c k x ex mp ts s2))" for k x ex mp ts by (rule guarded_trans [OF s2(2) pl])
    with Some l v(2) v2 s2(2) show ?thesis
      by (auto simp: update_with_def split: sum.splits option.splits prod.splits) (metis snd_conv)+
  qed
qed

text \<open>Batches: staging only drops what has expired; each operation then gets its own version.\<close>

lemma guarded_shadow:
  assumes "store_ok E s" and "shadow_exists now shadow key s = (ex, s')"
  shows "guarded n s s'"
  using assms(2) guarded_live [OF store_okD(4) [OF assms(1)], of n now key]
  by (auto simp: shadow_exists_def split: option.splits prod.splits)

lemma guarded_stage:
  "store_ok E s \<Longrightarrow> store_ok E (snd (stage E c ts i ops shadow s)) \<and> guarded n s (snd (stage E c ts i ops shadow s))"
proof (induction ops arbitrary: i shadow s)
  case (Cons o_p ops)
  obtain exs s1 where sh: "shadow_exists (c_now c) shadow (op_key o_p) s = (exs, s1)"
    by (cases "shadow_exists (c_now c) shadow (op_key o_p) s")
  have s1: "store_ok E s1" "guarded n s s1"
    using shadow_exists_ok(1) [OF Cons.prems sh] guarded_shadow [OF Cons.prems sh] by blast+
  have IH: "store_ok E (snd (stage E c ts j ops sh' s1)) \<and> guarded n s (snd (stage E c ts j ops sh' s1))" for j sh'
    using Cons.IH [OF s1(1), of j sh'] guarded_trans [OF s1(2)] by blast
  show ?case
  proof (cases o_p)
    case (BPut key v ex mp)
    with sh IH [of "i + 1" "om_insert key True shadow"] Cons.prems show ?thesis
      by (auto simp: Let_def split: sum.splits prod.splits)
  next
    case (BDel key)
    with sh s1 IH [of i shadow] IH [of "i + 1" "om_insert key False shadow"] show ?thesis
      by (auto simp: Let_def split: sum.splits prod.splits)
  qed
qed simp

lemma apply_staged_guarded:
  assumes "om_ok (i_index s)" and "n \<le> base"
  shows "om_ok (i_index (apply_staged E base st s)) \<and> guarded n s (apply_staged E base st s)"
proof (cases st)
  case (SPut key ent raw doc ty created off)
  let ?e = "ent\<lparr>e_offset := base + off, e_version := i_seq s + 1\<rparr>" and ?s = "s\<lparr>i_seq := i_seq s + 1\<rparr>"
  let ?t = "idx_insert E key ?e (Option.bind doc doc_view_of) ?s"
  have "guarded n s ?t"
    using assms by (auto simp: guarded_def key_version_def idx_insert_fields cong: option.case_cong)
  moreover have "guarded n ?t (apply_staged E base st s)" "i_index (apply_staged E base st s) = i_index ?t"
    by (auto simp: SPut apply_staged_def Let_def split: sum.splits intro!: guarded_same)
  ultimately show ?thesis using guarded_trans assms by (auto simp: idx_insert_fields)
next
  case (SDel key)
  note eq = apply_del_eq [of E base key s]
  show ?thesis unfolding SDel eq
    by (rule conjI, use assms in simp, rule guarded_trans [OF guarded_drop_entry [OF assms(1)]], rule guarded_same) simp_all
qed

lemma guarded_fold:
  "om_ok (i_index s) \<Longrightarrow> n \<le> base \<Longrightarrow> guarded n s (fold (apply_staged E base) sts s)"
proof (induction sts arbitrary: s)
  case (Cons st sts)
  note a = apply_staged_guarded [OF Cons.prems, of E st]
  show ?case using guarded_trans [OF conjunct2 [OF a] Cons.IH [OF conjunct1 [OF a] Cons.prems(2)]] by simp
qed simp

lemma guarded_batch:
  assumes "store_ok E s" and n: "n \<le> length (i_file s)"
  shows "guarded n s (snd (apply_batch E c ops None s))"
proof -
  obtain r s1 where st: "stage E c (c_secs c) 0 ops [] s = (r, s1)" by (cases "stage E c (c_secs c) 0 ops [] s")
  have s1: "store_ok E s1" "guarded n s s1" using guarded_stage [OF assms(1), of c "c_secs c" 0 ops "[]"] st by simp_all
  have "guarded n s1 (snd (batch_commit E c l s1))" for l
  proof -
    let ?l = "set_offs 0 (mark_last (ee_crc E) l)"
    obtain ra t where a: "append_buf (c_io c) (concat (map snd ?l)) False s1 = (ra, t)"
      by (cases "append_buf (c_io c) (concat (map snd ?l)) False s1")
    have t: "guarded n s1 t" using guarded_append [OF s1(1), of n "c_io c" "concat (map snd ?l)" False] a by simp
    have ok: "om_ok (i_index t)" "ra = Inr base \<Longrightarrow> n \<le> base" for base
      by (rule append_cases [OF s1(1), of "c_io c" "concat (map snd ?l)" False];
          use a store_okD(4) [OF s1(1)] guardedD(5) [OF s1(2)] n in auto)+
    have "guarded n t (fold (apply_staged E base) sts (journal_list E c ch True t))" if "ra = Inr base" for base sts ch
      by (rule guarded_trans [OF guarded_same guarded_fold]) (simp_all add: ok(1) ok(2) [OF that])
    with t a show ?thesis using guarded_trans [OF t] by (auto simp: batch_commit_def Let_def split: sum.splits)
  qed
  with st s1(2) guarded_trans [OF s1(2)] show ?thesis
    by (auto simp: apply_batch_def apply_batch_watched_def begin_conflict_def split: sum.splits)
qed

lemma guarded_step:
  assumes "store_ok E s" and n: "n \<le> length (i_file s)"
  shows "guarded n s (snd (engine_step E co s))"
proof -
  obtain c o_p where co: "co = (c, o_p)" by (cases co)
  have fst_snd: "snd (case x of (Inr b, t) \<Rightarrow> (f b, t) | (Inl e, t) \<Rightarrow> (RFailed e, t)) = snd x"
    for x :: "(kiva_error + 'b) \<times> inner" and f by (cases x) (simp split: sum.splits)
  show ?thesis
  proof (cases o_p)
    case (KPut k v ex mp)
    with guarded_put_locked [OF assms] show ?thesis
      by (simp add: co engine_step_def fst_snd engine_put_def put_at_def split: sum.splits)
  next
    case (KGet k)
    obtain found s1 where l: "live (c_now c) k s = (found, s1)" by (cases "live (c_now c) k s")
    have s1: "guarded n s s1" using guarded_live [OF store_okD(4) [OF assms(1)], of n "c_now c" k] l by simp
    with KGet l guarded_trans [OF s1 guarded_value_of] show ?thesis
      by (auto simp: co engine_step_def fst_snd engine_get_def split: sum.splits prod.splits option.splits) (metis snd_conv)+
  next
    case (KContains k)
    with guarded_live [OF store_okD(4) [OF assms(1)], of n "c_now c" k] show ?thesis
      by (auto simp: co engine_step_def engine_contains_def split: prod.splits)
  next
    case (KDelete k)
    with guarded_delete [OF assms(1)] show ?thesis by (simp add: co engine_step_def fst_snd)
  next
    case (KUpdate k f)
    with guarded_update [OF assms] show ?thesis by (simp add: co engine_step_def fst_snd)
  next
    case (KBatch ops)
    with guarded_batch [OF assms] show ?thesis by (simp add: co engine_step_def fst_snd)
  qed
qed

lemma guarded_run:
  assumes "engine_sim E t s m" and "in_order (c_now \<circ> fst) t cs" and "list_all (timed_ok E) cs" and "n \<le> length (i_file s)"
  shows "guarded n s (snd (run_calls (engine_step E) cs s))"
  using assms
proof (induction cs arbitrary: t s m)
  case (Cons c cs)
  have "store_ok E s" using Cons.prems(1) by (simp add: engine_sim_def)
  note g = guarded_step [OF this Cons.prems(4), of c]
  have "n \<le> length (i_file (snd (engine_step E c s)))" using guardedD(5) [OF g] Cons.prems(4) by simp
  note n = this
  have "engine_sim E ((c_now \<circ> fst) c) (snd (engine_step E c s)) (snd (map_step c m))"
    using es.sim_step [OF Cons.prems(1), of c] Cons.prems(2,3) by simp
  from Cons.IH [OF this _ _ n] Cons.prems(2,3) guarded_trans [OF g] show ?case
    by (simp add: Let_def split: prod.splits) (metis snd_conv)
qed simp

end
