(* ===== verification/Conflict.thy ===== *)
theory Conflict
  imports Frame
begin

text \<open>
  Optimistic concurrency: what the version checks of transactions (\<^verbatim>\<open>txn_begin\<close> with the \<^verbatim>\<open>begin_seq\<close> of
  \<^verbatim>\<open>apply_batch\<close>) and of watched keys (\<^verbatim>\<open>watch\<close>, \<^verbatim>\<open>watch_conflict\<close>) detect, whatever calls run between.
\<close>

subsection \<open>What passes the checks\<close>

lemma quiet_key:
  assumes g: "guarded 0 s s'" and act: "0 < i_active_txns s" and ok: "store_ok E s" and k: "key_version s' k \<le> i_seq s"
  shows "stored E s' k = None \<or> stored E s' k = stored E s k"
proof (cases "om_get (i_index s') k")
  case None
  then show ?thesis by (simp add: stored_def)
next
  case (Some e)
  then have e: "om_get (i_index s) k = Some e" using guardedD(3) [OF g act, of k] k by auto
  obtain v rec where v: "entry_value E (i_file s) e = Some v" and h: "FILE_HEADER_LEN \<le> e_offset e"
    and r: "read_at (i_file s) (e_offset e) (rec_len e) = Some rec"
    by (rule store_ok_entry [OF ok e]) (auto simp: entry_shaped_def)
  have "entry_value E (i_file s') e = Some v" using read_same(1) [of "i_file s'" e "i_file s" E] guardedD(1) [OF g h r] r v by simp
  with Some e v show ?thesis by (simp add: stored_def)
qed

text \<open>A state that watches or runs transactions is the same map.\<close>

lemma sim_active: "engine_sim E t s m \<Longrightarrow> engine_sim E t (s\<lparr>i_active_txns := n\<rparr>) m"
  using store_ok_same_simple [of E s "s\<lparr>i_active_txns := n\<rparr>"]
  by (auto simp: engine_sim_def no_unique_def)

lemma run_quiet:
  assumes R: "engine_sim E t s m" and act: "0 < i_active_txns s" and cs: "in_order (c_now \<circ> fst) t cs" "list_all (timed_ok E) cs"
    and now: "t \<le> now" "list_all (\<lambda>x. c_now (fst x) \<le> now) cs"
    and k: "guarded 0 (snd (run_calls (engine_step E) cs s)) s'" "key_version s' k \<le> i_seq s"
      "at_time now (stored E s') = at_time now (stored E (snd (run_calls (engine_step E) cs s)))"
  shows "at_time now (snd (run_calls map_step cs m)) k \<in> {None, at_time now m k}"
proof -
  let ?s = "snd (run_calls (engine_step E) cs s)" and ?m = "snd (run_calls map_step cs m)"
  obtain t' where t': "t' \<in> insert t ((c_now \<circ> fst) ` set cs)" "engine_sim E t' ?s ?m"
    using es.sim_run [OF R cs] by blast
  have le: "t' \<le> now" using t'(1) now by (auto simp: list_all_iff)
  have m': "at_time now (stored E s') = at_time now ?m"
    using k(3) t'(2) at_time_later_cong [OF le, of "stored E ?s" ?m] by (simp add: engine_sim_def)
  have m: "at_time now (stored E s) = at_time now m"
    using R at_time_later_cong [OF now(1), of "stored E s" m] by (simp add: engine_sim_def)
  have "stored E s' k = None \<or> stored E s' k = stored E s k"
    using quiet_key [OF guarded_trans [OF guarded_run [OF R cs le0] k(1)] act _ k(2)] R by (simp add: engine_sim_def)
  then have "at_time now (stored E s') k \<in> {None, at_time now (stored E s) k}" by (auto simp: at_time_def)
  then show ?thesis by (simp add: m m')
qed



lemma live_seq [simp]: "i_seq (snd (live now key s)) = i_seq s"
  by (rule live_cases [of s key now]) (simp_all add: tell_expired_def)

lemma watch_keys_facts:
  assumes "watch_keys now since keys s = (ws, s')" and "store_ok E s"
  shows "guarded 0 s s' \<and> store_ok E s' \<and> at_time now (stored E s') = at_time now (stored E s) \<and> calm s s' \<and>
    i_seq s' = i_seq s \<and>
    (\<forall>k \<in> set keys. \<lparr>w_key = k, w_since = since, w_existed = (at_time now (stored E s) k \<noteq> None)\<rparr> \<in> set ws)"
  using assms
proof (induction keys arbitrary: s ws)
  case (Cons k keys)
  obtain e s1 where l: "live now k s = (e, s1)" by (cases "live now k s")
  obtain ws1 where w: "watch_keys now since keys s1 = (ws1, s')" "ws = \<lparr>w_key = k, w_since = since, w_existed = (e \<noteq> None)\<rparr> # ws1"
    using Cons.prems(1) l by (auto split: prod.splits)
  have s1: "store_ok E s1" "at_time now (stored E s1) = at_time now (stored E s)" "guarded 0 s s1" "calm s s1" "i_seq s1 = i_seq s"
    using store_ok_live [OF Cons.prems(2), of now k] guarded_live [OF store_okD(4) [OF Cons.prems(2)], of 0 now k] calm_live [of s now k]
      live_seq [of now k s] l by simp_all
  have "e \<noteq> None \<longleftrightarrow> at_time now (stored E s) k \<noteq> None"
    using live_contents(1) [OF Cons.prems(2), of now k] l by (simp add: contents_def)
  with Cons.IH [OF w(1) s1(1)] s1 w(2) guarded_trans [OF s1(3)] calm_trans [OF s1(4)] show ?case by auto
qed simp

lemma changed_None:
  assumes "changed now ws s = (None, s')" and "store_ok E s" and "w \<in> set ws"
  shows "\<exists>t. guarded 0 s t \<and> store_ok E t \<and> at_time now (stored E t) = at_time now (stored E s) \<and>
    key_version t (w_key w) \<le> w_since w \<and> (w_existed w \<longrightarrow> at_time now (stored E t) (w_key w) \<noteq> None)"
  using assms
proof (induction ws arbitrary: s)
  case (Cons x ws)
  have x: "\<not> key_version s (w_key x) > w_since x" using Cons.prems(1) by (auto split: if_splits)
  obtain e s1 where l: "live now (w_key x) s = (e, s1)" by (cases "live now (w_key x) s")
  have s1: "store_ok E s1" "at_time now (stored E s1) = at_time now (stored E s)" "guarded 0 s s1"
    using store_ok_live [OF Cons.prems(2), of now "w_key x"] guarded_live [OF store_okD(4) [OF Cons.prems(2)], of 0 now "w_key x"] l
    by simp_all
  show ?case
  proof (cases "w = x")
    case True
    have "w_existed w \<longrightarrow> at_time now (stored E s) (w_key w) \<noteq> None"
      using Cons.prems(1) True l live_contents(1) [OF Cons.prems(2), of now "w_key x"]
      by (auto simp: contents_def split: if_splits)
    with True x Cons.prems(2) show ?thesis by (intro exI [of _ s]) simp
  next
    case False
    with Cons.prems(3) have w: "w \<in> set ws" by simp
    show ?thesis
    proof (cases "w_existed x")
      case True
      with Cons.prems(1) l have "changed now ws s1 = (None, s')" by (auto split: if_splits)
      from Cons.IH [OF this s1(1) w] s1(2) guarded_trans [OF s1(3)] show ?thesis by auto
    next
      case no: False
      with Cons.prems(1) have "changed now ws s = (None, s')" by (auto split: if_splits)
      from Cons.IH [OF this Cons.prems(2) w] show ?thesis .
    qed
  qed
qed simp



subsection \<open>A write the check does not see\<close>

text \<open>
  The begin check misses writes that have expired. While a transaction is open another session
  writes one of its keys with a deadline that passes before the commit; a read purges the entry and
  with it its version, and the commit is not refused although the key was written after the
  transaction began and no longer holds what it held then.
\<close>

lemma live_tombs [simp]: "i_tomb_versions (snd (live now key s)) = i_tomb_versions s"
  by (rule live_cases [of s key now]) (simp_all add: tell_expired_def)

lemma append_tombs [simp]: "i_tomb_versions (snd (append_buf io buf sync s)) = i_tomb_versions s"
  by (auto simp: append_buf_def Let_def split: option.splits io_fault.splits)

lemma put_versions:
  assumes "store_ok E s" and "put_ready E c v ex ts" and put: "put_locked E c key v ex mp ts s = (Inr b, s')"
  shows "\<exists>e. om_get (i_index s') key = Some e \<and> e_version e = i_seq s + 1 \<and> e_expires_at e = ex \<and>
    i_tomb_versions s' = i_tomb_versions s"
proof -
  have rd: "env_ok E" "nonce_ok (c_rng c 0)" "value_ok (ee_values E) v" "is_i64 ts" "is_i64 ex"
    using assms(2) by (simp_all add: put_ready_def)
  obtain rec ent raw where bp: "build_put E (c_rng c 0) (i_compression s) key v ex mp ts 0 = Inr (rec, ent, raw)"
    using put by (cases "build_put E (c_rng c 0) (i_compression s) key v ex mp ts 0") (auto simp: put_locked_def)
  note be = build_put_entry [OF bp rd(1-3) _ rd(4,5), simplified]
  obtain found s1 where l: "live (c_now c) key s = (found, s1)" by (cases "live (c_now c) key s")
  have s1: "store_ok E s1" "i_seq s1 = i_seq s" "i_tomb_versions s1 = i_tomb_versions s"
    using store_ok_live(1) [OF assms(1), of "c_now c" key] live_seq [of "c_now c" key s] live_tombs [of "c_now c" key s] l by simp_all
  obtain r t where a: "append_buf (c_io c) rec False s1 = (r, t)" by (cases "append_buf (c_io c) rec False s1")
  then obtain off where r: "r = Inr off" using put bp l by (cases r) (auto simp: put_locked_def)
  have t: "i_seq t = i_seq s" "i_tomb_versions t = i_tomb_versions s"
    by (rule append_cases [OF s1(1), of "c_io c" rec False]; use a s1 in auto)+
  from put_locked_eq [OF bp l a [unfolded r]] put be(4) t show ?thesis by auto
qed

theorem expired_write_unseen:
  assumes "store_ok E s" and "txn_begin s = (start, s1)" and "put_ready E c v ex (c_secs c)"
    and "engine_put E c k v ex mp s1 = (Inr b, s2)" and "0 < ex" and "ex \<le> c_now c'"
    and "om_get (i_tomb_versions s) k = None" and "i_reset_seq s \<le> i_seq s"
  shows "begin_conflict (Some start) [BPut k v' ex' mp'] s2 = Inl (Conflict ''key was modified by another session'') \<and>
    begin_conflict (Some start) [BPut k v' ex' mp'] (snd (engine_contains c' k s2)) = Inr ()"
proof -
  have s1: "store_ok E s1" "start = i_seq s1" "i_tomb_versions s1 = i_tomb_versions s" "i_reset_seq s1 \<le> i_seq s1"
    using assms(1,2,8) store_ok_same_simple(1) [OF assms(1), of s1] by (auto simp: txn_begin_def)
  have put: "put_locked E c k v ex mp (c_secs c) s1 = (Inr b, s2)"
    using assms(4) by (auto simp: engine_put_def put_at_def split: sum.splits)
  obtain e where e: "om_get (i_index s2) k = Some e" "e_version e = start + 1" "e_expires_at e = ex"
    "i_tomb_versions s2 = i_tomb_versions s"
    using put_versions [OF s1(1) assms(3) put] s1(2,3) by auto
  have ok: "om_ok (i_index s2)" using put_locked_ok(1) [OF s1(1) assms(3) put] store_okD(4) by blast
  have "i_reset_seq s2 \<le> start"
    using guarded_put_locked [OF s1(1) le0, of c k v ex mp "c_secs c"] put s1(2,4) by (simp add: guarded_def)
  with e ok assms(5-7) show ?thesis
    by (simp add: begin_conflict_def key_version_def engine_contains_def live_def is_expired_def tell_expired_def idx_remove_def)
qed

theorem expired_write_unseen_witness:
  "\<exists>start s1 b s2. txn_begin demo_inner = (start, s1) \<and>
    engine_put demo_env (demo_call 2000) (lit ''a'') (VStr (lit ''x'')) 2500 False s1 = (Inr b, s2) \<and>
    begin_conflict (Some start) [BPut (lit ''a'') (VBool True) 0 False] (snd (engine_contains (demo_call 3000) (lit ''a'') s2)) = Inr ()"
proof -
  let ?c = "demo_call 2000" and ?a = "lit ''a''" and ?x = "VStr (lit ''x'')"
  obtain start s1 where b: "txn_begin demo_inner = (start, s1)" by (cases "txn_begin demo_inner")
  have ok: "store_ok demo_env demo_inner" using open_new(1) [OF demo_open] by (simp add: engine_sim_def)
  have s1: "s1 = demo_inner\<lparr>i_active_txns := i_active_txns demo_inner + 1\<rparr>" using b by (simp add: txn_begin_def)
  have ok1: "store_ok demo_env s1" using store_ok_same_simple(1) [OF ok, of s1] s1 by simp
  have rd: "put_ready demo_env ?c ?x 2500 (c_secs ?c)"
    using demo_env_ok demo_value_ok(2) by (simp add: put_ready_def demo_call_def nonce_ok_def NONCE_LEN_def is_i64_def new_value_ok_def)
  have "i_sec s1 = []" "\<not> i_closed s1" "validate_key ?a = Inr ()" "c_io ?c = NoFault" "value_fits demo_env False ?x"
    using demo_value_ok(2) by (simp_all add: s1 demo_inner_def open_inner_def recount_def validate_key_def MAX_KEY_LEN_def
        len_utf8_def demo_call_def new_value_ok_def)
  note h = this
  obtain cr s2 where "put_locked demo_env ?c ?a ?x 2500 False (c_secs ?c) s1 = (Inr cr, s2)"
    using put_locked_succeeds [OF ok1 rd h(3,5,4,2)] by blast
  then have p: "engine_put demo_env ?c ?a ?x 2500 False s1 = (Inr cr, s2)" using h(1) by (simp add: engine_put_def put_at_def)
  have d: "om_get (i_tomb_versions demo_inner) ?a = None" "i_reset_seq demo_inner \<le> i_seq demo_inner"
    by (simp_all add: demo_inner_def open_inner_def recount_def)
  have "(0 :: int) < 2500" "2500 \<le> c_now (demo_call 3000)" by (simp_all add: demo_call_def)
  from expired_write_unseen [OF ok b rd p this d] b p show ?thesis by blast
qed

end
