(* ===== verification/Compact.thy ===== *)
theory Compact
  imports Frame
begin

text \<open>
  Compaction (\<^verbatim>\<open>compact_impl\<close> of \<^verbatim>\<open>src/engine.rs\<close>). It runs in three phases: under the lock it freezes the
  index, without the lock it copies the live records to a new file, and under the lock again it brings
  over what was appended meanwhile and swaps the files. Calls of other sessions run between the phases.
\<close>

record snapshot =
  sn_entries :: index
  sn_len :: nat
  sn_id :: u64

record compact_report =
  cr_before :: nat
  cr_after :: nat
  cr_records :: nat
  cr_dropped :: nat
  cr_aborted :: bool

definition compact_start :: "call \<Rightarrow> compression option \<Rightarrow> inner \<Rightarrow> (kiva_error + snapshot) \<times> inner" where
  "compact_start c recompress s =
     (if i_closed s then (Inl (Other ''database is closed''), s)
      else (let s = purge_all_expired (c_now c) s;
                s = (case recompress of Some a \<Rightarrow> s\<lparr>i_compression := a\<rparr> | None \<Rightarrow> s)
            in (Inr \<lparr>sn_entries = i_index s, sn_len = i_file_len s, sn_id = i_file_id s\<rparr>, s)))"

text \<open>
  One record of the copy: \<open>None\<close> when it is damaged and left out, else its bytes and its new entry.
  Records of batches, in another algorithm than asked for, or under another key, are encoded again.
\<close>

definition copy_record :: "engine_env \<Rightarrow> kiva_error + bytes \<Rightarrow> compression option \<Rightarrow> bytes \<Rightarrow> nat \<Rightarrow> rstring \<Rightarrow> entry \<Rightarrow>
    kiva_error + (bytes \<times> entry) option" where
  "copy_record E rng recompress f pos key e = (case read_at f (e_offset e) (rec_len e) of
     None \<Rightarrow> Inr None
   | Some buf \<Rightarrow>
       if \<not> verify_record (ee_crc E) buf then Inr None
       else (let has_txn_flags = (e_flags e AND (FLAG_TXN OR FLAG_TXN_COMMIT) \<noteq> 0);
                 wrong_algo = (case recompress of Some a \<Rightarrow> a \<noteq> e_compression e | None \<Rightarrow> False);
                 wrong_key = (record_key_id buf \<noteq> map_option (\<lambda>k. key_id (current k)) (ee_keys E))
             in if has_txn_flags \<or> wrong_algo \<or> wrong_key then
                  (case open_record (ee_aead E) (ee_keys E) buf of
                     Inl _ \<Rightarrow> Inr None
                   | Inr (_, body) \<Rightarrow>
                       (case (if wrong_algo
                              then (case unpack (ee_codec E) body (e_compression e) of
                                      Inr raw \<Rightarrow> Some (pack (ee_codec E) raw (the recompress)) | Inl _ \<Rightarrow> None)
                              else Some (body, e_flags e AND FLAG_COMP_MASK)) of
                          None \<Rightarrow> Inr None
                        | Some (body2, cflag) \<Rightarrow>
                            (let flags = (e_flags e AND (FLAG_MSGPACK OR FLAG_KDOC)) OR cflag
                             in try_bind (engine_encode E rng key body2 (type_u8 (e_ty e)) flags (e_timestamp e) (e_expires_at e)) (\<lambda>rec.
                               let h = parse_header rec
                               in Inr (Some (rec, e\<lparr>e_flags := h_flags h, e_v_size := h_v_size h, e_offset := pos\<rparr>))))))
                else Inr (Some (buf, e\<lparr>e_offset := pos\<rparr>))))"

type_synonym moved = "(rstring \<times> nat \<times> entry) list"

fun copy_records :: "engine_env \<Rightarrow> (nat \<Rightarrow> kiva_error + bytes) \<Rightarrow> compression option \<Rightarrow> bytes \<Rightarrow> nat \<Rightarrow> nat \<Rightarrow> index \<Rightarrow>
    kiva_error + bytes \<times> moved \<times> nat" where
  "copy_records E rng recompress f i pos [] = Inr ([], [], 0)"
| "copy_records E rng recompress f i pos ((k, e) # es) =
     (case copy_record E (rng i) recompress f pos k e of
        Inl err \<Rightarrow> Inl err
      | Inr None \<Rightarrow> try_bind (copy_records E rng recompress f (i + 1) pos es) (\<lambda>(out, mv, d). Inr (out, mv, d + 1))
      | Inr (Some (rec, ne)) \<Rightarrow>
          try_bind (copy_records E rng recompress f (i + 1) (pos + length rec) es)
            (\<lambda>(out, mv, d). Inr (rec @ out, (k, e_offset e, ne) # mv, d)))"

definition compact_copy :: "engine_env \<Rightarrow> (nat \<Rightarrow> kiva_error + bytes) \<Rightarrow> compression option \<Rightarrow> u64 \<Rightarrow> bytes \<Rightarrow> snapshot \<Rightarrow>
    kiva_error + bytes \<times> moved \<times> nat" where
  "compact_copy E rng recompress new_id f snap =
     try_bind (copy_records E rng recompress f 0 FILE_HEADER_LEN (sn_entries snap))
       (\<lambda>(out, mv, d). Inr (file_header new_id FORMAT_V1 @ out, mv, d))"

text \<open>The new index, in the order of the old one, and the keys whose record was lost.\<close>

fun move_index :: "nat \<Rightarrow> nat \<Rightarrow> moved \<Rightarrow> index \<Rightarrow> index \<times> rstring list" where
  "move_index snap_len tail_start mv [] = ([], [])"
| "move_index snap_len tail_start mv ((k, cur) # idx) =
     (let (ni, lost) = move_index snap_len tail_start mv idx in
      if e_offset cur \<ge> snap_len then ((k, cur\<lparr>e_offset := e_offset cur - snap_len + tail_start\<rparr>) # ni, lost)
      else case map_of mv k of
          Some (old_off, ne) \<Rightarrow>
            if old_off = e_offset cur then ((k, ne\<lparr>e_version := e_version cur\<rparr>) # ni, lost) else (ni, k # lost)
        | None \<Rightarrow> (ni, k # lost))"

definition mark_compaction :: "engine_env \<Rightarrow> call \<Rightarrow> u64 \<Rightarrow> nat \<Rightarrow> inner \<Rightarrow> (kiva_error + unit) \<times> inner" where
  "mark_compaction E c new_id pos s = (case i_changes s of
     None \<Rightarrow> (Inr (), s)
   | Some j \<Rightarrow>
       (case journal_mark (ee_aead E) (ee_crc E) (c_journal_rng c 0) (c_journal_io c) new_id pos (journal_sync j) of
          (Inl err, j) \<Rightarrow> (Inl err, s\<lparr>i_changes := Some j\<rparr>)
        | (Inr _, j) \<Rightarrow> (Inr (), s\<lparr>i_changes := Some (journal_sync j)\<rparr>)))"

text \<open>The last phase; \<open>fault\<close> is the failure of the rename that swaps the files.\<close>

definition compact_finish :: "engine_env \<Rightarrow> call \<Rightarrow> string option \<Rightarrow> u64 \<Rightarrow> snapshot \<Rightarrow> bytes \<times> moved \<times> nat \<Rightarrow> inner \<Rightarrow>
    (kiva_error + compact_report) \<times> inner" where
  "compact_finish E c fault new_id snap res s = (case res of (out, mv, dropped) \<Rightarrow>
     if i_file_id s \<noteq> sn_id snap \<or> i_closed s then
       (Inr \<lparr>cr_before = i_file_len s, cr_after = i_file_len s, cr_records = 0, cr_dropped = 0, cr_aborted = True\<rparr>, s)
     else case (if i_file_len s > sn_len snap then read_at (i_file s) (sn_len snap) (i_file_len s - sn_len snap) else Some []) of
         None \<Rightarrow> (Inl (Io ''read''), s)
       | Some tail \<Rightarrow>
           (let before = i_file_len s; pos = length out + length tail; f = out @ tail;
                f = (if i_format s > FORMAT_V1 then write_at 4 (le_bytes 4 (i_format s)) f else f)
            in case mark_compaction E c new_id pos s of
                 (Inl err, s) \<Rightarrow> (Inl err, s)
               | (Inr _, s) \<Rightarrow>
                   (let (new_index, lost) = move_index (sn_len snap) (length out) mv (i_index s) in
                    case fault of
                      Some why \<Rightarrow> (Inl (Io why), s)
                    | None \<Rightarrow>
                        (let s = fold (\<lambda>k s. snd (idx_remove k s)) lost s;
                             s = recount (s\<lparr>i_file := f, i_index := new_index, i_file_len := pos, i_file_id := new_id\<rparr>);
                             s = s\<lparr>i_corrupted := i_corrupted s + dropped\<rparr>
                         in (Inr \<lparr>cr_before = before, cr_after = pos, cr_records = length new_index, cr_dropped = dropped,
                              cr_aborted = False\<rparr>, s)))))"

definition compact_impl :: "engine_env \<Rightarrow> call \<Rightarrow> compression option \<Rightarrow> kiva_error + u64 \<Rightarrow> string option \<Rightarrow> inner \<Rightarrow>
    (kiva_error + compact_report) \<times> inner" where
  "compact_impl E c recompress rid fault s = (case compact_start c recompress s of
     (Inl err, s) \<Rightarrow> (Inl err, s)
   | (Inr snap, s) \<Rightarrow>
       (case rid of
          Inl err \<Rightarrow> (Inl err, s)
        | Inr new_id \<Rightarrow>
            (case compact_copy E (c_rng c) recompress new_id (i_file s) snap of
               Inl err \<Rightarrow> (Inl err, s)
             | Inr res \<Rightarrow> compact_finish E c fault new_id snap res s)))"

subsection \<open>A copied record\<close>

lemma entry_value_moved:
  assumes "read_at f (e_offset e) (rec_len e) = Some r"
    and "read_at f' off (rec_len e) = Some r"
  shows "entry_value E f' (e\<lparr>e_offset := off\<rparr>) = entry_value E f e"
    and "entry_shaped E f' k (e\<lparr>e_offset := off\<rparr>) = entry_shaped E f k e"
proof -
  have "e_compression (e\<lparr>e_offset := off\<rparr>) = e_compression e" "e_doc_enc (e\<lparr>e_offset := off\<rparr>) = e_doc_enc e"
    by (simp_all add: e_compression_def e_doc_enc_def)
  with assms show "entry_value E f' (e\<lparr>e_offset := off\<rparr>) = entry_value E f e"
    and "entry_shaped E f' k (e\<lparr>e_offset := off\<rparr>) = entry_shaped E f k e"
    by (simp_all add: entry_value_def entry_shaped_def cong: sum.case_cong)
qed

lemma copy_flags:
  fixes ef cf :: u8
  assumes "cf AND FLAG_COMP_MASK = cf"
  defines "fl \<equiv> (ef AND (FLAG_MSGPACK OR FLAG_KDOC)) OR cf"
  shows "fl AND FLAG_COMP_MASK = cf" and "doc_enc_from_flags fl = doc_enc_from_flags ef" and "fl AND FLAG_ENCRYPTED = 0"
    and "fl AND FLAG_TOMBSTONE = 0" and "fl AND FLAG_TXN = 0" and "fl AND FLAG_TXN_COMMIT = 0"
proof -
  have c: "cf AND m = cf AND (FLAG_COMP_MASK AND m)" for m using assms(1) by (metis and.assoc)
  show "fl AND FLAG_COMP_MASK = cf" and "doc_enc_from_flags fl = doc_enc_from_flags ef" and "fl AND FLAG_ENCRYPTED = 0"
    and "fl AND FLAG_TOMBSTONE = 0" and "fl AND FLAG_TXN = 0" and "fl AND FLAG_TXN_COMMIT = 0"
    unfolding fl_def doc_enc_from_flags_def
    using assms(1) c [of FLAG_MSGPACK] c [of FLAG_KDOC] c [of FLAG_ENCRYPTED] c [of FLAG_TOMBSTONE] c [of FLAG_TXN] c [of FLAG_TXN_COMMIT]
    by (simp_all add: flag_defs bit.conj_disj_distrib2 and.assoc)
qed

text \<open>A record encoded again: what its readers see.\<close>

lemma recoded_entry:
  assumes rec: "engine_encode E rng key body (type_u8 (e_ty e)) fl (e_timestamp e) (e_expires_at e) = Inr rec"
    and env: "env_ok E" "nonce_ok rng" and sh: "entry_shaped E f key e"
    and body: "length body \<le> MAX_VALUE_LEN" "unpack (ee_codec E) body (from_flag (fl AND FLAG_COMP_MASK)) = Inr raw"
    and v: "value_decode (ee_values E) (e_ty e) raw (e_doc_enc e) = Inr v"
    and fl: "doc_enc_from_flags fl = doc_enc_from_flags (e_flags e)" "fl AND FLAG_ENCRYPTED = 0"
  defines "ne \<equiv> e\<lparr>e_flags := h_flags (parse_header rec), e_v_size := h_v_size (parse_header rec)\<rparr>"
  shows "rec_len ne = length rec" and "entry_value E (pre @ rec @ post) (ne\<lparr>e_offset := length pre\<rparr>) = Some v"
    and "entry_shaped E (pre @ rec @ post) key (ne\<lparr>e_offset := length pre\<rparr>)"
proof -
  obtain nonce where n: "rng = Inr nonce" "length nonce = NONCE_LEN" using nonce_okD [OF env(2)] by blast
  have A: "aead_ok (ee_aead E)" "can_open (ee_keys E) (ee_keys E)" using env(1) by (simp_all add: env_ok_def)
  have k: "key \<noteq> []" "str_len key \<le> 1024" "e_k_size e = word_of_nat (str_len key)" "is_i64 (e_timestamp e)" "is_i64 (e_expires_at e)"
    using sh by (simp_all add: entry_shaped_def MAX_KEY_LEN_def)
  have "overhead (ee_keys E) \<le> 32" by (simp add: overhead_def crypt_lens split: option.splits)
  then have fits: "crypt_fits (ee_keys E) key body (e_timestamp e) (e_expires_at e)"
    using k body(1) by (simp add: crypt_fits_def MAX_VALUE_LEN_def)
  note cf = crypt_record_facts [OF rec [unfolded engine_encode_def n(1)] A(1) n(2) A(2) fits fl(2)]
  note fr = is_frame_header [OF cf(1) fits cf(2) k(1)]
  show l: "rec_len ne = length rec"
    using fits by (simp add: ne_def rec_len_def cf(1,2) k(3) crypt_fits_def unat_of_nat len_defs del: of_nat_add)
  have r: "read_at (pre @ rec @ post) (length pre) (rec_len ne) = Some rec" by (rule read_at_middle [OF l])
  have "e_compression (ne\<lparr>e_offset := length pre\<rparr>) = from_flag (fl AND FLAG_COMP_MASK)"
    by (simp add: ne_def e_compression_def cf(1) stored_flags_and flag_defs)
  moreover have "e_doc_enc (ne\<lparr>e_offset := length pre\<rparr>) = e_doc_enc e"
    by (simp add: ne_def e_doc_enc_def cf(1) doc_enc_stored_flags fl(1))
  moreover have "e_ty (ne\<lparr>e_offset := length pre\<rparr>) = e_ty e" by (simp add: ne_def)
  ultimately show "entry_value E (pre @ rec @ post) (ne\<lparr>e_offset := length pre\<rparr>) = Some v"
    using r fr(2) cf(3) body(2) v by (simp add: entry_value_def)
  have "e_k_size ne = e_k_size e" "e_timestamp ne = e_timestamp e" "e_expires_at ne = e_expires_at e" by (simp_all add: ne_def)
  then show "entry_shaped E (pre @ rec @ post) key (ne\<lparr>e_offset := length pre\<rparr>)"
    using r cf(3) body(1) k by (simp add: entry_shaped_def MAX_KEY_LEN_def)
qed

lemma unpack_bound: "unpack C body algo = Inr raw \<Longrightarrow> length body \<le> MAX_VALUE_LEN \<Longrightarrow> length raw \<le> MAX_VALUE_LEN"
  by (auto simp: unpack_def Let_def split: if_splits sum.splits)

lemma copy_record_ok:
  assumes ev: "entry_value E f e = Some v" and sh: "entry_shaped E f key e" and env: "env_ok E" "nonce_ok rng"
  obtains rec ne where "copy_record E rng recompress f pos key e = Inr (Some (rec, ne))"
    and "rec_len ne = length rec" and "e_offset ne = pos" and "e_expires_at ne = e_expires_at e" and "e_version ne = e_version e"
    and "\<And>pre post. length pre = pos \<Longrightarrow> entry_value E (pre @ rec @ post) ne = Some v \<and> entry_shaped E (pre @ rec @ post) key ne"
proof -
  obtain buf body where r: "read_at f (e_offset e) (rec_len e) = Some buf"
    and op: "open_record (ee_aead E) (ee_keys E) buf = Inr (as_bytes key, body)" and bl: "length body \<le> MAX_VALUE_LEN"
    using sh by (auto simp: entry_shaped_def)
  from ev r op obtain raw where vr: "verify_record (ee_crc E) buf" and up: "unpack (ee_codec E) body (e_compression e) = Inr raw"
    and dec: "value_decode (ee_values E) (e_ty e) raw (e_doc_enc e) = Inr v"
    by (auto simp: entry_value_def split: if_splits sum.splits)
  have C: "codec_ok (ee_codec E)" using env(1) by (simp add: env_ok_def)
  define wrong_algo where "wrong_algo \<longleftrightarrow> (case recompress of Some a \<Rightarrow> a \<noteq> e_compression e | None \<Rightarrow> False)"
  define again where "again \<longleftrightarrow> e_flags e AND (FLAG_TXN OR FLAG_TXN_COMMIT) \<noteq> 0 \<or> wrong_algo \<or>
    record_key_id buf \<noteq> map_option (\<lambda>k. key_id (current k)) (ee_keys E)"
  show thesis
  proof (cases again)
    case False
    have "copy_record E rng recompress f pos key e = Inr (Some (buf, e\<lparr>e_offset := pos\<rparr>))"
      using False r vr by (simp add: copy_record_def again_def wrong_algo_def Let_def)
    moreover have bl: "length buf = rec_len e" using r by (auto simp: read_at_def split: if_splits)
    moreover have "read_at (pre @ buf @ post) (length pre) (rec_len e) = Some buf" for pre post
      by (rule read_at_middle) (simp add: bl)
    ultimately show thesis
      using entry_value_moved [OF r, of "pre @ buf @ post" "length pre" for pre post] ev sh
      by (intro that [of buf "e\<lparr>e_offset := pos\<rparr>"]) auto
  next
    case True
    obtain body2 cf where b2: "(if wrong_algo
        then (case unpack (ee_codec E) body (e_compression e) of Inr raw \<Rightarrow> Some (pack (ee_codec E) raw (the recompress)) | Inl _ \<Rightarrow> None)
        else Some (body, e_flags e AND FLAG_COMP_MASK)) = Some (body2, cf)"
      and up2: "unpack (ee_codec E) body2 (from_flag cf) = Inr raw" and bl2: "length body2 \<le> MAX_VALUE_LEN"
      and cf: "cf AND FLAG_COMP_MASK = cf"
    proof (cases wrong_algo)
      case True
      have rl: "length raw \<le> MAX_VALUE_LEN" by (rule unpack_bound [OF up bl])
      show thesis
        using True up unpack_pack_eq [OF C rl] pack_shrinks [of "ee_codec E" raw "the recompress"] rl
          pack_flag_mask [of "ee_codec E" raw "the recompress"]
        by (intro that [of "fst (pack (ee_codec E) raw (the recompress))" "snd (pack (ee_codec E) raw (the recompress))"])
          (simp_all add: FLAG_COMP_MASK_def)
    next
      case False
      then show thesis
        using up bl by (intro that [of body "e_flags e AND FLAG_COMP_MASK"]) (simp_all add: e_compression_def and.assoc)
    qed
    define fl where "fl = (e_flags e AND (FLAG_MSGPACK OR FLAG_KDOC)) OR cf"
    note cfl = copy_flags [OF cf, of "e_flags e", folded fl_def]
    obtain rec where rec: "engine_encode E rng key body2 (type_u8 (e_ty e)) fl (e_timestamp e) (e_expires_at e) = Inr rec"
      using encode_succeeds [OF env(2)] by blast
    let ?ne = "e\<lparr>e_flags := h_flags (parse_header rec), e_v_size := h_v_size (parse_header rec)\<rparr>"
    have "copy_record E rng recompress f pos key e = Inr (Some (rec, ?ne\<lparr>e_offset := pos\<rparr>))"
      using True r vr op b2 rec by (simp add: copy_record_def again_def wrong_algo_def fl_def Let_def)
    moreover note re = recoded_entry [OF rec env sh bl2 _ dec cfl(2,3)]
    ultimately show thesis
      using up2 cfl(1) by (intro that [of rec "?ne\<lparr>e_offset := pos\<rparr>"]) auto
  qed
qed

subsection \<open>The copy\<close>

definition moved_ok :: "engine_env \<Rightarrow> bytes \<Rightarrow> moved \<Rightarrow> bytes \<Rightarrow> rstring \<Rightarrow> entry \<Rightarrow> bool" where
  "moved_ok E f mv f' k e \<longleftrightarrow> (\<exists>ne. map_of mv k = Some (e_offset e, ne) \<and> FILE_HEADER_LEN \<le> e_offset ne \<and>
     e_expires_at ne = e_expires_at e \<and> entry_value E f' ne = entry_value E f e \<and> entry_shaped E f' k ne)"

lemma copy_records_ok:
  assumes "distinct (map fst es)" and "\<forall>(k, e) \<in> set es. entry_value E f e \<noteq> None \<and> entry_shaped E f k e"
    and "env_ok E" and "\<And>i. nonce_ok (rng i)" and "FILE_HEADER_LEN \<le> pos"
  shows "\<exists>out mv. copy_records E rng recompress f i pos es = Inr (out, mv, 0) \<and>
    (\<forall>pre post. length pre = pos \<longrightarrow> (\<forall>(k, e) \<in> set es. moved_ok E f mv (pre @ out @ post) k e))"
  using assms(1,2,5)
proof (induction es arbitrary: i pos)
  case (Cons x es)
  obtain k e where x: "x = (k, e)" by (cases x)
  obtain v where v: "entry_value E f e = Some v" "entry_shaped E f k e" using Cons.prems(2) x by auto
  obtain rec ne where c: "copy_record E (rng i) recompress f pos k e = Inr (Some (rec, ne))"
    and ne: "rec_len ne = length rec" "e_offset ne = pos" "e_expires_at ne = e_expires_at e"
    and at_pos: "\<And>pre post. length pre = pos \<Longrightarrow> entry_value E (pre @ rec @ post) ne = Some v \<and> entry_shaped E (pre @ rec @ post) k ne"
    by (rule copy_record_ok [OF v assms(3,4), where recompress = recompress and pos = pos]) blast
  obtain out mv where IH: "copy_records E rng recompress f (i + 1) (pos + length rec) es = Inr (out, mv, 0)"
    and rest: "\<And>pre post. length pre = pos + length rec \<Longrightarrow> \<forall>(k, e) \<in> set es. moved_ok E f mv (pre @ out @ post) k e"
    using Cons.IH [of "pos + length rec" "i + 1"] Cons.prems by auto
  have "moved_ok E f ((k, e_offset e, ne) # mv) (pre @ (rec @ out) @ post) j d" if "length pre = pos" "(j, d) \<in> set (x # es)" for pre post j d
  proof (cases "(j, d) = (k, e)")
    case True
    then show ?thesis using at_pos [OF that(1), of "out @ post"] ne Cons.prems(3) v(1) by (simp add: moved_ok_def)
  next
    case False
    then have jd: "(j, d) \<in> set es" using that(2) x by auto
    then have "j \<noteq> k" using Cons.prems(1) x by force
    moreover have "moved_ok E f mv ((pre @ rec) @ out @ post) j d" using rest [of "pre @ rec" post] jd that(1) by auto
    ultimately show ?thesis by (simp add: moved_ok_def)
  qed
  with c IH show ?case unfolding x by (intro exI [of _ "rec @ out"] exI [of _ "(k, e_offset e, ne) # mv"]) auto
qed simp

subsection \<open>The swap\<close>

text \<open>An entry before and after the swap.\<close>

definition same_entry :: "engine_env \<Rightarrow> bytes \<Rightarrow> bytes \<Rightarrow> rstring \<Rightarrow> entry \<Rightarrow> entry \<Rightarrow> bool" where
  "same_entry E f f' k e e' \<longleftrightarrow> FILE_HEADER_LEN \<le> e_offset e' \<and> e_version e' = e_version e \<and> e_expires_at e' = e_expires_at e \<and>
     entry_value E f' e' = entry_value E f e \<and> entry_shaped E f' k e'"

lemma move_index_ok:
  assumes "\<forall>(k, cur) \<in> set idx. snap_len \<le> e_offset cur \<and>
        same_entry E f f' k cur (cur\<lparr>e_offset := e_offset cur - snap_len + tail_start\<rparr>) \<or>
      e_offset cur < snap_len \<and> moved_ok E f mv f' k cur"
  shows "\<exists>ni. move_index snap_len tail_start mv idx = (ni, []) \<and> list_all2 (\<lambda>(k, e) (k', e'). k' = k \<and> same_entry E f f' k e e') idx ni"
  using assms
proof (induction idx)
  case (Cons x idx)
  obtain k cur where x: "x = (k, cur)" by (cases x)
  obtain ni where ni: "move_index snap_len tail_start mv idx = (ni, [])"
    "list_all2 (\<lambda>(k, e) (k', e'). k' = k \<and> same_entry E f f' k e e') idx ni"
    using Cons by auto
  show ?case
  proof (cases "snap_len \<le> e_offset cur")
    case True
    then have "same_entry E f f' k cur (cur\<lparr>e_offset := e_offset cur - snap_len + tail_start\<rparr>)" using Cons.prems x by auto
    with True ni x show ?thesis by auto
  next
    case False
    then obtain ne where "map_of mv k = Some (e_offset cur, ne)" "same_entry E f f' k cur (ne\<lparr>e_version := e_version cur\<rparr>)"
      using Cons.prems x by (auto simp: moved_ok_def same_entry_def)
    with False ni x show ?thesis by auto
  qed
qed simp

lemma om_get_list_all2:
  assumes "list_all2 (\<lambda>(k, e) (k', e'). k' = k \<and> P k e e') idx ni"
  shows "rel_option (P k) (om_get idx k) (om_get ni k)" and "map fst ni = map fst idx"
  using assms by (induction rule: list_all2_induct) (auto split: prod.splits)

lemma store_ok_moved:
  assumes "store_ok E s" and t: "t = recount s'" and "i_seq s' = i_seq s" and "i_sec s' = i_sec s" and "i_cache s' = i_cache s"
    and "i_file_len s' = length (i_file s')" and "FILE_HEADER_LEN \<le> length (i_file s')"
    and ents: "list_all2 (\<lambda>(k, e) (k', e'). k' = k \<and> same_entry E (i_file s) (i_file s') k e e') (i_index s) (i_index s')"
  shows "store_ok E t" and "stored E t = stored E s"
proof -
  note b = store_okD [OF assms(1)]
  note rel = om_get_list_all2(1) [OF ents] and keys = om_get_list_all2(2) [OF ents]
  have f: "i_file t = i_file s'" "i_index t = i_index s'" "i_seq t = i_seq s'" "i_sec t = i_sec s'" "i_cache t = i_cache s'"
    "i_file_len t = i_file_len s'" by (simp_all add: t recount_def)
  have ok: "om_ok (i_index s')" using b(4) keys by (simp add: om_ok_def)
  have "docs_of E (i_file s') (i_index s') k = docs_of E (i_file s) (i_index s) k"
    "cache_truth E (i_file s') (i_index s') k n = cache_truth E (i_file s) (i_index s) k n" for k n
    using rel [of k] by (cases rule: option.rel_cases; auto simp: docs_of_def cache_truth_def same_entry_def)+
  then have docs: "docs_of E (i_file s') (i_index s') = docs_of E (i_file s) (i_index s)"
    and truth: "cache_truth E (i_file s') (i_index s') = cache_truth E (i_file s) (i_index s)" by blast+
  have "entry_ok E (i_file s') (i_seq s) k e'" if e': "om_get (i_index s') k = Some e'" for k e'
  proof -
    from rel [of k] e' obtain e where e: "om_get (i_index s) k = Some e" "same_entry E (i_file s) (i_file s') k e e'"
      by (auto elim: option.rel_cases)
    show ?thesis by (rule store_ok_entry [OF assms(1) e(1)]) (use e(2) in \<open>auto simp: entry_ok_def same_entry_def\<close>)
  qed
  then have "list_all (\<lambda>(k, e). entry_ok E (i_file t) (i_seq t) k e) (i_index t)"
    using ok assms(3) by (simp add: f list_all_om)
  moreover have "books_ok t"
    unfolding t using ok b(1) assms(4,5) by (intro books_ok_recount) (simp_all add: books_ok_def)
  ultimately show "store_ok E t" using assms(1,3-7) by (simp add: store_ok_def f docs truth)
  have "stored E t k = stored E s k" for k
    using rel [of k] by (cases rule: option.rel_cases) (auto simp: stored_def f same_entry_def)
  then show "stored E t = stored E s" by blast
qed

lemma mark_compaction_frame:
  assumes "mark_compaction E c new_id pos s = (r, t)"
  shows "\<exists>j. t = s\<lparr>i_changes := j\<rparr>"
proof (cases "i_changes s")
  case None
  with assms show ?thesis by (intro exI [of _ "i_changes s"]) (simp add: mark_compaction_def)
next
  case (Some j)
  with assms show ?thesis by (auto simp: mark_compaction_def split: sum.splits prod.splits)
qed

text \<open>What the last phase finds: the state after other calls, and the copy made of the snapshot.\<close>

definition compactable :: "engine_env \<Rightarrow> snapshot \<Rightarrow> bytes \<Rightarrow> inner \<Rightarrow> bool" where
  "compactable E snap f s \<longleftrightarrow> store_ok E s \<and> sn_len snap \<le> length (i_file s) \<and> FILE_HEADER_LEN \<le> sn_len snap \<and>
     om_ok (sn_entries snap) \<and>
     (\<forall>k e. om_get (sn_entries snap) k = Some e \<longrightarrow> FILE_HEADER_LEN \<le> e_offset e \<and> entry_value E f e \<noteq> None \<and> entry_shaped E f k e) \<and>
     (\<forall>off m rec. FILE_HEADER_LEN \<le> off \<longrightarrow> read_at f off m = Some rec \<longrightarrow> read_at (i_file s) off m = Some rec) \<and>
     (\<forall>k e. om_get (i_index s) k = Some e \<longrightarrow> om_get (sn_entries snap) k = Some e \<or> sn_len snap \<le> e_offset e)"

lemma tail_entry:
  assumes ok: "store_ok E s" and e: "om_get (i_index s) k = Some e" "n \<le> e_offset e" and n: "FILE_HEADER_LEN \<le> length out"
    and h: "header_written (out @ drop n (i_file s)) f'"
  shows "same_entry E (i_file s) f' k e (e\<lparr>e_offset := e_offset e - n + length out\<rparr>)"
proof -
  let ?off = "e_offset e - n + length out" and ?f = "out @ drop n (i_file s)"
  obtain v where v: "entry_value E (i_file s) e = Some v" "entry_shaped E (i_file s) k e" by (rule store_ok_entry [OF ok e(1)])
  then obtain rec where r: "read_at (i_file s) (e_offset e) (rec_len e) = Some rec" by (auto simp: entry_shaped_def)
  then have "read_at ?f ?off (rec_len e) = Some rec" using e(2) by (auto simp: read_at_def split: if_splits)
  then have "read_at f' ?off (rec_len e) = Some rec"
    using header_written_facts(3) [OF h, of ?off "rec_len e"] n by simp
  note mv = entry_value_moved [OF r this]
  show ?thesis using mv v n by (simp add: same_entry_def)
qed

lemma compact_finish_ok:
  assumes cp: "compactable E snap f s" and env: "env_ok E" "\<And>i. nonce_ok (rng i)"
    and st: "\<not> i_closed s" "i_file_id s = sn_id snap"
  obtains res where "compact_copy E rng recompress new_id f snap = Inr res"
    and "\<And>r s'. compact_finish E c fault new_id snap res s = (r, s') \<Longrightarrow>
      store_ok E s' \<and> stored E s' = stored E s \<and> i_sec s' = i_sec s \<and> \<not> i_closed s'"
    and "i_changes s = None \<Longrightarrow> fault = None \<Longrightarrow>
      \<exists>rep. fst (compact_finish E c fault new_id snap res s) = Inr rep \<and> \<not> cr_aborted rep \<and> cr_dropped rep = 0"
proof -
  have ok: "store_ok E s" and len: "sn_len snap \<le> length (i_file s)" "FILE_HEADER_LEN \<le> sn_len snap" and sok: "om_ok (sn_entries snap)"
    and ents: "\<And>k e. om_get (sn_entries snap) k = Some e \<Longrightarrow>
      FILE_HEADER_LEN \<le> e_offset e \<and> entry_value E f e \<noteq> None \<and> entry_shaped E f k e"
    and kept: "\<And>off m rec. FILE_HEADER_LEN \<le> off \<Longrightarrow> read_at f off m = Some rec \<Longrightarrow> read_at (i_file s) off m = Some rec"
    and fresh: "\<And>k e. om_get (i_index s) k = Some e \<Longrightarrow> om_get (sn_entries snap) k = Some e \<or> sn_len snap \<le> e_offset e"
    using cp by (auto simp: compactable_def)
  note b = store_okD [OF ok]
  have "\<forall>(k, e) \<in> set (sn_entries snap). entry_value E f e \<noteq> None \<and> entry_shaped E f k e"
    using ents sok by (auto simp: om_get_Some_iff)
  from copy_records_ok [where rng = rng and recompress = recompress and i = 0, OF om_ok_distinct [OF sok] this env order_refl]
  obtain out mv where cr: "copy_records E rng recompress f 0 FILE_HEADER_LEN (sn_entries snap) = Inr (out, mv, 0)"
    and mo: "\<And>pre post. length pre = FILE_HEADER_LEN \<Longrightarrow> \<forall>(k, e) \<in> set (sn_entries snap). moved_ok E f mv (pre @ out @ post) k e"
    by auto
  let ?hdr = "file_header new_id FORMAT_V1"
  let ?out = "?hdr @ out" and ?tail = "drop (sn_len snap) (i_file s)"
  define f' where "f' = (if i_format s > FORMAT_V1 then write_at 4 (le_bytes 4 (i_format s)) (?out @ ?tail) else ?out @ ?tail)"
  have hl: "length ?hdr = FILE_HEADER_LEN" by (simp add: file_header_def MAGIC_def len_defs)
  have h: "header_written (?out @ ?tail) f'"
    by (auto simp: header_written_def f'_def intro!: exI [of _ "le_bytes 4 (i_format s)"])
  note hw = header_written_facts [OF h]
  have f'l: "length f' = length ?out + length ?tail" using hw(1) hl by simp
  have copied: "moved_ok E (i_file s) mv f' k e" if e: "om_get (sn_entries snap) k = Some e" for k e
  proof -
    have "moved_ok E f mv (?hdr @ out @ ?tail) k e" using mo [OF hl, of ?tail] e sok by (auto simp: om_get_Some_iff)
    then obtain ne where ne: "map_of mv k = Some (e_offset e, ne)" "FILE_HEADER_LEN \<le> e_offset ne"
      "e_expires_at ne = e_expires_at e" "entry_value E (?out @ ?tail) ne = entry_value E f e" "entry_shaped E (?out @ ?tail) k ne"
      by (auto simp: moved_ok_def)
    obtain rec where r: "read_at f (e_offset e) (rec_len e) = Some rec" using ents [OF e] by (auto simp: entry_shaped_def)
    have "entry_value E (i_file s) e = entry_value E f e"
      using read_same(1) [of "i_file s" e f E] kept [OF _ r] r ents [OF e] by simp
    moreover have "entry_value E f' ne = entry_value E (?out @ ?tail) ne" "entry_shaped E f' k ne = entry_shaped E (?out @ ?tail) k ne"
      using read_same [of f' ne "?out @ ?tail" E] hw(3) [of "e_offset ne"] ne(2) hl by simp_all
    ultimately show ?thesis using ne by (simp add: moved_ok_def)
  qed
  have "\<forall>(k, cur) \<in> set (i_index s). sn_len snap \<le> e_offset cur \<and>
        same_entry E (i_file s) f' k cur (cur\<lparr>e_offset := e_offset cur - sn_len snap + length ?out\<rparr>) \<or>
      e_offset cur < sn_len snap \<and> moved_ok E (i_file s) mv f' k cur"
    using tail_entry [OF ok _ _ _ h] fresh copied b(4) hl by (fastforce simp: om_get_Some_iff not_less)
  from move_index_ok [OF this] obtain ni where ni: "move_index (sn_len snap) (length ?out) mv (i_index s) = (ni, [])"
    "list_all2 (\<lambda>(k, e) (k', e'). k' = k \<and> same_entry E (i_file s) f' k e e') (i_index s) ni" by blast
  define s2 where "s2 j = s\<lparr>i_changes := j, i_file := f', i_index := ni, i_file_len := length ?out + length ?tail,
    i_file_id := new_id\<rparr>" for j
  have s2: "store_ok E (recount (s2 j))" "stored E (recount (s2 j)) = stored E s" for j
    using store_ok_moved [OF ok refl, of "s2 j"] ni(2) f'l hl by (simp_all add: s2_def)
  show thesis
  proof (rule that)
    show "compact_copy E rng recompress new_id f snap = Inr (?out, mv, 0)" by (simp add: compact_copy_def cr)
    have tl: "(if i_file_len s > sn_len snap then read_at (i_file s) (sn_len snap) (i_file_len s - sn_len snap) else Some []) = Some ?tail"
      using b(2) len by (auto simp: read_at_def)
    obtain rm t where m: "mark_compaction E c new_id (length ?out + length ?tail) s = (rm, t)"
      by (cases "mark_compaction E c new_id (length ?out + length ?tail) s")
    obtain j where t: "t = s\<lparr>i_changes := j\<rparr>" using mark_compaction_frame [OF m] by blast
    have fin: "compact_finish E c fault new_id snap (?out, mv, 0) s = (case rm of Inl err \<Rightarrow> (Inl err, t)
      | Inr _ \<Rightarrow> (case fault of Some why \<Rightarrow> (Inl (Io why), t)
         | None \<Rightarrow> (Inr \<lparr>cr_before = i_file_len s, cr_after = length ?out + length ?tail, cr_records = length ni, cr_dropped = 0, cr_aborted = False\<rparr>,
            recount (s2 j))))"
      using st tl m ni(1)
      by (simp add: compact_finish_def Let_def t s2_def f'_def recount_def split: sum.splits option.splits)
    have tk: "store_ok E t" "stored E t = stored E s" using store_ok_same_simple [OF ok, of t] t by simp_all
    show "store_ok E s' \<and> stored E s' = stored E s \<and> i_sec s' = i_sec s \<and> \<not> i_closed s'"
      if "compact_finish E c fault new_id snap (?out, mv, 0) s = (r, s')" for r s'
      using that fin s2 tk t st by (auto simp: recount_def s2_def split: sum.splits option.splits)
    show "\<exists>rep. fst (compact_finish E c fault new_id snap (?out, mv, 0) s) = Inr rep \<and> \<not> cr_aborted rep \<and> cr_dropped rep = 0"
      if "i_changes s = None" "fault = None"
      using that fin m by (auto simp: mark_compaction_def)
  qed
qed

subsection \<open>Compaction among other calls\<close>

lemma drop_keys_ok:
  "store_ok E s \<Longrightarrow> store_ok E (drop_keys ks s) \<and> no_unique (drop_keys ks s) = no_unique s"
proof (induction ks arbitrary: s)
  case (Cons k ks)
  let ?t = "tell_expired k (snd (idx_remove k s))"
  have "store_ok E ?t" using store_ok_same_simple(1) [OF store_ok_remove(1) [OF Cons.prems, of k], of ?t] by simp
  with Cons.IH [of ?t] show ?case using no_unique_cong [of ?t "snd (idx_remove k s)"] by simp
qed simp

lemma purge_all_ok:
  assumes "store_ok E s"
  shows "store_ok E (purge_all_expired now s)" and "at_time now (stored E (purge_all_expired now s)) = at_time now (stored E s)"
    and "no_unique (purge_all_expired now s) = no_unique s" and "i_closed (purge_all_expired now s) = i_closed s"
    and "i_file_id (purge_all_expired now s) = i_file_id s"
proof -
  note b = store_okD(1) [OF assms]
  have eq: "purge_all_expired now s = drop_keys (first_keys (due now s) s) s"
    using purge_loop_drop [OF b, of now "Suc (length (i_expiry s))"] due_le [of now s]
    by (simp only: purge_all_expired_def less_Suc_eq_le option.case)
  show "store_ok E (purge_all_expired now s)" "no_unique (purge_all_expired now s) = no_unique s"
    "i_closed (purge_all_expired now s) = i_closed s" "i_file_id (purge_all_expired now s) = i_file_id s"
    using drop_keys_ok [OF assms] by (simp_all add: eq)
  show "at_time now (stored E (purge_all_expired now s)) = at_time now (stored E s)"
    using purge_all_get(1,3) [OF b, where now = now]
    by (auto simp: fun_eq_iff at_time_def stored_def is_expired_dead split: option.splits)
qed

lemma compact_start_ok:
  assumes R: "engine_sim E t s m" and t: "t \<le> c_now c" and start: "compact_start c recompress s = (Inr snap, s1)"
  shows "engine_sim E (c_now c) s1 m" and "snap = \<lparr>sn_entries = i_index s1, sn_len = length (i_file s1), sn_id = i_file_id s1\<rparr>"
proof -
  let ?p = "purge_all_expired (c_now c) s"
  have ok: "store_ok E s" and m: "at_time (c_now c) (stored E s) = at_time (c_now c) m"
    using R at_time_later_cong [OF t, of "stored E s" m] by (simp_all add: engine_sim_def)
  note p = purge_all_ok [OF ok, of "c_now c"]
  have s1: "s1 = (case recompress of Some a \<Rightarrow> ?p\<lparr>i_compression := a\<rparr> | None \<Rightarrow> ?p)"
    and sn: "snap = \<lparr>sn_entries = i_index s1, sn_len = i_file_len s1, sn_id = i_file_id s1\<rparr>" and cl: "\<not> i_closed s"
    using start by (auto simp: compact_start_def Let_def split: if_splits)
  have k: "store_ok E s1" "stored E s1 = stored E ?p" "no_unique s1 = no_unique ?p" "i_closed s1 = i_closed ?p"
    using store_ok_same_simple [OF p(1), of s1] by (auto simp: s1 no_unique_def split: option.splits)
  then show "engine_sim E (c_now c) s1 m" using p(2-4) m R by (simp add: engine_sim_def)
  show "snap = \<lparr>sn_entries = i_index s1, sn_len = length (i_file s1), sn_id = i_file_id s1\<rparr>" using sn store_okD(2) [OF k(1)] by simp
qed

lemma guarded_compactable:
  assumes s1: "store_ok E s1" and s3: "store_ok E s3"
    and g: "guarded (length (i_file s1)) s1 s2" "guarded (length (i_file s1)) s2 s3"
  shows "compactable E \<lparr>sn_entries = i_index s1, sn_len = length (i_file s1), sn_id = i\<rparr> (i_file s2) s3"
proof -
  note b = store_okD [OF s1]
  have "FILE_HEADER_LEN \<le> e_offset e \<and> entry_value E (i_file s2) e \<noteq> None \<and> entry_shaped E (i_file s2) k e"
    if e: "om_get (i_index s1) k = Some e" for k e
  proof -
    obtain v where v: "entry_value E (i_file s1) e = Some v" "FILE_HEADER_LEN \<le> e_offset e" "entry_shaped E (i_file s1) k e"
      by (rule store_ok_entry [OF s1 e])
    then obtain rec where "read_at (i_file s1) (e_offset e) (rec_len e) = Some rec" by (auto simp: entry_shaped_def)
    with guardedD(1) [OF g(1) v(2) this] v read_same [of "i_file s2" e "i_file s1" E] show ?thesis by simp
  qed
  moreover note guardedD(1) [OF g(2)] guardedD(2) [OF guarded_trans [OF g]] guardedD(5) [OF guarded_trans [OF g]]
  ultimately show ?thesis using s3 b(3,4) by (auto simp: compactable_def)
qed

lemma in_order_append:
  "in_order clock t (xs @ ys) \<Longrightarrow> in_order clock t xs \<and> (\<forall>u \<in> insert t (clock ` set xs). in_order clock u ys)"
proof (induction xs arbitrary: t)
  case (Cons x xs)
  have "in_order clock t ys" if "in_order clock (clock x) ys" "t \<le> clock x" using that by (cases ys) auto
  with Cons show ?case by auto
qed simp

lemma run_calls_append: "run_calls step (xs @ ys) s =
    (fst (run_calls step xs s) @ fst (run_calls step ys (snd (run_calls step xs s))), snd (run_calls step ys (snd (run_calls step xs s))))"
  by (induction xs arbitrary: s) (simp_all add: Let_def split: prod.splits)



end
