(* ===== verification/Failover.thy ===== *)
theory Failover
  imports Json Text
begin

text \<open>
  Automatic failover (\<^verbatim>\<open>src/failover.rs\<close>) and the state of a node's replication group
  (\<^verbatim>\<open>src/repl.rs\<close>). The record \<open>repl\<close> is a node: what it keeps in memory and, in \<open>saved\<close>, the settings the
  configuration file keeps over a restart. Other nodes are reached by requests; what they answer is an
  argument here (\<open>None\<close> when a node does not answer in time). Times are milliseconds of a clock that does
  not go back. Epochs and sequence numbers are natural numbers. The texts of events, of the audit log and
  of the status command are not modelled, nor is the thread that follows a master.
\<close>

record settings =
  fo_auto :: bool
  fo_heartbeat :: nat
  fo_timeout :: nat
  fo_quorum :: nat
  fo_priority :: nat

record candidate =
  ca_addr :: rstring
  ca_seq :: nat
  ca_priority :: nat

record link =
  lk_master :: rstring
  lk_running :: bool
  lk_applied_seq :: nat

record replica_conn =
  rc_listen :: rstring
  rc_node :: rstring
  rc_acked :: nat

record saved =
  sv_node :: rstring
  sv_epoch :: nat
  sv_voted :: nat
  sv_nodes :: rstring
  sv_role :: rstring
  sv_master_host :: rstring
  sv_master_port :: nat

record repl =
  rp_node :: rstring
  rp_advertised :: rstring
  rp_epoch :: nat
  rp_voted :: nat
  rp_peers :: "rstring list"
  rp_known :: "rstring list"
  rp_last_contact :: "nat option"
  rp_seq :: nat
  rp_replica :: bool
  rp_link :: link
  rp_replicas :: "replica_conn list"
  rp_saved :: saved

subsection \<open>Agreement\<close>

definition needed :: "nat \<Rightarrow> nat \<Rightarrow> nat" where
  "needed nodes configured = (if configured > 0 then configured else nodes div 2 + 1)"

definition cand_cmp :: "candidate \<Rightarrow> candidate \<Rightarrow> ordering" where
  "cand_cmp a b = then_ord (cmp_of (ca_seq a) (ca_seq b))
     (then_ord (cmp_of (ca_priority a) (ca_priority b)) (cmp_of (ca_addr b) (ca_addr a)))"

text \<open>\<^verbatim>\<open>Iterator::max_by\<close>: the last of the greatest elements.\<close>

fun max_by :: "('a \<Rightarrow> 'a \<Rightarrow> ordering) \<Rightarrow> 'a list \<Rightarrow> 'a option" where
  "max_by cmp [] = None"
| "max_by cmp (x # xs) = Some (fold (\<lambda>y acc. if cmp acc y = Greater then acc else y) xs x)"

definition best :: "candidate list \<Rightarrow> candidate option" where
  "best cs = max_by cand_cmp (filter (\<lambda>c. ca_priority c > 0) cs)"

definition grants :: "nat \<Rightarrow> nat \<Rightarrow> nat \<Rightarrow> bool \<Rightarrow> nat \<Rightarrow> nat \<Rightarrow> bool" where
  "grants epoch voted request_epoch master_down own_seq candidate_seq \<longleftrightarrow>
     request_epoch > epoch \<and> request_epoch > voted \<and> master_down \<and> candidate_seq \<ge> own_seq"

text \<open>\<^verbatim>\<open>rsplit_once\<close> at a colon, the brackets of an IPv6 address, and \<^verbatim>\<open>parse::<u16>\<close>.\<close>

definition rsplit_colon :: "rstring \<Rightarrow> (rstring \<times> rstring) option" where
  "rsplit_colon s = (if ch CHR '':'' \<in> set s
     then Some (rev (tl (dropWhile (\<lambda>c. c \<noteq> ch CHR '':'') (rev s))), rev (takeWhile (\<lambda>c. c \<noteq> ch CHR '':'') (rev s)))
     else None)"

definition trim_brackets :: "rstring \<Rightarrow> rstring" where
  "trim_brackets s = (let br = (\<lambda>c. c = ch CHR ''['' \<or> c = ch CHR '']'') in rev (dropWhile br (rev (dropWhile br s))))"

definition parse_port :: "rstring \<Rightarrow> nat option" where
  "parse_port s = (let ds = (case s of c # cs \<Rightarrow> if c = ch CHR ''+'' then cs else s | [] \<Rightarrow> []) in
     if ds \<noteq> [] \<and> list_all is_digit ds \<and> digits_value ds < 65536 then Some (digits_value ds) else None)"

definition host_port :: "rstring \<Rightarrow> (rstring \<times> nat) option" where
  "host_port addr = (case rsplit_colon addr of
     None \<Rightarrow> None
   | Some (h, p) \<Rightarrow> (case parse_port p of Some n \<Rightarrow> if n \<noteq> 0 then Some (trim_brackets h, n) else None | None \<Rightarrow> None))"

subsection \<open>The group as a node knows it\<close>

definition set_epoch :: "nat \<Rightarrow> repl \<Rightarrow> repl" where
  "set_epoch epoch r =
     (let changed = (epoch > rp_epoch r); r = r\<lparr>rp_epoch := max (rp_epoch r) epoch\<rparr>
      in if changed then r\<lparr>rp_saved := (rp_saved r)\<lparr>sv_epoch := epoch\<rparr>\<rparr> else r)"

definition set_voted :: "nat \<Rightarrow> repl \<Rightarrow> repl" where
  "set_voted epoch r = r\<lparr>rp_voted := epoch, rp_saved := (rp_saved r)\<lparr>sv_voted := epoch\<rparr>\<rparr>"

definition touch :: "nat \<Rightarrow> repl \<Rightarrow> repl" where
  "touch now r = r\<lparr>rp_last_contact := Some now\<rparr>"

definition known_nodes :: "repl \<Rightarrow> rstring list" where
  "known_nodes r = filter (\<lambda>n. n \<noteq> rp_advertised r) (rp_known r)"

text \<open>The list of nodes as one text, separated by commas.\<close>

fun join_comma :: "rstring list \<Rightarrow> rstring" where
  "join_comma [] = []"
| "join_comma [s] = s"
| "join_comma (s # t # ss) = s @ ch CHR '','' # join_comma (t # ss)"

fun split_comma :: "rstring \<Rightarrow> rstring list" where
  "split_comma [] = [[]]"
| "split_comma (c # cs) = (case split_comma cs of
     s # ss \<Rightarrow> if c = ch CHR '','' then [] # s # ss else (c # s) # ss
   | [] \<Rightarrow> [])"

definition remember :: "rstring list \<Rightarrow> repl \<Rightarrow> repl" where
  "remember nodes r =
     (let known = fold (\<lambda>n ks. if n \<noteq> [] \<and> n \<notin> set ks then ks @ [n] else ks) nodes (rp_known r);
          grown = (length known \<noteq> length (rp_known r)); r = r\<lparr>rp_known := known\<rparr>
      in if grown then r\<lparr>rp_saved := (rp_saved r)\<lparr>sv_nodes := join_comma known\<rparr>\<rparr> else r)"

text \<open>A new node id is the text of a random number; without the generator a node has none.\<close>

definition load_identity :: "string + rstring \<Rightarrow> repl \<Rightarrow> (string + unit) \<times> repl" where
  "load_identity rnd r =
     (case (if sv_node (rp_saved r) = [] then rnd else Inr (sv_node (rp_saved r))) of
        Inl err \<Rightarrow> (Inl err, r)
      | Inr node \<Rightarrow> (Inr (), r\<lparr>rp_node := node, rp_epoch := max (rp_epoch r) (sv_epoch (rp_saved r)),
            rp_voted := max (rp_voted r) (sv_voted (rp_saved r)),
            rp_known := filter (\<lambda>s. s \<noteq> []) (split_comma (sv_nodes (rp_saved r))),
            rp_saved := (rp_saved r)\<lparr>sv_node := node\<rparr>\<rparr>))"

definition heartbeat :: "nat \<Rightarrow> repl \<Rightarrow> json \<times> repl" where
  "heartbeat now r =
     (let nodes = map (\<lambda>c. JObject [(lit ''addr'', JString (rc_listen c)), (lit ''node'', JString (rc_node c)),
            (lit ''acked'', JNumber (PosInt (rc_acked c)))]) (rp_replicas r);
          r = remember (map rc_listen (rp_replicas r)) r
      in (JObject [(lit ''epoch'', JNumber (PosInt (rp_epoch r))), (lit ''seq'', JNumber (PosInt (rp_seq r))),
            (lit ''nodes'', JArray nodes), (lit ''time'', JNumber (PosInt now))], r))"

definition learn_node :: "rstring \<Rightarrow> json \<Rightarrow> rstring list \<times> repl \<Rightarrow> rstring list \<times> repl" where
  "learn_node me n = (\<lambda>(peers, r).
     let addr = or_default [] (as_str (json_at n ''addr'')) in
     if as_str (json_at n ''node'') = Some me then (peers, r\<lparr>rp_advertised := addr\<rparr>)
     else if addr \<noteq> [] then (peers @ [addr], r) else (peers, r))"

definition learn :: "rstring \<Rightarrow> json option \<Rightarrow> repl \<Rightarrow> repl" where
  "learn master payload r = (case payload of
     None \<Rightarrow> r
   | Some j \<Rightarrow>
       (let r = set_epoch (or_default 0 (json_u64 (json_at j ''epoch''))) r;
            (peers, r) = fold (learn_node (rp_node r)) (or_default [] (as_array (json_at j ''nodes''))) ([], r)
        in remember (peers @ [master]) (r\<lparr>rp_peers := peers\<rparr>)))"

definition stop_replica :: "repl \<Rightarrow> repl" where
  "stop_replica r = r\<lparr>rp_link := (rp_link r)\<lparr>lk_running := False\<rparr>\<rparr>"

definition promote :: "repl \<Rightarrow> repl" where
  "promote r = (stop_replica r)\<lparr>rp_replica := False\<rparr>"

definition start_replica :: "rstring \<Rightarrow> nat \<Rightarrow> repl \<Rightarrow> repl" where
  "start_replica host port r = r\<lparr>rp_replica := True,
     rp_link := \<lparr>lk_master = host @ ch CHR '':'' # show_nat port, lk_running = True, lk_applied_seq = 0\<rparr>\<rparr>"

text \<open>A planned handover: the master asks this replica to take over.\<close>

definition handover :: "repl \<Rightarrow> repl" where
  "handover r = (let r = promote r; r = set_epoch (rp_epoch r + 1) r
     in r\<lparr>rp_saved := (rp_saved r)\<lparr>sv_role := lit ''master''\<rparr>\<rparr>)"

subsection \<open>Requests\<close>

definition master_silent :: "nat \<Rightarrow> nat \<Rightarrow> repl \<Rightarrow> bool" where
  "master_silent now timeout r \<longleftrightarrow> rp_replica r \<and> lk_running (rp_link r) \<and>
     (case rp_last_contact r of None \<Rightarrow> True | Some t \<Rightarrow> now - t \<ge> timeout)"

definition follow_new_master :: "rstring \<Rightarrow> nat \<Rightarrow> repl \<Rightarrow> repl" where
  "follow_new_master master epoch r = (case host_port master of
     None \<Rightarrow> r
   | Some (host, port) \<Rightarrow>
       (let r = set_epoch epoch r in
        if rp_replica r \<and> lk_master (rp_link r) = master then r
        else start_replica host port (r\<lparr>rp_saved := (rp_saved r)\<lparr>sv_role := lit ''replica'', sv_master_host := host,
               sv_master_port := port\<rparr>, rp_replicas := []\<rparr>)))"

definition handle :: "settings \<Rightarrow> nat \<Rightarrow> json \<Rightarrow> repl \<Rightarrow> json \<times> repl" where
  "handle s now req r =
     (let op = as_str (json_at req ''op'');
          epoch = or_default 0 (json_u64 (json_at req ''epoch''))
      in if op = Some (lit ''probe'') then
           (JObject [(lit ''node'', JString (rp_node r)),
              (lit ''role'', JString (if rp_replica r then lit ''replica'' else lit ''master'')),
              (lit ''master'', JString (if rp_replica r then lk_master (rp_link r) else [])),
              (lit ''master_down'', JBool (master_silent now (fo_timeout s) r)),
              (lit ''seq'', JNumber (PosInt (if rp_replica r then lk_applied_seq (rp_link r) else rp_seq r))),
              (lit ''epoch'', JNumber (PosInt (rp_epoch r))),
              (lit ''priority'', JNumber (PosInt (fo_priority s))), (lit ''auto'', JBool (fo_auto s))], r)
         else if op = Some (lit ''vote'') then
           (let seq = or_default 0 (json_u64 (json_at req ''seq''));
                granted = (fo_auto s \<and> grants (rp_epoch r) (rp_voted r) epoch (master_silent now (fo_timeout s) r)
                  (lk_applied_seq (rp_link r)) seq);
                r = (if granted then set_voted epoch r else r)
            in (JObject [(lit ''granted'', JBool granted), (lit ''epoch'', JNumber (PosInt (rp_epoch r)))], r))
         else if op = Some (lit ''announce'') then
           (let master = or_default [] (as_str (json_at req ''master''));
                r = (if epoch \<ge> rp_epoch r \<and> master \<noteq> [] then follow_new_master master epoch r else r)
            in (JObject [(lit ''ok'', JBool True), (lit ''epoch'', JNumber (PosInt (rp_epoch r)))], r))
         else (JObject [(lit ''error'', JString (lit ''unknown failover request''))], r))"

text \<open>A master that lost its replicas asks the nodes it knew; the answers are in their order.\<close>

fun check_replaced :: "(rstring \<times> json option) list \<Rightarrow> repl \<Rightarrow> repl" where
  "check_replaced [] r = r"
| "check_replaced ((addr, answer) # rest) r = (case answer of
     None \<Rightarrow> check_replaced rest r
   | Some a \<Rightarrow>
       if as_str (json_at a ''node'') = Some (rp_node r) then check_replaced rest r
       else (let epoch = or_default 0 (json_u64 (json_at a ''epoch'')) in
             if epoch \<le> rp_epoch r then check_replaced rest r
             else (let master = (if as_str (json_at a ''role'') = Some (lit ''master'') then addr
                         else or_default [] (as_str (json_at a ''master'')))
                   in if master \<noteq> [] then follow_new_master master epoch r else check_replaced rest r)))"

subsection \<open>An election\<close>

text \<open>
  \<^verbatim>\<open>elect\<close> in its steps. What the thread of an election keeps in its local variables while it asks for votes
  is the record \<open>election\<close>; the thread serves no requests, other threads of the node do.
\<close>

record election =
  el_epoch :: nat
  el_me :: rstring
  el_seq :: nat
  el_nodes :: nat
  el_needed :: nat
  el_ask :: "rstring list"
  el_votes :: nat

datatype plan = Refused string | Found rstring nat | Agreed "candidate list" nat

fun gather :: "repl \<Rightarrow> (rstring \<times> json option) list \<Rightarrow> candidate list \<Rightarrow> nat \<Rightarrow> plan" where
  "gather r [] agree highest = Agreed agree highest"
| "gather r ((p, answer) # rest) agree highest = (case answer of
     None \<Rightarrow> gather r rest agree highest
   | Some a \<Rightarrow>
       (let epoch = or_default 0 (json_u64 (json_at a ''epoch'')); highest = max highest epoch in
        if json_at a ''role'' = JString (lit ''master'') \<and> epoch \<ge> rp_epoch r then Found p epoch
        else if json_at a ''master_down'' = JBool True \<and> json_at a ''auto'' = JBool True \<and>
            as_str (json_at a ''master'') = Some (lk_master (rp_link r)) then
          gather r rest (agree @ [\<lparr>ca_addr = p, ca_seq = or_default 0 (json_u64 (json_at a ''seq'')),
            ca_priority = or_default 0 (json_u64 (json_at a ''priority''))\<rparr>]) highest
        else gather r rest agree highest))"

definition elect_peers :: "repl \<Rightarrow> rstring list" where
  "elect_peers r = filter (\<lambda>p. p \<noteq> rp_advertised r) (rp_peers r)"

definition elect_plan :: "settings \<Rightarrow> json option \<Rightarrow> json option list \<Rightarrow> repl \<Rightarrow> plan" where
  "elect_plan s master_answer answers r =
     (if master_answer \<noteq> None then Refused ''the master still answers''
      else case gather r (zip (elect_peers r) answers)
             [\<lparr>ca_addr = rp_advertised r, ca_seq = lk_applied_seq (rp_link r), ca_priority = fo_priority s\<rparr>] (rp_epoch r) of
          Agreed agree highest \<Rightarrow>
            if length agree < needed (length (elect_peers r) + 2) (fo_quorum s) then Refused ''too few nodes see it down''
            else (case best agree of
                None \<Rightarrow> Refused ''no replica may become master''
              | Some winner \<Rightarrow> if ca_addr winner \<noteq> rp_advertised r then Refused ''waiting for a better placed replica''
                  else Agreed agree highest)
        | p \<Rightarrow> p)"

text \<open>
  The vote of the candidate itself. What the election read of the node when it began is \<open>r0\<close>; only the
  last vote is read again.
\<close>

definition elect_open :: "settings \<Rightarrow> candidate list \<Rightarrow> nat \<Rightarrow> repl \<Rightarrow> repl \<Rightarrow> election \<times> repl" where
  "elect_open s agree highest r0 r =
     (let nodes = length (elect_peers r0) + 2; epoch = max highest (rp_voted r) + 1; me = rp_advertised r0
      in (\<lparr>el_epoch = epoch, el_me = me, el_seq = lk_applied_seq (rp_link r0), el_nodes = nodes,
           el_needed = needed nodes (fo_quorum s), el_ask = map ca_addr (filter (\<lambda>c. ca_addr c \<noteq> me) agree), el_votes = 1\<rparr>,
          set_voted epoch r))"

definition vote_request :: "election \<Rightarrow> json" where
  "vote_request el = JObject [(lit ''op'', JString (lit ''vote'')), (lit ''epoch'', JNumber (PosInt (el_epoch el))),
     (lit ''candidate'', JString (el_me el)), (lit ''seq'', JNumber (PosInt (el_seq el)))]"

definition count_vote :: "json option \<Rightarrow> election \<Rightarrow> election" where
  "count_vote answer el =
     (let v = (case answer of Some a \<Rightarrow> if json_at a ''granted'' = JBool True then 1 else 0 | None \<Rightarrow> 0)
      in el\<lparr>el_votes := el_votes el + v, el_ask := tl (el_ask el)\<rparr>)"

definition elect_close :: "election \<Rightarrow> repl \<Rightarrow> (string + unit) \<times> repl" where
  "elect_close el r =
     (if el_votes el < el_needed el then (Inl ''too few votes'', r)
      else (let r = set_epoch (el_epoch el) (promote r)
            in (Inr (), r\<lparr>rp_saved := (rp_saved r)\<lparr>sv_role := lit ''master''\<rparr>\<rparr>)))"

end
