(* ===== verification/Election.thy ===== *)
theory Election
  imports Failover
begin

text \<open>
  A group of nodes that run \<^verbatim>\<open>src/failover.rs\<close>, as a step relation: nodes serve requests from anybody at
  any time, hold elections, ask one another for votes, hear heartbeats, hand over, restart. Requests and
  answers can be lost, and a request can be served after its sender gave up. A vote is decided and recorded
  in one step. The votes given and the masters elected are recorded beside the nodes.
\<close>

subsection \<open>One vote per epoch\<close>

text \<open>
  The abstract contract: each step records at most one vote, of a member that has not voted in that
  epoch, and makes a master only of one that has more than half of the members' votes.
\<close>

locale voting =
  fixes step :: "'s \<Rightarrow> 's \<Rightarrow> bool" and G :: "'v set"
    and ballots :: "'s \<Rightarrow> ('v \<times> nat \<times> 'c) set" and masters :: "'s \<Rightarrow> (nat \<times> 'c) set"
    and inv :: "'s \<Rightarrow> bool"
  assumes members: "finite G"
    and inv_step: "inv s \<Longrightarrow> step s s' \<Longrightarrow> inv s'"
    and one_vote: "inv s \<Longrightarrow> step s s' \<Longrightarrow> ballots s' = ballots s \<or>
      (\<exists>v e c. v \<in> G \<and> (\<forall>c'. (v, e, c') \<notin> ballots s) \<and> ballots s' = insert (v, e, c) (ballots s))"
    and majority: "inv s \<Longrightarrow> step s s' \<Longrightarrow> masters s' = masters s \<or>
      (\<exists>e c. card G < 2 * card {v. (v, e, c) \<in> ballots s} \<and> masters s' = insert (e, c) (masters s))"
begin

definition sound :: "'s \<Rightarrow> bool" where
  "sound s \<longleftrightarrow> inv s \<and> (\<forall>v e c. (v, e, c) \<in> ballots s \<longrightarrow> v \<in> G) \<and>
     (\<forall>v e c c'. (v, e, c) \<in> ballots s \<longrightarrow> (v, e, c') \<in> ballots s \<longrightarrow> c = c') \<and>
     (\<forall>e c. (e, c) \<in> masters s \<longrightarrow> card G < 2 * card {v. (v, e, c) \<in> ballots s})"

lemma sound_step:
  assumes "sound s" and "step s s'"
  shows "sound s'"
proof -
  have inv: "inv s" "inv s'" using assms inv_step by (auto simp: sound_def)
  have old: "\<And>v e c. (v, e, c) \<in> ballots s \<Longrightarrow> v \<in> G"
    "\<And>v e c c'. (v, e, c) \<in> ballots s \<Longrightarrow> (v, e, c') \<in> ballots s \<Longrightarrow> c = c'"
    using assms(1) by (auto simp: sound_def)
  note new = one_vote [OF inv(1) assms(2)]
  have in_G: "v \<in> G" if "(v, e, c) \<in> ballots s'" for v e c
    using new that old(1) by auto
  have once: "c = c'" if "(v, e, c) \<in> ballots s'" "(v, e, c') \<in> ballots s'" for v e c c'
    using new that old(2) by auto
  have grow: "ballots s \<subseteq> ballots s'" using new by auto
  have grows: "card {v. (v, e, c) \<in> ballots s} \<le> card {v. (v, e, c) \<in> ballots s'}" for e c
    using grow in_G by (intro card_mono finite_subset [OF _ members]) auto
  have "card G < 2 * card {v. (v, e, c) \<in> ballots s'}" if "(e, c) \<in> masters s'" for e c
  proof -
    have "card G < 2 * card {v. (v, e, c) \<in> ballots s}"
      using majority [OF inv(1) assms(2)] that assms(1) by (auto simp: sound_def)
    then show ?thesis using grows [of e c] by linarith
  qed
  then show ?thesis using inv in_G once unfolding sound_def by blast
qed

lemma sound_steps: "step\<^sup>*\<^sup>* s s' \<Longrightarrow> sound s \<Longrightarrow> sound s'"
  by (induction rule: rtranclp_induct) (auto intro: sound_step)

lemma sound_start: "inv s \<Longrightarrow> ballots s = {} \<Longrightarrow> masters s = {} \<Longrightarrow> sound s"
  by (simp add: sound_def)

text \<open>Two majorities share a voter, who voted once.\<close>

lemma one_master:
  assumes "sound s" and "(e, a) \<in> masters s" and "(e, b) \<in> masters s"
  shows "a = b"
proof -
  let ?A = "{v. (v, e, a) \<in> ballots s}" and ?B = "{v. (v, e, b) \<in> ballots s}"
  have sub: "?A \<union> ?B \<subseteq> G" using assms(1) by (auto simp: sound_def)
  have "card G < 2 * card ?A" "card G < 2 * card ?B" using assms by (auto simp: sound_def)
  moreover have "card (?A \<union> ?B) \<le> card G" using sub members by (intro card_mono) auto
  moreover have fin: "finite ?A" "finite ?B" using sub members finite_subset by blast+
  ultimately have "?A \<inter> ?B \<noteq> {}" using card_Un_disjoint [OF fin] by linarith
  then show ?thesis using assms(1) unfolding sound_def by blast
qed

end

subsection \<open>The group\<close>

datatype progress = Idle | Probing repl | Asking election

record 'n cluster =
  cl_node :: "'n \<Rightarrow> repl"
  cl_elect :: "'n \<Rightarrow> progress"
  cl_ballots :: "('n \<times> nat \<times> 'n option) set"
  cl_masters :: "(nat \<times> 'n option) set"

definition granted :: "json \<Rightarrow> bool" where
  "granted answer \<longleftrightarrow> json_at answer ''granted'' = JBool True"

definition ballot :: "'n \<Rightarrow> json \<Rightarrow> 'n option \<Rightarrow> json \<Rightarrow> ('n \<times> nat \<times> 'n option) set \<Rightarrow> ('n \<times> nat \<times> 'n option) set" where
  "ballot v req c answer B =
     (if granted answer then insert (v, or_default 0 (json_u64 (json_at req ''epoch'')), c) B else B)"

text \<open>A node after a restart, before it has read its settings.\<close>

definition restarted :: "repl \<Rightarrow> repl" where
  "restarted r = \<lparr>rp_node = [], rp_advertised = [], rp_epoch = 0, rp_voted = 0, rp_peers = [], rp_known = [],
     rp_last_contact = None, rp_seq = 0, rp_replica = False,
     rp_link = \<lparr>lk_master = [], lk_running = False, lk_applied_seq = 0\<rparr>, rp_replicas = [], rp_saved = rp_saved r\<rparr>"

text \<open>
  \<open>route\<close> gives the node an address leads to, \<open>allowed\<close> restricts the elections considered.
\<close>

inductive cluster_step :: "'n set \<Rightarrow> (rstring \<Rightarrow> 'n option) \<Rightarrow> (election \<Rightarrow> bool) \<Rightarrow> 'n cluster \<Rightarrow> 'n cluster \<Rightarrow> bool"
  for G route allowed where
  serve: "n \<in> G \<Longrightarrow> handle s now req (cl_node c n) = (answer, r) \<Longrightarrow>
    cluster_step G route allowed c (c\<lparr>cl_node := (cl_node c)(n := r), cl_ballots := ballot n req None answer (cl_ballots c)\<rparr>)"
| begin_election: "n \<in> G \<Longrightarrow> cl_elect c n = Idle \<Longrightarrow> fo_auto (s :: settings) \<Longrightarrow> master_silent now (fo_timeout s) (cl_node c n) \<Longrightarrow>
    cluster_step G route allowed c (c\<lparr>cl_elect := (cl_elect c)(n := Probing (cl_node c n))\<rparr>)"
| give_up: "n \<in> G \<Longrightarrow> cl_elect c n = Probing r0 \<Longrightarrow> elect_plan s ma answers r0 = Refused why \<Longrightarrow>
    cluster_step G route allowed c (c\<lparr>cl_elect := (cl_elect c)(n := Idle)\<rparr>)"
| join: "n \<in> G \<Longrightarrow> cl_elect c n = Probing r0 \<Longrightarrow> elect_plan s ma answers r0 = Found p epoch \<Longrightarrow>
    cluster_step G route allowed c
      (c\<lparr>cl_node := (cl_node c)(n := follow_new_master p epoch (cl_node c n)), cl_elect := (cl_elect c)(n := Idle)\<rparr>)"
| stand: "n \<in> G \<Longrightarrow> cl_elect c n = Probing r0 \<Longrightarrow> length answers = length (elect_peers r0) \<Longrightarrow>
    elect_plan s ma answers r0 = Agreed agree highest \<Longrightarrow>
    elect_open s agree highest r0 (cl_node c n) = (el, r) \<Longrightarrow> allowed el \<Longrightarrow>
    cluster_step G route allowed c (c\<lparr>cl_node := (cl_node c)(n := r), cl_elect := (cl_elect c)(n := Asking el),
      cl_ballots := insert (n, el_epoch el, Some n) (cl_ballots c)\<rparr>)"
| ask: "n \<in> G \<Longrightarrow> cl_elect c n = Asking el \<Longrightarrow> el_ask el = addr # rest \<Longrightarrow> route addr = Some v \<Longrightarrow> v \<in> G \<Longrightarrow>
    handle s now (vote_request el) (cl_node c v) = (answer, r) \<Longrightarrow>
    cluster_step G route allowed c (c\<lparr>cl_node := (cl_node c)(v := r),
      cl_elect := (cl_elect c)(n := Asking (count_vote (Some answer) el)),
      cl_ballots := ballot v (vote_request el) (Some n) answer (cl_ballots c)\<rparr>)"
| no_answer: "n \<in> G \<Longrightarrow> cl_elect c n = Asking el \<Longrightarrow> el_ask el \<noteq> [] \<Longrightarrow>
    cluster_step G route allowed c (c\<lparr>cl_elect := (cl_elect c)(n := Asking (count_vote None el))\<rparr>)"
| count: "n \<in> G \<Longrightarrow> cl_elect c n = Asking el \<Longrightarrow> el_ask el = [] \<Longrightarrow> elect_close el (cl_node c n) = (res, r) \<Longrightarrow>
    cluster_step G route allowed c (c\<lparr>cl_node := (cl_node c)(n := r), cl_elect := (cl_elect c)(n := Idle),
      cl_masters := (if res = Inr () then insert (el_epoch el, Some n) (cl_masters c) else cl_masters c)\<rparr>)"
| hear: "n \<in> G \<Longrightarrow>
    cluster_step G route allowed c (c\<lparr>cl_node := (cl_node c)(n := learn master payload (touch now (cl_node c n)))\<rparr>)"
| follow: "n \<in> G \<Longrightarrow>
    cluster_step G route allowed c (c\<lparr>cl_node := (cl_node c)(n := (cl_node c n)\<lparr>rp_link := l, rp_seq := q, rp_replicas := rs\<rparr>)\<rparr>)"
| replaced: "n \<in> G \<Longrightarrow>
    cluster_step G route allowed c (c\<lparr>cl_node := (cl_node c)(n := check_replaced answers (cl_node c n))\<rparr>)"
| hand_over: "n \<in> G \<Longrightarrow>
    cluster_step G route allowed c (c\<lparr>cl_node := (cl_node c)(n := handover (cl_node c n))\<rparr>)"
| restart: "n \<in> G \<Longrightarrow> load_identity rnd (restarted (cl_node c n)) = (Inr (), r) \<Longrightarrow>
    cluster_step G route allowed c (c\<lparr>cl_node := (cl_node c)(n := r), cl_elect := (cl_elect c)(n := Idle)\<rparr>)"

subsection \<open>What a step does to the votes of a node\<close>

abbreviation votes :: "repl \<Rightarrow> nat \<times> nat" where
  "votes r \<equiv> (rp_voted r, sv_voted (rp_saved r))"

lemma votes_set_epoch [simp]: "rp_voted (set_epoch e r) = rp_voted r" "sv_voted (rp_saved (set_epoch e r)) = sv_voted (rp_saved r)"
  by (simp_all add: set_epoch_def Let_def)

lemma votes_remember [simp]: "rp_voted (remember ns r) = rp_voted r" "sv_voted (rp_saved (remember ns r)) = sv_voted (rp_saved r)"
  by (simp_all add: remember_def Let_def)

lemma votes_promote [simp]: "rp_voted (promote r) = rp_voted r" "rp_saved (promote r) = rp_saved r"
  by (simp_all add: promote_def stop_replica_def)

lemma votes_follow [simp]: "rp_voted (follow_new_master m e r) = rp_voted r" "sv_voted (rp_saved (follow_new_master m e r)) = sv_voted (rp_saved r)"
  by (auto simp: follow_new_master_def start_replica_def Let_def split: option.splits prod.splits)

lemma votes_learn_nodes: "votes (snd (fold (learn_node me) ns (ps, r))) = votes r"
  by (induction ns arbitrary: ps r) (auto simp: learn_node_def Let_def)

lemma votes_learn: "votes (learn m j (touch now r)) = votes r"
proof (cases j)
  case (Some a)
  define r1 where "r1 = set_epoch (or_default 0 (json_u64 (json_at a ''epoch''))) (touch now r)"
  obtain ps r2 where f: "fold (learn_node (rp_node r1)) (or_default [] (as_array (json_at a ''nodes''))) ([], r1) = (ps, r2)"
    by fastforce
  then have "votes r2 = votes r1" using votes_learn_nodes [of "rp_node r1" _ "[]" r1] by (metis snd_conv)
  then show ?thesis using f Some by (simp add: learn_def r1_def touch_def Let_def)
qed (simp add: learn_def touch_def)

lemma votes_check_replaced [simp]: "rp_voted (check_replaced as r) = rp_voted r" "sv_voted (rp_saved (check_replaced as r)) = sv_voted (rp_saved r)"
  by (induction as r rule: check_replaced.induct) (auto simp: Let_def split: option.splits)

lemma votes_handover [simp]: "rp_voted (handover r) = rp_voted r" "sv_voted (rp_saved (handover r)) = sv_voted (rp_saved r)"
  by (simp_all add: handover_def Let_def)

lemma votes_close: "elect_close el r = (res, r') \<Longrightarrow> votes r' = votes r \<and> (res = Inr () \<longrightarrow> el_needed el \<le> el_votes el)"
  by (auto simp: elect_close_def Let_def split: if_splits)

lemma votes_restart: "load_identity rnd (restarted r) = (Inr (), r') \<Longrightarrow> votes r' = (sv_voted (rp_saved r), sv_voted (rp_saved r))"
  by (auto simp: load_identity_def restarted_def split: sum.splits if_splits)

lemma json_at_object: "json_at (JObject ms) name = (case map_of ms (lit name) of Some x \<Rightarrow> x | None \<Rightarrow> JNull)"
  by (simp add: json_at_def)

lemma handle_votes:
  assumes "handle s now req r = (answer, r')"
  shows "(\<not> granted answer \<and> votes r' = votes r) \<or>
    (granted answer \<and> rp_voted r < or_default 0 (json_u64 (json_at req ''epoch'')) \<and>
     r' = set_voted (or_default 0 (json_u64 (json_at req ''epoch''))) r)"
  using assms by (auto simp: handle_def granted_def grants_def json_at_object Let_def split: if_splits)

subsection \<open>The group keeps the contract\<close>

definition cluster_inv :: "'n set \<Rightarrow> (election \<Rightarrow> bool) \<Rightarrow> 'n cluster \<Rightarrow> bool" where
  "cluster_inv G allowed c \<longleftrightarrow>
     (\<forall>v e a. (v, e, a) \<in> cl_ballots c \<longrightarrow> v \<in> G \<and> e \<le> rp_voted (cl_node c v) \<and> e \<le> sv_voted (rp_saved (cl_node c v))) \<and>
     (\<forall>n el. cl_elect c n = Asking el \<longrightarrow> allowed el \<and> el_votes el \<le> card {v. (v, el_epoch el, Some n) \<in> cl_ballots c})"

lemma inv_ballot:
  "cluster_inv G allowed c \<Longrightarrow> (v, e, a) \<in> cl_ballots c \<Longrightarrow>
    v \<in> G \<and> e \<le> rp_voted (cl_node c v) \<and> e \<le> sv_voted (rp_saved (cl_node c v))"
  by (auto simp: cluster_inv_def)

lemma inv_asking:
  "cluster_inv G allowed c \<Longrightarrow> cl_elect c n = Asking el \<Longrightarrow>
    allowed el \<and> el_votes el \<le> card {v. (v, el_epoch el, Some n) \<in> cl_ballots c}"
  by (auto simp: cluster_inv_def)

lemma cluster_invI:
  assumes "\<And>v e a. (v, e, a) \<in> cl_ballots c \<Longrightarrow> v \<in> G \<and> e \<le> rp_voted (cl_node c v) \<and> e \<le> sv_voted (rp_saved (cl_node c v))"
    and "\<And>n el. cl_elect c n = Asking el \<Longrightarrow> allowed el \<and> el_votes el \<le> card {v. (v, el_epoch el, Some n) \<in> cl_ballots c}"
  shows "cluster_inv G allowed c"
  unfolding cluster_inv_def using assms by blast

lemma inv_node:
  assumes "cluster_inv G allowed c" and "rp_voted r = rp_voted (cl_node c n) \<or> rp_voted r = sv_voted (rp_saved (cl_node c n))"
    and "sv_voted (rp_saved r) = sv_voted (rp_saved (cl_node c n))" and "cl_elect c' = cl_elect c \<or> cl_elect c' = (cl_elect c)(n := Idle)"
    and "cl_node c' = (cl_node c)(n := r)" and "cl_ballots c' = cl_ballots c"
  shows "cluster_inv G allowed c'"
proof (rule cluster_invI, goal_cases)
  case (1 v e a)
  then show ?case using inv_ballot [OF assms(1), of v e a] assms(2,3,5,6) by auto
next
  case (2 m el)
  then show ?case using inv_asking [OF assms(1), of m el] assms(4,6) by (auto split: if_splits)
qed

lemma inv_elect:
  assumes "cluster_inv G allowed c" and "p = Idle \<or> p = Probing r0 \<or>
      (\<exists>el el0. p = Asking el \<and> cl_elect c n = Asking el0 \<and> el_epoch el = el_epoch el0 \<and> el_votes el = el_votes el0 \<and> allowed el)"
  shows "cluster_inv G allowed (c\<lparr>cl_elect := (cl_elect c)(n := p)\<rparr>)"
  using assms(2) inv_ballot [OF assms(1)] inv_asking [OF assms(1)] by (intro cluster_invI) (auto split: if_splits)

text \<open>A vote of \<open>v\<close> in a later epoch than its last; it is counted in the election of its candidate.\<close>

lemma inv_vote:
  assumes "cluster_inv G allowed c" and "finite G" and "v \<in> G" and "rp_voted (cl_node c v) < e"
    and "\<And>el. p = Asking el \<Longrightarrow> allowed el \<and> (el_votes el = 1 \<and> a = Some n \<and> el_epoch el = e \<or>
      (\<exists>el0. cl_elect c n = Asking el0 \<and> el_epoch el0 = el_epoch el \<and>
        (el_votes el = el_votes el0 \<or> el_votes el = el_votes el0 + 1 \<and> a = Some n \<and> el_epoch el = e)))"
  shows "cluster_inv G allowed (c\<lparr>cl_node := (cl_node c)(v := set_voted e (cl_node c v)),
    cl_elect := (cl_elect c)(n := p), cl_ballots := insert (v, e, a) (cl_ballots c)\<rparr>)"
proof -
  let ?B = "insert (v, e, a) (cl_ballots c)"
  have inG: "{u. (u, e', a') \<in> ?B} \<subseteq> G" for e' a' using inv_ballot [OF assms(1)] assms(3) by auto
  have fin: "finite {u. (u, e', a') \<in> cl_ballots c}" for e' a'
    using inG [of e' a'] assms(2) by (auto intro: finite_subset)
  have new: "(v, e, a') \<notin> cl_ballots c" for a' using inv_ballot [OF assms(1), of v e a'] assms(4) by auto
  have less: "card {u. (u, e', a') \<in> cl_ballots c} \<le> card {u. (u, e', a') \<in> ?B}" for e' a'
    using inG [of e' a'] assms(2) by (auto intro!: card_mono intro: finite_subset)
  have "{u. (u, e, a) \<in> ?B} = insert v {u. (u, e, a) \<in> cl_ballots c}" by auto
  then have more: "card {u. (u, e, a) \<in> ?B} = card {u. (u, e, a) \<in> cl_ballots c} + 1" using new fin by simp
  have asking: "allowed el \<and> el_votes el \<le> card {u. (u, el_epoch el, Some n) \<in> ?B}" if p: "p = Asking el" for el
  proof -
    consider "el_votes el = 1" "a = Some n" "el_epoch el = e"
      | el0 where "cl_elect c n = Asking el0" "el_epoch el0 = el_epoch el" "el_votes el = el_votes el0"
      | el0 where "cl_elect c n = Asking el0" "el_epoch el0 = el_epoch el" "el_votes el = el_votes el0 + 1" "a = Some n" "el_epoch el = e"
      using assms(5) [OF p] by blast
    then have "el_votes el \<le> card {u. (u, el_epoch el, Some n) \<in> ?B}"
    proof cases
      case 1 then show ?thesis using more by simp
    next
      case 2 then show ?thesis using inv_asking [OF assms(1)] less [of "el_epoch el" "Some n"] by fastforce
    next
      case 3 then show ?thesis using inv_asking [OF assms(1)] more by fastforce
    qed
    then show ?thesis using assms(5) [OF p] by blast
  qed
  have others: "allowed el \<and> el_votes el \<le> card {u. (u, el_epoch el, Some m) \<in> ?B}" if "cl_elect c m = Asking el" for m el
    using inv_asking [OF assms(1) that] less [of "el_epoch el" "Some m"] by linarith
  have older: "u \<in> G \<and> e' \<le> rp_voted (cl_node c u) \<and> e' \<le> sv_voted (rp_saved (cl_node c u))"
    if "(u, e', a') \<in> cl_ballots c" for u e' a' using inv_ballot [OF assms(1) that] .
  show ?thesis
  proof (rule cluster_invI, goal_cases)
    case (1 u e' a')
    then show ?case using older [of u e' a'] assms(3,4) by (auto simp: set_voted_def)
  next
    case (2 m el)
    then show ?case using asking [of el] others [of m el] by (auto split: if_splits)
  qed
qed

lemma inv_cong:
  assumes "cluster_inv G allowed c" and "cl_node c' = cl_node c" and "cl_elect c' = cl_elect c" and "cl_ballots c' = cl_ballots c"
  shows "cluster_inv G allowed c'"
  using assms by (simp add: cluster_inv_def)

text \<open>A request is served: either nobody's vote changes, or its node votes in a later epoch.\<close>

lemma served:
  assumes "handle s now req (cl_node c v) = (answer, r)"
  obtains "ballot v req a answer B = B" and "\<not> granted answer" and "votes r = votes (cl_node c v)"
  | e where "e = or_default 0 (json_u64 (json_at req ''epoch''))" and "granted answer" and "rp_voted (cl_node c v) < e"
      and "r = set_voted e (cl_node c v)" and "ballot v req a answer B = insert (v, e, a) B"
  using handle_votes [OF assms] by (auto simp: ballot_def)

lemma vote_request_epoch: "or_default 0 (json_u64 (json_at (vote_request el) ''epoch'')) = el_epoch el"
  by (simp add: vote_request_def json_at_object json_u64_def or_default_def)

lemma count_vote_simps:
  "el_epoch (count_vote a el) = el_epoch el" "el_needed (count_vote a el) = el_needed el"
  "el_votes (count_vote None el) = el_votes el" "\<not> granted x \<Longrightarrow> el_votes (count_vote (Some x) el) = el_votes el"
  "granted x \<Longrightarrow> el_votes (count_vote (Some x) el) = el_votes el + 1"
  by (simp_all add: count_vote_def granted_def)

lemma inv_cluster_step:
  assumes "cluster_step G route allowed c c'" and "cluster_inv G allowed c" and "finite G"
    and same: "\<And>el a. allowed el \<Longrightarrow> allowed (count_vote a el)"
  shows "cluster_inv G allowed c'"
  using assms(1)
proof cases
  case (serve n s now req answer r)
  show ?thesis using serve(3)
  proof (cases rule: served [of s now req c n answer r None "cl_ballots c"])
    case 1
    then show ?thesis using serve(1) by (intro inv_node [OF assms(2), of r n]) auto
  next
    case (2 e)
    then have "cluster_inv G allowed (c\<lparr>cl_node := (cl_node c)(n := set_voted e (cl_node c n)),
        cl_elect := (cl_elect c)(n := cl_elect c n), cl_ballots := insert (n, e, None) (cl_ballots c)\<rparr>)"
      using inv_asking [OF assms(2), of n] by (intro inv_vote [OF assms(2,3) serve(2)]) auto
    then show ?thesis using serve(1) 2 by (auto elim!: inv_cong)
  qed
next
  case (begin_election n s now)
  then show ?thesis by (auto intro!: inv_elect [OF assms(2)])
next
  case (give_up n r0 s ma answers why)
  then show ?thesis by (auto intro!: inv_elect [OF assms(2)])
next
  case (join n r0 s ma answers p epoch)
  then show ?thesis by (intro inv_node [OF assms(2), of "follow_new_master p epoch (cl_node c n)" n]) auto
next
  case (stand n r0 answers s ma agree highest el r)
  then have "rp_voted (cl_node c n) < el_epoch el" "r = set_voted (el_epoch el) (cl_node c n)" "el_votes el = 1"
    by (auto simp: elect_open_def Let_def)
  then show ?thesis using stand by (auto intro!: inv_vote [OF assms(2,3)])
next
  case (ask n el addr rest v s now answer r)
  show ?thesis using ask(7)
  proof (cases rule: served [of s now "vote_request el" c v answer r "Some n" "cl_ballots c"])
    case 1
    have "cluster_inv G allowed (c\<lparr>cl_node := (cl_node c)(v := r)\<rparr>)"
      using 1 by (intro inv_node [OF assms(2), of r v]) auto
    from inv_elect [OF this, of "Asking (count_vote (Some answer) el)" undefined n]
    show ?thesis using ask 1 inv_asking [OF assms(2) ask(3)] same
      by (auto elim!: inv_cong simp: count_vote_simps)
  next
    case (2 e)
    then have e: "e = el_epoch el" by (simp add: vote_request_epoch)
    have "cluster_inv G allowed (c\<lparr>cl_node := (cl_node c)(v := set_voted e (cl_node c v)),
        cl_elect := (cl_elect c)(n := Asking (count_vote (Some answer) el)), cl_ballots := insert (v, e, Some n) (cl_ballots c)\<rparr>)"
      using ask(3) inv_asking [OF assms(2) ask(3)] same 2 e
      by (intro inv_vote [OF assms(2,3) ask(6)]) (auto simp: count_vote_simps)
    then show ?thesis using ask(1) 2 by simp
  qed
next
  case (no_answer n el)
  then show ?thesis using inv_asking [OF assms(2), of n el] same
    by (auto intro!: inv_elect [OF assms(2)] simp: count_vote_simps)
next
  case (count n el res r)
  then show ?thesis using votes_close [of el "cl_node c n" res r] by (intro inv_node [OF assms(2), of r n]) auto
next
  case (hear n master payload now)
  then show ?thesis using votes_learn [of master payload now "cl_node c n"]
    by (intro inv_node [OF assms(2), of "learn master payload (touch now (cl_node c n))" n]) auto
next
  case (follow n rs q l)
  then show ?thesis by (intro inv_node [OF assms(2), of "(cl_node c n)\<lparr>rp_link := l, rp_seq := q, rp_replicas := rs\<rparr>" n]) auto
next
  case (replaced n answers)
  then show ?thesis by (intro inv_node [OF assms(2), of "check_replaced answers (cl_node c n)" n]) auto
next
  case (hand_over n)
  then show ?thesis by (intro inv_node [OF assms(2), of "handover (cl_node c n)" n]) auto
next
  case (restart n rnd r)
  then show ?thesis using votes_restart [of rnd "cl_node c n" r] by (intro inv_node [OF assms(2), of r n]) auto
qed

lemma step_ballots:
  assumes "cluster_step G route allowed c c'" and "cluster_inv G allowed c"
  shows "cl_ballots c' = cl_ballots c \<or>
    (\<exists>v e a. v \<in> G \<and> (\<forall>a'. (v, e, a') \<notin> cl_ballots c) \<and> cl_ballots c' = insert (v, e, a) (cl_ballots c))"
proof -
  have new: "(v, e, a') \<notin> cl_ballots c" if "rp_voted (cl_node c v) < e" for v e a'
    using inv_ballot [OF assms(2), of v e a'] that by auto
  have serves: "ballot v req a answer (cl_ballots c) = cl_ballots c \<or>
      (\<exists>e. (\<forall>a'. (v, e, a') \<notin> cl_ballots c) \<and> ballot v req a answer (cl_ballots c) = insert (v, e, a) (cl_ballots c))"
    if "handle s now req (cl_node c v) = (answer, r)" for s now req v answer r a
    using that
  proof (cases rule: served [of s now req c v answer r a "cl_ballots c"])
    case (2 e)
    then show ?thesis using new [of v e] by blast
  qed simp
  show ?thesis using assms(1)
  proof cases
    case (serve n s now req answer r)
    then show ?thesis using serves [OF serve(3), of None] by auto
  next
    case (stand n r0 answers s ma agree highest el r)
    then have "rp_voted (cl_node c n) < el_epoch el" by (auto simp: elect_open_def Let_def)
    then have "\<forall>a'. (n, el_epoch el, a') \<notin> cl_ballots c" by (simp add: new)
    then show ?thesis using stand(1,2) by fastforce
  next
    case (ask n el addr rest v s now answer r)
    then show ?thesis using serves [OF ask(7), of "Some n"] by auto
  qed simp_all
qed

lemma step_masters:
  assumes "cluster_step G route allowed c c'" and "cluster_inv G allowed c"
    and "\<And>el. allowed el \<Longrightarrow> card G < 2 * el_needed el"
  shows "cl_masters c' = cl_masters c \<or>
    (\<exists>e a. card G < 2 * card {v. (v, e, a) \<in> cl_ballots c} \<and> cl_masters c' = insert (e, a) (cl_masters c))"
  using assms(1)
proof cases
  case (count n el res r)
  show ?thesis
  proof (cases "res = Inr ()")
    case True
    have "card G < 2 * el_needed el" "el_needed el \<le> el_votes el" "el_votes el \<le> card {v. (v, el_epoch el, Some n) \<in> cl_ballots c}"
      using assms(3) inv_asking [OF assms(2) count(3)] votes_close [OF count(5)] True by auto
    then have "card G < 2 * card {v. (v, el_epoch el, Some n) \<in> cl_ballots c}" by linarith
    then show ?thesis using count(1) True by auto
  qed (use count(1) in simp)
qed simp_all

text \<open>The elections whose candidate needs a majority of the group.\<close>

definition by_majority :: "'n set \<Rightarrow> election \<Rightarrow> bool" where
  "by_majority G el \<longleftrightarrow> card G < 2 * el_needed el"

lemma by_majority_default:
  "card G \<le> length (elect_peers r0) + 2 \<Longrightarrow> fo_quorum s = 0 \<Longrightarrow> by_majority G (fst (elect_open s agree highest r0 r))"
  by (simp add: by_majority_def elect_open_def needed_def Let_def)

interpretation group: voting "cluster_step (set ns) route (by_majority (set ns))" "set ns" cl_ballots cl_masters
  "cluster_inv (set ns) (by_majority (set ns))" for ns :: "'n list" and route :: "rstring \<Rightarrow> 'n option"
proof
  show "finite (set ns)" by simp
  fix c c' :: "'n cluster"
  assume inv: "cluster_inv (set ns) (by_majority (set ns)) c"
    and step: "cluster_step (set ns) route (by_majority (set ns)) c c'"
  show "cluster_inv (set ns) (by_majority (set ns)) c'"
    by (rule inv_cluster_step [OF step inv]) (simp_all add: by_majority_def count_vote_simps)
  show "cl_ballots c' = cl_ballots c \<or> (\<exists>v e a. v \<in> set ns \<and> (\<forall>a'. (v, e, a') \<notin> cl_ballots c) \<and>
      cl_ballots c' = insert (v, e, a) (cl_ballots c))"
    by (rule step_ballots [OF step inv])
  show "cl_masters c' = cl_masters c \<or> (\<exists>e a. card (set ns) < 2 * card {v. (v, e, a) \<in> cl_ballots c} \<and>
      cl_masters c' = insert (e, a) (cl_masters c))"
    by (rule step_masters [OF step inv]) (simp add: by_majority_def)
qed

subsection \<open>Running a group\<close>

text \<open>
  Runs in which the nodes answer the probes of an election as they are, as far as the network lets them:
  \<open>up\<close> are the addresses that can be reached.
\<close>

datatype action = Begin nat | Stand nat "rstring list" | Ask nat | Count nat | Hear nat rstring "rstring list"

definition probe :: json where
  "probe = JObject [(lit ''op'', JString (lit ''probe''))]"

definition heard :: "rstring list \<Rightarrow> json" where
  "heard addrs = JObject [(lit ''nodes'', JArray (map (\<lambda>a. JObject [(lit ''addr'', JString a), (lit ''node'', JString a)]) addrs))]"

definition probes :: "settings \<Rightarrow> nat \<Rightarrow> (rstring \<Rightarrow> nat option) \<Rightarrow> nat cluster \<Rightarrow> rstring list \<Rightarrow> rstring list \<Rightarrow> json option list" where
  "probes s now route c up ps = map (\<lambda>p. case route p of
     Some v \<Rightarrow> if p \<in> set up then Some (fst (handle s now probe (cl_node c v))) else None
   | None \<Rightarrow> None) ps"

fun act :: "settings \<Rightarrow> nat \<Rightarrow> (rstring \<Rightarrow> nat option) \<Rightarrow> action \<Rightarrow> nat cluster \<Rightarrow> nat cluster option" where
  "act s now route (Begin n) c =
     (if cl_elect c n = Idle \<and> fo_auto s \<and> master_silent now (fo_timeout s) (cl_node c n)
      then Some (c\<lparr>cl_elect := (cl_elect c)(n := Probing (cl_node c n))\<rparr>) else None)"
| "act s now route (Stand n up) c = (case cl_elect c n of
     Probing r0 \<Rightarrow> (case elect_plan s None (probes s now route c up (elect_peers r0)) r0 of
         Agreed agree highest \<Rightarrow> (case elect_open s agree highest r0 (cl_node c n) of (el, r) \<Rightarrow>
           Some (c\<lparr>cl_node := (cl_node c)(n := r), cl_elect := (cl_elect c)(n := Asking el),
             cl_ballots := insert (n, el_epoch el, Some n) (cl_ballots c)\<rparr>))
       | _ \<Rightarrow> None)
   | _ \<Rightarrow> None)"
| "act s now route (Ask n) c = (case cl_elect c n of
     Asking el \<Rightarrow> (case el_ask el of
         addr # rest \<Rightarrow> (case route addr of
             Some v \<Rightarrow> (case handle s now (vote_request el) (cl_node c v) of (answer, r) \<Rightarrow>
               Some (c\<lparr>cl_node := (cl_node c)(v := r), cl_elect := (cl_elect c)(n := Asking (count_vote (Some answer) el)),
                 cl_ballots := ballot v (vote_request el) (Some n) answer (cl_ballots c)\<rparr>))
           | None \<Rightarrow> None)
       | [] \<Rightarrow> None)
   | _ \<Rightarrow> None)"
| "act s now route (Count n) c = (case cl_elect c n of
     Asking el \<Rightarrow>
       if el_ask el = [] then (case elect_close el (cl_node c n) of (res, r) \<Rightarrow>
         Some (c\<lparr>cl_node := (cl_node c)(n := r), cl_elect := (cl_elect c)(n := Idle),
           cl_masters := (if res = Inr () then insert (el_epoch el, Some n) (cl_masters c) else cl_masters c)\<rparr>))
       else None
   | _ \<Rightarrow> None)"
| "act s now route (Hear n master addrs) c =
     Some (c\<lparr>cl_node := (cl_node c)(n := learn master (Some (heard addrs)) (touch 0 (cl_node c n)))\<rparr>)"

fun acts :: "settings \<Rightarrow> nat \<Rightarrow> (rstring \<Rightarrow> nat option) \<Rightarrow> action list \<Rightarrow> nat cluster \<Rightarrow> nat cluster option" where
  "acts s now route [] c = Some c"
| "acts s now route (a # as) c = Option.bind (act s now route a c) (acts s now route as)"

fun actor :: "action \<Rightarrow> nat" where
  "actor (Begin n) = n" | "actor (Stand n _) = n" | "actor (Ask n) = n" | "actor (Count n) = n" | "actor (Hear n _ _) = n"

lemma act_step:
  assumes "act s now route a c = Some c'" and "actor a \<in> G" and "\<And>p v. route p = Some v \<Longrightarrow> v \<in> G"
    and "\<And>agree highest r0 r. allowed (fst (elect_open s agree highest r0 r))"
  shows "cluster_step G route allowed c c'"
proof (cases a)
  case (Begin n)
  then show ?thesis using assms(1,2) by (auto intro: cluster_step.begin_election split: if_splits)
next
  case (Stand n up)
  then obtain r0 agree highest el r where p: "cl_elect c n = Probing r0"
    "elect_plan s None (probes s now route c up (elect_peers r0)) r0 = Agreed agree highest"
    "elect_open s agree highest r0 (cl_node c n) = (el, r)"
    and c': "c' = c\<lparr>cl_node := (cl_node c)(n := r), cl_elect := (cl_elect c)(n := Asking el),
      cl_ballots := insert (n, el_epoch el, Some n) (cl_ballots c)\<rparr>"
    using assms(1) by (auto split: progress.splits plan.splits prod.splits)
  have "allowed el" using assms(4) [of agree highest r0 "cl_node c n"] p(3) by simp
  then show ?thesis unfolding c' using assms(2) Stand
    by (intro cluster_step.stand [OF _ p(1) _ p(2,3)]) (simp_all add: probes_def)
next
  case (Ask n)
  then obtain el addr rest v answer r where p: "cl_elect c n = Asking el" "el_ask el = addr # rest" "route addr = Some v"
    "handle s now (vote_request el) (cl_node c v) = (answer, r)"
    and c': "c' = c\<lparr>cl_node := (cl_node c)(v := r), cl_elect := (cl_elect c)(n := Asking (count_vote (Some answer) el)),
      cl_ballots := ballot v (vote_request el) (Some n) answer (cl_ballots c)\<rparr>"
    using assms(1) by (auto split: progress.splits list.splits option.splits prod.splits)
  then show ?thesis unfolding c' using assms(2,3) Ask by (intro cluster_step.ask [where route = route and addr = addr, OF _ p(1-3) _ p(4)]) auto
next
  case (Count n)
  then obtain el res r where p: "cl_elect c n = Asking el" "el_ask el = []" "elect_close el (cl_node c n) = (res, r)"
    and c': "c' = c\<lparr>cl_node := (cl_node c)(n := r), cl_elect := (cl_elect c)(n := Idle),
      cl_masters := (if res = Inr () then insert (el_epoch el, Some n) (cl_masters c) else cl_masters c)\<rparr>"
    using assms(1) by (auto split: progress.splits if_splits prod.splits)
  show ?thesis unfolding c' using assms(2) Count by (intro cluster_step.count [OF _ p]) simp
next
  case (Hear n master addrs)
  then show ?thesis using assms(1,2) cluster_step.hear [of n G route allowed c master "Some (heard addrs)" 0] by auto
qed

lemma acts_steps:
  assumes "acts s now route as c = Some c'" and "list_all (\<lambda>a. actor a \<in> G) as" and "\<And>p v. route p = Some v \<Longrightarrow> v \<in> G"
    and "\<And>agree highest r0 r. allowed (fst (elect_open s agree highest r0 r))"
  shows "(cluster_step G route allowed)\<^sup>*\<^sup>* c c'"
  using assms(1,2)
proof (induction "as" arbitrary: c)
  case (Cons a "as")
  then obtain d where d: "act s now route a c = Some d" "acts s now route as d = Some c'"
    by (auto split: bind_splits)
  have "cluster_step G route allowed c d" using act_step [where G = G and route = route and allowed = allowed, OF d(1) _ assms(3,4)] Cons.prems(2) by simp
  then show ?case using Cons d(2) by (simp add: converse_rtranclp_into_rtranclp)
qed simp

subsection \<open>What the group promises\<close>


definition demo_settings :: settings where
  "demo_settings = \<lparr>fo_auto = True, fo_heartbeat = 1000, fo_timeout = 5000, fo_quorum = 0, fo_priority = 100\<rparr>"

definition demo_addr :: "nat \<Rightarrow> rstring" where
  "demo_addr n = [ch CHR ''n'', ch CHR ''0'' + n, ch CHR '':'', ch CHR ''1'']"

definition demo_group :: "nat \<Rightarrow> nat cluster" where
  "demo_group k = \<lparr>cl_node = (\<lambda>n. \<lparr>rp_node = demo_addr n, rp_advertised = demo_addr n, rp_epoch = 0, rp_voted = 0,
       rp_peers = map demo_addr (filter (\<lambda>m. m \<noteq> n) [1..<k]), rp_known = [], rp_last_contact = None, rp_seq = 0,
       rp_replica = (n \<noteq> 0), rp_link = \<lparr>lk_master = demo_addr 0, lk_running = (n \<noteq> 0), lk_applied_seq = 7\<rparr>,
       rp_replicas = [], rp_saved = \<lparr>sv_node = demo_addr n, sv_epoch = 0, sv_voted = 0, sv_nodes = [],
         sv_role = lit ''replica'', sv_master_host = [], sv_master_port = 0\<rparr>\<rparr>),
     cl_elect = (\<lambda>n. Idle), cl_ballots = {}, cl_masters = {}\<rparr>"

definition demo_route :: "nat \<Rightarrow> rstring \<Rightarrow> nat option" where
  "demo_route k = map_of (map (\<lambda>n. (demo_addr n, n)) [0..<k])"

lemma demo_route_in: "demo_route k p = Some v \<Longrightarrow> v \<in> set [0..<k]"
  unfolding demo_route_def by (drule map_of_SomeD) auto

lemma needed_two: "fo_quorum s = 0 \<Longrightarrow> 2 \<le> el_needed (fst (elect_open s agree highest r0 r))"
  by (simp add: elect_open_def needed_def Let_def)

lemmas run_simps = upt_rec probes_def probe_def heard_def handle_def json_at_def as_str_def as_array_def json_u64_def
  or_default_def master_silent_def elect_plan_def elect_open_def elect_peers_def elect_close_def count_vote_def
  vote_request_def ballot_def granted_def grants_def needed_def best_def cand_cmp_def then_ord_def cmp_of_def learn_def
  learn_node_def remember_def set_epoch_def set_voted_def touch_def promote_def stop_replica_def Let_def

lemmas demo_simps = demo_settings_def demo_route_def demo_group_def demo_addr_def

lemma demo_election:
  "map_option (\<lambda>c. (1, Some 1) \<in> cl_masters c) (acts demo_settings 9000 (demo_route 3)
     [Begin 1, Stand 1 [demo_addr 2], Ask 1, Count 1] (demo_group 3)) = Some True"
  by (simp add: demo_simps run_simps)


text \<open>
  (C9) Two masters in one epoch. The nodes an election counts are the replicas of the last heartbeat, and
  a heartbeat lists the replicas connected at that moment. In a group of seven whose network splits, the
  four nodes cut off elect a master; the three others, whose heartbeats list two replicas, lose their master
  and elect another in the same epoch. Neither gives way to the other: each sees no newer epoch.
\<close>

definition demo_split :: "action list" where
  "demo_split =
     [Begin 3, Stand 3 (map demo_addr [4, 5, 6]), Ask 3, Ask 3, Ask 3, Count 3,
      Hear 1 (demo_addr 0) (map demo_addr [1, 2]), Hear 2 (demo_addr 0) (map demo_addr [1, 2]),
      Begin 1, Stand 1 [demo_addr 2], Ask 1, Count 1]"

lemma demo_split_masters:
  "map_option (\<lambda>c. (1, Some 1) \<in> cl_masters c \<and> (1, Some 3) \<in> cl_masters c \<and>
       \<not> rp_replica (check_replaced [(demo_addr 3, Some (fst (handle demo_settings 9000 probe (cl_node c 3))))] (cl_node c 1)) \<and>
       \<not> rp_replica (check_replaced [(demo_addr 1, Some (fst (handle demo_settings 9000 probe (cl_node c 1))))] (cl_node c 3)))
     (acts demo_settings 9000 (demo_route 7) demo_split (demo_group 7)) = Some True"
  by (simp add: demo_split_def demo_simps run_simps)

theorem split_brain:
  "\<exists>c. (cluster_step (set [0..<7]) (demo_route 7) (\<lambda>el. el_needed el = el_nodes el div 2 + 1))\<^sup>*\<^sup>* (demo_group 7) c \<and>
     acts demo_settings 9000 (demo_route 7) demo_split (demo_group 7) = Some c \<and>
     (1, Some 1) \<in> cl_masters c \<and> (1, Some 3) \<in> cl_masters c \<and>
     \<not> rp_replica (check_replaced [(demo_addr 3, Some (fst (handle demo_settings 9000 probe (cl_node c 3))))] (cl_node c 1)) \<and>
     \<not> rp_replica (check_replaced [(demo_addr 1, Some (fst (handle demo_settings 9000 probe (cl_node c 1))))] (cl_node c 3))"
proof -
  obtain c where c: "acts demo_settings 9000 (demo_route 7) demo_split (demo_group 7) = Some c"
    using demo_split_masters by fastforce
  have "(cluster_step (set [0..<7]) (demo_route 7) (\<lambda>el. el_needed el = el_nodes el div 2 + 1))\<^sup>*\<^sup>* (demo_group 7) c"
  proof (rule acts_steps [OF c])
    fix agree highest r0 r
    show "el_needed (fst (elect_open demo_settings agree highest r0 r)) = el_nodes (fst (elect_open demo_settings agree highest r0 r)) div 2 + 1"
      by (simp add: elect_open_def needed_def Let_def demo_settings_def)
  qed (use demo_route_in [of 7] in \<open>auto simp: demo_split_def\<close>)
  then show ?thesis using demo_split_masters c by simp
qed

subsection \<open>The choice of the candidate\<close>

lemma cand_cmp_total: "cand_cmp a b \<noteq> Greater \<Longrightarrow> cand_cmp b c \<noteq> Greater \<Longrightarrow> cand_cmp a c \<noteq> Greater"
  by (auto simp: cand_cmp_def then_ord_def cmp_of_def split: if_splits)

lemma cand_cmp_sym: "cand_cmp a b = Greater \<longleftrightarrow> cand_cmp b a = Less"
  by (auto simp: cand_cmp_def then_ord_def cmp_of_def split: if_splits)

lemma cand_cmp_equal: "cand_cmp a b = Equal \<Longrightarrow> ca_addr a = ca_addr b"
  by (auto simp: cand_cmp_def then_ord_def cmp_of_def split: if_splits)

lemma fold_max:
  "fold (\<lambda>y acc. if cand_cmp acc y = Greater then acc else y) xs x = m \<Longrightarrow>
     m \<in> set (x # xs) \<and> (\<forall>y \<in> set (x # xs). cand_cmp y m \<noteq> Greater)"
proof (induction xs arbitrary: x)
  case Nil
  then show ?case by (simp add: cand_cmp_def then_ord_def)
next
  case (Cons y ys)
  define z where "z = (if cand_cmp x y = Greater then x else y)"
  have z: "z \<in> {x, y}" "cand_cmp x z \<noteq> Greater" "cand_cmp y z \<noteq> Greater"
    by (auto simp: z_def cand_cmp_def then_ord_def cmp_of_def split: if_splits)
  have m: "m \<in> set (z # ys)" "\<forall>w \<in> set (z # ys). cand_cmp w m \<noteq> Greater"
    using Cons.IH [of z] Cons.prems by (simp_all add: z_def)
  then show ?case using z cand_cmp_total [OF z(2)] cand_cmp_total [OF z(3)] by auto
qed

lemma best_iff:
  assumes "inj_on ca_addr (set cs)"
  shows "best cs = Some w \<longleftrightarrow> w \<in> set cs \<and> ca_priority w > 0 \<and> (\<forall>c \<in> set cs. ca_priority c > 0 \<longrightarrow> cand_cmp c w \<noteq> Greater)"
    (is "_ \<longleftrightarrow> ?top w")
proof -
  have some: "?top v" if "best cs = Some v" for v
  proof (cases "filter (\<lambda>c. ca_priority c > 0) cs")
    case (Cons x xs)
    then have "v \<in> set (x # xs) \<and> (\<forall>c \<in> set (x # xs). cand_cmp c v \<noteq> Greater)"
      using that by (intro fold_max) (simp add: best_def)
    moreover have "set (x # xs) = {c \<in> set cs. ca_priority c > 0}" by (metis Cons set_filter)
    ultimately show ?thesis by blast
  qed (use that in \<open>simp add: best_def\<close>)
  have unique: "v = w" if "?top v" "?top w" for v
  proof -
    have "cand_cmp v w \<noteq> Greater" "cand_cmp w v \<noteq> Greater" using that by auto
    then have "cand_cmp v w = Equal" using cand_cmp_sym [of w v] by (cases "cand_cmp v w") auto
    then show ?thesis using cand_cmp_equal that assms by (auto dest: inj_onD)
  qed
  have "best cs \<noteq> None" if "?top w"
    using that by (cases "filter (\<lambda>c. ca_priority c > 0) cs") (auto simp: best_def filter_empty_conv)
  then show ?thesis using some unique by blast
qed

text \<open>
  Every node picks the same candidate. The choice depends only on which candidates there are, not
  on the order in which their answers came in; it is a candidate that applied at least as much of the stream
  as any other that may become master, and there is none only when every priority is 0.
\<close>

theorem best_agreed:
  assumes "set cs = set ds" and "inj_on ca_addr (set cs)"
  shows "best cs = best ds \<and> (best cs = None \<longleftrightarrow> (\<forall>c \<in> set cs. ca_priority c = 0)) \<and>
    (\<forall>w. best cs = Some w \<longrightarrow> w \<in> set cs \<and> (\<forall>c \<in> set cs. ca_priority c > 0 \<longrightarrow> ca_seq c \<le> ca_seq w))"
proof (intro conjI allI impI)
  have "best cs = Some w \<longleftrightarrow> best ds = Some w" for w using best_iff [OF assms(2)] best_iff [of ds] assms by simp
  then show "best cs = best ds" by (metis not_Some_eq)
  show "(best cs = None) = (\<forall>c \<in> set cs. ca_priority c = 0)"
    by (cases "filter (\<lambda>c. ca_priority c > 0) cs") (auto simp: best_def filter_empty_conv filter_eq_Cons_iff)
  fix w assume "best cs = Some w"
  then have w: "w \<in> set cs" "\<forall>c \<in> set cs. ca_priority c > 0 \<longrightarrow> cand_cmp c w \<noteq> Greater" using best_iff [OF assms(2)] by auto
  have "ca_seq c \<le> ca_seq w" if "cand_cmp c w \<noteq> Greater" for c
    using that by (auto simp: cand_cmp_def then_ord_def cmp_of_def split: if_splits)
  then show "\<forall>c \<in> set cs. ca_priority c > 0 \<longrightarrow> ca_seq c \<le> ca_seq w" using w by blast
  show "w \<in> set cs" using w by simp
qed

theorem best_agreed_witness:
  "let c = (\<lambda>n q. \<lparr>ca_addr = demo_addr n, ca_seq = q, ca_priority = 100\<rparr>) in
     best [c 1 5, c 2 9, c 3 9] = Some (c 2 9) \<and> best [c 1 5, c 2 9, c 3 9] = best [c 3 9, c 1 5, c 2 9]"
proof -
  let ?c = "\<lambda>n q. \<lparr>ca_addr = demo_addr n, ca_seq = q, ca_priority = 100\<rparr>"
  show ?thesis using best_agreed [of "[?c 1 5, ?c 2 9, ?c 3 9]" "[?c 3 9, ?c 1 5, ?c 2 9]"]
    by (auto simp: demo_addr_def inj_on_def best_def cand_cmp_def then_ord_def cmp_of_def)
qed

end
