(* ===== verification/PubSub.thy ===== *)
theory PubSub
  imports Wildcard OrdMap
begin

text \<open>
  Publish and subscribe (\<^verbatim>\<open>src/pubsub.rs\<close>): the hub of the listening connections, and the Redis glob that
  its patterns use. An outbox is the bounded queue of a connection; it is shared by the connection and
  the hub, so the hub's state holds it by connection id. The writer threads that drain the queues are not
  modelled. Hash sets and hash maps are lists without repetition; their order is not relied on.
\<close>

subsection \<open>Redis globs\<close>

text \<open>\<open>byte c\<close> of the sources as a byte.\<close>

abbreviation b8 :: "char \<Rightarrow> u8" where
  "b8 c \<equiv> of_char c"

text \<open>One item of a class, from position \<open>i\<close>: its bounds and the position after it.\<close>

definition class_item :: "bytes \<Rightarrow> nat \<Rightarrow> (u8 \<times> u8) \<times> nat" where
  "class_item p i =
     (let i = (if p ! i = b8 CHR 0x5C \<and> i + 1 < length p then i + 1 else i); lo = p ! i
      in if i + 2 < length p \<and> p ! (i + 1) = b8 CHR ''-'' \<and> p ! (i + 2) \<noteq> b8 CHR '']'' then
           (let hi = p ! (i + 2) in (if lo \<le> hi then (lo, hi) else (hi, lo), i + 3))
         else ((lo, lo), i + 1))"

lemma class_item_more: "(r, j) = class_item p i \<Longrightarrow> i < j"
  by (auto simp: class_item_def Let_def split: if_splits)

function class_loop :: "bytes \<Rightarrow> nat \<Rightarrow> u8 \<Rightarrow> bool \<Rightarrow> bool \<times> nat" where
  "class_loop p i c hit =
     (if i < length p \<and> p ! i \<noteq> b8 CHR '']'' then
        (case class_item p i of ((a, b), j) \<Rightarrow> class_loop p j c (hit \<or> a \<le> c \<and> c \<le> b))
      else (hit, i))"
  by pat_completeness auto
termination
  by (relation "measure (\<lambda>(p, i, c, hit). length p - i)") (auto dest!: class_item_more)

declare class_loop.simps [simp del]

definition class_match :: "bytes \<Rightarrow> nat \<Rightarrow> u8 \<Rightarrow> (bool \<times> nat) option" where
  "class_match p at c =
     (let i = at + 1; negate = (i < length p \<and> p ! i = b8 CHR ''^'');
          (hit, i) = class_loop p (if negate then i + 1 else i) c False
      in if i \<ge> length p then None else Some (hit \<noteq> negate, i + 1))"

text \<open>
  The loop over the positions \<open>pi\<close> and \<open>si\<close>; \<open>step\<close> is where one byte of the text takes the pattern, if it
  matches there, and \<open>star\<close> where to resume after the last star.
\<close>

definition glob_step :: "bytes \<Rightarrow> nat \<Rightarrow> u8 \<Rightarrow> nat option" where
  "glob_step p pi c =
     (if p ! pi = b8 CHR ''?'' then Some (pi + 1)
      else if p ! pi = b8 CHR ''['' then
        (case class_match p pi c of Some (hit, next) \<Rightarrow> if hit then Some next else None | None \<Rightarrow> None)
      else if p ! pi = b8 CHR 0x5C \<and> pi + 1 < length p then (if p ! (pi + 1) = c then Some (pi + 2) else None)
      else if p ! pi = c then Some (pi + 1) else None)"

function redis_loop :: "bytes \<Rightarrow> bytes \<Rightarrow> nat \<Rightarrow> nat \<Rightarrow> (nat \<times> nat) option \<Rightarrow> bool" where
  "redis_loop p s pi si star =
     (if si < length s then
        (if pi < length p \<and> p ! pi = b8 CHR ''*'' then redis_loop p s (pi + 1) si (Some (pi + 1, si))
         else (case (if pi < length p then glob_step p pi (s ! si) else None) of
             Some next \<Rightarrow> redis_loop p s next (si + 1) star
           | None \<Rightarrow> (case star of
               Some (sp, ss) \<Rightarrow> redis_loop p s sp (ss + 1) (Some (sp, ss + 1))
             | None \<Rightarrow> False)))
      else list_all (\<lambda>b. b = b8 CHR ''*'') (drop pi p))"
  by pat_completeness auto
termination
  by (relation "measures
      [\<lambda>(p, s, pi, si, star). case star of None \<Rightarrow> 0 | Some (sp, ss) \<Rightarrow> (if ss \<le> si then 0 else 1),
       \<lambda>(p, s, pi, si, star). case star of None \<Rightarrow> length s + 1 | Some (sp, ss) \<Rightarrow> length s - ss,
       \<lambda>(p, s, pi, si, star). length s - si,
       \<lambda>(p, s, pi, si, star). length p - pi]")
    (auto split: option.splits prod.splits)

declare redis_loop.simps [simp del]

definition redis_glob :: "bytes \<Rightarrow> bytes \<Rightarrow> bool" where
  "redis_glob p s = redis_loop p s 0 0 None"

subsection \<open>What a glob means\<close>

datatype gtok = GStar | GAny | GByte u8 | GClass bool "(u8 \<times> u8) list" | GOpen

function class_items :: "bytes \<Rightarrow> nat \<Rightarrow> (u8 \<times> u8) list \<times> nat" where
  "class_items p i =
     (if i < length p \<and> p ! i \<noteq> b8 CHR '']'' then
        (case class_item p i of (r, j) \<Rightarrow> (case class_items p j of (rs, k) \<Rightarrow> (r # rs, k)))
      else ([], i))"
  by pat_completeness auto
termination
  by (relation "measure (\<lambda>(p, i). length p - i)") (auto dest!: class_item_more)

declare class_items.simps [simp del]

definition in_class :: "(u8 \<times> u8) list \<Rightarrow> u8 \<Rightarrow> bool" where
  "in_class rs c \<longleftrightarrow> list_ex (\<lambda>(a, b). a \<le> c \<and> c \<le> b) rs"

lemma class_loop_items: "class_loop p i c hit = (hit \<or> in_class (fst (class_items p i)) c, snd (class_items p i))"
proof (induction p i c hit rule: class_loop.induct)
  case (1 p i c hit)
  show ?case
  proof (cases "i < length p \<and> p ! i \<noteq> b8 CHR '']''")
    case True
    obtain a b j where ij: "class_item p i = ((a, b), j)" by (metis surj_pair)
    have "class_items p i = ((a, b) # fst (class_items p j), snd (class_items p j))"
      using True ij by (subst class_items.simps) (simp split: prod.splits)
    then show ?thesis using "1.IH" [OF True] True ij
      by (subst class_loop.simps) (auto simp: in_class_def)
  next
    case False
    then show ?thesis by (subst class_loop.simps, subst (1 2) class_items.simps) (auto simp: in_class_def)
  qed
qed

lemma class_items_more: "i \<le> snd (class_items p i)"
proof (induction p i rule: class_items.induct)
  case (1 p i)
  show ?case using 1 class_item_more [of _ _ p i]
    by (subst class_items.simps) (fastforce split: prod.splits)
qed

definition glob_class :: "bytes \<Rightarrow> nat \<Rightarrow> bool \<times> (u8 \<times> u8) list \<times> nat" where
  "glob_class p i = (let negate = (i < length p \<and> p ! i = b8 CHR ''^'') in (negate, class_items p (if negate then i + 1 else i)))"

lemma glob_class_more: "glob_class p i = (neg, rs, j) \<Longrightarrow> i \<le> j"
  using class_items_more [of i p] class_items_more [of "i + 1" p] by (auto simp: glob_class_def Let_def split: if_splits)

function glob_parse :: "bytes \<Rightarrow> nat \<Rightarrow> gtok list" where
  "glob_parse p i =
     (if i \<ge> length p then []
      else if p ! i = b8 CHR ''*'' then GStar # glob_parse p (i + 1)
      else if p ! i = b8 CHR ''?'' then GAny # glob_parse p (i + 1)
      else if p ! i = b8 CHR ''['' then
        (case glob_class p (i + 1) of (neg, rs, j) \<Rightarrow> if j \<ge> length p then [GOpen] else GClass neg rs # glob_parse p (j + 1))
      else if p ! i = b8 CHR 0x5C \<and> i + 1 < length p then GByte (p ! (i + 1)) # glob_parse p (i + 2)
      else GByte (p ! i) # glob_parse p (i + 1))"
  by pat_completeness auto
termination
  by (relation "measure (\<lambda>(p, i). length p - i)") (auto dest: glob_class_more [OF sym])

declare glob_parse.simps [simp del]

fun gtok_one :: "gtok \<Rightarrow> u8 \<Rightarrow> bool" where
  "gtok_one GStar c \<longleftrightarrow> False"
| "gtok_one GAny c \<longleftrightarrow> True"
| "gtok_one (GByte b) c \<longleftrightarrow> b = c"
| "gtok_one (GClass neg rs) c \<longleftrightarrow> in_class rs c \<noteq> neg"
| "gtok_one GOpen c \<longleftrightarrow> False"

definition glob_spec :: "bytes \<Rightarrow> bytes \<Rightarrow> bool" where
  "glob_spec p s = wild_spec (\<lambda>t. t = GStar) gtok_one (glob_parse p 0) s"

lemma class_match_spec:
  "glob_class p (i + 1) = (neg, rs, j) \<Longrightarrow>
    class_match p i c = (if j \<ge> length p then None else Some (in_class rs c \<noteq> neg, j + 1))"
  by (auto simp: class_match_def glob_class_def class_loop_items Let_def)

lemma glob_step_parse:
  assumes "i < length p" and "p ! i \<noteq> b8 CHR ''*''"
  obtains t j where "glob_parse p i = t # glob_parse p j" and "t \<noteq> GStar"
    and "glob_step p i c = (if gtok_one t c then Some j else None)"
proof (cases "p ! i = b8 CHR ''[''")
  case True
  obtain neg rs j where k: "glob_class p (i + 1) = (neg, rs, j)" by (metis surj_pair)
  show ?thesis
  proof (cases "j \<ge> length p")
    case open_class: True
    have "glob_parse p i = GOpen # glob_parse p (length p)"
      using open_class True k assms by (subst glob_parse.simps, subst glob_parse.simps) simp
    then show ?thesis using that [of GOpen "length p"] True open_class class_match_spec [OF k] by (simp add: glob_step_def)
  next
    case False
    have "glob_parse p i = GClass neg rs # glob_parse p (j + 1)" using False True k assms by (subst glob_parse.simps) simp
    then show ?thesis using that [of "GClass neg rs" "j + 1"] True False class_match_spec [OF k, of c] by (simp add: glob_step_def)
  qed
next
  case False
  consider (any) "p ! i = b8 CHR ''?''" | (esc) "p ! i = b8 CHR 0x5C \<and> i + 1 < length p" "p ! i \<noteq> b8 CHR ''?''"
    | (lit) "p ! i \<noteq> b8 CHR ''?''" "\<not> (p ! i = b8 CHR 0x5C \<and> i + 1 < length p)" by blast
  then show ?thesis
  proof cases
    case any
    have "glob_parse p i = GAny # glob_parse p (i + 1)" using any assms by (subst glob_parse.simps) simp
    then show ?thesis using that [of GAny "i + 1"] any by (simp add: glob_step_def)
  next
    case esc
    have "glob_parse p i = GByte (p ! (i + 1)) # glob_parse p (i + 2)" using esc assms False by (subst glob_parse.simps) simp
    then show ?thesis using that [of "GByte (p ! (i + 1))" "i + 2"] esc by (simp add: glob_step_def)
  next
    case lit
    have "glob_parse p i = GByte (p ! i) # glob_parse p (i + 1)" using lit assms False by (subst glob_parse.simps) auto
    then show ?thesis using that [of "GByte (p ! i)" "i + 1"] lit False by (auto simp: glob_step_def)
  qed
qed

lemma glob_parse_star: "i < length p \<Longrightarrow> p ! i = b8 CHR ''*'' \<Longrightarrow> glob_parse p i = GStar # glob_parse p (i + 1)"
  by (subst glob_parse.simps) simp

lemma glob_parse_stars: "list_all (\<lambda>t. t = GStar) (glob_parse p i) \<longleftrightarrow> list_all (\<lambda>b. b = b8 CHR ''*'') (drop i p)"
proof (induction "length p - i" arbitrary: i)
  case 0
  then show ?case by (subst glob_parse.simps) simp
next
  case (Suc n)
  then have i: "i < length p" by simp
  show ?case
  proof (cases "p ! i = b8 CHR ''*''")
    case True
    then show ?thesis using Suc.hyps(1) [of "i + 1"] Suc.hyps(2) i by (simp add: glob_parse_star Cons_nth_drop_Suc [symmetric])
  next
    case False
    obtain t j where "glob_parse p i = t # glob_parse p j" "t \<noteq> GStar" using glob_step_parse [OF i False] by metis
    then show ?thesis using False i by (simp add: Cons_nth_drop_Suc [symmetric])
  qed
qed

text \<open>The byte positions of the loop and the positions in the list of elements go together.\<close>

lemma drop_ConsD: "drop k xs = y # ys \<Longrightarrow> k < length xs \<and> xs ! k = y \<and> drop (k + 1) xs = ys"
  by (metis Cons_nth_drop_Suc Suc_eq_plus1 drop_eq_Nil leI list.discI list.inject)

lemma redis_loop_greedy:
  assumes "glob_parse p pi = drop k ts"
    and "rel_option (\<lambda>(sp, ss) (ap, at). ss = at \<and> glob_parse p sp = drop (ap + 1) ts) star bk"
  shows "redis_loop p s pi si star = greedy (\<lambda>t. t = GStar) gtok_one ts s k si bk"
  using assms
proof (induction p s pi si star arbitrary: k bk rule: redis_loop.induct)
  case (1 p s pi si star)
  note IH = "1.IH" and pre = "1.prems"
  consider (ended) "\<not> si < length s" | (star) "si < length s" "pi < length p \<and> p ! pi = b8 CHR ''*''"
    | (step) "si < length s" "\<not> (pi < length p \<and> p ! pi = b8 CHR ''*'')" by blast
  then show ?case
  proof cases
    case ended
    then show ?thesis using pre(1) glob_parse_stars [of p pi] by (subst redis_loop.simps, subst greedy.simps) simp
  next
    case star
    then have k: "k < length ts" "ts ! k = GStar" "glob_parse p (pi + 1) = drop (k + 1) ts"
      using drop_ConsD [of k ts GStar "glob_parse p (pi + 1)"] pre(1) glob_parse_star [of pi p] by simp_all
    then have "redis_loop p s (pi + 1) si (Some (pi + 1, si)) = greedy (\<lambda>t. t = GStar) gtok_one ts s (k + 1) si (Some (k, si))"
      using IH(1) [OF star k(3)] by simp
    then show ?thesis using star k by (subst redis_loop.simps, subst greedy.simps) simp
  next
    case step
    let ?nx = "if pi < length p then glob_step p pi (s ! si) else None"
    have resume: "(case star of Some (sp, ss) \<Rightarrow> redis_loop p s sp (ss + 1) (Some (sp, ss + 1)) | None \<Rightarrow> False) =
      (case bk of Some (ap, at) \<Rightarrow> greedy (\<lambda>t. t = GStar) gtok_one ts s (ap + 1) (at + 1) (Some (ap, at + 1)) | None \<Rightarrow> False)"
      if "?nx = None"
    proof (cases star)
      case None
      then show ?thesis using pre(2) by (cases bk) simp_all
    next
      case (Some a)
      then obtain sp ss ap where st: "star = Some (sp, ss)" "bk = Some (ap, ss)" "glob_parse p sp = drop (ap + 1) ts"
        using pre(2) by (cases a; cases bk) auto
      show ?thesis using IH(2) [OF step that st(1) refl, of "ap + 1" "Some (ap, ss + 1)"] st by simp
    qed
    show ?thesis
    proof (cases "pi < length p")
      case True
      obtain t j where t: "glob_parse p pi = t # glob_parse p j" "t \<noteq> GStar"
        "glob_step p pi (s ! si) = (if gtok_one t (s ! si) then Some j else None)"
        using glob_step_parse [of pi p "s ! si"] True step by blast
      then have k: "k < length ts" "ts ! k = t" "glob_parse p j = drop (k + 1) ts"
        using drop_ConsD [of k ts t "glob_parse p j"] pre(1) by simp_all
      show ?thesis
      proof (cases "gtok_one t (s ! si)")
        case one: True
        then have "redis_loop p s j (si + 1) star = greedy (\<lambda>t. t = GStar) gtok_one ts s (k + 1) (si + 1) bk"
          using IH(3) [OF step _ k(3) pre(2)] True t(3) by simp
        then show ?thesis using step True k t one by (subst redis_loop.simps, subst greedy.simps) simp
      next
        case False
        then show ?thesis using resume step True k t by (subst redis_loop.simps, subst greedy.simps) simp
      qed
    next
      case False
      then have "glob_parse p pi = []" by (subst glob_parse.simps) simp
      then have "\<not> k < length ts" using pre(1) by simp
      then show ?thesis using resume step False by (subst redis_loop.simps, subst greedy.simps) simp
    qed
  qed
qed

lemma redis_glob_spec: "redis_glob p s \<longleftrightarrow> glob_spec p s"
  using redis_loop_greedy [of p 0 0 "glob_parse p 0" None None s 0] greedy_wild_spec
  by (simp add: redis_glob_def glob_spec_def)

text \<open>
  (C34) The glob of channel patterns. The loop with one place to resume at decides exactly what the
  pattern describes: stars, single bytes, classes with ranges and negation, and escapes.
\<close>

theorem redis_glob_exact: "redis_glob p s \<longleftrightarrow> glob_spec p s"
  by (rule redis_glob_spec)

subsection \<open>The hub\<close>

datatype reply = RBulk "bytes option" | RInt int | RPush "reply list"

text \<open>An outbox: the frames waiting, whether its writer still takes frames, and whether it was shut down.\<close>

definition OUTBOX_FRAMES :: nat where
  "OUTBOX_FRAMES = 65536"

record outbox =
  ob_queue :: "reply list"
  ob_connected :: bool
  ob_shut :: bool

type_synonym name = "rstring \<times> bytes"

record listener =
  li_channels :: "name list"
  li_patterns :: "name list"

record hub =
  hb_out :: "nat \<Rightarrow> outbox"
  hb_listeners :: "(nat \<times> listener) list"

definition li_count :: "listener \<Rightarrow> int" where
  "li_count l = int (length (li_channels l) + length (li_patterns l))"

definition notice :: "string \<Rightarrow> bytes option \<Rightarrow> int \<Rightarrow> reply" where
  "notice kind name count = RPush [RBulk (Some (lit_bytes kind)), RBulk name, RInt count]"

definition offer :: "reply \<Rightarrow> outbox \<Rightarrow> bool \<times> outbox" where
  "offer frame ob =
     (if \<not> ob_connected ob then (False, ob)
      else if length (ob_queue ob) < OUTBOX_FRAMES then (True, ob\<lparr>ob_queue := ob_queue ob @ [frame]\<rparr>)
      else (False, ob\<lparr>ob_shut := True\<rparr>))"

definition set_insert :: "'a \<Rightarrow> 'a list \<Rightarrow> 'a list" where
  "set_insert x xs = (if x \<in> set xs then xs else xs @ [x])"

definition names_of :: "bool \<Rightarrow> listener \<Rightarrow> name list" where
  "names_of pattern l = (if pattern then li_patterns l else li_channels l)"

definition with_names :: "bool \<Rightarrow> (name list \<Rightarrow> name list) \<Rightarrow> listener \<Rightarrow> listener" where
  "with_names pattern f l = (if pattern then l\<lparr>li_patterns := f (li_patterns l)\<rparr> else l\<lparr>li_channels := f (li_channels l)\<rparr>)"

text \<open>One confirmation per name; the last value is whether the outbox overflowed.\<close>

fun subscribe_names :: "rstring \<Rightarrow> bool \<Rightarrow> bytes list \<Rightarrow> listener \<Rightarrow> outbox \<Rightarrow> listener \<times> outbox \<times> bool" where
  "subscribe_names scope pattern [] l ob = (l, ob, False)"
| "subscribe_names scope pattern (n # ns) l ob =
     (let l = with_names pattern (set_insert (scope, n)) l;
          (ok, ob) = offer (notice (if pattern then ''psubscribe'' else ''subscribe'') (Some n) (li_count l)) ob;
          (l, ob, overflow) = subscribe_names scope pattern ns l ob
      in (l, ob, \<not> ok \<or> overflow))"

definition hub_put :: "nat \<Rightarrow> listener option \<Rightarrow> outbox \<Rightarrow> hub \<Rightarrow> hub" where
  "hub_put cid l ob h = h\<lparr>hb_out := (hb_out h)(cid := ob),
     hb_listeners := (case l of
         Some l \<Rightarrow> (cid, l) # filter (\<lambda>e. fst e \<noteq> cid) (hb_listeners h)
       | None \<Rightarrow> filter (\<lambda>e. fst e \<noteq> cid) (hb_listeners h))\<rparr>"

text \<open>\<open>cloned\<close>: the connection could be cloned for the hub.\<close>

definition subscribe :: "bool \<Rightarrow> nat \<Rightarrow> rstring \<Rightarrow> bytes list \<Rightarrow> bool \<Rightarrow> hub \<Rightarrow> int \<times> hub" where
  "subscribe cloned cid scope names pattern h =
     (case map_of (hb_listeners h) cid of
        None \<Rightarrow> if cloned then
            (let (l, ob, overflow) = subscribe_names scope pattern names \<lparr>li_channels = [], li_patterns = []\<rparr> (hb_out h cid)
             in (li_count l, hub_put cid (if overflow then None else Some l) ob h))
          else (0, h)
      | Some l \<Rightarrow>
          (let (l, ob, overflow) = subscribe_names scope pattern names l (hb_out h cid)
           in (li_count l, hub_put cid (if overflow then None else Some l) ob h)))"

fun unsubscribe_names :: "bool \<Rightarrow> bytes list \<Rightarrow> listener \<Rightarrow> outbox \<Rightarrow> listener \<times> outbox" where
  "unsubscribe_names pattern [] l ob = (l, ob)"
| "unsubscribe_names pattern (n # ns) l ob =
     (let l = with_names pattern (filter (\<lambda>(_, name). name \<noteq> n)) l
      in unsubscribe_names pattern ns l
           (snd (offer (notice (if pattern then ''punsubscribe'' else ''unsubscribe'') (Some n) (li_count l)) ob)))"

definition unsubscribe :: "nat \<Rightarrow> bytes list \<Rightarrow> bool \<Rightarrow> hub \<Rightarrow> int \<times> hub" where
  "unsubscribe cid names pattern h =
     (let kind = (if pattern then ''punsubscribe'' else ''unsubscribe'') in
      case map_of (hb_listeners h) cid of
        None \<Rightarrow>
          (let ob = hb_out h cid;
               ob = (if names = [] then snd (offer (notice kind None 0) ob) else ob);
               ob = fold (\<lambda>n ob. snd (offer (notice kind (Some n) 0) ob)) names ob
           in (0, h\<lparr>hb_out := (hb_out h)(cid := ob)\<rparr>))
      | Some l \<Rightarrow>
          (let targets = (if names = [] then remdups_adj (sort (map snd (names_of pattern l))) else names);
               ob = hb_out h cid;
               ob = (if targets = [] then snd (offer (notice kind None (li_count l)) ob) else ob);
               (l, ob) = unsubscribe_names pattern targets l ob
           in (li_count l, hub_put cid (if li_count l = 0 then None else Some l) ob h)))"

definition leave :: "nat \<Rightarrow> hub \<Rightarrow> hub" where
  "leave cid h = h\<lparr>hb_listeners := filter (\<lambda>e. fst e \<noteq> cid) (hb_listeners h)\<rparr>"

definition frames_for :: "rstring \<Rightarrow> bytes \<Rightarrow> bytes \<Rightarrow> listener \<Rightarrow> reply list" where
  "frames_for scope channel message l =
     (if (scope, channel) \<in> set (li_channels l)
      then [RPush [RBulk (Some (lit_bytes ''message'')), RBulk (Some channel), RBulk (Some message)]] else []) @
     map (\<lambda>(s, p). RPush [RBulk (Some (lit_bytes ''pmessage'')), RBulk (Some p), RBulk (Some channel), RBulk (Some message)])
       (filter (\<lambda>(s, p). s = scope \<and> redis_glob p channel) (li_patterns l))"

text \<open>The frames of one listener: how many were sent, whether it is stuck.\<close>

fun send_frames :: "bool \<Rightarrow> reply list \<Rightarrow> outbox \<Rightarrow> nat \<times> bool \<times> outbox" where
  "send_frames dry [] ob = (0, False, ob)"
| "send_frames dry (f # fs) ob =
     (let (ok, ob) = (if dry then (True, ob) else offer f ob) in
      if ok then (let (n, stuck, ob) = send_frames dry fs ob in (n + 1, stuck, ob)) else (0, True, ob))"

fun publish_loop :: "rstring \<Rightarrow> bytes \<Rightarrow> bytes \<Rightarrow> bool \<Rightarrow> (nat \<times> listener) list \<Rightarrow> (nat \<Rightarrow> outbox) \<Rightarrow>
    nat \<times> nat list \<times> (nat \<Rightarrow> outbox)" where
  "publish_loop scope channel message dry [] out = (0, [], out)"
| "publish_loop scope channel message dry ((cid, l) # ls) out =
     (let (n, stuck, ob) = send_frames dry (frames_for scope channel message l) (out cid);
          (m, ids, out) = publish_loop scope channel message dry ls (out(cid := ob))
      in (n + m, if stuck then cid # ids else ids, out))"

definition publish :: "rstring \<Rightarrow> bytes \<Rightarrow> bytes \<Rightarrow> bool \<Rightarrow> hub \<Rightarrow> nat \<times> hub" where
  "publish scope channel message dry h =
     (let (n, stuck, out) = publish_loop scope channel message dry (hb_listeners h) (hb_out h)
      in (n, h\<lparr>hb_out := out, hb_listeners := filter (\<lambda>e. fst e \<notin> set stuck) (hb_listeners h)\<rparr>))"

definition hub_channels :: "rstring \<Rightarrow> bytes option \<Rightarrow> hub \<Rightarrow> bytes list" where
  "hub_channels scope pattern h = remdups_adj (sort (map snd (filter
     (\<lambda>(s, n). s = scope \<and> (case pattern of None \<Rightarrow> True | Some p \<Rightarrow> redis_glob p n))
     (concat (map (li_channels \<circ> snd) (hb_listeners h))))))"

definition numsub :: "rstring \<Rightarrow> bytes \<Rightarrow> hub \<Rightarrow> nat" where
  "numsub scope channel h = length (filter (\<lambda>(_, l). (scope, channel) \<in> set (li_channels l)) (hb_listeners h))"

definition numpat :: "rstring \<Rightarrow> hub \<Rightarrow> nat" where
  "numpat scope h = length (filter (\<lambda>(s, _). s = scope) (concat (map (li_patterns \<circ> snd) (hb_listeners h))))"

subsection \<open>Deliveries\<close>

definition li_ok :: "listener \<Rightarrow> bool" where
  "li_ok l \<longleftrightarrow> distinct (li_channels l) \<and> distinct (li_patterns l)"

definition hub_ok :: "hub \<Rightarrow> bool" where
  "hub_ok h \<longleftrightarrow> distinct (map fst (hb_listeners h)) \<and> (\<forall>l \<in> snd ` set (hb_listeners h). li_ok l)"

lemma li_ok_with: "li_ok l \<Longrightarrow> li_ok (with_names pattern (set_insert n) l)" "li_ok l \<Longrightarrow> li_ok (with_names pattern (filter P) l)"
  by (simp_all add: li_ok_def with_names_def set_insert_def)

lemma li_ok_subscribe: "li_ok l \<Longrightarrow> li_ok (fst (subscribe_names scope pattern ns l ob))"
  by (induction ns arbitrary: l ob) (simp_all add: Let_def li_ok_with case_prod_beta)

lemma li_ok_unsubscribe: "li_ok l \<Longrightarrow> li_ok (fst (unsubscribe_names pattern ns l ob))"
  by (induction ns arbitrary: l ob) (simp_all add: Let_def li_ok_with)

lemma hub_ok_put: "hub_ok h \<Longrightarrow> pred_option li_ok l \<Longrightarrow> hub_ok (hub_put cid l ob h)"
  by (cases l) (auto simp: hub_ok_def hub_put_def distinct_map inj_on_def)

lemma hub_ok_listener: "hub_ok h \<Longrightarrow> map_of (hb_listeners h) cid = Some l \<Longrightarrow> li_ok l"
  by (auto simp: hub_ok_def dest!: map_of_SomeD)

lemma hub_ok_subscribe:
  assumes "hub_ok h"
  shows "hub_ok (snd (subscribe cloned cid scope names pattern h))"
proof -
  have "li_ok \<lparr>li_channels = [], li_patterns = []\<rparr>" by (simp add: li_ok_def)
  then show ?thesis using hub_ok_listener [OF assms, of cid] assms
    by (simp add: subscribe_def Let_def case_prod_beta hub_ok_put li_ok_subscribe split: option.splits)
qed

lemma hub_ok_unsubscribe:
  assumes "hub_ok h"
  shows "hub_ok (snd (unsubscribe cid names pattern h))"
proof (cases "map_of (hb_listeners h) cid")
  case None
  then show ?thesis using assms by (simp add: unsubscribe_def hub_ok_def Let_def)
next
  case (Some l)
  then show ?thesis using hub_ok_listener [OF assms Some] assms
    by (simp add: unsubscribe_def Let_def case_prod_beta hub_ok_put li_ok_unsubscribe)
qed

lemma send_dry: "send_frames True fs ob = (length fs, False, ob)"
  by (induction fs) auto

text \<open>How many of \<open>n\<close> frames an outbox takes.\<close>

definition takes :: "outbox \<Rightarrow> nat \<Rightarrow> nat" where
  "takes ob n = (if ob_connected ob then min n (OUTBOX_FRAMES - length (ob_queue ob)) else 0)"

definition fed :: "reply list \<Rightarrow> outbox \<Rightarrow> outbox" where
  "fed fs ob = ob\<lparr>ob_queue := ob_queue ob @ take (takes ob (length fs)) fs,
     ob_shut := ob_shut ob \<or> ob_connected ob \<and> takes ob (length fs) < length fs\<rparr>"

lemma send_frames_fed: "send_frames False fs ob = (takes ob (length fs), takes ob (length fs) < length fs, fed fs ob)"
proof (induction fs arbitrary: ob)
  case Nil
  then show ?case by (simp add: takes_def fed_def)
next
  case (Cons f fs)
  show ?case
  proof (cases "ob_connected ob \<and> length (ob_queue ob) < OUTBOX_FRAMES")
    case True
    let ?ob = "ob\<lparr>ob_queue := ob_queue ob @ [f]\<rparr>"
    have "takes ob (length (f # fs)) = Suc (takes ?ob (length fs))" using True by (auto simp: takes_def)
    then show ?thesis using True Cons [of ?ob] by (simp add: offer_def fed_def)
  qed (auto simp: offer_def fed_def takes_def)
qed

lemma publish_loop_dry:
  "publish_loop scope channel message True ls out = (sum_list (map (length \<circ> frames_for scope channel message \<circ> snd) ls), [], out)"
  by (induction ls arbitrary: out) (auto simp: send_dry)

lemma takes_le: "takes ob k \<le> k"
  by (simp add: takes_def)

lemma key_in_filter: "distinct (map fst xs) \<Longrightarrow> (k, v) \<in> set xs \<Longrightarrow> k \<in> fst ` {x \<in> set xs. P x} \<longleftrightarrow> P (k, v)"
  by (force dest: eq_key_imp_eq_value)

lemma pattern_count:
  assumes "distinct ps"
  shows "length (filter (\<lambda>(s, p). s = scope \<and> redis_glob p channel) ps) = card {p. (scope, p) \<in> set ps \<and> glob_spec p channel}"
    (is "length ?F = card ?P")
proof -
  have "length ?F = card (set ?F)" using assms by (simp add: distinct_card del: set_filter)
  also have "set ?F = Pair scope ` ?P" by (auto simp: redis_glob_spec)
  also have "card (Pair scope ` ?P) = card ?P" by (intro card_image) (simp add: inj_on_def)
  finally show ?thesis .
qed

abbreviation due :: "rstring \<Rightarrow> bytes \<Rightarrow> bytes \<Rightarrow> nat \<times> listener \<Rightarrow> nat" where
  "due scope channel message e \<equiv> length (frames_for scope channel message (snd e))"

lemma publish_loop_fed:
  assumes "distinct (map fst ls)"
  shows "publish_loop scope channel message False ls out =
    (sum_list (map (\<lambda>e. takes (out (fst e)) (due scope channel message e)) ls),
     map fst (filter (\<lambda>e. takes (out (fst e)) (due scope channel message e) < due scope channel message e) ls),
     \<lambda>cid. case map_of ls cid of Some l \<Rightarrow> fed (frames_for scope channel message l) (out cid) | None \<Rightarrow> out cid)"
  using assms
proof (induction ls arbitrary: out)
  case (Cons e ls)
  obtain cid l where e: "e = (cid, l)" by force
  let ?due = "due scope channel message"
  define out' where "out' = out(cid := fed (frames_for scope channel message l) (out cid))"
  have fresh: "cid \<notin> fst ` set ls" "distinct (map fst ls)" using Cons.prems e by auto
  have other: "out' (fst x) = out (fst x)" if "x \<in> set ls" for x using that fresh by (force simp: out'_def)
  have m: "map (\<lambda>x. takes (out' (fst x)) (?due x)) ls = map (\<lambda>x. takes (out (fst x)) (?due x)) ls"
    using other by (intro map_cong) simp_all
  have f: "filter (\<lambda>x. takes (out' (fst x)) (?due x) < ?due x) ls = filter (\<lambda>x. takes (out (fst x)) (?due x) < ?due x) ls"
    using other by (intro filter_cong) simp_all
  have g: "(\<lambda>c. case map_of ls c of Some k \<Rightarrow> fed (frames_for scope channel message k) (out' c) | None \<Rightarrow> out' c) =
      (\<lambda>c. case map_of (e # ls) c of Some k \<Rightarrow> fed (frames_for scope channel message k) (out c) | None \<Rightarrow> out c)"
  proof (rule ext)
    have none: "map_of ls cid = None" using fresh(1) by (simp add: map_of_eq_None_iff)
    show "(case map_of ls c of Some k \<Rightarrow> fed (frames_for scope channel message k) (out' c) | None \<Rightarrow> out' c) =
      (case map_of (e # ls) c of Some k \<Rightarrow> fed (frames_for scope channel message k) (out c) | None \<Rightarrow> out c)" for c
      using none e by (cases "c = cid") (simp_all add: out'_def split: option.split)
  qed
  show ?case using Cons.IH [OF fresh(2), of out'] unfolding m f g
    by (simp add: e send_frames_fed Let_def out'_def [symmetric])
qed simp

text \<open>
  (C35) Deliveries. Publishing gives each listener of the scope one frame for its channel and one for each
  pattern of its that describes the channel, as many as its outbox takes; a listener whose outbox does not
  take all of them is dropped, every other listener stays and gets all of its frames. The number returned
  counts the frames queued, and a dry run counts the frames due and changes nothing.
\<close>

theorem publish_exact:
  assumes "hub_ok h" and "publish scope channel message False h = (n, h')"
  shows "n = sum_list (map (\<lambda>e. takes (hb_out h (fst e)) (due scope channel message e)) (hb_listeners h))
    \<and> (\<forall>cid l. (cid, l) \<in> set (hb_listeners h) \<longrightarrow>
         hb_out h' cid = fed (frames_for scope channel message l) (hb_out h cid) \<and>
         ((cid, l) \<in> set (hb_listeners h') \<longleftrightarrow>
            takes (hb_out h cid) (length (frames_for scope channel message l)) = length (frames_for scope channel message l)) \<and>
         length (frames_for scope channel message l) = (if (scope, channel) \<in> set (li_channels l) then 1 else 0) +
           card {p. (scope, p) \<in> set (li_patterns l) \<and> glob_spec p channel})
    \<and> (\<forall>cid. cid \<notin> fst ` set (hb_listeners h) \<longrightarrow> hb_out h' cid = hb_out h cid)
    \<and> publish scope channel message True h = (sum_list (map (due scope channel message) (hb_listeners h)), h)"
proof -
  let ?due = "due scope channel message"
  have d: "distinct (map fst (hb_listeners h))" using assms(1) by (simp add: hub_ok_def)
  have p: "n = sum_list (map (\<lambda>e. takes (hb_out h (fst e)) (?due e)) (hb_listeners h))"
    "hb_out h' = (\<lambda>cid. case map_of (hb_listeners h) cid of Some l \<Rightarrow> fed (frames_for scope channel message l) (hb_out h cid) | None \<Rightarrow> hb_out h cid)"
    "hb_listeners h' = filter (\<lambda>e. fst e \<notin> fst ` {x \<in> set (hb_listeners h). takes (hb_out h (fst x)) (?due x) < ?due x}) (hb_listeners h)"
    using assms(2) by (auto simp: publish_def publish_loop_fed [OF d])
  have "hb_out h' cid = fed (frames_for scope channel message l) (hb_out h cid)"
    and "(cid, l) \<in> set (hb_listeners h') \<longleftrightarrow> takes (hb_out h cid) (?due (cid, l)) = ?due (cid, l)"
    and "?due (cid, l) = (if (scope, channel) \<in> set (li_channels l) then 1 else 0) +
           card {p. (scope, p) \<in> set (li_patterns l) \<and> glob_spec p channel}"
    if l: "(cid, l) \<in> set (hb_listeners h)" for cid l
  proof -
    show "hb_out h' cid = fed (frames_for scope channel message l) (hb_out h cid)"
      using map_of_is_SomeI [OF d l] p(2) by simp
    have "cid \<in> fst ` {x \<in> set (hb_listeners h). takes (hb_out h (fst x)) (?due x) < ?due x} \<longleftrightarrow>
        takes (hb_out h cid) (?due (cid, l)) < ?due (cid, l)"
      using key_in_filter [OF d l, of "\<lambda>x. takes (hb_out h (fst x)) (?due x) < ?due x"] by simp
    then show "(cid, l) \<in> set (hb_listeners h') \<longleftrightarrow> takes (hb_out h cid) (?due (cid, l)) = ?due (cid, l)"
      using l takes_le [of "hb_out h cid" "?due (cid, l)"] unfolding p(3) set_filter mem_Collect_eq fst_conv by linarith
    have "distinct (li_patterns l)" using assms(1) l by (force simp: hub_ok_def li_ok_def)
    then show "?due (cid, l) = (if (scope, channel) \<in> set (li_channels l) then 1 else 0) +
        card {p. (scope, p) \<in> set (li_patterns l) \<and> glob_spec p channel}"
      by (simp add: frames_for_def pattern_count)
  qed
  moreover have "hb_out h' cid = hb_out h cid" if "cid \<notin> fst ` set (hb_listeners h)" for cid
    using that p(2) by (simp add: map_of_eq_None_iff [symmetric] split: option.splits)
  moreover have "publish scope channel message True h = (sum_list (map ?due (hb_listeners h)), h)"
    by (simp add: publish_def publish_loop_dry comp_def)
  ultimately show ?thesis using p(1) by simp
qed

definition demo_hub :: hub where
  "demo_hub = snd (subscribe True 1 [] [lit_bytes ''news.*''] True (snd (subscribe True 1 [] [lit_bytes ''news.a''] False
     \<lparr>hb_out = (\<lambda>_. \<lparr>ob_queue = [], ob_connected = True, ob_shut = False\<rparr>), hb_listeners = []\<rparr>)))"

lemma demo_hub_eval:
  "hb_listeners demo_hub = [(1, \<lparr>li_channels = [([], lit_bytes ''news.a'')], li_patterns = [([], lit_bytes ''news.*'')]\<rparr>)]"
  "hb_out demo_hub 1 = \<lparr>ob_queue = [notice ''subscribe'' (Some (lit_bytes ''news.a'')) 1,
     notice ''psubscribe'' (Some (lit_bytes ''news.*'')) 2], ob_connected = True, ob_shut = False\<rparr>"
  by (simp_all add: demo_hub_def subscribe_def with_names_def set_insert_def hub_put_def offer_def OUTBOX_FRAMES_def li_count_def Let_def)

lemma demo_glob: "redis_glob (lit_bytes ''news.*'') (lit_bytes ''news.a'')"
  by code_simp

theorem publish_exact_witness:
  "hub_ok demo_hub \<and> fst (publish [] (lit_bytes ''news.a'') [7] False demo_hub) = 2 \<and>
     publish [] (lit_bytes ''news.a'') [7] True demo_hub = (2, demo_hub)"
proof -
  have ok: "hub_ok demo_hub" unfolding demo_hub_def by (intro hub_ok_subscribe) (simp add: hub_ok_def)
  obtain n h' where p: "publish [] (lit_bytes ''news.a'') [7] False demo_hub = (n, h')" by fastforce
  have "due [] (lit_bytes ''news.a'') [7] e = 2" if "e \<in> set (hb_listeners demo_hub)" for e
    using that demo_glob by (simp add: demo_hub_eval frames_for_def)
  then have due: "sum_list (map (due [] (lit_bytes ''news.a'') [7]) (hb_listeners demo_hub)) = 2"
      "sum_list (map (\<lambda>e. takes (hb_out demo_hub (fst e)) (due [] (lit_bytes ''news.a'') [7] e)) (hb_listeners demo_hub)) = 2"
    by (simp_all add: demo_hub_eval demo_hub_eval(2) [unfolded One_nat_def] takes_def OUTBOX_FRAMES_def)
  show ?thesis using ok p publish_exact [OF ok p, THEN conjunct1] due
      publish_exact [OF ok p, THEN conjunct2, THEN conjunct2, THEN conjunct2] by simp
qed

end
