(* ===== verification/Proto.thy ===== *)
theory Proto
  imports Types Util
begin

text \<open>
  The binary wire protocol (\<^verbatim>\<open>src/proto.rs\<close>) and the operations of the replication stream
  (\<^verbatim>\<open>set_payload\<close> and the reading of \<^verbatim>\<open>follow\<close> in \<^verbatim>\<open>src/repl.rs\<close>). A connection is the list of what its
  reads return: bytes as they arrive in pieces, a timeout with the answer of \<^verbatim>\<open>keep_going\<close>, an
  interruption or a failure; when the list ends the peer has closed the connection.
\<close>

definition be_bytes :: "nat \<Rightarrow> 'a::len word \<Rightarrow> bytes" where
  "be_bytes n w = rev (le_bytes n w)"

definition be_word :: "bytes \<Rightarrow> 'a::len word" where
  "be_word bs = le_word (rev bs)"

lemma be_word_be_bytes [simp]:
  "be_word (be_bytes 2 (a :: u16)) = a" "be_word (be_bytes 4 (b :: u32)) = b" "be_word (be_bytes 8 (c :: u64)) = c"
  by (simp_all add: be_word_def be_bytes_def le_word_le_bytes)

lemma length_be_bytes [simp]: "length (be_bytes n w) = n"
  by (simp add: be_bytes_def)

definition MAX_FRAME :: nat where
  "MAX_FRAME = 300 * 1024 * 1024"

definition write_frame :: "u16 \<Rightarrow> bytes \<Rightarrow> bytes" where
  "write_frame code payload = be_bytes 4 (word_of_nat (length payload + 2) :: u32) @ be_bytes 2 code @ payload"

subsection \<open>Reading\<close>

datatype io_event = Data bytes | Blocked bool | Interrupted | Broken string

datatype io_error = UnexpectedEof | Stopped | Failed string | InvalidData string

fun read_full :: "nat \<Rightarrow> io_event list \<Rightarrow> io_error + bytes \<times> io_event list" where
  "read_full n [] = (if n = 0 then Inr ([], []) else Inl UnexpectedEof)"
| "read_full n (ev # evs) =
     (if n = 0 then Inr ([], ev # evs)
      else case ev of
          Data bs \<Rightarrow>
            if bs = [] then Inl UnexpectedEof
            else if length bs \<le> n then map_sum id (\<lambda>(got, evs). (bs @ got, evs)) (read_full (n - length bs) evs)
            else Inr (take n bs, Data (drop n bs) # evs)
        | Blocked keep_going \<Rightarrow> if keep_going then read_full n evs else Inl Stopped
        | Interrupted \<Rightarrow> read_full n evs
        | Broken why \<Rightarrow> Inl (Failed why))"

definition read_frame_with :: "io_event list \<Rightarrow> io_error + (u16 \<times> bytes) \<times> io_event list" where
  "read_frame_with evs = try_bind (read_full 6 evs) (\<lambda>(head, evs).
     let len = unat (be_word (take 4 head) :: u32) in
     if \<not> (2 \<le> len \<and> len \<le> MAX_FRAME) then Inl (InvalidData ''invalid frame length'')
     else (let code = be_word (drop 4 head) in
           try_bind (read_full (len - 2) evs) (\<lambda>(payload, evs). Inr ((code, payload), evs))))"

text \<open>The bytes of a connection, and connections on which nothing fails.\<close>

fun arriving :: "io_event list \<Rightarrow> bytes" where
  "arriving [] = []"
| "arriving (Data bs # evs) = bs @ arriving evs"
| "arriving (_ # evs) = arriving evs"

fun healthy :: "io_event \<Rightarrow> bool" where
  "healthy (Data bs) \<longleftrightarrow> bs \<noteq> []" | "healthy (Blocked b) \<longleftrightarrow> b" | "healthy Interrupted \<longleftrightarrow> True" | "healthy (Broken _) \<longleftrightarrow> False"

lemma read_full_ok:
  assumes "list_all healthy evs"
  shows "if n \<le> length (arriving evs)
    then \<exists>evs'. read_full n evs = Inr (take n (arriving evs), evs') \<and> list_all healthy evs' \<and> arriving evs' = drop n (arriving evs)
    else read_full n evs = Inl UnexpectedEof"
  using assms
proof (induction n evs rule: read_full.induct)
  case (1 n)
  then show ?case by simp
next
  case (2 n ev evs)
  show ?case
  proof (cases "n = 0")
    case False
    then show ?thesis using 2 by (cases ev) (auto split: if_splits)
  qed (use 2 in simp)
qed

lemma read_full_some:
  assumes "list_all healthy evs" and "arriving evs = bs @ rest"
  obtains evs' where "read_full (length bs) evs = Inr (bs, evs')" and "list_all healthy evs'" and "arriving evs' = rest"
  using read_full_ok [OF assms(1), of "length bs"] assms(2) by auto

lemma frame_length: "length payload + 2 < 2 ^ 32 \<Longrightarrow> unat (word_of_nat (length payload + 2) :: u32) = length payload + 2"
  by (subst unat_of_nat) (simp add: take_bit_eq_mod)

lemma read_frame_ok:
  assumes "list_all healthy evs" and "arriving evs = write_frame code payload @ rest" and "length payload + 2 \<le> MAX_FRAME"
  shows "\<exists>evs'. read_frame_with evs = Inr ((code, payload), evs') \<and> list_all healthy evs' \<and> arriving evs' = rest"
proof -
  let ?h = "be_bytes 4 (word_of_nat (length payload + 2) :: u32) @ be_bytes 2 code"
  have len: "unat (word_of_nat (length payload + 2) :: u32) = length payload + 2"
    using assms(3) by (intro frame_length) (simp add: MAX_FRAME_def)
  obtain evs1 where r1: "read_full (length ?h) evs = Inr (?h, evs1)" "list_all healthy evs1" "arriving evs1 = payload @ rest"
    using read_full_some [OF assms(1), of ?h "payload @ rest"] assms(2) by (auto simp: write_frame_def)
  obtain evs2 where r2: "read_full (length payload) evs1 = Inr (payload, evs2)" "list_all healthy evs2" "arriving evs2 = rest"
    using read_full_some [OF r1(2,3)] .
  show ?thesis using r1 r2 len assms(3) by (simp add: read_frame_with_def Let_def)
qed

lemma read_frame_large:
  assumes "list_all healthy evs" and "arriving evs = write_frame code payload @ rest" and "MAX_FRAME < length payload + 2"
    and "length payload + 2 < 2 ^ 32"
  shows "read_frame_with evs = Inl (InvalidData ''invalid frame length'')"
proof -
  let ?h = "be_bytes 4 (word_of_nat (length payload + 2) :: u32) @ be_bytes 2 code"
  obtain evs1 where "read_full (length ?h) evs = Inr (?h, evs1)"
    using read_full_some [OF assms(1), of ?h "payload @ rest"] assms(2) by (auto simp: write_frame_def)
  then show ?thesis using frame_length [OF assms(4)] assms(3) by (simp add: read_frame_with_def Let_def)
qed

lemma read_frame_cut:
  assumes "list_all healthy evs" and "arriving evs = take n (write_frame code payload)" and "n < length (write_frame code payload)"
    and "length payload + 2 \<le> MAX_FRAME"
  shows "read_frame_with evs = Inl UnexpectedEof"
proof (cases "n < 6")
  case True
  then show ?thesis using read_full_ok [OF assms(1), of 6] assms(2) by (simp add: read_frame_with_def)
next
  case False
  let ?h = "be_bytes 4 (word_of_nat (length payload + 2) :: u32) @ be_bytes 2 code"
  have len: "unat (word_of_nat (length payload + 2) :: u32) = length payload + 2"
    using assms(4) by (intro frame_length) (simp add: MAX_FRAME_def)
  have "arriving evs = ?h @ take (n - 6) payload" using assms(2) False by (simp add: write_frame_def)
  then obtain evs1 where r1: "read_full (length ?h) evs = Inr (?h, evs1)" "list_all healthy evs1" "arriving evs1 = take (n - 6) payload"
    using read_full_some [OF assms(1)] by blast
  have "read_full (length payload) evs1 = Inl UnexpectedEof"
    using read_full_ok [OF r1(2), of "length payload"] r1(3) assms(3) False by (simp add: write_frame_def split: if_splits)
  then show ?thesis using r1(1) len assms(4) by (simp add: read_frame_with_def Let_def)
qed

text \<open>
  (C39) Frames read back. However the bytes of a frame arrive, in pieces, with timeouts and interruptions
  between them, the reader returns the code and the payload that were written and leaves what follows;
  a frame over the limit is refused, and a frame cut short is an unexpected end.
\<close>

theorem frame_roundtrip:
  assumes "list_all healthy evs"
  shows "(arriving evs = write_frame code payload @ rest \<longrightarrow> length payload + 2 \<le> MAX_FRAME \<longrightarrow>
      (\<exists>evs'. read_frame_with evs = Inr ((code, payload), evs') \<and> list_all healthy evs' \<and> arriving evs' = rest)) \<and>
    (arriving evs = write_frame code payload @ rest \<longrightarrow> MAX_FRAME < length payload + 2 \<longrightarrow> length payload + 2 < 2 ^ 32 \<longrightarrow>
      read_frame_with evs = Inl (InvalidData ''invalid frame length'')) \<and>
    (arriving evs = take n (write_frame code payload) \<longrightarrow> n < length (write_frame code payload) \<longrightarrow> length payload + 2 \<le> MAX_FRAME \<longrightarrow>
      read_frame_with evs = Inl UnexpectedEof)"
  using read_frame_ok [OF assms] read_frame_large [OF assms] read_frame_cut [OF assms] by blast

theorem frame_roundtrip_witness:
  "\<exists>evs'. read_frame_with [Data [0, 0, 0], Blocked True, Data [4, 0, 3, 7], Interrupted, Data [8, 9]] = Inr ((3, [7, 8]), evs') \<and>
     arriving evs' = [9]"
proof -
  let ?evs = "[Data [0, 0, 0], Blocked True, Data [4, 0, 3, 7], Interrupted, Data [8, 9]]"
  have "list_all healthy ?evs" by simp
  moreover have "arriving ?evs = write_frame 3 [7, 8] @ [9]"
    by code_simp
  ultimately show ?thesis using frame_roundtrip [of ?evs 3 "[7, 8]" "[9]"] by (simp add: MAX_FRAME_def) blast
qed

subsection \<open>Payloads\<close>

record reader =
  rd_buf :: bytes
  rd_pos :: nat

definition reader_new :: "bytes \<Rightarrow> reader" where
  "reader_new buf = \<lparr>rd_buf = buf, rd_pos = 0\<rparr>"

definition rd_take :: "nat \<Rightarrow> reader \<Rightarrow> io_error + bytes \<times> reader" where
  "rd_take n r = (if length (rd_buf r) - rd_pos r < n then Inl (InvalidData ''truncated payload'')
     else Inr (take n (drop (rd_pos r) (rd_buf r)), r\<lparr>rd_pos := rd_pos r + n\<rparr>))"

definition rd_u8 :: "reader \<Rightarrow> io_error + u8 \<times> reader" where
  "rd_u8 r = map_sum id (\<lambda>(b, r). (b ! 0, r)) (rd_take 1 r)"

definition rd_u16 :: "reader \<Rightarrow> io_error + u16 \<times> reader" where
  "rd_u16 r = map_sum id (\<lambda>(b, r). (be_word b, r)) (rd_take 2 r)"

definition rd_u32 :: "reader \<Rightarrow> io_error + u32 \<times> reader" where
  "rd_u32 r = map_sum id (\<lambda>(b, r). (be_word b, r)) (rd_take 4 r)"

definition rd_u64 :: "reader \<Rightarrow> io_error + u64 \<times> reader" where
  "rd_u64 r = map_sum id (\<lambda>(b, r). (be_word b, r)) (rd_take 8 r)"

definition rd_i64 :: "reader \<Rightarrow> io_error + int \<times> reader" where
  "rd_i64 r = map_sum id (\<lambda>(w, r). (sint w, r)) (rd_u64 r)"

definition rd_str16 :: "reader \<Rightarrow> io_error + rstring \<times> reader" where
  "rd_str16 r = try_bind (rd_u16 r) (\<lambda>(n, r). try_bind (rd_take (unat n) r) (\<lambda>(b, r).
     case from_utf8 b of Some s \<Rightarrow> Inr (s, r) | None \<Rightarrow> Inl (InvalidData ''invalid UTF-8'')))"

definition rd_rest :: "reader \<Rightarrow> bytes \<times> reader" where
  "rd_rest r = (drop (rd_pos r) (rd_buf r), r\<lparr>rd_pos := length (rd_buf r)\<rparr>)"

text \<open>A reader before \<open>pre\<close> and \<open>post\<close> of its buffer.\<close>

definition reads_at :: "bytes \<Rightarrow> bytes \<Rightarrow> reader \<Rightarrow> bool" where
  "reads_at pre post r \<longleftrightarrow> rd_buf r = pre @ post \<and> rd_pos r = length pre"

lemma reads_new: "reads_at [] buf (reader_new buf)"
  by (simp add: reads_at_def reader_new_def)

lemma rd_take_at: "reads_at pre (bs @ post) r \<Longrightarrow> \<exists>r'. rd_take (length bs) r = Inr (bs, r') \<and> reads_at (pre @ bs) post r'"
  by (auto simp: reads_at_def rd_take_def)

lemma rd_u8_at: "reads_at pre (b # post) r \<Longrightarrow> \<exists>r'. rd_u8 r = Inr (b, r') \<and> reads_at (pre @ [b]) post r'"
  using rd_take_at [of pre "[b]" post r] by (auto simp: rd_u8_def)

lemma rd_u16_at: "reads_at pre (be_bytes 2 w @ post) r \<Longrightarrow> \<exists>r'. rd_u16 r = Inr (w, r') \<and> reads_at (pre @ be_bytes 2 w) post r'"
  using rd_take_at [of pre "be_bytes 2 w" post r] by (auto simp: rd_u16_def)

lemma rd_u64_at: "reads_at pre (be_bytes 8 w @ post) r \<Longrightarrow> \<exists>r'. rd_u64 r = Inr (w, r') \<and> reads_at (pre @ be_bytes 8 w) post r'"
  using rd_take_at [of pre "be_bytes 8 w" post r] by (auto simp: rd_u64_def)

lemma rd_i64_at:
  "reads_at pre (be_bytes 8 (word_of_int i :: u64) @ post) r \<Longrightarrow> - (2 ^ 63) \<le> i \<Longrightarrow> i < 2 ^ 63 \<Longrightarrow>
    \<exists>r'. rd_i64 r = Inr (i, r') \<and> reads_at (pre @ be_bytes 8 (word_of_int i :: u64)) post r'"
  using rd_u64_at [of pre "word_of_int i" post r] by (auto simp: rd_i64_def signed_of_int signed_take_bit_int_eq_self)

lemma rd_str16_at:
  assumes "reads_at pre (be_bytes 2 (word_of_nat (str_len s) :: u16) @ as_bytes s @ post) r" and "valid_str s" and "str_len s < 65536"
  shows "\<exists>r'. rd_str16 r = Inr (s, r') \<and> reads_at (pre @ be_bytes 2 (word_of_nat (str_len s) :: u16) @ as_bytes s) post r'"
proof -
  obtain r1 where r1: "rd_u16 r = Inr (word_of_nat (str_len s), r1)" "reads_at (pre @ be_bytes 2 (word_of_nat (str_len s) :: u16)) (as_bytes s @ post) r1"
    using rd_u16_at [OF assms(1)] by blast
  obtain r2 where r2: "rd_take (length (as_bytes s)) r1 = Inr (as_bytes s, r2)"
    "reads_at ((pre @ be_bytes 2 (word_of_nat (str_len s) :: u16)) @ as_bytes s) post r2"
    using rd_take_at [OF r1(2)] by blast
  have "unat (word_of_nat (str_len s) :: u16) = length (as_bytes s)"
    using assms(3) by (simp add: unat_of_nat take_bit_eq_mod length_as_bytes)
  then show ?thesis using r1 r2 assms(2) by (simp add: rd_str16_def)
qed

lemma rd_rest_at: "reads_at pre post r \<Longrightarrow> fst (rd_rest r) = post"
  by (simp add: reads_at_def rd_rest_def)

end
