(* ===== verification/Lexer.thy ===== *)
theory Lexer
  imports Text
begin

text \<open>
  The tokenizer of the shell (\<^verbatim>\<open>src/lexer.rs\<close>). The characters of a line come with their byte offsets;
  the index \<open>i\<close> of the source is the list of characters left.
\<close>

datatype kind = Bare | DQuote | SQuote | Backtick | JsonTok | Comma | LParen | RParen

record token =
  tk_text :: rstring
  tk_kind :: kind
  tk_start :: nat
  tk_end :: nat

definition is_quoted :: "token \<Rightarrow> bool" where
  "is_quoted t \<longleftrightarrow> tk_kind t = DQuote \<or> tk_kind t = SQuote"

definition is_bare :: "token \<Rightarrow> bool" where
  "is_bare t \<longleftrightarrow> tk_kind t = Bare"

definition is_kw :: "string \<Rightarrow> token \<Rightarrow> bool" where
  "is_kw kw t \<longleftrightarrow> tk_kind t = Bare \<and> eq_ignore_ascii_case (tk_text t) (lit kw)"

fun char_indices :: "nat \<Rightarrow> rstring \<Rightarrow> (nat \<times> rchar) list" where
  "char_indices pos [] = []"
| "char_indices pos (c # cs) = (pos, c) # char_indices (pos + len_utf8 c) cs"

definition opens :: "rchar \<Rightarrow> bool" where
  "opens c \<longleftrightarrow> c = ch CHR ''['' \<or> c = ch CHR ''{''"

definition closes :: "rchar \<Rightarrow> bool" where
  "closes c \<longleftrightarrow> c = ch CHR '']'' \<or> c = ch CHR ''}''"

abbreviation dquote :: rchar where "dquote \<equiv> 34"
abbreviation squote :: rchar where "squote \<equiv> 39"
abbreviation bquote :: rchar where "bquote \<equiv> 96"
abbreviation backslash :: rchar where "backslash \<equiv> 92"

definition quotes :: "rchar \<Rightarrow> bool" where
  "quotes c \<longleftrightarrow> c = dquote \<or> c = squote \<or> c = bquote"

definition separates :: "rchar \<Rightarrow> bool" where
  "separates c \<longleftrightarrow> c = ch CHR '','' \<or> c = ch CHR ''('' \<or> c = ch CHR '')''"

definition flush :: "rstring \<Rightarrow> nat \<Rightarrow> nat \<Rightarrow> token list" where
  "flush current start stop = (if current = [] then [] else [\<lparr>tk_text = current, tk_kind = Bare, tk_start = start, tk_end = stop\<rparr>])"

text \<open>A JSON literal up to its matching bracket: its text, the byte after it, the characters left.\<close>

fun json_literal :: "int \<Rightarrow> bool \<Rightarrow> bool \<Rightarrow> (nat \<times> rchar) list \<Rightarrow> (rstring \<times> nat \<times> (nat \<times> rchar) list) option" where
  "json_literal depth in_str escaped [] = None"
| "json_literal depth in_str escaped ((pos, c) # cs) =
     (let more = (\<lambda>depth in_str escaped. map_option (\<lambda>(t, e, rest). (c # t, e, rest)) (json_literal depth in_str escaped cs)) in
      if in_str then
        (if escaped then more depth True False
         else if c = backslash then more depth True True
         else if c = dquote then more depth False False
         else more depth True False)
      else if c = dquote then more depth True escaped
      else if opens c then more (depth + 1) False escaped
      else if closes c then (if depth - 1 = 0 then Some ([c], pos + len_utf8 c, cs) else more (depth - 1) False escaped)
      else more depth False escaped)"

lemma json_literal_shorter: "json_literal depth in_str escaped cs = Some (t, e, rest) \<Longrightarrow> length rest < length cs"
  by (induction depth in_str escaped cs arbitrary: t e rule: json_literal.induct)
    (fastforce simp: Let_def split: if_splits)+

declare json_literal.simps [simp del]

lemma dropWhile_shorter: "dropWhile P cs = x # rest \<Longrightarrow> length rest < length cs"
  by (metis Suc_le_lessD length_Cons length_dropWhile_le)

definition quote_kind :: "rchar \<Rightarrow> kind" where
  "quote_kind c = (if c = dquote then DQuote else if c = squote then SQuote else Backtick)"

definition separator_kind :: "rchar \<Rightarrow> kind" where
  "separator_kind c = (if c = ch CHR '','' then Comma else if c = ch CHR ''('' then LParen else RParen)"

datatype lex_error = UnclosedQuote rchar | UnclosedBracket rchar

function lex_loop :: "nat \<Rightarrow> (nat \<times> rchar) list \<Rightarrow> rstring \<Rightarrow> nat \<Rightarrow> lex_error + token list" where
  "lex_loop len [] current start = Inr (flush current start len)"
| "lex_loop len ((pos, c) # cs) current start =
     (if quotes c then
        (case dropWhile (\<lambda>(_, d). d \<noteq> c) cs of
           [] \<Rightarrow> Inl (UnclosedQuote c)
         | (q, _) # rest \<Rightarrow>
             map_sum id (\<lambda>ts. flush current start pos @
               \<lparr>tk_text = map snd (takeWhile (\<lambda>(_, d). d \<noteq> c) cs), tk_kind = quote_kind c, tk_start = pos, tk_end = q + 1\<rparr> # ts)
               (lex_loop len rest [] start))
      else if opens c \<and> current = [] then
        (case json_literal 0 False False ((pos, c) # cs) of
           None \<Rightarrow> Inl (UnclosedBracket c)
         | Some (t, e, rest) \<Rightarrow>
             map_sum id (\<lambda>ts. \<lparr>tk_text = t, tk_kind = JsonTok, tk_start = pos, tk_end = e\<rparr> # ts) (lex_loop len rest [] start))
      else if separates c then
        map_sum id (\<lambda>ts. flush current start pos @
          \<lparr>tk_text = [c], tk_kind = separator_kind c, tk_start = pos, tk_end = pos + 1\<rparr> # ts) (lex_loop len cs [] start)
      else if is_whitespace c then map_sum id (\<lambda>ts. flush current start pos @ ts) (lex_loop len cs [] start)
      else lex_loop len cs (current @ [c]) (if current = [] then pos else start))"
  by pat_completeness auto
termination
  by (relation "measure (\<lambda>(len, cs, current, start). length cs)")
    (auto dest: json_literal_shorter dropWhile_shorter)

definition tokenize :: "rstring \<Rightarrow> lex_error + token list" where
  "tokenize input = lex_loop (str_len input) (char_indices 0 input) [] 0"

fun and_groups :: "token list \<Rightarrow> token list \<Rightarrow> token list list" where
  "and_groups cur [] = (if cur = [] then [] else [cur])"
| "and_groups cur (t # ts) =
     (if is_kw ''and'' t then (if cur = [] then and_groups [] ts else cur # and_groups [] ts)
      else and_groups (cur @ [t]) ts)"

definition split_by_and :: "token list \<Rightarrow> token list list" where
  "split_by_and ts = and_groups [] ts"

lemmas lex_simps = quotes_def opens_def closes_def separates_def is_whitespace_def len_utf8_def

subsection \<open>Positions\<close>

text \<open>The JSON literal at the start of a text and what follows it, without positions.\<close>

fun json_span :: "int \<Rightarrow> bool \<Rightarrow> bool \<Rightarrow> rstring \<Rightarrow> (rstring \<times> rstring) option" where
  "json_span depth in_str escaped [] = None"
| "json_span depth in_str escaped (c # cs) =
     (let more = (\<lambda>depth in_str escaped. map_option (\<lambda>(t, rest). (c # t, rest)) (json_span depth in_str escaped cs)) in
      if in_str then
        (if escaped then more depth True False
         else if c = backslash then more depth True True
         else if c = dquote then more depth False False
         else more depth True False)
      else if c = dquote then more depth True escaped
      else if opens c then more (depth + 1) False escaped
      else if closes c then (if depth - 1 = 0 then Some ([c], cs) else more (depth - 1) False escaped)
      else more depth False escaped)"

declare json_span.simps [simp del]

lemma json_literal_span:
  "json_literal d s e (char_indices pos cs) =
    map_option (\<lambda>(t, rest). (t, pos + str_len t, char_indices (pos + str_len t) rest)) (json_span d s e cs)"
proof (induction d s e cs arbitrary: pos rule: json_span.induct)
  case (1 d s e)
  then show ?case by (simp add: json_literal.simps json_span.simps)
next
  case (2 d s e c cs)
  then show ?case
    by (auto simp: json_literal.simps json_span.simps Let_def option.map_comp comp_def case_prod_beta add.assoc)
qed

lemma json_span_append: "json_span d s e cs = Some (t, rest) \<Longrightarrow> cs = t @ rest \<and> json_span d s e (t @ rest') = Some (t, rest')"
proof (induction d s e cs arbitrary: t rule: json_span.induct)
  case (2 d s e c cs)
  then show ?case
    by (auto simp: json_span.simps(2) Let_def split: if_splits)
qed (simp add: json_span.simps)

lemma dropWhile_indices:
  "dropWhile (\<lambda>(_, d). d \<noteq> c) (char_indices pos cs) =
     char_indices (pos + str_len (takeWhile (\<lambda>d. d \<noteq> c) cs)) (dropWhile (\<lambda>d. d \<noteq> c) cs)"
  "map snd (takeWhile (\<lambda>(_, d). d \<noteq> c) (char_indices pos cs)) = takeWhile (\<lambda>d. d \<noteq> c) cs"
  by (induction cs arbitrary: pos) (auto simp: add.assoc)

subsection \<open>Tokens and the text\<close>

text \<open>A token as it is written, and which tokens there are.\<close>

definition render :: "token \<Rightarrow> rstring" where
  "render t = (case tk_kind t of
     DQuote \<Rightarrow> dquote # tk_text t @ [dquote] | SQuote \<Rightarrow> squote # tk_text t @ [squote]
   | Backtick \<Rightarrow> bquote # tk_text t @ [bquote] | _ \<Rightarrow> tk_text t)"

definition plain :: "rchar \<Rightarrow> bool" where
  "plain c \<longleftrightarrow> \<not> quotes c \<and> \<not> separates c \<and> \<not> is_whitespace c"

definition bare_text :: "rstring \<Rightarrow> bool" where
  "bare_text s \<longleftrightarrow> s \<noteq> [] \<and> \<not> opens (hd s) \<and> list_all plain s"

definition token_ok :: "token \<Rightarrow> bool" where
  "token_ok t \<longleftrightarrow> (case tk_kind t of
     Bare \<Rightarrow> bare_text (tk_text t)
   | DQuote \<Rightarrow> dquote \<notin> set (tk_text t) | SQuote \<Rightarrow> squote \<notin> set (tk_text t) | Backtick \<Rightarrow> bquote \<notin> set (tk_text t)
   | JsonTok \<Rightarrow> tk_text t \<noteq> [] \<and> opens (hd (tk_text t)) \<and> json_span 0 False False (tk_text t) = Some (tk_text t, [])
   | Comma \<Rightarrow> tk_text t = lit '','' | LParen \<Rightarrow> tk_text t = lit ''('' | RParen \<Rightarrow> tk_text t = lit '')'')"

text \<open>The input is the tokens as they are written, at their byte positions, with whitespace between them.\<close>

fun pieces :: "nat \<Rightarrow> rstring \<Rightarrow> token list \<Rightarrow> bool" where
  "pieces pos input [] \<longleftrightarrow> list_all is_whitespace input"
| "pieces pos input (t # ts) \<longleftrightarrow> (\<exists>w rest. input = w @ render t @ rest \<and> list_all is_whitespace w \<and>
     tk_start t = pos + str_len w \<and> tk_end t = tk_start t + str_len (render t) \<and> pieces (tk_end t) rest ts)"

lemma piecesI:
  "input = w @ render t @ rest \<Longrightarrow> list_all is_whitespace w \<Longrightarrow> tk_start t = pos + str_len w \<Longrightarrow>
    tk_end t = tk_start t + str_len (render t) \<Longrightarrow> pieces (tk_end t) rest ts \<Longrightarrow> pieces pos input (t # ts)"
  unfolding pieces.simps by blast

lemma pieces_space: "is_whitespace c \<Longrightarrow> pieces (pos + len_utf8 c) cs ts \<Longrightarrow> pieces pos (c # cs) ts"
proof (cases ts)
  case (Cons t ts')
  assume a: "is_whitespace c" "pieces (pos + len_utf8 c) cs ts"
  then obtain w rest where "cs = w @ render t @ rest" "list_all is_whitespace w" "tk_start t = pos + len_utf8 c + str_len w"
    "tk_end t = tk_start t + str_len (render t)" "pieces (tk_end t) rest ts'" using Cons by auto
  then show ?thesis using a(1) unfolding Cons by (intro piecesI [of _ "c # w" _ rest]) simp_all
qed simp

lemma pieces_cons:
  "tk_start t = pos \<Longrightarrow> tk_end t = pos + str_len (render t) \<Longrightarrow> input = render t @ rest \<Longrightarrow> pieces (tk_end t) rest ts \<Longrightarrow>
    pieces pos input (t # ts)"
  by (rule piecesI [of _ "[]" _ rest]) simp_all

lemma flush_pieces:
  assumes "current = [] \<or> start + str_len current = pos" and "pieces pos cs ts"
  shows "pieces (if current = [] then pos else start) (current @ cs) (flush current start pos @ ts)"
  using assms by (cases "current = []") (auto simp: flush_def render_def simp del: pieces.simps intro!: pieces_cons)

lemma flush_ok: "current = [] \<or> bare_text current \<Longrightarrow> list_all token_ok (flush current start pos)"
  by (auto simp: flush_def token_ok_def)

lemma pieces_nil: "pieces pos [] ts \<Longrightarrow> list_all token_ok ts \<Longrightarrow> ts = []"
  by (cases ts) (auto simp: render_def token_ok_def bare_text_def split: kind.splits)

lemma quote_token:
  "quotes c \<Longrightarrow> c \<notin> set s \<Longrightarrow> token_ok \<lparr>tk_text = s, tk_kind = quote_kind c, tk_start = a, tk_end = b\<rparr> \<and>
    render \<lparr>tk_text = s, tk_kind = quote_kind c, tk_start = a, tk_end = b\<rparr> = c # s @ [c]"
  by (auto simp: quotes_def token_ok_def render_def quote_kind_def)

lemma separator_token:
  "separates c \<Longrightarrow> token_ok \<lparr>tk_text = [c], tk_kind = separator_kind c, tk_start = a, tk_end = b\<rparr> \<and>
    render \<lparr>tk_text = [c], tk_kind = separator_kind c, tk_start = a, tk_end = b\<rparr> = [c] \<and> len_utf8 c = 1"
  by (auto simp: separates_def token_ok_def render_def separator_kind_def len_utf8_def)

lemma quote_len: "quotes c \<Longrightarrow> len_utf8 c = 1"
  by (auto simp: quotes_def len_utf8_def)

lemma map_sum_Inr_iff: "map_sum id f r = Inr y \<longleftrightarrow> (\<exists>x. r = Inr x \<and> y = f x)"
  by (cases r) auto

lemma map_sum_append_Nil [simp]: "map_sum id ((@) []) r = r" "map_sum (\<lambda>x. x) ((@) []) r = r"
  by (cases r; simp)+

lemma map_sum_InrE:
  assumes "map_sum id f r = Inr y"
  obtains x where "r = Inr x" and "f x = y"
  using assms by (cases r) auto

lemma append_one [simp]: "(@) [x] = (#) x"
  by (rule ext) simp

lemma quote_split:
  assumes "dropWhile (\<lambda>d. d \<noteq> c) cs = x # rest"
  shows "cs = takeWhile (\<lambda>d. d \<noteq> c) cs @ c # rest \<and> x = c \<and> c \<notin> set (takeWhile (\<lambda>d. d \<noteq> c) cs)"
proof -
  have "x = c" using hd_dropWhile [of "\<lambda>d. d \<noteq> c" cs] assms by simp
  then show ?thesis using takeWhile_dropWhile_id [of "\<lambda>d. d \<noteq> c" cs] assms by (auto dest: set_takeWhileD)
qed

lemma lex_loop_pieces:
  assumes "lex_loop len (char_indices pos cs) current start = Inr ts" and "len = pos + str_len cs"
    and "current = [] \<or> bare_text current \<and> start + str_len current = pos"
  shows "pieces (if current = [] then pos else start) (current @ cs) ts \<and> list_all token_ok ts"
  using assms
proof (induction "length cs" arbitrary: cs pos current start ts rule: less_induct)
  case less
  note IH = less.hyps and run = less.prems(1) and len = less.prems(2) and cur = less.prems(3)
  have fl: "list_all token_ok (flush current start pos)" using cur flush_ok by blast
  have cur': "current = [] \<or> start + str_len current = pos" using cur by blast
  have step: ?case if "ts = flush current start pos @ t # us" and "token_ok t" and "cs = render t @ rest"
      and "tk_start t = pos" and "tk_end t = pos + str_len (render t)" and "lex_loop len (char_indices (tk_end t) rest) [] start = Inr us"
    for t us rest
  proof -
    have "length rest < length cs" using that(2,3) by (auto simp: token_ok_def render_def bare_text_def split: kind.splits)
    then have "pieces (tk_end t) rest us \<and> list_all token_ok us" using IH [OF _ that(6)] len that(3,5) by simp
    then show ?thesis using fl that flush_pieces [OF cur', of cs "t # us"] pieces_cons [OF that(4,5,3)] by auto
  qed
  show ?case
  proof (cases cs)
    case Nil
    then show ?thesis using run len fl flush_pieces [OF cur', of "[]" "[]"] by (auto simp: flush_def split: if_splits)
  next
    case (Cons c cs')
    consider (quote) "quotes c" | (json) "\<not> quotes c" "opens c" "current = []" | (sep) "\<not> quotes c" "\<not> (opens c \<and> current = [])" "separates c"
      | (space) "\<not> quotes c" "\<not> (opens c \<and> current = [])" "\<not> separates c" "is_whitespace c"
      | (word) "\<not> quotes c" "\<not> (opens c \<and> current = [])" "\<not> separates c" "\<not> is_whitespace c" by blast
    then show ?thesis
    proof cases
      case quote
      let ?s = "takeWhile (\<lambda>d. d \<noteq> c) cs'"
      obtain x rest where d: "dropWhile (\<lambda>d. d \<noteq> c) cs' = x # rest"
        using run Cons quote by (cases "dropWhile (\<lambda>d. d \<noteq> c) cs'") (auto simp: dropWhile_indices quote_len)
      note x = quote_split [OF d]
      let ?t = "\<lparr>tk_text = ?s, tk_kind = quote_kind c, tk_start = pos, tk_end = pos + 1 + str_len ?s + 1\<rparr>"
      obtain us where "lex_loop len (char_indices (tk_end ?t) rest) [] start = Inr us" "ts = flush current start pos @ ?t # us"
        using run Cons quote d x by (auto simp: dropWhile_indices quote_len map_sum_Inr_iff)
      then show ?thesis using quote_token [OF quote, of ?s pos "tk_end ?t"] x Cons quote_len [OF quote]
        by (intro step [of ?t us rest]) auto
    next
      case json
      obtain s rest where s: "json_span 0 False False cs = Some (s, rest)"
        using run Cons json json_literal_span [of 0 False False pos cs] by (cases "json_span 0 False False cs") auto
      let ?t = "\<lparr>tk_text = s, tk_kind = JsonTok, tk_start = pos, tk_end = pos + str_len s\<rparr>"
      have sp: "cs = s @ rest" "json_span 0 False False s = Some (s, [])" using json_span_append [OF s, of "[]"] by auto
      then have ok: "token_ok ?t" using Cons json by (cases s) (auto simp: token_ok_def json_span.simps)
      obtain us where "lex_loop len (char_indices (tk_end ?t) rest) [] start = Inr us" "ts = ?t # us"
        using run Cons json s json_literal_span [of 0 False False pos cs] by (auto simp: map_sum_Inr_iff)
      then show ?thesis using ok sp json by (intro step [of ?t us rest]) (auto simp: flush_def render_def)
    next
      case sep
      let ?t = "\<lparr>tk_text = [c], tk_kind = separator_kind c, tk_start = pos, tk_end = pos + 1\<rparr>"
      note st = separator_token [OF sep(3), of pos "pos + 1"]
      obtain us where "lex_loop len (char_indices (tk_end ?t) cs') [] start = Inr us" "ts = flush current start pos @ ?t # us"
        using run Cons sep st by (auto simp: map_sum_Inr_iff)
      then show ?thesis using st Cons by (intro step [of ?t us cs']) auto
    next
      case space
      obtain us where us: "lex_loop len (char_indices (pos + len_utf8 c) cs') [] start = Inr us" "ts = flush current start pos @ us"
        using run Cons space by (auto simp: map_sum_Inr_iff)
      have "pieces (pos + len_utf8 c) cs' us \<and> list_all token_ok us" using IH [OF _ us(1)] len Cons by simp
      then show ?thesis using us(2) fl Cons flush_pieces [OF cur' pieces_space [OF space(4)]] by auto
    next
      case word
      let ?start = "if current = [] then pos else start"
      have "lex_loop len (char_indices (pos + len_utf8 c) cs') (current @ [c]) ?start = Inr ts" using run Cons word by simp
      moreover have "bare_text (current @ [c])" using cur word by (cases current) (auto simp: bare_text_def plain_def)
      moreover have "?start + str_len (current @ [c]) = pos + len_utf8 c" using cur by (auto simp: str_len_def)
      ultimately show ?thesis using IH [of cs' "pos + len_utf8 c" "current @ [c]" ?start ts] len Cons by simp
    qed
  qed
qed

subsection \<open>Writing tokens\<close>

fun write_line :: "token list \<Rightarrow> rstring" where
  "write_line [] = []"
| "write_line [t] = render t"
| "write_line (t # u # ts) = render t @ ch CHR '' '' # write_line (u # ts)"

fun place :: "nat \<Rightarrow> token list \<Rightarrow> token list" where
  "place pos [] = []"
| "place pos (t # ts) = t\<lparr>tk_start := pos, tk_end := pos + str_len (render t)\<rparr> # place (pos + str_len (render t) + 1) ts"

lemma lex_word:
  assumes "list_all plain s" and "current \<noteq> [] \<or> s \<noteq> [] \<and> \<not> opens (hd s)"
  shows "lex_loop len (char_indices pos (s @ rest)) current start =
    lex_loop len (char_indices (pos + str_len s) rest) (current @ s) (if current = [] then pos else start)"
  using assms
proof (induction s arbitrary: pos current start)
  case (Cons c s)
  then have c: "\<not> quotes c" "\<not> (opens c \<and> current = [])" "\<not> separates c" "\<not> is_whitespace c" by (auto simp: plain_def)
  then show ?case using Cons.IH [of "current @ [c]" "pos + len_utf8 c" "if current = [] then pos else start"] Cons.prems(1)
    by (auto simp: add.assoc)
qed simp

lemma lex_start: "lex_loop len cs [] st = lex_loop len cs [] st'"
proof (induction "length cs" arbitrary: cs rule: less_induct)
  case less
  show ?case
  proof (cases cs)
    case (Cons x cs')
    obtain pos c where x: "x = (pos, c)" by force
    have eq: "lex_loop len r [] st = lex_loop len r [] st'" if "length r < length cs" for r using less that by blast
    have q: "lex_loop len r [] st = lex_loop len r [] st'" if "dropWhile P cs' = y # r" for P y r
      using eq [of r] dropWhile_shorter [OF that] Cons by simp
    have j: "lex_loop len r [] st = lex_loop len r [] st'" if "json_literal 0 False False ((pos, c) # cs') = Some (s, e, r)" for s e r
      using eq [of r] json_literal_shorter [OF that] Cons x by simp
    show ?thesis unfolding Cons x lex_loop.simps
      using eq [of cs'] Cons
      by (cases "dropWhile (\<lambda>(_, d). d \<noteq> c) cs'"; cases "json_literal 0 False False ((pos, c) # cs')")
        (simp_all add: flush_def q j split: prod.split del: dropWhile_eq_Nil_conv)
  qed (simp add: flush_def)
qed

lemma lex_quote:
  assumes "quotes c" and "c \<notin> set s"
  shows "lex_loop len (char_indices pos (c # s @ c # rest)) [] start = map_sum id
    (\<lambda>us. \<lparr>tk_text = s, tk_kind = quote_kind c, tk_start = pos, tk_end = pos + str_len (c # s @ [c])\<rparr> # us)
    (lex_loop len (char_indices (pos + str_len (c # s @ [c])) rest) [] start)"
proof -
  have "takeWhile (\<lambda>d. d \<noteq> c) (s @ c # rest) = s" "dropWhile (\<lambda>d. d \<noteq> c) (s @ c # rest) = c # rest"
    using assms(2) by (auto simp: takeWhile_append dropWhile_append)
  then show ?thesis using assms(1) quote_len [OF assms(1)] by (simp add: dropWhile_indices flush_def add.commute add.left_commute)
qed

lemma lex_json:
  assumes "opens (hd s)" and "json_span 0 False False s = Some (s, [])"
  shows "lex_loop len (char_indices pos (s @ rest)) [] start = map_sum id
    (\<lambda>us. \<lparr>tk_text = s, tk_kind = JsonTok, tk_start = pos, tk_end = pos + str_len s\<rparr> # us)
    (lex_loop len (char_indices (pos + str_len s) rest) [] start)"
proof (cases s)
  case (Cons c cs)
  have "\<not> quotes c" using assms(1) Cons by (auto simp: opens_def quotes_def)
  then show ?thesis using assms Cons json_literal_span [of 0 False False pos "s @ rest"] json_span_append [OF assms(2), of rest] by simp
qed (use assms in \<open>simp add: json_span.simps\<close>)

lemma lex_separator:
  assumes "separates c"
  shows "lex_loop len (char_indices pos (c # rest)) [] start = map_sum id
    (\<lambda>us. \<lparr>tk_text = [c], tk_kind = separator_kind c, tk_start = pos, tk_end = pos + str_len [c]\<rparr> # us)
    (lex_loop len (char_indices (pos + str_len [c]) rest) [] start)"
  using assms by (auto simp: separates_def quotes_def opens_def flush_def len_utf8_def)

text \<open>One token and the space or end after it.\<close>

lemma lex_token:
  assumes "token_ok t" and "rest = [] \<or> (\<exists>rest'. rest = ch CHR '' '' # rest')" and "len = pos + str_len (render t @ rest)"
  shows "lex_loop len (char_indices pos (render t @ rest)) [] start =
    map_sum id (\<lambda>us. t\<lparr>tk_start := pos, tk_end := pos + str_len (render t)\<rparr> # us)
      (lex_loop len (char_indices (pos + str_len (render t) + 1) (tl rest)) [] start)"
proof -
  have space: "\<not> quotes 32" "\<not> opens 32" "\<not> separates 32" "is_whitespace 32" "len_utf8 32 = 1"
    by (simp_all add: quotes_def opens_def separates_def is_whitespace_def len_utf8_def)
  have after: "lex_loop len (char_indices p rest) [] st = lex_loop len (char_indices (p + 1) (tl rest)) [] st" for p st
    using assms(2) space by (auto simp: flush_def sum.map_ident id_def)
  obtain s k a b where t: "t = \<lparr>tk_text = s, tk_kind = k, tk_start = a, tk_end = b\<rparr>" by (cases t) auto
  show ?thesis
  proof (cases k)
    case Bare
    then have b: "bare_text s" "render t = s" using assms(1) t by (auto simp: token_ok_def render_def)
    have "lex_loop len (char_indices pos (s @ rest)) [] start = lex_loop len (char_indices (pos + str_len s) rest) s pos"
      using lex_word [of s "[]"] b(1) by (simp add: bare_text_def)
    also have "\<dots> = map_sum id (\<lambda>us. flush s pos (pos + str_len s) @ us) (lex_loop len (char_indices (pos + str_len s + 1) (tl rest)) [] pos)"
      using assms(2,3) space b by (auto simp: flush_def sum.map_ident id_def)
    finally show ?thesis using b t Bare lex_start [of len _ pos start] by (simp add: flush_def bare_text_def)
  next
    case DQuote
    then show ?thesis using assms(1) t after lex_quote [of dquote s len pos rest start]
      by (simp add: token_ok_def render_def quotes_def quote_kind_def)
  next
    case SQuote
    then show ?thesis using assms(1) t after lex_quote [of squote s len pos rest start]
      by (simp add: token_ok_def render_def quotes_def quote_kind_def)
  next
    case Backtick
    then show ?thesis using assms(1) t after lex_quote [of bquote s len pos rest start]
      by (simp add: token_ok_def render_def quotes_def quote_kind_def)
  next
    case JsonTok
    then show ?thesis using assms(1) t after lex_json [of s len pos rest start] by (simp add: token_ok_def render_def)
  next
    case Comma
    then show ?thesis using assms(1) t after lex_separator [of 44 len pos rest start]
      by (simp add: token_ok_def render_def separates_def separator_kind_def)
  next
    case LParen
    then show ?thesis using assms(1) t after lex_separator [of 40 len pos rest start]
      by (simp add: token_ok_def render_def separates_def separator_kind_def)
  next
    case RParen
    then show ?thesis using assms(1) t after lex_separator [of 41 len pos rest start]
      by (simp add: token_ok_def render_def separates_def separator_kind_def)
  qed
qed

lemma lex_write:
  "list_all token_ok ts \<Longrightarrow> len = pos + str_len (write_line ts) \<Longrightarrow>
    lex_loop len (char_indices pos (write_line ts)) [] start = Inr (place pos ts)"
proof (induction ts arbitrary: pos rule: write_line.induct)
  case (2 t)
  then show ?case using lex_token [of t "[]" len pos start] by (simp add: flush_def)
next
  case (3 t u ts)
  then show ?case using lex_token [of t "ch CHR '' '' # write_line (u # ts)" len pos start]
      "3.IH" [of "pos + str_len (render t) + 1"] by (simp add: len_utf8_def)
qed (simp add: flush_def)

text \<open>
  (C36) Tokens are the text. What the tokenizer returns for a line are tokens as they are written, at the
  byte positions they carry, in order, with nothing but whitespace between them; and writing them again
  with single spaces gives a line with the same tokens.
\<close>

theorem tokenize_exact:
  assumes "tokenize input = Inr ts"
  shows "pieces 0 input ts \<and> tokenize (write_line ts) = Inr (place 0 ts)"
  using lex_loop_pieces [of "str_len input" 0 input "[]" 0 ts] lex_write [of ts _ 0] assms by (simp add: tokenize_def)

theorem tokenize_exact_witness:
  "\<exists>ts. tokenize (lit ''a  [1],(b)'') = Inr ts \<and> map tk_kind ts = [Bare, JsonTok, Comma, LParen, Bare, RParen] \<and>
     tokenize (write_line ts) = Inr (place 0 ts)"
proof -
  have "map_sum id (map tk_kind) (tokenize (lit ''a  [1],(b)'')) = Inr [Bare, JsonTok, Comma, LParen, Bare, RParen]"
    by (simp add: tokenize_def lex_simps json_literal.simps Let_def flush_def quote_kind_def separator_kind_def)
  then obtain ts where ts: "tokenize (lit ''a  [1],(b)'') = Inr ts" "map tk_kind ts = [Bare, JsonTok, Comma, LParen, Bare, RParen]"
    by (rule map_sum_InrE)
  show ?thesis by (intro exI [of _ ts] conjI ts tokenize_exact [OF ts(1), THEN conjunct2])
qed

end
