(* ===== verification/Kva.thy ===== *)
theory Kva
  imports Lexer
begin

text \<open>
  Commands over several lines and \<^verbatim>\<open>.kva\<close> files (\<^verbatim>\<open>src/kva.rs\<close>). The loop of \<^verbatim>\<open>is_open\<close> is a fold of
  \<open>open_step\<close> over the characters.
\<close>

record statement =
  st_line :: nat
  st_text :: rstring

record scan =
  sc_depth :: int
  sc_quote :: "rchar option"
  sc_string :: bool
  sc_escaped :: bool
  sc_word :: bool

definition scan_start :: scan where
  "scan_start = \<lparr>sc_depth = 0, sc_quote = None, sc_string = False, sc_escaped = False, sc_word = True\<rparr>"

definition open_step :: "rchar \<Rightarrow> scan \<Rightarrow> scan" where
  "open_step c s =
     (if sc_depth s > 0 then
        (if sc_string s then
           (if sc_escaped s then s\<lparr>sc_escaped := False\<rparr>
            else if c = backslash then s\<lparr>sc_escaped := True\<rparr>
            else if c = dquote then s\<lparr>sc_string := False\<rparr> else s)
         else (let s = (if c = dquote then s\<lparr>sc_string := True\<rparr>
                        else if opens c then s\<lparr>sc_depth := sc_depth s + 1\<rparr>
                        else if closes c then s\<lparr>sc_depth := sc_depth s - 1\<rparr> else s)
               in if sc_depth s = 0 then s\<lparr>sc_word := False\<rparr> else s))
      else case sc_quote s of
          Some q \<Rightarrow> if c = q then s\<lparr>sc_quote := None\<rparr> else s
        | None \<Rightarrow>
            if quotes c then s\<lparr>sc_quote := Some c, sc_word := False\<rparr>
            else if opens c \<and> sc_word s then s\<lparr>sc_depth := 1, sc_word := False\<rparr>
            else if is_whitespace c \<or> separates c then s\<lparr>sc_word := True\<rparr>
            else s\<lparr>sc_word := False\<rparr>)"

definition is_open :: "rstring \<Rightarrow> bool" where
  "is_open text \<longleftrightarrow> sc_depth (fold open_step text scan_start) > 0"

subsection \<open>Files\<close>

definition trim_start :: "rstring \<Rightarrow> rstring" where
  "trim_start s = dropWhile is_whitespace s"

definition is_comment :: "rstring \<Rightarrow> bool" where
  "is_comment line = (case trim_start line of
     c # cs \<Rightarrow> c = ch CHR ''#'' \<or> c = ch CHR ''-'' \<and> (case cs of d # _ \<Rightarrow> d = ch CHR ''-'' | [] \<Rightarrow> False)
   | [] \<Rightarrow> False)"

text \<open>\<^verbatim>\<open>str::lines\<close>: without the end of each line, \<^verbatim>\<open>\n\<close> or \<^verbatim>\<open>\r\n\<close>; nothing after the last one.\<close>

definition chop_cr :: "rstring \<Rightarrow> rstring" where
  "chop_cr s = (if s \<noteq> [] \<and> last s = 13 then butlast s else s)"

fun split_lf :: "rstring \<Rightarrow> rstring list" where
  "split_lf [] = [[]]"
| "split_lf (c # cs) = (if c = 10 then [] # split_lf cs else (case split_lf cs of l # ls \<Rightarrow> (c # l) # ls | [] \<Rightarrow> [[c]]))"

definition rust_lines :: "rstring \<Rightarrow> rstring list" where
  "rust_lines s = (let ls = split_lf s; body = butlast ls
     in map chop_cr body @ (if last ls = [] then [] else [last ls]))"

definition trim_cr :: "rstring \<Rightarrow> rstring" where
  "trim_cr s = rev (dropWhile (\<lambda>c. c = 13) (rev s))"

fun split_loop :: "nat \<Rightarrow> rstring list \<Rightarrow> statement option \<Rightarrow> (nat \<times> string) + statement list" where
  "split_loop i [] pending = (case pending of
     Some p \<Rightarrow> Inl (st_line p, ''this command opens a { or [ that is never closed'') | None \<Rightarrow> Inr [])"
| "split_loop i (raw # lines) pending =
     (let line = trim_cr raw;
          next = (case pending of
            Some p \<Rightarrow> Some (p\<lparr>st_text := st_text p @ 10 # line\<rparr>)
          | None \<Rightarrow> if trim_str line = [] \<or> is_comment line then None
                    else Some \<lparr>st_line = i + 1, st_text = trim_start line\<rparr>)
      in case next of
           None \<Rightarrow> split_loop (i + 1) lines None
         | Some p \<Rightarrow> if is_open (st_text p) then split_loop (i + 1) lines (Some p)
                     else map_sum id ((#) p) (split_loop (i + 1) lines None))"

definition kva_split :: "rstring \<Rightarrow> (nat \<times> string) + statement list" where
  "kva_split source = split_loop 0 (rust_lines source) None"

text \<open>\<^verbatim>\<open>String::from_utf16\<close>, on the values of the units.\<close>

fun from_utf16 :: "nat list \<Rightarrow> rstring option" where
  "from_utf16 [] = Some []"
| "from_utf16 (u # us) =
     (if u < 0xD800 \<or> 0xE000 \<le> u then map_option ((#) u) (from_utf16 us)
      else if u < 0xDC00 then
        (case us of
           v # vs \<Rightarrow> if 0xDC00 \<le> v \<and> v < 0xE000
             then map_option ((#) (0x10000 + (u - 0xD800) * 0x400 + (v - 0xDC00))) (from_utf16 vs) else None
         | [] \<Rightarrow> None)
      else None)"

fun units :: "(u8 \<Rightarrow> u8 \<Rightarrow> nat) \<Rightarrow> bytes \<Rightarrow> nat list option" where
  "units unit [] = Some []"
| "units unit [a] = None"
| "units unit (a # b # bs) = map_option ((#) (unit a b)) (units unit bs)"

definition utf16_text :: "(u8 \<Rightarrow> u8 \<Rightarrow> nat) \<Rightarrow> bytes \<Rightarrow> string + rstring" where
  "utf16_text unit rest = (case units unit rest of
     None \<Rightarrow> Inl ''it starts as UTF-16 text but has an odd number of bytes''
   | Some us \<Rightarrow> (case from_utf16 us of
       None \<Rightarrow> Inl ''it starts as UTF-16 text but is not valid UTF-16'' | Some s \<Rightarrow> Inr s))"

definition le_unit :: "u8 \<Rightarrow> u8 \<Rightarrow> nat" where
  "le_unit a b = unat a + 256 * unat b"

definition be_unit :: "u8 \<Rightarrow> u8 \<Rightarrow> nat" where
  "be_unit a b = 256 * unat a + unat b"

definition utf8_text :: "string \<Rightarrow> bytes \<Rightarrow> string + rstring" where
  "utf8_text err bs = (case from_utf8 bs of Some s \<Rightarrow> Inr s | None \<Rightarrow> Inl err)"

definition kva_decode :: "bytes \<Rightarrow> string + rstring" where
  "kva_decode bs =
     (if take 3 bs = [0xEF, 0xBB, 0xBF] then utf8_text ''invalid utf-8 sequence'' (drop 3 bs)
      else if take 2 bs = [0xFF, 0xFE] then utf16_text le_unit (drop 2 bs)
      else if take 2 bs = [0xFE, 0xFF] then utf16_text be_unit (drop 2 bs)
      else utf8_text ''it is not UTF-8 text (save it as UTF-8, or as UTF-16 with a byte order mark)'' bs)"

definition kva_load :: "bytes \<Rightarrow> string + ((nat \<times> string) + statement list)" where
  "kva_load bs = map_sum id kva_split (kva_decode bs)"

subsection \<open>Open commands and the tokenizer\<close>

text \<open>No quote or closing bracket stands directly before an opening bracket.\<close>

fun spaced :: "rstring \<Rightarrow> bool" where
  "spaced (c # d # cs) \<longleftrightarrow> \<not> ((quotes c \<or> closes c) \<and> opens d) \<and> spaced (d # cs)"
| "spaced _ \<longleftrightarrow> True"

lemma spaced_append: "spaced (xs @ ys) \<Longrightarrow> spaced ys"
  by (induction xs rule: spaced.induct) (auto intro: spaced.simps elim: spaced.elims)

lemma spaced_next: "spaced (xs @ c # ys) \<Longrightarrow> quotes c \<or> closes c \<Longrightarrow> ys \<noteq> [] \<Longrightarrow> \<not> opens (hd ys)"
  using spaced_append [of xs "c # ys"] by (cases ys) auto

abbreviation outside :: "bool \<Rightarrow> scan" where
  "outside w \<equiv> \<lparr>sc_depth = 0, sc_quote = None, sc_string = False, sc_escaped = False, sc_word = w\<rparr>"

lemma fold_quote:
  "c \<notin> set s \<Longrightarrow> fold open_step s ((outside False)\<lparr>sc_quote := Some c\<rparr>) = (outside False)\<lparr>sc_quote := Some c\<rparr>"
  by (induction s) (auto simp: open_step_def)

lemma fold_quoted:
  "c \<notin> set s \<Longrightarrow> fold open_step (s @ c # rest) ((outside False)\<lparr>sc_quote := Some c\<rparr>) = fold open_step rest (outside False)"
  by (simp add: fold_quote [simplified]) (simp add: open_step_def)

definition inside :: "int \<Rightarrow> bool \<Rightarrow> bool \<Rightarrow> scan" where
  "inside d s e = \<lparr>sc_depth = d, sc_quote = None, sc_string = s, sc_escaped = e, sc_word = False\<rparr>"

lemma inside_depth: "sc_depth (inside d s e) = d"
  by (simp add: inside_def)

text \<open>One character of a document, as the tokenizer takes it.\<close>

lemma open_step_inside:
  assumes "d > 0"
  shows "open_step c (inside d True True) = inside d True False"
    and "c = backslash \<Longrightarrow> open_step c (inside d True False) = inside d True True"
    and "c = dquote \<Longrightarrow> open_step c (inside d True False) = inside d False False"
    and "c \<noteq> backslash \<Longrightarrow> c \<noteq> dquote \<Longrightarrow> open_step c (inside d True False) = inside d True False"
    and "c = dquote \<Longrightarrow> open_step c (inside d False False) = inside d True False"
    and "c \<noteq> dquote \<Longrightarrow> opens c \<Longrightarrow> open_step c (inside d False False) = inside (d + 1) False False"
    and "c \<noteq> dquote \<Longrightarrow> \<not> opens c \<Longrightarrow> closes c \<Longrightarrow> d - 1 = 0 \<Longrightarrow> open_step c (inside d False False) = outside False"
    and "c \<noteq> dquote \<Longrightarrow> \<not> opens c \<Longrightarrow> closes c \<Longrightarrow> d - 1 \<noteq> 0 \<Longrightarrow> open_step c (inside d False False) = inside (d - 1) False False"
    and "c \<noteq> dquote \<Longrightarrow> \<not> opens c \<Longrightarrow> \<not> closes c \<Longrightarrow> open_step c (inside d False False) = inside d False False"
  using assms by (simp_all add: open_step_def inside_def Let_def)

lemma fold_json:
  assumes "d > 0" and "e \<longrightarrow> s"
  shows "(case json_span d s e cs of
      Some (t, rest) \<Rightarrow> fold open_step t (inside d s e) = outside False
    | None \<Rightarrow> sc_depth (fold open_step cs (inside d s e)) > 0)"
  using assms
proof (induction cs arbitrary: d s e)
  case Nil
  then show ?case by (simp add: json_span.simps inside_depth)
next
  case (Cons c cs)
  have lift: "(case map_option (\<lambda>(t, rest). (c # t, rest)) (json_span d' s' e' cs) of
      Some (t, rest) \<Rightarrow> fold open_step t (inside d s e) = outside False
    | None \<Rightarrow> sc_depth (fold open_step (c # cs) (inside d s e)) > 0)"
    if "open_step c (inside d s e) = inside d' s' e'" "d' > 0" "e' \<longrightarrow> s'" for d' s' e'
    using Cons.IH [OF that(2,3)] that(1) by (auto split: option.splits)
  note steps = open_step_inside [OF Cons.prems(1), of c]
  show ?case
  proof (cases s)
    case s: True
    then show ?thesis using lift steps(1-4) Cons.prems(1)
      by (cases e; cases "c = backslash"; cases "c = dquote") (simp_all add: json_span.simps(2) Let_def)
  next
    case s: False
    then have e: "\<not> e" using Cons.prems(2) by simp
    show ?thesis
    proof (cases "closes c \<and> c \<noteq> dquote \<and> \<not> opens c \<and> d - 1 = 0")
      case True
      then show ?thesis using s e steps(7) by (simp add: json_span.simps(2) Let_def)
    next
      case False
      then show ?thesis using s e lift steps(5,6,8,9) Cons.prems(1)
        by (cases "c = dquote"; cases "opens c"; cases "closes c") (simp_all add: json_span.simps(2) Let_def)
    qed
  qed
qed

lemma json_span_last: "json_span d s e cs = Some (t, rest) \<Longrightarrow> t \<noteq> [] \<and> closes (last t)"
proof (induction d s e cs arbitrary: t rule: json_span.induct)
  case (2 d s e c cs)
  then show ?case by (auto simp: json_span.simps(2) Let_def split: if_splits)
qed (simp add: json_span.simps)

lemma snoc_append: "t \<noteq> [] \<Longrightarrow> butlast t @ last t # rest = t @ rest"
  by (metis append.assoc append_Cons append_Nil append_butlast_last_id)

definition bracket_open :: "lex_error + token list \<Rightarrow> bool" where
  "bracket_open r \<longleftrightarrow> (\<exists>c. r = Inl (UnclosedBracket c))"

lemma bracket_open_map [simp]: "bracket_open (map_sum id f r) \<longleftrightarrow> bracket_open r"
  by (cases r) (auto simp: bracket_open_def)

lemma is_open_lex:
  assumes "spaced cs" and "w \<longrightarrow> current = []" and "\<not> w \<longrightarrow> current \<noteq> [] \<or> cs = [] \<or> \<not> opens (hd cs)"
  shows "sc_depth (fold open_step cs (outside w)) > 0 \<longleftrightarrow> bracket_open (lex_loop len (char_indices pos cs) current start)"
  using assms
proof (induction "length cs" arbitrary: cs pos w current start rule: less_induct)
  case less
  note IH = less.hyps and spaced = less.prems(1) and w = less.prems(2,3)
  show ?case
  proof (cases cs)
    case Nil
    then show ?thesis by (simp add: bracket_open_def)
  next
    case (Cons c cs')
    have sp: "spaced cs'" using spaced spaced_append [of "[c]" cs'] Cons by simp
    consider (quote) "quotes c" | (json) "\<not> quotes c" "opens c" "current = []" | (sep) "\<not> quotes c" "\<not> (opens c \<and> current = [])" "separates c"
      | (space) "\<not> quotes c" "\<not> (opens c \<and> current = [])" "\<not> separates c" "is_whitespace c"
      | (word) "\<not> quotes c" "\<not> (opens c \<and> current = [])" "\<not> separates c" "\<not> is_whitespace c" by blast
    then show ?thesis
    proof cases
      case quote
      have q: "open_step c (outside w) = (outside False)\<lparr>sc_quote := Some c\<rparr>" using quote by (simp add: open_step_def)
      show ?thesis
      proof (cases "dropWhile (\<lambda>d. d \<noteq> c) cs'")
        case Nil
        then have "c \<notin> set cs'" by auto
        then show ?thesis using q Cons quote Nil fold_quote [of c cs']
          by (simp add: dropWhile_indices bracket_open_def del: dropWhile_eq_Nil_conv)
      next
        case d: (Cons x rest)
        note x = quote_split [OF d]
        let ?s = "takeWhile (\<lambda>d. d \<noteq> c) cs'"
        have "fold open_step (?s @ c # rest) ((outside False)\<lparr>sc_quote := Some c\<rparr>) = fold open_step rest (outside False)"
          using x by (intro fold_quoted) simp
        then have "fold open_step cs (outside w) = fold open_step rest (outside False)"
          using q Cons x by (metis fold_simps(2))
        moreover have "spaced rest" "rest \<noteq> [] \<Longrightarrow> \<not> opens (hd rest)"
          using spaced_append [of "c # ?s @ [c]" rest] spaced_next [of "c # ?s" c rest] spaced Cons x quote by auto
        moreover have "length rest < length cs" using x Cons by (metis dropWhile_shorter d length_Cons less_Suc_eq)
        ultimately show ?thesis using IH [of rest False "[]" "pos + len_utf8 c + str_len ?s + len_utf8 x" start] Cons quote d
          by (auto simp: dropWhile_indices)
      qed
    next
      case json
      then have w': "w" using w Cons by auto
      have c: "c \<noteq> dquote" using json(1) by (simp add: quotes_def)
      have i: "open_step c (outside w) = inside 1 False False" using json w' by (simp add: open_step_def inside_def)
      have span: "json_span 0 False False cs = map_option (\<lambda>(t, rest). (c # t, rest)) (json_span 1 False False cs')"
        using Cons c json by (simp add: json_span.simps(2) Let_def)
      show ?thesis
      proof (cases "json_span 1 False False cs'")
        case None
        then show ?thesis using fold_json [of 1 False False cs'] i Cons json span json_literal_span [of 0 False False pos cs]
          by (simp add: bracket_open_def)
      next
        case (Some a)
        then obtain t rest where t: "json_span 1 False False cs' = Some (t, rest)" by (cases a) auto
        have cs': "cs' = t @ rest" using json_span_append [OF t] by simp
        have last: "t \<noteq> [] \<and> closes (last t)" using json_span_last [OF t] .
        have "fold open_step cs (outside w) = fold open_step rest (outside False)"
          using fold_json [of 1 False False cs'] t i Cons cs' by simp
        moreover have "spaced rest" "rest \<noteq> [] \<Longrightarrow> \<not> opens (hd rest)"
          using spaced_append [of t rest] spaced_next [of "butlast t" "last t" rest] sp cs' last
          by (auto simp: snoc_append [of t])
        moreover have "length rest < length cs" using cs' Cons by simp
        ultimately show ?thesis using IH [of rest False "[]" "pos + str_len (c # t)" start] Cons json span t json_literal_span [of 0 False False pos cs]
          by auto
      qed
    next
      case sep
      then have "open_step c (outside w) = outside True" using w Cons by (auto simp: open_step_def)
      then show ?thesis using IH [of cs' True "[]" "pos + len_utf8 c" start] Cons sep sp by auto
    next
      case space
      then have "open_step c (outside w) = outside True" using w Cons by (auto simp: open_step_def)
      then show ?thesis using IH [of cs' True "[]" "pos + len_utf8 c" start] Cons space sp by auto
    next
      case word
      then have "open_step c (outside w) = outside False" using w Cons by (auto simp: open_step_def)
      then show ?thesis using IH [of cs' False "current @ [c]" "pos + len_utf8 c"] Cons word sp by auto
    qed
  qed
qed

text \<open>
  (C37) A command goes on while its document is open. When no bracket directly follows a quote or a closing
  bracket, a text is open exactly when the tokenizer would refuse it for a bracket that is not closed.
\<close>

theorem is_open_exact:
  assumes "spaced s"
  shows "is_open s \<longleftrightarrow> (\<exists>c. tokenize s = Inl (UnclosedBracket c))"
  using is_open_lex [of s True "[]" "str_len s" 0 0] assms
  by (simp add: is_open_def tokenize_def scan_start_def bracket_open_def)

theorem is_open_exact_witness:
  "spaced (lit ''set a {\<newline> 1'') \<and> is_open (lit ''set a {\<newline> 1'') \<and> (\<exists>c. tokenize (lit ''set a {\<newline> 1'') = Inl (UnclosedBracket c))"
proof -
  have "spaced (lit ''set a {\<newline> 1'')" "is_open (lit ''set a {\<newline> 1'')"
    by (simp_all add: is_open_def scan_start_def open_step_def lex_simps)
  then show ?thesis using is_open_exact by blast
qed

text \<open>
  Where the two differ. A bracket right after a quoted text starts a document for the tokenizer but
  not for the reader of files: the command below is complete for one and unclosed for the other.
\<close>

theorem is_open_misses: "\<not> is_open (lit ''`k`{'') \<and> tokenize (lit ''`k`{'') = Inl (UnclosedBracket (ch CHR ''{''))"
  by (simp add: is_open_def scan_start_def open_step_def tokenize_def lex_simps json_literal.simps)

subsection \<open>Decoding\<close>

fun utf16_char :: "rchar \<Rightarrow> nat list" where
  "utf16_char c = (if c < 0x10000 then [c] else [0xD800 + (c - 0x10000) div 0x400, 0xDC00 + (c - 0x10000) mod 0x400])"

definition utf16_bytes :: "(nat \<Rightarrow> bytes) \<Rightarrow> rstring \<Rightarrow> bytes" where
  "utf16_bytes unit s = concat (map unit (concat (map utf16_char s)))"

definition le_pair :: "nat \<Rightarrow> bytes" where
  "le_pair u = [of_nat (u mod 256), of_nat (u div 256)]"

definition be_pair :: "nat \<Rightarrow> bytes" where
  "be_pair u = [of_nat (u div 256), of_nat (u mod 256)]"

lemma from_utf16_char:
  assumes "valid_char c"
  shows "from_utf16 (utf16_char c @ us) = map_option ((#) c) (from_utf16 us)"
proof (cases "c < 0x10000")
  case True
  then show ?thesis using assms by (auto simp: valid_char_def)
next
  case False
  let ?h = "(c - 0x10000) div 0x400" and ?l = "(c - 0x10000) mod 0x400"
  have "?h < 0x400" "?l < 0x400" using assms False by (auto simp: valid_char_def)
  moreover have "0x10000 + (?h * 0x400 + ?l) = c" using False by (subst div_mult_mod_eq) simp
  ultimately show ?thesis using False by (simp add: add.assoc)
qed

lemma from_utf16_str: "valid_str s \<Longrightarrow> from_utf16 (concat (map utf16_char s)) = Some s"
  by (induction s) (simp_all add: from_utf16_char del: utf16_char.simps)

lemma utf16_small: "valid_str s \<Longrightarrow> u \<in> set (concat (map utf16_char s)) \<Longrightarrow> u < 65536"
  by (induction s) (auto simp: valid_char_def split: if_splits)

lemma unit_pair:
  "u < 65536 \<Longrightarrow> units le_unit (le_pair u @ bs) = map_option ((#) u) (units le_unit bs)"
  "u < 65536 \<Longrightarrow> units be_unit (be_pair u @ bs) = map_option ((#) u) (units be_unit bs)"
  by (simp_all add: le_pair_def be_pair_def le_unit_def be_unit_def unat_of_nat take_bit_eq_mod)

lemma units_pairs:
  "\<forall>u \<in> set us. u < 65536 \<Longrightarrow> units le_unit (concat (map le_pair us)) = Some us"
  "\<forall>u \<in> set us. u < 65536 \<Longrightarrow> units be_unit (concat (map be_pair us)) = Some us"
  by (induction us) (simp_all add: unit_pair)

lemma utf16_text_bytes:
  "valid_str s \<Longrightarrow> utf16_text le_unit (utf16_bytes le_pair s) = Inr s"
  "valid_str s \<Longrightarrow> utf16_text be_unit (utf16_bytes be_pair s) = Inr s"
  using utf16_small [of s] by (simp_all add: utf16_text_def utf16_bytes_def units_pairs from_utf16_str del: set_concat)

text \<open>Text in UTF-8 does not start as UTF-16 does, and with the byte order mark only if it has it.\<close>

lemma utf8_not_bom:
  assumes "valid_str s" and "s = [] \<or> hd s \<noteq> 0xFEFF"
  shows "take 3 (as_bytes s) \<noteq> [0xEF, 0xBB, 0xBF]" "take 2 (as_bytes s) \<noteq> [0xFF, 0xFE]" "take 2 (as_bytes s) \<noteq> [0xFE, 0xFF]"
proof -
  have split: "as_bytes s = bs @ drop (length bs) (as_bytes s)" if "take (length bs) (as_bytes s) = bs" for bs
    using that by (metis append_take_drop_id)
  have f: "from_utf8 (as_bytes s) = Some s" using assms(1) by simp
  show "take 3 (as_bytes s) \<noteq> [0xEF, 0xBB, 0xBF]"
  proof
    assume "take 3 (as_bytes s) = [0xEF, 0xBB, 0xBF]"
    then have b: "as_bytes s = [0xEF, 0xBB, 0xBF] @ drop 3 (as_bytes s)" using split [of "[0xEF, 0xBB, 0xBF]"] by (simp add: numeral_3_eq_3)
    have "utf8_next ([0xEF, 0xBB, 0xBF] @ r) = Some (0xFEFF, r)" for r
      by (simp add: utf8_next_def is_cont_def Let_def valid_char_def)
    then have "from_utf8 (as_bytes s) = map_option ((#) 0xFEFF) (from_utf8 (drop 3 (as_bytes s)))"
      by (subst b, subst from_utf8.simps) simp
    then show False using f assms(2) by (cases "from_utf8 (drop 3 (as_bytes s))") auto
  qed
  have none: "from_utf8 (b # bs) = None" if "b = 0xFF \<or> b = 0xFE" for b bs
    using that by (subst from_utf8.simps) (auto simp: utf8_next_def split: list.split)
  have no: "take 2 (as_bytes s) \<noteq> [b, b']" if "b = 0xFF \<or> b = 0xFE" for b b'
  proof
    assume "take 2 (as_bytes s) = [b, b']"
    then obtain r where "as_bytes s = b # r" by (cases "as_bytes s") auto
    then show False using none [OF that, of r] f by simp
  qed
  show "take 2 (as_bytes s) \<noteq> [0xFF, 0xFE]" "take 2 (as_bytes s) \<noteq> [0xFE, 0xFF]"
    using no [of "0xFF" "0xFE"] no [of "0xFE" "0xFF"] by blast+
qed

text \<open>
  Every form a text file is written in reads back: UTF-8 with and without a byte order mark (a text
  that starts with one needs another), and UTF-16 in both byte orders.
\<close>

theorem kva_decode_roundtrip:
  assumes "valid_str s"
  shows "kva_decode ([0xEF, 0xBB, 0xBF] @ as_bytes s) = Inr s \<and> kva_decode ([0xFF, 0xFE] @ utf16_bytes le_pair s) = Inr s \<and>
    kva_decode ([0xFE, 0xFF] @ utf16_bytes be_pair s) = Inr s \<and>
    (s = [] \<or> hd s \<noteq> 0xFEFF \<longrightarrow> kva_decode (as_bytes s) = Inr s)"
  using assms utf8_not_bom [OF assms] utf16_text_bytes [OF assms] by (auto simp: kva_decode_def utf8_text_def)

theorem kva_decode_roundtrip_witness:
  "valid_str [97, 0x1F600] \<and> kva_decode [0xFF, 0xFE, 97, 0, 0x3D, 0xD8, 0, 0xDE] = Inr [97, 0x1F600]"
proof -
  have "valid_str [97, 0x1F600]" by (simp add: valid_char_def)
  moreover have "utf16_bytes le_pair [97, 0x1F600] = [97, 0, 0x3D, 0xD8, 0, 0xDE]"
    by (simp add: utf16_bytes_def le_pair_def)
  ultimately show ?thesis using kva_decode_roundtrip [of "[97, 0x1F600]"] by simp
qed

subsection \<open>Splitting a file\<close>

fun join_lf :: "rstring list \<Rightarrow> rstring" where
  "join_lf [] = []"
| "join_lf [l] = l"
| "join_lf (l # m # ls) = l @ 10 # join_lf (m # ls)"

text \<open>A command as a file holds it: open after each line but the last.\<close>

definition command_ok :: "rstring list \<Rightarrow> bool" where
  "command_ok ls \<longleftrightarrow> ls \<noteq> [] \<and> (\<forall>l \<in> set ls. 10 \<notin> set l \<and> 13 \<notin> set l) \<and>
     trim_str (hd ls) \<noteq> [] \<and> \<not> is_comment (hd ls) \<and> trim_start (hd ls) = hd ls \<and>
     \<not> is_open (join_lf ls) \<and> (\<forall>k. 0 < k \<longrightarrow> k < length ls \<longrightarrow> is_open (join_lf (take k ls)))"

definition write_file :: "rstring list list \<Rightarrow> rstring" where
  "write_file cmds = concat (map (\<lambda>ls. join_lf ls @ [10]) cmds)"

fun numbered :: "nat \<Rightarrow> rstring list list \<Rightarrow> statement list" where
  "numbered i [] = []"
| "numbered i (ls # cmds) = \<lparr>st_line = i + 1, st_text = join_lf ls\<rparr> # numbered (i + length ls) cmds"

lemma split_lf_some: "split_lf xs \<noteq> []"
  by (induction xs) (auto split: list.splits)

lemma split_lf_append: "split_lf (xs @ 10 # ys) = split_lf xs @ split_lf ys"
proof (induction xs)
  case (Cons x xs)
  then show ?case using split_lf_some [of xs] by (cases "split_lf xs") auto
qed simp

lemma split_lf_plain: "10 \<notin> set l \<Longrightarrow> split_lf l = [l]"
  by (induction l) auto

lemma split_lf_join: "ls \<noteq> [] \<Longrightarrow> \<forall>l \<in> set ls. 10 \<notin> set l \<Longrightarrow> split_lf (join_lf ls) = ls"
  by (induction ls rule: join_lf.induct) (auto simp: split_lf_append split_lf_plain)

lemma split_lf_file: "list_all command_ok cmds \<Longrightarrow> split_lf (write_file cmds) = concat cmds @ [[]]"
  by (induction cmds) (auto simp: write_file_def command_ok_def split_lf_append split_lf_join)

lemma no_cr: "13 \<notin> set l \<Longrightarrow> chop_cr l = l \<and> trim_cr l = l"
proof -
  assume "13 \<notin> set l"
  moreover have "dropWhile (\<lambda>c. c = 13) (rev l) = rev l" if "13 \<notin> set l"
    using that by (cases "rev l") (auto dest: arg_cong [where f = set])
  moreover have "l \<noteq> [] \<Longrightarrow> last l \<noteq> 13" using \<open>13 \<notin> set l\<close> last_in_set [of l] by metis
  ultimately show ?thesis by (auto simp: chop_cr_def trim_cr_def)
qed

lemma join_lf_snoc: "ls \<noteq> [] \<Longrightarrow> join_lf (ls @ [l]) = join_lf ls @ 10 # l"
  by (induction ls rule: join_lf.induct) auto

lemma split_pending:
  assumes "ls \<noteq> []" and "\<forall>l \<in> set ls. 13 \<notin> set l" and "acc \<noteq> []"
    and "\<not> is_open (join_lf (acc @ ls))" and "\<forall>k. 0 < k \<longrightarrow> k < length ls \<longrightarrow> is_open (join_lf (acc @ take k ls))"
  shows "split_loop i (ls @ rest) (Some \<lparr>st_line = n, st_text = join_lf acc\<rparr>) =
    map_sum id ((#) \<lparr>st_line = n, st_text = join_lf (acc @ ls)\<rparr>) (split_loop (i + length ls) rest None)"
  using assms
proof (induction ls arbitrary: i acc)
  case (Cons l ls)
  have l: "trim_cr l = l" using Cons.prems(2) no_cr by simp
  have j: "join_lf acc @ 10 # l = join_lf (acc @ [l])" using Cons.prems(3) by (simp add: join_lf_snoc)
  show ?case
  proof (cases "ls = []")
    case True
    then show ?thesis using l j Cons.prems(4) by (simp add: id_def)
  next
    case False
    have "is_open (join_lf (acc @ [l]))" using Cons.prems(5) [rule_format, of 1] False by simp
    moreover have "is_open (join_lf ((acc @ [l]) @ take k ls))" if "0 < k" "k < length ls" for k
      using Cons.prems(5) [rule_format, of "k + 1"] that by simp
    ultimately show ?thesis using l j False Cons.IH [of "acc @ [l]" "i + 1"] Cons.prems(2,4) by simp
  qed
qed simp

lemma split_command:
  assumes "command_ok ls"
  shows "split_loop i (ls @ rest) None =
    map_sum id ((#) \<lparr>st_line = i + 1, st_text = join_lf ls\<rparr>) (split_loop (i + length ls) rest None)"
proof (cases ls)
  case (Cons l ls')
  have l: "trim_cr l = l" using assms Cons no_cr by (simp add: command_ok_def)
  show ?thesis
  proof (cases "ls' = []")
    case True
    then show ?thesis using assms l Cons by (simp add: command_ok_def Let_def)
  next
    case False
    have "is_open (join_lf [l])" "\<forall>k. 0 < k \<longrightarrow> k < length ls' \<longrightarrow> is_open (join_lf ([l] @ take k ls'))"
      using assms Cons False unfolding command_ok_def by (metis One_nat_def length_Cons less_Suc_eq_0_disj take_Suc_Cons take0 Suc_less_eq length_greater_0_conv zero_less_Suc append_Cons append_Nil list.sel(1))+
    then show ?thesis using assms l Cons split_pending [of ls' "[l]" "i + 1" rest "i + 1"] False by (simp add: command_ok_def Let_def)
  qed
qed (use assms in \<open>simp add: command_ok_def\<close>)

lemma split_commands: "list_all command_ok cmds \<Longrightarrow> split_loop i (concat cmds) None = Inr (numbered i cmds)"
  by (induction cmds arbitrary: i) (simp_all add: split_command)

text \<open>
  (C38) A file of commands reads back: each command over one or several lines becomes one statement with
  its text and the line where it starts.
\<close>

theorem kva_split_roundtrip:
  assumes "list_all command_ok cmds"
  shows "kva_split (write_file cmds) = Inr (numbered 0 cmds)"
proof -
  have "map chop_cr (concat cmds) = concat cmds" using assms no_cr
    by (intro map_idI) (auto simp: list_all_iff command_ok_def)
  then show ?thesis using split_commands [OF assms, of 0] by (simp add: kva_split_def rust_lines_def split_lf_file [OF assms])
qed

theorem kva_split_roundtrip_witness:
  "kva_split (lit ''a\<newline>s {\<newline>}\<newline>'') = Inr [\<lparr>st_line = 1, st_text = lit ''a''\<rparr>, \<lparr>st_line = 2, st_text = lit ''s {\<newline>}''\<rparr>]"
proof -
  have "command_ok [lit ''a'']" "command_ok [lit ''s {'', lit ''}'']"
    unfolding command_ok_def
    by (simp_all add: trim_str_def trim_start_def is_comment_def is_open_def scan_start_def open_step_def lex_simps less_Suc_eq)
  then show ?thesis using kva_split_roundtrip [of "[[lit ''a''], [lit ''s {'', lit ''}'']]"] by (simp add: write_file_def)
qed

end
