(* ===== verification/Replicate.thy ===== *)
theory Replicate
  imports Proto Kva Failover Refine
begin

text \<open>
  Replication (\<^verbatim>\<open>src/repl.rs\<close>): what a master sends to a replica (\<^verbatim>\<open>serve_replica\<close>) and what the replica
  does with it (\<^verbatim>\<open>follow\<close>), with the workspaces of an instance (\<^verbatim>\<open>src/instance.rs\<close>) it works on. The thread
  that answers acknowledgements and the handshake before the stream are not modelled. What happens around
  the handling of one frame is in the record \<open>frame_env\<close>: the clocks, the random bytes, the files of
  workspaces that are not open yet and the faults of the disk, the configuration and the socket.
\<close>

subsection \<open>Messages\<close>

definition SYSTEM :: rstring where "SYSTEM = lit ''@system''"

definition CMD_REPL_ACK :: u16 where "CMD_REPL_ACK = 21"
definition ST_ERR :: u16 where "ST_ERR = 1"
definition R_SNAP_BEGIN :: u16 where "R_SNAP_BEGIN = 30"
definition R_SET :: u16 where "R_SET = 31"
definition R_DEL :: u16 where "R_DEL = 32"
definition R_RESET :: u16 where "R_RESET = 33"
definition R_SNAP_END :: u16 where "R_SNAP_END = 34"
definition R_PROMOTE :: u16 where "R_PROMOTE = 35"
definition R_PING :: u16 where "R_PING = 36"
definition R_WORKSPACES :: u16 where "R_WORKSPACES = 37"
definition R_USE :: u16 where "R_USE = 38"
definition R_WS_REMOVE :: u16 where "R_WS_REMOVE = 39"

lemmas code_defs = CMD_REPL_ACK_def ST_ERR_def R_SNAP_BEGIN_def R_SET_def R_DEL_def R_RESET_def R_SNAP_END_def
  R_PROMOTE_def R_PING_def R_WORKSPACES_def R_USE_def R_WS_REMOVE_def

datatype repl_msg = MOp u64 rstring op | MWorkspace rstring bool | MPromote

type_synonym frame = "u16 \<times> bytes"

fun enc_byte :: "doc_enc \<Rightarrow> u8" where
  "enc_byte EJson = 0" | "enc_byte EMsgPack = 1" | "enc_byte EKdoc = 2"

definition set_payload :: "u64 \<Rightarrow> rstring \<Rightarrow> vtype \<Rightarrow> doc_enc \<Rightarrow> int \<Rightarrow> int \<Rightarrow> bytes \<Rightarrow> bytes" where
  "set_payload seq key ty de timestamp expires_at raw =
     be_bytes 8 seq @ be_bytes 8 (word_of_int timestamp :: u64) @ be_bytes 8 (word_of_int expires_at :: u64) @
     [type_u8 ty, enc_byte de] @ be_bytes 2 (word_of_nat (str_len key) :: u16) @ as_bytes key @ raw"

fun op_frame :: "u64 \<Rightarrow> op \<Rightarrow> frame" where
  "op_frame seq (OpSet key ty raw de ts ex created) = (R_SET, set_payload seq key ty de ts ex raw)"
| "op_frame seq (OpDel key) = (R_DEL, be_bytes 8 seq @ as_bytes key)"
| "op_frame seq OpReset = (R_RESET, be_bytes 8 seq)"

subsection \<open>The master\<close>

text \<open>
  The snapshot of one database: the keys of one reading of the index, then each key read on its own, when
  other threads may have changed the database in between. \<open>answers\<close> has what \<^verbatim>\<open>get_raw\<close> answered for each key.
\<close>

definition snapshot_op :: "rstring \<times> (kiva_error + (bytes \<times> entry) option) \<Rightarrow> op option" where
  "snapshot_op kr = (case kr of
     (key, Inr (Some (raw, e))) \<Rightarrow> Some (OpSet key (e_ty e) raw (e_doc_enc e) (e_timestamp e) (e_expires_at e) False)
   | _ \<Rightarrow> None)"

definition snapshot_frames :: "rstring \<Rightarrow> (rstring \<times> (kiva_error + (bytes \<times> entry) option)) list \<Rightarrow> frame list" where
  "snapshot_frames name answers =
     (R_USE, as_bytes name) # (R_RESET, be_bytes 8 (0 :: u64)) # map (op_frame 0) (List.map_filter snapshot_op answers)"

text \<open>The loop: a heartbeat when it is due, or a message of the queue; \<open>cur\<close> is the database in use.\<close>

datatype serve_event = Beat bytes | Msg repl_msg

fun serve_one :: "rstring \<Rightarrow> serve_event \<Rightarrow> frame list \<times> rstring" where
  "serve_one cur (Beat j) = ([(R_PING, j)], cur)"
| "serve_one cur (Msg (MOp seq ws o_p)) =
     ((if ws \<noteq> cur then [(R_USE, as_bytes ws)] else []) @ [op_frame seq o_p], ws)"
| "serve_one cur (Msg (MWorkspace ws False)) = ([(R_USE, as_bytes ws)], ws)"
| "serve_one cur (Msg (MWorkspace ws True)) = ([(R_WS_REMOVE, as_bytes ws)], cur)"
| "serve_one cur (Msg MPromote) = ([(R_PROMOTE, [])], cur)"

fun serve_loop :: "rstring \<Rightarrow> serve_event list \<Rightarrow> frame list" where
  "serve_loop cur [] = []"
| "serve_loop cur (ev # evs) = (let (fs, cur) = serve_one cur ev in fs @ serve_loop cur evs)"

definition serve_replica ::
  "rstring list \<Rightarrow> (rstring \<times> (rstring \<times> (kiva_error + (bytes \<times> entry) option)) list) list \<Rightarrow>
    (rstring \<times> (kiva_error + (bytes \<times> entry) option)) list \<Rightarrow> u64 \<Rightarrow> serve_event list \<Rightarrow> frame list" where
  "serve_replica names snaps system seq evs =
     [(R_SNAP_BEGIN, []), (R_WORKSPACES, as_bytes (join_lf names))] @
     concat (map (\<lambda>(name, answers). snapshot_frames name answers) snaps) @
     snapshot_frames SYSTEM system @ (R_SNAP_END, be_bytes 8 seq) # serve_loop SYSTEM evs"

text \<open>\<^verbatim>\<open>broadcast\<close> numbers the operations in the order they are queued.\<close>

definition broadcast :: "rstring \<Rightarrow> op \<Rightarrow> nat \<times> repl_msg list \<Rightarrow> nat \<times> repl_msg list" where
  "broadcast ws o_p q = (case q of (seq, queue) \<Rightarrow> (seq + 1, queue @ [MOp (word_of_nat (seq + 1)) ws o_p]))"

subsection \<open>Workspaces\<close>

text \<open>
  A node: the names the configuration registers (\<open>default\<close> is always there), the engines that are open, the
  system database, the database in use and the state of the group. \<open>fw_sent\<close> is what goes back to the master.
\<close>

record trigger =
  tg_name :: rstring
  tg_event :: rstring
  tg_pattern :: rstring
  tg_script :: rstring

record follower =
  fw_names :: "rstring oset"
  fw_engines :: "rstring \<Rightarrow> inner option"
  fw_system :: inner
  fw_using :: rstring
  fw_triggers :: "trigger list"
  fw_repl :: repl
  fw_status :: string
  fw_applied_ops :: nat
  fw_last_sync :: "int option"
  fw_sent :: bytes

record frame_env =
  fe_call :: call
  fe_clock :: nat
  fe_active :: bool
  fe_compacting :: bool
  fe_file_id :: "kiva_error + u64"
  fe_config :: "kiva_error option"
  fe_disk :: "rstring \<Rightarrow> kiva_error + inner"
  fe_socket :: "kiva_error option"

definition and_then :: "('e + 'a) \<times> 's \<Rightarrow> ('a \<Rightarrow> 's \<Rightarrow> ('e + 'b) \<times> 's) \<Rightarrow> ('e + 'b) \<times> 's" where
  "and_then m f = (case m of (Inl e, s) \<Rightarrow> (Inl e, s) | (Inr a, s) \<Rightarrow> f a s)"

lemma and_then_simps [simp]: "and_then (Inl e, s) f = (Inl e, s)" "and_then (Inr a, s) f = f a s"
  by (simp_all add: and_then_def)

definition is_alnum :: "rchar \<Rightarrow> bool" where
  "is_alnum c \<longleftrightarrow> is_digit c \<or> 65 \<le> c \<and> c \<le> 90 \<or> 97 \<le> c \<and> c \<le> 122"

definition valid_name_part :: "rstring \<Rightarrow> bool" where
  "valid_name_part name \<longleftrightarrow> name \<noteq> [] \<and> str_len name \<le> 64 \<and>
     list_all (\<lambda>c. is_alnum c \<or> c = ch CHR ''_'' \<or> c = ch CHR ''-'') name"

definition valid_workspace_name :: "rstring \<Rightarrow> bool" where
  "valid_workspace_name name = (if ch CHR ''.'' \<in> set name
     then valid_name_part (takeWhile (\<lambda>c. c \<noteq> ch CHR ''.'') name) \<and>
       valid_name_part (tl (dropWhile (\<lambda>c. c \<noteq> ch CHR ''.'') name))
     else valid_name_part name)"

definition check_workspace_name :: "rstring \<Rightarrow> kiva_error + unit" where
  "check_workspace_name name = (if valid_workspace_name name then Inr ()
     else Inl (Invalid ''workspace names may only contain letters, digits, underscores and dashes''))"

definition registered :: "rstring \<Rightarrow> follower \<Rightarrow> bool" where
  "registered name w \<longleftrightarrow> name = lit ''default'' \<or> om_get (fw_names w) name \<noteq> None"

definition create_workspace :: "frame_env \<Rightarrow> rstring \<Rightarrow> follower \<Rightarrow> (kiva_error + unit) \<times> follower" where
  "create_workspace fe name w = (case check_workspace_name name of
     Inl e \<Rightarrow> (Inl e, w)
   | Inr _ \<Rightarrow>
       if registered name w then (Inl (Exists ''workspace already exists''), w)
       else (case fe_config fe of
           Some e \<Rightarrow> (Inl e, w)
         | None \<Rightarrow> (Inr (), w\<lparr>fw_names := om_insert name () (fw_names w)\<rparr>)))"

definition remove_workspace :: "frame_env \<Rightarrow> rstring \<Rightarrow> follower \<Rightarrow> (kiva_error + bool) \<times> follower" where
  "remove_workspace fe name w =
     (if name = lit ''default'' then (Inl (Invalid ''the default workspace cannot be removed''), w)
      else if om_get (fw_names w) name = None then (Inr False, w)
      else (let w = w\<lparr>fw_names := om_remove name (fw_names w)\<rparr> in
            case fe_config fe of Some e \<Rightarrow> (Inl e, w) | None \<Rightarrow> (Inr True, w)))"

definition ensure_workspace :: "frame_env \<Rightarrow> rstring \<Rightarrow> follower \<Rightarrow> (kiva_error + unit) \<times> follower" where
  "ensure_workspace fe name w = (if registered name w then (Inr (), w) else create_workspace fe name w)"

definition instance_engine :: "frame_env \<Rightarrow> rstring \<Rightarrow> follower \<Rightarrow> (kiva_error + unit) \<times> follower" where
  "instance_engine fe name w =
     (if fw_engines w name \<noteq> None then (Inr (), w)
      else if \<not> registered name w then (Inl (NotFound ''workspace does not exist''), w)
      else case fe_disk fe name of
          Inl e \<Rightarrow> (Inl e, w)
        | Inr s \<Rightarrow> (Inr (), w\<lparr>fw_engines := (fw_engines w)(name \<mapsto> s)\<rparr>))"

text \<open>The database in use, as the handle the loop holds.\<close>

definition database :: "follower \<Rightarrow> rstring \<Rightarrow> inner option" where
  "database w name = (if name = SYSTEM then Some (fw_system w) else fw_engines w name)"

definition set_database :: "rstring \<Rightarrow> inner \<Rightarrow> follower \<Rightarrow> follower" where
  "set_database name s w = (if name = SYSTEM then w\<lparr>fw_system := s\<rparr> else w\<lparr>fw_engines := (fw_engines w)(name \<mapsto> s)\<rparr>)"

definition on_engine :: "(inner \<Rightarrow> (kiva_error + 'a) \<times> inner) \<Rightarrow> follower \<Rightarrow> (kiva_error + 'a) \<times> follower" where
  "on_engine f w = (case database w (fw_using w) of
     None \<Rightarrow> (Inl (NotFound ''workspace does not exist''), w)
   | Some s \<Rightarrow> (case f s of (r, s) \<Rightarrow> (r, set_database (fw_using w) s w)))"

subsection \<open>Triggers\<close>

definition trigger_of :: "rstring \<Rightarrow> json \<Rightarrow> trigger option" where
  "trigger_of key j = (case (as_str (json_at j ''event''), as_str (json_at j ''pattern''), as_str (json_at j ''script'')) of
     (Some e, Some p, Some s) \<Rightarrow> Some \<lparr>tg_name = drop 8 key, tg_event = e, tg_pattern = p, tg_script = s\<rparr>
   | _ \<Rightarrow> None)"

fun load_triggers :: "engine_env \<Rightarrow> call \<Rightarrow> rstring list \<Rightarrow> inner \<Rightarrow> trigger list \<times> inner" where
  "load_triggers E c [] s = ([], s)"
| "load_triggers E c (key # ks) s =
     (let (r, s) = engine_get E c key s;
          found = (case r of Inr (Some (VDoc j, _)) \<Rightarrow> (case trigger_of key j of Some t \<Rightarrow> [t] | None \<Rightarrow> []) | _ \<Rightarrow> []);
          (ts, s) = load_triggers E c ks s
      in (found @ ts, s))"

definition reload_triggers :: "engine_env \<Rightarrow> call \<Rightarrow> follower \<Rightarrow> follower" where
  "reload_triggers E c w =
     (let ks = map fst (keys_matching (c_now c) (lit ''trigger:*'') 0 (fw_system w));
          (ts, s) = load_triggers E c ks (fw_system w)
      in w\<lparr>fw_system := s, fw_triggers := ts\<rparr>)"

definition touch_triggers :: "engine_env \<Rightarrow> call \<Rightarrow> rstring \<Rightarrow> follower \<Rightarrow> follower" where
  "touch_triggers E c key w = (if fw_using w = SYSTEM \<and> starts_with key (lit ''trigger:'') then reload_triggers E c w else w)"

subsection \<open>The replica\<close>

definition io_err :: "io_error \<Rightarrow> kiva_error" where
  "io_err e = (case e of UnexpectedEof \<Rightarrow> Io ''unexpected end of file'' | Stopped \<Rightarrow> Io ''stopped''
     | Failed why \<Rightarrow> Io why | InvalidData why \<Rightarrow> Io why)"

definition lift_io :: "io_error + 'a \<Rightarrow> kiva_error + 'a" where
  "lift_io r = map_sum io_err id r"

definition send :: "frame_env \<Rightarrow> u16 \<Rightarrow> bytes \<Rightarrow> follower \<Rightarrow> (kiva_error + unit) \<times> follower" where
  "send fe code payload w = (case fe_socket fe of
     Some e \<Rightarrow> (Inl e, w)
   | None \<Rightarrow> (Inr (), w\<lparr>fw_sent := fw_sent w @ write_frame code payload\<rparr>))"

definition see_applied :: "u64 \<Rightarrow> follower \<Rightarrow> follower" where
  "see_applied seq w = w\<lparr>fw_repl := (fw_repl w)\<lparr>rp_link := (rp_link (fw_repl w))\<lparr>lk_applied_seq :=
     max (lk_applied_seq (rp_link (fw_repl w))) (unat seq)\<rparr>\<rparr>\<rparr>"

definition applied :: "frame_env \<Rightarrow> u64 \<Rightarrow> follower \<Rightarrow> (kiva_error + unit) \<times> follower" where
  "applied fe seq w =
     (if seq > 0
      then (let w = see_applied seq w; w = w\<lparr>fw_applied_ops := fw_applied_ops w + 1\<rparr>
            in send fe CMD_REPL_ACK (be_bytes 8 seq) w)
      else (Inr (), w))"

fun ensure_all :: "frame_env \<Rightarrow> rstring list \<Rightarrow> follower \<Rightarrow> (kiva_error + unit) \<times> follower" where
  "ensure_all fe [] w = (Inr (), w)"
| "ensure_all fe (n # ns) w = and_then (ensure_workspace fe n w) (\<lambda>_. ensure_all fe ns)"

fun remove_all_ws :: "frame_env \<Rightarrow> rstring list \<Rightarrow> follower \<Rightarrow> (kiva_error + unit) \<times> follower" where
  "remove_all_ws fe [] w = (Inr (), w)"
| "remove_all_ws fe (n # ns) w = and_then (remove_workspace fe n w) (\<lambda>_. remove_all_ws fe ns)"

record set_msg =
  sm_seq :: u64
  sm_timestamp :: int
  sm_expires_at :: int
  sm_ty :: vtype
  sm_enc :: doc_enc
  sm_key :: rstring
  sm_raw :: bytes

definition read_set :: "bytes \<Rightarrow> kiva_error + set_msg" where
  "read_set payload =
     try_bind (lift_io (rd_u64 (reader_new payload))) (\<lambda>(seq, r).
     try_bind (lift_io (rd_i64 r)) (\<lambda>(timestamp, r).
     try_bind (lift_io (rd_i64 r)) (\<lambda>(expires_at, r).
     try_bind (lift_io (rd_u8 r)) (\<lambda>(b, r).
     case type_from_u8 b of
       None \<Rightarrow> Inl (Corrupted ''bad type in stream'')
     | Some ty \<Rightarrow>
         try_bind (lift_io (rd_u8 r)) (\<lambda>(b, r).
         case (if b = 0 then Some EJson else if b = 1 then Some EMsgPack else if b = 2 then Some EKdoc else None) of
           None \<Rightarrow> Inl (Corrupted ''bad document encoding in stream'')
         | Some de \<Rightarrow>
             try_bind (lift_io (rd_str16 r)) (\<lambda>(key, r).
             Inr \<lparr>sm_seq = seq, sm_timestamp = timestamp, sm_expires_at = expiry_to_ms expires_at, sm_ty = ty, sm_enc = de,
                  sm_key = key, sm_raw = fst (rd_rest r)\<rparr>))))))"

definition go_on :: "'a \<Rightarrow> 's \<Rightarrow> ('e + bool) \<times> 's" where
  "go_on _ w = (Inr True, w)"

text \<open>
  One turn of the loop of \<^verbatim>\<open>follow\<close>: the answer is whether the loop goes on. \<open>parse\<close> is \<^verbatim>\<open>serde_json::from_slice\<close>.
\<close>

definition follow_frame ::
  "engine_env \<Rightarrow> (bytes \<Rightarrow> json option) \<Rightarrow> rstring \<Rightarrow> frame_env \<Rightarrow> frame \<Rightarrow> follower \<Rightarrow> (kiva_error + bool) \<times> follower" where
  "follow_frame E parse addr fe fr w =
     (if \<not> fe_active fe then (Inr False, w)
      else (let c = fe_call fe; code = fst fr; payload = snd fr; w = w\<lparr>fw_repl := touch (fe_clock fe) (fw_repl w)\<rparr>;
        reset = (\<lambda>w. on_engine (engine_reset E c (fe_compacting fe) (fe_file_id fe)) w) in
        if code = R_SNAP_BEGIN then
          (let w = w\<lparr>fw_status := ''receiving snapshot''\<rparr> in
           and_then (instance_engine fe (lit ''default'') w) (\<lambda>_ w.
             and_then (reset (w\<lparr>fw_using := lit ''default''\<rparr>)) go_on))
        else if code = R_WORKSPACES then
          (let names = filter (\<lambda>n. n \<noteq> []) (rust_lines (from_utf8_lossy payload)) in
           and_then (ensure_all fe names w) (\<lambda>_ w.
             and_then (remove_all_ws fe (filter (\<lambda>n. n \<noteq> lit ''default'' \<and> n \<notin> set names) (map fst (fw_names w))) w) go_on))
        else if code = R_USE then
          (let name = from_utf8_lossy payload in
           if name = SYSTEM then (Inr True, w\<lparr>fw_using := name\<rparr>)
           else and_then (ensure_workspace fe name w) (\<lambda>_ w. and_then (instance_engine fe name w) (\<lambda>_ w.
             (Inr True, w\<lparr>fw_using := name\<rparr>))))
        else if code = R_WS_REMOVE then
          (let name = from_utf8_lossy payload in
           if name \<noteq> lit ''default'' then and_then (remove_workspace fe name w) go_on else (Inr True, w))
        else if code = R_SET then
          (case read_set payload of
             Inl e \<Rightarrow> (Inl e, w)
           | Inr m \<Rightarrow>
               and_then (on_engine (put_raw E c (sm_key m) (sm_ty m) (sm_raw m) (sm_enc m) (sm_timestamp m) (sm_expires_at m)) w)
                 (\<lambda>_ w. and_then (applied fe (sm_seq m) (touch_triggers E c (sm_key m) w)) go_on))
        else if code = R_DEL then
          (case lift_io (rd_u64 (reader_new payload)) of
             Inl e \<Rightarrow> (Inl e, w)
           | Inr (seq, r) \<Rightarrow>
               (let key = from_utf8_lossy (fst (rd_rest r)) in
                and_then (on_engine (engine_delete E c key) w)
                  (\<lambda>_ w. and_then (applied fe seq (touch_triggers E c key w)) go_on)))
        else if code = R_RESET then
          (case lift_io (rd_u64 (reader_new payload)) of
             Inl e \<Rightarrow> (Inl e, w)
           | Inr (seq, r) \<Rightarrow>
               and_then (reset w) (\<lambda>_ w.
                 and_then (applied fe seq (if fw_using w = SYSTEM then reload_triggers E c w else w)) go_on))
        else if code = R_SNAP_END then
          (case lift_io (rd_u64 (reader_new payload)) of
             Inl e \<Rightarrow> (Inl e, w)
           | Inr (seq, r) \<Rightarrow>
               (let w = reload_triggers E c w;
                    w = (see_applied seq w)\<lparr>fw_status := ''connected'', fw_last_sync := Some (c_secs c)\<rparr>
                in and_then (send fe CMD_REPL_ACK (be_bytes 8 seq) w) go_on))
        else if code = R_PING then (Inr True, w\<lparr>fw_repl := learn addr (parse payload) (fw_repl w)\<rparr>)
        else if code = R_PROMOTE then (Inr False, w\<lparr>fw_repl := handover (fw_repl w), fw_status := ''promoted to master''\<rparr>)
        else if code = ST_ERR then (Inl (Other ''refused by the master''), w)
        else (Inr True, w)))"

text \<open>The loop, as far as the given turns; \<open>None\<close> when it still runs after them.\<close>

fun follow_loop ::
  "engine_env \<Rightarrow> (bytes \<Rightarrow> json option) \<Rightarrow> rstring \<Rightarrow> frame_env list \<Rightarrow> io_event list \<Rightarrow> follower \<Rightarrow>
    (kiva_error + unit) option \<times> follower \<times> io_event list" where
  "follow_loop E parse addr [] evs w = (None, w, evs)"
| "follow_loop E parse addr (fe # fes) evs w = (case read_frame_with evs of
     Inl e \<Rightarrow> (Some (Inl (io_err e)), w, evs)
   | Inr (fr, evs) \<Rightarrow>
       (case follow_frame E parse addr fe fr w of
          (Inl e, w) \<Rightarrow> (Some (Inl e), w, evs)
        | (Inr False, w) \<Rightarrow> (Some (Inr ()), w, evs)
        | (Inr True, w) \<Rightarrow> follow_loop E parse addr fes evs w))"

end
