(* ===== verification/Mirror.thy ===== *)
theory Mirror
  imports Replicate
begin

text \<open>
  A replica follows its master: the frames of the stream are read back as the operations they were made
  from, every operation has on the replica the effect of a plain update of a map, and the operations the
  master emits are such that replaying them gives what the master holds.
\<close>

subsection \<open>Operations as updates of a map\<close>

definition op_map :: "value_lib \<Rightarrow> op \<Rightarrow> kv_state \<Rightarrow> kv_state" where
  "op_map V o_p m = (case o_p of
     OpSet k ty raw de ts ex created \<Rightarrow> (case value_decode V ty raw de of Inr v \<Rightarrow> m(k \<mapsto> (v, ex)) | Inl _ \<Rightarrow> m)
   | OpDel k \<Rightarrow> m(k := None)
   | OpReset \<Rightarrow> Map.empty)"

text \<open>
  The operations a stream may carry: keys and values within the bounds, deadlines that are
  milliseconds (a deadline below \<open>10\<^sup>1\<^sup>1\<close> is read as seconds, as an older master sends it).
\<close>

definition op_sent :: "engine_env \<Rightarrow> op \<Rightarrow> bool" where
  "op_sent E o_p \<longleftrightarrow> (case o_p of
     OpSet k ty raw de ts ex created \<Rightarrow> validate_key k = Inr () \<and> valid_str k \<and> is_i64 ex \<and> expiry_to_ms ex = ex \<and>
       (\<exists>v. value_decode (ee_values E) ty raw de = Inr v \<and> new_value_ok E v)
   | OpDel k \<Rightarrow> validate_key k = Inr () \<and> valid_str k
   | OpReset \<Rightarrow> True)"

subsection \<open>The frames are read back\<close>

lemma lift_io_simps [simp]: "lift_io (Inr x) = Inr x" "lift_io (Inl e) = Inl (io_err e)"
  by (simp_all add: lift_io_def)

lemma enc_byte_cases:
  "(if enc_byte de = 0 then Some EJson else if enc_byte de = 1 then Some EMsgPack else if enc_byte de = 2 then Some EKdoc else None) = Some de"
  by (cases de) simp_all

lemma read_set_payload:
  assumes "validate_key k = Inr ()" "valid_str k" "is_i64 ex"
  shows "read_set (set_payload seq k ty de ts ex raw) = Inr \<lparr>sm_seq = seq, sm_timestamp = sint (word_of_int ts :: u64), sm_expires_at = expiry_to_ms ex,
    sm_ty = ty, sm_enc = de, sm_key = k, sm_raw = raw\<rparr>"
proof -
  let ?S = "be_bytes 8 seq" and ?T = "be_bytes 8 (word_of_int ts :: u64)" and ?X = "be_bytes 8 (word_of_int ex :: u64)"
    and ?L = "be_bytes 2 (word_of_nat (str_len k) :: u16)"
  have len: "str_len k < 65536" using validate_key_ok [OF assms(1)] by simp
  have p: "set_payload seq k ty de ts ex raw = ?S @ ?T @ ?X @ type_u8 ty # enc_byte de # ?L @ as_bytes k @ raw"
    by (simp add: set_payload_def)
  obtain r1 where r1: "rd_u64 (reader_new (set_payload seq k ty de ts ex raw)) = Inr (seq, r1)"
      "reads_at ([] @ ?S) (?T @ ?X @ type_u8 ty # enc_byte de # ?L @ as_bytes k @ raw) r1"
    using rd_u64_at [of "[]" seq _ "reader_new (set_payload seq k ty de ts ex raw)"] reads_new [of "set_payload seq k ty de ts ex raw"]
    unfolding p by blast
  obtain r2 where r2: "rd_i64 r1 = Inr (sint (word_of_int ts :: u64), r2)"
      "reads_at (([] @ ?S) @ ?T) (?X @ type_u8 ty # enc_byte de # ?L @ as_bytes k @ raw) r2"
    using rd_u64_at [OF r1(2)] by (auto simp: rd_i64_def)
  obtain r3 where r3: "rd_i64 r2 = Inr (ex, r3)"
      "reads_at ((([] @ ?S) @ ?T) @ ?X) (type_u8 ty # enc_byte de # ?L @ as_bytes k @ raw) r3"
    using rd_i64_at [OF r2(2)] assms(3) by (auto simp: is_i64_def)
  obtain r4 where r4: "rd_u8 r3 = Inr (type_u8 ty, r4)"
      "reads_at (((([] @ ?S) @ ?T) @ ?X) @ [type_u8 ty]) (enc_byte de # ?L @ as_bytes k @ raw) r4"
    using rd_u8_at [OF r3(2)] by blast
  obtain r5 where r5: "rd_u8 r4 = Inr (enc_byte de, r5)"
      "reads_at ((((([] @ ?S) @ ?T) @ ?X) @ [type_u8 ty]) @ [enc_byte de]) (?L @ as_bytes k @ raw) r5"
    using rd_u8_at [OF r4(2)] by blast
  obtain r6 pre where r6: "rd_str16 r5 = Inr (k, r6)" "reads_at pre raw r6"
    using rd_str16_at [OF r5(2) assms(2) len] by blast
  show ?thesis
    using r1(1) r2(1) r3(1) r4(1) r5(1) r6(1) rd_rest_at [OF r6(2)] enc_byte_cases [of de] by (simp add: read_set_def)
qed

lemma lossy_key: "valid_str k \<Longrightarrow> from_utf8_lossy (as_bytes k) = k"
proof (induction k)
  case (Cons c k)
  then have "utf8_next (as_bytes (c # k)) = Some (c, as_bytes k)" "as_bytes (c # k) \<noteq> []"
    using utf8_next_char [of c "as_bytes k"] by (auto simp: as_bytes_def valid_str_def)
  with Cons show ?case by (subst from_utf8_lossy.simps) (simp add: valid_str_def)
qed (simp add: from_utf8_lossy.simps as_bytes_def)

lemma read_seq: "\<exists>r. rd_u64 (reader_new (be_bytes 8 seq @ rest)) = Inr (seq, r) \<and> fst (rd_rest r) = rest"
proof -
  from rd_u64_at [OF reads_new [of "be_bytes 8 seq @ rest"]] obtain r where
    r: "rd_u64 (reader_new (be_bytes 8 seq @ rest)) = Inr (seq, r)" "reads_at ([] @ be_bytes 8 seq) rest r" by auto
  show ?thesis using r(1) rd_rest_at [OF r(2)] by simp
qed

subsection \<open>Each operation on the replica\<close>

lemma sim_later: "engine_sim E t s m \<Longrightarrow> t \<le> t' \<Longrightarrow> engine_sim E t' s m"
  using at_time_later_cong [of t t' "stored E s" m] by (simp add: engine_sim_def)

lemma sim_put_raw:
  assumes R: "engine_sim E t s m" and t: "t \<le> c_now c" and c: "call_ok c" and E: "env_ok E"
    and o: "op_sent E (OpSet k ty raw de ts' ex created)" and i: "is_i64 ts"
  shows "\<exists>s'. put_raw E c k ty raw de ts ex s = (Inr (), s') \<and>
    engine_sim E (c_now c) s' (op_map (ee_values E) (OpSet k ty raw de ts' ex created) m)"
proof -
  obtain v where k: "validate_key k = Inr ()" and ex: "is_i64 ex"
    and v: "value_decode (ee_values E) ty raw de = Inr v" "new_value_ok E v"
    using o by (auto simp: op_sent_def)
  have R': "store_ok E s" "\<not> i_closed s" "no_unique s" "times_ok m" and m: "at_time (c_now c) (stored E s) = at_time (c_now c) m"
    using R at_time_later_cong [OF t, of "stored E s" m] by (simp_all add: engine_sim_def)
  have ready: "put_ready E c v ex ts" and vf: "value_fits E (de = EMsgPack) v"
    using v(2) c E i ex by (cases "de = EMsgPack"; simp add: put_ready_def new_value_ok_def call_ok_def)+
  obtain b s' where put: "put_locked E c k v ex (de = EMsgPack) ts s = (Inr b, s')"
    using put_locked_succeeds [OF R'(1) ready k vf _ R'(2)] c by (auto simp: call_ok_def)
  note pl = put_locked_ok [OF R'(1) ready put]
  have "engine_sim E (c_now c) s' (m(k \<mapsto> (v, ex)))"
  proof (rule engine_simI [OF pl(1)])
    show "\<not> i_closed s'" "no_unique s'" using put_locked_frame [OF put] R' by simp_all
    show "at_time (c_now c) (stored E s') = at_time (c_now c) (m(k \<mapsto> (v, ex)))" using pl(2) at_time_upd [OF m] by simp
    show "times_ok (m(k \<mapsto> (v, ex)))" using R'(4) ex by (auto simp: times_ok_def)
  qed
  with put v(1) show ?thesis by (simp add: put_raw_def put_at_def op_map_def)
qed

lemma sim_reset:
  assumes R: "engine_sim E t s m"
  shows "\<exists>s'. engine_reset E c False (Inr file_id) s = (Inr (), s') \<and> engine_sim E t' s' Map.empty"
proof -
  obtain s' where r: "engine_reset E c False (Inr file_id) s = (Inr (), s')"
    using R by (simp add: engine_reset_def engine_sim_def Let_def)
  have f: "i_file s' = file_header file_id FORMAT_V1" "i_file_len s' = FILE_HEADER_LEN" "i_index s' = []"
    "i_sec s' = map sec_clear (i_sec s)" "i_cache s' = cache_clear (i_cache s)" "i_closed s' = i_closed s"
    "i_live_bytes s' = FILE_HEADER_LEN" "i_key_bytes s' = 0" "i_expiry s' = []"
    using r R by (auto simp: engine_reset_def engine_sim_def Let_def recount_def)
  have sec: "list_all (\<lambda>si. represents (vl_env (ee_values E)) si (docs_of E (i_file s') [])) (map sec_clear (i_sec s))"
    by (simp add: list_all_iff represents_def sec_clear_ok docs_of_def) (simp add: sec_clear_def)
  have "cache_ok (cache_clear (i_cache s))"
    using R by (auto simp: engine_sim_def store_ok_def vc.coherent_def cache_clear_def cache_ok_def counts_ok_def slots_ok_def)
  then have "store_ok E s'"
    using sec by (simp add: store_ok_def books_ok_def f vc.coherent_def file_header_def MAGIC_def len_defs om_sum_def
        expiry_ok_def list_all_iff sec_clear_ok cache_has_def) (simp add: cache_clear_def)
  moreover have "stored E s' = Map.empty" by (simp add: stored_def f fun_eq_iff)
  moreover have "no_unique s'" using R by (simp add: engine_sim_def no_unique_def f list_all_iff sec_clear_def)
  ultimately have "engine_sim E t' s' Map.empty"
    using R f(6) by (simp add: engine_sim_def times_ok_def)
  with r show ?thesis by blast
qed

lemma sim_op_delete:
  assumes "engine_sim E t s m" and "t \<le> c_now c" and "call_ok c" and "env_ok E" and "op_sent E (OpDel k)"
  shows "\<exists>b s'. engine_delete E c k s = (Inr b, s') \<and> engine_sim E (c_now c) s' (op_map (ee_values E) (OpDel k) m)"
  using sim_delete [OF assms(1-3) _ assms(4), of k] assms(5) by (auto simp: op_sent_def op_ok_def op_map_def)

subsection \<open>A replica and the maps it mirrors\<close>

definition mirrors :: "engine_env \<Rightarrow> int \<Rightarrow> follower \<Rightarrow> (rstring \<Rightarrow> kv_state option) \<Rightarrow> bool" where
  "mirrors E t w M \<longleftrightarrow> (\<forall>ws. rel_option (engine_sim E t) (database w ws) (M ws))"

definition fe_ok :: "engine_env \<Rightarrow> frame_env \<Rightarrow> bool" where
  "fe_ok E fe \<longleftrightarrow> env_ok E \<and> fe_active fe \<and> \<not> fe_compacting fe \<and> fe_config fe = None \<and> fe_socket fe = None \<and>
     call_ok (fe_call fe) \<and> (\<exists>id. fe_file_id fe = Inr id) \<and>
     (\<forall>name. \<exists>s m. fe_disk fe name = Inr s \<and> engine_sim E (c_now (fe_call fe)) s m)"

abbreviation fe_now :: "frame_env \<Rightarrow> int" where
  "fe_now fe \<equiv> c_now (fe_call fe)"

lemma database_frame [simp]:
  "database (w\<lparr>fw_repl := x1\<rparr>) = database w" "database (w\<lparr>fw_status := x2\<rparr>) = database w"
  "database (w\<lparr>fw_applied_ops := x3\<rparr>) = database w" "database (w\<lparr>fw_last_sync := x4\<rparr>) = database w"
  "database (w\<lparr>fw_sent := x5\<rparr>) = database w" "database (w\<lparr>fw_triggers := x6\<rparr>) = database w"
  "database (w\<lparr>fw_names := x7\<rparr>) = database w" "database (w\<lparr>fw_using := x8\<rparr>) = database w"
  by (simp_all add: database_def fun_eq_iff)

lemma mirrors_cong: "database w' = database w \<Longrightarrow> mirrors E t w M \<Longrightarrow> mirrors E t w' M"
  by (simp add: mirrors_def)

lemma mirrors_later: "mirrors E t w M \<Longrightarrow> t \<le> t' \<Longrightarrow> mirrors E t' w M"
  unfolding mirrors_def using sim_later [of E t _ _ t'] by (metis (mono_tags, lifting) option.rel_mono_strong)

lemma mirrors_at:
  assumes "mirrors E t w M" and "M ws = Some m"
  obtains s where "database w ws = Some s" and "engine_sim E t s m"
  using assms by (metis mirrors_def option_rel_Some2)

lemma mirrors_None: "mirrors E t w M \<Longrightarrow> database w ws = None \<longleftrightarrow> M ws = None"
  by (metis mirrors_def option.rel_distinct(1) option.rel_distinct(2) not_None_eq)

lemma database_set: "database (set_database ws s w) = (database w)(ws \<mapsto> s)"
  by (auto simp: database_def set_database_def fun_eq_iff)

lemma set_database_using [simp]: "fw_using (set_database ws s w) = fw_using w"
  by (simp add: set_database_def)

lemma mirrors_set: "mirrors E t w M \<Longrightarrow> engine_sim E t s m \<Longrightarrow> mirrors E t (set_database ws s w) (M(ws \<mapsto> m))"
  by (simp add: mirrors_def database_set)

lemma mirrors_on_engine:
  assumes "mirrors E t w M" and "M (fw_using w) = Some m" and "t \<le> t'"
    and "\<And>s. engine_sim E t s m \<Longrightarrow> \<exists>r s'. f s = (Inr r, s') \<and> engine_sim E t' s' m'"
  shows "\<exists>r w'. on_engine f w = (Inr r, w') \<and> mirrors E t' w' (M(fw_using w \<mapsto> m')) \<and> fw_using w' = fw_using w"
proof -
  obtain s where s: "database w (fw_using w) = Some s" "engine_sim E t s m" by (rule mirrors_at [OF assms(1,2)])
  obtain r s' where f: "f s = (Inr r, s')" "engine_sim E t' s' m'" using assms(4) [OF s(2)] by blast
  have "mirrors E t' (set_database (fw_using w) s' w) (M(fw_using w \<mapsto> m'))"
    by (rule mirrors_set [OF mirrors_later [OF assms(1,3)] f(2)])
  then show ?thesis using s f by (simp add: on_engine_def)
qed

lemma load_triggers_sim: "engine_sim E t s m \<Longrightarrow> t \<le> c_now c \<Longrightarrow> engine_sim E (c_now c) (snd (load_triggers E c ks s)) m"
proof (induction ks arbitrary: s t)
  case Nil
  then show ?case by (simp add: sim_later)
next
  case (Cons k ks)
  obtain r s' where g: "engine_get E c k s = (Inr r, s')" "engine_sim E (c_now c) s' m"
    using sim_get [OF Cons.prems] by blast
  show ?case using Cons.IH [OF g(2)] g(1) by (auto simp: Let_def split: prod.splits)
qed

lemma reload_using [simp]: "fw_using (reload_triggers E c w) = fw_using w"
  by (simp add: reload_triggers_def Let_def split: prod.splits)

lemma mirrors_reload:
  assumes "mirrors E t w M" and "t \<le> c_now c"
  shows "mirrors E (c_now c) (reload_triggers E c w) M"
proof -
  obtain m where m: "M SYSTEM = Some m" using mirrors_None [OF assms(1), of SYSTEM] by (auto simp: database_def)
  have s: "engine_sim E t (fw_system w) m"
    by (rule mirrors_at [OF assms(1) m]) (simp add: database_def)
  define ks where "ks = map fst (keys_matching (c_now c) (lit ''trigger:*'') 0 (fw_system w))"
  define s' where "s' = snd (load_triggers E c ks (fw_system w))"
  have "mirrors E (c_now c) (set_database SYSTEM s' w) (M(SYSTEM \<mapsto> m))"
    using mirrors_set [OF mirrors_later [OF assms] load_triggers_sim [OF s assms(2)]] by (simp add: s'_def)
  moreover have "M(SYSTEM \<mapsto> m) = M" using m by auto
  moreover have "database (reload_triggers E c w) = database (set_database SYSTEM s' w)"
    by (auto simp: reload_triggers_def Let_def s'_def ks_def database_def set_database_def fun_eq_iff split: prod.splits)
  ultimately show ?thesis using mirrors_cong by metis
qed

lemma applied_ok:
  assumes "fe_ok E fe"
  shows "\<exists>w'. applied fe seq w = (Inr (), w') \<and> database w' = database w \<and> fw_using w' = fw_using w"
  using assms by (simp add: applied_def send_def see_applied_def fe_ok_def Let_def)

lemma touch_triggers_ok:
  assumes "mirrors E (c_now c) w M"
  shows "mirrors E (c_now c) (touch_triggers E c key w) M" and "fw_using (touch_triggers E c key w) = fw_using w"
  using mirrors_reload [OF assms order_refl] assms by (simp_all add: touch_triggers_def)

lemma follow_op:
  assumes M: "mirrors E t w M" "M (fw_using w) = Some m" and fe: "fe_ok E fe" "t \<le> fe_now fe" and o: "op_sent E o_p"
  shows "\<exists>w'. follow_frame E parse addr fe (op_frame seq o_p) w = (Inr True, w') \<and>
    mirrors E (fe_now fe) w' (M(fw_using w \<mapsto> op_map (ee_values E) o_p m)) \<and> fw_using w' = fw_using w"
proof -
  have c: "env_ok E" "call_ok (fe_call fe)" "fe_active fe" "\<not> fe_compacting fe" using fe(1) by (simp_all add: fe_ok_def)
  define w0 where "w0 = w\<lparr>fw_repl := touch (fe_clock fe) (fw_repl w)\<rparr>"
  have w0: "mirrors E t w0 M" "M (fw_using w0) = Some m" "fw_using w0 = fw_using w"
    using M mirrors_cong [of w0 w E t M] by (simp_all add: w0_def)
  let ?M = "M(fw_using w \<mapsto> op_map (ee_values E) o_p m)"
  have fin: "\<exists>w'. and_then (applied fe seq w1) go_on = (Inr True, w') \<and> mirrors E (fe_now fe) w' ?M \<and> fw_using w' = fw_using w"
    if "mirrors E (fe_now fe) w1 ?M" "fw_using w1 = fw_using w" for w1
    using applied_ok [OF fe(1), of seq w1] that mirrors_cong by (auto simp: go_on_def)
  show ?thesis
  proof (cases o_p)
    case (OpSet k ty raw de ts ex created)
    have k: "validate_key k = Inr ()" "valid_str k" "is_i64 ex" "expiry_to_ms ex = ex"
      using o by (simp_all add: OpSet op_sent_def)
    let ?ts = "sint (word_of_int ts :: u64)"
    let ?f = "put_raw E (fe_call fe) k ty raw de ?ts ex"
    have ts: "is_i64 ?ts" using sint_greater_eq [of "word_of_int ts :: u64"] sint_less [of "word_of_int ts :: u64"] by (simp add: is_i64_def)
    have "\<exists>r w'. on_engine ?f w0 = (Inr r, w') \<and> mirrors E (fe_now fe) w' (M(fw_using w0 \<mapsto> op_map (ee_values E) o_p m)) \<and>
        fw_using w' = fw_using w0"
      by (rule mirrors_on_engine [OF w0(1,2) fe(2)])
        (use sim_put_raw [OF _ fe(2) c(2,1) o [unfolded OpSet] ts] in \<open>auto simp: OpSet\<close>)
    then obtain r w1 where w1: "on_engine ?f w0 = (Inr r, w1)" "mirrors E (fe_now fe) w1 ?M" "fw_using w1 = fw_using w"
      by (auto simp: w0(3))
    from fin [OF touch_triggers_ok [OF w1(2), of k, unfolded w1(3)]] show ?thesis
      using w1(1) c(3) by (simp add: follow_frame_def OpSet Let_def code_defs read_set_payload [OF k(1-3)] k(4) flip: w0_def)
  next
    case (OpDel k)
    have k: "valid_str k" using o by (simp add: OpDel op_sent_def)
    obtain r where r: "rd_u64 (reader_new (be_bytes 8 seq @ as_bytes k)) = Inr (seq, r)" "fst (rd_rest r) = as_bytes k"
      using read_seq by blast
    let ?f = "engine_delete E (fe_call fe) k"
    have "\<exists>r w'. on_engine ?f w0 = (Inr r, w') \<and> mirrors E (fe_now fe) w' (M(fw_using w0 \<mapsto> op_map (ee_values E) o_p m)) \<and>
        fw_using w' = fw_using w0"
      by (rule mirrors_on_engine [OF w0(1,2) fe(2)])
        (use sim_op_delete [OF _ fe(2) c(2,1) o [unfolded OpDel]] in \<open>auto simp: OpDel\<close>)
    then obtain b w1 where w1: "on_engine ?f w0 = (Inr b, w1)" "mirrors E (fe_now fe) w1 ?M" "fw_using w1 = fw_using w"
      by (auto simp: w0(3))
    from fin [OF touch_triggers_ok [OF w1(2), of k, unfolded w1(3)]] show ?thesis
      using w1(1) c(3) r by (simp add: follow_frame_def OpDel Let_def code_defs lossy_key [OF k] flip: w0_def)
  next
    case OpReset
    obtain id where id: "fe_file_id fe = Inr id" using fe(1) by (auto simp: fe_ok_def)
    obtain r where r: "rd_u64 (reader_new (be_bytes 8 seq @ [])) = Inr (seq, r)" using read_seq by blast
    let ?f = "engine_reset E (fe_call fe) False (Inr id)"
    have "\<exists>r w'. on_engine ?f w0 = (Inr r, w') \<and> mirrors E (fe_now fe) w' (M(fw_using w0 \<mapsto> op_map (ee_values E) o_p m)) \<and>
        fw_using w' = fw_using w0"
      by (rule mirrors_on_engine [OF w0(1,2) fe(2)]) (use sim_reset in \<open>auto simp: OpReset op_map_def\<close>)
    then obtain b w1 where w1: "on_engine ?f w0 = (Inr b, w1)" "mirrors E (fe_now fe) w1 ?M" "fw_using w1 = fw_using w"
      by (auto simp: w0(3))
    define w2 where "w2 = (if fw_using w1 = SYSTEM then reload_triggers E (fe_call fe) w1 else w1)"
    have "mirrors E (fe_now fe) w2 ?M" "fw_using w2 = fw_using w"
      using mirrors_reload [OF w1(2) order_refl] w1(2,3) by (auto simp: w2_def)
    from fin [OF this] show ?thesis
      using w1(1) c(3,4) r id by (simp add: follow_frame_def OpReset Let_def code_defs flip: w0_def w2_def)
  qed
qed

text \<open>Naming a database opens it when it was not open.\<close>

lemma alnum_valid: "is_alnum c \<or> c = ch CHR ''_'' \<or> c = ch CHR ''-'' \<Longrightarrow> valid_char c \<and> c \<noteq> 10 \<and> c \<noteq> 13 \<and> c \<noteq> 64"
  by (auto simp: is_alnum_def is_digit_def valid_char_def)

lemma name_part_chars: "valid_name_part n \<Longrightarrow> c \<in> set n \<Longrightarrow> valid_char c \<and> c \<noteq> 10 \<and> c \<noteq> 13 \<and> c \<noteq> 64"
  using alnum_valid by (auto simp: valid_name_part_def list_all_iff)

lemma workspace_chars:
  assumes "valid_workspace_name n" and "c \<in> set n"
  shows "valid_char c \<and> c \<noteq> 10 \<and> c \<noteq> 13 \<and> c \<noteq> 64"
proof (cases "ch CHR ''.'' \<in> set n")
  case True
  let ?P = "\<lambda>c. c \<noteq> ch CHR ''.''"
  have "n = takeWhile ?P n @ dropWhile ?P n" by simp
  moreover have "dropWhile ?P n = ch CHR ''.'' # tl (dropWhile ?P n)"
    using True hd_dropWhile [of ?P n] by (cases "dropWhile ?P n") (auto simp: dropWhile_eq_Nil_conv)
  ultimately have n: "set n = set (takeWhile ?P n @ ch CHR ''.'' # tl (dropWhile ?P n))" by simp
  have "c \<in> set (takeWhile ?P n) \<or> c = ch CHR ''.'' \<or> c \<in> set (tl (dropWhile ?P n))"
    using assms(2) by (subst (asm) n) auto
  then show ?thesis
    using assms(1) True name_part_chars by (auto simp: valid_workspace_name_def valid_char_def)
next
  case False
  then show ?thesis using assms name_part_chars by (auto simp: valid_workspace_name_def)
qed

definition ws_ok :: "rstring \<Rightarrow> bool" where
  "ws_ok ws \<longleftrightarrow> ws = SYSTEM \<or> valid_workspace_name ws"

lemma ws_lossy: "ws_ok ws \<Longrightarrow> from_utf8_lossy (as_bytes ws) = ws"
  using workspace_chars [of ws]
  by (intro lossy_key) (auto simp: ws_ok_def valid_str_def SYSTEM_def list_all_iff valid_char_def)

lemma system_no_workspace: "\<not> valid_workspace_name SYSTEM"
  using workspace_chars [of SYSTEM 64] by (auto simp: SYSTEM_def)

lemma ensure_ok:
  assumes "valid_workspace_name ws" and "fe_ok E fe"
  shows "\<exists>w'. ensure_workspace fe ws w = (Inr (), w') \<and> database w' = database w \<and> fw_using w' = fw_using w \<and> registered ws w'"
  using assms
  by (auto simp: ensure_workspace_def create_workspace_def check_workspace_name_def fe_ok_def registered_def
      split: if_splits)

lemma instance_engine_ok:
  assumes m1: "mirrors E (fe_now fe) w M" and fe: "fe_ok E fe" and ws: "registered ws w" "ws \<noteq> SYSTEM"
  shows "\<exists>w' m. instance_engine fe ws w = (Inr (), w') \<and> mirrors E (fe_now fe) w' (M(ws \<mapsto> m)) \<and> (\<forall>m'. M ws = Some m' \<longrightarrow> m = m')"
proof (cases "fw_engines w ws")
  case None
  obtain s m where s: "fe_disk fe ws = Inr s" "engine_sim E (fe_now fe) s m" using fe unfolding fe_ok_def by blast
  have "M ws = None" using mirrors_None [OF m1, of ws] None ws(2) by (simp add: database_def)
  moreover have "mirrors E (fe_now fe) (set_database ws s w) (M(ws \<mapsto> m))" by (rule mirrors_set [OF m1 s(2)])
  moreover have "instance_engine fe ws w = (Inr (), set_database ws s w)"
    using None s(1) ws by (simp add: instance_engine_def set_database_def)
  ultimately show ?thesis by auto
next
  case (Some s)
  then have "database w ws = Some s" using ws(2) by (simp add: database_def)
  then obtain m where m: "M ws = Some m" using mirrors_None [OF m1, of ws] by auto
  then have "M(ws \<mapsto> m) = M" by auto
  then show ?thesis using Some m1 m by (intro exI [of _ w] exI [of _ m]) (simp add: instance_engine_def)
qed

lemma follow_use:
  assumes M: "mirrors E t w M" and fe: "fe_ok E fe" "t \<le> fe_now fe" and ws: "ws_ok ws"
  shows "\<exists>w' m. follow_frame E parse addr fe (R_USE, as_bytes ws) w = (Inr True, w') \<and> mirrors E (fe_now fe) w' (M(ws \<mapsto> m)) \<and>
    fw_using w' = ws \<and> (\<forall>m'. M ws = Some m' \<longrightarrow> m = m')"
proof -
  have c: "fe_active fe" using fe(1) by (simp add: fe_ok_def)
  define w0 where "w0 = w\<lparr>fw_repl := touch (fe_clock fe) (fw_repl w)\<rparr>"
  have w0: "mirrors E (fe_now fe) w0 M" using mirrors_later [OF M fe(2)] mirrors_cong [of w0 w E "fe_now fe" M] by (simp add: w0_def)
  have same: "M(ws \<mapsto> m) = M" if "M ws = Some m" for m using that by auto
  show ?thesis
  proof (cases "ws = SYSTEM")
    case True
    obtain m where m: "M ws = Some m" using mirrors_None [OF w0, of SYSTEM] True by (auto simp: database_def)
    have "mirrors E (fe_now fe) (w0\<lparr>fw_using := ws\<rparr>) M" using mirrors_cong [OF _ w0] by simp
    then show ?thesis using c m True same [OF m]
      by (intro exI [of _ "w0\<lparr>fw_using := ws\<rparr>"] exI [of _ m])
        (simp add: follow_frame_def Let_def code_defs ws_lossy [OF ws, unfolded True] flip: w0_def)
  next
    case False
    then have v: "valid_workspace_name ws" using ws by (simp add: ws_ok_def)
    obtain w1 where w1: "ensure_workspace fe ws w0 = (Inr (), w1)" "database w1 = database w0" "registered ws w1"
      using ensure_ok [OF v fe(1)] by blast
    have m1: "mirrors E (fe_now fe) w1 M" by (rule mirrors_cong [OF w1(2) w0])
    obtain w2 m where w2: "instance_engine fe ws w1 = (Inr (), w2)" "mirrors E (fe_now fe) w2 (M(ws \<mapsto> m))"
      "\<forall>m'. M ws = Some m' \<longrightarrow> m = m'"
      using instance_engine_ok [OF m1 fe(1) w1(3) False] by blast
    have "mirrors E (fe_now fe) (w2\<lparr>fw_using := ws\<rparr>) (M(ws \<mapsto> m))" using mirrors_cong [OF _ w2(2)] by simp
    then show ?thesis using c w1(1) w2(1,3) False
      by (intro exI [of _ "w2\<lparr>fw_using := ws\<rparr>"] exI [of _ m])
        (simp add: follow_frame_def Let_def code_defs ws_lossy [OF ws] flip: w0_def)
  qed
qed

subsection \<open>Sequences of frames\<close>

fun follow_frames ::
  "engine_env \<Rightarrow> (bytes \<Rightarrow> json option) \<Rightarrow> rstring \<Rightarrow> (frame_env \<times> frame) list \<Rightarrow> follower \<Rightarrow> (kiva_error + bool) \<times> follower" where
  "follow_frames E parse addr [] w = (Inr True, w)"
| "follow_frames E parse addr ((fe, fr) # rest) w = (case follow_frame E parse addr fe fr w of
     (Inr True, w) \<Rightarrow> follow_frames E parse addr rest w | r \<Rightarrow> r)"

lemma follow_frames_append:
  "follow_frames E parse addr xs w = (Inr True, w') \<Longrightarrow>
    follow_frames E parse addr (xs @ ys) w = follow_frames E parse addr ys w'"
proof (induction xs arbitrary: w)
  case (Cons x xs)
  obtain fe fr r w1 where x: "x = (fe, fr)" "follow_frame E parse addr fe fr w = (r, w1)"
    by (metis surj_pair)
  then have "r = Inr True" using Cons.prems by (cases r) (auto split: bool.splits)
  with Cons x show ?case by simp
qed simp

fun turns_ok :: "engine_env \<Rightarrow> int \<Rightarrow> frame_env list \<Rightarrow> bool" where
  "turns_ok E t [] \<longleftrightarrow> True"
| "turns_ok E t (fe # fes) \<longleftrightarrow> t \<le> fe_now fe \<and> fe_ok E fe \<and> turns_ok E (fe_now fe) fes"

fun last_turn :: "int \<Rightarrow> frame_env list \<Rightarrow> int" where
  "last_turn t [] = t"
| "last_turn t (fe # fes) = last_turn (fe_now fe) fes"

lemma turns_ok_append: "turns_ok E t (xs @ ys) \<longleftrightarrow> turns_ok E t xs \<and> turns_ok E (last_turn t xs) ys"
  by (induction xs arbitrary: t) simp_all

lemma last_turn_append: "last_turn t (xs @ ys) = last_turn (last_turn t xs) ys"
  by (induction xs arbitrary: t) simp_all

text \<open>
  A sequence of frames takes any replica that mirrors \<open>M\<close> and has \<open>u\<close> in use to one that mirrors \<open>M'\<close> and
  has \<open>u'\<close> in use.
\<close>

definition leads :: "engine_env \<Rightarrow> (bytes \<Rightarrow> json option) \<Rightarrow> rstring \<Rightarrow> frame list \<Rightarrow> (rstring \<Rightarrow> kv_state option) \<times> rstring \<Rightarrow>
    (rstring \<Rightarrow> kv_state option) \<times> rstring \<Rightarrow> bool" where
  "leads E parse addr frs a b \<longleftrightarrow> (\<forall>t w fes. mirrors E t w (fst a) \<longrightarrow> fw_using w = snd a \<longrightarrow> turns_ok E t fes \<longrightarrow>
     length fes = length frs \<longrightarrow> (\<exists>w'. follow_frames E parse addr (zip fes frs) w = (Inr True, w') \<and>
       mirrors E (last_turn t fes) w' (fst b) \<and> fw_using w' = snd b))"

lemma leadsD:
  assumes "leads E parse addr frs (M, u) (M', u')" and "mirrors E t w M" and "fw_using w = u" and "turns_ok E t fes"
    and "length fes = length frs"
  obtains w' where "follow_frames E parse addr (zip fes frs) w = (Inr True, w')" and "mirrors E (last_turn t fes) w' M'"
    and "fw_using w' = u'"
  using assms unfolding leads_def fst_conv snd_conv by blast

lemma leads_Nil [simp]: "leads E parse addr [] a a"
  by (simp add: leads_def)

lemma leads_trans:
  assumes "leads E parse addr xs a b" and "leads E parse addr ys b c"
  shows "leads E parse addr (xs @ ys) a c"
proof -
  obtain M u M1 u1 M2 u2 where abc: "a = (M, u)" "b = (M1, u1)" "c = (M2, u2)" by (cases a; cases b; cases c)
  have "\<exists>w'. follow_frames E parse addr (zip fes (xs @ ys)) w = (Inr True, w') \<and> mirrors E (last_turn t fes) w' M2 \<and> fw_using w' = u2"
    if m: "mirrors E t w M" "fw_using w = u" and f: "turns_ok E t fes" "length fes = length (xs @ ys)" for t w fes
  proof -
    define f1 f2 where "f1 = take (length xs) fes" and "f2 = drop (length xs) fes"
    have fes: "fes = f1 @ f2" "length f1 = length xs" "length f2 = length ys" using f(2) by (simp_all add: f1_def f2_def)
    have t: "turns_ok E t f1" "turns_ok E (last_turn t f1) f2" using f(1) by (simp_all add: fes(1) turns_ok_append)
    obtain w1 where w1: "follow_frames E parse addr (zip f1 xs) w = (Inr True, w1)" "mirrors E (last_turn t f1) w1 M1" "fw_using w1 = u1"
      by (rule leadsD [OF assms(1) [unfolded abc] m t(1) fes(2)])
    obtain w2 where w2: "follow_frames E parse addr (zip f2 ys) w1 = (Inr True, w2)"
      "mirrors E (last_turn (last_turn t f1) f2) w2 M2" "fw_using w2 = u2"
      by (rule leadsD [OF assms(2) [unfolded abc] w1(2,3) t(2) fes(3)])
    have "zip fes (xs @ ys) = zip f1 xs @ zip f2 ys" using fes by (simp add: zip_append)
    then show ?thesis using follow_frames_append [OF w1(1)] w2 by (simp add: fes(1) last_turn_append)
  qed
  then show ?thesis by (simp add: leads_def abc)
qed

lemma leads_one:
  assumes "\<And>t w fe. mirrors E t w M \<Longrightarrow> fw_using w = u \<Longrightarrow> fe_ok E fe \<Longrightarrow> t \<le> fe_now fe \<Longrightarrow>
    \<exists>w'. follow_frame E parse addr fe fr w = (Inr True, w') \<and> mirrors E (fe_now fe) w' M' \<and> fw_using w' = u'"
  shows "leads E parse addr [fr] (M, u) (M', u')"
proof -
  have "\<exists>w'. follow_frames E parse addr (zip fes [fr]) w = (Inr True, w') \<and> mirrors E (last_turn t fes) w' M' \<and> fw_using w' = u'"
    if m: "mirrors E t w M" "fw_using w = u" and f: "turns_ok E t fes" "length fes = length [fr]" for t w fes
  proof -
    obtain fe where fe: "fes = [fe]" using f(2) by (auto simp: length_Suc_conv)
    have "fe_ok E fe" "t \<le> fe_now fe" using f(1) by (simp_all add: fe)
    from assms [OF m this] show ?thesis by (auto simp: fe)
  qed
  then show ?thesis by (simp add: leads_def)
qed

lemma leads_op:
  assumes "op_sent E o_p" and "M u = Some m"
  shows "leads E parse addr [op_frame seq o_p] (M, u) (M(u \<mapsto> op_map (ee_values E) o_p m), u)"
  by (rule leads_one) (use follow_op [of E _ _ M m _ o_p parse addr seq] assms in auto)

lemma leads_use:
  assumes "ws_ok ws" and "M ws = Some m"
  shows "leads E parse addr [(R_USE, as_bytes ws)] (M, u) (M, ws)"
proof (rule leads_one)
  fix t w fe
  assume "mirrors E t w M" "fw_using w = u" "fe_ok E fe" "t \<le> fe_now fe"
  from follow_use [OF this(1,3,4) assms(1)] assms(2)
  show "\<exists>w'. follow_frame E parse addr fe (R_USE, as_bytes ws) w = (Inr True, w') \<and> mirrors E (fe_now fe) w' M \<and> fw_using w' = ws"
    by (metis fun_upd_triv)
qed

lemma leads_ops:
  assumes "list_all (op_sent E) ops" and "M u = Some m"
  shows "leads E parse addr (map (op_frame seq) ops) (M, u) (M(u \<mapsto> fold (op_map (ee_values E)) ops m), u)"
  using assms
proof (induction ops arbitrary: M m)
  case Nil
  then have "M(u \<mapsto> m) = M" by auto
  then show ?case by simp
next
  case (Cons o_p ops)
  let ?m = "op_map (ee_values E) o_p m"
  have "leads E parse addr ([op_frame seq o_p] @ map (op_frame seq) ops) (M, u)
      ((M(u \<mapsto> ?m))(u \<mapsto> fold (op_map (ee_values E)) ops ?m), u)"
    by (rule leads_trans [OF leads_op Cons.IH]) (use Cons.prems in auto)
  then show ?case by (simp only: fold_simps list.map append_Cons append_Nil fun_upd_upd)
qed

lemma leads_use_reset:
  assumes "ws_ok ws"
  shows "leads E parse addr [(R_USE, as_bytes ws), (R_RESET, be_bytes 8 (seq :: u64))] (M, u) (M(ws \<mapsto> Map.empty), ws)"
proof -
  have "\<exists>w'. follow_frames E parse addr (zip fes [(R_USE, as_bytes ws), (R_RESET, be_bytes 8 seq)]) w = (Inr True, w') \<and>
      mirrors E (last_turn t fes) w' (M(ws \<mapsto> Map.empty)) \<and> fw_using w' = ws"
    if m: "mirrors E t w M" and f: "turns_ok E t fes" "length fes = 2" for t w fes
  proof -
    obtain fe fe' where fes: "fes = [fe, fe']" using f(2) by (auto simp: numeral_2_eq_2 length_Suc_conv)
    have ok: "fe_ok E fe" "t \<le> fe_now fe" "fe_ok E fe'" "fe_now fe \<le> fe_now fe'" using f(1) by (simp_all add: fes)
    obtain w1 m1 where w1: "follow_frame E parse addr fe (R_USE, as_bytes ws) w = (Inr True, w1)"
      "mirrors E (fe_now fe) w1 (M(ws \<mapsto> m1))" "fw_using w1 = ws"
      using follow_use [OF m ok(1,2) assms] by blast
    have "(M(ws \<mapsto> m1)) (fw_using w1) = Some m1" by (simp add: w1(3))
    from follow_op [OF w1(2) this ok(3,4), of OpReset parse addr seq] obtain w2 where
      w2: "follow_frame E parse addr fe' (R_RESET, be_bytes 8 seq) w1 = (Inr True, w2)"
        "mirrors E (fe_now fe') w2 (M(ws \<mapsto> Map.empty))" "fw_using w2 = ws"
      unfolding w1(3) fun_upd_upd by (auto simp: op_sent_def op_map_def)
    then show ?thesis using w1(1) by (simp add: fes)
  qed
  then show ?thesis by (simp add: leads_def numeral_2_eq_2)
qed

lemma leads_same:
  assumes "\<And>w fe. fe_ok E fe \<Longrightarrow>
    \<exists>w'. follow_frame E parse addr fe fr w = (Inr True, w') \<and> database w' = database w \<and> fw_using w' = fw_using w"
  shows "leads E parse addr [fr] (M, u) (M, u)"
proof (rule leads_one)
  fix t w fe
  assume a: "mirrors E t w M" "fw_using w = u" "fe_ok E fe" "t \<le> fe_now fe"
  from assms [OF a(3), of w] obtain w' where "follow_frame E parse addr fe fr w = (Inr True, w')" "database w' = database w"
    "fw_using w' = fw_using w" by blast
  with a(2) mirrors_cong [OF _ mirrors_later [OF a(1,4)], of w']
  show "\<exists>w'. follow_frame E parse addr fe fr w = (Inr True, w') \<and> mirrors E (fe_now fe) w' M \<and> fw_using w' = u" by blast
qed

lemma leads_ping: "leads E parse addr [(R_PING, j)] (M, u) (M, u)"
  by (rule leads_same) (simp add: follow_frame_def Let_def code_defs fe_ok_def)

lemma leads_ws_remove:
  assumes "ws_ok ws"
  shows "leads E parse addr [(R_WS_REMOVE, as_bytes ws)] (M, u) (M, u)"
  by (rule leads_same)
    (simp add: follow_frame_def Let_def code_defs fe_ok_def remove_workspace_def ws_lossy [OF assms] go_on_def)

lemma leads_begin: "leads E parse addr [(R_SNAP_BEGIN, [])] (M, u) (M(lit ''default'' \<mapsto> Map.empty), lit ''default'')"
proof (rule leads_one)
  fix t w fe
  assume a: "mirrors E t w M" "fw_using w = u" "fe_ok E fe" "t \<le> fe_now fe"
  let ?d = "lit ''default''"
  define w0 where "w0 = w\<lparr>fw_repl := touch (fe_clock fe) (fw_repl w), fw_status := ''receiving snapshot''\<rparr>"
  have w0: "mirrors E (fe_now fe) w0 M" using mirrors_cong [OF _ mirrors_later [OF a(1,4)], of w0] by (simp add: w0_def)
  have d: "registered ?d w0" "?d \<noteq> SYSTEM" by (simp_all add: registered_def SYSTEM_def)
  obtain w1 m1 where w1: "instance_engine fe ?d w0 = (Inr (), w1)" "mirrors E (fe_now fe) w1 (M(?d \<mapsto> m1))"
    using instance_engine_ok [OF w0 a(3) d] by blast
  obtain id where id: "fe_file_id fe = Inr id" "fe_active fe" "\<not> fe_compacting fe" using a(3) by (auto simp: fe_ok_def)
  let ?w = "w1\<lparr>fw_using := ?d\<rparr>"
  have w2: "mirrors E (fe_now fe) ?w (M(?d \<mapsto> m1))" using mirrors_cong [OF _ w1(2), of ?w] by simp
  have "\<exists>r w'. on_engine (engine_reset E (fe_call fe) False (Inr id)) ?w = (Inr r, w') \<and>
      mirrors E (fe_now fe) w' ((M(?d \<mapsto> m1))(fw_using ?w \<mapsto> Map.empty)) \<and> fw_using w' = fw_using ?w"
    by (rule mirrors_on_engine [OF w2, of m1]) (use sim_reset in auto)
  then show "\<exists>w'. follow_frame E parse addr fe (R_SNAP_BEGIN, []) w = (Inr True, w') \<and>
      mirrors E (fe_now fe) w' (M(?d \<mapsto> Map.empty)) \<and> fw_using w' = ?d"
    using id w1(1) by (auto simp: follow_frame_def Let_def code_defs go_on_def simp flip: w0_def)
qed

lemma leads_end: "leads E parse addr [(R_SNAP_END, be_bytes 8 (seq :: u64))] (M, u) (M, u)"
proof (rule leads_one)
  fix t w fe
  assume a: "mirrors E t w M" "fw_using w = u" "fe_ok E fe" "t \<le> fe_now fe"
  define w0 where "w0 = w\<lparr>fw_repl := touch (fe_clock fe) (fw_repl w)\<rparr>"
  have w0: "mirrors E t w0 M" using mirrors_cong [OF _ a(1), of w0] by (simp add: w0_def)
  define w1 where "w1 = reload_triggers E (fe_call fe) w0"
  have w1: "mirrors E (fe_now fe) w1 M" "fw_using w1 = u"
    using mirrors_reload [OF w0 a(4)] a(2) by (simp_all add: w1_def) (simp add: w0_def)
  obtain r where r: "rd_u64 (reader_new (be_bytes 8 seq @ [])) = Inr (seq, r)" using read_seq by blast
  have ok: "fe_active fe" "fe_socket fe = None" using a(3) by (simp_all add: fe_ok_def)
  show "\<exists>w'. follow_frame E parse addr fe (R_SNAP_END, be_bytes 8 seq) w = (Inr True, w') \<and> mirrors E (fe_now fe) w' M \<and> fw_using w' = u"
    using ok r w1 mirrors_cong [OF _ w1(1)]
    by (simp add: follow_frame_def Let_def code_defs go_on_def send_def see_applied_def flip: w0_def w1_def)
qed

end
