(* ===== verification/Emits.thy ===== *)
theory Emits
  imports Mirror
begin

text \<open>
  The master's side of replication: the operations an engine emits, replayed on a map, give what the
  engine holds; and a snapshot read key by key while writes go on, with the operations emitted since it
  began replayed on top, gives it too.
\<close>

subsection \<open>Replaying operations\<close>

abbreviation replay :: "value_lib \<Rightarrow> op list \<Rightarrow> kv_state \<Rightarrow> kv_state" where
  "replay V ops m \<equiv> fold (op_map V) ops m"

lemma at_time_op: "at_time t m = at_time t m' \<Longrightarrow> at_time t (op_map V o_p m) = at_time t (op_map V o_p m')"
proof (cases o_p)
  case (OpSet k ty raw de ts ex created)
  assume a: "at_time t m = at_time t m'"
  show ?thesis using a at_time_upd [OF a] by (cases "value_decode V ty raw de") (simp_all add: OpSet op_map_def)
next
  case (OpDel k)
  assume a: "at_time t m = at_time t m'"
  show ?thesis using at_time_upd [OF a] by (simp add: OpDel op_map_def)
qed (simp add: op_map_def)

lemma at_time_replay: "at_time t m = at_time t m' \<Longrightarrow> at_time t (replay V ops m) = at_time t (replay V ops m')"
proof (induction ops arbitrary: m m')
  case (Cons o_p ops)
  show ?case unfolding fold_simps by (rule Cons.IH [OF at_time_op [OF Cons.prems]])
qed simp

text \<open>What the map of a database satisfies when all that was put satisfied it.\<close>

definition entry_sent :: "engine_env \<Rightarrow> rstring \<Rightarrow> kvalue \<Rightarrow> int \<Rightarrow> bool" where
  "entry_sent E k v ex \<longleftrightarrow> validate_key k = Inr () \<and> valid_str k \<and> is_i64 ex \<and> expiry_to_ms ex = ex \<and> new_value_ok E v"

definition map_sent :: "engine_env \<Rightarrow> kv_state \<Rightarrow> bool" where
  "map_sent E m \<longleftrightarrow> (\<forall>k v ex. m k = Some (v, ex) \<longrightarrow> entry_sent E k v ex)"

lemma op_sent_set:
  "entry_sent E k v ex \<Longrightarrow> value_decode (ee_values E) ty raw de = Inr v \<Longrightarrow> op_sent E (OpSet k ty raw de ts ex created)"
  by (auto simp: op_sent_def entry_sent_def)

definition call_sent :: "engine_env \<Rightarrow> kv_op \<Rightarrow> bool" where
  "call_sent E o_p \<longleftrightarrow> (case o_p of
     KPut k v ex mp \<Rightarrow> entry_sent E k v ex
   | KUpdate k f \<Rightarrow> validate_key k = Inr () \<and> valid_str k \<and> (\<forall>v new. f v = Inr (Some new) \<longrightarrow> new_value_ok E new)
   | KDelete k \<Rightarrow> validate_key k = Inr () \<and> valid_str k
   | KBatch ops \<Rightarrow> False
   | _ \<Rightarrow> True)"

lemma call_sent_ok: "call_sent E o_p \<Longrightarrow> op_ok E o_p"
  by (auto simp: call_sent_def op_ok_def entry_sent_def split: kv_op.splits)

lemma map_sent_step:
  assumes "map_sent E m" and "call_sent E o_p"
  shows "map_sent E (snd (map_step (c, o_p) m))"
proof (cases o_p)
  case (KUpdate k f)
  have "entry_sent E k new ex" if "at_time (c_now c) m k = Some (v, ex)" "f v = Inr (Some new)" for v ex new
  proof -
    have "m k = Some (v, ex)" using that(1) by (auto simp: at_time_def split: option.splits if_splits)
    then show ?thesis using assms that(2) by (auto simp: KUpdate call_sent_def map_sent_def entry_sent_def)
  qed
  with assms(1) show ?thesis by (auto simp: KUpdate map_step_def map_sent_def split: option.splits sum.splits)
qed (use assms in \<open>auto simp: map_step_def map_sent_def call_sent_def split: if_splits\<close>)

subsection \<open>What a call emits\<close>

lemma append_emitted [simp]: "i_emitted (snd (append_buf io buf sync s)) = i_emitted s"
  by (auto simp: append_buf_def Let_def split: option.splits io_fault.splits)

lemma live_emitted [simp]: "i_emitted (snd (live now key s)) = i_emitted s"
  by (rule live_cases [of s key now]) simp_all

lemma read_emitted [simp]:
  "i_emitted (snd (Engine.read_value E e s)) = i_emitted s" "i_emitted (snd (read_raw E e s)) = i_emitted s"
  by (auto simp: Engine.read_value_def read_raw_def read_record_def split: option.splits sum.splits prod.splits if_splits)

lemma value_of_emitted [simp]: "i_emitted (snd (value_of E key e s)) = i_emitted s"
proof -
  obtain r c where g: "cache_get key (e_version e) (i_cache s) = (r, c)" by (cases "cache_get key (e_version e) (i_cache s)")
  show ?thesis using read_emitted(1) [of E e "s\<lparr>i_cache := c\<rparr>"] g
    by (cases r; cases "Engine.read_value E e (s\<lparr>i_cache := c\<rparr>)") (auto simp: value_of_def split: sum.splits)
qed

lemma get_emitted [simp]: "i_emitted (snd (engine_get E c k s)) = i_emitted s"
proof -
  obtain r s1 where l: "live (c_now c) k s = (r, s1)" by (cases "live (c_now c) k s")
  have s1: "i_emitted s1 = i_emitted s" using live_emitted [of "c_now c" k s] l by simp
  show ?thesis
  proof (cases r)
    case (Some e)
    show ?thesis using l Some s1 value_of_emitted [of E k e s1]
      by (cases "value_of E k e s1") (auto simp: engine_get_def split: sum.splits)
  qed (use l s1 in \<open>simp add: engine_get_def\<close>)
qed

lemma put_emits:
  assumes put: "put_locked E c k v ex mp ts s = (Inr b, s')" and ready: "put_ready E c v ex ts"
  shows "\<exists>raw de created. i_emitted s' = i_emitted s @ [OpSet k (value_ty v) raw de ts ex created] \<and>
    value_decode (ee_values E) (value_ty v) raw de = Inr v \<and>
    raw = fst (projr (encode_stored (ee_values E) (mp \<and> is_doc (value_ty v)) v))"
proof -
  obtain rec ent raw where bp: "build_put E (c_rng c 0) (i_compression s) k v ex mp ts 0 = Inr (rec, ent, raw)"
    using put by (auto simp: put_locked_def split: sum.splits)
  obtain found s1 where l: "live (c_now c) k s = (found, s1)" by (cases "live (c_now c) k s")
  obtain r1 t where a: "append_buf (c_io c) rec False s1 = (r1, t)" by (cases "append_buf (c_io c) rec False s1")
  obtain off where off: "r1 = Inr off" using put bp l a by (cases r1) (simp_all add: put_locked_def)
  have t: "i_emitted t = i_emitted s"
    using live_emitted [of "c_now c" k s] append_emitted [of "c_io c" rec False s1] l a by simp
  have rd: "env_ok E" "nonce_ok (c_rng c 0)" "value_ok (ee_values E) v" "is_i64 ts" "is_i64 ex"
    using ready by (simp_all add: put_ready_def)
  obtain packed :: bytes and fl de where rw: "raw = fst (projr (encode_stored (ee_values E) (mp \<and> is_doc (value_ty v)) v))"
    and dec: "value_decode (ee_values E) (value_ty v) raw de = Inr v"
    and fl: "fl = snd (pack (ee_codec E) raw (i_compression s)) OR 0 OR doc_enc_flags de"
    and ent: "ent = \<lparr>e_offset = 0, e_k_size = word_of_nat (str_len k),
      e_v_size = word_of_nat (length packed + overhead (ee_keys E)), e_raw_size = word_of_nat (length raw),
      e_ty = value_ty v, e_flags = stored_flags (ee_keys E) fl, e_timestamp = ts, e_expires_at = ex, e_version = 0\<rparr>"
    by (rule build_put_facts [OF bp rd(1-3) insertI1 rd(4,5)]) (rule that)
  note pf = put_flags [OF pack_flag_set, of 0 "ee_codec E" raw "i_compression s" de, simplified]
  have "e_doc_enc ent = de" using pf(2) by (simp add: ent e_doc_enc_def doc_enc_stored_flags fl)
  with put_locked_eq [OF bp l a [unfolded off]] put dec rw t show ?thesis by auto
qed

lemma delete_emits:
  assumes del: "engine_delete E c k s = (Inr b, s')"
  shows "i_emitted s' = i_emitted s @ (if b then [OpDel k] else [])"
proof -
  obtain found s1 where l: "live (c_now c) k s = (found, s1)" by (cases "live (c_now c) k s")
  have s1: "i_emitted s1 = i_emitted s" using live_emitted [of "c_now c" k s] l by simp
  show ?thesis
  proof (cases found)
    case None
    with del l s1 show ?thesis by (auto simp: engine_delete_def)
  next
    case (Some e)
    obtain rec where rec: "engine_encode E (c_rng c 0) k [] 0 FLAG_TOMBSTONE (c_secs c) 0 = Inr rec"
      using del l Some by (auto simp: engine_delete_def split: sum.splits)
    obtain r1 t where a: "append_buf (c_io c) rec False s1 = (r1, t)" by (cases "append_buf (c_io c) rec False s1")
    obtain off where off: "r1 = Inr off" using del l Some rec a by (cases r1) (simp_all add: engine_delete_def)
    have "i_emitted t = i_emitted s" using append_emitted [of "c_io c" rec False s1] a s1 by simp
    moreover have "i_emitted (journal_del E c k n m t) = i_emitted t" for n m by (simp add: journal_del_def)
    ultimately show ?thesis using delete_eq [OF l [unfolded Some] rec a [unfolded off]] del by auto
  qed
qed

lemma update_emits:
  assumes R: "engine_sim E t s m" and t: "t \<le> c_now c" and c: "call_ok c" and E: "env_ok E" and m: "map_sent E m" and o: "call_sent E (KUpdate k f)"
    and put: "\<And>k v ex mp s1 b s'. put_locked E c k v ex mp (c_secs c) s1 = (Inr b, s') \<Longrightarrow> entry_sent E k v ex \<Longrightarrow>
      \<exists>ops. i_emitted s' = i_emitted s1 @ ops \<and> list_all (op_sent E) ops \<and> replay (ee_values E) ops m = m(k \<mapsto> (v, ex))"
  shows "\<exists>ops. i_emitted (snd (engine_step E (c, KUpdate k f) s)) = i_emitted s @ ops \<and> list_all (op_sent E) ops \<and>
    at_time (c_now c) (replay (ee_values E) ops m) = at_time (c_now c) (snd (map_step (c, KUpdate k f) m))"
proof -
  have R': "store_ok E s" "\<not> i_closed s" "no_unique s" and me: "at_time (c_now c) (stored E s) = at_time (c_now c) m"
    using R at_time_later_cong [OF t, of "stored E s" m] by (simp_all add: engine_sim_def)
  obtain found s1 where l: "live (c_now c) k s = (found, s1)" by (cases "live (c_now c) k s")
  have s1: "i_emitted s1 = i_emitted s" using live_emitted [of "c_now c" k s] l by simp
  show ?thesis
  proof (cases found)
    case None
    have "at_time (c_now c) m k = None" using live_contents(1) [OF R'(1), of "c_now c" k] l None me by (simp add: contents_def)
    with None l s1 show ?thesis by (intro exI [of _ "[]"]) (simp add: engine_step_def map_step_def update_with_def)
  next
    case (Some e)
    from live_contents(2) [OF R'(1), of "c_now c" k e] l Some obtain v where v: "om_get (i_index s) k = Some e" "s1 = s"
      "entry_value E (i_file s) e = Some v" "contents E (c_now c) s k = Some (v, e_expires_at e)" by auto
    have mk: "at_time (c_now c) m k = Some (v, e_expires_at e)" using v(4) me by (simp add: contents_def)
    note vo = value_of_ok [OF R'(1) v(1,3)]
    obtain s2 where s2: "value_of E k e s = (Inr v, s2)" using vo(1) by (cases "value_of E k e s") simp
    have e2: "i_emitted s2 = i_emitted s" "no_unique s2"
      using value_of_emitted [of E k e s] value_of_frame [OF R'(1) v(1,3)] s2 R'(3) by simp_all
    consider (err) x where "f v = Inl x" | (keep) "f v = Inr None" | (new) new where "f v = Inr (Some new)"
      by (metis not_None_eq sum.exhaust)
    then show ?thesis
    proof cases
      case new
      have "m k = Some (v, e_expires_at e)" using mk by (auto simp: at_time_def split: option.splits if_splits)
      then have es: "entry_sent E k new (e_expires_at e)"
        using m o new by (auto simp: map_sent_def call_sent_def entry_sent_def)
      have R2: "engine_sim E (c_now c) s2 m"
        using vo s2 R' me R e2 by (simp add: engine_sim_def)
      have "op_ok E (KPut k new (e_expires_at e) (is_msgpack e))" using es by (simp add: op_ok_def entry_sent_def)
      from sim_put [OF R2 order_refl c this E] obtain b s' where
        "engine_put E c k new (e_expires_at e) (is_msgpack e) s2 = (Inr b, s')" by blast
      then have pl: "put_locked E c k new (e_expires_at e) (is_msgpack e) (c_secs c) s2 = (Inr b, s')"
        using e2(2) by (simp add: engine_put_def put_at_def no_unique_check no_unique_def)
      from put [OF pl es] l Some v(2) s2 mk new e2 pl show ?thesis
        by (simp add: engine_step_def map_step_def update_with_def no_unique_check no_unique_def) metis
    qed (use l Some v(2) s2 mk e2 in \<open>auto simp: engine_step_def map_step_def update_with_def\<close>)
  qed
qed

lemma step_emits:
  assumes R: "engine_sim E t s m" and t: "t \<le> c_now c" and c: "call_ok c" and E: "env_ok E" and m: "map_sent E m" and o: "call_sent E o_p"
  shows "\<exists>ops. i_emitted (snd (engine_step E (c, o_p) s)) = i_emitted s @ ops \<and> list_all (op_sent E) ops \<and>
    at_time (c_now c) (replay (ee_values E) ops m) = at_time (c_now c) (snd (map_step (c, o_p) m))"
proof -
  have put: "\<exists>ops. i_emitted s' = i_emitted s1 @ ops \<and> list_all (op_sent E) ops \<and> replay (ee_values E) ops m = m(k \<mapsto> (v, ex))"
    if "put_locked E c k v ex mp (c_secs c) s1 = (Inr b, s')" "entry_sent E k v ex" for k v ex mp s1 b s'
  proof -
    have "put_ready E c v ex (c_secs c)"
      using c E that(2) by (auto simp: put_ready_def entry_sent_def new_value_ok_def call_ok_def is_i64_def)
    from put_emits [OF that(1) this] obtain raw de created where
      p: "i_emitted s' = i_emitted s1 @ [OpSet k (value_ty v) raw de (c_secs c) ex created]"
        "value_decode (ee_values E) (value_ty v) raw de = Inr v" by blast
    then show ?thesis using op_sent_set [OF that(2) p(2)] by (auto simp: op_map_def)
  qed
  show ?thesis
  proof (cases o_p)
    case (KPut k v ex mp)
    have ko: "entry_sent E k v ex" using o by (simp add: KPut call_sent_def)
    obtain b s' where s': "engine_put E c k v ex mp s = (Inr b, s')"
      using sim_put [OF R t c call_sent_ok [OF o, unfolded KPut] E] by blast
    then have "put_locked E c k v ex mp (c_secs c) s = (Inr b, s')"
      using R by (simp add: engine_put_def put_at_def no_unique_check no_unique_def engine_sim_def)
    from put [OF this ko] s' show ?thesis by (auto simp: KPut engine_step_def map_step_def)
  next
    case (KGet k)
    have "i_emitted (snd (engine_step E (c, o_p) s)) = i_emitted s"
      using get_emitted [of E c k s] by (cases "engine_get E c k s") (auto simp: KGet engine_step_def split: sum.splits)
    then show ?thesis by (intro exI [of _ "[]"]) (simp add: KGet map_step_def)
  next
    case (KContains k)
    have "i_emitted (snd (engine_step E (c, o_p) s)) = i_emitted s"
      using live_emitted [of "c_now c" k s] by (cases "live (c_now c) k s") (auto simp: KContains engine_step_def engine_contains_def)
    then show ?thesis by (intro exI [of _ "[]"]) (simp add: KContains map_step_def)
  next
    case (KDelete k)
    obtain b s' where d: "engine_delete E c k s = (Inr b, s')" "b = (at_time (c_now c) m k \<noteq> None)"
      using sim_delete [OF R t c call_sent_ok [OF o, unfolded KDelete] E] by blast
    have "at_time (c_now c) m = at_time (c_now c) (m(k := None))" if "\<not> b"
    proof
      fix x
      have "at_time (c_now c) m k = None" using that d(2) by blast
      then show "at_time (c_now c) m x = at_time (c_now c) (m(k := None)) x" by (simp add: at_time_def)
    qed
    with delete_emits [OF d(1)] d(1) o show ?thesis
      by (cases b) (auto simp: KDelete engine_step_def map_step_def op_map_def op_sent_def call_sent_def)
  next
    case (KUpdate k f)
    from update_emits [OF R t c E m o [unfolded KUpdate] put] show ?thesis by (simp add: KUpdate)
  qed (use o in \<open>simp add: call_sent_def\<close>)
qed

subsection \<open>Operations and keys\<close>

definition touches :: "rstring \<Rightarrow> op list \<Rightarrow> bool" where
  "touches k ops \<longleftrightarrow> list_ex (\<lambda>o_p. case o_p of OpSet k' ty raw de ts ex created \<Rightarrow> k' = k | OpDel k' \<Rightarrow> k' = k | OpReset \<Rightarrow> True) ops"

lemma touches_simps [simp]:
  "\<not> touches k []" "touches k (xs @ ys) \<longleftrightarrow> touches k xs \<or> touches k ys"
  "touches k (OpSet k' ty raw de ts ex created # ops) \<longleftrightarrow> k' = k \<or> touches k ops"
  "touches k (OpDel k' # ops) \<longleftrightarrow> k' = k \<or> touches k ops" "touches k (OpReset # ops)"
  by (simp_all add: touches_def)

lemma replay_untouched: "\<not> touches k ops \<Longrightarrow> replay V ops m k = m k"
proof (induction ops arbitrary: m)
  case (Cons o_p ops)
  then show ?case by (cases o_p) (auto simp: op_map_def split: sum.splits)
qed simp

lemma replay_touched:
  "touches k ops \<Longrightarrow> list_all (op_sent E) ops \<Longrightarrow> replay (ee_values E) ops m k = replay (ee_values E) ops m' k"
proof (induction ops arbitrary: m m')
  case (Cons o_p ops)
  show ?case
  proof (cases "touches k ops")
    case True
    show ?thesis unfolding fold_simps by (rule Cons.IH [OF True]) (use Cons.prems in simp)
  next
    case False
    have "op_map (ee_values E) o_p m k = op_map (ee_values E) o_p m' k"
      using Cons.prems False by (cases o_p) (auto simp: op_map_def op_sent_def split: sum.splits)
    then show ?thesis by (simp add: replay_untouched [OF False])
  qed
qed simp

lemma at_time_gone: "t \<le> T \<Longrightarrow> at_time t m k = None \<Longrightarrow> at_time T m k = None"
  by (auto simp: at_time_def dead_def split: option.splits if_splits)

lemma at_time_cong1: "m k = m' k \<Longrightarrow> at_time t m k = at_time t m' k"
  by (simp add: at_time_def)

subsection \<open>A snapshot read while writes go on\<close>

datatype master_act = ACall call kv_op | ARaw call rstring

fun act_clock :: "master_act \<Rightarrow> int" where
  "act_clock (ACall c o_p) = c_now c" | "act_clock (ARaw c k) = c_now c"

fun act_sent :: "engine_env \<Rightarrow> master_act \<Rightarrow> bool" where
  "act_sent E (ACall c o_p) \<longleftrightarrow> call_ok c \<and> call_sent E o_p" | "act_sent E (ARaw c k) \<longleftrightarrow> call_ok c"

fun raw_keys :: "master_act list \<Rightarrow> rstring list" where
  "raw_keys [] = []" | "raw_keys (ARaw c k # acts) = k # raw_keys acts" | "raw_keys (ACall c o_p # acts) = raw_keys acts"

fun run_acts :: "engine_env \<Rightarrow> master_act list \<Rightarrow> inner \<Rightarrow> (kiva_error + (bytes \<times> entry) option) list \<times> inner" where
  "run_acts E [] s = ([], s)"
| "run_acts E (ACall c o_p # acts) s = run_acts E acts (snd (engine_step E (c, o_p) s))"
| "run_acts E (ARaw c k # acts) s = (case engine_get_raw E c k s of (r, s) \<Rightarrow> case run_acts E acts s of (rs, s) \<Rightarrow> (r # rs, s))"

text \<open>What one answer of the snapshot says of the map at a later time.\<close>

definition answer_sent :: "engine_env \<Rightarrow> rstring \<Rightarrow> kiva_error + (bytes \<times> entry) option \<Rightarrow> bool" where
  "answer_sent E k r \<longleftrightarrow> (case snapshot_op (k, r) of None \<Rightarrow> True | Some o_p \<Rightarrow> op_sent E o_p)"

definition answer_map :: "value_lib \<Rightarrow> rstring \<Rightarrow> kiva_error + (bytes \<times> entry) option \<Rightarrow> kv_state" where
  "answer_map V k r = (case snapshot_op (k, r) of None \<Rightarrow> Map.empty | Some o_p \<Rightarrow> op_map V o_p Map.empty)"

definition answer_fits :: "engine_env \<Rightarrow> int \<Rightarrow> kv_state \<Rightarrow> op list \<Rightarrow> rstring \<Rightarrow> kiva_error + (bytes \<times> entry) option \<Rightarrow> bool" where
  "answer_fits E T m ops k r \<longleftrightarrow> answer_sent E k r \<and>
     (\<not> touches k ops \<longrightarrow> at_time T (answer_map (ee_values E) k r) k = at_time T m k)"

lemma raw_answer:
  assumes R: "engine_sim E t s m" and t: "t \<le> c_now c" and m: "map_sent E m" and T: "c_now c \<le> T" and g: "engine_get_raw E c k s = (r, s')"
  shows "engine_sim E (c_now c) s' m" and "i_emitted s' = i_emitted s" and "answer_fits E T m ops k r"
proof -
  have R': "store_ok E s" and me: "at_time (c_now c) (stored E s) = at_time (c_now c) m"
    using R at_time_later_cong [OF t, of "stored E s" m] by (simp_all add: engine_sim_def)
  obtain found s1 where l: "live (c_now c) k s = (found, s1)" by (cases "live (c_now c) k s")
  have s1: "engine_sim E (c_now c) s1 m" "i_emitted s1 = i_emitted s"
    using store_ok_live [OF R', of "c_now c" k] no_unique_live [of "c_now c" k s] live_closed [of "c_now c" k s]
      live_emitted [of "c_now c" k s] l R me by (simp_all add: engine_sim_def)
  have later: "at_time T m k = at_time T (at_time (c_now c) m) k" using at_time_later [OF T, of m] by simp
  have "engine_sim E (c_now c) s' m \<and> i_emitted s' = i_emitted s \<and> answer_fits E T m ops k r"
  proof (cases found)
    case None
    have "at_time (c_now c) m k = None" using live_contents(1) [OF R', of "c_now c" k] l None me by (simp add: contents_def)
    then have "at_time T m k = None" unfolding later by (simp add: at_time_def)
    then show ?thesis using g None l s1 by (auto simp: engine_get_raw_def answer_fits_def answer_sent_def answer_map_def snapshot_op_def at_time_def)
  next
    case (Some e)
    from live_contents(2) [OF R', of "c_now c" k e] l Some obtain v where v: "s1 = s"
      "entry_value E (i_file s) e = Some v" "contents E (c_now c) s k = Some (v, e_expires_at e)" by auto
    obtain raw where raw: "read_raw E e s = (Inr raw, s)" "value_decode (ee_values E) (e_ty e) raw (e_doc_enc e) = Inr v"
      using v(2) by (auto simp: entry_value_def read_raw_def read_record_def split: option.splits if_splits sum.splits)
    have mk: "m k = Some (v, e_expires_at e)"
      using v(3) me by (auto simp: contents_def at_time_def split: option.splits if_splits)
    then have "entry_sent E k v (e_expires_at e)" using m by (simp add: map_sent_def)
    from op_sent_set [OF this raw(2)] mk show ?thesis
      using g l Some v(1) raw s1
      by (auto simp: engine_get_raw_def answer_fits_def answer_sent_def answer_map_def snapshot_op_def op_map_def at_time_def)
  qed
  then show "engine_sim E (c_now c) s' m" "i_emitted s' = i_emitted s" "answer_fits E T m ops k r" by blast+
qed

fun last_act :: "int \<Rightarrow> master_act list \<Rightarrow> int" where
  "last_act t [] = t" | "last_act t (a # acts) = last_act (act_clock a) acts"

lemma last_act_le: "t \<le> T \<Longrightarrow> list_all (\<lambda>a. act_clock a \<le> T) acts \<Longrightarrow> last_act t acts \<le> T"
  by (induction acts arbitrary: t) simp_all

lemma answer_fits_earlier:
  assumes "at_time T (replay (ee_values E) ops1 m) = at_time T m1" and "answer_fits E T m1 ops2 k r"
  shows "answer_fits E T m (ops1 @ ops2) k r"
proof -
  have "at_time T m1 k = at_time T m k" if "\<not> touches k ops1"
    using fun_cong [OF assms(1), of k] at_time_cong1 [where m = "replay (ee_values E) ops1 m" and m' = m and k = k and t = T]
      replay_untouched [OF that] by simp
  then show ?thesis using assms(2) by (auto simp: answer_fits_def)
qed

lemma run_acts_ok:
  assumes "engine_sim E t s m" and E: "env_ok E" and "map_sent E m" and "in_order act_clock t acts" and "list_all (act_sent E) acts"
    and "list_all (\<lambda>a. act_clock a \<le> T) acts" and "run_acts E acts s = (rs, s')"
  shows "\<exists>ops m'. i_emitted s' = i_emitted s @ ops \<and> list_all (op_sent E) ops \<and> engine_sim E (last_act t acts) s' m' \<and> map_sent E m' \<and>
    at_time T (replay (ee_values E) ops m) = at_time T m' \<and> list_all2 (answer_fits E T m ops) (raw_keys acts) rs"
  using assms(1,3-)
proof (induction acts arbitrary: t s m rs)
  case Nil
  then show ?case by (intro exI [of _ "[]"] exI [of _ m]) simp
next
  case (Cons a acts)
  show ?case
  proof (cases a)
    case (ACall c o_p)
    have c: "call_ok c" "call_sent E o_p" "t \<le> c_now c" "c_now c \<le> T" using Cons.prems by (simp_all add: ACall)
    let ?s = "snd (engine_step E (c, o_p) s)" and ?m = "snd (map_step (c, o_p) m)"
    have sim: "engine_sim E (c_now c) ?s ?m"
      using es.sim_step [OF Cons.prems(1), of "(c, o_p)"] c call_sent_ok [OF c(2)] E by (simp add: timed_ok_def)
    obtain ops1 where o1: "i_emitted ?s = i_emitted s @ ops1" "list_all (op_sent E) ops1"
        "at_time (c_now c) (replay (ee_values E) ops1 m) = at_time (c_now c) ?m"
      using step_emits [OF Cons.prems(1) c(3,1) E Cons.prems(2) c(2)] by blast
    have o1T: "at_time T (replay (ee_values E) ops1 m) = at_time T ?m" by (rule at_time_later_cong [OF c(4) o1(3)])
    have pre: "in_order act_clock (c_now c) acts" "list_all (act_sent E) acts" "list_all (\<lambda>a. act_clock a \<le> T) acts"
      "run_acts E acts ?s = (rs, s')" using Cons.prems by (simp_all add: ACall)
    from Cons.IH [OF sim map_sent_step [OF Cons.prems(2) c(2)] pre] obtain ops2 m' where
      o2: "i_emitted s' = i_emitted ?s @ ops2" "list_all (op_sent E) ops2" "engine_sim E (last_act (c_now c) acts) s' m'" "map_sent E m'"
        "at_time T (replay (ee_values E) ops2 ?m) = at_time T m'" "list_all2 (answer_fits E T ?m ops2) (raw_keys acts) rs" by blast
    have "at_time T (replay (ee_values E) (ops1 @ ops2) m) = at_time T m'"
      using at_time_replay [OF o1T, of "ee_values E" ops2] o2(5) by simp
    moreover have "list_all2 (answer_fits E T m (ops1 @ ops2)) (raw_keys acts) rs"
      using o2(6) answer_fits_earlier [OF o1T] by (rule list_all2_mono)
    ultimately show ?thesis using o1 o2 by (intro exI [of _ "ops1 @ ops2"] exI [of _ m']) (simp add: ACall)
  next
    case (ARaw c k)
    have c: "t \<le> c_now c" "c_now c \<le> T" using Cons.prems by (simp_all add: ARaw)
    obtain r s1 where g: "engine_get_raw E c k s = (r, s1)" by (cases "engine_get_raw E c k s")
    obtain rs1 where rs: "rs = r # rs1" "run_acts E acts s1 = (rs1, s')"
      using Cons.prems(6) g by (auto simp: ARaw split: prod.splits)
    note ra = raw_answer [OF Cons.prems(1) c(1) Cons.prems(2) c(2) g]
    have pre: "in_order act_clock (c_now c) acts" "list_all (act_sent E) acts" "list_all (\<lambda>a. act_clock a \<le> T) acts"
      using Cons.prems by (simp_all add: ARaw)
    from Cons.IH [OF ra(1) Cons.prems(2) pre rs(2)] obtain ops m' where
      o2: "i_emitted s' = i_emitted s1 @ ops" "list_all (op_sent E) ops" "engine_sim E (last_act (c_now c) acts) s' m'" "map_sent E m'"
        "at_time T (replay (ee_values E) ops m) = at_time T m'" "list_all2 (answer_fits E T m ops) (raw_keys acts) rs1" by blast
    with ra(2,3) show ?thesis by (intro exI [of _ ops] exI [of _ m']) (simp add: ARaw rs(1))
  qed
qed

text \<open>The map of a snapshot, key by key.\<close>

definition snapshot_map :: "value_lib \<Rightarrow> (rstring \<times> (kiva_error + (bytes \<times> entry) option)) list \<Rightarrow> kv_state" where
  "snapshot_map V answers = replay V (List.map_filter snapshot_op answers) Map.empty"

lemma snapshot_op_key: "snapshot_op (k, r) = Some o_p \<Longrightarrow> touches x [o_p] \<longleftrightarrow> x = k"
  by (auto simp: snapshot_op_def split: sum.splits option.splits)

lemma snapshot_untouched: "k \<notin> fst ` set answers \<Longrightarrow> \<not> touches k (List.map_filter snapshot_op answers)"
proof (induction answers)
  case (Cons a answers)
  obtain k' r where a: "a = (k', r)" by (cases a)
  have "\<not> touches k (case snapshot_op a of None \<Rightarrow> [] | Some o_p \<Rightarrow> [o_p])"
    using Cons.prems snapshot_op_key [of k' r _ k] by (auto simp: a split: option.splits)
  moreover have "List.map_filter snapshot_op (a # answers) =
      (case snapshot_op a of None \<Rightarrow> [] | Some o_p \<Rightarrow> [o_p]) @ List.map_filter snapshot_op answers"
    by (simp add: map_filter_simps split: option.splits)
  ultimately show ?case using Cons.IH Cons.prems by simp
qed (simp add: map_filter_simps)

lemma snapshot_map_at:
  assumes "distinct (map fst answers)"
  shows "snapshot_map V answers k = (case map_of answers k of None \<Rightarrow> None | Some r \<Rightarrow> answer_map V k r k)"
proof -
  have "replay V (List.map_filter snapshot_op answers) m k =
      (case map_of answers k of None \<Rightarrow> m k | Some r \<Rightarrow> answer_map V k r k)"
    if "k \<in> fst ` set answers \<Longrightarrow> m k = None" for m
    using assms that
  proof (induction answers arbitrary: m)
    case (Cons a answers)
    obtain k' r where a: "a = (k', r)" by (cases a)
    show ?case
    proof (cases "k' = k")
      case True
      then have "k \<notin> fst ` set answers" "m k = None" using Cons.prems by (auto simp: a)
      moreover from this(1) have "\<not> touches k (List.map_filter snapshot_op answers)" by (rule snapshot_untouched)
      note replay_untouched [OF this]
      moreover have "op_map V o_p m k = op_map V o_p Map.empty k" if "snapshot_op (k, r) = Some o_p" for o_p
        using that \<open>m k = None\<close> by (auto simp: snapshot_op_def op_map_def split: option.splits sum.splits)
      ultimately show ?thesis using True by (simp add: a map_filter_simps answer_map_def split: option.splits)
    next
      case False
      have same: "op_map V o_p m k = m k" if "snapshot_op a = Some o_p" for o_p
        using replay_untouched [of k "[o_p]" V m] snapshot_op_key [of k' r o_p k] that False by (simp add: a)
      have mk: "m k = None" if "k \<in> fst ` set answers" using Cons.prems(2) that by simp
      show ?thesis
      proof (cases "snapshot_op a")
        case None
        then show ?thesis using Cons.IH [of m] Cons.prems mk False by (simp add: map_filter_simps a)
      next
        case (Some o_p)
        then show ?thesis using Cons.IH [of "op_map V o_p m"] Cons.prems mk False same [OF Some] by (simp add: map_filter_simps a split: option.splits)
      qed
    qed
  qed (simp add: map_filter_simps)
  from this [of Map.empty] show ?thesis by (simp add: snapshot_map_def split: option.splits)
qed

text \<open>
  A database of the master around a snapshot: the state when the replica is registered, what happens
  before the keys are listed, the moment of the list, and what happens from then on, the reads of the
  snapshot among it.
\<close>

record db_run =
  r_start :: inner
  r_before :: "master_act list"
  r_now :: int
  r_after :: "master_act list"

definition r_mid :: "engine_env \<Rightarrow> db_run \<Rightarrow> inner" where
  "r_mid E d = snd (run_acts E (r_before d) (r_start d))"

definition r_end :: "engine_env \<Rightarrow> db_run \<Rightarrow> inner" where
  "r_end E d = snd (run_acts E (r_after d) (r_mid E d))"

definition r_answers :: "engine_env \<Rightarrow> db_run \<Rightarrow> (rstring \<times> (kiva_error + (bytes \<times> entry) option)) list" where
  "r_answers E d = zip (raw_keys (r_after d)) (fst (run_acts E (r_after d) (r_mid E d)))"

definition r_ops :: "engine_env \<Rightarrow> db_run \<Rightarrow> op list" where
  "r_ops E d = drop (length (i_emitted (r_start d))) (i_emitted (r_end E d))"

definition run_ok :: "engine_env \<Rightarrow> int \<Rightarrow> db_run \<Rightarrow> bool" where
  "run_ok E T d \<longleftrightarrow> env_ok E \<and> (\<exists>t m. engine_sim E t (r_start d) m \<and> map_sent E m \<and>
     in_order act_clock t (r_before d) \<and> last_act t (r_before d) \<le> r_now d \<and> in_order act_clock (r_now d) (r_after d)) \<and>
     list_all (act_sent E) (r_before d @ r_after d) \<and> list_all (\<lambda>a. act_clock a \<le> T) (r_before d @ r_after d) \<and> r_now d \<le> T \<and>
     raw_keys (r_after d) = map fst (engine_range (r_now d) None None False 0 (r_mid E d))"

lemma range_keys:
  assumes "store_ok E s"
  shows "k \<in> set (map fst (engine_range now None None False 0 s)) \<longleftrightarrow> contents E now s k \<noteq> None"
    and "distinct (map fst (engine_range now None None False 0 s))"
proof -
  have ok: "om_ok (i_index s)" using store_okD [OF assms] by simp
  have r: "engine_range now None None False 0 s = filter (\<lambda>kv. \<not> is_expired (snd kv) now) (i_index s)"
    by (simp add: engine_range_def)
  show "distinct (map fst (engine_range now None None False 0 s))"
    unfolding r by (rule distinct_map_filter [OF om_ok_distinct [OF ok]])
  have "contents E now s k \<noteq> None \<longleftrightarrow> (\<exists>e. om_get (i_index s) k = Some e \<and> \<not> is_expired e now)"
  proof -
    have "contents E now s k \<noteq> None \<longleftrightarrow> fst (live now k s) \<noteq> None" using live_contents(1) [OF assms, of now k] by auto
    also have "\<dots> \<longleftrightarrow> (\<exists>e. om_get (i_index s) k = Some e \<and> \<not> is_expired e now)"
      by (rule live_cases [of s k now]) auto
    finally show ?thesis .
  qed
  moreover have "om_get (i_index s) k = Some e \<longleftrightarrow> (k, e) \<in> set (i_index s)" for e
    using om_ok_distinct [OF ok] by (simp add: om_get_def)
  ultimately show "k \<in> set (map fst (engine_range now None None False 0 s)) \<longleftrightarrow> contents E now s k \<noteq> None"
    unfolding r by force
qed

lemma snapshot_converges:
  assumes "run_ok E T d"
  shows "at_time T (replay (ee_values E) (r_ops E d) (snapshot_map (ee_values E) (r_answers E d))) = at_time T (stored E (r_end E d))"
    and "list_all (op_sent E) (r_ops E d)" and "list_all (op_sent E) (List.map_filter snapshot_op (r_answers E d))"
proof -
  obtain t m where R: "engine_sim E t (r_start d) m" "map_sent E m" and E: "env_ok E"
    and o1: "in_order act_clock t (r_before d)" "last_act t (r_before d) \<le> r_now d" "in_order act_clock (r_now d) (r_after d)"
    and ok: "list_all (act_sent E) (r_before d)" "list_all (act_sent E) (r_after d)"
      "list_all (\<lambda>a. act_clock a \<le> T) (r_before d)" "list_all (\<lambda>a. act_clock a \<le> T) (r_after d)" "r_now d \<le> T"
    and keys: "raw_keys (r_after d) = map fst (engine_range (r_now d) None None False 0 (r_mid E d))"
    using assms by (auto simp: run_ok_def)
  define rs1 where "rs1 = fst (run_acts E (r_before d) (r_start d))"
  define rs where "rs = fst (run_acts E (r_after d) (r_mid E d))"
  have run1: "run_acts E (r_before d) (r_start d) = (rs1, r_mid E d)" by (simp add: rs1_def r_mid_def)
  have run2: "run_acts E (r_after d) (r_mid E d) = (rs, r_end E d)" by (simp add: rs_def r_end_def)
  obtain ops1 m1 where a: "i_emitted (r_mid E d) = i_emitted (r_start d) @ ops1" "list_all (op_sent E) ops1"
      "engine_sim E (last_act t (r_before d)) (r_mid E d) m1" "map_sent E m1" "at_time T (replay (ee_values E) ops1 m) = at_time T m1"
    using run_acts_ok [OF R(1) E R(2) o1(1) ok(1,3) run1] by blast
  have mid: "engine_sim E (r_now d) (r_mid E d) m1" by (rule sim_later [OF a(3) o1(2)])
  obtain ops2 m2 where b: "i_emitted (r_end E d) = i_emitted (r_mid E d) @ ops2" "list_all (op_sent E) ops2"
      "engine_sim E (last_act (r_now d) (r_after d)) (r_end E d) m2" "at_time T (replay (ee_values E) ops2 m1) = at_time T m2"
      "list_all2 (answer_fits E T m1 ops2) (raw_keys (r_after d)) rs"
    using run_acts_ok [OF mid E a(4) o1(3) ok(2,4) run2] by blast
  have ops: "r_ops E d = ops1 @ ops2" using a(1) b(1) by (simp add: r_ops_def)
  show sent: "list_all (op_sent E) (r_ops E d)" using a(2) b(2) by (simp add: ops)
  have fits: "list_all2 (answer_fits E T m (ops1 @ ops2)) (raw_keys (r_after d)) rs"
    using b(5) answer_fits_earlier [OF a(5)] by (rule list_all2_mono)
  have ans: "r_answers E d = zip (raw_keys (r_after d)) rs" by (simp add: r_answers_def rs_def)
  have fit: "answer_fits E T m (ops1 @ ops2) k r" if "(k, r) \<in> set (r_answers E d)" for k r
    using fits that by (auto simp: ans list_all2_iff)
  have "op_sent E o_p" if mem: "o_p \<in> set (List.map_filter snapshot_op (r_answers E d))" for o_p
  proof -
    obtain k r where kr: "(k, r) \<in> set (r_answers E d)" "snapshot_op (k, r) = Some o_p"
      using mem unfolding List.map_filter_def by auto
    show ?thesis using fit [OF kr(1)] kr(2) by (simp add: answer_fits_def answer_sent_def)
  qed
  then show "list_all (op_sent E) (List.map_filter snapshot_op (r_answers E d))" by (simp add: list_all_iff)
  have len: "length (raw_keys (r_after d)) = length rs" using fits by (rule list_all2_lengthD)
  have s1: "store_ok E (r_mid E d)" "at_time (r_now d) (stored E (r_mid E d)) = at_time (r_now d) m1"
    using mid by (simp_all add: engine_sim_def)
  have dist: "distinct (map fst (r_answers E d))" using range_keys(2) [OF s1(1)] len by (simp add: ans keys)
  let ?X = "snapshot_map (ee_values E) (r_answers E d)"
  have same: "at_time T ?X k = at_time T m k" if untouched: "\<not> touches k (ops1 @ ops2)" for k
  proof (cases "map_of (r_answers E d) k")
    case None
    then have "k \<notin> set (raw_keys (r_after d))" using len by (simp add: ans map_of_zip_is_None)
    then have "at_time (r_now d) m1 k = None" using range_keys(1) [OF s1(1), of k "r_now d"] s1(2)
      by (cases "at_time (r_now d) m1 k") (auto simp: keys contents_def)
    then have "at_time T m1 k = None" by (rule at_time_gone [OF ok(5)])
    then have "at_time T m k = None"
      using fun_cong [OF a(5), of k] at_time_cong1 [where m = "replay (ee_values E) ops1 m" and m' = m and k = k and t = T]
        replay_untouched [of k ops1 "ee_values E" m] untouched by simp
    moreover have "at_time T ?X k = None" by (simp add: at_time_def snapshot_map_at [OF dist] None)
    ultimately show ?thesis by simp
  next
    case (Some r)
    have "at_time T ?X k = at_time T (answer_map (ee_values E) k r) k"
      by (rule at_time_cong1) (simp add: snapshot_map_at [OF dist] Some)
    then show ?thesis using fit [OF map_of_SomeD [OF Some]] untouched by (simp add: answer_fits_def)
  qed
  have fin: "at_time T (replay (ee_values E) (ops1 @ ops2) m) = at_time T m2"
    using at_time_replay [OF a(5), of "ee_values E" ops2] b(4) by simp
  have "at_time T (replay (ee_values E) (ops1 @ ops2) ?X) k = at_time T (replay (ee_values E) (ops1 @ ops2) m) k" for k
  proof (cases "touches k (ops1 @ ops2)")
    case True
    show ?thesis by (rule at_time_cong1, rule replay_touched [OF True]) (use sent in \<open>simp add: ops\<close>)
  next
    case False
    have "at_time T (replay (ee_values E) (ops1 @ ops2) x) k = at_time T x k" for x
      by (rule at_time_cong1, rule replay_untouched [OF False])
    then show ?thesis using same [OF False] by simp
  qed
  then have "at_time T (replay (ee_values E) (ops1 @ ops2) ?X) = at_time T m2" using fin by auto
  moreover have "at_time T (stored E (r_end E d)) = at_time T m2"
  proof (rule at_time_later_cong)
    show "at_time (last_act (r_now d) (r_after d)) (stored E (r_end E d)) = at_time (last_act (r_now d) (r_after d)) m2"
      using b(3) by (simp add: engine_sim_def)
    show "last_act (r_now d) (r_after d) \<le> T" by (rule last_act_le [OF ok(5,4)])
  qed
  ultimately show "at_time T (replay (ee_values E) (r_ops E d) ?X) = at_time T (stored E (r_end E d))" by (simp add: ops)
qed

end
