(* ===== verification/Converge.thy ===== *)
theory Converge
  imports Emits
begin

text \<open>
  A replica converges: what the whole stream of a master, snapshot and operations, makes of a replica,
  however its bytes arrive, and what the operations say of the master they come from.
\<close>

subsection \<open>The stream of a master\<close>

definition live_step :: "value_lib \<Rightarrow> serve_event \<Rightarrow> (rstring \<Rightarrow> kv_state option) \<Rightarrow> rstring \<Rightarrow> kv_state option" where
  "live_step V ev M = (case ev of Msg (MOp seq ws o_p) \<Rightarrow> M(ws := map_option (op_map V o_p) (M ws)) | _ \<Rightarrow> M)"

definition event_ok :: "engine_env \<Rightarrow> (rstring \<Rightarrow> bool) \<Rightarrow> serve_event \<Rightarrow> bool" where
  "event_ok E known ev \<longleftrightarrow> (case ev of
     Beat j \<Rightarrow> True
   | Msg (MOp seq ws o_p) \<Rightarrow> op_sent E o_p \<and> ws_ok ws \<and> known ws
   | Msg (MWorkspace ws removed) \<Rightarrow> ws_ok ws \<and> (removed \<or> known ws)
   | Msg MPromote \<Rightarrow> False)"

lemma leads_event:
  assumes "event_ok E (\<lambda>ws. M ws \<noteq> None) ev"
  shows "leads E parse addr (fst (serve_one cur ev)) (M, cur) (live_step (ee_values E) ev M, snd (serve_one cur ev))"
proof (cases ev)
  case (Beat j)
  then show ?thesis by (simp add: live_step_def leads_ping)
next
  case (Msg msg)
  show ?thesis
  proof (cases msg)
    case (MOp seq ws o_p)
    have o: "op_sent E o_p" "ws_ok ws" using assms by (simp_all add: event_ok_def Msg MOp)
    obtain m where m: "M ws = Some m" using assms by (auto simp: event_ok_def Msg MOp)
    have "leads E parse addr (if ws \<noteq> cur then [(R_USE, as_bytes ws)] else []) (M, cur) (M, ws)"
      using leads_use [OF o(2), of M m E parse addr cur] m by simp
    from leads_trans [OF this leads_op [where M = M and u = ws and m = m, OF o(1) m]] show ?thesis
      by (simp add: Msg MOp live_step_def m)
  next
    case (MWorkspace ws removed)
    show ?thesis
    proof (cases removed)
      case True
      then show ?thesis using assms leads_ws_remove by (simp add: Msg MWorkspace live_step_def event_ok_def)
    next
      case False
      then show ?thesis using assms leads_use [of ws M _ E parse addr cur] by (auto simp: Msg MWorkspace live_step_def event_ok_def)
    qed
  qed (use assms in \<open>simp add: event_ok_def Msg\<close>)
qed

lemma live_step_dom: "live_step V ev M ws = None \<longleftrightarrow> M ws = None"
  by (auto simp: live_step_def split: serve_event.splits repl_msg.splits)

lemma leads_serve:
  assumes "list_all (event_ok E (\<lambda>ws. M ws \<noteq> None)) evs"
  shows "\<exists>cur'. leads E parse addr (serve_loop cur evs) (M, cur) (fold (live_step (ee_values E)) evs M, cur')"
  using assms
proof (induction evs arbitrary: M cur)
  case (Cons ev evs)
  let ?M = "live_step (ee_values E) ev M"
  have "list_all (event_ok E (\<lambda>ws. ?M ws \<noteq> None)) evs" using Cons.prems by (simp add: live_step_dom)
  from Cons.IH [OF this] obtain cur' where
    "leads E parse addr (serve_loop (snd (serve_one cur ev)) evs) (?M, snd (serve_one cur ev)) (fold (live_step (ee_values E)) evs ?M, cur')"
    by blast
  from leads_trans [OF leads_event this] Cons.prems show ?case by (auto simp: Let_def split: prod.splits)
qed (auto intro: leads_Nil)

text \<open>What the operations of one database make of it.\<close>

definition ops_of :: "rstring \<Rightarrow> serve_event list \<Rightarrow> op list" where
  "ops_of ws evs = concat (map (\<lambda>ev. case ev of Msg (MOp seq ws' o_p) \<Rightarrow> if ws' = ws then [o_p] else [] | _ \<Rightarrow> []) evs)"

lemma live_at: "fold (live_step V) evs M ws = map_option (fold (op_map V) (ops_of ws evs)) (M ws)"
proof (induction evs arbitrary: M)
  case (Cons ev evs)
  show ?case
    by (simp add: Cons.IH) (cases "M ws"; auto simp: ops_of_def live_step_def split: serve_event.splits repl_msg.splits)
qed (simp add: ops_of_def option.map_id)

lemma workspaces_lines:
  assumes "list_all valid_workspace_name names"
  shows "filter (\<lambda>n. n \<noteq> []) (rust_lines (from_utf8_lossy (as_bytes (join_lf names)))) = names"
proof (cases "names = []")
  case True
  then show ?thesis by (simp add: from_utf8_lossy.simps as_bytes_def rust_lines_def)
next
  case False
  have n: "n \<noteq> []" "\<And>c. c \<in> set n \<Longrightarrow> valid_char c \<and> c \<noteq> 10 \<and> c \<noteq> 13" if "n \<in> set names" for n
    using assms that workspace_chars [of n] by (auto simp: list_all_iff valid_workspace_name_def valid_name_part_def)
  have "valid_str (join_lf names)"
    using n(2) by (induction names rule: join_lf.induct) (auto simp: valid_str_def list_all_iff valid_char_def)
  moreover have "split_lf (join_lf names) = names" using n(2) by (intro split_lf_join [OF False]) blast
  moreover have "chop_cr n = n" if "n \<in> set names" for n
    using n(2) [OF that] by (auto simp: chop_cr_def dest: last_in_set)
  then have "map chop_cr (butlast names) = butlast names" by (intro map_idI) (blast dest: in_set_butlastD)
  moreover have "last names \<noteq> []" using n(1) False by simp
  moreover have "filter (\<lambda>n. n \<noteq> []) names = names" using n(1) by (simp add: filter_id_conv)
  ultimately show ?thesis using False by (simp add: lossy_key rust_lines_def Let_def)
qed

lemma ensure_all_ok:
  assumes "list_all valid_workspace_name names" and "fe_ok E fe"
  shows "\<exists>w'. ensure_all fe names w = (Inr (), w') \<and> database w' = database w \<and> fw_using w' = fw_using w"
  using assms(1)
proof (induction names arbitrary: w)
  case (Cons n ns)
  obtain w1 where w1: "ensure_workspace fe n w = (Inr (), w1)" "database w1 = database w" "fw_using w1 = fw_using w"
    using ensure_ok [OF _ assms(2), of n w] Cons.prems by auto
  with Cons.IH [of w1] Cons.prems show ?case by auto
qed simp

lemma remove_all_ok:
  assumes "list_all (\<lambda>n. n \<noteq> lit ''default'') names" and "fe_ok E fe"
  shows "\<exists>w'. remove_all_ws fe names w = (Inr (), w') \<and> database w' = database w \<and> fw_using w' = fw_using w"
  using assms(1)
proof (induction names arbitrary: w)
  case (Cons n ns)
  have "\<exists>b w1. remove_workspace fe n w = (Inr b, w1) \<and> database w1 = database w \<and> fw_using w1 = fw_using w"
    using Cons.prems assms(2) by (auto simp: remove_workspace_def fe_ok_def Let_def)
  then obtain b w1 where w1: "remove_workspace fe n w = (Inr b, w1)" "database w1 = database w" "fw_using w1 = fw_using w" by blast
  with Cons.IH [of w1] Cons.prems show ?case by auto
qed simp

lemma leads_workspaces:
  assumes "list_all valid_workspace_name names"
  shows "leads E parse addr [(R_WORKSPACES, as_bytes (join_lf names))] (M, u) (M, u)"
proof (rule leads_same)
  fix w :: follower and fe
  assume fe: "fe_ok E fe"
  define w0 where "w0 = w\<lparr>fw_repl := touch (fe_clock fe) (fw_repl w)\<rparr>"
  obtain w1 where w1: "ensure_all fe names w0 = (Inr (), w1)" "database w1 = database w0" "fw_using w1 = fw_using w0"
    using ensure_all_ok [OF assms fe] by blast
  let ?gone = "filter (\<lambda>n. n \<noteq> lit ''default'' \<and> n \<notin> set names) (map fst (fw_names w1))"
  have "list_all (\<lambda>n. n \<noteq> lit ''default'') ?gone" by (simp only: list_all_iff) simp
  then obtain w2 where w2: "remove_all_ws fe ?gone w1 = (Inr (), w2)" "database w2 = database w1" "fw_using w2 = fw_using w1"
    using remove_all_ok [OF _ fe] by blast
  have "follow_frame E parse addr fe (R_WORKSPACES, as_bytes (join_lf names)) w = (Inr True, w2)"
    using fe w1(1) w2(1)
    by (simp add: follow_frame_def Let_def code_defs fe_ok_def workspaces_lines [OF assms] go_on_def flip: w0_def)
  then show "\<exists>w'. follow_frame E parse addr fe (R_WORKSPACES, as_bytes (join_lf names)) w = (Inr True, w') \<and>
      database w' = database w \<and> fw_using w' = fw_using w"
    using w1(2,3) w2(2,3) by (simp add: w0_def)
qed

lemma leads_snapshot:
  assumes "ws_ok ws" and "list_all (op_sent E) (List.map_filter snapshot_op answers)"
  shows "leads E parse addr (snapshot_frames ws answers) (M, u) (M(ws \<mapsto> snapshot_map (ee_values E) answers), ws)"
proof -
  have "leads E parse addr ([(R_USE, as_bytes ws), (R_RESET, be_bytes 8 (0 :: u64))] @
      map (op_frame 0) (List.map_filter snapshot_op answers)) (M, u)
      ((M(ws \<mapsto> Map.empty))(ws \<mapsto> snapshot_map (ee_values E) answers), ws)"
    unfolding snapshot_map_def by (rule leads_trans [OF leads_use_reset [OF assms(1)] leads_ops [OF assms(2)]]) simp
  then show ?thesis by (simp only: snapshot_frames_def append_Cons append_Nil fun_upd_upd)
qed

fun snapshots_map ::
  "value_lib \<Rightarrow> (rstring \<times> (rstring \<times> (kiva_error + (bytes \<times> entry) option)) list) list \<Rightarrow> (rstring \<Rightarrow> kv_state option) \<Rightarrow>
    rstring \<Rightarrow> kv_state option" where
  "snapshots_map V [] M = M"
| "snapshots_map V ((ws, answers) # rest) M = snapshots_map V rest (M(ws \<mapsto> snapshot_map V answers))"

lemma leads_snapshots:
  assumes "list_all (\<lambda>(ws, answers). ws_ok ws \<and> list_all (op_sent E) (List.map_filter snapshot_op answers)) snaps"
  shows "\<exists>u'. leads E parse addr (concat (map (\<lambda>(ws, answers). snapshot_frames ws answers) snaps)) (M, u)
    (snapshots_map (ee_values E) snaps M, u')"
  using assms
proof (induction snaps arbitrary: M u)
  case (Cons x snaps)
  obtain ws answers where x: "x = (ws, answers)" by (cases x)
  have ok: "ws_ok ws" "list_all (op_sent E) (List.map_filter snapshot_op answers)"
    and rest: "list_all (\<lambda>(ws, answers). ws_ok ws \<and> list_all (op_sent E) (List.map_filter snapshot_op answers)) snaps"
    using Cons.prems by (simp_all add: x)
  obtain u' where "leads E parse addr (concat (map (\<lambda>(ws, answers). snapshot_frames ws answers) snaps))
      (M(ws \<mapsto> snapshot_map (ee_values E) answers), ws)
      (snapshots_map (ee_values E) snaps (M(ws \<mapsto> snapshot_map (ee_values E) answers)), u')"
    using Cons.IH [OF rest] by blast
  from leads_trans [OF leads_snapshot [OF ok] this]
  show ?case unfolding x list.map concat.simps prod.case snapshots_map.simps by blast
qed (auto intro: leads_Nil)

lemma leads_session:
  fixes M :: "rstring \<Rightarrow> kv_state option"
  assumes "list_all valid_workspace_name names"
    and "list_all (\<lambda>(ws, answers). ws_ok ws \<and> list_all (op_sent E) (List.map_filter snapshot_op answers)) snaps"
    and "list_all (op_sent E) (List.map_filter snapshot_op system)"
  defines "M1 \<equiv> (snapshots_map (ee_values E) snaps (M(lit ''default'' \<mapsto> Map.empty)))(SYSTEM \<mapsto> snapshot_map (ee_values E) system)"
  assumes "list_all (event_ok E (\<lambda>ws. M1 ws \<noteq> None)) evs"
  shows "\<exists>u'. leads E parse addr (serve_replica names snaps system seq evs) (M, u) (fold (live_step (ee_values E)) evs M1, u')"
proof -
  let ?M0 = "M(lit ''default'' \<mapsto> Map.empty)"
  have sys: "ws_ok SYSTEM" by (simp add: ws_ok_def)
  obtain u1 where u1: "leads E parse addr (concat (map (\<lambda>(ws, answers). snapshot_frames ws answers) snaps)) (?M0, lit ''default'')
      (snapshots_map (ee_values E) snaps ?M0, u1)"
    using leads_snapshots [OF assms(2)] by blast
  obtain u2 where u2: "leads E parse addr (serve_loop SYSTEM evs) (M1, SYSTEM) (fold (live_step (ee_values E)) evs M1, u2)"
    using leads_serve [OF assms(5)] by blast
  note l1 = leads_trans [OF leads_begin [of E parse addr M u] leads_workspaces [OF assms(1)]]
  note l2 = leads_trans [OF l1 u1]
  note l3 = leads_trans [OF l2 leads_snapshot [OF sys assms(3)], folded M1_def]
  note l4 = leads_trans [OF l3 leads_end [of E parse addr seq]]
  from leads_trans [OF l4 u2] show ?thesis by (auto simp: serve_replica_def)
qed

subsection \<open>The bytes of the stream\<close>

definition frame_bytes :: "frame \<Rightarrow> bytes" where
  "frame_bytes fr = write_frame (fst fr) (snd fr)"

definition frame_fits :: "frame \<Rightarrow> bool" where
  "frame_fits fr \<longleftrightarrow> length (snd fr) + 2 \<le> MAX_FRAME"

lemma loop_frames:
  assumes "list_all healthy evs" and "arriving evs = concat (map frame_bytes frs) @ rest" and "list_all frame_fits frs"
    and "length fes = length frs" and "follow_frames E parse addr (zip fes frs) w = (Inr True, w')"
  shows "\<exists>evs'. follow_loop E parse addr fes evs w = (None, w', evs') \<and> list_all healthy evs' \<and> arriving evs' = rest"
  using assms
proof (induction frs arbitrary: fes evs w)
  case (Cons fr frs)
  obtain fe fes' where fes: "fes = fe # fes'" using Cons.prems(4) by (cases fes) auto
  have "arriving evs = write_frame (fst fr) (snd fr) @ concat (map frame_bytes frs) @ rest" "length (snd fr) + 2 \<le> MAX_FRAME"
    using Cons.prems(2,3) by (simp_all add: frame_bytes_def [of fr] frame_fits_def [of fr])
  from read_frame_ok [OF Cons.prems(1) this] obtain evs1 where
    e: "read_frame_with evs = Inr (fr, evs1)" "list_all healthy evs1" "arriving evs1 = concat (map frame_bytes frs) @ rest" by auto
  obtain r w1 where w1: "follow_frame E parse addr fe fr w = (r, w1)" by (cases "follow_frame E parse addr fe fr w")
  have "r = Inr True" "follow_frames E parse addr (zip fes' frs) w1 = (Inr True, w')"
    using Cons.prems(5) w1 by (cases r; auto simp: fes split: bool.splits)+
  with Cons.IH [OF e(2,3)] Cons.prems(3,4) w1 e(1) show ?case by (simp add: fes)
qed simp

subsection \<open>Convergence\<close>

lemma op_sent_env: "ee_values E' = ee_values E \<Longrightarrow> op_sent E' o_p = op_sent E o_p"
  by (simp add: op_sent_def new_value_ok_def value_fits_def split: op.split)

text \<open>The messages of a stream that concern the databases of the snapshot.\<close>

definition event_known :: "(rstring \<Rightarrow> bool) \<Rightarrow> serve_event \<Rightarrow> bool" where
  "event_known known ev \<longleftrightarrow> (case ev of
     Beat j \<Rightarrow> True
   | Msg (MOp seq ws o_p) \<Rightarrow> known ws
   | Msg (MWorkspace ws removed) \<Rightarrow> known ws
   | Msg MPromote \<Rightarrow> False)"

definition stream_of :: "engine_env \<Rightarrow> rstring list \<Rightarrow> (rstring \<times> db_run) list \<Rightarrow> db_run \<Rightarrow> u64 \<Rightarrow> serve_event list \<Rightarrow> frame list" where
  "stream_of E names dbs sysd seq evs =
     serve_replica names (map (\<lambda>(ws, d). (ws, r_answers E d)) dbs) (r_answers E sysd) seq evs"

definition master_ok :: "engine_env \<Rightarrow> int \<Rightarrow> rstring list \<Rightarrow> (rstring \<times> db_run) list \<Rightarrow> db_run \<Rightarrow> serve_event list \<Rightarrow> bool" where
  "master_ok E T names dbs sysd evs \<longleftrightarrow> list_all valid_workspace_name (names @ map fst dbs) \<and> distinct (map fst dbs) \<and>
     list_all (run_ok E T) (sysd # map snd dbs) \<and> list_all (event_known (\<lambda>ws. ws \<in> set (SYSTEM # map fst dbs))) evs \<and>
     list_all (\<lambda>(ws, d). ops_of ws evs = r_ops E d) ((SYSTEM, sysd) # dbs)"

lemma snapshots_map_at:
  "distinct (map fst dbs) \<Longrightarrow> snapshots_map V (map (\<lambda>(ws, d). (ws, r_answers E d)) dbs) M ws =
    (case map_of dbs ws of Some d \<Rightarrow> Some (snapshot_map V (r_answers E d)) | None \<Rightarrow> M ws)"
proof (induction dbs arbitrary: M)
  case (Cons x dbs)
  obtain ws' d where x: "x = (ws', d)" by (cases x)
  have "map_of dbs ws' = None" using Cons.prems by (auto simp: x map_of_eq_None_iff)
  then show ?case using Cons by (auto simp: x split: option.splits)
qed simp

lemma in_ops_of: "Msg (MOp seq ws o_p) \<in> set evs \<Longrightarrow> o_p \<in> set (ops_of ws evs)"
  by (induction evs) (auto simp: ops_of_def)

lemma master_leads:
  fixes M :: "rstring \<Rightarrow> kv_state option"
  assumes m: "master_ok E T names dbs sysd evs" and V: "ee_values E' = ee_values E"
  obtains M' u' where "leads E' parse addr (stream_of E names dbs sysd seq evs) (M, u) (M', u')"
    and "\<And>ws d. (ws, d) \<in> set ((SYSTEM, sysd) # dbs) \<Longrightarrow>
      \<exists>x. M' ws = Some x \<and> at_time T x = at_time T (stored E (r_end E d))"
proof -
  let ?V = "ee_values E'" and ?snaps = "map (\<lambda>(ws, d). (ws, r_answers E d)) dbs"
  have run: "run_ok E T d" if "(ws, d) \<in> set ((SYSTEM, sysd) # dbs)" for ws d
    using m that by (auto simp: master_ok_def list_all_iff)
  have "valid_workspace_name ws" if "(ws, d) \<in> set dbs" for ws d
    using m that by (force simp: master_ok_def list_all_iff)
  then have ws: "ws_ok ws" "ws \<noteq> SYSTEM" if "(ws, d) \<in> set dbs" for ws d
    using that system_no_workspace by (auto simp: ws_ok_def)
  define M1 where "M1 = (snapshots_map ?V ?snaps (M(lit ''default'' \<mapsto> Map.empty)))(SYSTEM \<mapsto> snapshot_map ?V (r_answers E sysd))"
  have dist: "distinct (map fst dbs)" using m by (simp add: master_ok_def)
  have M1: "M1 ws = Some (snapshot_map ?V (r_answers E d))" if "(ws, d) \<in> set ((SYSTEM, sysd) # dbs)" for ws d
  proof (cases "ws = SYSTEM")
    case True
    then have "d = sysd" using that ws(2) by auto
    then show ?thesis by (simp add: M1_def True)
  next
    case False
    then have "map_of dbs ws = Some d" using that dist by auto
    then show ?thesis using False by (simp add: M1_def snapshots_map_at [OF dist])
  qed
  have ops: "ops_of ws evs = r_ops E d" if "(ws, d) \<in> set ((SYSTEM, sysd) # dbs)" for ws d
    using m that by (auto simp: master_ok_def list_all_iff)
  have ev: "event_ok E' (\<lambda>ws. M1 ws \<noteq> None) ev" if e: "ev \<in> set evs" for ev
  proof -
    have k: "event_known (\<lambda>ws. ws \<in> set (SYSTEM # map fst dbs)) ev" using m e by (auto simp: master_ok_def list_all_iff)
    have d: "\<exists>d. (ws, d) \<in> set ((SYSTEM, sysd) # dbs)" if "ws \<in> set (SYSTEM # map fst dbs)" for ws using that by auto
    have known: "ws_ok ws" "M1 ws \<noteq> None" if kn: "ws \<in> set (SYSTEM # map fst dbs)" for ws
    proof -
      obtain d where dd: "(ws, d) \<in> set ((SYSTEM, sysd) # dbs)" using d [OF kn] by blast
      show "M1 ws \<noteq> None" using M1 [OF dd] by simp
      show "ws_ok ws" using dd ws(1) by (auto simp: ws_ok_def)
    qed
    show ?thesis
    proof (cases "\<exists>seq ws o_p. ev = Msg (MOp seq ws o_p)")
      case True
      then obtain seq ws o_p where evm: "ev = Msg (MOp seq ws o_p)" by blast
      have kw: "ws \<in> set (SYSTEM # map fst dbs)" using k by (simp add: evm event_known_def)
      then obtain d where dd: "(ws, d) \<in> set ((SYSTEM, sysd) # dbs)" using d by blast
      have "o_p \<in> set (r_ops E d)" using in_ops_of [OF e [unfolded evm]] ops [OF dd] by simp
      then have "op_sent E' o_p" using snapshot_converges(2) [OF run [OF dd]] op_sent_env [OF V] by (simp add: list_all_iff)
      then show ?thesis using known [OF kw] by (simp add: evm event_ok_def)
    next
      case False
      then show ?thesis using k known by (auto simp: event_ok_def event_known_def split: serve_event.splits repl_msg.splits)
    qed
  qed
  have sent: "list_all (op_sent E') (List.map_filter snapshot_op (r_answers E d))" if "(ws, d) \<in> set ((SYSTEM, sysd) # dbs)" for ws d
    using snapshot_converges(3) [OF run [OF that]] op_sent_env [OF V] by (simp add: list_all_iff)
  have names: "list_all valid_workspace_name names" using m by (simp add: master_ok_def)
  have snaps: "list_all (\<lambda>(ws, answers). ws_ok ws \<and> list_all (op_sent E') (List.map_filter snapshot_op answers)) ?snaps"
  proof -
    have "ws_ok ws \<and> list_all (op_sent E') (List.map_filter snapshot_op (r_answers E d))" if "(ws, d) \<in> set dbs" for ws d
      using ws(1) [OF that] sent [of ws d] that by simp
    then show ?thesis unfolding list_all_iff set_map by (auto simp del: set_map)
  qed
  have evs: "list_all (event_ok E' (\<lambda>ws. M1 ws \<noteq> None)) evs" using ev by (simp add: list_all_iff)
  have "list_all (op_sent E') (List.map_filter snapshot_op (r_answers E sysd))" by (rule sent [of SYSTEM]) simp
  from leads_session [OF names snaps this, of M evs, folded M1_def, OF evs, of parse addr seq u, folded stream_of_def]
  obtain u' where l: "leads E' parse addr (stream_of E names dbs sysd seq evs) (M, u) (fold (live_step ?V) evs M1, u')"
    by blast
  show thesis
  proof (rule that [OF l])
    fix ws d
    assume dd: "(ws, d) \<in> set ((SYSTEM, sysd) # dbs)"
    show "\<exists>x. fold (live_step ?V) evs M1 ws = Some x \<and> at_time T x = at_time T (stored E (r_end E d))"
      using snapshot_converges(1) [OF run [OF dd]] by (simp add: live_at M1 [OF dd] ops [OF dd] V)
  qed
qed


text \<open>A master whose system database receives one write after the replica has listed its keys.\<close>

definition demo_put :: "call \<times> kv_op" where
  "demo_put = (demo_call 2000, KPut (lit ''a'') (VBool True) 0 False)"

definition demo_run :: db_run where
  "demo_run = \<lparr>r_start = demo_inner, r_before = [], r_now = 1500, r_after = [ACall (fst demo_put) (snd demo_put)]\<rparr>"

definition demo_events :: "serve_event list" where
  "demo_events = map (\<lambda>o_p. Msg (MOp 1 SYSTEM o_p)) (r_ops demo_env demo_run)"

definition demo_stream :: "frame list" where
  "demo_stream = stream_of demo_env [] [] demo_run 0 demo_events"

definition demo_turn :: frame_env where
  "demo_turn = \<lparr>fe_call = demo_call 5000, fe_clock = 0, fe_active = True, fe_compacting = False, fe_file_id = Inr 7,
     fe_config = None, fe_disk = (\<lambda>_. Inr demo_inner), fe_socket = None\<rparr>"

definition demo_repl :: repl where
  "demo_repl = \<lparr>rp_node = [], rp_advertised = [], rp_epoch = 0, rp_voted = 0, rp_peers = [], rp_known = [], rp_last_contact = None,
     rp_seq = 0, rp_replica = True, rp_link = \<lparr>lk_master = [], lk_running = True, lk_applied_seq = 0\<rparr>, rp_replicas = [],
     rp_saved = \<lparr>sv_node = [], sv_epoch = 0, sv_voted = 0, sv_nodes = [], sv_role = [], sv_master_host = [], sv_master_port = 0\<rparr>\<rparr>"

definition demo_node :: follower where
  "demo_node = \<lparr>fw_names = [], fw_engines = Map.empty, fw_system = demo_inner, fw_using = lit ''default'', fw_triggers = [],
     fw_repl = demo_repl, fw_status = [], fw_applied_ops = 0, fw_last_sync = None, fw_sent = []\<rparr>"

lemma demo_sim: "engine_sim demo_env t demo_inner Map.empty"
  by (rule open_new(1) [OF demo_open])

lemma demo_put_ok: "act_sent demo_env (ACall (fst demo_put) (snd demo_put))"
  by (simp add: demo_put_def call_ok_def demo_call_def nonce_ok_def NONCE_LEN_def is_i64_def call_sent_def entry_sent_def demo_value_ok
      validate_key_def MAX_KEY_LEN_def len_utf8_def expiry_to_ms_def valid_str_def valid_char_def)

lemma demo_run_ok: "run_ok demo_env 2000 demo_run"
proof -
  have "r_mid demo_env demo_run = demo_inner" by (simp add: r_mid_def demo_run_def)
  moreover have "engine_range 1500 None None False 0 demo_inner = []"
    using open_new(5) [OF demo_open] by (simp add: engine_range_def)
  moreover have "\<exists>t m. engine_sim demo_env t demo_inner m \<and> map_sent demo_env m \<and> t \<le> 1500"
    using demo_sim [of 1000] by (intro exI [of _ 1000] exI [of _ Map.empty]) (simp add: map_sent_def)
  ultimately show ?thesis
    using demo_env_ok demo_put_ok by (simp add: run_ok_def demo_run_def) (simp add: demo_put_def demo_call_def)
qed

lemma demo_end:
  "engine_sim demo_env 2000 (r_end demo_env demo_run) [lit ''a'' \<mapsto> (VBool True, 0)]"
  "\<exists>de created. r_ops demo_env demo_run = [OpSet (lit ''a'') TBoolean (lit_bytes ''true'') de 2 0 created]"
proof -
  let ?c = "demo_call 2000" and ?k = "lit ''a''"
  have ok: "call_ok ?c" "op_ok demo_env (KPut ?k (VBool True) 0 False)"
    using demo_put_ok call_sent_ok [of demo_env] by (simp_all add: demo_put_def)
  obtain b s' where p: "engine_put demo_env ?c ?k (VBool True) 0 False demo_inner = (Inr b, s')"
    "engine_sim demo_env (c_now ?c) s' [?k \<mapsto> (VBool True, 0)]"
    using sim_put [OF demo_sim [of 1000] _ ok demo_env_ok] by (auto simp: demo_call_def)
  have e: "r_end demo_env demo_run = s'" "r_start demo_run = demo_inner"
    using p(1) by (simp_all add: r_end_def r_mid_def demo_run_def demo_put_def engine_step_def)
  show "engine_sim demo_env 2000 (r_end demo_env demo_run) [?k \<mapsto> (VBool True, 0)]"
    using p(2) by (simp add: e demo_call_def)
  have pl: "put_locked demo_env ?c ?k (VBool True) 0 False (c_secs ?c) demo_inner = (Inr b, s')"
    using p(1) demo_sim by (simp add: engine_put_def put_at_def no_unique_check no_unique_def engine_sim_def)
  have "put_ready demo_env ?c (VBool True) 0 (c_secs ?c)"
    using ok demo_env_ok by (simp add: put_ready_def op_ok_def new_value_ok_def call_ok_def is_i64_def demo_call_def)
  from put_emits [OF pl this] obtain raw de created where
    o: "i_emitted s' = i_emitted demo_inner @ [OpSet ?k TBoolean raw de (c_secs ?c) 0 created]"
      "raw = fst (projr (encode_stored (ee_values demo_env) False (VBool True)))"
    by (auto simp: value_ty_def)
  have "raw = lit_bytes ''true''" using o(2) by (simp add: encode_stored_def encode_stored_plain_def value_encode_def)
  moreover have "i_emitted demo_inner = []" by (simp add: demo_inner_def open_inner_def recount_def)
  ultimately show "\<exists>de created. r_ops demo_env demo_run = [OpSet ?k TBoolean (lit_bytes ''true'') de 2 0 created]"
    using o(1) by (simp add: r_ops_def e demo_call_def)
qed


end
