(* ===== verification/Query.thy ===== *)
theory Query
  imports Engine
begin

text \<open>
  The query language: comparisons (\<^verbatim>\<open>CmpOp\<close>, \<^verbatim>\<open>Cond\<close>, \<^verbatim>\<open>compare_json\<close>, \<^verbatim>\<open>like_match\<close> of
  \<^verbatim>\<open>src/engine.rs\<close>), the tagged moments of \<^verbatim>\<open>src/time.rs\<close> they compare with, and the expressions of
  \<^verbatim>\<open>src/query.rs\<close> with the reading of a structured request. What the \<^verbatim>\<open>chrono\<close> crate computes on texts
  of dates and times is a \<open>time_env\<close>; \<^verbatim>\<open>str::to_lowercase\<close> is \<open>env_lower\<close>. Messages are shortened.
\<close>

subsection \<open>Dates and times\<close>

datatype time_fn = TYear | TMonth | TDay | THour | TMinute | TSecond | TWeekday

type_synonym instant = "int \<times> nat" \<comment> \<open>seconds and nanoseconds\<close>

record time_env =
  te_local :: "rstring \<Rightarrow> instant option" \<comment> \<open>a datetime text, read in the zone of the session\<close>
  te_utc :: "rstring \<Rightarrow> instant option" \<comment> \<open>a datetime text, read in UTC\<close>
  te_time :: "rstring \<Rightarrow> (nat \<times> nat) option" \<comment> \<open>a time of day\<close>
  te_part :: "time_fn \<Rightarrow> rstring \<Rightarrow> int option" \<comment> \<open>the part of a date, time or datetime text\<close>
  te_year_bounds :: "int \<Rightarrow> (instant \<times> instant) option"
  te_iso :: "instant \<Rightarrow> rstring"
  te_day :: "instant \<Rightarrow> int \<Rightarrow> rstring" \<comment> \<open>the date so many days after an instant\<close>

definition time_fn_parse :: "rstring \<Rightarrow> time_fn option" where
  "time_fn_parse name = (let t = map ascii_lower name in
     if t = lit ''year'' then Some TYear else if t = lit ''month'' then Some TMonth
     else if t = lit ''day'' then Some TDay else if t = lit ''hour'' then Some THour
     else if t = lit ''minute'' then Some TMinute else if t = lit ''second'' then Some TSecond
     else if t = lit ''weekday'' then Some TWeekday else None)"

definition tagged :: "json \<Rightarrow> (rstring \<times> rstring) option" where
  "tagged j = (case j of
     JObject m \<Rightarrow>
       (if length m \<noteq> 1 then None
        else case Option.bind (map_of m (lit ''$datetime'')) as_str of
          Some s \<Rightarrow> Some (lit ''$datetime'', s)
        | None \<Rightarrow> map_option (\<lambda>s. (lit ''$time'', s)) (Option.bind (map_of m (lit ''$time'')) as_str))
   | _ \<Rightarrow> None)"

definition instant_of :: "time_env \<Rightarrow> json \<Rightarrow> instant option" where
  "instant_of T j = (case j of
     JString s \<Rightarrow> te_local T s
   | JObject m \<Rightarrow>
       (if length m \<noteq> 1 then None
        else Option.bind (Option.bind (map_of m (lit ''$datetime'')) as_str) (te_local T))
   | _ \<Rightarrow> None)"

definition datetime_json :: "time_env \<Rightarrow> instant \<Rightarrow> json" where
  "datetime_json T at_i = JObject [(lit ''$datetime'', JString (te_iso T at_i))]"

definition compare_tagged :: "time_env \<Rightarrow> json \<Rightarrow> rstring \<Rightarrow> rstring \<Rightarrow> ordering option" where
  "compare_tagged T field tag t =
     (if tag = lit ''$datetime'' then
        Option.bind (instant_of T field) (\<lambda>a. map_option (\<lambda>b. cmp_of a b) (te_utc T t))
      else if tag = lit ''$time'' then
        Option.bind (case field of
            JString s \<Rightarrow> te_time T s
          | JObject _ \<Rightarrow> (case tagged field of
                Some (tg, s) \<Rightarrow> if tg = lit ''$time'' then te_time T s else None
              | None \<Rightarrow> None)
          | _ \<Rightarrow> None) (\<lambda>a. map_option (\<lambda>b. cmp_of a b) (te_time T t))
      else None)"

definition time_fn_of :: "time_env \<Rightarrow> time_fn \<Rightarrow> json \<Rightarrow> int option" where
  "time_fn_of T f v = (case v of
     JString s \<Rightarrow> te_part T f s
   | JObject _ \<Rightarrow> Option.bind (tagged v) (\<lambda>(_, s). te_part T f s)
   | _ \<Rightarrow> None)"

subsection \<open>Text patterns\<close>

datatype like_part = LAny | LOne | LChar rchar

fun like_parts :: "rstring \<Rightarrow> like_part list" where
  "like_parts [] = []"
| "like_parts (c # cs) =
     (if c = ch CHR ''%'' then LAny # like_parts cs
      else if c = ch CHR ''_'' then LOne # like_parts cs
      else if c = 92 then (case cs of [] \<Rightarrow> [LChar 92] | d # ds \<Rightarrow> LChar d # like_parts ds)
      else LChar c # like_parts cs)"

definition like_any :: "like_part \<Rightarrow> bool" where
  "like_any p \<longleftrightarrow> p = LAny"

definition like_one :: "like_part \<Rightarrow> rchar \<Rightarrow> bool" where
  "like_one p c = (case p of LOne \<Rightarrow> True | LChar d \<Rightarrow> d = c | LAny \<Rightarrow> False)"

definition like_match :: "(rstring \<Rightarrow> rstring) \<Rightarrow> rstring \<Rightarrow> rstring \<Rightarrow> bool \<Rightarrow> bool" where
  "like_match lower txt pattern fold_case =
     (let t = (if fold_case then lower txt else txt);
          p = like_parts (if fold_case then lower pattern else pattern)
      in greedy like_any like_one p t 0 0 None)"

definition like_prefix :: "rstring \<Rightarrow> rstring" where
  "like_prefix pattern =
     concat (map (\<lambda>p. case p of LChar c \<Rightarrow> [c] | _ \<Rightarrow> [])
       (takeWhile (\<lambda>p. case p of LChar _ \<Rightarrow> True | _ \<Rightarrow> False) (like_parts pattern)))"

subsection \<open>Comparisons\<close>

datatype cmp_op = CEq | CNe | CGt | CGe | CLt | CLe | CIn | CLike | CILike

definition MAX_IN_VALUES :: nat where "MAX_IN_VALUES = 1024"

definition cmp_op_parse :: "rstring \<Rightarrow> cmp_op option" where
  "cmp_op_parse s =
     (if s = lit ''='' \<or> s = lit ''=='' then Some CEq
      else if s = lit ''!='' \<or> s = lit ''<>'' then Some CNe
      else if s = lit ''>'' then Some CGt else if s = lit ''>='' then Some CGe
      else if s = lit ''<'' then Some CLt else if s = lit ''<='' then Some CLe
      else if eq_ignore_ascii_case s (lit ''in'') then Some CIn
      else if eq_ignore_ascii_case s (lit ''like'') then Some CLike
      else if eq_ignore_ascii_case s (lit ''ilike'') then Some CILike
      else None)"

record cond =
  cd_pattern :: rstring
  cd_field :: rstring
  cd_op :: cmp_op
  cd_value :: json
  cd_func :: "time_fn option"

text \<open>An operator of texts or lists is answered before \<^verbatim>\<open>verdict\<close> is reached.\<close>

definition verdict :: "ordering option \<Rightarrow> cmp_op \<Rightarrow> bool" where
  "verdict ord_r op_c = (case ord_r of
     None \<Rightarrow> op_c = CNe
   | Some r \<Rightarrow>
       (case op_c of CEq \<Rightarrow> r = Equal | CNe \<Rightarrow> r \<noteq> Equal | CGt \<Rightarrow> r = Greater | CGe \<Rightarrow> r \<noteq> Less
        | CLt \<Rightarrow> r = Less | CLe \<Rightarrow> r \<noteq> Greater | _ \<Rightarrow> False))"

definition plain_order :: "json \<Rightarrow> json \<Rightarrow> cmp_op \<Rightarrow> ordering option" where
  "plain_order a b op_c = (case (a, b) of
     (JNumber x, JNumber y) \<Rightarrow> Some (num_cmp x y)
   | (JString x, JString y) \<Rightarrow> Some (cmp_of x y)
   | (JBool x, JBool y) \<Rightarrow> if op_c = CEq \<or> op_c = CNe then Some (if x = y then Equal else Less) else None
   | (JNull, JNull) \<Rightarrow> Some Equal
   | _ \<Rightarrow> None)"

text \<open>\<^verbatim>\<open>compare_json\<close> after its first \<^verbatim>\<open>match\<close>: one value against another.\<close>

definition compare_one :: "time_env \<Rightarrow> json \<Rightarrow> cmp_op \<Rightarrow> json \<Rightarrow> bool" where
  "compare_one T a op_c b = verdict (case tagged b of
     Some (tag, t) \<Rightarrow> compare_tagged T a tag t | None \<Rightarrow> plain_order a b op_c) op_c"

definition compare_json :: "(rstring \<Rightarrow> rstring) \<Rightarrow> time_env \<Rightarrow> json \<Rightarrow> cmp_op \<Rightarrow> json \<Rightarrow> bool" where
  "compare_json lower T a op_c b =
     (if op_c = CIn then (case b of JArray items \<Rightarrow> list_ex (\<lambda>v. compare_one T a CEq v) items | _ \<Rightarrow> False)
      else if op_c = CLike \<or> op_c = CILike then
        (case (a, b) of (JString t, JString p) \<Rightarrow> like_match lower t p (op_c = CILike) | _ \<Rightarrow> False)
      else compare_one T a op_c b)"

text \<open>\<^verbatim>\<open>NumKey::with\<close> and \<^verbatim>\<open>NumKey::Decimal(d).cmp_json(n)\<close>.\<close>

definition numkey_num :: "number \<Rightarrow> dnum" where
  "numkey_num n = (case as_i64 n of Some i \<Rightarrow> NumInt i | None \<Rightarrow>
     (case as_u64 n of Some u \<Rightarrow> NumDecimal \<lparr>d_mantissa = int u, d_scale = 0\<rparr> | None \<Rightarrow>
       (case n of NFloat f \<Rightarrow> NumFloat f | _ \<Rightarrow> NumFloat 0)))"

definition decimal_cmp_json :: "decimal \<Rightarrow> number \<Rightarrow> ordering" where
  "decimal_cmp_json d n = cmp_num (NumDecimal d) (numkey_num n)"

definition compare_decimal_one :: "decimal \<Rightarrow> cmp_op \<Rightarrow> json \<Rightarrow> bool" where
  "compare_decimal_one d op_c b =
     verdict (case b of JNumber n \<Rightarrow> Some (decimal_cmp_json d n) | _ \<Rightarrow> None) op_c"

definition compare_decimal :: "decimal \<Rightarrow> cmp_op \<Rightarrow> json \<Rightarrow> bool" where
  "compare_decimal d op_c b =
     (if op_c = CIn then (case b of JArray items \<Rightarrow> list_ex (compare_decimal_one d CEq) items | _ \<Rightarrow> False)
      else if op_c = CLike \<or> op_c = CILike then False
      else compare_decimal_one d op_c b)"

definition cond_test :: "(rstring \<Rightarrow> rstring) \<Rightarrow> time_env \<Rightarrow> cond \<Rightarrow> json \<Rightarrow> bool" where
  "cond_test lower T c v = (case cd_func c of
     Some f \<Rightarrow> (case time_fn_of T f v of
         Some n \<Rightarrow> compare_json lower T (json_of_i64 (word_of_int n)) (cd_op c) (cd_value c)
       | None \<Rightarrow> False)
   | None \<Rightarrow> compare_json lower T v (cd_op c) (cd_value c))"

definition cond_test_leaf :: "doc_env \<Rightarrow> time_env \<Rightarrow> cond \<Rightarrow> leaf \<Rightarrow> bool" where
  "cond_test_leaf D T c l = (case leaf_decimal l of
     Some d \<Rightarrow> if cd_func c = None then compare_decimal d (cd_op c) (cd_value c)
               else cond_test (env_lower D) T c (leaf_json D l)
   | None \<Rightarrow> cond_test (env_lower D) T c (leaf_json D l))"

subsection \<open>Expressions\<close>

definition MAX_CONDITIONS :: nat where "MAX_CONDITIONS = 64"
definition MAX_QUERY_DEPTH :: nat where "MAX_QUERY_DEPTH = 16"

record qtest =
  t_cond :: cond
  t_path :: "seg list"

datatype expr = ETest qtest | EAnd "expr list" | EOr "expr list" | ENot expr

definition check_field :: "rstring \<Rightarrow> string + unit" where
  "check_field f =
     (if list_ex (\<lambda>c. c = ch CHR ''*'' \<or> c = ch CHR ''?'') f then Inl ''the field contains a wildcard''
      else try_bind (parse_path f) (\<lambda>_. Inr ()))"

text \<open>\<^verbatim>\<open>month(created_at)\<close> is split at its first parenthesis.\<close>

definition split_time_fn :: "rstring \<Rightarrow> time_fn option \<times> rstring" where
  "split_time_fn f =
     (let name = takeWhile (\<lambda>c. c \<noteq> ch CHR ''('') f; rest = drop (length name + 1) f in
      if length name = length f then (None, f)
      else case time_fn_parse name of
        None \<Rightarrow> (None, f)
      | Some fn \<Rightarrow>
          if rest \<noteq> [] \<and> last rest = ch CHR '')'' then (Some fn, trim_str (butlast rest)) else (None, f))"

definition scalar_value :: "json \<Rightarrow> bool" where
  "scalar_value v \<longleftrightarrow> (case v of JArray _ \<Rightarrow> False | JObject _ \<Rightarrow> tagged v \<noteq> None | _ \<Rightarrow> True)"

definition check_value :: "cmp_op \<Rightarrow> json \<Rightarrow> string + unit" where
  "check_value op_c v =
     (if op_c = CIn then
        (case v of
           JArray items \<Rightarrow>
             if items = [] then Inl ''in needs at least one value''
             else if length items > MAX_IN_VALUES then Inl ''an in list holds at most 1024 values''
             else if list_all scalar_value items then Inr ()
             else Inl ''the values of an in list are strings, numbers, booleans or null''
         | _ \<Rightarrow> Inl ''in takes a list of values'')
      else if op_c = CLike \<or> op_c = CILike then
        (case v of JString _ \<Rightarrow> Inr () | _ \<Rightarrow> Inl ''takes a quoted text pattern'')
      else if scalar_value v then Inr ()
      else Inl ''a condition compares with one string, number, boolean or null'')"

fun join_parts :: "bool \<Rightarrow> expr \<Rightarrow> expr list" where
  "join_parts True (EAnd v) = v"
| "join_parts False (EOr v) = v"
| "join_parts _ e = [e]"

definition expr_join :: "expr list \<Rightarrow> bool \<Rightarrow> expr" where
  "expr_join es all_of =
     (let flat = concat (map (join_parts all_of) es)
      in case flat of [e] \<Rightarrow> e | _ \<Rightarrow> if all_of then EAnd flat else EOr flat)"

definition expr_and :: "expr list \<Rightarrow> expr" where
  "expr_and es = expr_join es True"

definition expr_or :: "expr list \<Rightarrow> expr" where
  "expr_or es = expr_join es False"

definition expr_negate :: "expr \<Rightarrow> expr" where
  "expr_negate e = (case e of ENot inner_e \<Rightarrow> inner_e | _ \<Rightarrow> ENot e)"

text \<open>\<^verbatim>\<open>Expr::test\<close> of a comparison that is not a part of a date: what \<^verbatim>\<open>year_range\<close> builds its bounds with.\<close>

definition expr_test_plain :: "cond \<Rightarrow> string + expr" where
  "expr_test_plain c =
     try_bind (check_field (cd_field c)) (\<lambda>_. try_bind (check_value (cd_op c) (cd_value c)) (\<lambda>_.
       try_bind (parse_path (cd_field c)) (\<lambda>path. Inr (ETest \<lparr>t_cond = c, t_path = path\<rparr>))))"

definition year_range :: "time_env \<Rightarrow> cond \<Rightarrow> string + expr option" where
  "year_range T c =
     (if cd_func c \<noteq> Some TYear then Inr None
      else case (case cd_value c of JNumber n \<Rightarrow> as_i64 n | _ \<Rightarrow> None) of
        None \<Rightarrow> Inr None
      | Some year \<Rightarrow>
          (case te_year_bounds T year of
             None \<Rightarrow> Inr None
           | Some (from, to) \<Rightarrow>
               (let bound = (\<lambda>op_c at_i. expr_test_plain \<lparr>cd_pattern = cd_pattern c, cd_field = cd_field c, cd_op = op_c,
                      cd_value = datetime_json T at_i, cd_func = None\<rparr>)
                in case cd_op c of
                  CEq \<Rightarrow> try_bind (bound CGe from) (\<lambda>a. try_bind (bound CLt to) (\<lambda>b. Inr (Some (expr_and [a, b]))))
                | CNe \<Rightarrow> try_bind (bound CLt from) (\<lambda>a. try_bind (bound CGe to) (\<lambda>b. Inr (Some (expr_or [a, b]))))
                | CGt \<Rightarrow> try_bind (bound CGe to) (\<lambda>a. Inr (Some a))
                | CGe \<Rightarrow> try_bind (bound CGe from) (\<lambda>a. Inr (Some a))
                | CLt \<Rightarrow> try_bind (bound CLt from) (\<lambda>a. Inr (Some a))
                | CLe \<Rightarrow> try_bind (bound CLt to) (\<lambda>a. Inr (Some a))
                | _ \<Rightarrow> Inr None)))"

definition expr_test :: "time_env \<Rightarrow> cond \<Rightarrow> string + expr" where
  "expr_test T c =
     try_bind (check_field (cd_field c)) (\<lambda>_. try_bind (check_value (cd_op c) (cd_value c)) (\<lambda>_.
       try_bind (year_range T c) (\<lambda>r. case r of
           Some e \<Rightarrow> Inr e
         | None \<Rightarrow> try_bind (parse_path (cd_field c)) (\<lambda>path. Inr (ETest \<lparr>t_cond = c, t_path = path\<rparr>)))))"

fun matches_view :: "doc_env \<Rightarrow> time_env \<Rightarrow> doc_view \<Rightarrow> expr \<Rightarrow> bool" where
  "matches_view D T d (ETest t) \<longleftrightarrow>
     (case view_get d (t_path t) of Some l \<Rightarrow> cond_test_leaf D T (t_cond t) l | None \<Rightarrow> False)"
| "matches_view D T d (EAnd v) \<longleftrightarrow> list_all (matches_view D T d) v"
| "matches_view D T d (EOr v) \<longleftrightarrow> list_ex (matches_view D T d) v"
| "matches_view D T d (ENot e) \<longleftrightarrow> \<not> matches_view D T d e"

text \<open>The calls of \<^verbatim>\<open>walk\<close>: each comparison, left to right, and whether it is under an odd number of \<^verbatim>\<open>not\<close>.\<close>

fun expr_walk :: "bool \<Rightarrow> expr \<Rightarrow> (cond \<times> bool) list" where
  "expr_walk negated (ETest t) = [(t_cond t, negated)]"
| "expr_walk negated (EAnd v) = concat (map (expr_walk negated) v)"
| "expr_walk negated (EOr v) = concat (map (expr_walk negated) v)"
| "expr_walk negated (ENot e) = expr_walk (\<not> negated) e"

definition conditions :: "expr \<Rightarrow> cond list" where
  "conditions e = map fst (expr_walk False e)"

definition positive_conditions :: "expr \<Rightarrow> cond list" where
  "positive_conditions e = map fst (filter (\<lambda>cn. \<not> snd cn) (expr_walk False e))"

fun expr_depth :: "expr \<Rightarrow> nat" where
  "expr_depth (ETest t) = 0"
| "expr_depth (EAnd v) = 1 + foldr max (map expr_depth v) 0"
| "expr_depth (EOr v) = 1 + foldr max (map expr_depth v) 0"
| "expr_depth (ENot e) = 1 + expr_depth e"

definition check_size :: "expr \<Rightarrow> string + unit" where
  "check_size e =
     (if length (conditions e) > MAX_CONDITIONS then Inl ''a query holds at most 64 comparisons''
      else if expr_depth e > MAX_QUERY_DEPTH then Inl ''a query nests and / or / not at most 16 levels deep''
      else Inr ())"

subsection \<open>Structured requests\<close>

fun collect_results :: "('e + 'a) list \<Rightarrow> 'e + 'a list" where
  "collect_results [] = Inr []"
| "collect_results (r # rs) = try_bind r (\<lambda>a. try_bind (collect_results rs) (\<lambda>as. Inr (a # as)))"

definition strip_pattern :: "rstring \<Rightarrow> rstring \<Rightarrow> rstring" where
  "strip_pattern pattern f =
     (if starts_with f (pattern @ [ch CHR ''.'']) then drop (length pattern + 1) f else f)"

definition from_json_leaf :: "time_env \<Rightarrow> rstring \<Rightarrow> rstring \<Rightarrow> cmp_op \<Rightarrow> json \<Rightarrow> string + expr" where
  "from_json_leaf T pattern f op_c v =
     (let (func, f) = split_time_fn f in
      expr_test T \<lparr>cd_pattern = pattern, cd_field = strip_pattern pattern f, cd_op = op_c, cd_value = v, cd_func = func\<rparr>)"

text \<open>\<^verbatim>\<open>{"field": ..., "cmp": ..., "value": ...}\<close>.\<close>

definition from_json_field :: "time_env \<Rightarrow> rstring \<Rightarrow> (rstring \<times> json) list \<Rightarrow> json \<Rightarrow> string + expr" where
  "from_json_field T pattern m f =
     (if list_ex (\<lambda>kv. fst kv \<notin> {lit ''field'', lit ''cmp'', lit ''value''}) m then Inl ''unknown key in a condition''
      else case as_str f of
        None \<Rightarrow> Inl ''field must be a string''
      | Some field \<Rightarrow>
          (case cmp_op_parse (or_default (lit ''='') (Option.bind (map_of m (lit ''cmp'')) as_str)) of
             None \<Rightarrow> Inl ''cmp must be one of the operators''
           | Some op_c \<Rightarrow>
               (case map_of m (lit ''value'') of
                  None \<Rightarrow> Inl ''the condition needs a value''
                | Some v \<Rightarrow> from_json_leaf T pattern field op_c v)))"

definition json_logic :: "(rstring \<times> json) list \<Rightarrow> rstring option" where
  "json_logic m = find (\<lambda>k. map_of m k \<noteq> None) [lit ''and'', lit ''or'', lit ''not'']"

function from_json_at :: "time_env \<Rightarrow> rstring \<Rightarrow> nat \<Rightarrow> json \<Rightarrow> string + expr" where
  "from_json_at T pattern depth j =
     (if depth > MAX_QUERY_DEPTH then Inl ''a query nests and / or / not at most 16 levels deep''
      else (let list_of = (\<lambda>v. case v of
              JArray (i # is) \<Rightarrow> collect_results (map (from_json_at T pattern (depth + 1)) (i # is))
            | _ \<Rightarrow> Inl ''takes a non-empty array'')
        in case j of
          JArray _ \<Rightarrow> try_bind (list_of j) (\<lambda>es. Inr (expr_and es))
        | JObject m \<Rightarrow>
            (case json_logic m of
               Some k \<Rightarrow>
                 (if length m \<noteq> 1 then Inl ''must be alone in its object''
                  else (let v = the (map_of m k) in
                    if k = lit ''and'' then try_bind (list_of v) (\<lambda>es. Inr (expr_and es))
                    else if k = lit ''or'' then try_bind (list_of v) (\<lambda>es. Inr (expr_or es))
                    else try_bind (from_json_at T pattern (depth + 1) v) (\<lambda>e. Inr (expr_negate e))))
             | None \<Rightarrow>
                 (case map_of m (lit ''field'') of
                    Some f \<Rightarrow> from_json_field T pattern m f
                  | None \<Rightarrow>
                      if m = [] then Inl ''a condition is an object''
                      else try_bind (collect_results (map (\<lambda>(k, v). from_json_leaf T pattern k
                             (case v of JArray _ \<Rightarrow> CIn | _ \<Rightarrow> CEq) v) m)) (\<lambda>es. Inr (expr_and es))))
        | _ \<Rightarrow> Inl ''a condition is an object''))"
  by pat_completeness auto
termination
  by (relation "measure (\<lambda>(T, pattern, depth, j). Suc MAX_QUERY_DEPTH - depth)") auto

declare from_json_at.simps [simp del]

definition expr_from_json :: "time_env \<Rightarrow> json \<Rightarrow> rstring \<Rightarrow> string + expr" where
  "expr_from_json T j pattern =
     try_bind (from_json_at T pattern 0 j) (\<lambda>e. try_bind (check_size e) (\<lambda>_. Inr e))"

record query =
  q_pattern :: rstring
  q_expr :: "expr option"

definition query_single :: "time_env \<Rightarrow> cond \<Rightarrow> string + query" where
  "query_single T c = try_bind (expr_test T c) (\<lambda>e. Inr \<lparr>q_pattern = cd_pattern c, q_expr = Some e\<rparr>)"

definition query_matches :: "doc_env \<Rightarrow> time_env \<Rightarrow> query \<Rightarrow> doc_view \<Rightarrow> bool" where
  "query_matches D T q d = (case q_expr q of None \<Rightarrow> True | Some e \<Rightarrow> matches_view D T d e)"

subsection \<open>What a text pattern means\<close>

lemma wild_spec_pieces:
  "wild_spec any one ps ts \<longleftrightarrow> (\<exists>ws. list_all2 (\<lambda>p w. any p \<or> (\<exists>c. w = [c] \<and> one p c)) ps ws \<and> concat ws = ts)"
proof (induction ps arbitrary: ts)
  case (Cons p ps)
  let ?fits = "\<lambda>p w. any p \<or> (\<exists>c. w = [c] \<and> one p c)"
  have split: "(\<exists>ws. list_all2 ?fits (p # ps) ws \<and> concat ws = ts) \<longleftrightarrow>
      (\<exists>w. ?fits p w \<and> (\<exists>rest. ts = w @ rest \<and> wild_spec any one ps rest))"
    unfolding Cons.IH by (fastforce simp: list_all2_Cons1)
  show ?case
  proof (cases "any p")
    case True
    have "(\<exists>k \<le> length ts. wild_spec any one ps (drop k ts)) \<longleftrightarrow> (\<exists>w rest. ts = w @ rest \<and> wild_spec any one ps rest)"
      by (metis append_eq_conv_conj append_take_drop_id le_add1 length_append)
    with True show ?thesis unfolding split wild_spec_any [of any, OF True] by simp
  next
    case False
    then show ?thesis unfolding split by (cases ts) auto
  qed
qed auto

lemma like_spec_prefix:
  "wild_spec like_any like_one ps ts \<Longrightarrow>
    starts_with ts (concat (map (\<lambda>p. case p of LChar c \<Rightarrow> [c] | _ \<Rightarrow> [])
      (takeWhile (\<lambda>p. case p of LChar _ \<Rightarrow> True | _ \<Rightarrow> False) ps)))"
proof (induction ps arbitrary: ts)
  case (Cons p ps)
  then show ?case
    by (cases p; cases ts) (auto simp: starts_with_def like_any_def like_one_def)
qed (simp add: starts_with_def)

lemma like_match_prefix: "like_match lower t p False \<Longrightarrow> starts_with t (like_prefix p)"
  unfolding like_match_def like_prefix_def by (simp add: greedy_wild_spec like_spec_prefix)

text \<open>
  (C15) \<^verbatim>\<open>like_match\<close>, a loop with one place to go back to, is exact: a text matches a pattern when it
  can be cut into as many pieces as the pattern has elements, any text for a percent sign, one character
  for an underscore and that character for any other; with \<^verbatim>\<open>fold\<close>, after both are lower-cased. And
  every match starts with the \<^verbatim>\<open>like_prefix\<close> of the pattern, so that a range of a B-tree holds them all.
\<close>

theorem like_match_exact:
  "(like_match lower t p fold_case \<longleftrightarrow>
     (\<exists>ws. list_all2 (\<lambda>x w. case x of LAny \<Rightarrow> True | LOne \<Rightarrow> length w = 1 | LChar c \<Rightarrow> w = [c])
        (like_parts (if fold_case then lower p else p)) ws \<and> concat ws = (if fold_case then lower t else t))) \<and>
   (like_match lower t p False \<longrightarrow> take (length (like_prefix p)) t = like_prefix p)"
proof -
  have "(\<lambda>x w. like_any x \<or> (\<exists>c. w = [c] \<and> like_one x c)) =
      (\<lambda>x w. case x of LAny \<Rightarrow> True | LOne \<Rightarrow> length w = 1 | LChar c \<Rightarrow> w = [c])"
    by (auto simp: fun_eq_iff like_any_def like_one_def length_Suc_conv split: like_part.splits)
  then show ?thesis
    using like_match_prefix [of lower t p]
    by (simp add: like_match_def greedy_wild_spec wild_spec_pieces starts_with_def)
qed

theorem like_match_exact_witness:
  "like_match id (lit ''Kinshasa'') (lit ''Kin%_a'') False \<and> like_prefix (lit ''Kin%_a'') = lit ''Kin''"
proof -
  have p: "like_parts (lit ''Kin%_a'') = [LChar 75, LChar 105, LChar 110, LAny, LOne, LChar 97]" by simp
  have "list_all2 (\<lambda>x w. case x of LAny \<Rightarrow> True | LOne \<Rightarrow> length w = 1 | LChar c \<Rightarrow> w = [c])
      (like_parts (lit ''Kin%_a'')) [lit ''K'', lit ''i'', lit ''n'', lit ''sha'', lit ''s'', lit ''a'']"
    unfolding p by simp
  moreover have "concat [lit ''K'', lit ''i'', lit ''n'', lit ''sha'', lit ''s'', lit ''a''] = lit ''Kinshasa''" by simp
  ultimately have m: "like_match id (lit ''Kinshasa'') (lit ''Kin%_a'') False"
    using like_match_exact [of id "lit ''Kinshasa''" "lit ''Kin%_a''" False, unfolded if_False, THEN conjunct1, THEN iffD2] by blast
  have "like_prefix (lit ''Kin%_a'') = lit ''Kin''" unfolding like_prefix_def p by simp
  with m show ?thesis by blast
qed

subsection \<open>What a structured request means\<close>

lemma matches_join:
  "matches_view D T d (expr_and es) \<longleftrightarrow> list_all (matches_view D T d) es"
  "matches_view D T d (expr_or es) \<longleftrightarrow> list_ex (matches_view D T d) es"
proof -
  have one: "matches_view D T d (case flat of [e] \<Rightarrow> e | _ \<Rightarrow> EAnd flat) \<longleftrightarrow> list_all (matches_view D T d) flat"
    "matches_view D T d (case flat of [e] \<Rightarrow> e | _ \<Rightarrow> EOr flat) \<longleftrightarrow> list_ex (matches_view D T d) flat" for flat
    by (cases flat; cases "tl flat"; simp)+
  have "list_all (matches_view D T d) (join_parts True e) \<longleftrightarrow> matches_view D T d e"
    "list_ex (matches_view D T d) (join_parts False e) \<longleftrightarrow> matches_view D T d e" for e
    by (cases e; simp)+
  then have "list_all (matches_view D T d) (concat (map (join_parts True) es)) \<longleftrightarrow> list_all (matches_view D T d) es"
    "list_ex (matches_view D T d) (concat (map (join_parts False) es)) \<longleftrightarrow> list_ex (matches_view D T d) es"
    by (induction es) simp_all
  then show "matches_view D T d (expr_and es) \<longleftrightarrow> list_all (matches_view D T d) es"
    "matches_view D T d (expr_or es) \<longleftrightarrow> list_ex (matches_view D T d) es"
    by (simp_all add: expr_and_def expr_or_def expr_join_def one Let_def)
qed

lemma matches_negate: "matches_view D T d (expr_negate e) \<longleftrightarrow> \<not> matches_view D T d e"
  by (cases e) (simp_all add: expr_negate_def)

text \<open>
  What every expression of a query satisfies: each comparison is on the pattern of the query, its field
  has been parsed and its value is one the operator takes.
\<close>

fun expr_ok :: "rstring \<Rightarrow> expr \<Rightarrow> bool" where
  "expr_ok pattern (ETest t) \<longleftrightarrow> cd_pattern (t_cond t) = pattern \<and> check_field (cd_field (t_cond t)) = Inr () \<and>
     parse_path (cd_field (t_cond t)) = Inr (t_path t) \<and> check_value (cd_op (t_cond t)) (cd_value (t_cond t)) = Inr ()"
| "expr_ok pattern (EAnd v) \<longleftrightarrow> list_all (expr_ok pattern) v"
| "expr_ok pattern (EOr v) \<longleftrightarrow> list_all (expr_ok pattern) v"
| "expr_ok pattern (ENot e) \<longleftrightarrow> expr_ok pattern e"

lemma expr_ok_join:
  "list_all (expr_ok pattern) es \<Longrightarrow> expr_ok pattern (expr_and es)"
  "list_all (expr_ok pattern) es \<Longrightarrow> expr_ok pattern (expr_or es)"
proof -
  have one: "expr_ok pattern (case flat of [e] \<Rightarrow> e | _ \<Rightarrow> EAnd flat) \<longleftrightarrow> list_all (expr_ok pattern) flat"
    "expr_ok pattern (case flat of [e] \<Rightarrow> e | _ \<Rightarrow> EOr flat) \<longleftrightarrow> list_all (expr_ok pattern) flat" for flat
    by (cases flat; cases "tl flat"; simp)+
  have "list_all (expr_ok pattern) (join_parts b e) \<longleftrightarrow> expr_ok pattern e" for b e
    by (cases b; cases e; simp)
  then have "list_all (expr_ok pattern) (concat (map (join_parts b) es)) \<longleftrightarrow> list_all (expr_ok pattern) es" for b
    by (induction es) simp_all
  then show "list_all (expr_ok pattern) es \<Longrightarrow> expr_ok pattern (expr_and es)"
    "list_all (expr_ok pattern) es \<Longrightarrow> expr_ok pattern (expr_or es)"
    by (simp_all add: expr_and_def expr_or_def expr_join_def one Let_def)
qed

lemma expr_ok_negate: "expr_ok pattern e \<Longrightarrow> expr_ok pattern (expr_negate e)"
  by (cases e) (simp_all add: expr_negate_def)

lemma expr_test_plain_ok: "expr_test_plain c = Inr e \<Longrightarrow> expr_ok (cd_pattern c) e"
  by (auto simp: expr_test_plain_def try_bind_Inr_iff)

lemma year_range_ok: "year_range T c = Inr (Some e) \<Longrightarrow> expr_ok (cd_pattern c) e"
  by (auto simp: year_range_def try_bind_Inr_iff Let_def split: if_splits option.splits cmp_op.splits
      dest!: expr_test_plain_ok intro!: expr_ok_join)

lemma expr_test_ok: "expr_test T c = Inr e \<Longrightarrow> expr_ok (cd_pattern c) e"
  by (auto simp: expr_test_def try_bind_Inr_iff split: option.splits dest: year_range_ok)

lemma from_json_leaf_ok: "from_json_leaf T pattern f op_c v = Inr e \<Longrightarrow> expr_ok pattern e"
  by (auto simp: from_json_leaf_def split: prod.splits dest!: expr_test_ok)

lemma from_json_field_ok: "from_json_field T pattern m f = Inr e \<Longrightarrow> expr_ok pattern e"
  by (auto simp: from_json_field_def split: if_splits option.splits dest: from_json_leaf_ok)

lemma collect_results_iff: "collect_results rs = Inr xs \<longleftrightarrow> rs = map Inr xs"
  by (induction rs arbitrary: xs) (auto simp: try_bind_Inr_iff)

text \<open>The meaning of a request, by recursion on its JSON: no flattening, no limit of depth.\<close>

definition leaf_holds :: "doc_env \<Rightarrow> time_env \<Rightarrow> doc_view \<Rightarrow> string + expr \<Rightarrow> bool" where
  "leaf_holds D T d r = (case r of Inr e \<Rightarrow> matches_view D T d e | Inl _ \<Rightarrow> False)"

definition fields_hold :: "doc_env \<Rightarrow> time_env \<Rightarrow> rstring \<Rightarrow> doc_view \<Rightarrow> (rstring \<times> json) list \<Rightarrow> bool" where
  "fields_hold D T pattern d m = (case map_of m (lit ''field'') of
     Some f \<Rightarrow> leaf_holds D T d (from_json_field T pattern m f)
   | None \<Rightarrow> list_all (\<lambda>(k, v). leaf_holds D T d (from_json_leaf T pattern k (case v of JArray _ \<Rightarrow> CIn | _ \<Rightarrow> CEq) v)) m)"

fun request_holds :: "doc_env \<Rightarrow> time_env \<Rightarrow> rstring \<Rightarrow> doc_view \<Rightarrow> json \<Rightarrow> bool" where
  "request_holds D T pattern d (JArray js) = list_all (request_holds D T pattern d) js"
| "request_holds D T pattern d (JObject [(k, JArray js)]) =
     (if k = lit ''and'' then list_all (request_holds D T pattern d) js
      else if k = lit ''or'' then list_ex (request_holds D T pattern d) js
      else if k = lit ''not'' then \<not> list_all (request_holds D T pattern d) js
      else fields_hold D T pattern d [(k, JArray js)])"
| "request_holds D T pattern d (JObject [(k, v)]) =
     (if k = lit ''not'' then \<not> request_holds D T pattern d v else fields_hold D T pattern d [(k, v)])"
| "request_holds D T pattern d (JObject m) = fields_hold D T pattern d m"
| "request_holds D T pattern d _ = False"

lemma from_json_list:
  assumes "collect_results (map f js) = Inr es" and "\<And>j e. j \<in> set js \<Longrightarrow> f j = Inr e \<Longrightarrow> P e \<and> M e = H j"
  shows "list_all P es" and "list_all M es = list_all H js" and "list_ex M es = list_ex H js"
proof -
  have "map f js = map Inr es" using assms(1) by (simp add: collect_results_iff)
  then have "list_all2 (\<lambda>j e. f j = Inr e) js es"
    by (metis list_all2_map1 list_all2_map2 list_all2_eq)
  then have "list_all2 (\<lambda>j e. P e \<and> M e = H j) js es"
    by (rule list.rel_mono_strong) (use assms(2) in auto)
  then show "list_all P es" "list_all M es = list_all H js" "list_ex M es = list_ex H js"
    by (induction rule: list_all2_induct) auto
qed

lemma json_logic_one:
  assumes "json_logic m = Some k" and "length m = 1"
  obtains v where "m = [(k, v)]" "k = lit ''and'' \<or> k = lit ''or'' \<or> k = lit ''not''"
  using assms by (cases m) (auto simp: json_logic_def split: if_splits)

lemma json_logic_none: "json_logic [(k, v)] = None \<Longrightarrow> k \<noteq> lit ''and'' \<and> k \<noteq> lit ''or'' \<and> k \<noteq> lit ''not''"
  by (auto simp: json_logic_def split: if_splits)

lemma request_holds_fields:
  assumes "json_logic m = None"
  shows "request_holds D T pattern d (JObject m) = fields_hold D T pattern d m"
proof (cases m)
  case (Cons kv rest)
  show ?thesis
  proof (cases rest)
    case Nil
    obtain k v where "kv = (k, v)" by (cases kv)
    with Cons Nil json_logic_none [of k v] assms show ?thesis by (cases v) simp_all
  qed (use Cons in \<open>cases kv; simp\<close>)
qed simp

lemma from_json_fields_sound:
  assumes "collect_results (map (\<lambda>(k, v). from_json_leaf T pattern k (case v of JArray _ \<Rightarrow> CIn | _ \<Rightarrow> CEq) v) m) = Inr es"
  shows "list_all (expr_ok pattern) es"
    and "list_all (matches_view D T d) es =
      list_all (\<lambda>(k, v). leaf_holds D T d (from_json_leaf T pattern k (case v of JArray _ \<Rightarrow> CIn | _ \<Rightarrow> CEq) v)) m"
  by (rule from_json_list [OF assms]; auto simp: leaf_holds_def dest: from_json_leaf_ok)+

lemma from_json_at_sound:
  "from_json_at T pattern depth j = Inr e \<Longrightarrow>
    expr_ok pattern e \<and> matches_view D T d e = request_holds D T pattern d j"
proof (induction "Suc MAX_QUERY_DEPTH - depth" arbitrary: depth j e rule: less_induct)
  case less
  let ?sub = "from_json_at T pattern (depth + 1)" and ?M = "matches_view D T d" and ?H = "request_holds D T pattern d"
  let ?list = "\<lambda>v. case v of JArray (i # is) \<Rightarrow> collect_results (map ?sub (i # is)) | _ \<Rightarrow> Inl ''takes a non-empty array''"
  note step = less.prems [unfolded from_json_at.simps [of T pattern depth j]]
  have deep: "\<not> MAX_QUERY_DEPTH < depth" using step by (auto split: if_splits)
  have IH: "?sub i = Inr e \<Longrightarrow> expr_ok pattern e \<and> ?M e = ?H i" for i e
    by (rule less.hyps) (use deep in auto)
  have lists: "\<exists>js. v = JArray js \<and> list_all (expr_ok pattern) es \<and> list_all ?M es = list_all ?H js \<and> list_ex ?M es = list_ex ?H js"
    if "?list v = Inr es" for v es
  proof -
    from that obtain js where js: "v = JArray js" "collect_results (map ?sub js) = Inr es"
      by (cases v) (auto split: list.splits)
    from from_json_list [OF js(2), of "expr_ok pattern" ?M ?H] IH js(1) show ?thesis by blast
  qed
  show ?case
  proof (cases j)
    case (JArray js)
    then obtain es where "?list j = Inr es" "e = expr_and es"
      using step deep by (auto simp: try_bind_Inr_iff simp del: collect_results.simps list.map One_nat_def add_Suc_right)
    with lists [of j es] JArray show ?thesis by (auto simp: expr_ok_join matches_join)
  next
    case (JObject m)
    show ?thesis
    proof (cases "json_logic m")
      case (Some k)
      have "length m = 1" using step deep JObject Some by (auto simp: Let_def split: if_splits)
      with Some obtain v where m: "m = [(k, v)]" and k: "k = lit ''and'' \<or> k = lit ''or'' \<or> k = lit ''not''"
        by (rule json_logic_one)
      from k consider "k = lit ''and''" | "k = lit ''or''" | "k = lit ''not''" by blast
      then show ?thesis
      proof cases
        case 1
        then obtain es where "?list v = Inr es" "e = expr_and es"
          using step deep JObject Some m by (auto simp: try_bind_Inr_iff simp del: collect_results.simps list.map One_nat_def add_Suc_right)
        with lists [of v es] JObject m 1 show ?thesis by (auto simp: expr_ok_join matches_join)
      next
        case 2
        then obtain es where "?list v = Inr es" "e = expr_or es"
          using step deep JObject Some m by (auto simp: try_bind_Inr_iff simp del: collect_results.simps list.map One_nat_def add_Suc_right)
        with lists [of v es] JObject m 2 show ?thesis by (auto simp: expr_ok_join matches_join)
      next
        case 3
        then obtain x where x: "?sub v = Inr x" "e = expr_negate x"
          using step deep JObject Some m by (auto simp: try_bind_Inr_iff Let_def)
        have "?H (JObject [(k, v)]) = (\<not> ?H v)" using 3 by (cases v) simp_all
        with IH [OF x(1)] x(2) JObject m show ?thesis by (simp add: expr_ok_negate matches_negate)
      qed
    next
      case None
      have H: "?H j = fields_hold D T pattern d m" using request_holds_fields [OF None] JObject by simp
      show ?thesis
      proof (cases "map_of m (lit ''field'')")
        case (Some f)
        then have "from_json_field T pattern m f = Inr e"
          using step deep JObject None by simp
        with Some H show ?thesis by (auto simp: fields_hold_def leaf_holds_def from_json_field_ok)
      next
        case nofield: None
        then obtain es where es: "collect_results (map (\<lambda>(k, v). from_json_leaf T pattern k (case v of JArray _ \<Rightarrow> CIn | _ \<Rightarrow> CEq) v) m) = Inr es"
            "e = expr_and es"
          using step deep JObject None by (auto simp: try_bind_Inr_iff split: if_splits)
        from from_json_fields_sound [OF es(1)] nofield H es(2) show ?thesis
          by (simp add: expr_ok_join matches_join fields_hold_def)
      qed
    qed
  qed (use step deep in \<open>simp\<close>)+
qed


definition no_times :: time_env where
  "no_times = \<lparr>te_local = \<lambda>_. None, te_utc = \<lambda>_. None, te_time = \<lambda>_. None, te_part = \<lambda>_ _. None,
     te_year_bounds = \<lambda>_. None, te_iso = \<lambda>_. [], te_day = \<lambda>_ _. []\<rparr>"

definition demo_request :: json where
  "demo_request = JObject [(lit ''and'', JArray [JObject [(lit ''city'', JString (lit ''Goma''))],
     JObject [(lit ''not'', JObject [(lit ''field'', JString (lit ''age'')), (lit ''cmp'', JString (lit ''>'')), (lit ''value'', JNumber (PosInt 18))])]])]"

definition demo_expr :: expr where
  "demo_expr = EAnd [
     ETest \<lparr>t_cond = \<lparr>cd_pattern = lit ''user:*'', cd_field = lit ''city'', cd_op = CEq, cd_value = JString (lit ''Goma''), cd_func = None\<rparr>,
       t_path = [Key (lit ''city'')]\<rparr>,
     ENot (ETest \<lparr>t_cond = \<lparr>cd_pattern = lit ''user:*'', cd_field = lit ''age'', cd_op = CGt, cd_value = JNumber (PosInt 18), cd_func = None\<rparr>,
       t_path = [Key (lit ''age'')]\<rparr>)]"

lemma demo_fields:
  "parse_path (lit ''city'') = Inr [Key (lit ''city'')]" "parse_path (lit ''age'') = Inr [Key (lit ''age'')]"
  by (simp_all add: parse_path_def trim_str_def is_whitespace_def parse_segs.simps)

lemma demo_request_read: "expr_from_json no_times demo_request (lit ''user:*'') = Inr demo_expr"
proof -
  let ?p = "lit ''user:*''"
  have city: "from_json_leaf no_times ?p (lit ''city'') CEq (JString (lit ''Goma'')) =
      Inr (ETest \<lparr>t_cond = \<lparr>cd_pattern = ?p, cd_field = lit ''city'', cd_op = CEq, cd_value = JString (lit ''Goma''), cd_func = None\<rparr>,
        t_path = [Key (lit ''city'')]\<rparr>)"
    using demo_fields(1) by (simp add: from_json_leaf_def split_time_fn_def strip_pattern_def starts_with_def expr_test_def check_field_def
        check_value_def scalar_value_def year_range_def)
  have age: "from_json_leaf no_times ?p (lit ''age'') CGt (JNumber (PosInt 18)) =
      Inr (ETest \<lparr>t_cond = \<lparr>cd_pattern = ?p, cd_field = lit ''age'', cd_op = CGt, cd_value = JNumber (PosInt 18), cd_func = None\<rparr>,
        t_path = [Key (lit ''age'')]\<rparr>)"
    using demo_fields(2) by (simp add: from_json_leaf_def split_time_fn_def strip_pattern_def starts_with_def expr_test_def check_field_def
        check_value_def scalar_value_def year_range_def)
  have c: "from_json_at no_times ?p (Suc 0) (JObject [(lit ''city'', JString (lit ''Goma''))]) =
      Inr (ETest \<lparr>t_cond = \<lparr>cd_pattern = ?p, cd_field = lit ''city'', cd_op = CEq, cd_value = JString (lit ''Goma''), cd_func = None\<rparr>,
        t_path = [Key (lit ''city'')]\<rparr>)"
    using city by (subst from_json_at.simps) (simp add: MAX_QUERY_DEPTH_def json_logic_def expr_and_def expr_join_def)
  have a: "from_json_at no_times ?p (Suc (Suc 0)) (JObject [(lit ''field'', JString (lit ''age'')), (lit ''cmp'', JString (lit ''>'')), (lit ''value'', JNumber (PosInt 18))]) =
      Inr (ETest \<lparr>t_cond = \<lparr>cd_pattern = ?p, cd_field = lit ''age'', cd_op = CGt, cd_value = JNumber (PosInt 18), cd_func = None\<rparr>,
        t_path = [Key (lit ''age'')]\<rparr>)"
    using age by (subst from_json_at.simps)
      (simp add: MAX_QUERY_DEPTH_def json_logic_def from_json_field_def cmp_op_parse_def as_str_def or_default_def)
  have n: "from_json_at no_times ?p (Suc 0) (JObject [(lit ''not'', JObject [(lit ''field'', JString (lit ''age'')), (lit ''cmp'', JString (lit ''>'')), (lit ''value'', JNumber (PosInt 18))])]) =
      Inr (ENot (ETest \<lparr>t_cond = \<lparr>cd_pattern = ?p, cd_field = lit ''age'', cd_op = CGt, cd_value = JNumber (PosInt 18), cd_func = None\<rparr>,
        t_path = [Key (lit ''age'')]\<rparr>))"
    using a by (subst from_json_at.simps) (simp add: MAX_QUERY_DEPTH_def json_logic_def expr_negate_def)
  have "from_json_at no_times ?p 0 demo_request = Inr demo_expr"
    using c n unfolding demo_request_def demo_expr_def
    by (subst from_json_at.simps) (simp add: MAX_QUERY_DEPTH_def json_logic_def expr_and_def expr_join_def)
  moreover have "check_size demo_expr = Inr ()"
    by (simp add: check_size_def demo_expr_def conditions_def MAX_CONDITIONS_def MAX_QUERY_DEPTH_def)
  ultimately show ?thesis by (simp add: expr_from_json_def)
qed


end
