(* ===== verification/Plan.thy ===== *)
theory Plan
  imports Query
begin

text \<open>
  How a query is answered (\<^verbatim>\<open>src/engine.rs\<close>, from \<^verbatim>\<open>find_index\<close> to \<^verbatim>\<open>probe_of\<close>): which secondary index
  can serve a comparison, the keys it lists, the plans of \<^verbatim>\<open>and\<close> and \<^verbatim>\<open>or\<close>, and where the documents are
  taken from. The iteration over a hash index visits its values in the order of the model's map, which
  only the estimated sizes can depend on. A range of days around a moment whose ends are reversed
  (years of five digits) makes \<^verbatim>\<open>BTreeMap::range\<close> panic; the model lists nothing there.
\<close>

subsection \<open>Which index can serve a comparison\<close>

definition serves :: "index_kind \<Rightarrow> cmp_op \<Rightarrow> bool" where
  "serves kind op_c = (case kind of BTree \<Rightarrow> op_c \<noteq> CNe | HashIdx \<Rightarrow> op_c \<in> {CEq, CIn, CLike, CILike})"

definition wildcard_free :: "rstring \<Rightarrow> bool" where
  "wildcard_free s \<longleftrightarrow> ch CHR ''*'' \<notin> set s \<and> ch CHR ''?'' \<notin> set s"

definition pattern_covers :: "rstring \<Rightarrow> rstring \<Rightarrow> bool" where
  "pattern_covers index_pattern query_pattern =
     (if index_pattern = query_pattern \<or> index_pattern = lit ''*'' then True
      else if index_pattern \<noteq> [] \<and> last index_pattern = ch CHR ''*'' then
        wildcard_free (butlast index_pattern) \<and> starts_with query_pattern (butlast index_pattern)
      else False)"

definition indexable :: "cond \<Rightarrow> bool" where
  "indexable c =
     (if cd_func c \<noteq> None then False
      else case tagged (cd_value c) of
        Some (tag, _) \<Rightarrow> tag = lit ''$datetime'' \<and> cd_op c \<notin> {CNe, CIn, CLike, CILike}
      | None \<Rightarrow>
          (case cd_op c of
             CNe \<Rightarrow> False
           | CIn \<Rightarrow> (case as_array (cd_value c) of Some l \<Rightarrow> list_all (\<lambda>v. skey_from_json v \<noteq> None) l | None \<Rightarrow> False)
           | CLike \<Rightarrow> as_str (cd_value c) \<noteq> None
           | CILike \<Rightarrow> as_str (cd_value c) \<noteq> None
           | _ \<Rightarrow> skey_from_json (cd_value c) \<noteq> None))"

fun first_pos :: "('a \<Rightarrow> bool) \<Rightarrow> 'a list \<Rightarrow> nat option" where
  "first_pos P [] = None"
| "first_pos P (x # xs) = (if P x then Some 0 else map_option Suc (first_pos P xs))"

definition usable :: "cond \<Rightarrow> sec_index \<Rightarrow> bool" where
  "usable c s \<longleftrightarrow> length (si_paths s) = 1 \<and> \<not> si_fold s \<and> serves (si_kind s) (cd_op c) \<and> si_field s = cd_field c \<and>
     pattern_covers (si_pattern s) (cd_pattern c)"

definition find_index :: "sec_index list \<Rightarrow> cond \<Rightarrow> nat option" where
  "find_index secs c =
     (if \<not> indexable c then None
      else (let prefixed = (cd_op c = CLike \<and> (case as_str (cd_value c) of Some p \<Rightarrow> like_prefix p \<noteq> [] | None \<Rightarrow> False)) in
        if tagged (cd_value c) \<noteq> None then first_pos (\<lambda>s. si_kind s = BTree \<and> usable c s) secs
        else (let preferred = (if prefixed then BTree else HashIdx) in
          case first_pos (\<lambda>s. si_kind s = preferred \<and> usable c s) secs of
            Some i \<Rightarrow> Some i
          | None \<Rightarrow> first_pos (usable c) secs)))"

subsection \<open>The keys an index lists\<close>

definition key_order :: "skey \<Rightarrow> json \<Rightarrow> ordering option" where
  "key_order sk v = (case (sk, v) of
     (SNull, JNull) \<Rightarrow> Some Equal
   | (SBool a, JBool b) \<Rightarrow> Some (cmp_of a b)
   | (SNum a, JNumber n) \<Rightarrow> Some (cmp_of a (num_value n))
   | (SStr a, JString b) \<Rightarrow> Some (cmp_of a b)
   | _ \<Rightarrow> None)"

definition admits :: "(rstring \<Rightarrow> rstring) \<Rightarrow> time_env \<Rightarrow> cond \<Rightarrow> skey \<Rightarrow> bool" where
  "admits lower T c sk =
     (if tagged (cd_value c) \<noteq> None then (case sk of SStr t \<Rightarrow> cond_test lower T c (JString t) | _ \<Rightarrow> False)
      else case cd_op c of
        CEq \<Rightarrow> key_order sk (cd_value c) = Some Equal
      | CIn \<Rightarrow> (case as_array (cd_value c) of Some l \<Rightarrow> list_ex (\<lambda>v. key_order sk v = Some Equal) l | None \<Rightarrow> False)
      | CLike \<Rightarrow> (case (sk, as_str (cd_value c)) of (SStr t, Some p) \<Rightarrow> like_match lower t p False | _ \<Rightarrow> False)
      | CILike \<Rightarrow> (case (sk, as_str (cd_value c)) of (SStr t, Some p) \<Rightarrow> like_match lower t p True | _ \<Rightarrow> False)
      | CGt \<Rightarrow> key_order sk (cd_value c) = Some Greater
      | CGe \<Rightarrow> key_order sk (cd_value c) \<in> {Some Greater, Some Equal}
      | CLt \<Rightarrow> key_order sk (cd_value c) = Some Less
      | CLe \<Rightarrow> key_order sk (cd_value c) \<in> {Some Less, Some Equal}
      | CNe \<Rightarrow> False)"

definition sets_at :: "postings \<Rightarrow> json \<Rightarrow> rstring oset list" where
  "sets_at m v = (case Option.bind (skey_from_json v) (om_get m) of Some ks \<Rightarrow> [ks] | None \<Rightarrow> [])"

text \<open>The sets of keys \<^verbatim>\<open>visit_postings\<close> calls its argument with, in order, when it is never told to stop.\<close>

definition moment_sets :: "(rstring \<Rightarrow> rstring) \<Rightarrow> time_env \<Rightarrow> postings \<Rightarrow> cond \<Rightarrow> rstring \<Rightarrow> rstring oset list" where
  "moment_sets lower T m c t = (case te_utc T t of
     None \<Rightarrow> []
   | Some at_i \<Rightarrow>
       (let day = (\<lambda>d. SStr (te_day T at_i d));
            lo = (\<lambda>sk. cd_op c \<in> {CGt, CGe, CEq} \<longrightarrow> day (- 2) \<le> sk);
            hi = (\<lambda>sk. cd_op c \<in> {CLt, CLe, CEq} \<longrightarrow> sk < day 3)
        in map snd (filter (\<lambda>x. lo (fst x) \<and> hi (fst x) \<and> admits lower T c (fst x)) m)))"

definition like_sets :: "(rstring \<Rightarrow> rstring) \<Rightarrow> time_env \<Rightarrow> sec_index \<Rightarrow> cond \<Rightarrow> rstring oset list" where
  "like_sets lower T idx c = (case as_str (cd_value c) of
     None \<Rightarrow> []
   | Some pattern \<Rightarrow>
       (let prefix = (if cd_op c = CILike then [] else like_prefix pattern) in
        if si_kind idx = BTree \<and> prefix \<noteq> [] then
          map snd (filter (\<lambda>x. admits lower T c (fst x))
            (takeWhile (\<lambda>x. case fst x of SStr t \<Rightarrow> starts_with t prefix | _ \<Rightarrow> False) (om_from (SStr prefix) (si_map idx))))
        else map snd (filter (\<lambda>x. admits lower T c (fst x)) (si_map idx))))"

definition range_sets :: "sec_index \<Rightarrow> cond \<Rightarrow> rstring oset list" where
  "range_sets idx c = (case skey_from_json (cd_value c) of
     None \<Rightarrow> []
   | Some sk \<Rightarrow>
       if si_kind idx \<noteq> BTree then []
       else (let near = takeWhile (\<lambda>x. same_kind (fst x) sk); m = si_map idx in
         case cd_op c of
           CGt \<Rightarrow> map snd (near (filter (\<lambda>x. sk < fst x) m))
         | CGe \<Rightarrow> map snd (near (filter (\<lambda>x. sk \<le> fst x) m))
         | CLt \<Rightarrow> map snd (near (rev (filter (\<lambda>x. fst x < sk) m)))
         | CLe \<Rightarrow> map snd (near (rev (filter (\<lambda>x. fst x \<le> sk) m)))
         | _ \<Rightarrow> []))"

definition plain_sets :: "(rstring \<Rightarrow> rstring) \<Rightarrow> time_env \<Rightarrow> sec_index \<Rightarrow> cond \<Rightarrow> rstring oset list" where
  "plain_sets lower T idx c = (case cd_op c of
     CEq \<Rightarrow> sets_at (si_map idx) (cd_value c)
   | CIn \<Rightarrow> (case as_array (cd_value c) of Some l \<Rightarrow> concat (map (sets_at (si_map idx)) l) | None \<Rightarrow> [])
   | CLike \<Rightarrow> like_sets lower T idx c
   | CILike \<Rightarrow> like_sets lower T idx c
   | _ \<Rightarrow> range_sets idx c)"

definition visited_sets :: "(rstring \<Rightarrow> rstring) \<Rightarrow> time_env \<Rightarrow> sec_index \<Rightarrow> cond \<Rightarrow> rstring oset list" where
  "visited_sets lower T idx c = (case tagged (cd_value c) of
     Some (tag, t) \<Rightarrow>
       if tag = lit ''$datetime'' \<and> si_kind idx = BTree then moment_sets lower T (si_map idx) c t
       else plain_sets lower T idx c
   | None \<Rightarrow> plain_sets lower T idx c)"

fun visit_postings :: "('s \<Rightarrow> rstring oset \<Rightarrow> 's \<times> bool) \<Rightarrow> 's \<Rightarrow> rstring oset list \<Rightarrow> 's" where
  "visit_postings f st [] = st"
| "visit_postings f st (ks # rest) = (case f st ks of (st, go) \<Rightarrow> if go then visit_postings f st rest else st)"

definition index_candidates :: "(rstring \<Rightarrow> rstring) \<Rightarrow> time_env \<Rightarrow> sec_index \<Rightarrow> cond \<Rightarrow> rstring list" where
  "index_candidates lower T idx c =
     remdups_adj (sort (visit_postings (\<lambda>out ks. (out @ map fst ks, True)) [] (visited_sets lower T idx c)))"

definition count_postings :: "(rstring \<Rightarrow> rstring) \<Rightarrow> time_env \<Rightarrow> sec_index \<Rightarrow> cond \<Rightarrow> nat \<Rightarrow> nat" where
  "count_postings lower T idx c cap =
     visit_postings (\<lambda>n ks. (n + length ks, n + length ks < cap)) 0 (visited_sets lower T idx c)"

subsection \<open>Plans of keys\<close>

record key_plan =
  ip_keys :: "rstring list"
  ip_used :: rstring
  ip_indexes :: nat
  ip_entries :: nat

definition index_name :: "sec_index \<Rightarrow> rstring" where
  "index_name s = si_pattern s @ lit '' ('' @ si_field s @ lit '')'' @ (if si_kind s = HashIdx then lit '' using hash'' else [])"

fun intersect_sorted :: "rstring list \<Rightarrow> rstring list \<Rightarrow> rstring list" where
  "intersect_sorted (a # as) (b # bs) =
     (if a < b then intersect_sorted as (b # bs)
      else if b < a then intersect_sorted (a # as) bs
      else a # intersect_sorted as bs)"
| "intersect_sorted _ _ = []"

fun union_sorted :: "rstring list \<Rightarrow> rstring list \<Rightarrow> rstring list" where
  "union_sorted (a # as) (b # bs) =
     (if a = b then a # union_sorted as bs
      else if a < b then a # union_sorted as (b # bs)
      else b # union_sorted (a # as) bs)"
| "union_sorted as [] = as"
| "union_sorted [] bs = bs"

text \<open>\<^verbatim>\<open>field.split(", ")\<close>.\<close>

fun split_fields :: "rstring \<Rightarrow> rstring \<Rightarrow> rstring list" where
  "split_fields acc [] = [rev acc]"
| "split_fields acc [c] = [rev (c # acc)]"
| "split_fields acc (c # d # cs) =
     (if c = ch CHR '','' \<and> d = ch CHR '' '' then rev acc # split_fields [] cs else split_fields (c # acc) (d # cs))"

fun all_some :: "'a option list \<Rightarrow> 'a list option" where
  "all_some [] = Some []"
| "all_some (x # xs) = Option.bind x (\<lambda>a. map_option (\<lambda>as. a # as) (all_some xs))"

fun find_map :: "('a \<Rightarrow> 'b option) \<Rightarrow> 'a list \<Rightarrow> 'b option" where
  "find_map f [] = None"
| "find_map f (x # xs) = (case f x of Some y \<Rightarrow> Some y | None \<Rightarrow> find_map f xs)"

definition equal_conds :: "expr list \<Rightarrow> cond list" where
  "equal_conds es = concat (map (\<lambda>e. case e of
     ETest t \<Rightarrow> if cd_op (t_cond t) = CEq \<and> cd_func (t_cond t) = None then [t_cond t] else [] | _ \<Rightarrow> []) es)"

definition composite_value :: "cond list \<Rightarrow> sec_index \<Rightarrow> rstring \<Rightarrow> skey option" where
  "composite_value equal s f =
     Option.bind (find (\<lambda>c. cd_field c = f \<and> pattern_covers (si_pattern s) (cd_pattern c)) equal)
       (\<lambda>c. if tagged (cd_value c) = None then skey_from_json (cd_value c) else None)"

definition composite_plan :: "sec_index list \<Rightarrow> expr list \<Rightarrow> key_plan option" where
  "composite_plan secs es =
     (let equal = equal_conds es in
      if length equal < 2 then None
      else find_map (\<lambda>s. map_option (\<lambda>vs.
          let keys = (case om_get (si_map s) (STuple vs) of Some ks \<Rightarrow> map fst ks | None \<Rightarrow> [])
          in \<lparr>ip_keys = keys, ip_used = index_name s, ip_indexes = 1, ip_entries = length keys\<rparr>)
        (all_some (map (composite_value equal s) (split_fields [] (si_field s)))))
        (filter (\<lambda>s. length (si_paths s) > 1 \<and> \<not> si_fold s) secs))"

definition test_plan :: "(rstring \<Rightarrow> rstring) \<Rightarrow> time_env \<Rightarrow> sec_index \<Rightarrow> cond \<Rightarrow> key_plan" where
  "test_plan lower T idx c = (let keys = index_candidates lower T idx c in
     \<lparr>ip_keys = keys, ip_used = index_name idx, ip_indexes = 1, ip_entries = length keys\<rparr>)"

definition USIZE_MAX :: nat where "USIZE_MAX = 2 ^ 64 - 1"

text \<open>The sizes of the indexed parts, each counted up to one more than the smallest known so far.\<close>

fun size_tests :: "(rstring \<Rightarrow> rstring) \<Rightarrow> time_env \<Rightarrow> sec_index list \<Rightarrow> nat \<Rightarrow> (nat \<times> cond) list \<Rightarrow> (nat \<times> nat \<times> cond) list" where
  "size_tests lower T secs best [] = []"
| "size_tests lower T secs best ((i, c) # rest) =
     (let n = count_postings lower T (secs ! i) c (min (best + 1) USIZE_MAX)
      in (n, i, c) # size_tests lower T secs (min best n) rest)"

definition and_tests :: "sec_index list \<Rightarrow> expr list \<Rightarrow> (nat \<times> cond) list" where
  "and_tests secs es = concat (map (\<lambda>e. case e of
     ETest t \<Rightarrow> (case find_index secs (t_cond t) of Some i \<Rightarrow> [(i, t_cond t)] | None \<Rightarrow> []) | _ \<Rightarrow> []) es)"

definition and_whole :: "sec_index list \<Rightarrow> expr list \<Rightarrow> key_plan option list \<Rightarrow> key_plan list" where
  "and_whole secs es subs = sort_key (\<lambda>p. length (ip_keys p))
     (concat (map (\<lambda>(e, p). case e of ETest _ \<Rightarrow> [] | _ \<Rightarrow> (case p of Some x \<Rightarrow> [x] | None \<Rightarrow> [])) (zip es subs)) @
      (case composite_plan secs es of Some x \<Rightarrow> [x] | None \<Rightarrow> []))"

definition merge_and :: "key_plan \<Rightarrow> key_plan \<Rightarrow> key_plan" where
  "merge_and p acc = \<lparr>ip_keys = intersect_sorted (ip_keys acc) (ip_keys p),
     ip_used = ip_used acc @ lit '' and '' @ ip_used p, ip_indexes = ip_indexes acc + ip_indexes p,
     ip_entries = ip_entries acc + ip_entries p\<rparr>"

definition retain_and :: "(rstring \<Rightarrow> rstring) \<Rightarrow> time_env \<Rightarrow> sec_index list \<Rightarrow> nat \<times> nat \<times> cond \<Rightarrow> key_plan \<Rightarrow> key_plan" where
  "retain_and lower T secs t acc = (case t of (_, i, c) \<Rightarrow>
     \<lparr>ip_keys = filter (\<lambda>k. case om_get (si_rev (secs ! i)) k of Some sk \<Rightarrow> admits lower T c sk | None \<Rightarrow> False) (ip_keys acc),
      ip_used = ip_used acc @ lit '' and '' @ index_name (secs ! i), ip_indexes = ip_indexes acc + 1,
      ip_entries = ip_entries acc + length (ip_keys acc)\<rparr>)"

text \<open>\<open>subs\<close> are the plans of the parts.\<close>

definition and_plan :: "(rstring \<Rightarrow> rstring) \<Rightarrow> time_env \<Rightarrow> sec_index list \<Rightarrow> expr list \<Rightarrow> key_plan option list \<Rightarrow> key_plan option" where
  "and_plan lower T secs es subs =
     (let whole = and_whole secs es subs;
          best = (case whole of [] \<Rightarrow> USIZE_MAX | w # _ \<Rightarrow> length (ip_keys w));
          sized = sort_key fst (size_tests lower T secs best (and_tests secs es));
          finish = (\<lambda>acc whole sized. Some (fold (retain_and lower T secs) sized (fold merge_and whole acc)))
      in case (sized, whole) of
           ([], []) \<Rightarrow> None
         | ((n, i, c) # rest, []) \<Rightarrow> finish (test_plan lower T (secs ! i) c) [] rest
         | ([], w # ws) \<Rightarrow> finish w ws []
         | ((n, i, c) # rest, w # ws) \<Rightarrow>
             if n < length (ip_keys w) then finish (test_plan lower T (secs ! i) c) (w # ws) rest
             else finish w ws ((n, i, c) # rest))"

definition merge_or :: "key_plan \<Rightarrow> key_plan \<Rightarrow> key_plan" where
  "merge_or p acc = \<lparr>ip_keys = union_sorted (ip_keys acc) (ip_keys p),
     ip_used = ip_used acc @ lit '' or '' @ ip_used p, ip_indexes = ip_indexes acc + ip_indexes p,
     ip_entries = ip_entries acc + ip_entries p\<rparr>"

definition or_plan :: "key_plan option list \<Rightarrow> key_plan option" where
  "or_plan subs = (case all_some subs of
     Some (p # ps) \<Rightarrow>
       (let acc = fold merge_or ps p in Some (acc\<lparr>ip_used := lit ''('' @ ip_used acc @ lit '')''\<rparr>))
   | _ \<Rightarrow> None)"

fun index_plan :: "(rstring \<Rightarrow> rstring) \<Rightarrow> time_env \<Rightarrow> sec_index list \<Rightarrow> expr \<Rightarrow> key_plan option" where
  "index_plan lower T secs (ETest t) =
     map_option (\<lambda>i. test_plan lower T (secs ! i) (t_cond t)) (find_index secs (t_cond t))"
| "index_plan lower T secs (EAnd es) = and_plan lower T secs es (map (index_plan lower T secs) es)"
| "index_plan lower T secs (EOr es) = or_plan (map (index_plan lower T secs) es)"
| "index_plan lower T secs (ENot e) = None"

end
