(* ===== verification/Ordering.thy ===== *)
theory Ordering
  imports Query
begin

text \<open>
  The order of \<^verbatim>\<open>order by\<close> (\<^verbatim>\<open>src/engine/ordering.rs\<close>): the value a document sorts by, how two rows
  compare, and the rows a limited query keeps while it reads. Positions in texts are those of characters
  where the source looks at bytes, which are the same wherever it finds digits and signs. A
  \<^verbatim>\<open>BinaryHeap\<close> is the list of its rows in order, its top the last; dates of \<^verbatim>\<open>chrono\<close> are numbers of days.
\<close>

record order_env =
  oe_times :: time_env
  oe_time_text :: "nat \<times> nat \<Rightarrow> rstring" \<comment> \<open>\<^verbatim>\<open>%H:%M:%S%.f\<close>\<close>
  oe_instant_text :: "instant \<Rightarrow> rstring" \<comment> \<open>RFC 3339 with nanoseconds, in UTC\<close>
  oe_ymd :: "nat \<Rightarrow> nat \<Rightarrow> nat \<Rightarrow> int option" \<comment> \<open>\<^verbatim>\<open>NaiveDate::from_ymd_opt\<close>\<close>
  oe_date_text :: "int \<Rightarrow> rstring"

subsection \<open>Sort keys\<close>

text \<open>The year of a date text comes back from the date it names.\<close>

definition date_prefix :: "order_env \<Rightarrow> rstring \<Rightarrow> (nat \<times> int) option" where
  "date_prefix O_e s =
     (let b = take 10 s; y = take 4 b; m = take 2 (drop 5 b); d = drop 8 b in
      if length b < 10 \<or> b ! 4 \<noteq> ch CHR ''-'' \<or> b ! 7 \<noteq> ch CHR ''-'' \<or> \<not> list_all is_digit (y @ m @ d) then None
      else map_option (\<lambda>n. (digits_value y, n)) (oe_ymd O_e (digits_value y) (digits_value m) (digits_value d)))"

definition has_offset :: "rstring \<Rightarrow> bool" where
  "has_offset s =
     (let b = rev (trim_str s);
          signed = (\<lambda>n. length b > n \<and> (b ! n = ch CHR ''+'' \<or> b ! n = ch CHR ''-''));
          digits = (\<lambda>ns. list_all (\<lambda>i. is_digit (b ! i)) ns)
      in (b \<noteq> [] \<and> (hd b = ch CHR ''Z'' \<or> hd b = ch CHR ''z'')) \<or> starts_with b (rev (lit '' UTC'')) \<or>
         (signed 5 \<and> b ! 2 = ch CHR '':'' \<and> digits [0, 1] \<and> digits [3, 4]) \<or> (signed 4 \<and> digits [0, 1, 2, 3]))"

definition canonical :: "order_env \<Rightarrow> rstring \<Rightarrow> rstring option" where
  "canonical O_e s =
     (if str_len s \<ge> 5 \<and> length s \<ge> 3 \<and> is_digit (s ! 0) \<and> is_digit (s ! 1) \<and> s ! 2 = ch CHR '':'' then
        map_option (oe_time_text O_e) (te_time (oe_times O_e) s)
      else case date_prefix O_e s of
        None \<Rightarrow> None
      | Some (year, _) \<Rightarrow>
          if year < 1001 \<or> 9998 < year \<or> \<not> has_offset s then None
          else map_option (oe_instant_text O_e) (te_utc (oe_times O_e) s))"

definition sort_key_of :: "order_env \<Rightarrow> skey \<Rightarrow> skey option" where
  "sort_key_of O_e v = (case v of
     SNull \<Rightarrow> None | STuple _ \<Rightarrow> None
   | SStr s \<Rightarrow> Some (SStr (case canonical O_e s of Some t \<Rightarrow> t | None \<Rightarrow> s))
   | _ \<Rightarrow> Some v)"

definition row_key :: "order_env \<Rightarrow> json option \<Rightarrow> skey option" where
  "row_key O_e v = (case v of
     None \<Rightarrow> None
   | Some j \<Rightarrow>
       (case skey_from_json j of
          None \<Rightarrow> None
        | Some (SStr s) \<Rightarrow> Some (SStr (case canonical O_e s of Some t \<Rightarrow> t | None \<Rightarrow> s))
        | Some sk \<Rightarrow> sort_key_of O_e sk))"

definition sort_key_leaf :: "doc_env \<Rightarrow> order_env \<Rightarrow> leaf option \<Rightarrow> skey option" where
  "sort_key_leaf D O_e v = (case v of
     None \<Rightarrow> None
   | Some l \<Rightarrow>
       (case leaf_decimal l of
          Some d \<Rightarrow> Some (SNum (decimal_value d))
        | None \<Rightarrow> row_key O_e (Some (leaf_json D l))))"

definition day_text :: "order_env \<Rightarrow> int \<Rightarrow> int \<Rightarrow> skey" where
  "day_text O_e d days = SStr (oe_date_text O_e (d + days))"

definition may_move :: "rstring \<Rightarrow> bool" where
  "may_move s \<longleftrightarrow> s \<noteq> [] \<and> (is_digit (hd s) \<or> hd s = ch CHR ''+'' \<or> hd s = ch CHR ''-'')"

definition order_floor :: "order_env \<Rightarrow> skey \<Rightarrow> skey option" where
  "order_floor O_e v = (case v of
     SStr s \<Rightarrow> (case date_prefix O_e s of
         Some (_, d) \<Rightarrow> Some (day_text O_e d (- 1))
       | None \<Rightarrow> if may_move s then None else Some v)
   | STuple _ \<Rightarrow> None
   | _ \<Rightarrow> Some v)"

definition order_ceiling :: "order_env \<Rightarrow> skey \<Rightarrow> (skey \<times> bool) option" where
  "order_ceiling O_e v = (case v of
     SStr s \<Rightarrow> (case date_prefix O_e s of
         Some (_, d) \<Rightarrow> Some (day_text O_e d 2, False)
       | None \<Rightarrow> if may_move s then None else Some (v, True))
   | STuple _ \<Rightarrow> None
   | _ \<Rightarrow> Some (v, True))"

definition walk_start :: "order_env \<Rightarrow> skey \<Rightarrow> bool \<Rightarrow> skey option" where
  "walk_start O_e v desc = (case v of
     SStr s \<Rightarrow> (case date_prefix O_e s of
         Some (_, d) \<Rightarrow> Some (day_text O_e d (if desc then 3 else - 3))
       | None \<Rightarrow> if may_move s then (if desc then None else Some (SStr [])) else Some v)
   | STuple _ \<Rightarrow> None
   | _ \<Rightarrow> Some v)"

subsection \<open>Rows\<close>

definition row_compare :: "skey option \<Rightarrow> rstring \<Rightarrow> skey option \<Rightarrow> rstring \<Rightarrow> bool \<Rightarrow> ordering" where
  "row_compare a a_key b b_key desc = (case (a, b) of
     (Some x, Some y) \<Rightarrow> then_ord (if desc then rev_ord (cmp_of x y) else cmp_of x y) (cmp_of a_key b_key)
   | (Some _, None) \<Rightarrow> Less
   | (None, Some _) \<Rightarrow> Greater
   | (None, None) \<Rightarrow> cmp_of a_key b_key)"

record row =
  r_sk :: "skey option"
  r_key :: rstring
  r_doc :: kvalue

definition row_less :: "bool \<Rightarrow> row \<Rightarrow> row \<Rightarrow> bool" where
  "row_less desc a b \<longleftrightarrow> row_compare (r_sk a) (r_key a) (r_sk b) (r_key b) desc = Less"

fun row_insert :: "bool \<Rightarrow> row \<Rightarrow> row list \<Rightarrow> row list" where
  "row_insert desc r [] = [r]"
| "row_insert desc r (x # xs) = (if row_less desc x r then x # row_insert desc r xs else r # x # xs)"

definition row_sort :: "bool \<Rightarrow> row list \<Rightarrow> row list" where
  "row_sort desc rs = foldr (row_insert desc) rs []"

subsection \<open>The rows kept\<close>

record topk =
  tk_limit :: nat
  tk_desc :: bool
  tk_heap :: "row list"
  tk_all :: "row list"
  tk_offered :: nat

definition topk_new :: "nat \<Rightarrow> bool \<Rightarrow> topk" where
  "topk_new limit desc = \<lparr>tk_limit = limit, tk_desc = desc, tk_heap = [], tk_all = [], tk_offered = 0\<rparr>"

definition topk_offer :: "skey option \<Rightarrow> rstring \<Rightarrow> kvalue \<Rightarrow> topk \<Rightarrow> topk" where
  "topk_offer sk key doc t =
     (let t = t\<lparr>tk_offered := tk_offered t + 1\<rparr>; r = \<lparr>r_sk = sk, r_key = key, r_doc = doc\<rparr> in
      if tk_limit t = 0 then t\<lparr>tk_all := tk_all t @ [r]\<rparr>
      else if length (tk_heap t) < tk_limit t then t\<lparr>tk_heap := row_insert (tk_desc t) r (tk_heap t)\<rparr>
      else if tk_heap t \<noteq> [] \<and> row_less (tk_desc t) r (last (tk_heap t)) then
        t\<lparr>tk_heap := row_insert (tk_desc t) r (butlast (tk_heap t))\<rparr>
      else t)"

definition last_kept :: "topk \<Rightarrow> row option" where
  "last_kept t = (if tk_limit t \<noteq> 0 \<and> length (tk_heap t) \<ge> tk_limit t \<and> tk_heap t \<noteq> [] then Some (last (tk_heap t)) else None)"

definition would_keep :: "skey option \<Rightarrow> rstring \<Rightarrow> topk \<Rightarrow> bool" where
  "would_keep sk key t = (case last_kept t of
     None \<Rightarrow> True | Some r \<Rightarrow> row_compare sk key (r_sk r) (r_key r) (tk_desc t) = Less)"

definition topk_len :: "topk \<Rightarrow> nat" where
  "topk_len t = length (tk_heap t) + length (tk_all t)"

definition full_before :: "order_env \<Rightarrow> skey \<Rightarrow> topk \<Rightarrow> bool" where
  "full_before O_e v t = (case last_kept t of
     None \<Rightarrow> False
   | Some r \<Rightarrow>
       (case r_sk r of
          None \<Rightarrow> False
        | Some last_sk \<Rightarrow>
            if tk_desc t then (case order_ceiling O_e v of
                Some (c, True) \<Rightarrow> c < last_sk | Some (c, False) \<Rightarrow> c \<le> last_sk | None \<Rightarrow> False)
            else (case order_floor O_e v of Some f \<Rightarrow> f > last_sk | None \<Rightarrow> False)))"

definition into_sorted :: "topk \<Rightarrow> row list" where
  "into_sorted t = row_sort (tk_desc t) (if tk_limit t = 0 then tk_all t else tk_heap t)"

end
