(* ===== verification/RunQuery.thy ===== *)
theory RunQuery
  imports Plan Ordering
begin

text \<open>
  Running a query (\<^verbatim>\<open>run_query\<close> of \<^verbatim>\<open>src/engine.rs\<close>): the choice between the keys of the indexes, the keys
  of the pattern's prefix and a walk of an index in order; the reading of documents, some keys at a time,
  with the counts of what it did; and the order of the rows. The square root of a float, by which the
  choice weighs two strategies, is a parameter, and the times measured are left out. A loop that reads
  in pieces has fuel; \<open>None\<close> is a loop that has not ended, which never happens.
\<close>

record query_env =
  qe_engine :: engine_env
  qe_order :: order_env
  qe_sqrt :: "nat \<Rightarrow> nat" \<comment> \<open>\<^verbatim>\<open>(x as f64).sqrt() as u128\<close>\<close>

abbreviation qe_docs :: "query_env \<Rightarrow> doc_env" where
  "qe_docs Q \<equiv> vl_env (ee_values (qe_engine Q))"

abbreviation qe_lower :: "query_env \<Rightarrow> rstring \<Rightarrow> rstring" where
  "qe_lower Q \<equiv> env_lower (qe_docs Q)"

abbreviation qe_times :: "query_env \<Rightarrow> time_env" where
  "qe_times Q \<equiv> oe_times (qe_order Q)"

record read_order =
  ro_field :: rstring
  ro_path :: "seg list"
  ro_desc :: bool

record read_opts =
  rd_limit :: nat
  rd_order :: "read_order option"
  rd_after :: "rstring option"
  rd_reverse :: bool

record plan =
  pl_strategy :: string
  pl_index :: "rstring option"
  pl_candidates :: nat
  pl_total_keys :: nat
  pl_order :: "rstring option"

record measured =
  me_index_entries :: nat
  me_keys_examined :: nat
  me_docs_read :: nat
  me_from_cache :: nat
  me_filtered_out :: nat
  me_returned :: nat
  me_sorted :: nat

definition measured_new :: "nat \<Rightarrow> measured" where
  "measured_new entries = \<lparr>me_index_entries = entries, me_keys_examined = 0, me_docs_read = 0, me_from_cache = 0,
     me_filtered_out = 0, me_returned = 0, me_sorted = 0\<rparr>"

definition order_new :: "rstring \<Rightarrow> bool \<Rightarrow> string + read_order" where
  "order_new f desc = try_bind (check_field f) (\<lambda>_. try_bind (parse_path f) (\<lambda>path.
     Inr \<lparr>ro_field = f, ro_path = path, ro_desc = desc\<rparr>))"

definition order_describe :: "read_order \<Rightarrow> rstring" where
  "order_describe o_r = ro_field o_r @ (if ro_desc o_r then lit '' desc'' else lit '' asc'')"

definition order_key_of :: "query_env \<Rightarrow> read_order \<Rightarrow> kvalue \<Rightarrow> skey option" where
  "order_key_of Q o_r doc = (case doc_view_of doc of
     None \<Rightarrow> None | Some d \<Rightarrow> sort_key_leaf (qe_docs Q) (qe_order Q) (view_get d (ro_path o_r)))"

subsection \<open>Probes\<close>

datatype probe = PAny | PTest nat cond | PAnd "probe list" | POr "probe list"

fun passes :: "query_env \<Rightarrow> sec_index list \<Rightarrow> rstring \<Rightarrow> probe \<Rightarrow> nat \<Rightarrow> bool \<times> nat"
  and passes_all :: "query_env \<Rightarrow> sec_index list \<Rightarrow> rstring \<Rightarrow> probe list \<Rightarrow> nat \<Rightarrow> bool \<times> nat"
  and passes_any :: "query_env \<Rightarrow> sec_index list \<Rightarrow> rstring \<Rightarrow> probe list \<Rightarrow> nat \<Rightarrow> bool \<times> nat" where
  "passes Q secs key PAny n = (True, n)"
| "passes Q secs key (PTest i c) n =
     ((case om_get (si_rev (secs ! i)) key of Some sk \<Rightarrow> admits (qe_lower Q) (qe_times Q) c sk | None \<Rightarrow> False), n + 1)"
| "passes Q secs key (PAnd ps) n = passes_all Q secs key ps n"
| "passes Q secs key (POr ps) n = passes_any Q secs key ps n"
| "passes_all Q secs key [] n = (True, n)"
| "passes_all Q secs key (p # ps) n =
     (case passes Q secs key p n of (b, n) \<Rightarrow> if b then passes_all Q secs key ps n else (False, n))"
| "passes_any Q secs key [] n = (False, n)"
| "passes_any Q secs key (p # ps) n =
     (case passes Q secs key p n of (b, n) \<Rightarrow> if b then (True, n) else passes_any Q secs key ps n)"

fun join_texts :: "rstring \<Rightarrow> rstring list \<Rightarrow> rstring" where
  "join_texts sep [] = []"
| "join_texts sep [x] = x"
| "join_texts sep (x # y # ys) = x @ sep @ join_texts sep (y # ys)"

fun probe_describe :: "sec_index list \<Rightarrow> probe \<Rightarrow> rstring option" where
  "probe_describe secs PAny = None"
| "probe_describe secs (PTest i c) = Some (index_name (secs ! i))"
| "probe_describe secs (PAnd ps) =
     (if length ps = 1 then hd (map (probe_describe secs) ps)
      else Some (lit ''('' @ join_texts (lit '' and '') (map the (filter (\<lambda>x. x \<noteq> None) (map (probe_describe secs) ps))) @ lit '')''))"
| "probe_describe secs (POr ps) =
     Some (lit ''('' @ join_texts (lit '' or '') (map the (filter (\<lambda>x. x \<noteq> None) (map (probe_describe secs) ps))) @ lit '')'')"

fun probe_of :: "sec_index list \<Rightarrow> expr \<Rightarrow> probe" where
  "probe_of secs (ETest t) = (case find_index secs (t_cond t) of Some i \<Rightarrow> PTest i (t_cond t) | None \<Rightarrow> PAny)"
| "probe_of secs (EAnd es) =
     (let ps = filter (\<lambda>p. p \<noteq> PAny) (map (probe_of secs) es) in if ps = [] then PAny else PAnd ps)"
| "probe_of secs (EOr es) =
     (let ps = map (probe_of secs) es in if list_ex (\<lambda>p. p = PAny) ps then PAny else POr ps)"
| "probe_of secs (ENot e) = PAny"

subsection \<open>Where the documents come from\<close>

datatype source = SKeys "rstring list" | SPrefix | SWalk nat probe

record chosen =
  ch_source :: source
  ch_plan :: plan
  ch_entries :: nat

fun estimate :: "query_env \<Rightarrow> sec_index list \<Rightarrow> nat \<Rightarrow> expr \<Rightarrow> nat option" where
  "estimate Q secs cap (ETest t) =
     map_option (\<lambda>i. count_postings (qe_lower Q) (qe_times Q) (secs ! i) (t_cond t) cap) (find_index secs (t_cond t))"
| "estimate Q secs cap (EAnd es) =
     (case map the (filter (\<lambda>x. x \<noteq> None) (map (estimate Q secs cap) es)) of [] \<Rightarrow> None | n # ns \<Rightarrow> Some (fold min ns n))"
| "estimate Q secs cap (EOr es) =
     map_option (\<lambda>ns. min (sum_list ns) cap) (all_some (map (estimate Q secs cap) es))"
| "estimate Q secs cap (ENot e) = None"

definition order_index :: "sec_index list \<Rightarrow> rstring \<Rightarrow> read_order \<Rightarrow> nat option" where
  "order_index secs pattern o_r =
     first_pos (\<lambda>s. si_kind s = BTree \<and> length (si_paths s) = 1 \<and> \<not> si_fold s \<and> si_field s = ro_field o_r \<and>
       pattern_covers (si_pattern s) pattern) secs"

definition scan_strategy :: "rstring \<Rightarrow> string" where
  "scan_strategy pattern = (if glob_prefix pattern = [] then ''FULL SCAN'' else ''PREFIX SCAN'')"

definition scan_plan :: "rstring \<Rightarrow> inner \<Rightarrow> plan" where
  "scan_plan pattern s =
     (let prefix = glob_prefix pattern in
      \<lparr>pl_strategy = scan_strategy pattern, pl_index = None,
       pl_candidates = length (takeWhile (\<lambda>kv. starts_with (fst kv) prefix) (om_from prefix (i_index s))),
       pl_total_keys = length (i_index s), pl_order = None\<rparr>)"

definition key_plan_show :: "key_plan \<Rightarrow> nat \<Rightarrow> plan" where
  "key_plan_show p total_keys =
     \<lparr>pl_strategy = (if ip_indexes p > 1 then ''INDEX MERGE'' else ''INDEX SCAN''), pl_index = Some (ip_used p),
      pl_candidates = length (ip_keys p), pl_total_keys = total_keys, pl_order = None\<rparr>"

text \<open>Whether reading the order index is cheaper than reading the candidates.\<close>

definition choose_walk :: "query_env \<Rightarrow> query \<Rightarrow> read_opts \<Rightarrow> inner \<Rightarrow> chosen option" where
  "choose_walk Q q opts s = (case rd_order opts of
     None \<Rightarrow> None
   | Some o_r \<Rightarrow>
       if rd_limit opts = 0 then None
       else (case order_index (i_sec s) (q_pattern q) o_r of
           None \<Rightarrow> None
         | Some oi \<Rightarrow>
             (let n = length (si_rev (i_sec s ! oi)); l = rd_limit opts;
                  enough = l + qe_sqrt Q (l * n div 32) + 2;
                  c = Option.bind (q_expr q) (estimate Q (i_sec s) enough)
              in if (case c of None \<Rightarrow> True | Some c \<Rightarrow> l + l * n div (32 * max c 1) < c) then
                   (let pr = (case q_expr q of None \<Rightarrow> PAny | Some e \<Rightarrow> probe_of (i_sec s) e);
                        nm = index_name (i_sec s ! oi);
                        nm = (case probe_describe (i_sec s) pr of
                            Some f \<Rightarrow> nm @ lit '' for the order, '' @ f @ lit '' checked for the filter'' | None \<Rightarrow> nm)
                    in Some \<lparr>ch_source = SWalk oi pr,
                         ch_plan = \<lparr>pl_strategy = ''INDEX ORDER SCAN'', pl_index = Some nm,
                           pl_candidates = (case c of None \<Rightarrow> n | Some c \<Rightarrow> min (l * n div max c 1) n),
                           pl_total_keys = length (i_index s),
                           pl_order = Some (order_describe o_r @ lit '', read in the order of the index: stops after '' @ show_nat l)\<rparr>,
                         ch_entries = 0\<rparr>)
                 else None)))"

definition choose_source :: "query_env \<Rightarrow> query \<Rightarrow> read_opts \<Rightarrow> bool \<Rightarrow> inner \<Rightarrow> chosen" where
  "choose_source Q q opts counted s = (case choose_walk Q q opts s of
     Some c \<Rightarrow> c
   | None \<Rightarrow>
       (let listed = Option.bind (q_expr q) (index_plan (qe_lower Q) (qe_times Q) (i_sec s));
            entries = (case listed of Some p \<Rightarrow> ip_entries p | None \<Rightarrow> 0);
            (src, pl) = (case listed of
                Some p \<Rightarrow> (SKeys (ip_keys p), key_plan_show p (length (i_index s)))
              | None \<Rightarrow>
                  if counted then (SPrefix, scan_plan (q_pattern q) s)
                  else (SPrefix, \<lparr>pl_strategy = scan_strategy (q_pattern q), pl_index = None, pl_candidates = 0,
                      pl_total_keys = length (i_index s), pl_order = None\<rparr>));
            pl = (case rd_order opts of
                None \<Rightarrow> pl
              | Some o_r \<Rightarrow> pl\<lparr>pl_order := Some (order_describe o_r @ (if rd_limit opts = 0 then lit '', sorted in memory''
                  else lit '', sorted in memory (the first '' @ show_nat (rd_limit opts) @ lit '' kept while reading)''))\<rparr>)
        in \<lparr>ch_source = src, ch_plan = pl, ch_entries = entries\<rparr>))"

subsection \<open>Reading documents\<close>

definition examine :: "query_env \<Rightarrow> query \<Rightarrow> int \<Rightarrow> rstring \<Rightarrow> measured \<Rightarrow> inner \<Rightarrow> (kiva_error + kvalue option) \<times> measured \<times> inner" where
  "examine Q q now key m s =
     (let m = m\<lparr>me_keys_examined := me_keys_examined m + 1\<rparr> in
      if \<not> glob_match (q_pattern q) key then (Inr None, m, s)
      else case live now key s of
        (None, s) \<Rightarrow> (Inr None, m, s)
      | (Some e, s) \<Rightarrow>
          if \<not> is_doc (e_ty e) then (Inr None, m, s)
          else (let m = m\<lparr>me_docs_read := me_docs_read m + 1\<rparr>;
                    m = (if fst (cache_get key (e_version e) (i_cache s)) \<noteq> None then m\<lparr>me_from_cache := me_from_cache m + 1\<rparr> else m)
            in case value_of (qe_engine Q) key e s of
                 (Inl err, s) \<Rightarrow> (Inl err, m, s)
               | (Inr v, s) \<Rightarrow>
                   (case doc_view_of v of
                      None \<Rightarrow> (Inr None, m, s)
                    | Some d \<Rightarrow>
                        if query_matches (qe_docs Q) (qe_times Q) q d then (Inr (Some v), m, s)
                        else (Inr None, m\<lparr>me_filtered_out := me_filtered_out m + 1\<rparr>, s))))"

definition CHUNK :: nat where "CHUNK = 256"

text \<open>The next scalar value after a character: there are none between \<open>D800\<close> and \<open>DFFF\<close>, and none after \<open>10FFFF\<close>.\<close>

definition next_char :: "rchar \<Rightarrow> rchar option" where
  "next_char c = (if c \<ge> 0x10FFFF then None else if 0xD7FF \<le> c \<and> c < 0xDFFF then Some 0xE000 else Some (c + 1))"

fun successor_loop :: "rstring \<Rightarrow> rstring option" where
  "successor_loop [] = None"
| "successor_loop (c # cs) = (case next_char c of Some n \<Rightarrow> Some (rev (n # cs)) | None \<Rightarrow> successor_loop cs)"

definition prefix_successor :: "rstring \<Rightarrow> rstring option" where
  "prefix_successor prefix = successor_loop (rev prefix)"

definition prefix_chunk :: "rstring \<Rightarrow> rstring option \<Rightarrow> bool \<Rightarrow> inner \<Rightarrow> rstring list" where
  "prefix_chunk pattern from reverse s =
     (let prefix = glob_prefix pattern; ours = (\<lambda>k. starts_with k prefix); keys = map fst (i_index s) in
      if reverse then
        (if (case from of Some f \<Rightarrow> f \<le> prefix | None \<Rightarrow> False) then []
         else (let hi = (case (from, prefix_successor prefix) of
                   (Some f, Some e) \<Rightarrow> Some (if e < f then e else f)
                 | (Some f, None) \<Rightarrow> Some f
                 | (None, Some e) \<Rightarrow> Some e
                 | (None, None) \<Rightarrow> None)
           in take CHUNK (takeWhile ours (rev (filter (\<lambda>k. prefix \<le> k \<and> (case hi of Some h \<Rightarrow> k < h | None \<Rightarrow> True)) keys)))))
      else
        take CHUNK (takeWhile ours (filter (\<lambda>k. case from of
            Some f \<Rightarrow> if f \<ge> prefix then f < k else prefix \<le> k
          | None \<Rightarrow> prefix \<le> k) keys)))"

text \<open>Handing a row out; the answer is whether more rows are wanted.\<close>

definition emit_row :: "('a \<Rightarrow> rstring \<Rightarrow> kvalue \<Rightarrow> (string + unit) \<times> 'a) \<Rightarrow> nat \<Rightarrow> rstring \<Rightarrow> kvalue \<Rightarrow> measured \<times> 'a \<Rightarrow>
    (kiva_error + bool) \<times> measured \<times> 'a" where
  "emit_row f limit key doc ma = (case f (snd ma) key doc of
     (Inl why, a) \<Rightarrow> (Inl (Invalid why), fst ma, a)
   | (Inr _, a) \<Rightarrow>
       (let m = (fst ma)\<lparr>me_returned := me_returned (fst ma) + 1\<rparr> in (Inr (limit = 0 \<or> me_returned m < limit), m, a)))"

type_synonym 'a reading = "measured \<times> 'a \<times> inner"

text \<open>Some keys in turn, each document handed out as it is read; \<open>False\<close>: the limit was reached.\<close>

fun read_keys :: "query_env \<Rightarrow> query \<Rightarrow> int \<Rightarrow> nat \<Rightarrow> ('a \<Rightarrow> rstring \<Rightarrow> kvalue \<Rightarrow> (string + unit) \<times> 'a) \<Rightarrow> rstring list \<Rightarrow>
    'a reading \<Rightarrow> (kiva_error + bool) \<times> 'a reading" where
  "read_keys Q q now limit f [] (m, a, s) = (Inr True, m, a, s)"
| "read_keys Q q now limit f (k # ks) (m, a, s) = (case examine Q q now k m s of
     (Inl err, m, s) \<Rightarrow> (Inl err, m, a, s)
   | (Inr None, m, s) \<Rightarrow> read_keys Q q now limit f ks (m, a, s)
   | (Inr (Some doc), m, s) \<Rightarrow>
       (case emit_row f limit k doc (m, a) of
          (Inl err, m, a) \<Rightarrow> (Inl err, m, a, s)
        | (Inr go, m, a) \<Rightarrow> if go then read_keys Q q now limit f ks (m, a, s) else (Inr False, m, a, s)))"

text \<open>A loop over the pieces of a prefix, \<open>step\<close> reading the keys of one.\<close>

fun prefix_loop :: "nat \<Rightarrow> rstring \<Rightarrow> bool \<Rightarrow> (rstring list \<Rightarrow> 'a reading \<Rightarrow> (kiva_error + bool) \<times> 'a reading) \<Rightarrow>
    rstring option \<Rightarrow> 'a reading \<Rightarrow> ((kiva_error + unit) \<times> 'a reading) option" where
  "prefix_loop 0 pattern reverse step from st = None"
| "prefix_loop (Suc n) pattern reverse step from st =
     (let chunk = prefix_chunk pattern from reverse (snd (snd st)) in
      if chunk = [] then Some (Inr (), st)
      else case step chunk st of
        (Inl err, st) \<Rightarrow> Some (Inl err, st)
      | (Inr go, st) \<Rightarrow> if go then prefix_loop n pattern reverse step (Some (last chunk)) st else Some (Inr (), st))"

definition page_keys :: "rstring option \<Rightarrow> bool \<Rightarrow> rstring list \<Rightarrow> rstring list" where
  "page_keys after reverse keys = (case after of
     Some a \<Rightarrow> if reverse then takeWhile (\<lambda>k. k < a) keys else dropWhile (\<lambda>k. k \<le> a) keys
   | None \<Rightarrow> keys)"

definition run_in_key_order :: "query_env \<Rightarrow> query \<Rightarrow> read_opts \<Rightarrow> int \<Rightarrow> ('a \<Rightarrow> rstring \<Rightarrow> kvalue \<Rightarrow> (string + unit) \<times> 'a) \<Rightarrow>
    source \<Rightarrow> 'a reading \<Rightarrow> ((kiva_error + unit) \<times> 'a reading) option" where
  "run_in_key_order Q q opts now f src st = (case src of
     SKeys keys \<Rightarrow>
       (let keys = page_keys (rd_after opts) (rd_reverse opts) keys;
            keys = (if rd_reverse opts then rev keys else keys)
        in Some (case read_keys Q q now (rd_limit opts) f keys st of (r, st) \<Rightarrow> (map_sum id (\<lambda>_. ()) r, st)))
   | SPrefix \<Rightarrow>
       prefix_loop (Suc (length (i_index (snd (snd st))))) (q_pattern q) (rd_reverse opts)
         (read_keys Q q now (rd_limit opts) f) (rd_after opts) st
   | SWalk _ _ \<Rightarrow> Some (Inl (Other ''panic''), st))"

subsection \<open>Reading in an order\<close>

type_synonym mark = "skey option \<times> rstring"

definition follows :: "read_order \<Rightarrow> mark option \<Rightarrow> skey option \<Rightarrow> rstring \<Rightarrow> bool" where
  "follows o_r after sk key = (case after of
     None \<Rightarrow> True | Some (a, ak) \<Rightarrow> row_compare sk key a ak (ro_desc o_r) = Greater)"

fun offer_keys :: "query_env \<Rightarrow> query \<Rightarrow> int \<Rightarrow> read_order \<Rightarrow> mark option \<Rightarrow> rstring list \<Rightarrow> topk reading \<Rightarrow>
    (kiva_error + bool) \<times> topk reading" where
  "offer_keys Q q now o_r after [] (m, tk, s) = (Inr True, m, tk, s)"
| "offer_keys Q q now o_r after (k # ks) (m, tk, s) = (case examine Q q now k m s of
     (Inl err, m, s) \<Rightarrow> (Inl err, m, tk, s)
   | (Inr None, m, s) \<Rightarrow> offer_keys Q q now o_r after ks (m, tk, s)
   | (Inr (Some doc), m, s) \<Rightarrow>
       (let sk = order_key_of Q o_r doc in
        offer_keys Q q now o_r after ks (m, if follows o_r after sk k then topk_offer sk k doc tk else tk, s)))"

text \<open>The next entries of a B-tree in the order of its values, nulls left out; \<open>n\<close> keys were taken so far.\<close>

fun walk_take :: "(skey \<times> rstring option) option \<Rightarrow> nat \<Rightarrow> (skey \<times> rstring oset) list \<Rightarrow> (skey \<times> rstring list) list" where
  "walk_take from n [] = []"
| "walk_take from n ((v, ks) # rest) =
     (if v = SNull then walk_take from n rest
      else (let ks = map fst ks;
                ks = (case from of Some (fv, Some k) \<Rightarrow> if fv = v then filter (\<lambda>x. k < x) ks else ks | _ \<Rightarrow> ks);
                ks = take (CHUNK - n) ks;
                out = (if ks = [] then [] else [(v, ks)])
        in if n + length ks < CHUNK then out @ walk_take from (n + length ks) rest else out))"

definition walk_chunk :: "sec_index \<Rightarrow> (skey \<times> rstring option) option \<Rightarrow> bool \<Rightarrow> (skey \<times> rstring list) list" where
  "walk_chunk idx from desc =
     (if si_kind idx \<noteq> BTree then []
      else walk_take from 0 (case from of
          None \<Rightarrow> if desc then rev (si_map idx) else si_map idx
        | Some (v, _) \<Rightarrow> if desc then rev (filter (\<lambda>x. fst x \<le> v) (si_map idx)) else om_from v (si_map idx)))"

fun walk_keys :: "query_env \<Rightarrow> query \<Rightarrow> int \<Rightarrow> read_order \<Rightarrow> mark option \<Rightarrow> probe \<Rightarrow> skey \<Rightarrow> rstring list \<Rightarrow> topk reading \<Rightarrow>
    (kiva_error + unit) \<times> topk reading" where
  "walk_keys Q q now o_r after pr v [] (m, tk, s) = (Inr (), m, tk, s)"
| "walk_keys Q q now o_r after pr v (k # ks) (m, tk, s) =
     (case passes Q (i_sec s) k pr (me_index_entries m + 1) of (ok, n) \<Rightarrow>
      let m = m\<lparr>me_index_entries := n\<rparr>; sk = sort_key_of (qe_order Q) v in
      if \<not> ok \<or> \<not> follows o_r after sk k \<or> \<not> would_keep sk k tk then walk_keys Q q now o_r after pr v ks (m, tk, s)
      else case examine Q q now k m s of
        (Inl err, m, s) \<Rightarrow> (Inl err, m, tk, s)
      | (Inr None, m, s) \<Rightarrow> walk_keys Q q now o_r after pr v ks (m, tk, s)
      | (Inr (Some doc), m, s) \<Rightarrow> walk_keys Q q now o_r after pr v ks (m, topk_offer sk k doc tk, s))"

text \<open>The entries of one piece; \<open>False\<close>: no entry to come can be kept.\<close>

fun walk_entries :: "query_env \<Rightarrow> query \<Rightarrow> int \<Rightarrow> read_order \<Rightarrow> mark option \<Rightarrow> probe \<Rightarrow> (skey \<times> rstring list) list \<Rightarrow> topk reading \<Rightarrow>
    (kiva_error + bool) \<times> topk reading" where
  "walk_entries Q q now o_r after pr [] st = (Inr True, st)"
| "walk_entries Q q now o_r after pr ((v, ks) # rest) st =
     (if full_before (qe_order Q) v (fst (snd st)) then (Inr False, st)
      else case walk_keys Q q now o_r after pr v ks st of
        (Inl err, st) \<Rightarrow> (Inl err, st)
      | (Inr _, st) \<Rightarrow> walk_entries Q q now o_r after pr rest st)"

fun walk_loop :: "nat \<Rightarrow> query_env \<Rightarrow> query \<Rightarrow> int \<Rightarrow> read_order \<Rightarrow> mark option \<Rightarrow> nat \<Rightarrow> probe \<Rightarrow> (skey \<times> rstring option) option \<Rightarrow>
    topk reading \<Rightarrow> ((kiva_error + unit) \<times> topk reading) option" where
  "walk_loop 0 Q q now o_r after oi pr from st = None"
| "walk_loop (Suc n) Q q now o_r after oi pr from st =
     (let chunk = walk_chunk (i_sec (snd (snd st)) ! oi) from (ro_desc o_r) in
      if chunk = [] then Some (Inr (), st)
      else case walk_entries Q q now o_r after pr chunk st of
        (Inl err, st) \<Rightarrow> Some (Inl err, st)
      | (Inr go, st) \<Rightarrow>
          if go then walk_loop n Q q now o_r after oi pr (Some (fst (last chunk), Some (last (snd (last chunk))))) st
          else Some (Inr (), st))"

text \<open>The documents without a value, in key order; \<open>False\<close>: enough rows are kept.\<close>

fun tail_keys :: "query_env \<Rightarrow> query \<Rightarrow> int \<Rightarrow> read_order \<Rightarrow> mark option \<Rightarrow> nat \<Rightarrow> nat \<Rightarrow> probe \<Rightarrow> rstring list \<Rightarrow> topk reading \<Rightarrow>
    (kiva_error + bool) \<times> topk reading" where
  "tail_keys Q q now o_r after limit oi pr [] (m, tk, s) = (Inr (topk_len tk < limit), m, tk, s)"
| "tail_keys Q q now o_r after limit oi pr (k # ks) (m, tk, s) =
     (if topk_len tk \<ge> limit then (Inr False, m, tk, s)
      else if (case om_get (si_rev (i_sec s ! oi)) k of Some sk \<Rightarrow> sk \<noteq> SNull | None \<Rightarrow> False) then
        tail_keys Q q now o_r after limit oi pr ks (m, tk, s)
      else case passes Q (i_sec s) k pr (me_index_entries m) of (ok, n) \<Rightarrow>
        let m = m\<lparr>me_index_entries := n\<rparr> in
        if \<not> ok then tail_keys Q q now o_r after limit oi pr ks (m, tk, s)
        else case examine Q q now k m s of
          (Inl err, m, s) \<Rightarrow> (Inl err, m, tk, s)
        | (Inr None, m, s) \<Rightarrow> tail_keys Q q now o_r after limit oi pr ks (m, tk, s)
        | (Inr (Some doc), m, s) \<Rightarrow>
            (let sk = order_key_of Q o_r doc in
             tail_keys Q q now o_r after limit oi pr ks
               (m, if sk = None \<and> follows o_r after sk k then topk_offer sk k doc tk else tk, s)))"

definition run_walk :: "query_env \<Rightarrow> query \<Rightarrow> read_opts \<Rightarrow> int \<Rightarrow> read_order \<Rightarrow> mark option \<Rightarrow> nat \<Rightarrow> probe \<Rightarrow> topk reading \<Rightarrow>
    ((kiva_error + unit) \<times> topk reading) option" where
  "run_walk Q q opts now o_r after oi pr st =
     (let from = (case after of
            Some (Some sk, _) \<Rightarrow> map_option (\<lambda>v. (v, None)) (walk_start (qe_order Q) sk (ro_desc o_r)) | _ \<Rightarrow> None);
          first = (case after of
            Some (None, _) \<Rightarrow> Some (Inr (), st)
          | _ \<Rightarrow> walk_loop (Suc (length (si_rev (i_sec (snd (snd st)) ! oi)))) Q q now o_r after oi pr from st)
      in case first of
        Some (Inr _, st) \<Rightarrow>
          if topk_len (fst (snd st)) < rd_limit opts then
            prefix_loop (Suc (length (i_index (snd (snd st))))) (q_pattern q) False
              (tail_keys Q q now o_r after (rd_limit opts) oi pr)
              (case after of Some (None, k) \<Rightarrow> Some k | _ \<Rightarrow> None) st
          else Some (Inr (), st)
      | r \<Rightarrow> r)"

definition run_ordered :: "query_env \<Rightarrow> query \<Rightarrow> read_opts \<Rightarrow> int \<Rightarrow> read_order \<Rightarrow> mark option \<Rightarrow> source \<Rightarrow> topk reading \<Rightarrow>
    ((kiva_error + unit) \<times> topk reading) option" where
  "run_ordered Q q opts now o_r after src st = (case src of
     SKeys keys \<Rightarrow> Some (case offer_keys Q q now o_r after keys st of (r, st) \<Rightarrow> (map_sum id (\<lambda>_. ()) r, st))
   | SPrefix \<Rightarrow> prefix_loop (Suc (length (i_index (snd (snd st))))) (q_pattern q) False (offer_keys Q q now o_r after) None st
   | SWalk oi pr \<Rightarrow> run_walk Q q opts now o_r after oi pr st)"

text \<open>The place of the row the page goes on after.\<close>

definition after_mark :: "query_env \<Rightarrow> int \<Rightarrow> read_order \<Rightarrow> rstring option \<Rightarrow> inner \<Rightarrow> (kiva_error + mark option) \<times> inner" where
  "after_mark Q now o_r after s = (case after of
     None \<Rightarrow> (Inr None, s)
   | Some k \<Rightarrow>
       (case examine Q \<lparr>q_pattern = lit ''*'', q_expr = None\<rparr> now k (measured_new 0) s of
          (Inl err, _, s) \<Rightarrow> (Inl err, s)
        | (Inr None, _, s) \<Rightarrow> (Inl (Invalid ''after: no such document''), s)
        | (Inr (Some doc), _, s) \<Rightarrow> (Inr (Some (order_key_of Q o_r doc, k)), s)))"

fun emit_rows :: "('a \<Rightarrow> rstring \<Rightarrow> kvalue \<Rightarrow> (string + unit) \<times> 'a) \<Rightarrow> nat \<Rightarrow> row list \<Rightarrow> measured \<times> 'a \<Rightarrow> (kiva_error + unit) \<times> measured \<times> 'a" where
  "emit_rows f limit [] ma = (Inr (), ma)"
| "emit_rows f limit (r # rs) ma = (case emit_row f limit (r_key r) (r_doc r) ma of
     (Inl err, ma) \<Rightarrow> (Inl err, ma)
   | (Inr go, ma) \<Rightarrow> if go then emit_rows f limit rs ma else (Inr (), ma))"

definition run_query :: "query_env \<Rightarrow> query \<Rightarrow> read_opts \<Rightarrow> bool \<Rightarrow> int \<Rightarrow> ('a \<Rightarrow> rstring \<Rightarrow> kvalue \<Rightarrow> (string + unit) \<times> 'a) \<Rightarrow> 'a \<Rightarrow> inner \<Rightarrow>
    ((kiva_error + plan \<times> measured) \<times> 'a \<times> inner) option" where
  "run_query Q q opts counted now f a s =
     (let cho = choose_source Q q opts counted s; m = measured_new (ch_entries cho) in
      case rd_order opts of
        None \<Rightarrow> map_option (\<lambda>(r, m, a, s). (map_sum id (\<lambda>_. (ch_plan cho, m)) r, a, s))
            (run_in_key_order Q q opts now f (ch_source cho) (m, a, s))
      | Some o_r \<Rightarrow>
          if rd_reverse opts then Some (Inl (Invalid ''with order by, say desc rather than reverse''), a, s)
          else (case after_mark Q now o_r (rd_after opts) s of
              (Inl err, s) \<Rightarrow> Some (Inl err, a, s)
            | (Inr after, s) \<Rightarrow>
                (case run_ordered Q q opts now o_r after (ch_source cho) (m, topk_new (rd_limit opts) (ro_desc o_r), s) of
                   None \<Rightarrow> None
                 | Some (Inl err, _, _, s) \<Rightarrow> Some (Inl err, a, s)
                 | Some (Inr _, m, tk, s) \<Rightarrow>
                     (case emit_rows f (rd_limit opts) (into_sorted tk) (m\<lparr>me_sorted := tk_offered tk\<rparr>, a) of
                        (Inl err, _, a) \<Rightarrow> Some (Inl err, a, s)
                      | (Inr _, m, a) \<Rightarrow> Some (Inr (ch_plan cho, m), a, s)))))"

text \<open>\<^verbatim>\<open>query_expr\<close>: the documents as plain JSON.\<close>

definition push_json :: "value_lib \<Rightarrow> (rstring \<times> json) list \<Rightarrow> rstring \<Rightarrow> kvalue \<Rightarrow> (string + unit) \<times> (rstring \<times> json) list" where
  "push_json V rows key v = (Inr (), rows @ [(key, or_default JNull (json_doc V v))])"

end
