(* ===== verification/Narrow.thy ===== *)
theory Narrow
  imports Plan Safety
begin

text \<open>
  An index only narrows the reading of a query: the keys of a plan include every key whose document the
  query selects, and the keys an index lists for a comparison are exactly those whose indexed value it
  admits.
\<close>

subsection \<open>Order of index keys\<close>

fun skey_rank :: "skey \<Rightarrow> nat" where
  "skey_rank SNull = 0" | "skey_rank (SBool _) = 1" | "skey_rank (SNum _) = 2" | "skey_rank (SStr _) = 3"
| "skey_rank (STuple _) = 4"

lemma same_kind_rank: "same_kind a b \<longleftrightarrow> skey_rank a = skey_rank b"
  by (cases a; cases b) (simp_all add: same_kind_def)

lemma skey_rank_mono: "a \<le> b \<Longrightarrow> skey_rank a \<le> skey_rank b"
  by (cases a; cases b) (simp_all add: less_eq_skey_def less_prod_def less_eq_prod_def)

lemma kind_between: "a \<le> b \<Longrightarrow> b \<le> c \<Longrightarrow> same_kind a c \<Longrightarrow> same_kind b c \<and> same_kind a b"
  using skey_rank_mono [of a b] skey_rank_mono [of b c] by (simp add: same_kind_rank)

lemma same_kind_sym: "same_kind a b = same_kind b a"
  by (auto simp: same_kind_rank)

lemma skey_le_iff [simp]:
  "SBool b \<le> SBool c \<longleftrightarrow> b \<le> c" "SNum r \<le> SNum q \<longleftrightarrow> r \<le> q" "SStr s \<le> SStr t \<longleftrightarrow> s \<le> t"
  "SBool b < SBool c \<longleftrightarrow> b < c" "SNum r < SNum q \<longleftrightarrow> r < q" "SStr s < SStr t \<longleftrightarrow> s < t"
  by (auto simp: less_eq_skey_def less_skey_def less_prod_def less_eq_prod_def)

lemma takeWhile_closed: "sorted_wrt (\<lambda>x y. P y \<longrightarrow> P x) xs \<Longrightarrow> takeWhile P xs = filter P xs"
  by (induction xs) (auto simp: filter_empty_conv)

lemma om_ok_sorted_wrt: "om_ok m \<Longrightarrow> sorted_wrt (\<lambda>x y. fst x < fst y) m"
  by (simp add: om_ok_def sorted_wrt_map)

subsection \<open>The sets an index visits\<close>

definition lists_key :: "rstring oset list \<Rightarrow> rstring \<Rightarrow> bool" where
  "lists_key sets key \<longleftrightarrow> (\<exists>ks \<in> set sets. key \<in> fst ` set ks)"

lemma lists_key_append [simp]: "lists_key (a @ b) key \<longleftrightarrow> lists_key a key \<or> lists_key b key"
  by (auto simp: lists_key_def)

lemma lists_key_concat: "lists_key (concat xss) key \<longleftrightarrow> (\<exists>xs \<in> set xss. lists_key xs key)"
  by (auto simp: lists_key_def)

lemma lists_nil [simp]: "\<not> lists_key [] key"
  by (simp add: lists_key_def)

lemma posted_in: "postings_ok m \<Longrightarrow> posted m sk key \<longleftrightarrow> (\<exists>ks. (sk, ks) \<in> set m \<and> key \<in> fst ` set ks)"
  by (auto simp: posted_def postings_ok_def om_get_Some_iff [symmetric] om_get_None_iff [of _ key] split: option.splits)

lemma lists_filter:
  "postings_ok m \<Longrightarrow> lists_key (map snd (filter (\<lambda>x. Q (fst x)) m)) key \<longleftrightarrow> (\<exists>sk. posted m sk key \<and> Q sk)"
  by (force simp: lists_key_def posted_in)

lemma lists_sets_at: "lists_key (sets_at m v) key \<longleftrightarrow> (\<exists>sk. skey_from_json v = Some sk \<and> posted m sk key)"
proof (cases "skey_from_json v")
  case (Some sk)
  then show ?thesis
    by (cases "om_get m sk") (auto simp: sets_at_def lists_key_def posted_def om_get_None_iff [of _ key])
qed (simp add: sets_at_def lists_key_def)

lemma key_order_equal: "key_order sk v = Some Equal \<longleftrightarrow> skey_from_json v = Some sk"
  by (cases sk; cases v) (auto simp: key_order_def skey_from_json_def)

lemma key_order_range:
  assumes "skey_from_json v = Some sk0"
  shows "key_order sk v = Some Greater \<longleftrightarrow> sk0 < sk \<and> same_kind sk sk0"
    and "key_order sk v = Some Less \<longleftrightarrow> sk < sk0 \<and> same_kind sk sk0"
    and "key_order sk v = Some Greater \<or> key_order sk v = Some Equal \<longleftrightarrow> sk0 \<le> sk \<and> same_kind sk sk0"
    and "key_order sk v = Some Less \<or> key_order sk v = Some Equal \<longleftrightarrow> sk \<le> sk0 \<and> same_kind sk sk0"
  using assms by (cases sk; cases v; auto simp: key_order_def skey_from_json_def same_kind_def cmp_of_def split: if_splits)+

lemma near_filter:
  assumes "om_ok m"
  shows "takeWhile (\<lambda>x. same_kind (fst x) sk) (filter (\<lambda>x. sk < fst x) m) = filter (\<lambda>x. sk < fst x \<and> same_kind (fst x) sk) m"
    and "takeWhile (\<lambda>x. same_kind (fst x) sk) (filter (\<lambda>x. sk \<le> fst x) m) = filter (\<lambda>x. sk \<le> fst x \<and> same_kind (fst x) sk) m"
    and "takeWhile (\<lambda>x. same_kind (fst x) sk) (rev (filter (\<lambda>x. fst x < sk) m)) = rev (filter (\<lambda>x. fst x < sk \<and> same_kind (fst x) sk) m)"
    and "takeWhile (\<lambda>x. same_kind (fst x) sk) (rev (filter (\<lambda>x. fst x \<le> sk) m)) = rev (filter (\<lambda>x. fst x \<le> sk \<and> same_kind (fst x) sk) m)"
proof -
  let ?P = "\<lambda>x. same_kind (fst x) sk"
  note sorted = sorted_wrt_filter [OF om_ok_sorted_wrt [OF assms]]
  have up: "sorted_wrt (\<lambda>x y. ?P y \<longrightarrow> ?P x) (filter (\<lambda>x. Q (fst x)) m)" if "\<And>k. Q k \<Longrightarrow> sk \<le> k" for Q
  proof (rule sorted_wrt_mono_rel [OF _ sorted])
    fix x y
    assume "x \<in> set (filter (\<lambda>x. Q (fst x)) m)" "fst x < fst y"
    then have "sk \<le> fst x" "fst x \<le> fst y" using that by auto
    then show "?P y \<longrightarrow> ?P x" using kind_between same_kind_sym by blast
  qed
  have down: "sorted_wrt (\<lambda>x y. ?P y \<longrightarrow> ?P x) (rev (filter (\<lambda>x. Q (fst x)) m))" if "\<And>k. Q k \<Longrightarrow> k \<le> sk" for Q
    unfolding sorted_wrt_rev
  proof (rule sorted_wrt_mono_rel [OF _ sorted])
    fix x y
    assume "y \<in> set (filter (\<lambda>x. Q (fst x)) m)" "fst x < fst y"
    then have "fst y \<le> sk" "fst x \<le> fst y" using that by auto
    then show "?P x \<longrightarrow> ?P y" using kind_between by blast
  qed
  show "takeWhile ?P (filter (\<lambda>x. sk < fst x) m) = filter (\<lambda>x. sk < fst x \<and> ?P x) m"
    using takeWhile_closed [OF up [of "\<lambda>k. sk < k"]] by (simp add: conj_commute)
  show "takeWhile ?P (filter (\<lambda>x. sk \<le> fst x) m) = filter (\<lambda>x. sk \<le> fst x \<and> ?P x) m"
    using takeWhile_closed [OF up [of "\<lambda>k. sk \<le> k"]] by (simp add: conj_commute)
  show "takeWhile ?P (rev (filter (\<lambda>x. fst x < sk) m)) = rev (filter (\<lambda>x. fst x < sk \<and> ?P x) m)"
    using takeWhile_closed [OF down [of "\<lambda>k. k < sk"]] by (simp add: rev_filter conj_commute)
  show "takeWhile ?P (rev (filter (\<lambda>x. fst x \<le> sk) m)) = rev (filter (\<lambda>x. fst x \<le> sk \<and> ?P x) m)"
    using takeWhile_closed [OF down [of "\<lambda>k. k \<le> sk"]] by (simp add: rev_filter conj_commute)
qed

lemma lists_range:
  assumes "postings_ok (si_map idx)" and "si_kind idx = BTree" and "cd_op c \<in> {CGt, CGe, CLt, CLe}"
    and "skey_from_json (cd_value c) \<noteq> None" and "tagged (cd_value c) = None"
  shows "lists_key (range_sets idx c) key \<longleftrightarrow> (\<exists>sk. posted (si_map idx) sk key \<and> admits lower T c sk)"
proof -
  obtain sk0 where sk0: "skey_from_json (cd_value c) = Some sk0" using assms(4) by blast
  have ok: "om_ok (si_map idx)" using assms(1) by (simp add: postings_ok_def)
  have rev: "lists_key (map snd (rev xs)) key \<longleftrightarrow> lists_key (map snd xs) key" for xs by (auto simp: lists_key_def)
  have ls: "lists_key (map snd (filter (\<lambda>x. Q (fst x)) (si_map idx))) key \<longleftrightarrow>
      (\<exists>sk. posted (si_map idx) sk key \<and> admits lower T c sk)" if "\<And>k. Q k \<longleftrightarrow> admits lower T c k" for Q
    unfolding lists_filter [OF assms(1)] that ..
  note order = key_order_range [OF sk0]
  from assms(3) consider "cd_op c = CGt" | "cd_op c = CGe" | "cd_op c = CLt" | "cd_op c = CLe" by auto
  then show ?thesis
  proof cases
    case 1
    then show ?thesis using ls [of "\<lambda>k. sk0 < k \<and> same_kind k sk0"] order(1) assms(5)
      by (simp add: range_sets_def sk0 assms(2) near_filter [OF ok] admits_def)
  next
    case 2
    then show ?thesis using ls [of "\<lambda>k. sk0 \<le> k \<and> same_kind k sk0"] order(3) assms(5)
      by (simp add: range_sets_def sk0 assms(2) near_filter [OF ok] admits_def)
  next
    case 3
    then show ?thesis using ls [of "\<lambda>k. k < sk0 \<and> same_kind k sk0"] order(2) assms(5)
      by (simp add: range_sets_def sk0 assms(2) near_filter [OF ok] rev admits_def)
  next
    case 4
    then show ?thesis using ls [of "\<lambda>k. k \<le> sk0 \<and> same_kind k sk0"] order(4) assms(5)
      by (simp add: range_sets_def sk0 assms(2) near_filter [OF ok] rev admits_def)
  qed
qed

lemma text_range:
  assumes "om_ok m"
  shows "takeWhile (\<lambda>x. case fst x of SStr t \<Rightarrow> starts_with t p | _ \<Rightarrow> False) (om_from (SStr p) m) =
    filter (\<lambda>x. case fst x of SStr t \<Rightarrow> starts_with t p | _ \<Rightarrow> False) m"
proof -
  let ?P = "\<lambda>x. case fst x of SStr t \<Rightarrow> starts_with t p | _ \<Rightarrow> False"
  have ge: "SStr p \<le> fst x" if "?P x" for x :: "skey \<times> 'a"
    using that by (cases "fst x") (auto dest: prefix_le)
  have "sorted_wrt (\<lambda>x y. ?P y \<longrightarrow> ?P x) (filter (\<lambda>x. SStr p \<le> fst x) m)"
  proof (rule sorted_wrt_mono_rel [OF _ sorted_wrt_filter [OF om_ok_sorted_wrt [OF assms]]])
    fix x y
    assume xy: "x \<in> set (filter (\<lambda>x. SStr p \<le> fst x) m)" "fst x < fst y"
    show "?P y \<longrightarrow> ?P x"
    proof
      assume "?P y"
      then obtain t where t: "fst y = SStr t" "starts_with t p" by (cases "fst y") auto
      have le: "SStr p \<le> fst x" "fst x \<le> SStr t" using xy t(1) by auto
      then have "skey_rank (fst x) = 3" using skey_rank_mono [OF le(1)] skey_rank_mono [OF le(2)] by simp
      then obtain u where "fst x = SStr u" by (cases "fst x") auto
      with le t(2) prefix_convex [of t p u] show "?P x" by simp
    qed
  qed
  from takeWhile_closed [OF this] show ?thesis
    using ge by (auto simp: om_from_filter [OF assms] intro!: filter_cong)
qed

lemma lists_like:
  assumes "postings_ok (si_map idx)" and "cd_op c \<in> {CLike, CILike}" and "tagged (cd_value c) = None"
  shows "lists_key (like_sets lower T idx c) key \<longleftrightarrow> (\<exists>sk. posted (si_map idx) sk key \<and> admits lower T c sk)"
proof (cases "as_str (cd_value c)")
  case None
  then have "\<not> admits lower T c sk" for sk using assms(2,3) by (cases sk) (auto simp: admits_def)
  with None show ?thesis by (simp add: like_sets_def lists_key_def)
next
  case (Some p)
  have ok: "om_ok (si_map idx)" using assms(1) by (simp add: postings_ok_def)
  note ls = lists_filter [OF assms(1), where key = key and Q = "admits lower T c"]
  show ?thesis
  proof (cases "si_kind idx = BTree \<and> (if cd_op c = CILike then [] else like_prefix p) \<noteq> []")
    case True
    then have op: "cd_op c = CLike" "like_prefix p \<noteq> []" using assms(2) by (auto split: if_splits)
    have "(case sk of SStr t \<Rightarrow> starts_with t (like_prefix p) | _ \<Rightarrow> False)" if "admits lower T c sk" for sk
      using that op assms(3) Some like_match_prefix by (cases sk) (auto simp: admits_def)
    then have "filter (\<lambda>x. admits lower T c (fst x)) (filter (\<lambda>x. case fst x of SStr t \<Rightarrow> starts_with t (like_prefix p) | _ \<Rightarrow> False) (si_map idx)) =
        filter (\<lambda>x. admits lower T c (fst x)) (si_map idx)"
      by (auto intro!: filter_cong)
    with True op Some ls show ?thesis by (simp add: like_sets_def text_range [OF ok])
  next
    case False
    with Some ls show ?thesis by (auto simp: like_sets_def Let_def split: if_splits)
  qed
qed

lemma lists_plain:
  assumes "postings_ok (si_map idx)" and "indexable c" and "tagged (cd_value c) = None" and "serves (si_kind idx) (cd_op c)"
  shows "lists_key (visited_sets lower T idx c) key \<longleftrightarrow> (\<exists>sk. posted (si_map idx) sk key \<and> admits lower T c sk)"
proof -
  have v: "visited_sets lower T idx c = plain_sets lower T idx c" using assms(3) by (simp add: visited_sets_def)
  show ?thesis
  proof (cases "cd_op c \<in> {CGt, CGe, CLt, CLe}")
    case True
    then have "plain_sets lower T idx c = range_sets idx c" by (auto simp: plain_sets_def)
    moreover have "si_kind idx = BTree" using True assms(4) by (cases "si_kind idx") (auto simp: serves_def)
    moreover have "skey_from_json (cd_value c) \<noteq> None"
      using True assms(2,3) by (cases "cd_op c") (simp_all add: indexable_def split: if_splits)
    ultimately show ?thesis using lists_range [OF assms(1) _ True _ assms(3)] v by simp
  next
    case False
    show ?thesis
    proof (cases "cd_op c \<in> {CLike, CILike}")
      case True
      then have "plain_sets lower T idx c = like_sets lower T idx c" by (auto simp: plain_sets_def)
      with lists_like [OF assms(1) True assms(3)] v show ?thesis by simp
    next
      case nolike: False
      have "cd_op c \<noteq> CNe" using assms(4) by (auto simp: serves_def split: index_kind.splits)
      with False nolike have "cd_op c = CEq \<or> cd_op c = CIn" by (cases "cd_op c") auto
      then show ?thesis
        using assms(3) lists_sets_at [of "si_map idx" _ key]
        by (auto simp: v plain_sets_def admits_def key_order_equal lists_key_concat list_ex_iff split: option.splits) blast+
    qed
  qed
qed

lemma visit_all:
  "visit_postings (\<lambda>out ks. (out @ map fst ks, True)) acc sets = acc @ concat (map (map fst) sets)"
  by (induction sets arbitrary: acc) auto

lemma candidates_in: "key \<in> set (index_candidates lower T idx c) \<longleftrightarrow> lists_key (visited_sets lower T idx c) key"
  by (auto simp: index_candidates_def visit_all lists_key_def)

lemma remdups_adj_strict: "sorted xs \<Longrightarrow> sorted_wrt (<) (remdups_adj (xs :: 'a::linorder list))"
proof (induction xs rule: remdups_adj.induct)
  case (3 x y xs)
  then show ?case by (cases "x = y") (force simp: less_le)+
qed simp_all

lemma candidates_sorted: "sorted_wrt (<) (index_candidates lower T idx c)"
  by (simp add: index_candidates_def remdups_adj_strict)

subsection \<open>A comparison that holds is admitted\<close>

text \<open>The numbers of a JSON document and of a condition are numbers of \<^verbatim>\<open>serde_json\<close>.\<close>

definition view_ok :: "doc_view \<Rightarrow> bool" where
  "view_ok d = (case d of ViewJson j \<Rightarrow> json_ok j | ViewTyped _ \<Rightarrow> True)"

definition number_json_ok :: "json \<Rightarrow> bool" where
  "number_json_ok j = (case j of JNumber n \<Rightarrow> number_ok n | _ \<Rightarrow> True)"

lemma position_less: "position seg n False = Some i \<Longrightarrow> i < n"
  by (auto simp: position_def Let_def split: option.splits if_splits)

lemma jp_get_ok: "jp_get j path = Some x \<Longrightarrow> json_ok j \<Longrightarrow> json_ok x"
  unfolding jp_get_def
proof (induction path arbitrary: j)
  case (Cons seg path)
  show ?case
  proof (cases j)
    case (JArray js)
    with Cons.prems(1) obtain i where "position seg (length js) False = Some i" "tree_get json_tree (js ! i) path = Some x"
      by (auto simp: json_tree_def split: option.splits)
    with Cons JArray position_less show ?thesis by (auto simp: list_all_length)
  next
    case (JObject m)
    with Cons.prems(1) obtain k v where "map_of m k = Some v" "tree_get json_tree v path = Some x"
      by (auto simp: json_tree_def split: seg.splits option.splits)
    with Cons JObject show ?thesis by (auto simp: list_all_iff dest!: map_of_SomeD)
  qed (use Cons.prems(1) in \<open>auto simp: json_tree_def\<close>)
qed simp

lemma leaf_numbers_ok:
  assumes "view_ok d" and "view_get d path = Some l" and "leaf_decimal l = None"
  shows "number_json_ok (leaf_json D l)"
proof (cases d)
  case (ViewJson j)
  with assms have "json_ok (leaf_json D l)" by (auto simp: view_get_def view_ok_def leaf_json_def dest: jp_get_ok)
  then show ?thesis by (cases "leaf_json D l") (simp_all add: number_json_ok_def)
next
  case (ViewTyped x)
  with assms obtain y where l: "l = LeafDoc y" by (auto simp: view_get_def)
  show ?thesis
  proof (cases y)
    case (DInt i)
    have "- (2 ^ 63) \<le> sint i" "sint i < 2 ^ 63" using sint_ge [of i] sint_lt [of i] by simp_all
    with DInt l show ?thesis by (auto simp: leaf_json_def json_of_i64_def number_json_ok_def nat_less_iff)
  qed (use l assms(3) in \<open>auto simp: leaf_json_def leaf_decimal_def float_json_def number_json_ok_def\<close>)
qed

lemma numkey_value: "dnum_value (numkey_num n) = num_value n"
  by (cases n) (simp_all add: numkey_num_def decimal_value_def)

lemma decimal_cmp_value: "decimal_cmp_json d n = cmp_of (decimal_value d) (num_value n)"
  by (simp add: decimal_cmp_json_def cmp_num_value numkey_value)

lemma untagged_scalar: "skey_from_json v \<noteq> None \<Longrightarrow> tagged v = None"
  by (cases v) (simp_all add: skey_from_json_def tagged_def)

text \<open>One value against another: what holds of the values holds of their keys.\<close>

definition key_verdict :: "skey \<Rightarrow> cmp_op \<Rightarrow> json \<Rightarrow> bool" where
  "key_verdict sk op_c v = verdict (key_order sk v) op_c"

lemma compare_one_key:
  assumes "compare_one T a op_c v" and "skey_from_json v \<noteq> None" and "number_json_ok a" and "number_json_ok v"
    and "op_c \<in> {CEq, CGt, CGe, CLt, CLe}"
  shows "\<exists>sk. skey_from_json a = Some sk \<and> key_verdict sk op_c v"
proof -
  have "verdict (plain_order a v op_c) op_c" using assms(1) untagged_scalar [OF assms(2)] by (simp add: compare_one_def)
  with assms(2-) show ?thesis
    by (cases a; cases v) (auto simp: plain_order_def skey_from_json_def key_verdict_def key_order_def verdict_def
        number_json_ok_def num_cmp_value split: if_splits)
qed

lemma compare_decimal_key:
  assumes "compare_decimal_one d op_c v" and "op_c \<in> {CEq, CGt, CGe, CLt, CLe}"
  shows "key_verdict (SNum (decimal_value d)) op_c v"
  using assms by (cases v) (auto simp: compare_decimal_one_def key_verdict_def key_order_def decimal_cmp_value verdict_def)

lemma verdict_iff:
  "verdict r CEq \<longleftrightarrow> r = Some Equal" "verdict r CGt \<longleftrightarrow> r = Some Greater" "verdict r CLt \<longleftrightarrow> r = Some Less"
  "verdict r CGe \<longleftrightarrow> r \<in> {Some Greater, Some Equal}" "verdict r CLe \<longleftrightarrow> r \<in> {Some Less, Some Equal}"
proof -
  have "x \<noteq> Less \<longleftrightarrow> x = Greater \<or> x = Equal" "x \<noteq> Greater \<longleftrightarrow> x = Less \<or> x = Equal" for x by (cases x; simp)+
  then show "verdict r CEq \<longleftrightarrow> r = Some Equal" "verdict r CGt \<longleftrightarrow> r = Some Greater" "verdict r CLt \<longleftrightarrow> r = Some Less"
    "verdict r CGe \<longleftrightarrow> r \<in> {Some Greater, Some Equal}" "verdict r CLe \<longleftrightarrow> r \<in> {Some Less, Some Equal}"
    by (cases r; simp add: verdict_def)+
qed

lemma admits_verdict:
  assumes "tagged (cd_value c) = None" and "cd_op c \<in> {CEq, CGt, CGe, CLt, CLe}"
  shows "admits lower T c sk \<longleftrightarrow> key_verdict sk (cd_op c) (cd_value c)"
  using assms by (auto simp: admits_def key_verdict_def verdict_iff)

lemma key_verdict_eq: "key_verdict sk CEq v \<longleftrightarrow> key_order sk v = Some Equal"
  by (simp add: key_verdict_def verdict_iff)

lemma admits_leaf:
  assumes test: "cond_test_leaf D T c l" and ix: "indexable c" and tag: "tagged (cd_value c) = None"
    and leaf: "leaf_decimal l = None \<Longrightarrow> number_json_ok (leaf_json D l)" and val: "json_ok (cd_value c)"
  shows "\<exists>sk. skey_from_leaf D l = Some sk \<and> admits (env_lower D) T c sk"
proof -
  have f: "cd_func c = None" using ix by (auto simp: indexable_def split: if_splits)
  have num: "number_json_ok v" if "json_ok v" for v using that by (cases v) (simp_all add: number_json_ok_def)
  consider (in_list) items where "cd_op c = CIn" "cd_value c = JArray items" "list_all (\<lambda>v. skey_from_json v \<noteq> None) items"
    | (like) "cd_op c = CLike \<or> cd_op c = CILike"
    | (one) "cd_op c \<in> {CEq, CGt, CGe, CLt, CLe}" "skey_from_json (cd_value c) \<noteq> None"
    using ix f tag by (cases "cd_op c"; cases "cd_value c") (auto simp: indexable_def as_array_def)
  then show ?thesis
  proof cases
    case in_list
    then have items: "skey_from_json v \<noteq> None" "number_json_ok v" if "v \<in> set items" for v
      using that val num by (auto simp: list_all_iff)
    have adm: "admits (env_lower D) T c sk \<longleftrightarrow> (\<exists>v \<in> set items. key_verdict sk CEq v)" for sk
      using in_list tag by (simp add: admits_def as_array_def list_ex_iff key_verdict_eq)
    show ?thesis
    proof (cases "leaf_decimal l")
      case (Some d)
      then obtain v where "v \<in> set items" "compare_decimal_one d CEq v"
        using test f in_list by (auto simp: cond_test_leaf_def compare_decimal_def list_ex_iff)
      with Some adm compare_decimal_key [of d CEq v] show ?thesis by (auto simp: skey_from_leaf_def)
    next
      case None
      then obtain v where v: "v \<in> set items" "compare_one T (leaf_json D l) CEq v"
        using test f in_list by (auto simp: cond_test_leaf_def cond_test_def compare_json_def list_ex_iff)
      from compare_one_key [OF v(2) items(1) [OF v(1)] leaf [OF None] items(2) [OF v(1)]] None adm v(1) show ?thesis
        by (auto simp: skey_from_leaf_def)
    qed
  next
    case like
    then have "leaf_decimal l = None" and "compare_json (env_lower D) T (leaf_json D l) (cd_op c) (cd_value c)"
      using test f by (auto simp: cond_test_leaf_def compare_decimal_def cond_test_def split: option.splits)
    with like tag show ?thesis
      by (cases "leaf_json D l"; cases "cd_value c")
        (auto simp: compare_json_def skey_from_leaf_def skey_from_json_def admits_def as_str_def)
  next
    case one
    note adm = admits_verdict [OF tag one(1), of "env_lower D" T]
    have op: "cd_op c \<noteq> CIn" "cd_op c \<noteq> CLike" "cd_op c \<noteq> CILike" using one(1) by auto
    show ?thesis
    proof (cases "leaf_decimal l")
      case (Some d)
      then have "compare_decimal_one d (cd_op c) (cd_value c)"
        using test f op by (simp add: cond_test_leaf_def compare_decimal_def)
      with Some adm compare_decimal_key [OF _ one(1)] show ?thesis by (simp add: skey_from_leaf_def)
    next
      case None
      then have "compare_one T (leaf_json D l) (cd_op c) (cd_value c)"
        using test f op by (simp add: cond_test_leaf_def cond_test_def compare_json_def)
      from compare_one_key [OF this one(2) leaf [OF None] num [OF val] one(1)] None adm show ?thesis
        by (simp add: skey_from_leaf_def)
    qed
  qed
qed

subsection \<open>Sorted lists of keys\<close>

lemma set_intersect_sorted:
  "sorted_wrt (<) as \<Longrightarrow> sorted_wrt (<) bs \<Longrightarrow> set (intersect_sorted as bs) = set as \<inter> set bs"
proof (induction as bs rule: intersect_sorted.induct)
  case (1 a as b bs)
  consider "a < b" | "b < a" | "a = b" by (metis linorder_less_linear)
  then show ?case
  proof cases
    case 1
    then have "a \<notin> set (b # bs)" using "1.prems" by auto
    with 1 "1.IH"(1) "1.prems" show ?thesis by auto
  next
    case 2
    then have "b \<notin> set (a # as)" using "1.prems" by auto
    with 2 "1.IH"(2) "1.prems" show ?thesis by auto
  next
    case 3
    then have "a \<notin> set bs" "a \<notin> set as" using "1.prems" by auto
    with 3 "1.IH"(3) "1.prems" show ?thesis by auto
  qed
qed simp_all

lemma intersect_sorted_sorted: "sorted_wrt (<) as \<Longrightarrow> sorted_wrt (<) bs \<Longrightarrow> sorted_wrt (<) (intersect_sorted as bs)"
  by (induction as bs rule: intersect_sorted.induct) (auto simp: set_intersect_sorted)

lemma set_union_sorted: "set (union_sorted as bs) = set as \<union> set bs"
  by (induction as bs rule: union_sorted.induct) auto

lemma union_sorted_sorted: "sorted_wrt (<) as \<Longrightarrow> sorted_wrt (<) bs \<Longrightarrow> sorted_wrt (<) (union_sorted as bs)"
  by (induction as bs rule: union_sorted.induct) (auto simp: set_union_sorted not_less_iff_gr_or_eq intro: less_trans)

subsection \<open>Which index is chosen\<close>

lemma first_pos_Some: "first_pos P xs = Some i \<Longrightarrow> i < length xs \<and> P (xs ! i)"
  by (induction xs arbitrary: i) (auto split: if_splits)

lemma find_index_Some:
  assumes "find_index secs c = Some i"
  shows "i < length secs" and "usable c (secs ! i)" and "indexable c"
  using assms by (auto simp: find_index_def Let_def split: if_splits option.splits dest!: first_pos_Some)

definition no_moment :: "cond \<Rightarrow> bool" where
  "no_moment c \<longleftrightarrow> (case tagged (cd_value c) of Some (tag, _) \<Rightarrow> tag \<noteq> lit ''$datetime'' | None \<Rightarrow> True)"

lemma indexable_plain: "indexable c \<Longrightarrow> no_moment c \<Longrightarrow> tagged (cd_value c) = None"
  by (auto simp: indexable_def no_moment_def split: if_splits option.splits)

lemma wild_spec_literal:
  "wildcard_free p \<Longrightarrow> wild_spec glob_any glob_one (p @ q) (p @ t) \<longleftrightarrow> wild_spec glob_any glob_one q t"
  by (induction p) (auto simp: wildcard_free_def glob_any_def glob_one_def)

lemma starts_with_iff: "starts_with t p \<longleftrightarrow> (\<exists>r. t = p @ r)"
  unfolding starts_with_def by (metis append_eq_conv_conj append_take_drop_id)

lemma prefix_of_glob:
  assumes "wildcard_free p" and "starts_with pattern p"
  shows "starts_with (glob_prefix pattern) p"
proof -
  obtain r where "pattern = p @ r" using assms(2) by (metis starts_with_def append_take_drop_id)
  moreover have "takeWhile (\<lambda>c. c \<noteq> ch CHR ''*'' \<and> c \<noteq> ch CHR ''?'') (p @ r) =
      p @ takeWhile (\<lambda>c. c \<noteq> ch CHR ''*'' \<and> c \<noteq> ch CHR ''?'') r"
    using assms(1) by (intro takeWhile_append2) (auto simp: wildcard_free_def)
  ultimately show ?thesis by (simp add: glob_prefix_def starts_with_def)
qed

lemma pattern_covers_match:
  assumes "pattern_covers ip qp" and "glob_match qp key" and "ch CHR ''*'' \<notin> set key"
  shows "glob_match ip key"
proof -
  have star: "wild_spec glob_any glob_one (lit ''*'') t" for t
    using wild_spec_any [of glob_any "ch CHR ''*''" glob_one "[]" t] by (auto simp: glob_any_def intro: exI [of _ "length t"])
  consider "ip = qp" | "ip = lit ''*''" | p where "ip = p @ lit ''*''" "wildcard_free p" "starts_with qp p"
    using assms(1) by (auto simp: pattern_covers_def split: if_splits) (metis append_butlast_last_id)
  then show ?thesis
  proof cases
    case 3
    have "starts_with key (glob_prefix qp)" using glob_match_prefix [OF assms(2)] by (simp add: starts_with_def)
    then obtain r where "key = p @ r" using prefix_of_glob [OF 3(2,3)] by (auto simp: starts_with_iff)
    with 3 star wild_spec_literal [OF 3(2), of "lit ''*''" r] show ?thesis
      using glob_match_wild_spec [OF assms(3), of ip] by simp
  qed (use assms(2) star glob_match_wild_spec [OF assms(3)] in simp_all)
qed

subsection \<open>The plans miss nothing\<close>

text \<open>
  The paths of an index are those of its field, or of its fields, written with a comma and a space
  between them.
\<close>

definition index_wf :: "sec_index \<Rightarrow> bool" where
  "index_wf s \<longleftrightarrow>
     (if length (si_paths s) = 1 then map parse_path [si_field s] = map Inr (si_paths s)
      else map parse_path (split_fields [] (si_field s)) = map Inr (si_paths s))"

fun all_conds :: "(cond \<Rightarrow> bool) \<Rightarrow> expr \<Rightarrow> bool" where
  "all_conds P (ETest t) \<longleftrightarrow> P (t_cond t)"
| "all_conds P (EAnd v) \<longleftrightarrow> list_all (all_conds P) v"
| "all_conds P (EOr v) \<longleftrightarrow> list_all (all_conds P) v"
| "all_conds P (ENot e) \<longleftrightarrow> all_conds P e"

lemma all_conds_iff: "all_conds P e \<longleftrightarrow> (\<forall>c \<in> set (conditions e). P c)"
proof -
  have "all_conds P e \<longleftrightarrow> (\<forall>c \<in> fst ` set (expr_walk b e). P c)" for b
    by (induction e arbitrary: b) (auto simp: list_all_iff)
  then show ?thesis by (simp add: conditions_def)
qed

definition cond_ok :: "cond \<Rightarrow> bool" where
  "cond_ok c \<longleftrightarrow> no_moment c \<and> json_ok (cd_value c)"

text \<open>What is known of a key the query selects, with its document and the indexes.\<close>

definition selects :: "doc_env \<Rightarrow> sec_index list \<Rightarrow> rstring \<Rightarrow> rstring \<Rightarrow> doc_view \<Rightarrow> bool" where
  "selects D secs pattern key d \<longleftrightarrow> glob_match pattern key \<and> ch CHR ''*'' \<notin> set key \<and> view_ok d \<and>
     (\<forall>s \<in> set secs. index_wf s \<and> sec_ok s \<and> (glob_match (si_pattern s) key \<longrightarrow> om_get (si_rev s) key = sec_value D s d))"

lemma sec_one_plain: "sec_one D False d path = Option.bind (view_get d path) (skey_from_leaf D)"
proof -
  have "(\<lambda>sk. case sk of SStr s \<Rightarrow> if False then SStr (env_lower D s) else sk | _ \<Rightarrow> sk) = id"
    by (rule ext) (simp split: skey.split)
  then show ?thesis by (simp add: sec_one_def option.map_id split: option.split)
qed

lemma test_admitted:
  assumes sel: "selects D secs (cd_pattern c) key d" and ix: "find_index secs c = Some i"
    and path: "parse_path (cd_field c) = Inr path" and l: "view_get d path = Some l" "cond_test_leaf D T c l" and c: "cond_ok c"
  shows "\<exists>sk. om_get (si_rev (secs ! i)) key = Some sk \<and> admits (env_lower D) T c sk"
    and "key \<in> set (index_candidates (env_lower D) T (secs ! i) c)"
proof -
  let ?s = "secs ! i"
  note f = find_index_Some [OF ix]
  have s: "?s \<in> set secs" using f(1) by simp
  have u: "length (si_paths ?s) = 1" "\<not> si_fold ?s" "serves (si_kind ?s) (cd_op c)" "si_field ?s = cd_field c"
    "pattern_covers (si_pattern ?s) (cd_pattern c)" using f(2) by (simp_all add: usable_def)
  have tag: "tagged (cd_value c) = None" using indexable_plain [OF f(3)] c by (simp add: cond_ok_def)
  have sl: "glob_match (cd_pattern c) key" "ch CHR ''*'' \<notin> set key" "view_ok d" "index_wf ?s" "sec_ok ?s"
    "glob_match (si_pattern ?s) key \<longrightarrow> om_get (si_rev ?s) key = sec_value D ?s d"
    using sel s by (auto simp: selects_def)
  have g: "glob_match (si_pattern ?s) key" by (rule pattern_covers_match [OF u(5) sl(1,2)])
  have "si_paths ?s = [path]" using sl(4) u(1,4) path by (cases "si_paths ?s") (auto simp: index_wf_def)
  then have "sec_value D ?s d = skey_from_leaf D l" using u(2) l(1) by (simp add: sec_value_def sec_one_plain)
  moreover obtain sk where sk: "skey_from_leaf D l = Some sk" "admits (env_lower D) T c sk"
    using admits_leaf [OF l(2) f(3) tag leaf_numbers_ok [OF sl(3) l(1)]] c by (auto simp: cond_ok_def)
  ultimately have rev: "om_get (si_rev ?s) key = Some sk" using sl(6) g by simp
  with sk show "\<exists>sk. om_get (si_rev ?s) key = Some sk \<and> admits (env_lower D) T c sk" by blast
  have "posted (si_map ?s) sk key" "postings_ok (si_map ?s)" using rev sl(5) by (auto simp: sec_ok_def)
  with sk(2) lists_plain [OF _ f(3) tag u(3)] show "key \<in> set (index_candidates (env_lower D) T ?s c)"
    unfolding candidates_in by blast
qed

lemma all_some_iff: "all_some xs = Some ys \<longleftrightarrow> xs = map Some ys"
  by (induction xs arbitrary: ys) (auto simp: bind_eq_Some_conv)

lemma find_map_Some: "find_map f xs = Some y \<Longrightarrow> \<exists>x \<in> set xs. f x = Some y"
  by (induction xs) (auto split: option.splits)

lemma equal_conds_in: "c \<in> set (equal_conds es) \<Longrightarrow> \<exists>t. ETest t \<in> set es \<and> c = t_cond t \<and> cd_op c = CEq \<and> cd_func c = None"
  by (auto simp: equal_conds_def split: expr.splits if_splits)

text \<open>One field of an index on several fields, compared with \<open>=\<close>.\<close>

lemma composite_field:
  assumes "composite_value (equal_conds es) s f = Some sk" and "list_all (expr_ok pattern) es"
    and "list_all (all_conds cond_ok) es" and "list_all (matches_view D T d) es" and "view_ok d"
    and "parse_path f = Inr path"
  shows "sec_one D False d path = Some sk \<and> pattern_covers (si_pattern s) pattern"
proof -
  obtain c where c: "find (\<lambda>c. cd_field c = f \<and> pattern_covers (si_pattern s) (cd_pattern c)) (equal_conds es) = Some c"
    "tagged (cd_value c) = None" "skey_from_json (cd_value c) = Some sk"
    using assms(1) unfolding composite_value_def bind_eq_Some_conv by (metis option.distinct(1))
  from c(1) have cf: "c \<in> set (equal_conds es)" "cd_field c = f" "pattern_covers (si_pattern s) (cd_pattern c)"
    by (auto simp: find_Some_iff)
  from equal_conds_in [OF cf(1)] obtain t where t: "ETest t \<in> set es" "c = t_cond t" "cd_op c = CEq" "cd_func c = None" by blast
  have ok: "expr_ok pattern (ETest t)" "all_conds cond_ok (ETest t)" "matches_view D T d (ETest t)"
    using assms(2-4) t(1) by (auto simp: list_all_iff)
  then have pt: "cd_pattern c = pattern" "t_path t = path" using t cf(2) assms(6) by simp_all
  obtain l where l: "view_get d path = Some l" "cond_test_leaf D T c l" using ok(3) pt t(2) by (auto split: option.splits)
  have ix: "indexable c" using t(3,4) c(2,3) by (simp add: indexable_def)
  obtain sk' where sk': "skey_from_leaf D l = Some sk'" "admits (env_lower D) T c sk'"
    using admits_leaf [OF l(2) ix c(2) leaf_numbers_ok [OF assms(5) l(1)]] ok(2) t(2) by (auto simp: cond_ok_def)
  have "skey_from_json (cd_value c) = Some sk'" using sk'(2) t(3) c(2) by (simp add: admits_def key_order_equal)
  with sk'(1) c(3) l(1) cf(3) pt(1) show ?thesis by (simp add: sec_one_plain)
qed

lemma composite_plan_in:
  assumes p: "composite_plan secs es = Some p" and sel: "selects D secs pattern key d"
    and es: "list_all (expr_ok pattern) es" "list_all (all_conds cond_ok) es" "list_all (matches_view D T d) es"
  shows "key \<in> set (ip_keys p)"
proof -
  obtain s vs where s: "s \<in> set secs" "length (si_paths s) > 1" "\<not> si_fold s"
    and vs: "map (composite_value (equal_conds es) s) (split_fields [] (si_field s)) = map Some vs"
    and pk: "ip_keys p = (case om_get (si_map s) (STuple vs) of Some ks \<Rightarrow> map fst ks | None \<Rightarrow> [])"
    using p by (auto simp: composite_plan_def Let_def all_some_iff split: if_splits dest!: find_map_Some)
  have sl: "glob_match pattern key" "ch CHR ''*'' \<notin> set key" "view_ok d" "index_wf s" "sec_ok s"
    "glob_match (si_pattern s) key \<longrightarrow> om_get (si_rev s) key = sec_value D s d"
    using sel s(1) by (auto simp: selects_def)
  have paths: "map parse_path (split_fields [] (si_field s)) = map Inr (si_paths s)"
    using sl(4) s(2) by (simp add: index_wf_def)
  have len: "length vs = length (si_paths s)" "length (split_fields [] (si_field s)) = length (si_paths s)"
    using arg_cong [OF vs, of length] arg_cong [OF paths, of length] by simp_all
  have field: "sec_one D False d (si_paths s ! n) = Some (vs ! n) \<and> pattern_covers (si_pattern s) pattern"
    if n: "n < length (si_paths s)" for n
  proof (rule composite_field [OF _ es sl(3)])
    show "composite_value (equal_conds es) s (split_fields [] (si_field s) ! n) = Some (vs ! n)"
      using arg_cong [OF vs, of "\<lambda>xs. xs ! n"] n len by simp
    show "parse_path (split_fields [] (si_field s) ! n) = Inr (si_paths s ! n)"
      using arg_cong [OF paths, of "\<lambda>xs. xs ! n"] n len by simp
  qed
  have ones: "map (sec_one D False d) (si_paths s) = map Some vs"
    by (rule nth_equalityI) (use field len in simp_all)
  have g: "glob_match (si_pattern s) key" using field [of 0] s(2) pattern_covers_match [OF _ sl(1,2)] by force
  have "sec_value D s d = Some (STuple vs)"
  proof -
    obtain a b r where ps: "si_paths s = a # b # r" using s(2) by (cases "si_paths s"; cases "tl (si_paths s)") auto
    have "list_all (\<lambda>k. k \<noteq> None) (map Some vs)" "map the (map Some vs) = vs" by (simp_all add: list_all_iff)
    then show ?thesis using ones s(3) unfolding sec_value_def ps by (simp add: Let_def del: map_map list.map)
  qed
  then have "posted (si_map s) (STuple vs) key" using sl(5,6) g by (auto simp: sec_ok_def)
  then show ?thesis by (auto simp: pk posted_def om_get_None_iff [of _ key] split: option.splits)
qed

lemma composite_plan_sorted:
  assumes "composite_plan secs es = Some p" and "\<forall>s \<in> set secs. sec_ok s"
  shows "sorted_wrt (<) (ip_keys p)"
proof -
  obtain s vs where s: "s \<in> set secs" "ip_keys p = (case om_get (si_map s) (STuple vs) of Some ks \<Rightarrow> map fst ks | None \<Rightarrow> [])"
    using assms(1) by (auto simp: composite_plan_def Let_def split: if_splits dest!: find_map_Some)
  then show ?thesis
    using assms(2) postings_okD [of "si_map s" "STuple vs"] by (auto simp: sec_ok_def om_ok_def split: option.split)
qed

text \<open>A plan is good for some keys when it holds them and its keys are in order.\<close>

definition holds_keys :: "rstring set \<Rightarrow> key_plan \<Rightarrow> bool" where
  "holds_keys K p \<longleftrightarrow> K \<subseteq> set (ip_keys p) \<and> sorted_wrt (<) (ip_keys p)"

lemma holds_merge:
  "holds_keys K p \<Longrightarrow> holds_keys K acc \<Longrightarrow> holds_keys K (merge_and p acc)"
  "sorted_wrt (<) (ip_keys p) \<Longrightarrow> holds_keys K acc \<Longrightarrow> holds_keys K (merge_or p acc)"
  "holds_keys K p \<Longrightarrow> sorted_wrt (<) (ip_keys acc) \<Longrightarrow> holds_keys K (merge_or p acc)"
  by (auto simp: holds_keys_def merge_and_def merge_or_def set_intersect_sorted intersect_sorted_sorted set_union_sorted union_sorted_sorted)

definition admitted :: "(rstring \<Rightarrow> rstring) \<Rightarrow> time_env \<Rightarrow> sec_index list \<Rightarrow> rstring set \<Rightarrow> nat \<Rightarrow> cond \<Rightarrow> bool" where
  "admitted lower T secs K i c \<longleftrightarrow> (\<forall>key \<in> K. (\<exists>sk. om_get (si_rev (secs ! i)) key = Some sk \<and> admits lower T c sk) \<and>
     key \<in> set (index_candidates lower T (secs ! i) c))"

lemma holds_test: "admitted lower T secs K i c \<Longrightarrow> holds_keys K (test_plan lower T (secs ! i) c)"
  by (auto simp: admitted_def holds_keys_def test_plan_def candidates_sorted Let_def)

lemma holds_retain: "admitted lower T secs K i c \<Longrightarrow> holds_keys K acc \<Longrightarrow> holds_keys K (retain_and lower T secs (n, i, c) acc)"
  by (auto simp: admitted_def holds_keys_def retain_and_def sorted_wrt_filter)

lemma holds_fold_merge:
  "(\<And>w. w \<in> set ws \<Longrightarrow> holds_keys K w) \<Longrightarrow> holds_keys K acc \<Longrightarrow> holds_keys K (fold merge_and ws acc)"
  by (induction ws arbitrary: acc) (simp_all add: holds_merge(1))

lemma holds_fold_retain:
  "(\<And>n i c. (n, i, c) \<in> set ts \<Longrightarrow> admitted lower T secs K i c) \<Longrightarrow> holds_keys K acc \<Longrightarrow>
     holds_keys K (fold (retain_and lower T secs) ts acc)"
proof (induction ts arbitrary: acc)
  case (Cons t ts)
  obtain n i c where t: "t = (n, i, c)" by (cases t)
  then have "admitted lower T secs K i c" using Cons.prems(1) by auto
  then have "holds_keys K (retain_and lower T secs t acc)" using Cons.prems(2) by (simp add: t holds_retain)
  with Cons show ?case by auto
qed simp

lemma size_tests_snd: "map snd (size_tests lower T secs best ts) = ts"
  by (induction ts arbitrary: best) (auto simp: Let_def)

lemma and_plan_holds:
  assumes p: "and_plan lower T secs es subs = Some p"
    and w: "\<And>w. w \<in> set (and_whole secs es subs) \<Longrightarrow> holds_keys K w"
    and t: "\<And>i c. (i, c) \<in> set (and_tests secs es) \<Longrightarrow> admitted lower T secs K i c"
  shows "holds_keys K p"
proof -
  define best where "best = (case and_whole secs es subs of [] \<Rightarrow> USIZE_MAX | w # _ \<Rightarrow> length (ip_keys w))"
  define sized where "sized = sort_key fst (size_tests lower T secs best (and_tests secs es))"
  have sz: "admitted lower T secs K i c" if "(n, i, c) \<in> set sized" for n i c
  proof (rule t)
    have "(i, c) \<in> snd ` set sized" using that by force
    then show "(i, c) \<in> set (and_tests secs es)"
      using arg_cong [OF size_tests_snd [of lower T secs best "and_tests secs es"], of set] by (simp add: sized_def)
  qed
  have fin: "holds_keys K (fold (retain_and lower T secs) ts (fold merge_and ws acc))"
    if "holds_keys K acc" "set ws \<subseteq> set (and_whole secs es subs)" "set ts \<subseteq> set sized" for acc ws ts
    by (rule holds_fold_retain [OF _ holds_fold_merge]) (use that w sz in auto)
  note p' = p [unfolded and_plan_def Let_def, folded best_def, folded sized_def]
  have head: "holds_keys K (test_plan lower T (secs ! i) c)" if "(n, i, c) \<in> set sized" for n i c
    by (rule holds_test [OF sz [OF that]])
  show ?thesis
  proof (cases sized)
    case Nil
    then show ?thesis using p' w fin [of _ _ "[]"] by (cases "and_whole secs es subs") auto
  next
    case (Cons x rest)
    obtain n i c where x: "x = (n, i, c)" by (cases x)
    have h: "holds_keys K (test_plan lower T (secs ! i) c)" using head [of n i c] Cons x by simp
    show ?thesis
    proof (cases "and_whole secs es subs")
      case Nil
      with p' Cons x h fin [of "test_plan lower T (secs ! i) c" "[]" rest] show ?thesis by auto
    next
      case (Cons w ws)
      with p' \<open>sized = x # rest\<close> x h w fin [of "test_plan lower T (secs ! i) c" "w # ws" rest] fin [of w ws sized]
      show ?thesis by (auto split: if_splits)
    qed
  qed
qed

lemma and_whole_in:
  assumes "w \<in> set (and_whole secs es (map f es))"
  obtains e where "e \<in> set es" "f e = Some w" | "composite_plan secs es = Some w"
proof -
  have "w \<in> set (case f e of Some x \<Rightarrow> [x] | None \<Rightarrow> [])"
    if "w \<in> set (case e of ETest _ \<Rightarrow> [] | _ \<Rightarrow> (case f e of Some x \<Rightarrow> [x] | None \<Rightarrow> []))" for e
    using that by (cases e) simp_all
  with assms show thesis
    using that by (fastforce simp: and_whole_def zip_map2 zip_same_conv_map split: option.splits)
qed

lemma and_tests_in: "(i, c) \<in> set (and_tests secs es) \<Longrightarrow> \<exists>t. ETest t \<in> set es \<and> c = t_cond t \<and> find_index secs c = Some i"
  by (auto simp: and_tests_def split: expr.splits option.splits)

lemma or_plan_keys:
  assumes "or_plan (map f es) = Some p"
  obtains q qs where "map f es = map Some (q # qs)" "ip_keys p = ip_keys (fold merge_or qs q)"
  using assms by (auto simp: or_plan_def all_some_iff Let_def split: option.splits list.splits)

lemma fold_or_sorted:
  "(\<And>q. q \<in> set qs \<Longrightarrow> holds_keys {} q) \<Longrightarrow> holds_keys {} acc \<Longrightarrow> holds_keys {} (fold merge_or qs acc)"
  by (induction qs arbitrary: acc) (simp_all add: holds_keys_def holds_merge(2) [of _ "{}", unfolded holds_keys_def])

lemma fold_or_in: "set (ip_keys (fold merge_or qs acc)) = set (ip_keys acc) \<union> (\<Union>q \<in> set qs. set (ip_keys q))"
  by (induction qs arbitrary: acc) (auto simp: merge_or_def set_union_sorted)

lemma index_plan_sorted:
  "index_plan lower T secs e = Some p \<Longrightarrow> \<forall>s \<in> set secs. sec_ok s \<Longrightarrow> holds_keys {} p"
proof (induction e arbitrary: p)
  case (ETest t)
  then show ?case by (auto simp: admitted_def intro: holds_test)
next
  case (EAnd es)
  show ?case
  proof (rule and_plan_holds)
    show "and_plan lower T secs es (map (index_plan lower T secs) es) = Some p" using EAnd.prems by simp
    fix w assume "w \<in> set (and_whole secs es (map (index_plan lower T secs) es))"
    then show "holds_keys {} w"
      by (rule and_whole_in) (use EAnd composite_plan_sorted in \<open>auto simp: holds_keys_def\<close>)
  qed (simp add: admitted_def)
next
  case (EOr es)
  from EOr.prems(1) obtain q qs where q: "map (index_plan lower T secs) es = map Some (q # qs)" "ip_keys p = ip_keys (fold merge_or qs q)"
    by (auto elim: or_plan_keys)
  have "holds_keys {} x" if x: "x \<in> set (q # qs)" for x
  proof -
    have "Some x \<in> set (map (index_plan lower T secs) es)" using x q(1) by (metis imageI list.set_map)
    then obtain e where "e \<in> set es" "index_plan lower T secs e = Some x" by auto
    with EOr show ?thesis by blast
  qed
  then have "holds_keys {} (fold merge_or qs q)" by (intro fold_or_sorted) auto
  with q(2) show ?case by (simp add: holds_keys_def)
qed simp

lemma index_plan_holds:
  assumes sel: "selects D secs pattern key d"
  shows "index_plan (env_lower D) T secs e = Some p \<Longrightarrow> expr_ok pattern e \<Longrightarrow> all_conds cond_ok e \<Longrightarrow>
    matches_view D T d e \<Longrightarrow> holds_keys {key} p"
proof (induction e arbitrary: p)
  case (ETest t)
  then obtain i where i: "find_index secs (t_cond t) = Some i" "p = test_plan (env_lower D) T (secs ! i) (t_cond t)" by auto
  obtain l where "view_get d (t_path t) = Some l" "cond_test_leaf D T (t_cond t) l" using ETest.prems(4) by (auto split: option.splits)
  with test_admitted [OF _ i(1)] ETest.prems(2,3) sel have "admitted (env_lower D) T secs {key} i (t_cond t)"
    by (auto simp: admitted_def)
  with i(2) show ?case by (simp add: holds_test)
next
  case (EAnd es)
  show ?case
  proof (rule and_plan_holds)
    show "and_plan (env_lower D) T secs es (map (index_plan (env_lower D) T secs) es) = Some p" using EAnd.prems by simp
    fix w assume "w \<in> set (and_whole secs es (map (index_plan (env_lower D) T secs) es))"
    then show "holds_keys {key} w"
    proof (rule and_whole_in)
      assume c: "composite_plan secs es = Some w"
      have "\<forall>s \<in> set secs. sec_ok s" using sel by (simp add: selects_def)
      with composite_plan_in [OF c sel] composite_plan_sorted [OF c] EAnd.prems show ?thesis by (simp add: holds_keys_def)
    qed (use EAnd in \<open>auto simp: list_all_iff\<close>)
  next
    fix i c assume "(i, c) \<in> set (and_tests secs es)"
    then obtain t where t: "ETest t \<in> set es" "c = t_cond t" "find_index secs c = Some i" using and_tests_in by blast
    then have ok: "expr_ok pattern (ETest t)" "all_conds cond_ok (ETest t)" "matches_view D T d (ETest t)"
      using EAnd.prems by (auto simp: list_all_iff)
    then obtain l where "view_get d (t_path t) = Some l" "cond_test_leaf D T c l" using t(2) by (auto split: option.splits)
    with test_admitted [OF _ t(3)] ok t(2) sel show "admitted (env_lower D) T secs {key} i c" by (auto simp: admitted_def)
  qed
next
  case (EOr es)
  from EOr.prems(1) obtain q qs where q: "map (index_plan (env_lower D) T secs) es = map Some (q # qs)" "ip_keys p = ip_keys (fold merge_or qs q)"
    by (auto elim: or_plan_keys)
  obtain e where e: "e \<in> set es" "matches_view D T d e" using EOr.prems(4) by (auto simp: list_ex_iff)
  have "index_plan (env_lower D) T secs e \<in> Some ` set (q # qs)" using e(1) q(1) by (metis imageI list.set_map)
  then obtain x where x: "x \<in> set (q # qs)" "index_plan (env_lower D) T secs e = Some x" by auto
  have "holds_keys {key} x" using EOr.IH [OF e(1) x(2)] EOr.prems e by (auto simp: list_all_iff)
  then have "key \<in> set (ip_keys p)" using x(1) unfolding q(2) fold_or_in by (auto simp: holds_keys_def)
  moreover have "holds_keys {} p" using index_plan_sorted [OF EOr.prems(1)] sel by (auto simp: selects_def)
  ultimately show ?case by (simp add: holds_keys_def)
qed simp

end
