(* ===== verification/KeyOrder.thy ===== *)
theory KeyOrder
  imports RunQuery Narrow
begin

text \<open>
  A query in key order answers exactly: whatever indexes there are, the rows are the live documents the
  pattern and the condition select, in key order, from the page's place on, up to the limit.
\<close>

subsection \<open>One document\<close>

definition picked :: "query_env \<Rightarrow> query \<Rightarrow> kv_state \<Rightarrow> rstring \<Rightarrow> kvalue option" where
  "picked Q q C key =
     (if glob_match (q_pattern q) key then
        (case C key of
           None \<Rightarrow> None
         | Some (v, _) \<Rightarrow>
             (case doc_view_of v of
                None \<Rightarrow> None
              | Some d \<Rightarrow> if query_matches (qe_docs Q) (qe_times Q) q d then Some v else None))
      else None)"

text \<open>Reads drop expired keys at most.\<close>

definition reads_from :: "query_env \<Rightarrow> int \<Rightarrow> inner \<Rightarrow> inner \<Rightarrow> bool" where
  "reads_from Q now s s' \<longleftrightarrow> store_ok (qe_engine Q) s' \<and> contents (qe_engine Q) now s' = contents (qe_engine Q) now s \<and>
     fst ` set (i_index s') \<subseteq> fst ` set (i_index s)"

lemma reads_from_trans: "reads_from Q now s s' \<Longrightarrow> reads_from Q now s' s'' \<Longrightarrow> reads_from Q now s s''"
  using subset_trans [of "fst ` set (i_index s'')" "fst ` set (i_index s')" "fst ` set (i_index s)"] by (simp add: reads_from_def)

lemma reads_from_refl: "store_ok (qe_engine Q) s \<Longrightarrow> reads_from Q now s s"
  by (simp add: reads_from_def)

lemma decode_not_doc: "value_decode V ty raw de = Inr v \<Longrightarrow> \<not> is_doc ty \<Longrightarrow> doc_view_of v = None"
  by (cases ty) (auto simp: value_decode_def try_bind_Inr_iff doc_view_of_def split: if_splits)

lemma entry_not_doc: "entry_value E f e = Some v \<Longrightarrow> \<not> is_doc (e_ty e) \<Longrightarrow> doc_view_of v = None"
  by (auto simp: entry_value_def split: option.splits if_splits sum.splits dest: decode_not_doc)

lemma live_keys: "fst ` set (i_index (snd (live now key s))) \<subseteq> fst ` set (i_index s)"
  by (rule live_cases [of s key now]) (auto simp: idx_remove_fields dest!: subsetD [OF set_om_remove])

lemma examine_ok:
  assumes "store_ok (qe_engine Q) s"
  shows "\<exists>m' s'. examine Q q now key m s = (Inr (picked Q q (contents (qe_engine Q) now s) key), m', s') \<and>
    reads_from Q now s s' \<and> me_returned m' = me_returned m"
proof (cases "glob_match (q_pattern q) key")
  case False
  then show ?thesis using assms by (simp add: examine_def picked_def reads_from_refl Let_def)
next
  case g: True
  let ?E = "qe_engine Q"
  obtain r s1 where l: "live now key s = (r, s1)" by (cases "live now key s")
  have s1: "reads_from Q now s s1"
    using store_ok_live [OF assms, of now key] live_keys [of now key s] l by (simp add: reads_from_def contents_def)
  show ?thesis
  proof (cases r)
    case None
    then have "contents ?E now s key = None" using live_contents(1) [OF assms, of now key] l by simp
    with g l None s1 show ?thesis by (simp add: examine_def picked_def Let_def)
  next
    case (Some e)
    then obtain v where e: "om_get (i_index s) key = Some e" "s1 = s" "entry_value ?E (i_file s) e = Some v"
      "contents ?E now s key = Some (v, e_expires_at e)"
      using live_contents(2) [OF assms, of now key e] l by auto
    show ?thesis
    proof (cases "is_doc (e_ty e)")
      case False
      then have "doc_view_of v = None" using entry_not_doc [OF e(3)] by blast
      with False g l Some e s1 show ?thesis by (simp add: examine_def picked_def Let_def)
    next
      case True
      note vo = value_of_ok [OF assms e(1,3)]
      obtain s2 where s2: "value_of ?E key e s = (Inr v, s2)" using vo(1) by (cases "value_of ?E key e s") simp
      have "reads_from Q now s s2" using vo(2-4) s2 by (simp add: reads_from_def contents_def)
      with True g l Some e s2 show ?thesis
        by (cases "doc_view_of v") (auto simp: examine_def picked_def Let_def)
    qed
  qed
qed

subsection \<open>Several keys\<close>

definition push_row :: "(rstring \<times> kvalue) list \<Rightarrow> rstring \<Rightarrow> kvalue \<Rightarrow> (string + unit) \<times> (rstring \<times> kvalue) list" where
  "push_row rows key v = (Inr (), rows @ [(key, v)])"

definition picks :: "query_env \<Rightarrow> query \<Rightarrow> kv_state \<Rightarrow> rstring list \<Rightarrow> (rstring \<times> kvalue) list" where
  "picks Q q C ks = map (\<lambda>k. (k, the (picked Q q C k))) (filter (\<lambda>k. picked Q q C k \<noteq> None) ks)"

lemma picks_simps [simp]:
  "picks Q q C [] = []"
  "picks Q q C (k # ks) = (case picked Q q C k of Some v \<Rightarrow> (k, v) # picks Q q C ks | None \<Rightarrow> picks Q q C ks)"
  "picks Q q C (ks @ ls) = picks Q q C ks @ picks Q q C ls"
  by (auto simp: picks_def split: option.splits)

text \<open>At most so many rows of a list, all of them when there is no limit.\<close>

definition upto :: "nat \<Rightarrow> nat \<Rightarrow> 'x list \<Rightarrow> 'x list" where
  "upto limit n xs = (if limit = 0 then xs else take (limit - n) xs)"

lemma read_keys_ok:
  "store_ok (qe_engine Q) s \<Longrightarrow> limit = 0 \<or> me_returned m < limit \<Longrightarrow> C = contents (qe_engine Q) now s \<Longrightarrow>
    \<exists>m' s'. read_keys Q q now limit push_row ks (m, rows, s) =
        (Inr (limit = 0 \<or> me_returned m + length (picks Q q C ks) < limit), m', rows @ upto limit (me_returned m) (picks Q q C ks), s') \<and>
      reads_from Q now s s' \<and> me_returned m' = me_returned m + length (upto limit (me_returned m) (picks Q q C ks))"
proof (induction ks arbitrary: m rows s)
  case Nil
  then show ?case by (auto simp: upto_def reads_from_refl)
next
  case (Cons k ks)
  obtain m1 s1 where x: "examine Q q now k m s = (Inr (picked Q q C k), m1, s1)" "reads_from Q now s s1" "me_returned m1 = me_returned m"
    using examine_ok [OF Cons.prems(1), of q now k m] Cons.prems(3) by auto
  have s1: "store_ok (qe_engine Q) s1" "C = contents (qe_engine Q) now s1" using x(2) Cons.prems(3) by (simp_all add: reads_from_def)
  show ?case
  proof (cases "picked Q q C k")
    case None
    from Cons.IH [OF s1(1) _ s1(2), of m1 rows] Cons.prems(2) x(3) obtain m' s' where
      r: "read_keys Q q now limit push_row ks (m1, rows, s1) =
        (Inr (limit = 0 \<or> me_returned m + length (picks Q q C ks) < limit), m', rows @ upto limit (me_returned m) (picks Q q C ks), s')"
      "reads_from Q now s1 s'" "me_returned m' = me_returned m + length (upto limit (me_returned m) (picks Q q C ks))" by auto
    with None x reads_from_trans [OF x(2) r(2)] show ?thesis by auto
  next
    case (Some v)
    let ?m = "m1\<lparr>me_returned := me_returned m + 1\<rparr>"
    have em: "emit_row push_row limit k v (m1, rows) = (Inr (limit = 0 \<or> me_returned m + 1 < limit), ?m, rows @ [(k, v)])"
      using x(3) by (simp add: emit_row_def push_row_def Let_def)
    show ?thesis
    proof (cases "limit = 0 \<or> me_returned m + 1 < limit")
      case True
      from Cons.IH [OF s1(1) _ s1(2), of ?m "rows @ [(k, v)]"] True obtain m' s' where
        r: "read_keys Q q now limit push_row ks (?m, rows @ [(k, v)], s1) =
          (Inr (limit = 0 \<or> me_returned m + 1 + length (picks Q q C ks) < limit), m', (rows @ [(k, v)]) @ upto limit (me_returned m + 1) (picks Q q C ks), s')"
        "reads_from Q now s1 s'" "me_returned m' = me_returned m + 1 + length (upto limit (me_returned m + 1) (picks Q q C ks))" by auto
      have u: "upto limit (me_returned m) (picks Q q C (k # ks)) = (k, v) # upto limit (me_returned m + 1) (picks Q q C ks)"
      proof (cases "limit = 0")
        case False
        then have "limit - me_returned m = Suc (limit - (me_returned m + 1))" using True by simp
        with False Some show ?thesis by (simp add: upto_def)
      qed (use Some in \<open>simp add: upto_def\<close>)
      from r u True Some x em reads_from_trans [OF x(2) r(2)] show ?thesis by (auto simp: add.assoc)
    next
      case False
      then have "upto limit (me_returned m) (picks Q q C (k # ks)) = [(k, v)]" "me_returned m + 1 = limit"
        using Cons.prems(2) Some by (auto simp: upto_def take_Cons' le_Suc_eq)
      with False Some x em show ?thesis by auto
    qed
  qed
qed

subsection \<open>The pieces of a prefix\<close>

text \<open>\<open>a\<close> comes before \<open>b\<close> in the direction of the reading.\<close>

definition before :: "bool \<Rightarrow> rstring \<Rightarrow> rstring \<Rightarrow> bool" where
  "before reverse a b \<longleftrightarrow> (if reverse then b < a else a < b)"

definition beyond :: "bool \<Rightarrow> rstring option \<Rightarrow> rstring \<Rightarrow> bool" where
  "beyond reverse from k = (case from of None \<Rightarrow> True | Some f \<Rightarrow> before reverse f k)"

definition directed :: "bool \<Rightarrow> 'x list \<Rightarrow> 'x list" where
  "directed reverse xs = (if reverse then rev xs else xs)"

lemma directed_set [simp]: "set (directed r xs) = set xs" "length (directed r xs) = length xs"
  by (simp_all add: directed_def)

lemma before_dir: "before True = (\<lambda>a b. b < a)" "before False = (<)"
  by (auto simp: before_def fun_eq_iff)

lemma directed_sorted: "sorted_wrt (<) ks \<Longrightarrow> sorted_wrt (before r) (directed r ks)"
  by (cases r) (simp_all add: directed_def before_dir sorted_wrt_rev)

lemma before_sorted: "sorted_wrt (before r) ks \<longleftrightarrow> sorted_wrt (<) (directed r ks)"
  by (cases r) (simp_all add: directed_def before_dir sorted_wrt_rev)

lemma sorted_unique: "sorted_wrt (before r) ks \<Longrightarrow> sorted_wrt (before r) ls \<Longrightarrow> set ks = set ls \<Longrightarrow> ks = ls"
  unfolding before_sorted by (metis directed_def directed_set(1) rev_swap strict_sorted_equal)

text \<open>The rows of a list of keys in order only depend on the keys it has of those that are selected.\<close>

lemma picks_cong:
  assumes "sorted_wrt (before r) ks" and "sorted_wrt (before r) ls"
    and "\<And>k. picked Q q C k \<noteq> None \<Longrightarrow> k \<in> set ks \<longleftrightarrow> k \<in> set ls"
  shows "picks Q q C ks = picks Q q C ls"
proof -
  have "filter (\<lambda>k. picked Q q C k \<noteq> None) ks = filter (\<lambda>k. picked Q q C k \<noteq> None) ls"
    by (rule sorted_unique) (use assms in \<open>auto intro: sorted_wrt_filter\<close>)
  then show ?thesis by (simp only: picks_def)
qed

lemma index_sorted: "store_ok E s \<Longrightarrow> sorted_wrt (<) (map fst (i_index s))"
  using store_okD(4) by (simp add: om_ok_def)

lemma picked_prefix: "picked Q q C k \<noteq> None \<Longrightarrow> starts_with k (glob_prefix (q_pattern q))"
  using glob_match_prefix by (auto simp: picked_def starts_with_def split: if_splits)

lemma picked_in_index: "picked Q q (contents E now s) k \<noteq> None \<Longrightarrow> k \<in> fst ` set (i_index s)"
  by (auto simp: picked_def contents_def at_time_def stored_def bind_eq_Some_conv
      dest!: om_get_SomeD split: if_splits option.splits) (force)+

text \<open>Every text after a prefix and before its successor starts with it.\<close>

lemma next_char_valid:
  "valid_char c \<Longrightarrow> valid_char d \<Longrightarrow> next_char c = Some n \<Longrightarrow> d < n \<longleftrightarrow> d \<le> c"
  "valid_char d \<Longrightarrow> next_char c = None \<Longrightarrow> d \<le> c"
  by (auto simp: next_char_def valid_char_def split: if_splits)

lemma append_le: "p @ a \<le> p @ b \<longleftrightarrow> a \<le> (b :: rstring)"
  by (induction p) auto

lemma successor_last:
  assumes "valid_char c" and "next_char c = Some n"
  shows "valid_str k \<Longrightarrow> p @ [c] \<le> k \<Longrightarrow> starts_with k (p @ [c]) \<longleftrightarrow> k < p @ [n]"
proof (induction p arbitrary: k)
  case Nil
  then obtain d ds where k: "k = d # ds" "valid_char d" by (cases k) auto
  with Nil assms next_char_valid(1) [OF assms(1) k(2) assms(2)] show ?case by (auto simp: starts_with_def)
next
  case (Cons a p)
  then obtain d ds where k: "k = d # ds" "valid_str ds" by (cases k) auto
  with Cons show ?case by (auto simp: starts_with_def)
qed

lemma successor_above:
  "valid_str p \<Longrightarrow> valid_str k \<Longrightarrow> p \<le> k \<Longrightarrow>
    starts_with k p \<longleftrightarrow> (case successor_loop (rev p) of Some e \<Rightarrow> k < e | None \<Rightarrow> True)"
proof (induction p rule: rev_induct)
  case Nil
  then show ?case by (simp add: starts_with_def)
next
  case (snoc c p)
  have v: "valid_str p" "valid_char c" using snoc.prems(1) by (simp_all add: valid_str_def)
  show ?case
  proof (cases "next_char c")
    case (Some n)
    with successor_last [OF v(2) Some snoc.prems(2,3)] show ?thesis by simp
  next
    case None
    have "p \<le> p @ [c]" by (rule prefix_le) (simp add: starts_with_def)
    with snoc.prems(3) have "p \<le> k" by simp
    have "starts_with k (p @ [c])" if pre: "starts_with k p"
    proof -
      obtain r where r: "k = p @ r" using pre by (auto simp: starts_with_iff)
      have "[c] \<le> r" using snoc.prems(3) r append_le [of p "[c]" r] by simp
      then obtain d ds where "r = d # ds" "c \<le> d" by (cases r) auto
      moreover have "d \<le> c" using next_char_valid(2) [OF _ None, of d] snoc.prems(2) r calculation by (auto simp: valid_str_def)
      ultimately show ?thesis using r by (simp add: starts_with_def)
    qed
    moreover have "starts_with k (p @ [c]) \<Longrightarrow> starts_with k p" by (auto simp: starts_with_iff)
    ultimately show ?thesis using snoc.IH [OF v(1) snoc.prems(2) \<open>p \<le> k\<close>] None by auto
  qed
qed

text \<open>A piece is the next keys of the prefix in the direction of the reading.\<close>

definition keys_beyond :: "rstring \<Rightarrow> rstring option \<Rightarrow> bool \<Rightarrow> inner \<Rightarrow> rstring list" where
  "keys_beyond prefix from reverse s =
     directed reverse (filter (\<lambda>k. starts_with k prefix \<and> beyond reverse from k) (map fst (i_index s)))"

definition texts_ok :: "rstring \<Rightarrow> inner \<Rightarrow> bool" where
  "texts_ok pattern s \<longleftrightarrow> valid_str pattern \<and> (\<forall>k \<in> fst ` set (i_index s). valid_str k)"

lemma texts_ok_reads: "reads_from Q now s s' \<Longrightarrow> texts_ok pattern s \<Longrightarrow> texts_ok pattern s'"
  unfolding texts_ok_def reads_from_def by blast

lemma takeWhile_prefix_keys:
  assumes "sorted_wrt (<) ks" and "\<And>k. k \<in> set ks \<Longrightarrow> p \<le> k"
  shows "takeWhile (\<lambda>k. starts_with k p) ks = filter (\<lambda>k. starts_with k p) ks"
proof (rule takeWhile_closed, rule sorted_wrt_mono_rel [OF _ assms(1)])
  fix x y assume "x \<in> set ks" "x < y"
  then show "starts_with y p \<longrightarrow> starts_with x p" using prefix_convex [of y p x] assms(2) by auto
qed

lemma forward_chunk:
  assumes "store_ok E s"
  shows "prefix_chunk pattern from False s = take CHUNK (keys_beyond (glob_prefix pattern) from False s)"
proof -
  let ?p = "glob_prefix pattern"
  define ks where "ks = map fst (i_index s)"
  define lo where "lo = (\<lambda>k. case from of Some f \<Rightarrow> if f \<ge> ?p then f < k else ?p \<le> k | None \<Rightarrow> ?p \<le> k)"
  have ge: "?p \<le> k" if "lo k" for k using that by (auto simp: lo_def split: option.splits if_splits)
  have iff: "lo k \<longleftrightarrow> beyond False from k" if "starts_with k ?p" for k
    using prefix_le [OF that] by (auto simp: lo_def beyond_def before_def split: option.splits)
  have "takeWhile (\<lambda>k. starts_with k ?p) (filter lo ks) = filter (\<lambda>k. starts_with k ?p) (filter lo ks)"
    by (rule takeWhile_prefix_keys) (use index_sorted [OF assms] ge in \<open>auto simp: ks_def intro: sorted_wrt_filter\<close>)
  also have "\<dots> = filter (\<lambda>k. starts_with k ?p \<and> beyond False from k) ks"
    unfolding filter_filter by (intro filter_cong refl) (use iff in blast)
  finally show ?thesis
    unfolding prefix_chunk_def keys_beyond_def directed_def Let_def ks_def lo_def by simp
qed

lemma backward_chunk:
  assumes "store_ok E s" and "texts_ok pattern s"
  shows "prefix_chunk pattern from True s = take CHUNK (keys_beyond (glob_prefix pattern) from True s)"
proof (cases "case from of Some f \<Rightarrow> f \<le> glob_prefix pattern | None \<Rightarrow> False")
  case True
  then obtain f where f: "from = Some f" "f \<le> glob_prefix pattern" by (auto split: option.splits)
  have "\<not> (starts_with k (glob_prefix pattern) \<and> beyond True from k)" for k
    using f prefix_le [of k "glob_prefix pattern"] by (auto simp: beyond_def before_def)
  then show ?thesis using True by (simp add: prefix_chunk_def keys_beyond_def directed_def)
next
  case False
  let ?p = "glob_prefix pattern"
  define ks where "ks = map fst (i_index s)"
  define hi where "hi = (case (from, prefix_successor ?p) of (Some f, Some e) \<Rightarrow> Some (if e < f then e else f)
    | (Some f, None) \<Rightarrow> Some f | (None, Some e) \<Rightarrow> Some e | (None, None) \<Rightarrow> None)"
  have "valid_str ?p" using assms(2) by (auto simp: texts_ok_def valid_str_def glob_prefix_def list_all_iff dest: set_takeWhileD)
  then have iff: "(?p \<le> k \<and> (case hi of Some h \<Rightarrow> k < h | None \<Rightarrow> True)) \<longleftrightarrow> (starts_with k ?p \<and> beyond True from k)"
    if "k \<in> set ks" for k
    using successor_above [of ?p k] that assms(2) prefix_le [of k ?p]
    by (auto simp: hi_def texts_ok_def ks_def beyond_def before_def prefix_successor_def split: option.splits if_splits)
  have eq: "filter (\<lambda>k. ?p \<le> k \<and> (case hi of Some h \<Rightarrow> k < h | None \<Rightarrow> True)) ks =
      filter (\<lambda>k. starts_with k ?p \<and> beyond True from k) ks"
    using iff by (intro filter_cong) auto
  have tw: "takeWhile (\<lambda>k. starts_with k ?p) (rev (filter (\<lambda>k. starts_with k ?p \<and> beyond True from k) ks)) =
      rev (filter (\<lambda>k. starts_with k ?p \<and> beyond True from k) ks)"
    by (subst takeWhile_eq_all_conv) simp
  show ?thesis using False
    unfolding prefix_chunk_def keys_beyond_def directed_def Let_def hi_def [symmetric] ks_def [symmetric]
    by (simp add: eq tw del: takeWhile_eq_all_conv)
qed

lemma chunk_eq:
  assumes "store_ok E s" and "reverse \<longrightarrow> texts_ok pattern s"
  shows "prefix_chunk pattern from reverse s = take CHUNK (keys_beyond (glob_prefix pattern) from reverse s)"
  using forward_chunk [OF assms(1)] backward_chunk [OF assms(1)] assms(2) by (cases reverse) simp_all

lemma keys_beyond_facts:
  assumes "store_ok E s"
  shows "sorted_wrt (before r) (keys_beyond prefix from r s)" and "distinct (keys_beyond prefix from r s)"
    and "k \<in> set (keys_beyond prefix from r s) \<longleftrightarrow> k \<in> fst ` set (i_index s) \<and> starts_with k prefix \<and> beyond r from k"
proof -
  note so = sorted_wrt_filter [OF index_sorted [OF assms]]
  show "sorted_wrt (before r) (keys_beyond prefix from r s)" unfolding keys_beyond_def by (rule directed_sorted [OF so])
  have "distinct (filter (\<lambda>k. starts_with k prefix \<and> beyond r from k) (map fst (i_index s)))"
    using so by (simp add: strict_sorted_iff)
  then show "distinct (keys_beyond prefix from r s)" by (cases r) (simp_all add: keys_beyond_def directed_def)
  show "k \<in> set (keys_beyond prefix from r s) \<longleftrightarrow> k \<in> fst ` set (i_index s) \<and> starts_with k prefix \<and> beyond r from k"
    by (auto simp: keys_beyond_def)
qed

text \<open>After a piece, the keys left are those beyond its last one, less some that have expired.\<close>

lemma keys_after_chunk:
  assumes s: "store_ok (qe_engine Q) s" and s': "reads_from Q now s s'"
    and chunk: "chunk = take CHUNK (keys_beyond prefix from r s)" "chunk \<noteq> []"
  shows "set (keys_beyond prefix (Some (last chunk)) r s') \<subseteq> set (drop CHUNK (keys_beyond prefix from r s))"
    and "k \<in> fst ` set (i_index s') \<Longrightarrow> k \<in> set (drop CHUNK (keys_beyond prefix from r s)) \<Longrightarrow>
      k \<in> set (keys_beyond prefix (Some (last chunk)) r s')"
    and "length (keys_beyond prefix (Some (last chunk)) r s') < length (keys_beyond prefix from r s)"
proof -
  let ?L = "keys_beyond prefix from r s" and ?L' = "keys_beyond prefix (Some (last chunk)) r s'"
  have ok': "store_ok (qe_engine Q) s'" using s' by (simp add: reads_from_def)
  note f = keys_beyond_facts [OF s] and f' = keys_beyond_facts [OF ok']
  have split: "?L = chunk @ drop CHUNK ?L" using chunk(1) by simp
  have tr: "before r a b \<Longrightarrow> before r b c \<Longrightarrow> before r a c" for a b c by (auto simp: before_def split: if_splits)
  have irr: "\<not> before r a a" for a by (simp add: before_def)
  have sw: "sorted_wrt (before r) (chunk @ drop CHUNK ?L)" using f(1) [of r prefix "from"] split by metis
  have le: "x = last chunk \<or> before r x (last chunk)" if x: "x \<in> set chunk" for x
  proof -
    obtain ys where "chunk = ys @ [last chunk]" using chunk(2) by (metis append_butlast_last_id)
    then show ?thesis using sw x by (metis in_set_conv_decomp list.set_intros(1) set_append Un_iff sorted_wrt_append singletonD empty_set list.simps(15))
  qed
  have after: "before r (last chunk) x" if "x \<in> set (drop CHUNK ?L)" for x
    using sw that chunk(2) by (auto simp: sorted_wrt_append)
  have last_in: "last chunk \<in> set ?L" using chunk(2) split by (metis Un_iff last_in_set set_append)
  show sub: "set ?L' \<subseteq> set (drop CHUNK ?L)"
  proof
    fix x assume x: "x \<in> set ?L'"
    then have b: "before r (last chunk) x" "starts_with x prefix" "x \<in> fst ` set (i_index s')"
      using f'(3) by (auto simp: beyond_def)
    have "beyond r from (last chunk)" using last_in f(3) by blast
    then have "beyond r from x" using b(1) tr by (auto simp: beyond_def split: option.splits)
    moreover have "x \<in> fst ` set (i_index s)" using b(3) s' by (auto simp: reads_from_def)
    ultimately have "x \<in> set ?L" using f(3) b(2) by blast
    then have "x \<in> set chunk \<or> x \<in> set (drop CHUNK ?L)" using split by (metis Un_iff set_append)
    moreover have "x \<notin> set chunk" using le b(1) tr irr by blast
    ultimately show "x \<in> set (drop CHUNK ?L)" by blast
  qed
  show "k \<in> set ?L'" if k: "k \<in> fst ` set (i_index s')" "k \<in> set (drop CHUNK ?L)"
  proof -
    have "k \<in> set ?L" using k(2) by (rule in_set_dropD)
    then show ?thesis using k(1) after [OF k(2)] f(3) f'(3) by (auto simp: beyond_def)
  qed
  have "length ?L' = card (set ?L')" using f'(2) by (simp add: distinct_card)
  also have "\<dots> \<le> card (set (drop CHUNK ?L))" by (rule card_mono [OF _ sub]) simp
  also have "\<dots> \<le> length (drop CHUNK ?L)" by (rule card_length)
  also have "\<dots> < length ?L" using chunk by (simp add: CHUNK_def)
  finally show "length ?L' < length ?L" .
qed

lemma upto_append:
  "limit = 0 \<or> n + length xs < limit \<Longrightarrow> upto limit n (xs @ ys) = upto limit n xs @ upto limit (n + length (upto limit n xs)) ys"
  "limit \<noteq> 0 \<Longrightarrow> limit \<le> n + length xs \<Longrightarrow> upto limit n (xs @ ys) = upto limit n xs"
  by (auto simp: upto_def)

lemma prefix_loop_ok:
  "length (keys_beyond (glob_prefix (q_pattern q)) from r s) < n \<Longrightarrow> store_ok (qe_engine Q) s \<Longrightarrow>
    r \<longrightarrow> texts_ok (q_pattern q) s \<Longrightarrow> limit = 0 \<or> me_returned m < limit \<Longrightarrow> C = contents (qe_engine Q) now s \<Longrightarrow>
    \<exists>m' s'. prefix_loop n (q_pattern q) r (read_keys Q q now limit push_row) from (m, rows, s) =
        Some (Inr (), m', rows @ upto limit (me_returned m) (picks Q q C (keys_beyond (glob_prefix (q_pattern q)) from r s)), s') \<and>
      reads_from Q now s s' \<and>
      me_returned m' = me_returned m + length (upto limit (me_returned m) (picks Q q C (keys_beyond (glob_prefix (q_pattern q)) from r s)))"
proof (induction n arbitrary: "from" m rows s)
  case (Suc n)
  let ?p = "glob_prefix (q_pattern q)"
  let ?L = "keys_beyond ?p from r s"
  define chunk where "chunk = prefix_chunk (q_pattern q) from r s"
  have chunk: "chunk = take CHUNK ?L" unfolding chunk_def by (rule chunk_eq [OF Suc.prems(2,3)])
  show ?case
  proof (cases "chunk = []")
    case True
    then have "?L = []" using chunk by (simp add: CHUNK_def)
    with True Suc.prems(2) show ?thesis by (auto simp: chunk_def [symmetric] upto_def reads_from_refl)
  next
    case False
    let ?P = "picks Q q C chunk"
    obtain m1 s1 where r1: "read_keys Q q now limit push_row chunk (m, rows, s) =
        (Inr (limit = 0 \<or> me_returned m + length ?P < limit), m1, rows @ upto limit (me_returned m) ?P, s1)"
      "reads_from Q now s s1" "me_returned m1 = me_returned m + length (upto limit (me_returned m) ?P)"
      using read_keys_ok [OF Suc.prems(2,4,5), of q chunk rows] by blast
    have split: "picks Q q C ?L = ?P @ picks Q q C (drop CHUNK ?L)" unfolding chunk by (metis append_take_drop_id picks_simps(3))
    show ?thesis
    proof (cases "limit = 0 \<or> me_returned m + length ?P < limit")
      case False
      then have "upto limit (me_returned m) (picks Q q C ?L) = upto limit (me_returned m) ?P"
        unfolding split by (intro upto_append(2)) auto
      with False r1 \<open>chunk \<noteq> []\<close> show ?thesis by (auto simp: chunk_def [symmetric])
    next
      case True
      have ok1: "store_ok (qe_engine Q) s1" "C = contents (qe_engine Q) now s1" "r \<longrightarrow> texts_ok (q_pattern q) s1"
        using r1(2) Suc.prems(3,5) texts_ok_reads [OF r1(2)] by (simp_all add: reads_from_def)
      note ka = keys_after_chunk [OF Suc.prems(2) r1(2) chunk False]
      let ?L1 = "keys_beyond ?p (Some (last chunk)) r s1"
      have same: "picks Q q C ?L1 = picks Q q C (drop CHUNK ?L)"
      proof (rule picks_cong [where r = r])
        show "sorted_wrt (before r) ?L1" by (rule keys_beyond_facts(1) [OF ok1(1)])
        show "sorted_wrt (before r) (drop CHUNK ?L)"
          using keys_beyond_facts(1) [OF Suc.prems(2), of r ?p "from"] by (rule sorted_wrt_drop)
        fix k assume "picked Q q C k \<noteq> None"
        then have "k \<in> fst ` set (i_index s1)" unfolding ok1(2) by (rule picked_in_index)
        with ka(1,2) show "k \<in> set ?L1 \<longleftrightarrow> k \<in> set (drop CHUNK ?L)" by blast
      qed
      have lim1: "limit = 0 \<or> me_returned m1 < limit" using True r1(3) by (auto simp: upto_def)
      have "length ?L1 < n" using ka(3) Suc.prems(1) by simp
      from Suc.IH [OF this ok1(1,3) lim1 ok1(2), of "rows @ upto limit (me_returned m) ?P"] obtain m' s' where
        r2: "prefix_loop n (q_pattern q) r (read_keys Q q now limit push_row) (Some (last chunk)) (m1, rows @ upto limit (me_returned m) ?P, s1) =
          Some (Inr (), m', (rows @ upto limit (me_returned m) ?P) @ upto limit (me_returned m1) (picks Q q C ?L1), s')"
        "reads_from Q now s1 s'" "me_returned m' = me_returned m1 + length (upto limit (me_returned m1) (picks Q q C ?L1))"
        by blast
      have "upto limit (me_returned m) (picks Q q C ?L) = upto limit (me_returned m) ?P @ upto limit (me_returned m1) (picks Q q C ?L1)"
        unfolding split same r1(3) by (rule upto_append(1) [OF True])
      with r1 r2 True False reads_from_trans [OF r1(2) r2(2)] show ?thesis by (auto simp: chunk_def [symmetric])
    qed
  qed
qed simp

subsection \<open>The answer of a query\<close>

text \<open>
  The documents of the pattern that satisfy the condition, of the keys beyond the page's place, in the
  direction asked for, up to the limit.
\<close>

definition query_rows :: "query_env \<Rightarrow> query \<Rightarrow> read_opts \<Rightarrow> int \<Rightarrow> inner \<Rightarrow> (rstring \<times> kvalue) list" where
  "query_rows Q q opts now s =
     (let keys = directed (rd_reverse opts) (filter (beyond (rd_reverse opts) (rd_after opts)) (map fst (i_index s)));
          rows = picks Q q (contents (qe_engine Q) now s) keys
      in if rd_limit opts = 0 then rows else take (rd_limit opts) rows)"

text \<open>
  What the answer needs of the query and of the workspace: the expression is one the language makes, with
  no \<^verbatim>\<open>$datetime\<close> moment in it; the indexes have the paths of their fields; no key holds a \<open>*\<close>.
\<close>

definition query_ok :: "query_env \<Rightarrow> query \<Rightarrow> int \<Rightarrow> inner \<Rightarrow> bool" where
  "query_ok Q q now s \<longleftrightarrow>
     (case q_expr q of None \<Rightarrow> True | Some e \<Rightarrow> expr_ok (q_pattern q) e \<and> all_conds cond_ok e) \<and>
     (\<forall>si \<in> set (i_sec s). index_wf si) \<and> (\<forall>k \<in> fst ` set (i_index s). ch CHR ''*'' \<notin> set k) \<and>
     (\<forall>k v ex d. contents (qe_engine Q) now s k = Some (v, ex) \<longrightarrow> doc_view_of v = Some d \<longrightarrow> view_ok d)"

lemma page_keys_eq:
  assumes "sorted_wrt (<) ks"
  shows "page_keys after r ks = filter (beyond r after) ks"
proof (cases after)
  case (Some a)
  have tw: "takeWhile (\<lambda>k. k < a) ks = filter (\<lambda>k. k < a) ks"
    by (rule takeWhile_closed, rule sorted_wrt_mono_rel [OF _ assms]) auto
  have "dropWhile (\<lambda>k. k \<le> a) ks = filter (\<lambda>k. a < k) ks"
    using assms
  proof (induction ks)
    case (Cons k ks)
    show ?case
    proof (cases "k \<le> a")
      case False
      then have "\<forall>x \<in> set ks. a < x" using Cons.prems by auto
      with False show ?thesis by simp
    qed (use Cons in simp)
  qed simp
  moreover have "beyond r (Some a) = (if r then (\<lambda>k. k < a) else (\<lambda>k. a < k))" by (auto simp: fun_eq_iff beyond_def before_def)
  ultimately show ?thesis using tw Some by (simp add: page_keys_def)
qed (simp add: page_keys_def beyond_def)

lemma picked_selects:
  assumes s: "store_ok (qe_engine Q) s" and q: "query_ok Q q now s" and k: "picked Q q (contents (qe_engine Q) now s) k \<noteq> None"
  obtains d where "selects (qe_docs Q) (i_sec s) (q_pattern q) k d" "query_matches (qe_docs Q) (qe_times Q) q d"
proof -
  let ?E = "qe_engine Q"
  obtain v ex d where v: "glob_match (q_pattern q) k" "contents ?E now s k = Some (v, ex)" "doc_view_of v = Some d"
    "query_matches (qe_docs Q) (qe_times Q) q d"
    using k by (auto simp: picked_def split: if_splits option.splits)
  obtain e where e: "om_get (i_index s) k = Some e" "entry_value ?E (i_file s) e = Some v"
    using v(2) by (auto simp: contents_def at_time_def stored_def bind_eq_Some_conv split: option.splits if_splits)
  have key: "k \<in> fst ` set (i_index s)" by (rule picked_in_index [OF k])
  have docs: "docs_of ?E (i_file s) (i_index s) k = Some d" using e v(3) by (simp add: docs_of_def)
  have "index_wf si \<and> sec_ok si \<and> (glob_match (si_pattern si) k \<longrightarrow> om_get (si_rev si) k = sec_value (qe_docs Q) si d)"
    if si: "si \<in> set (i_sec s)" for si
  proof -
    have "represents (qe_docs Q) si (docs_of ?E (i_file s) (i_index s))" using s si by (auto simp: store_ok_def list_all_iff)
    with si q docs show ?thesis by (simp add: represents_def query_ok_def)
  qed
  moreover have "view_ok d" using q v(2,3) unfolding query_ok_def by blast
  moreover have "ch CHR ''*'' \<notin> set k" using q key unfolding query_ok_def by blast
  ultimately have "selects (qe_docs Q) (i_sec s) (q_pattern q) k d" using v(1) by (simp add: selects_def)
  then show thesis using v(4) by (rule that)
qed

lemma listed_keys:
  assumes s: "store_ok (qe_engine Q) s" and q: "query_ok Q q now s" and e: "q_expr q = Some e"
    and p: "index_plan (qe_lower Q) (qe_times Q) (i_sec s) e = Some p"
  shows "sorted_wrt (<) (ip_keys p)"
    and "picked Q q (contents (qe_engine Q) now s) k \<noteq> None \<Longrightarrow> k \<in> set (ip_keys p)"
proof -
  have "\<forall>si \<in> set (i_sec s). sec_ok si" using s by (auto simp: store_ok_def list_all_iff represents_def)
  from index_plan_sorted [OF p this] show "sorted_wrt (<) (ip_keys p)" by (simp add: holds_keys_def)
  assume k: "picked Q q (contents (qe_engine Q) now s) k \<noteq> None"
  obtain d where d: "selects (qe_docs Q) (i_sec s) (q_pattern q) k d" "query_matches (qe_docs Q) (qe_times Q) q d"
    by (rule picked_selects [OF s q k])
  have "expr_ok (q_pattern q) e" "all_conds cond_ok e" using q e by (auto simp: query_ok_def)
  with index_plan_holds [OF d(1) p] d(2) e show "k \<in> set (ip_keys p)" by (simp add: query_matches_def holds_keys_def)
qed

lemma choose_unordered:
  assumes "rd_order opts = None"
  shows "ch_source (choose_source Q q opts counted s) =
    (case Option.bind (q_expr q) (index_plan (qe_lower Q) (qe_times Q) (i_sec s)) of Some p \<Rightarrow> SKeys (ip_keys p) | None \<Rightarrow> SPrefix)"
  using assms by (auto simp: choose_source_def choose_walk_def Let_def split: option.splits prod.splits if_splits)

lemma run_key_order:
  assumes s: "store_ok (qe_engine Q) s" and q: "query_ok Q q now s" and o: "rd_order opts = None"
    and r: "rd_reverse opts \<longrightarrow> texts_ok (q_pattern q) s" and m: "me_returned m = 0"
  shows "\<exists>m' s'. run_in_key_order Q q opts now push_row (ch_source (choose_source Q q opts counted s)) (m, [], s) =
      Some (Inr (), m', query_rows Q q opts now s, s') \<and> reads_from Q now s s' \<and> me_returned m' = length (query_rows Q q opts now s)"
proof -
  let ?C = "contents (qe_engine Q) now s" and ?r = "rd_reverse opts"
  let ?ks = "directed ?r (filter (beyond ?r (rd_after opts)) (map fst (i_index s)))"
  have rows: "query_rows Q q opts now s = upto (rd_limit opts) (me_returned m) (picks Q q ?C ?ks)"
    by (simp add: query_rows_def upto_def m Let_def)
  have sorted: "sorted_wrt (before ?r) ?ks" by (rule directed_sorted [OF sorted_wrt_filter [OF index_sorted [OF s]]])
  have lim: "rd_limit opts = 0 \<or> me_returned m < rd_limit opts" using m by auto
  show ?thesis
  proof (cases "Option.bind (q_expr q) (index_plan (qe_lower Q) (qe_times Q) (i_sec s))")
    case (Some p)
    then obtain e where e: "q_expr q = Some e" "index_plan (qe_lower Q) (qe_times Q) (i_sec s) e = Some p"
      by (auto simp: bind_eq_Some_conv)
    note lk = listed_keys [OF s q e]
    let ?ls = "directed ?r (filter (beyond ?r (rd_after opts)) (ip_keys p))"
    have "picks Q q ?C ?ls = picks Q q ?C ?ks"
    proof (rule picks_cong [OF directed_sorted [OF sorted_wrt_filter [OF lk(1)]] sorted])
      fix k assume "picked Q q ?C k \<noteq> None"
      with lk(2) picked_in_index show "k \<in> set ?ls \<longleftrightarrow> k \<in> set ?ks" by fastforce
    qed
    moreover have "ch_source (choose_source Q q opts counted s) = SKeys (ip_keys p)" using choose_unordered [OF o] Some by simp
    moreover have "(if ?r then rev (page_keys (rd_after opts) ?r (ip_keys p)) else page_keys (rd_after opts) ?r (ip_keys p)) = ?ls"
      by (simp add: page_keys_eq [OF lk(1)] directed_def)
    moreover obtain m' s' where "read_keys Q q now (rd_limit opts) push_row ?ls (m, [], s) =
        (Inr (rd_limit opts = 0 \<or> me_returned m + length (picks Q q ?C ?ls) < rd_limit opts), m',
         [] @ upto (rd_limit opts) (me_returned m) (picks Q q ?C ?ls), s')" "reads_from Q now s s'"
        "me_returned m' = me_returned m + length (upto (rd_limit opts) (me_returned m) (picks Q q ?C ?ls))"
      using read_keys_ok [OF s lim refl, where q = q and ks = ?ls and rows = "[]"] by blast
    ultimately show ?thesis by (simp add: run_in_key_order_def Let_def rows m)
  next
    case None
    let ?L = "keys_beyond (glob_prefix (q_pattern q)) (rd_after opts) ?r s"
    have "picks Q q ?C ?L = picks Q q ?C ?ks"
    proof (rule picks_cong [OF keys_beyond_facts(1) [OF s] sorted])
      fix k assume "picked Q q ?C k \<noteq> None"
      with picked_prefix show "k \<in> set ?L \<longleftrightarrow> k \<in> set ?ks" by (auto simp: keys_beyond_def)
    qed
    moreover have "ch_source (choose_source Q q opts counted s) = SPrefix" using choose_unordered [OF o] None by simp
    moreover have "length ?L < Suc (length (i_index s))"
      by (simp add: keys_beyond_def less_Suc_eq_le)
    ultimately show ?thesis
      using prefix_loop_ok [of q "rd_after opts" ?r s "Suc (length (i_index s))" Q "rd_limit opts" m ?C now "[]", OF _ s r lim refl]
      by (simp add: run_in_key_order_def rows m del: prefix_loop.simps)
  qed
qed


definition demo_query_env :: query_env where
  "demo_query_env = \<lparr>qe_engine = demo_env, qe_order = \<lparr>oe_times = no_times, oe_time_text = \<lambda>_. [], oe_instant_text = \<lambda>_. [],
     oe_ymd = \<lambda>_ _ _. None, oe_date_text = \<lambda>_. []\<rparr>, qe_sqrt = id\<rparr>"

definition demo_query :: query where
  "demo_query = \<lparr>q_pattern = lit ''*'', q_expr = Some (ETest \<lparr>t_cond = \<lparr>cd_pattern = lit ''*'', cd_field = lit ''id'', cd_op = CGe,
     cd_value = JString [], cd_func = None\<rparr>, t_path = [Key (lit ''id'')]\<rparr>)\<rparr>"

lemma demo_query_ok:
  assumes put: "put_locked demo_env (demo_call 5) (lit ''a'') demo_doc 0 False (c_secs (demo_call 5)) demo_unique = (Inr b, s)"
    and ready: "put_ready demo_env (demo_call 5) demo_doc 0 (c_secs (demo_call 5))" and keys: "map fst (i_index s) = [lit ''a'']"
  shows "store_ok demo_env s" and "contents demo_env 5 s = [lit ''a'' \<mapsto> (demo_doc, 0)]"
    and "query_ok demo_query_env demo_query 5 s"
    and "picked demo_query_env demo_query [lit ''a'' \<mapsto> (demo_doc, 0)] k = (if k = lit ''a'' then Some demo_doc else None)"
proof -
  note ok = put_locked_ok [OF demo_unique_ok(1) ready put]
  have e: "stored demo_env demo_unique = (\<lambda>_. None)"
    by (simp add: fun_eq_iff stored_def demo_unique_def demo_inner_def open_inner_def recount_def)
  show "store_ok demo_env s" by (rule ok(1))
  show c: "contents demo_env 5 s = [lit ''a'' \<mapsto> (demo_doc, 0)]"
    using ok(2) unfolding e contents_def by (auto simp: fun_eq_iff at_time_def demo_call_def dead_def)
  have id: "parse_path (lit ''id'') = Inr [Key (lit ''id'')]"
    by (simp add: parse_path_def trim_str_def is_whitespace_def parse_segs.simps)
  have "map sec_def (i_sec s) = map sec_def (i_sec demo_unique)" by (rule sec_defs_put [OF put])
  then obtain si where si: "i_sec s = [si]" "sec_def si = sec_def (sec_new (lit ''*'') (lit ''id'') [[Key (lit ''id'')]] BTree True)"
    by (auto simp: demo_unique_def)
  then have "index_wf si" using id by (simp add: index_wf_def sec_def_def sec_new_def)
  moreover have "expr_ok (lit ''*'') (the (q_expr demo_query))" "all_conds cond_ok (the (q_expr demo_query))"
    using id by (simp_all add: demo_query_def check_field_def check_value_def scalar_value_def cond_ok_def no_moment_def tagged_def)
  moreover have "fst ` set (i_index s) = {lit ''a''}" using arg_cong [OF keys, of set] by simp
  then have "\<forall>k \<in> fst ` set (i_index s). ch CHR ''*'' \<notin> set k" by simp
  ultimately show "query_ok demo_query_env demo_query 5 s"
    unfolding query_ok_def
    by (intro conjI) (auto simp: demo_query_def demo_query_env_def si(1) c view_ok_def demo_doc_def doc_view_of_def split: if_splits)
  have "glob_match (lit ''*'') (lit ''a'')" by code_simp
  then show "picked demo_query_env demo_query [lit ''a'' \<mapsto> (demo_doc, 0)] k = (if k = lit ''a'' then Some demo_doc else None)"
    by (simp add: picked_def demo_query_def demo_doc_def doc_view_of_def query_matches_def view_get_def dp_get_def doc_tree_def
        cond_test_leaf_def leaf_decimal_def cond_test_def leaf_json_def compare_json_def compare_one_def tagged_def plain_order_def
        verdict_def cmp_of_def)
qed


end
