(* ===== verification/Spec2Isabelle.thy ===== *)
theory Spec2Isabelle
  imports ScanLog Util Cache SecIndex Safety BatchKeys Conflict Compact Election PubSub Converge KeyOrder
begin

text \<open>
  A verification development for KivaDB, a key-value database written in Rust (\<^verbatim>\<open>src/src\<close>): an
  append-only data file of checksummed records, an index in memory, optional compression and
  encryption, typed documents with paths and secondary indexes, a change journal, transactions.

  The parts and their theories.

  \<^item> \<^verbatim>\<open>Prelude\<close>, \<^verbatim>\<open>OrdMap\<close>, \<^verbatim>\<open>Text\<close>, \<^verbatim>\<open>Wildcard\<close>: bytes, words, UTF-8, ordered maps and texts as the Rust
    standard library has them, with the lemmas every component uses. A \<^verbatim>\<open>BTreeMap\<close> is a sorted
    association list, a Rust string a list of code points, \<^verbatim>\<open>Result\<close> a sum with the error on the left.
  \<^item> \<^verbatim>\<open>Compress\<close> (\<^verbatim>\<open>compress.rs\<close>, \<^verbatim>\<open>error.rs\<close>), \<^verbatim>\<open>Format\<close> (\<^verbatim>\<open>format.rs\<close>), \<^verbatim>\<open>Crypt\<close> (\<^verbatim>\<open>crypt.rs\<close>), \<^verbatim>\<open>Types\<close>: one
    record of the data file from its value to its bytes and back. The checksum, the codecs and AES-GCM
    are parameters; \<^verbatim>\<open>codec_ok\<close> and \<^verbatim>\<open>aead_ok\<close> say what they are documented to do.
  \<^item> \<^verbatim>\<open>ScanLog\<close> (\<^verbatim>\<open>engine.rs\<close>, \<^verbatim>\<open>scan_log\<close>): the replay of a data file. A crash leaves a prefix of the file;
    the replay gives the state of the single records and whole batches in it.
  \<^item> \<^verbatim>\<open>Numbers\<close>, \<^verbatim>\<open>Doc\<close>, \<^verbatim>\<open>Json\<close>, \<^verbatim>\<open>Path\<close>, \<^verbatim>\<open>Value\<close> (\<^verbatim>\<open>num.rs\<close>, \<^verbatim>\<open>doc.rs\<close>, \<^verbatim>\<open>jsonpath.rs\<close>, \<^verbatim>\<open>docpath.rs\<close>, \<^verbatim>\<open>value.rs\<close>):
    values and documents, their exact order, their binary form KDOC and changes through paths. Floats
    are their 64 bits; decimals are a coefficient and an exponent.
  \<^item> \<^verbatim>\<open>SecIndex\<close> (\<^verbatim>\<open>engine.rs\<close>, \<^verbatim>\<open>view.rs\<close>), \<^verbatim>\<open>Cache\<close> (\<^verbatim>\<open>cache.rs\<close>), \<^verbatim>\<open>Util\<close> (\<^verbatim>\<open>util.rs\<close>), \<^verbatim>\<open>Hint\<close> (\<^verbatim>\<open>hint.rs\<close>),
    \<^verbatim>\<open>Journal\<close> (\<^verbatim>\<open>changes.rs\<close>): secondary indexes, the value cache, patterns and encodings, the index
    snapshot, the change journal.
  \<^item> \<^verbatim>\<open>Engine\<close>, \<^verbatim>\<open>Batch\<close>, \<^verbatim>\<open>Open\<close> (\<^verbatim>\<open>engine.rs\<close>): the record \<^verbatim>\<open>inner\<close> is the state behind the engine's lock; each
    public operation is a function from a \<^verbatim>\<open>call\<close> (the clock, the random source, the disk fault of that
    call) and the state to a result and the state.
  \<^item> \<^verbatim>\<open>Books\<close>, \<^verbatim>\<open>Store\<close>, \<^verbatim>\<open>Log\<close>: the invariant of the engine (the counters, the entries point at readable
    records, cache and indexes agree with them) and that each operation keeps it.
  \<^item> \<^verbatim>\<open>Frame\<close>: what a call leaves alone (versions, and the bytes already written).
  \<^item> \<^verbatim>\<open>Compact\<close> (\<^verbatim>\<open>engine.rs\<close>, \<^verbatim>\<open>compact_impl\<close>): the three phases of a compaction, with other calls in between.
  \<^item> \<^verbatim>\<open>Refine\<close>, \<^verbatim>\<open>Durable\<close>, \<^verbatim>\<open>Safety\<close>, \<^verbatim>\<open>Conflict\<close>, \<^verbatim>\<open>BatchKeys\<close>: what the engine promises.

  \<^item> \<^verbatim>\<open>Query\<close> (\<^verbatim>\<open>query.rs\<close>, the conditions of \<^verbatim>\<open>engine.rs\<close>): comparisons, \<^verbatim>\<open>like\<close> patterns, expressions and
    their reading from JSON. \<^verbatim>\<open>Plan\<close>: which index answers which part of an expression and the keys it
    lists. \<^verbatim>\<open>Narrow\<close>: the keys an index lists are those whose documents can satisfy the expression.
    \<^verbatim>\<open>Ordering\<close> (\<^verbatim>\<open>engine/ordering.rs\<close>), \<^verbatim>\<open>RunQuery\<close> (\<^verbatim>\<open>run_query\<close>): the rows of \<^verbatim>\<open>order by\<close>, the choice of the
    source and the readings. \<^verbatim>\<open>KeyOrder\<close>: a query in key order is exact. The readings that go by
    chunks carry one more round than the index has keys, which is shown to be enough.

  \<^item> \<^verbatim>\<open>Failover\<close>, \<^verbatim>\<open>Election\<close> (\<^verbatim>\<open>failover.rs\<close>, the group of \<^verbatim>\<open>repl.rs\<close>): a node's votes, epochs and elections, and
    a group of nodes as a step relation (locale \<^verbatim>\<open>voting\<close>, interpreted on it).
  \<^item> \<^verbatim>\<open>Proto\<close> (\<^verbatim>\<open>proto.rs\<close>), \<^verbatim>\<open>PubSub\<close> (\<^verbatim>\<open>pubsub.rs\<close>), \<^verbatim>\<open>Lexer\<close> (\<^verbatim>\<open>lexer.rs\<close>), \<^verbatim>\<open>Kva\<close> (\<^verbatim>\<open>kva.rs\<close>): frames of the wire
    protocol, channels and patterns, tokens of a command, command files.
  \<^item> \<^verbatim>\<open>Replicate\<close>, \<^verbatim>\<open>Mirror\<close>, \<^verbatim>\<open>Emits\<close>, \<^verbatim>\<open>Converge\<close> (\<^verbatim>\<open>repl.rs\<close>, the workspaces of \<^verbatim>\<open>instance.rs\<close>): the stream of a master
    and the loop of a replica; every frame as an update of maps; what a master's operations and its
    snapshot say of it; and that a replica ends with what its master holds.

  What the theorems show. The engine refines a map from keys to values with deadlines, for any
  sequence of calls at times that do not go back (locale \<^verbatim>\<open>timed_simulation\<close>, interpreted on the engine);
  a crash at any byte leaves the state of some moment between two calls; the counters are exact;
  failed writes change nothing; unique indexes stay unique; a transaction that commits has lost no
  update and watched keys are as they were; a compaction is invisible to the calls around it. Below the engine: the round trips of every encoding, the
  exact order of numbers, the accounting of the cache and its coherence (locale \<^verbatim>\<open>version_cache\<close>), the
  postings of an index as a function of the documents, the laws of paths. In front of it: at most one
  master per epoch when a majority of the group decides, a replica that converges
  to its master, deliveries of messages, tokens and files that read back. A query in key order returns exactly the
  matching documents whatever indexes there are, for conditions without a moment in time, keys without a
  star, and, backwards, keys that are valid texts. Theorems also state where the code departs from its documentation: a pattern and a text with
  a star, a batch with a damaged record, a batch in an encrypted workspace, a conflict with a write that
  has expired, two masters in one epoch when heartbeats shrink the group, and a bracket after a quote.

  Loops. All functions are total. \<^verbatim>\<open>scan_loop\<close> and the other readers recurse on the length of the bytes
  left; \<^verbatim>\<open>purge_loop\<close> counts rounds, and one round per deadline is shown to be enough.

  Bounds. Keys have at most 1024 bytes and values at most 256 MB, as the engine checks; deadlines and
  clocks fit 64 bits. Offsets and sequence numbers are natural numbers: the code's 64-bit counters do
  not wrap on a file that fits a disk.

  Not modelled. Threads and locks (each operation runs under the lock of the engine), the waiting for
  the disk of group commit, vector indexes and schemas, aggregations, the
  calendar (the texts of dates and times are parameters of the queries), the servers and
  the Redis commands in front of the engine, accounts, scripts, backup and the command line.
\<close>

end
